(* ===== verification/Bleavit_Prelude.thy ===== *)
theory Bleavit_Prelude
  imports Complex_Main
begin

text \<open>
  Shared vocabulary of the development.

  \<^item> The client throws on every refusal. A fallible function of the source is a HOL
    function into the sum type \<open>result\<close>: \<open>Inl\<close> is the thrown error, \<open>Inr\<close> the
    returned value. \<open>rbind\<close> is sequencing: the first throw ends the evaluation.
  \<^item> A BigInt of the source is an \<open>int\<close>: BigInts are unbounded, and every width ceiling
    (u64, u128, u256) of the source is an explicit comparison, written out as it is there.
  \<^item> \<open>a >> n\<close> on a BigInt rounds towards minus infinity and is \<open>a div 2 ^ n\<close>;
    \<open>a << n\<close> is \<open>a * 2 ^ n\<close>; \<open>a / b\<close> on BigInts truncates towards zero, and equals
    \<open>div\<close> wherever it is used below (non-negative operands).
  \<^item> The collections \<open>result_simps\<close> and \<open>kernel_bounds\<close> gather the facts the
    component proofs share.
\<close>

named_theorems result_simps \<open>evaluation of fallible code\<close>
named_theorems kernel_bounds \<open>range facts about the arithmetic kernels\<close>

subsection \<open>Fallible code\<close>

type_synonym ('e, 'a) result = "'e + 'a"

definition rbind :: "('e, 'a) result \<Rightarrow> ('a \<Rightarrow> ('e, 'b) result) \<Rightarrow> ('e, 'b) result" where
  "rbind m f = (case m of Inl e \<Rightarrow> Inl e | Inr x \<Rightarrow> f x)"

lemma rbind_simps [simp, result_simps]:
  "rbind (Inl e) f = Inl e"
  "rbind (Inr x) f = f x"
  by (simp_all add: rbind_def)

lemma rbind_eq_Inr_iff [result_simps]:
  "rbind m f = Inr y \<longleftrightarrow> (\<exists>x. m = Inr x \<and> f x = Inr y)"
  by (cases m) auto

text \<open>\<open>xs.flatMap(f)\<close> where the callback may throw: the first throw ends it.\<close>

fun flat_map_result :: "('x \<Rightarrow> ('e, 'y list) result) \<Rightarrow> 'x list \<Rightarrow> ('e, 'y list) result" where
  "flat_map_result f [] = Inr []"
| "flat_map_result f (x # xs) =
     (case f x of
        Inl e \<Rightarrow> Inl e
      | Inr ys \<Rightarrow> (case flat_map_result f xs of Inl e \<Rightarrow> Inl e | Inr zs \<Rightarrow> Inr (ys @ zs)))"

lemma rbind_eq_Inl_iff:
  "rbind m f = Inl e \<longleftrightarrow> m = Inl e \<or> (\<exists>x. m = Inr x \<and> f x = Inl e)"
  by (cases m) auto

lemma rbind_Inr_E [elim?]:
  assumes "rbind m f = Inr y"
  obtains x where "m = Inr x" and "f x = Inr y"
  using assms by (auto simp: rbind_eq_Inr_iff)

lemma rbind_assoc: "rbind (rbind m f) g = rbind m (\<lambda>x. rbind (f x) g)"
  by (cases m) auto

lemma rbind_Inr_id [simp]: "rbind m Inr = m"
  by (cases m) auto

definition returns :: "('e, 'a) result \<Rightarrow> bool" where
  "returns m \<longleftrightarrow> (case m of Inl _ \<Rightarrow> False | Inr _ \<Rightarrow> True)"

lemma returns_iff: "returns m \<longleftrightarrow> (\<exists>x. m = Inr x)"
  by (cases m) (auto simp: returns_def)

lemma returns_simps [simp]: "returns (Inr x)" "\<not> returns (Inl e)"
  by (simp_all add: returns_def)

subsection \<open>Integer division and rounding\<close>

lemma div_le_self_nonneg: "(0::int) \<le> a \<Longrightarrow> 0 < b \<Longrightarrow> a div b \<le> a"
  using zdiv_mono2 [of a 1 b] by simp

lemma le_div_iff_mult_le:
  assumes "(0::int) < b"
  shows "c \<le> a div b \<longleftrightarrow> c * b \<le> a"
proof
  assume "c \<le> a div b"
  then have "c * b \<le> (a div b) * b"
    using assms by (simp add: mult_right_mono)
  also have "\<dots> \<le> a"
    using assms by (simp add: minus_mod_eq_div_mult [symmetric])
  finally show "c * b \<le> a" .
next
  assume "c * b \<le> a"
  then have "(c * b) div b \<le> a div b"
    by (rule zdiv_mono1) (rule assms)
  then show "c \<le> a div b"
    using assms by simp
qed

lemma div_less_iff_less_mult_int:
  assumes "(0::int) < b"
  shows "a div b < c \<longleftrightarrow> a < c * b"
  using le_div_iff_mult_le [OF assms, of c a] by linarith

lemma mult_div_le_self: "(0::int) < b \<Longrightarrow> (a div b) * b \<le> a"
  by (simp add: minus_mod_eq_div_mult [symmetric])

lemma int_div_eq_iff:
  assumes "(0::int) < b"
  shows "a div b = q \<longleftrightarrow> q * b \<le> a \<and> a < (q + 1) * b"
proof -
  have "a div b = q \<longleftrightarrow> q \<le> a div b \<and> a div b < q + 1" by linarith
  then show ?thesis
    by (simp only: le_div_iff_mult_le [OF assms] div_less_iff_less_mult_int [OF assms])
qed

text \<open>\<open>ceil_div a b\<close> is the quotient rounded up; the floor and the ceiling as inequalities.\<close>

definition ceil_div :: "int \<Rightarrow> int \<Rightarrow> int" where
  "ceil_div a b = - ((- a) div b)"

lemma ceil_div_le_iff: "0 < b \<Longrightarrow> ceil_div a b \<le> c \<longleftrightarrow> a \<le> c * b"
  using le_div_iff_mult_le [of b "- c" "- a"] by (auto simp: ceil_div_def)

lemma less_ceil_div_iff: "0 < b \<Longrightarrow> c < ceil_div a b \<longleftrightarrow> c * b < a"
  using ceil_div_le_iff [of b a c] by linarith

lemma ceil_div_mono: "0 < b \<Longrightarrow> a \<le> c \<Longrightarrow> ceil_div a b \<le> ceil_div c b"
  by (simp add: ceil_div_def zdiv_mono1)

lemma ceil_div_nonneg: "0 < b \<Longrightarrow> 0 \<le> a \<Longrightarrow> 0 \<le> ceil_div a b"
  using less_ceil_div_iff [of b "-1" a] by simp

lemma ceil_div_eq_iff:
  assumes "0 < b"
  shows "ceil_div a b = c \<longleftrightarrow> a \<le> c * b \<and> (c - 1) * b < a"
proof -
  have "ceil_div a b = c \<longleftrightarrow> ceil_div a b \<le> c \<and> c - 1 < ceil_div a b" by linarith
  then show ?thesis by (simp only: ceil_div_le_iff [OF assms] less_ceil_div_iff [OF assms])
qed

lemma floor_le_ceil_div: "0 < b \<Longrightarrow> a div b \<le> ceil_div a b"
  by (simp add: ceil_div_def zdiv_zminus1_eq_if)

lemma ceil_div_if: "ceil_div a b = a div b + (if a mod b = 0 then 0 else 1)" if "0 < b"
  using that by (simp add: ceil_div_def zdiv_zminus1_eq_if)

text \<open>
  \<open>shr_round n x\<close> is the source's \<open>(x >> n) + ((x >> (n - 1)) & 1)\<close>: a right shift
  rounded to the nearest integer by the highest bit shifted out.
\<close>

definition shr_round :: "nat \<Rightarrow> int \<Rightarrow> int" where
  "shr_round n x = x div 2 ^ n + (x div 2 ^ (n - 1)) mod 2"

lemma two_power_split: "0 < n \<Longrightarrow> (2::int) ^ n = 2 ^ (n - 1) * 2"
  by (cases n) simp_all

lemma shr_round_eq:
  assumes "0 < n"
  shows "shr_round n x = (x + 2 ^ (n - 1)) div 2 ^ n"
proof -
  define h :: int where "h = 2 ^ (n - 1)"
  have h: "h > 0" and two: "(2::int) ^ n = h * 2"
    using assms by (simp_all add: h_def two_power_split)
  have 1: "x div 2 ^ n = (x div h) div 2"
    by (simp add: two zdiv_zmult2_eq)
  have 2: "(x + h) div 2 ^ n = (x div h + 1) div 2"
    using h by (simp add: two zdiv_zmult2_eq)
  have "y div 2 + y mod 2 = (y + 1) div 2" for y :: int
    by presburger
  with 1 2 show ?thesis
    by (simp add: shr_round_def h_def)
qed

lemma shr_round_mono: "0 < n \<Longrightarrow> x \<le> y \<Longrightarrow> shr_round n x \<le> shr_round n y"
  by (simp add: shr_round_eq zdiv_mono1)

lemma shr_round_ge: "0 < n \<Longrightarrow> c * 2 ^ n \<le> x \<Longrightarrow> c \<le> shr_round n x"
  by (simp add: shr_round_eq le_div_iff_mult_le add_increasing2)

lemma shr_round_le:
  assumes "0 < n" and "x \<le> c * 2 ^ n"
  shows "shr_round n x \<le> c"
proof -
  have "x + 2 ^ (n - 1) < (c + 1) * 2 ^ n"
    using assms by (simp add: distrib_right power_strict_increasing add_le_less_mono)
  then have "(x + 2 ^ (n - 1)) div 2 ^ n < c + 1"
    by (intro div_less_iff_less_mult_int [THEN iffD2]) simp_all
  then show ?thesis
    unfolding shr_round_eq [OF assms(1)] by linarith
qed

lemma shr_round_exact: "0 < n \<Longrightarrow> shr_round n (c * 2 ^ n) = c"
  by (intro antisym shr_round_le shr_round_ge) simp_all

text \<open>The rounded shift is within half a unit of the exact quotient.\<close>

lemma shr_round_error:
  assumes "0 < n"
  shows "2 * shr_round n x * 2 ^ n \<le> 2 * x + 2 ^ n" "2 * x - 2 ^ n < 2 * shr_round n x * 2 ^ n"
proof -
  define h :: int where "h = 2 ^ (n - 1)"
  have two: "(2::int) ^ n = h * 2" and h: "h > 0"
    using assms by (simp_all add: h_def two_power_split)
  let ?q = "(x + h) div 2 ^ n"
  have le: "?q * 2 ^ n \<le> x + h"
    by (rule mult_div_le_self) simp
  have lt: "x + h < (?q + 1) * 2 ^ n"
    using div_less_iff_less_mult_int [of "2 ^ n" "x + h" "?q + 1"] by simp
  from le lt two show "2 * shr_round n x * 2 ^ n \<le> 2 * x + 2 ^ n"
    and "2 * x - 2 ^ n < 2 * shr_round n x * 2 ^ n"
    using assms by (simp_all add: shr_round_eq h_def algebra_simps)
qed

end
