(* ===== verification/Protocol_Errors.thy ===== *)
theory Protocol_Errors
  imports Bleavit_Prelude
begin

text \<open>
  The failure codes of \<open>app/packages/protocol/src/errors.ts\<close>: which arithmetic boundary
  the 64.64 kernel hit, the dispatch errors this package predicts, and the mapping from the
  first to the second. A \<open>ProtocolError\<close> carries its code and, when a kernel fault is
  behind it, the fault's kind; the human-readable message is not modelled.
\<close>

datatype fixed_error_kind = Domain | Overflow | DivisionByZero

datatype market_error_code =
    PriceBoundExceeded
  | ArithmeticOverflow
  | SlippageExceeded
  | AmountTooSmall
  | AmountTooLarge

datatype protocol_error =
  ProtocolError (pe_code: market_error_code) (pe_kind: "fixed_error_kind option")

definition marketCodeForFixedError :: "fixed_error_kind \<Rightarrow> market_error_code" where
  "marketCodeForFixedError kind =
     (if kind = Domain then PriceBoundExceeded else ArithmeticOverflow)"

definition fixedFault :: "fixed_error_kind \<Rightarrow> protocol_error" where
  "fixedFault kind = ProtocolError (marketCodeForFixedError kind) (Some kind)"

lemma fixedFault_simps [simp]:
  "pe_code (fixedFault Domain) = PriceBoundExceeded"
  "pe_code (fixedFault Overflow) = ArithmeticOverflow"
  "pe_code (fixedFault DivisionByZero) = ArithmeticOverflow"
  "pe_kind (fixedFault k) = Some k"
  by (simp_all add: fixedFault_def marketCodeForFixedError_def)

type_synonym 'a outcome = "(protocol_error, 'a) result"

end
