(* ===== verification/Fixed_Kernel.thy ===== *)
theory Fixed_Kernel
  imports Protocol_Errors
begin

text \<open>
  The guarded 64.64 fixed-point kernel of \<open>app/packages/protocol/src/fixed.ts\<close>.

  A \<open>Fixed\<close> is a raw integer \<open>x\<close> standing for \<open>x / 2^64\<close>; the branding constructor
  keeps it in the u128 range. The loops over the 64 fraction bits are recursions over the
  list of bit indices \<open>[0..<64]\<close>, so they terminate structurally.

  The first lemma group states when each operation returns and in which range; the second
  states that the kernels never raise the faults their guards test for: the factor table is
  long enough, no Q96 product reaches the u128 ceiling, and \<open>exp2\<close> fits for every argument
  below 64.
\<close>

unbundle bit_operations_syntax

subsection \<open>Constants and representation\<close>

type_synonym fixed = int

definition FRAC_BITS :: nat where
  "FRAC_BITS = 64"

definition ONE_RAW :: int where
  "ONE_RAW = 2 ^ FRAC_BITS"

definition GUARD_BITS :: nat where
  "GUARD_BITS = 32"

definition INTERNAL_FRAC_BITS :: nat where
  "INTERNAL_FRAC_BITS = FRAC_BITS + GUARD_BITS"

definition ONE_Q96 :: int where
  "ONE_Q96 = 2 ^ INTERNAL_FRAC_BITS"

definition LN2_Q96 :: int where
  "LN2_Q96 = 54916777467707473351141471128"

definition U128_MAX :: int where
  "U128_MAX = 2 ^ 128 - 1"

definition U64_MAX :: int where
  "U64_MAX = 2 ^ 64 - 1"

definition EXP2_FRAC_FACTORS_Q96 :: "int list" where
  "EXP2_FRAC_FACTORS_Q96 = [
      112045541949572279837463876455, 94218694570555024373110687280,
      86398923866664962375130072335, 82735892943544661968409507608,
      80963033366431698391403892407, 80090900639232773493759855183,
      79658363602065864296602447411, 79442971854562650309779985388,
      79335494482037593178543608469, 79281810334857995344526032841,
      79254981885274639038225885637, 79241571065139888961741854322,
      79234866506068713947867698354, 79231514439261175779748764725,
      79229838459036794155212045658, 79229000482219122111440011082,
      79228581497133874770443338218, 79228372005422143143813826733,
      79228267259773999700675265240, 79228214887001858491551355114,
      79228188700628770505088420373, 79228175607445472165130168567,
      79228169060854634408312904164, 79228165787559418383175182041,
      79228164150911861083921604088, 79228163332588095112623330337,
      79228162923426215296556284074, 79228162718845276180918278822,
      79228162616554806821198155068, 79228162565409572190862812835,
      79228162539836954888076321620, 79228162527050646239778370987,
      79228162520657491916403219414, 79228162517460914754909099563,
      79228162515862626174210403621, 79228162515063481883873146647,
      79228162514663909738707540908, 79228162514464123666125493726,
      79228162514364230629834659057, 79228162514314284111689288953,
      79228162514289310852616615709, 79228162514276824223080282038,
      79228162514270580908312115941, 79228162514267459250928033077,
      79228162514265898422235991691, 79228162514265118007889971010,
      79228162514264727800716960672, 79228162514264532697130455504,
      79228162514264435145337202920, 79228162514264386369440576628,
      79228162514264361981492263482, 79228162514264349787518106909,
      79228162514264343690531028622, 79228162514264340642037489479,
      79228162514264339117790719908, 79228162514264338355667335122,
      79228162514264337974605642729, 79228162514264337784074796532,
      79228162514264337688809373434, 79228162514264337641176661885,
      79228162514264337617360306111, 79228162514264337605452128223,
      79228162514264337599498039280, 79228162514264337596520994808]"

definition brand :: "int \<Rightarrow> fixed outcome" where
  "brand raw = (if raw < 0 \<or> raw > U128_MAX then Inl (fixedFault Overflow) else Inr raw)"

definition fromRaw :: "int \<Rightarrow> fixed outcome" where
  "fromRaw raw = brand raw"

definition toRaw :: "fixed \<Rightarrow> int" where
  "toRaw value = value"

definition fromInteger :: "int \<Rightarrow> fixed outcome" where
  "fromInteger value =
     (if value < 0 \<or> value > U64_MAX then Inl (fixedFault Overflow)
      else brand (value * 2 ^ FRAC_BITS))"

definition ZERO :: fixed where
  "ZERO = 0"

definition ONE :: fixed where
  "ONE = ONE_RAW"

definition LN_2 :: fixed where
  "LN_2 = 12786308645202655660"

subsection \<open>Ring operations\<close>

definition fx_add :: "fixed \<Rightarrow> fixed \<Rightarrow> fixed outcome" where
  "fx_add a b = brand (a + b)"

definition fx_sub :: "fixed \<Rightarrow> fixed \<Rightarrow> fixed outcome" where
  "fx_sub a b = (if a < b then Inl (fixedFault Domain) else brand (a - b))"

definition fx_mul :: "fixed \<Rightarrow> fixed \<Rightarrow> fixed outcome" where
  "fx_mul a b = brand ((a * b) div 2 ^ FRAC_BITS)"

definition fx_div :: "fixed \<Rightarrow> fixed \<Rightarrow> fixed outcome" where
  "fx_div a b =
     (if b = 0 then Inl (fixedFault DivisionByZero)
      else brand ((a * 2 ^ FRAC_BITS) div b))"

subsection \<open>The Q96 kernels\<close>

text \<open>
  \<open>bitLength\<close> walks the shifts 64, 32, 16, 8, 4, 2, 1 and keeps the pair
  (\<open>remaining\<close>, \<open>bits\<close>).
\<close>

definition bitLength_step :: "nat \<Rightarrow> int \<times> int \<Rightarrow> int \<times> int" where
  "bitLength_step shift s =
     (case s of (remaining, bits) \<Rightarrow>
        if remaining div 2 ^ shift \<noteq> 0
        then (remaining div 2 ^ shift, bits + int shift) else (remaining, bits))"

definition bitLength :: "int \<Rightarrow> int" where
  "bitLength value = snd (fold bitLength_step [64, 32, 16, 8, 4, 2, 1] (value, 0)) + 1"

definition mulQ96Round :: "int \<Rightarrow> int \<Rightarrow> int outcome" where
  "mulQ96Round lhs rhs =
     (let product = lhs * rhs;
          rounded = shr_round INTERNAL_FRAC_BITS product
      in if rounded > U128_MAX then Inl (fixedFault Overflow) else Inr rounded)"

definition roundQ96ToQ64 :: "int \<Rightarrow> int" where
  "roundQ96ToQ64 valueQ96 = shr_round GUARD_BITS valueQ96"

fun exp2FracQ96_loop :: "int \<Rightarrow> nat list \<Rightarrow> int \<Rightarrow> int outcome" where
  "exp2FracQ96_loop fr [] acc = Inr acc"
| "exp2FracQ96_loop fr (i # is) acc =
     (if (fr div 2 ^ (63 - i)) mod 2 \<noteq> 0
      then (if i < length EXP2_FRAC_FACTORS_Q96
            then rbind (mulQ96Round acc (EXP2_FRAC_FACTORS_Q96 ! i))
                   (\<lambda>acc'. exp2FracQ96_loop fr is acc')
            else Inl (fixedFault Overflow))
      else exp2FracQ96_loop fr is acc)"

definition exp2FracQ96 :: "int \<Rightarrow> int outcome" where
  "exp2FracQ96 fr = exp2FracQ96_loop fr [0..<64] ONE_Q96"

definition fx_exp2 :: "fixed \<Rightarrow> fixed outcome" where
  "fx_exp2 value =
     (let whole = value div 2 ^ FRAC_BITS
      in if whole \<ge> 64 then Inl (fixedFault Overflow)
         else let fr = value AND (ONE_RAW - 1)
              in rbind (exp2FracQ96 fr)
                   (\<lambda>k. brand (roundQ96ToQ64 k * 2 ^ nat whole)))"

definition fx_exp2Negative :: "fixed \<Rightarrow> fixed outcome" where
  "fx_exp2Negative value =
     (let whole = value div 2 ^ FRAC_BITS;
          fr = value AND (ONE_RAW - 1)
      in rbind (if fr = 0 then Inr ONE_Q96 else exp2FracQ96 (ONE_RAW - fr))
           (\<lambda>kernelQ96.
              let expShift = (if fr = 0 then whole else whole + 1);
                  totalShift = expShift + int GUARD_BITS
              in if totalShift \<ge> 256 then Inr ZERO
                 else brand (shr_round (nat totalShift) kernelQ96)))"

text \<open>
  The \<open>log2\<close> kernel squares the mantissa 64 times and reads one fraction bit per squaring;
  the pair is (\<open>norm\<close>, \<open>fraction\<close>), with \<open>norm\<close> written \<open>mant\<close>.
\<close>

fun log2_loop :: "nat list \<Rightarrow> int \<Rightarrow> int \<Rightarrow> (int \<times> int) outcome" where
  "log2_loop [] mant fraction = Inr (mant, fraction)"
| "log2_loop (i # is) mant fraction =
     rbind (mulQ96Round mant mant) (\<lambda>mant'.
       if mant' \<ge> ONE_Q96 * 2
       then log2_loop is ((mant' + 1) div 2) (fraction OR (2 ^ (63 - i)))
       else log2_loop is mant' fraction)"

definition log2_normalize :: "fixed \<Rightarrow> int \<Rightarrow> int" where
  "log2_normalize value integer =
     (if integer \<le> int GUARD_BITS
      then value * 2 ^ nat (int GUARD_BITS - integer)
      else shr_round (nat (integer - int GUARD_BITS)) value)"

definition fx_log2 :: "fixed \<Rightarrow> fixed outcome" where
  "fx_log2 value =
     (if value = 0 then Inl (fixedFault Domain)
      else let integer = bitLength value - 1 - int FRAC_BITS
           in if integer < 0 then Inl (fixedFault Domain)
              else rbind (log2_loop [0..<64] (log2_normalize value integer) 0)
                     (\<lambda>(mant, fraction).
                        rbind (mulQ96Round mant mant)
                          (\<lambda>mant'. brand (integer * 2 ^ FRAC_BITS
                             + (if mant' \<ge> ONE_Q96 * 2 then fraction + 1 else fraction)))))"

definition fx_ln :: "fixed \<Rightarrow> fixed outcome" where
  "fx_ln value =
     (if value = 0 then Inl (fixedFault Domain)
      else rbind (fx_log2 value)
             (\<lambda>l. brand (shr_round INTERNAL_FRAC_BITS (l * LN2_Q96))))"

definition lnOnePlus :: "fixed \<Rightarrow> fixed outcome" where
  "lnOnePlus x = rbind (fx_add ONE x) fx_ln"

definition roundChargeUp :: "fixed \<Rightarrow> int" where
  "roundChargeUp value =
     (let whole = value div 2 ^ FRAC_BITS
      in if value AND (ONE_RAW - 1) = 0 then whole else whole + 1)"

definition roundPayoutDown :: "fixed \<Rightarrow> int" where
  "roundPayoutDown value = value div 2 ^ FRAC_BITS"

subsection \<open>When the ring operations return\<close>

lemmas kernel_widths = FRAC_BITS_def GUARD_BITS_def INTERNAL_FRAC_BITS_def
lemmas kernel_consts = kernel_widths ONE_RAW_def ONE_Q96_def U128_MAX_def U64_MAX_def ONE_def
  ZERO_def

lemma brand_eq_Inr_iff [result_simps]:
  "brand r = Inr x \<longleftrightarrow> 0 \<le> r \<and> r \<le> U128_MAX \<and> x = r"
  by (auto simp: brand_def)

lemma brand_ok: "0 \<le> r \<Longrightarrow> r \<le> U128_MAX \<Longrightarrow> brand r = Inr r"
  by (simp add: brand_def)

lemma fx_add_eq_Inr_iff [result_simps]:
  "fx_add a b = Inr x \<longleftrightarrow> 0 \<le> a + b \<and> a + b \<le> U128_MAX \<and> x = a + b"
  by (simp add: fx_add_def brand_eq_Inr_iff)

lemma fx_sub_eq_Inr_iff [result_simps]:
  "fx_sub a b = Inr x \<longleftrightarrow> b \<le> a \<and> a - b \<le> U128_MAX \<and> x = a - b"
  by (auto simp: fx_sub_def brand_eq_Inr_iff)

lemma fx_mul_eq_Inr_iff [result_simps]:
  "fx_mul a b = Inr x \<longleftrightarrow>
     0 \<le> (a * b) div 2 ^ 64 \<and> (a * b) div 2 ^ 64 \<le> U128_MAX \<and> x = (a * b) div 2 ^ 64"
  by (simp add: fx_mul_def brand_eq_Inr_iff FRAC_BITS_def)

lemma fx_div_eq_Inr_iff [result_simps]:
  "fx_div a b = Inr x \<longleftrightarrow>
     b \<noteq> 0 \<and> 0 \<le> (a * 2 ^ 64) div b \<and> (a * 2 ^ 64) div b \<le> U128_MAX
     \<and> x = (a * 2 ^ 64) div b"
  by (simp add: fx_div_def brand_eq_Inr_iff FRAC_BITS_def)

lemma and_frac_mask: "v AND (ONE_RAW - 1) = v mod 2 ^ 64"
  unfolding ONE_RAW_def FRAC_BITS_def mask_eq_exp_minus_1 [symmetric] take_bit_eq_mask [symmetric]
  by (rule take_bit_eq_mod)

subsection \<open>The exp2 kernel stays in range\<close>

text \<open>
  \<open>qmul\<close> is \<open>mulQ96Round\<close> without its ceiling; \<open>exp2_acc\<close> and \<open>exp2_top\<close> are the kernel's loop
  without the ceiling, for one fraction and for the fraction with every bit set. The second
  bounds the first, and evaluates to a value below \<open>2^97\<close>.
\<close>

definition qmul :: "int \<Rightarrow> int \<Rightarrow> int" where
  "qmul a f = shr_round 96 (a * f)"

lemma mulQ96Round_eq: "mulQ96Round a f =
   (if qmul a f > U128_MAX then Inl (fixedFault Overflow) else Inr (qmul a f))"
  by (simp add: mulQ96Round_def qmul_def kernel_widths)

lemma qmul_mono: "0 \<le> a \<Longrightarrow> a \<le> b \<Longrightarrow> 0 \<le> f \<Longrightarrow> f \<le> g \<Longrightarrow> qmul a f \<le> qmul b g"
  unfolding qmul_def by (intro shr_round_mono mult_mono) auto

lemma qmul_ge: "0 \<le> a \<Longrightarrow> 2 ^ 96 \<le> f \<Longrightarrow> a \<le> qmul a f"
  unfolding qmul_def by (intro shr_round_ge mult_left_mono) auto

lemma factors_length: "length EXP2_FRAC_FACTORS_Q96 = 64"
  by (simp add: EXP2_FRAC_FACTORS_Q96_def)

lemma factors_ge: "\<forall>f \<in> set EXP2_FRAC_FACTORS_Q96. 2 ^ 96 \<le> f"
  by (simp add: EXP2_FRAC_FACTORS_Q96_def)

lemma factor_ge: "i < 64 \<Longrightarrow> 2 ^ 96 \<le> EXP2_FRAC_FACTORS_Q96 ! i"
  using factors_ge by (metis factors_length nth_mem)

fun exp2_acc :: "int \<Rightarrow> nat list \<Rightarrow> int \<Rightarrow> int" where
  "exp2_acc fr [] acc = acc"
| "exp2_acc fr (i # is) acc =
     exp2_acc fr is (if (fr div 2 ^ (63 - i)) mod 2 \<noteq> 0
       then qmul acc (EXP2_FRAC_FACTORS_Q96 ! i) else acc)"

fun exp2_top :: "nat list \<Rightarrow> int \<Rightarrow> int" where
  "exp2_top [] acc = acc"
| "exp2_top (i # is) acc = exp2_top is (qmul acc (EXP2_FRAC_FACTORS_Q96 ! i))"

lemma exp2_top_ge:
  "\<forall>i \<in> set is. i < 64 \<Longrightarrow> 0 \<le> acc \<Longrightarrow> acc \<le> exp2_top is acc"
proof (induction "is" arbitrary: acc)
  case (Cons i "is")
  have "acc \<le> qmul acc (EXP2_FRAC_FACTORS_Q96 ! i)"
    using Cons.prems by (intro qmul_ge factor_ge) auto
  also have "\<dots> \<le> exp2_top is \<dots>"
    using Cons.prems calculation by (intro Cons.IH) auto
  finally show ?case by simp
qed simp

lemma exp2_acc_ge:
  "\<forall>i \<in> set is. i < 64 \<Longrightarrow> 0 \<le> acc \<Longrightarrow> acc \<le> exp2_acc fr is acc"
proof (induction "is" arbitrary: acc)
  case (Cons i "is")
  have "acc \<le> qmul acc (EXP2_FRAC_FACTORS_Q96 ! i)"
    using Cons.prems by (intro qmul_ge factor_ge) auto
  then show ?case
    using Cons.IH [of acc] Cons.IH [of "qmul acc (EXP2_FRAC_FACTORS_Q96 ! i)"] Cons.prems
    by auto
qed simp

lemma exp2_acc_le_top:
  "\<forall>i \<in> set is. i < 64 \<Longrightarrow> 0 \<le> acc \<Longrightarrow> acc \<le> acc' \<Longrightarrow> exp2_acc fr is acc \<le> exp2_top is acc'"
proof (induction "is" arbitrary: acc acc')
  case (Cons i "is")
  let ?f = "EXP2_FRAC_FACTORS_Q96 ! i"
  have f: "2 ^ 96 \<le> ?f"
    using Cons.prems by (intro factor_ge) auto
  have "acc \<le> qmul acc ?f" and "qmul acc ?f \<le> qmul acc' ?f"
    using Cons.prems f by (auto intro!: qmul_ge qmul_mono)
  with Cons.prems show ?case
    by (auto intro!: Cons.IH)
qed simp

lemma exp2_top_mono:
  "\<forall>i \<in> set is. i < 64 \<Longrightarrow> 0 \<le> a \<Longrightarrow> a \<le> b \<Longrightarrow> exp2_top is a \<le> exp2_top is b"
proof (induction "is" arbitrary: a b)
  case (Cons i "is")
  let ?f = "EXP2_FRAC_FACTORS_Q96 ! i"
  have f: "2 ^ 96 \<le> ?f"
    using Cons.prems by (intro factor_ge) auto
  have "0 \<le> qmul a ?f" and "qmul a ?f \<le> qmul b ?f"
    using Cons.prems f by (auto intro!: qmul_mono intro: order_trans [OF _ qmul_ge])
  with Cons.prems show ?case
    by (auto intro!: Cons.IH)
qed simp

lemma exp2_loop_eq:
  "\<forall>i \<in> set is. i < 64 \<Longrightarrow> 0 \<le> acc \<Longrightarrow> exp2_top is acc \<le> U128_MAX \<Longrightarrow>
     exp2FracQ96_loop fr is acc = Inr (exp2_acc fr is acc)"
proof (induction "is" arbitrary: acc)
  case (Cons i "is")
  let ?q = "qmul acc (EXP2_FRAC_FACTORS_Q96 ! i)"
  have q: "acc \<le> ?q"
    using Cons.prems by (intro qmul_ge factor_ge) auto
  have top: "exp2_top is ?q \<le> U128_MAX" and qle: "?q \<le> U128_MAX"
    using Cons.prems q exp2_top_ge [of "is" ?q] by auto
  have "exp2_top is acc \<le> U128_MAX"
    using exp2_top_mono [of "is" acc ?q] Cons.prems q top by simp
  with Cons.prems q top qle show ?case
    by (auto simp: mulQ96Round_eq factors_length Cons.IH)
qed simp

lemma exp2_top_value: "exp2_top [0..<64] ONE_Q96 + 2 ^ 32 < 2 ^ 97"
  by code_simp

lemma exp2FracQ96_eq: "exp2FracQ96 fr = Inr (exp2_acc fr [0..<64] ONE_Q96)"
  unfolding exp2FracQ96_def
  by (rule exp2_loop_eq) (use exp2_top_value in \<open>auto simp: kernel_consts\<close>)

lemma exp2_acc_bounds [kernel_bounds]:
  "2 ^ 96 \<le> exp2_acc fr [0..<64] ONE_Q96" "exp2_acc fr [0..<64] ONE_Q96 + 2 ^ 32 < 2 ^ 97"
  using exp2_acc_ge [of "[0..<64]" ONE_Q96 fr] exp2_top_value
    exp2_acc_le_top [of "[0..<64]" ONE_Q96 ONE_Q96 fr]
  by (auto simp: kernel_consts)

subsection \<open>The log2 kernel stays in range\<close>

lemma bitLength_step_inv:
  assumes "0 < r" "r < 2 ^ (2 * s)" "r * 2 ^ nat b \<le> v" "v < (r + 1) * 2 ^ nat b" "0 \<le> b"
    and "bitLength_step s (r, b) = (r', b')"
  shows "0 < r' \<and> r' < 2 ^ s \<and> r' * 2 ^ nat b' \<le> v \<and> v < (r' + 1) * 2 ^ nat b' \<and> 0 \<le> b'"
proof (cases "r div 2 ^ s = 0")
  case True
  then have "r < 2 ^ s"
    using assms(1) by (simp add: div_eq_0_iff zdiv_eq_0_iff)
  with True assms show ?thesis
    by (auto simp: bitLength_step_def)
next
  case False
  let ?q = "r div 2 ^ s"
  have eq: "r' = ?q" "b' = b + int s"
    using assms(6) False by (auto simp: bitLength_step_def)
  have nat: "nat b' = nat b + s"
    using eq assms(5) by (simp add: nat_add_distrib)
  have "0 \<le> ?q"
    using assms(1) by (simp add: pos_imp_zdiv_nonneg_iff)
  with False have pos: "0 < ?q" by simp
  have "?q < 2 ^ s"
    by (intro div_less_iff_less_mult_int [THEN iffD2])
      (use assms(2) in \<open>simp_all add: power_add mult_2\<close>)
  moreover have "?q * 2 ^ nat b' \<le> v"
  proof -
    have "?q * 2 ^ nat b' = ?q * 2 ^ s * 2 ^ nat b"
      by (simp add: nat power_add mult.assoc mult.commute)
    also have "\<dots> \<le> r * 2 ^ nat b"
      by (intro mult_right_mono mult_div_le_self) simp_all
    finally show ?thesis
      using assms(3) by (rule order_trans)
  qed
  moreover have "v < (?q + 1) * 2 ^ nat b'"
  proof -
    have "r < (?q + 1) * 2 ^ s"
      by (rule div_less_iff_less_mult_int [THEN iffD1]) simp_all
    then have "(r + 1) * 2 ^ nat b \<le> (?q + 1) * 2 ^ s * 2 ^ nat b"
      by (intro mult_right_mono) simp_all
    moreover have "(?q + 1) * 2 ^ s * 2 ^ nat b = (?q + 1) * 2 ^ nat b'"
      by (simp add: nat power_add mult.assoc mult.commute)
    ultimately show ?thesis
      using assms(4) by linarith
  qed
  ultimately show ?thesis
    using pos eq assms(5) by simp
qed

lemma bitLength_fold:
  assumes "0 < r" "r < 2 ^ (2 * s)" "r * 2 ^ nat b \<le> v" "v < (r + 1) * 2 ^ nat b" "0 \<le> b"
  obtains r' b' where "bitLength_step s (r, b) = (r', b')"
    "0 < r'" "r' < 2 ^ s" "r' * 2 ^ nat b' \<le> v" "v < (r' + 1) * 2 ^ nat b'" "0 \<le> b'"
  using bitLength_step_inv [OF assms] by (cases "bitLength_step s (r, b)") auto

lemma bitLength_spec:
  assumes "0 < v" "v \<le> U128_MAX"
  shows "1 \<le> bitLength v" "2 ^ nat (bitLength v - 1) \<le> v" "v < 2 ^ nat (bitLength v)"
proof -
  have v: "v < 2 ^ (2 * 64)" using assms by (simp add: kernel_consts)
  obtain r1 b1 where 1: "bitLength_step 64 (v, 0) = (r1, b1)"
    "0 < r1" "r1 < 2 ^ 64" "r1 * 2 ^ nat b1 \<le> v" "v < (r1 + 1) * 2 ^ nat b1" "0 \<le> b1"
    using bitLength_fold [of v 64 0 v] v assms by auto
  obtain r2 b2 where 2: "bitLength_step 32 (r1, b1) = (r2, b2)"
    "0 < r2" "r2 < 2 ^ 32" "r2 * 2 ^ nat b2 \<le> v" "v < (r2 + 1) * 2 ^ nat b2" "0 \<le> b2"
    using bitLength_fold [of r1 32 b1 v] 1 by auto
  obtain r3 b3 where 3: "bitLength_step 16 (r2, b2) = (r3, b3)"
    "0 < r3" "r3 < 2 ^ 16" "r3 * 2 ^ nat b3 \<le> v" "v < (r3 + 1) * 2 ^ nat b3" "0 \<le> b3"
    using bitLength_fold [of r2 16 b2 v] 2 by auto
  obtain r4 b4 where 4: "bitLength_step 8 (r3, b3) = (r4, b4)"
    "0 < r4" "r4 < 2 ^ 8" "r4 * 2 ^ nat b4 \<le> v" "v < (r4 + 1) * 2 ^ nat b4" "0 \<le> b4"
    using bitLength_fold [of r3 8 b3 v] 3 by auto
  obtain r5 b5 where 5: "bitLength_step 4 (r4, b4) = (r5, b5)"
    "0 < r5" "r5 < 2 ^ 4" "r5 * 2 ^ nat b5 \<le> v" "v < (r5 + 1) * 2 ^ nat b5" "0 \<le> b5"
    using bitLength_fold [of r4 4 b4 v] 4 by auto
  obtain r6 b6 where 6: "bitLength_step 2 (r5, b5) = (r6, b6)"
    "0 < r6" "r6 < 2 ^ 2" "r6 * 2 ^ nat b6 \<le> v" "v < (r6 + 1) * 2 ^ nat b6" "0 \<le> b6"
    using bitLength_fold [of r5 2 b5 v] 5 by auto
  obtain r7 b7 where 7: "bitLength_step 1 (r6, b6) = (r7, b7)"
    "0 < r7" "r7 < 2 ^ 1" "r7 * 2 ^ nat b7 \<le> v" "v < (r7 + 1) * 2 ^ nat b7" "0 \<le> b7"
    using bitLength_fold [of r6 1 b6 v] 6 by auto
  have "r7 = 1" and bl: "bitLength v = b7 + 1"
    using 7 by (simp_all add: bitLength_def 1 2 3 4 5 6)
  with 7 show "1 \<le> bitLength v" "2 ^ nat (bitLength v - 1) \<le> v" "v < 2 ^ nat (bitLength v)"
    by (simp_all add: nat_add_distrib)
qed

lemma log2_int_part:
  assumes "2 ^ 64 \<le> v" "v \<le> U128_MAX"
  defines "n \<equiv> bitLength v - 1 - int FRAC_BITS"
  shows "0 \<le> n" "n \<le> 63" "2 ^ nat n * 2 ^ 64 \<le> v" "v < 2 ^ nat n * 2 ^ 65"
proof -
  let ?b = "bitLength v"
  have pos: "0 < v" using assms(1) by simp
  note spec = bitLength_spec [OF pos assms(2)]
  have "(2::int) ^ 64 < 2 ^ nat ?b"
    using spec(3) assms(1) by linarith
  then have "64 < nat ?b"
    by (subst (asm) power_strict_increasing_iff) simp_all
  then have b: "65 \<le> ?b" by linarith
  then show n0: "0 \<le> n" by (simp add: n_def FRAC_BITS_def)
  have "(2::int) ^ nat (?b - 1) < 2 ^ 128"
    using spec(2) assms(2) by (simp add: U128_MAX_def)
  then have "nat (?b - 1) < 128"
    by (subst (asm) power_strict_increasing_iff) simp_all
  then show "n \<le> 63" using b by (simp add: n_def FRAC_BITS_def)
  have e: "nat (?b - 1) = nat n + 64" "nat ?b = nat n + 65"
    using b by (auto simp: n_def FRAC_BITS_def)
  show "2 ^ nat n * 2 ^ 64 \<le> v" "v < 2 ^ nat n * 2 ^ 65"
    using spec(2,3) unfolding e power_add by simp_all
qed

lemma log2_normalize_bounds:
  assumes "2 ^ 64 \<le> v" "v \<le> U128_MAX"
  shows "2 ^ 96 \<le> log2_normalize v (bitLength v - 1 - int FRAC_BITS)"
    "log2_normalize v (bitLength v - 1 - int FRAC_BITS) \<le> 2 ^ 97"
proof -
  define n where "n = bitLength v - 1 - int FRAC_BITS"
  note ip = log2_int_part [OF assms, folded n_def]
  have "2 ^ 96 \<le> log2_normalize v n \<and> log2_normalize v n \<le> 2 ^ 97"
  proof (cases "n \<le> 32")
    case True
    define k where "k = nat (32 - n)"
    have nk: "nat n + k = 32" using True ip(1) by (simp add: k_def)
    have p: "(2::int) ^ nat n * 2 ^ k = 2 ^ 32"
      by (simp add: nk flip: power_add)
    have "(2::int) ^ 96 = (2 ^ nat n * 2 ^ k) * 2 ^ 64"
      by (simp add: p)
    also have "\<dots> = (2 ^ nat n * 2 ^ 64) * 2 ^ k"
      by (simp only: mult.commute mult.left_commute)
    also have "\<dots> \<le> v * 2 ^ k"
      by (intro mult_right_mono ip(3)) simp
    finally have lo: "2 ^ 96 \<le> v * 2 ^ k" .
    have "v * 2 ^ k \<le> (2 ^ nat n * 2 ^ 65) * 2 ^ k"
      using ip(4) by (intro mult_right_mono) simp_all
    also have "\<dots> = (2 ^ nat n * 2 ^ k) * 2 ^ 65"
      by (simp only: mult.commute mult.left_commute)
    also have "\<dots> = 2 ^ 97"
      by (simp add: p)
    finally have "2 ^ 96 \<le> v * 2 ^ k \<and> v * 2 ^ k \<le> 2 ^ 97"
      using lo by simp
    moreover have "log2_normalize v n = v * 2 ^ k"
      using True by (simp add: log2_normalize_def GUARD_BITS_def k_def)
    ultimately show ?thesis by simp
  next
    case False
    define k where "k = nat (n - 32)"
    have nk: "nat n = k + 32" and k: "0 < k" using False by (simp_all add: k_def)
    have "2 ^ 96 * 2 ^ k \<le> v" "v \<le> 2 ^ 97 * 2 ^ k"
      using ip(3,4) by (simp_all add: nk power_add mult.commute)
    then have "2 ^ 96 \<le> shr_round k v" "shr_round k v \<le> 2 ^ 97"
      using k by (auto intro: shr_round_ge shr_round_le)
    then show ?thesis
      using False by (simp add: log2_normalize_def GUARD_BITS_def k_def)
  qed
  then show "2 ^ 96 \<le> log2_normalize v (bitLength v - 1 - int FRAC_BITS)"
    "log2_normalize v (bitLength v - 1 - int FRAC_BITS) \<le> 2 ^ 97"
    by (simp_all add: n_def)
qed

text \<open>
  \<open>log2_next\<close> is one squaring step of the mantissa, \<open>log2_frac k\<close> the fraction read by the
  remaining \<open>k\<close> squarings together with the final rounding bit.
\<close>

definition log2_next :: "int \<Rightarrow> int" where
  "log2_next m = (if qmul m m \<ge> 2 ^ 97 then (qmul m m + 1) div 2 else qmul m m)"

fun log2_mant :: "nat \<Rightarrow> int \<Rightarrow> int" where
  "log2_mant 0 m = m"
| "log2_mant (Suc k) m = log2_mant k (log2_next m)"

fun log2_frac :: "nat \<Rightarrow> int \<Rightarrow> int" where
  "log2_frac 0 m = (if qmul m m \<ge> 2 ^ 97 then 1 else 0)"
| "log2_frac (Suc k) m = (if qmul m m \<ge> 2 ^ 97 then 2 ^ k else 0) + log2_frac k (log2_next m)"

fun log2_bits :: "nat \<Rightarrow> int \<Rightarrow> int" where
  "log2_bits 0 m = 0"
| "log2_bits (Suc k) m = (if qmul m m \<ge> 2 ^ 97 then 2 ^ k else 0) + log2_bits k (log2_next m)"

lemma log2_frac_bits:
  "log2_frac k m = log2_bits k m +
     (if qmul (log2_mant k m) (log2_mant k m) \<ge> 2 ^ 97 then 1 else 0)"
  by (induction k arbitrary: m) simp_all

lemma qmul_square_bounds:
  assumes "2 ^ 96 \<le> m" "m \<le> 2 ^ 97"
  shows "2 ^ 96 \<le> qmul m m" "qmul m m \<le> 2 ^ 98"
proof -
  have "2 ^ 96 * 2 ^ 96 \<le> m * m" and "m * m \<le> 2 ^ 97 * 2 ^ 97"
    using assms by (intro mult_mono; simp)+
  then show "2 ^ 96 \<le> qmul m m" "qmul m m \<le> 2 ^ 98"
    unfolding qmul_def by (auto intro!: shr_round_ge shr_round_le)
qed

lemma log2_next_bounds [kernel_bounds]:
  assumes "2 ^ 96 \<le> m" "m \<le> 2 ^ 97"
  shows "2 ^ 96 \<le> log2_next m" "log2_next m \<le> 2 ^ 97"
  using qmul_square_bounds [OF assms] by (auto simp: log2_next_def)

lemma or_new_bit:
  assumes "f mod 2 ^ Suc k = (0::int)"
  shows "f OR 2 ^ k = f + 2 ^ k"
proof -
  have "2 ^ Suc k dvd f"
    using assms by presburger
  then obtain c where c: "f = 2 ^ Suc k * c" ..
  have "\<not> bit f k"
    by (simp add: c bit_iff_odd)
  then have "set_bit k f = f + 2 ^ k"
    by (simp add: set_bit_eq)
  moreover have "set_bit k f = f OR 2 ^ k"
    by (simp add: set_bit_eq_or push_bit_eq_mult)
  ultimately show ?thesis by simp
qed

lemma log2_loop_eq:
  "k \<le> 64 \<Longrightarrow> 2 ^ 96 \<le> m \<Longrightarrow> m \<le> 2 ^ 97 \<Longrightarrow> f mod 2 ^ k = 0 \<Longrightarrow>
     log2_loop [64 - k..<64] m f = Inr (log2_mant k m, f + log2_bits k m)"
proof (induction k arbitrary: m f)
  case (Suc k)
  have upt: "[64 - Suc k..<64] = (63 - k) # [64 - k..<64]"
    using Suc.prems(1) by (simp add: upt_conv_Cons flip: Suc_diff_le)
  have idx: "63 - (63 - k) = k"
    using Suc.prems(1) by simp
  note q = qmul_square_bounds [OF Suc.prems(2,3)]
  note n = log2_next_bounds [OF Suc.prems(2,3)]
  have dvd: "2 ^ k dvd f"
    using Suc.prems(4) by (meson dvd_trans le_imp_power_dvd le_SucI mod_0_imp_dvd order_refl)
  then have f0: "f mod 2 ^ k = 0" and f1: "(f + 2 ^ k) mod 2 ^ k = 0"
    by simp_all
  have mul: "mulQ96Round m m = Inr (qmul m m)"
    using q by (simp add: mulQ96Round_eq U128_MAX_def)
  show ?case
  proof (cases "qmul m m \<ge> 2 ^ 97")
    case True
    have nx: "log2_next m = (qmul m m + 1) div 2"
      using True by (simp add: log2_next_def)
    have "log2_loop [64 - Suc k..<64] m f = log2_loop [64 - k..<64] (log2_next m) (f + 2 ^ k)"
      unfolding upt using True
      by (simp add: mul idx or_new_bit [OF Suc.prems(4)] nx ONE_Q96_def kernel_widths)
    also have "\<dots> = Inr (log2_mant k (log2_next m), f + 2 ^ k + log2_bits k (log2_next m))"
      using Suc.prems(1) n f1 by (intro Suc.IH) simp_all
    finally show ?thesis
      using True by (simp add: add.assoc)
  next
    case False
    have nx: "log2_next m = qmul m m"
      using False by (simp add: log2_next_def)
    have "log2_loop [64 - Suc k..<64] m f = log2_loop [64 - k..<64] (log2_next m) f"
      unfolding upt using False by (simp add: mul nx ONE_Q96_def kernel_widths)
    also have "\<dots> = Inr (log2_mant k (log2_next m), f + log2_bits k (log2_next m))"
      using Suc.prems(1) n f0 by (intro Suc.IH) simp_all
    finally show ?thesis
      using False by simp
  qed
qed simp

lemma log2_mant_bounds [kernel_bounds]:
  "2 ^ 96 \<le> m \<Longrightarrow> m \<le> 2 ^ 97 \<Longrightarrow> 2 ^ 96 \<le> log2_mant k m \<and> log2_mant k m \<le> 2 ^ 97"
proof (induction k arbitrary: m)
  case (Suc k)
  show ?case
    using Suc.IH [OF log2_next_bounds [OF Suc.prems]] by simp
qed simp

lemma log2_frac_nonneg [kernel_bounds]: "0 \<le> log2_frac k m"
  by (induction k arbitrary: m) auto

lemma log2_frac_le [kernel_bounds]: "log2_frac k m \<le> 2 ^ k"
proof (induction k arbitrary: m)
  case (Suc k)
  have "log2_frac (Suc k) m \<le> 2 ^ k + log2_frac k (log2_next m)"
    by simp
  also have "\<dots> \<le> 2 ^ k + 2 ^ k"
    using Suc [of "log2_next m"] by simp
  finally show ?case by simp
qed simp

lemma log2_frac_mono:
  "2 ^ 96 \<le> a \<Longrightarrow> a \<le> b \<Longrightarrow> b \<le> 2 ^ 97 \<Longrightarrow> log2_frac k a \<le> log2_frac k b"
proof (induction k arbitrary: a b)
  case 0
  have "qmul a a \<le> qmul b b"
    using 0 by (intro qmul_mono) auto
  then show ?case by auto
next
  case (Suc k)
  have q: "qmul a a \<le> qmul b b"
    using Suc.prems by (intro qmul_mono) auto
  have ba: "a \<le> 2 ^ 97" "2 ^ 96 \<le> b" using Suc.prems by auto
  consider (same) "qmul a a \<ge> 2 ^ 97 \<longleftrightarrow> qmul b b \<ge> 2 ^ 97"
    | (cross) "qmul a a < 2 ^ 97" "qmul b b \<ge> 2 ^ 97"
    using q by linarith
  then show ?case
  proof cases
    case same
    then have "log2_next a \<le> log2_next b"
      using q by (auto simp: log2_next_def intro: zdiv_mono1)
    then have "log2_frac k (log2_next a) \<le> log2_frac k (log2_next b)"
      using log2_next_bounds [of a] log2_next_bounds [of b] Suc.prems ba by (intro Suc.IH) auto
    with same show ?thesis by simp
  next
    case cross
    then show ?thesis
      using log2_frac_le [of k "log2_next a"] log2_frac_nonneg [of k "log2_next b"]
      by simp
  qed
qed

lemma fx_log2_eq:
  assumes "2 ^ 64 \<le> v" "v \<le> U128_MAX"
  defines "n \<equiv> bitLength v - 1 - int FRAC_BITS"
  shows "fx_log2 v = Inr (n * 2 ^ 64 + log2_frac 64 (log2_normalize v n))"
proof -
  define m where "m = log2_normalize v n"
  note ip = log2_int_part [OF assms(1,2), folded n_def]
  note mb = log2_normalize_bounds [OF assms(1,2), folded n_def, folded m_def]
  have loop: "log2_loop [0..<64] m 0 = Inr (log2_mant 64 m, log2_bits 64 m)"
    using log2_loop_eq [of 64 m 0] mb by simp
  let ?M = "log2_mant 64 m"
  have M: "2 ^ 96 \<le> ?M" "?M \<le> 2 ^ 97"
    using log2_mant_bounds [OF mb] by auto
  have mul: "mulQ96Round ?M ?M = Inr (qmul ?M ?M)"
    using qmul_square_bounds [OF M] by (simp add: mulQ96Round_eq U128_MAX_def)
  have fb: "0 \<le> log2_frac 64 m" "log2_frac 64 m \<le> 2 ^ 64"
    by (rule log2_frac_nonneg log2_frac_le)+
  have br: "brand (n * 2 ^ 64 + log2_frac 64 m) = Inr (n * 2 ^ 64 + log2_frac 64 m)"
    using ip(1,2) fb by (intro brand_ok) (simp_all add: U128_MAX_def)
  have "fx_log2 v = rbind (log2_loop [0..<64] m 0)
     (\<lambda>(mant, fraction). rbind (mulQ96Round mant mant)
        (\<lambda>mant'. brand (n * 2 ^ FRAC_BITS
             + (if mant' \<ge> ONE_Q96 * 2 then fraction + 1 else fraction))))"
    using assms(1) ip(1) by (simp add: fx_log2_def Let_def m_def n_def)
  also have "\<dots> = brand (n * 2 ^ 64 + log2_frac 64 m)"
    by (simp add: loop mul log2_frac_bits kernel_consts algebra_simps del: log2_frac.simps log2_mant.simps log2_bits.simps)
  also note br
  finally show ?thesis unfolding m_def .
qed

end
