(* ===== verification/Fixed_Accuracy.thy ===== *)
theory Fixed_Accuracy
  imports Fixed_Kernel
begin

text \<open>
  How far the kernels of \<open>app/packages/protocol/src/fixed.ts\<close> are from the real functions
  they stand for. The documented bounds are a relative error of \<open>2^-63\<close> for \<open>exp2\<close> and an
  absolute error of two units of the last place for \<open>log2\<close>; the lemmas below establish
  \<open>2^-64\<close> and one unit.

  \<^item> The factor table: entry \<open>i\<close> is \<open>2^(2^-(i+1))\<close> in Q96 to within two units, because each
    entry squares to its predecessor.
  \<^item> The \<open>exp2\<close> loop: one multiplication loses a relative \<open>2^-94\<close> at most, so 64 of them
    lose less than \<open>2^-87\<close>; the final rounding to Q64 dominates.
  \<^item> The \<open>log2\<close> loop: the error of the i-th squaring enters the result with weight
    \<open>2^-i\<close>, so the sum of all of them stays below \<open>2^-95\<close>.
\<close>

subsection \<open>The exp2 factor table\<close>

definition exp2_factor :: "nat \<Rightarrow> real" where
  "exp2_factor i = 2 powr (1 / 2 ^ Suc i)"

lemma exp2_factor_sq: "exp2_factor (Suc i) ^ 2 = exp2_factor i"
  by (simp add: exp2_factor_def power2_eq_square field_simps flip: powr_add)

lemma exp2_factor_0_sq: "exp2_factor 0 ^ 2 = 2"
  by (simp add: exp2_factor_def power2_eq_square flip: powr_add)

lemma exp2_factor_ge1: "1 \<le> exp2_factor i"
  by (simp add: exp2_factor_def ge_one_powr_ge_zero)

text \<open>
  Consecutive table entries square to their predecessor within two units of the last place;
  an integer computation, one comparison pair per entry.
\<close>

lemma factor_table_squares:
  "(EXP2_FRAC_FACTORS_Q96 ! 0 - 2) ^ 2 \<le> 2 * 2 ^ 192 \<and>
   2 * 2 ^ 192 \<le> (EXP2_FRAC_FACTORS_Q96 ! 0 + 2) ^ 2 \<and>
   list_all (\<lambda>i. (EXP2_FRAC_FACTORS_Q96 ! Suc i - 2) ^ 2 \<le> (EXP2_FRAC_FACTORS_Q96 ! i - 2) * 2 ^ 96 \<and>
     (EXP2_FRAC_FACTORS_Q96 ! i + 2) * 2 ^ 96 \<le> (EXP2_FRAC_FACTORS_Q96 ! Suc i + 2) ^ 2) [0..<63]"
  by code_simp

lemma factor_accuracy:
  "i < 64 \<Longrightarrow>
     real_of_int (EXP2_FRAC_FACTORS_Q96 ! i) - 2 \<le> 2 ^ 96 * exp2_factor i \<and>
     2 ^ 96 * exp2_factor i \<le> real_of_int (EXP2_FRAC_FACTORS_Q96 ! i) + 2"
proof (induction i)
  case 0
  let ?f = "EXP2_FRAC_FACTORS_Q96 ! 0"
  have sq: "(2 ^ 96 * exp2_factor 0) ^ 2 = real_of_int (2 * 2 ^ 192)"
    by (simp add: power_mult_distrib exp2_factor_0_sq)
  have "real_of_int ((?f - 2) ^ 2) \<le> real_of_int (2 * 2 ^ 192)"
    and "real_of_int (2 * 2 ^ 192) \<le> real_of_int ((?f + 2) ^ 2)"
    using factor_table_squares by (simp_all only: of_int_le_iff)
  then have "(real_of_int ?f - 2) ^ 2 \<le> (2 ^ 96 * exp2_factor 0) ^ 2"
    and "(2 ^ 96 * exp2_factor 0) ^ 2 \<le> (real_of_int ?f + 2) ^ 2"
    unfolding sq by simp_all
  moreover have "0 \<le> 2 ^ 96 * exp2_factor 0" "0 \<le> real_of_int ?f + 2"
    using exp2_factor_ge1 [of 0] factor_ge [of 0] by simp_all
  ultimately show ?case
    by (meson power2_le_imp_le)
next
  case (Suc i)
  let ?f = "EXP2_FRAC_FACTORS_Q96 ! i" and ?g = "EXP2_FRAC_FACTORS_Q96 ! Suc i"
  have i: "i < 63" using Suc.prems by simp
  have sq: "(2 ^ 96 * exp2_factor (Suc i)) ^ 2 = (2 ^ 96 * exp2_factor i) * 2 ^ 96"
    by (simp add: power_mult_distrib exp2_factor_sq)
  have "(?g - 2) ^ 2 \<le> (?f - 2) * 2 ^ 96" "(?f + 2) * 2 ^ 96 \<le> (?g + 2) ^ 2"
    using factor_table_squares i by (auto simp: list_all_iff)
  then have "real_of_int ((?g - 2) ^ 2) \<le> real_of_int ((?f - 2) * 2 ^ 96)"
    "real_of_int ((?f + 2) * 2 ^ 96) \<le> real_of_int ((?g + 2) ^ 2)"
    by (simp_all only: of_int_le_iff)
  then have "(real_of_int ?g - 2) ^ 2 \<le> (real_of_int ?f - 2) * 2 ^ 96"
    "(real_of_int ?f + 2) * 2 ^ 96 \<le> (real_of_int ?g + 2) ^ 2"
    by simp_all
  moreover have "(real_of_int ?f - 2) * 2 ^ 96 \<le> (2 ^ 96 * exp2_factor i) * 2 ^ 96"
    "(2 ^ 96 * exp2_factor i) * 2 ^ 96 \<le> (real_of_int ?f + 2) * 2 ^ 96"
    using Suc.IH i by (intro mult_right_mono; simp)+
  ultimately have "(real_of_int ?g - 2) ^ 2 \<le> (2 ^ 96 * exp2_factor (Suc i)) ^ 2"
    "(2 ^ 96 * exp2_factor (Suc i)) ^ 2 \<le> (real_of_int ?g + 2) ^ 2"
    unfolding sq by linarith+
  moreover have "0 \<le> 2 ^ 96 * exp2_factor (Suc i)" "0 \<le> real_of_int ?g + 2"
    using exp2_factor_ge1 [of "Suc i"] factor_ge [OF Suc.prems] by simp_all
  ultimately show ?case
    by (meson power2_le_imp_le)
qed

subsection \<open>The exp2 loop\<close>

lemma abs_le_between: "\<bar>x - p\<bar> \<le> e \<longleftrightarrow> p - e \<le> x \<and> x \<le> p + (e::real)"
  by linarith

lemma abs_error_add: "\<bar>u - v\<bar> \<le> h \<Longrightarrow> v = p + x \<Longrightarrow> \<bar>u - p\<bar> \<le> h + \<bar>x::real\<bar>"
  by linarith

lemma shr_round_real_error:
  assumes "0 < n"
  shows "\<bar>real_of_int (shr_round n x) - real_of_int x / 2 ^ n\<bar> \<le> 1 / 2"
proof -
  let ?s = "shr_round n x"
  have "real_of_int (2 * ?s * 2 ^ n) \<le> real_of_int (2 * x + 2 ^ n)"
    "real_of_int (2 * x - 2 ^ n) \<le> real_of_int (2 * ?s * 2 ^ n)"
    using shr_round_error [OF assms, of x] by (simp_all only: of_int_le_iff order_less_imp_le)
  then have "real_of_int x / 2 ^ n - 1 / 2 \<le> real_of_int ?s"
    "real_of_int ?s \<le> real_of_int x / 2 ^ n + 1 / 2"
    by (simp_all add: field_simps)
  then show ?thesis by linarith
qed

lemma qmul_rel_error:
  assumes "2 ^ 96 \<le> a" "i < 64"
  defines "p \<equiv> real_of_int a * exp2_factor i"
  shows "\<bar>real_of_int (qmul a (EXP2_FRAC_FACTORS_Q96 ! i)) - p\<bar> \<le> p / 2 ^ 94"
proof -
  let ?f = "EXP2_FRAC_FACTORS_Q96 ! i"
  define e where "e = real_of_int ?f - 2 ^ 96 * exp2_factor i"
  have e: "\<bar>e\<bar> \<le> 2"
    using factor_accuracy [OF assms(2)] by (auto simp: e_def)
  have a: "2 ^ 96 \<le> real_of_int a"
    using assms(1) by (metis of_int_le_iff of_int_numeral of_int_power)
  have ap: "real_of_int a \<le> p"
    using a exp2_factor_ge1 [of i] by (simp add: p_def mult_le_cancel_left1)
  have r: "\<bar>real_of_int (qmul a ?f) - real_of_int (a * ?f) / 2 ^ 96\<bar> \<le> 1 / 2"
    unfolding qmul_def by (rule shr_round_real_error) simp
  have "real_of_int (a * ?f) / 2 ^ 96 = p + real_of_int a * e / 2 ^ 96"
    by (simp add: p_def e_def field_simps)
  then have "\<bar>real_of_int (qmul a ?f) - p\<bar> \<le> 1 / 2 + \<bar>real_of_int a * e / 2 ^ 96\<bar>"
    by (rule abs_error_add [OF r])
  also have "\<bar>real_of_int a * e / 2 ^ 96\<bar> \<le> real_of_int a * 2 / 2 ^ 96"
    using e a by (simp add: abs_mult divide_right_mono mult_left_mono)
  also have "1 / 2 + real_of_int a * 2 / 2 ^ 96 \<le> real_of_int a / 2 ^ 94"
    using a by (simp add: field_simps)
  also have "\<dots> \<le> p / 2 ^ 94"
    using ap by (simp add: divide_right_mono)
  finally show ?thesis by simp
qed

definition exp2_weight :: "int \<Rightarrow> nat list \<Rightarrow> real" where
  "exp2_weight fr is =
     sum_list (map (\<lambda>i. if (fr div 2 ^ (63 - i)) mod 2 \<noteq> 0 then 1 / 2 ^ Suc i else 0) is)"

definition exp2_lo :: real where
  "exp2_lo = 1 - 1 / 2 ^ 94"

definition exp2_hi :: real where
  "exp2_hi = 1 + 1 / 2 ^ 94"

lemma exp2_lo_hi: "0 \<le> exp2_lo" "exp2_lo \<le> 1" "1 \<le> exp2_hi"
  by (simp_all add: exp2_lo_def exp2_hi_def)

lemma exp2_acc_rel_error:
  "\<forall>i \<in> set is. i < 64 \<Longrightarrow> 2 ^ 96 \<le> acc \<Longrightarrow>
     real_of_int acc * 2 powr exp2_weight fr is * exp2_lo ^ length is
       \<le> real_of_int (exp2_acc fr is acc) \<and>
     real_of_int (exp2_acc fr is acc)
       \<le> real_of_int acc * 2 powr exp2_weight fr is * exp2_hi ^ length is"
proof (induction "is" arbitrary: acc)
  case Nil
  then show ?case by (simp add: exp2_weight_def)
next
  case (Cons i "is")
  let ?w = "2 powr exp2_weight fr is"
  have apos: "0 \<le> real_of_int acc" using Cons.prems(2) by simp
  show ?case
  proof (cases "(fr div 2 ^ (63 - i)) mod 2 \<noteq> 0")
    case True
    let ?q = "qmul acc (EXP2_FRAC_FACTORS_Q96 ! i)" and ?p = "real_of_int acc * exp2_factor i"
    have q: "2 ^ 96 \<le> ?q"
      using qmul_ge [of acc "EXP2_FRAC_FACTORS_Q96 ! i"] factor_ge [of i] Cons.prems by simp
    have rel: "\<bar>real_of_int ?q - ?p\<bar> \<le> ?p / 2 ^ 94"
      using Cons.prems by (intro qmul_rel_error) simp_all
    have W: "2 powr exp2_weight fr (i # is) = exp2_factor i * ?w"
      using True by (simp add: exp2_weight_def exp2_factor_def powr_add)
    have acc: "exp2_acc fr (i # is) acc = exp2_acc fr is ?q"
      using True by simp
    have IH: "real_of_int ?q * ?w * exp2_lo ^ length is \<le> real_of_int (exp2_acc fr is ?q)"
      "real_of_int (exp2_acc fr is ?q) \<le> real_of_int ?q * ?w * exp2_hi ^ length is"
      using Cons.IH [OF _ q] Cons.prems by auto
    have "?p * exp2_lo \<le> real_of_int ?q" "real_of_int ?q \<le> ?p * exp2_hi"
      using rel unfolding abs_le_between exp2_lo_def exp2_hi_def by (simp_all add: algebra_simps)
    then have "?p * exp2_lo * (?w * exp2_lo ^ length is) \<le> real_of_int ?q * (?w * exp2_lo ^ length is)"
      "real_of_int ?q * (?w * exp2_hi ^ length is) \<le> ?p * exp2_hi * (?w * exp2_hi ^ length is)"
      using exp2_lo_hi by (intro mult_right_mono; simp)+
    with IH show ?thesis
      unfolding acc W by (simp add: mult.assoc mult.commute mult.left_commute)
  next
    case False
    have W: "exp2_weight fr (i # is) = exp2_weight fr is"
      using False by (simp add: exp2_weight_def)
    have acc: "exp2_acc fr (i # is) acc = exp2_acc fr is acc"
      using False by simp
    have IH: "real_of_int acc * ?w * exp2_lo ^ length is \<le> real_of_int (exp2_acc fr is acc)"
      "real_of_int (exp2_acc fr is acc) \<le> real_of_int acc * ?w * exp2_hi ^ length is"
      using Cons.IH [of acc] Cons.prems by auto
    have "real_of_int acc * ?w * (exp2_lo ^ length is * exp2_lo) \<le> real_of_int acc * ?w * (exp2_lo ^ length is * 1)"
      "real_of_int acc * ?w * (exp2_hi ^ length is * 1) \<le> real_of_int acc * ?w * (exp2_hi ^ length is * exp2_hi)"
      using apos exp2_lo_hi by (intro mult_left_mono; simp)+
    with IH show ?thesis
      unfolding acc W by (simp add: mult.commute mult.left_commute)
  qed
qed

lemma div_two_power_step:
  assumes "k < n"
  shows "(fr::int) div 2 ^ (n - Suc k) = 2 * (fr div 2 ^ (n - k)) + (fr div 2 ^ (n - Suc k)) mod 2"
proof -
  have "n - k = Suc (n - Suc k)" using assms by simp
  then have "fr div 2 ^ (n - k) = fr div 2 ^ (n - Suc k) div 2"
    by (simp add: zdiv_zmult2_eq power_Suc2 del: power_Suc)
  then show ?thesis by simp
qed

lemma exp2_weight_upt:
  assumes "0 \<le> fr" "fr < 2 ^ 64"
  shows "n \<le> 64 \<Longrightarrow> exp2_weight fr [0..<n] = real_of_int (fr div 2 ^ (64 - n)) / 2 ^ n"
proof (induction n)
  case 0
  then show ?case using assms by (simp add: exp2_weight_def)
next
  case (Suc n)
  let ?b = "(fr div 2 ^ (63 - n)) mod 2"
  have step: "fr div 2 ^ (64 - Suc n) = 2 * (fr div 2 ^ (64 - n)) + ?b"
    using div_two_power_step [of n 64 fr] Suc.prems by simp
  have "exp2_weight fr [0..<Suc n] = exp2_weight fr [0..<n] + (if ?b \<noteq> 0 then 1 / 2 ^ Suc n else 0)"
    by (simp add: exp2_weight_def)
  also have "\<dots> = real_of_int (fr div 2 ^ (64 - n)) / 2 ^ n + (if ?b \<noteq> 0 then 1 / 2 ^ Suc n else 0)"
    using Suc by simp
  also have "\<dots> = (2 * real_of_int (fr div 2 ^ (64 - n)) + real_of_int ?b) / 2 ^ Suc n"
    by (cases "?b = 0") (auto simp: field_simps)
  also have "\<dots> = real_of_int (fr div 2 ^ (64 - Suc n)) / 2 ^ Suc n"
    unfolding step by simp
  finally show ?case .
qed

lemma exp2_lo_pow: "1 - 1 / 2 ^ 88 \<le> exp2_lo ^ 64"
  using Bernoulli_inequality [of "- 1 / 2 ^ 94 :: real" 64] by (simp add: exp2_lo_def)

lemma exp2_hi_pow: "exp2_hi ^ 64 \<le> 1 + 1 / 2 ^ 87"
proof -
  have "(exp2_hi * exp2_lo) ^ 64 \<le> 1"
    by (rule power_le_one) (simp_all add: exp2_lo_def exp2_hi_def)
  then have le1: "exp2_hi ^ 64 * exp2_lo ^ 64 \<le> 1"
    by (simp add: power_mult_distrib)
  have "exp2_hi ^ 64 * (1 - 1 / 2 ^ 88) \<le> exp2_hi ^ 64 * exp2_lo ^ 64"
    using exp2_lo_hi by (intro mult_left_mono exp2_lo_pow) simp
  with le1 have "exp2_hi ^ 64 * (1 - 1 / 2 ^ 88) \<le> 1" by simp
  moreover have "(1::real) \<le> (1 + 1 / 2 ^ 87) * (1 - 1 / 2 ^ 88)"
    by simp
  ultimately have "exp2_hi ^ 64 * (1 - 1 / 2 ^ 88) \<le> (1 + 1 / 2 ^ 87) * (1 - 1 / 2 ^ 88)"
    by linarith
  then show ?thesis by (rule mult_right_le_imp_le) simp
qed

text \<open>The kernel value, as a real in \<open>[1, 2)\<close>, and its relative error.\<close>

definition exp2_kernel :: "int \<Rightarrow> int" where
  "exp2_kernel fr = exp2_acc fr [0..<64] ONE_Q96"

lemma exp2FracQ96_kernel: "exp2FracQ96 fr = Inr (exp2_kernel fr)"
  by (simp only: exp2_kernel_def exp2FracQ96_eq)

lemma exp2_kernel_bounds [kernel_bounds]:
  "2 ^ 96 \<le> exp2_kernel fr" "exp2_kernel fr + 2 ^ 32 < 2 ^ 97"
  by (simp_all only: exp2_kernel_def exp2_acc_bounds)

lemma exp2_kernel_error:
  assumes "0 \<le> fr" "fr < 2 ^ 64"
  defines "P \<equiv> 2 powr (real_of_int fr / 2 ^ 64)"
  shows "\<bar>real_of_int (exp2_kernel fr) / 2 ^ 96 - P\<bar> \<le> P / 2 ^ 87"
proof -
  have "exp2_weight fr [0..<64] = real_of_int fr / 2 ^ 64"
    using exp2_weight_upt [OF assms(1,2), of 64] by simp
  then have w: "2 powr exp2_weight fr [0..<64] = P"
    by (simp only: P_def)
  have P: "0 \<le> 2 ^ 96 * P" by (simp add: P_def)
  have "2 ^ 96 * P * exp2_lo ^ 64 \<le> real_of_int (exp2_kernel fr)"
    "real_of_int (exp2_kernel fr) \<le> 2 ^ 96 * P * exp2_hi ^ 64"
    using exp2_acc_rel_error [of "[0..<64]" ONE_Q96 fr] unfolding w exp2_kernel_def
    by (simp_all add: kernel_consts)
  moreover have "2 ^ 96 * P * (1 - 1 / 2 ^ 87) \<le> 2 ^ 96 * P * exp2_lo ^ 64"
    using exp2_lo_pow by (intro mult_left_mono P) simp
  moreover have "2 ^ 96 * P * exp2_hi ^ 64 \<le> 2 ^ 96 * P * (1 + 1 / 2 ^ 87)"
    using exp2_hi_pow by (intro mult_left_mono P)
  ultimately have "2 ^ 96 * P * (1 - 1 / 2 ^ 87) \<le> real_of_int (exp2_kernel fr)"
    "real_of_int (exp2_kernel fr) \<le> 2 ^ 96 * P * (1 + 1 / 2 ^ 87)"
    by linarith+
  then show ?thesis
    unfolding abs_le_between by (simp add: field_simps)
qed

lemma exp2_kernel_between:
  assumes "0 \<le> fr" "fr < 2 ^ 64"
  shows "2 powr (real_of_int fr / 2 ^ 64) * (1 - 1 / 2 ^ 87) \<le> real_of_int (exp2_kernel fr) / 2 ^ 96"
    "real_of_int (exp2_kernel fr) / 2 ^ 96 \<le> 2 powr (real_of_int fr / 2 ^ 64) * (1 + 1 / 2 ^ 87)"
  using exp2_kernel_error [OF assms, unfolded abs_le_between] by (simp_all add: algebra_simps)

lemma exp2_kernel_mono:
  assumes "0 \<le> a" "a \<le> b" "b < 2 ^ 64"
  shows "exp2_kernel a \<le> exp2_kernel b"
proof (cases "a = b")
  case False
  let ?A = "2 powr (real_of_int a / 2 ^ 64)" and ?B = "2 powr (real_of_int b / 2 ^ 64)"
  have ab: "real_of_int a + 1 \<le> real_of_int b" using False assms by linarith
  have A: "0 \<le> ?A" by simp
  have half: "1 / 2 \<le> ln (2::real)"
    by (subst ln_ge_iff) (simp_all add: exp_half_le2)
  have "1 + 1 / 2 ^ 65 = 1 + (1 / 2 ^ 64) * (1 / 2 :: real)" by simp
  also have "\<dots> \<le> 1 + (1 / 2 ^ 64) * ln 2"
    using half by (intro add_left_mono mult_left_mono) simp_all
  also have "\<dots> \<le> exp ((1 / 2 ^ 64) * ln 2)"
    by (rule exp_ge_add_one_self)
  also have "\<dots> = 2 powr (1 / 2 ^ 64)"
    by (simp add: powr_def)
  finally have "1 + 1 / 2 ^ 65 \<le> (2::real) powr (1 / 2 ^ 64)" .
  then have "?A * (1 + 1 / 2 ^ 65) \<le> ?A * 2 powr (1 / 2 ^ 64)"
    by (intro mult_left_mono A)
  also have "\<dots> = 2 powr ((real_of_int a + 1) / 2 ^ 64)"
    by (simp add: add_divide_distrib flip: powr_add)
  also have "\<dots> \<le> ?B"
    using ab by (intro powr_mono divide_right_mono) simp_all
  finally have AB: "?A * (1 + 1 / 2 ^ 65) \<le> ?B" .
  have "real_of_int (exp2_kernel a) / 2 ^ 96 \<le> ?A * (1 + 1 / 2 ^ 87)"
    by (rule exp2_kernel_between) (use assms in auto)
  also have "\<dots> \<le> ?A * ((1 + 1 / 2 ^ 65) * (1 - 1 / 2 ^ 87))"
    by (intro mult_left_mono A) simp
  also have "\<dots> \<le> ?B * (1 - 1 / 2 ^ 87)"
    using mult_right_mono [OF AB, of "1 - 1 / 2 ^ 87"] by (simp add: mult.assoc)
  also have "\<dots> \<le> real_of_int (exp2_kernel b) / 2 ^ 96"
    by (rule exp2_kernel_between) (use assms in auto)
  finally show ?thesis
    by (simp add: divide_le_cancel)
qed simp

subsection \<open>exp2\<close>

lemma fx_exp2_eq:
  assumes "0 \<le> v" "v < 64 * 2 ^ 64"
  shows "fx_exp2 v = Inr (shr_round 32 (exp2_kernel (v mod 2 ^ 64)) * 2 ^ nat (v div 2 ^ 64))"
proof -
  let ?w = "v div 2 ^ 64" and ?s = "shr_round 32 (exp2_kernel (v mod 2 ^ 64))"
  have w: "0 \<le> ?w" "?w < 64"
    using assms by (simp_all add: div_less_iff_less_mult_int pos_imp_zdiv_nonneg_iff)
  have s: "0 \<le> ?s"
    by (rule shr_round_ge) (use exp2_kernel_bounds(1) [of "v mod 2 ^ 64"] in auto)
  have s2: "?s \<le> 2 ^ 65 - 1"
    by (rule shr_round_le) (use exp2_kernel_bounds(2) [of "v mod 2 ^ 64"] in auto)
  have "nat ?w \<le> 63" using w by linarith
  then have "(2::int) ^ nat ?w \<le> 2 ^ 63"
    by (intro power_increasing) simp_all
  with s s2 have "?s * 2 ^ nat ?w \<le> (2 ^ 65 - 1) * 2 ^ 63"
    by (intro mult_mono) simp_all
  then have "brand (?s * 2 ^ nat ?w) = Inr (?s * 2 ^ nat ?w)"
    using s by (intro brand_ok) (simp_all add: U128_MAX_def)
  then show ?thesis
    using w by (simp add: fx_exp2_def Let_def and_frac_mask exp2FracQ96_kernel roundQ96ToQ64_def
        kernel_widths)
qed

lemma fx_exp2_error:
  assumes "0 \<le> v" "v < 64 * 2 ^ 64"
  defines "E \<equiv> 2 powr (real_of_int v / 2 ^ 64)"
  obtains r where "fx_exp2 v = Inr r" "\<bar>real_of_int r / 2 ^ 64 - E\<bar> \<le> E / 2 ^ 64"
proof
  let ?w = "v div 2 ^ 64" and ?fr = "v mod 2 ^ 64"
  let ?s = "shr_round 32 (exp2_kernel ?fr)"
  define P where "P = 2 powr (real_of_int ?fr / 2 ^ 64)"
  show "fx_exp2 v = Inr (?s * 2 ^ nat ?w)"
    by (rule fx_exp2_eq [OF assms(1,2)])
  have w: "0 \<le> ?w" using assms(1) by (simp add: pos_imp_zdiv_nonneg_iff)
  have P1: "1 \<le> P" by (simp add: P_def ge_one_powr_ge_zero)
  have "real_of_int v / 2 ^ 64 = real (nat ?w) + real_of_int ?fr / 2 ^ 64"
  proof -
    have "real_of_int (?w * 2 ^ 64 + ?fr) = real_of_int v"
      by (simp only: div_mult_mod_eq)
    then have "real_of_int v = real_of_int ?w * 2 ^ 64 + real_of_int ?fr"
      by (simp only: of_int_add of_int_mult of_int_power of_int_numeral)
    then show ?thesis
      using w by (simp only: add_divide_distrib) (simp add: of_nat_nat)
  qed
  then have E: "E = 2 ^ nat ?w * P"
    by (simp only: E_def P_def powr_add powr_realpow)
  have "\<bar>real_of_int ?s / 2 ^ 64 - P\<bar> \<le> 1 / 2 ^ 65 + P / 2 ^ 87"
  proof -
    have "\<bar>real_of_int ?s - real_of_int (exp2_kernel ?fr) / 2 ^ 32\<bar> \<le> 1 / 2"
      by (rule shr_round_real_error) simp
    moreover have "\<bar>real_of_int (exp2_kernel ?fr) / 2 ^ 96 - P\<bar> \<le> P / 2 ^ 87"
      unfolding P_def by (rule exp2_kernel_error) simp_all
    ultimately show ?thesis
      unfolding abs_le_between by (simp add: field_simps)
  qed
  also have "1 / 2 ^ 65 + P / 2 ^ 87 \<le> P / 2 ^ 64"
    using P1 by (simp add: field_simps)
  finally have sP: "\<bar>real_of_int ?s / 2 ^ 64 - P\<bar> \<le> P / 2 ^ 64" .
  have "real_of_int (?s * 2 ^ nat ?w) / 2 ^ 64 - E = 2 ^ nat ?w * (real_of_int ?s / 2 ^ 64 - P)"
    unfolding E by (simp add: right_diff_distrib)
  then have "\<bar>real_of_int (?s * 2 ^ nat ?w) / 2 ^ 64 - E\<bar> = 2 ^ nat ?w * \<bar>real_of_int ?s / 2 ^ 64 - P\<bar>"
    by (simp only: abs_mult) simp
  also have "\<dots> \<le> 2 ^ nat ?w * (P / 2 ^ 64)"
    by (intro mult_left_mono sP) simp
  finally show "\<bar>real_of_int (?s * 2 ^ nat ?w) / 2 ^ 64 - E\<bar> \<le> E / 2 ^ 64"
    unfolding E by simp
qed

subsection \<open>exp2 of a negative argument\<close>

text \<open>
  Both arms of \<open>exp2Negative\<close> are one shift of one kernel value: a zero fraction is the
  kernel value 2 at the next shift.
\<close>

definition neg_kernel :: "int \<Rightarrow> int" where
  "neg_kernel v = (if v mod 2 ^ 64 = 0 then 2 ^ 97 else exp2_kernel (2 ^ 64 - v mod 2 ^ 64))"

definition neg_shift :: "int \<Rightarrow> nat" where
  "neg_shift v = nat (v div 2 ^ 64) + 33"

definition exp2_neg :: "int \<Rightarrow> int" where
  "exp2_neg v = shr_round (neg_shift v) (neg_kernel v)"

lemma neg_kernel_bounds: "2 ^ 96 \<le> neg_kernel v" "neg_kernel v \<le> 2 ^ 97"
  using exp2_kernel_bounds [of "2 ^ 64 - v mod 2 ^ 64"] by (auto simp: neg_kernel_def)

lemma shr_round_Suc_double: "0 < n \<Longrightarrow> shr_round (Suc n) (2 * x) = shr_round n x"
  by (cases n) (simp_all add: shr_round_def)

lemma shr_round_small: "0 < n \<Longrightarrow> 0 \<le> x \<Longrightarrow> x < 2 ^ (n - 1) \<Longrightarrow> shr_round n x = 0"
  by (simp add: shr_round_eq two_power_split)

lemma fx_exp2Negative_eq:
  assumes "0 \<le> v"
  shows "fx_exp2Negative v = Inr (exp2_neg v)"
proof -
  let ?w = "v div 2 ^ 64" and ?fr = "v mod 2 ^ 64"
  let ?shift = "if ?fr = 0 then ?w + 32 else ?w + 33"
  let ?k = "if ?fr = 0 then 2 ^ 96 else exp2_kernel (2 ^ 64 - ?fr)"
  have w: "0 \<le> ?w" using assms by (simp add: pos_imp_zdiv_nonneg_iff)
  have same: "shr_round (nat ?shift) ?k = exp2_neg v"
    using w shr_round_Suc_double [of "nat ?w + 32" "2 ^ 96"]
    by (auto simp: exp2_neg_def neg_shift_def neg_kernel_def nat_add_distrib add.commute)
  have nonneg: "0 \<le> exp2_neg v"
    unfolding exp2_neg_def by (rule shr_round_ge) (use neg_kernel_bounds(1) [of v] in \<open>auto simp: neg_shift_def\<close>)
  have "exp2_neg v \<le> 2 ^ 64"
    unfolding exp2_neg_def
  proof (rule shr_round_le)
    have "(2::int) ^ 33 \<le> 2 ^ neg_shift v"
      by (intro power_increasing) (simp_all add: neg_shift_def)
    then show "neg_kernel v \<le> 2 ^ 64 * 2 ^ neg_shift v"
      using neg_kernel_bounds(2) [of v] by simp
  qed (simp add: neg_shift_def)
  with nonneg have br: "brand (exp2_neg v) = Inr (exp2_neg v)"
    by (intro brand_ok) (simp_all add: U128_MAX_def)
  have big: "exp2_neg v = 0" if "?shift \<ge> 256"
  proof -
    have "(2::int) ^ 98 \<le> 2 ^ (neg_shift v - 1)"
      using that w by (intro power_increasing) (auto simp: neg_shift_def split: if_splits)
    then have "neg_kernel v < 2 ^ (neg_shift v - 1)"
      using neg_kernel_bounds(2) [of v] by simp
    then show ?thesis
      unfolding exp2_neg_def using neg_kernel_bounds(1) [of v]
      by (intro shr_round_small) (simp_all add: neg_shift_def)
  qed
  have kern: "(if ?fr = 0 then Inr ONE_Q96 else exp2FracQ96 (ONE_RAW - ?fr)) = Inr ?k"
    by (simp add: exp2FracQ96_kernel kernel_consts)
  have "fx_exp2Negative v = (if ?shift \<ge> 256 then Inr ZERO else brand (shr_round (nat ?shift) ?k))"
    unfolding fx_exp2Negative_def Let_def and_frac_mask kern FRAC_BITS_def
    by (simp add: GUARD_BITS_def add.commute)
  also have "\<dots> = Inr (exp2_neg v)"
    unfolding same br using big by (simp add: ZERO_def)
  finally show ?thesis .
qed

lemma exp2_neg_nonneg [kernel_bounds]: "0 \<le> exp2_neg v"
  unfolding exp2_neg_def
  by (rule shr_round_ge) (use neg_kernel_bounds(1) [of v] in \<open>auto simp: neg_shift_def\<close>)

lemma exp2_neg_le_one [kernel_bounds]: "exp2_neg v \<le> 2 ^ 64"
  unfolding exp2_neg_def
proof (rule shr_round_le)
  have "(2::int) ^ 33 \<le> 2 ^ neg_shift v"
    by (intro power_increasing) (simp_all add: neg_shift_def)
  then show "neg_kernel v \<le> 2 ^ 64 * 2 ^ neg_shift v"
    using neg_kernel_bounds(2) [of v] by simp
qed (simp add: neg_shift_def)

lemma exp2_neg_zero: "exp2_neg 0 = 2 ^ 64"
  by (simp add: exp2_neg_def neg_shift_def neg_kernel_def shr_round_def)

lemma shr_round_shift_mono:
  assumes "0 < n" "0 \<le> x" "n \<le> m"
  shows "shr_round m x \<le> shr_round n x"
  using assms(3)
proof (induction m rule: dec_induct)
  case (step k)
  have "shr_round (Suc k) x \<le> shr_round (Suc k) (2 * x)"
    using assms by (intro shr_round_mono) simp_all
  also have "\<dots> = shr_round k x"
    using step assms by (intro shr_round_Suc_double) simp
  finally show ?case using step.IH by simp
qed simp

lemma exp2_neg_antimono:
  assumes "0 \<le> a" "a \<le> b"
  shows "exp2_neg b \<le> exp2_neg a"
proof -
  have w: "0 \<le> a div 2 ^ 64" "a div 2 ^ 64 \<le> b div 2 ^ 64"
    using assms by (simp_all add: pos_imp_zdiv_nonneg_iff zdiv_mono1)
  have sh: "0 < neg_shift a" by (simp add: neg_shift_def)
  show ?thesis
  proof (cases "a div 2 ^ 64 = b div 2 ^ 64")
    case True
    have fr: "a mod 2 ^ 64 \<le> b mod 2 ^ 64"
      unfolding minus_div_mult_eq_mod [symmetric] using True assms(2) by simp
    have "neg_kernel b \<le> neg_kernel a"
    proof (cases "a mod 2 ^ 64 = 0")
      case True
      then show ?thesis using neg_kernel_bounds(2) [of b] by (simp add: neg_kernel_def)
    next
      case False
      have a0: "0 \<le> a mod 2 ^ 64" by simp
      with False fr have pos: "0 < a mod 2 ^ 64" "b mod 2 ^ 64 \<noteq> 0" by linarith+
      have "b mod 2 ^ 64 < 2 ^ 64" by simp
      then have "exp2_kernel (2 ^ 64 - b mod 2 ^ 64) \<le> exp2_kernel (2 ^ 64 - a mod 2 ^ 64)"
        using fr pos by (intro exp2_kernel_mono) linarith+
      then show ?thesis using False pos by (simp add: neg_kernel_def)
    qed
    moreover have "neg_shift a = neg_shift b" using True by (simp add: neg_shift_def)
    ultimately show ?thesis
      unfolding exp2_neg_def using sh by (auto intro: shr_round_mono)
  next
    case False
    then have le: "Suc (neg_shift a) \<le> neg_shift b"
      using w by (simp add: neg_shift_def)
    have "exp2_neg b \<le> shr_round (neg_shift b) (2 ^ 97)"
      unfolding exp2_neg_def using le by (intro shr_round_mono neg_kernel_bounds) simp
    also have "\<dots> \<le> shr_round (Suc (neg_shift a)) (2 ^ 97)"
      using le by (intro shr_round_shift_mono) simp_all
    also have "\<dots> = shr_round (neg_shift a) (2 ^ 96)"
      using shr_round_Suc_double [OF sh, of "2 ^ 96"] by simp
    also have "\<dots> \<le> exp2_neg a"
      unfolding exp2_neg_def by (intro shr_round_mono sh neg_kernel_bounds)
    finally show ?thesis .
  qed
qed

lemma neg_kernel_error:
  defines "P v \<equiv> 2 powr (1 - real_of_int (v mod 2 ^ 64) / 2 ^ 64)"
  shows "\<bar>real_of_int (neg_kernel v) / 2 ^ 96 - P v\<bar> \<le> P v / 2 ^ 87"
proof (cases "v mod 2 ^ 64 = 0")
  case True
  then show ?thesis by (simp add: neg_kernel_def P_def)
next
  case False
  let ?f = "2 ^ 64 - v mod 2 ^ 64"
  have m: "0 \<le> v mod 2 ^ 64" "v mod 2 ^ 64 < 2 ^ 64" by simp_all
  have f: "0 \<le> ?f" "?f < 2 ^ 64" using m False by linarith+
  have "real_of_int ?f / 2 ^ 64 = 1 - real_of_int (v mod 2 ^ 64) / 2 ^ 64"
    by (simp only: of_int_diff diff_divide_distrib) simp
  then have "P v = 2 powr (real_of_int ?f / 2 ^ 64)" by (simp only: P_def)
  with exp2_kernel_error [OF f] False show ?thesis
    by (simp only: neg_kernel_def if_False)
qed

lemma exp2_neg_error:
  assumes "0 \<le> v"
  shows "\<bar>real_of_int (exp2_neg v) - 2 ^ 64 * 2 powr (- real_of_int v / 2 ^ 64)\<bar> \<le> 1"
proof -
  define w where "w = nat (v div 2 ^ 64)"
  define P where "P = 2 powr (1 - real_of_int (v mod 2 ^ 64) / 2 ^ 64)"
  have "real_of_int (v div 2 ^ 64 * 2 ^ 64 + v mod 2 ^ 64) = real_of_int v"
    by (simp only: div_mult_mod_eq)
  moreover have "real_of_int (v div 2 ^ 64) = real w"
    using assms by (simp add: w_def pos_imp_zdiv_nonneg_iff)
  ultimately have "real_of_int v = real w * 2 ^ 64 + real_of_int (v mod 2 ^ 64)"
    by (simp only: of_int_add of_int_mult of_int_power of_int_numeral)
  then have "- real_of_int v / 2 ^ 64 = (1 - real_of_int (v mod 2 ^ 64) / 2 ^ 64) - real (Suc w)"
    by (simp only: minus_add_distrib add_divide_distrib of_nat_Suc) simp
  then have "2 powr (- real_of_int v / 2 ^ 64) = P / 2 powr real (Suc w)"
    by (simp only: P_def powr_diff)
  also have "\<dots> = P / 2 ^ Suc w"
    by (subst powr_realpow) simp_all
  finally have E: "2 ^ 64 * 2 powr (- real_of_int v / 2 ^ 64) = 2 ^ 63 * P / 2 ^ w"
    by simp
  have P: "0 \<le> P" "P \<le> 2"
  proof -
    have "P \<le> 2 powr 1" unfolding P_def by (intro powr_mono) simp_all
    then show "P \<le> 2" by simp
  qed (simp add: P_def)
  have k: "\<bar>real_of_int (neg_kernel v) / 2 ^ 96 - P\<bar> \<le> P / 2 ^ 87"
    unfolding P_def by (rule neg_kernel_error)
  have r: "\<bar>real_of_int (exp2_neg v) - real_of_int (neg_kernel v) / 2 ^ (w + 33)\<bar> \<le> 1 / 2"
    unfolding exp2_neg_def neg_shift_def w_def by (rule shr_round_real_error) simp
  have "real_of_int (neg_kernel v) / 2 ^ (w + 33) =
      2 ^ 63 * P / 2 ^ w + (real_of_int (neg_kernel v) / 2 ^ 96 - P) * (2 ^ 63 / 2 ^ w)"
    by (simp add: power_add field_simps)
  from abs_error_add [OF r this]
  have "\<bar>real_of_int (exp2_neg v) - 2 ^ 63 * P / 2 ^ w\<bar>
      \<le> 1 / 2 + \<bar>real_of_int (neg_kernel v) / 2 ^ 96 - P\<bar> * (2 ^ 63 / 2 ^ w)"
    by (simp only: abs_mult) simp
  also have "\<bar>real_of_int (neg_kernel v) / 2 ^ 96 - P\<bar> * (2 ^ 63 / 2 ^ w) \<le> (2 / 2 ^ 87) * 2 ^ 63"
  proof (intro mult_mono)
    show "\<bar>real_of_int (neg_kernel v) / 2 ^ 96 - P\<bar> \<le> 2 / 2 ^ 87"
      using k by (rule order_trans) (intro divide_right_mono P, simp)
    show "2 ^ 63 / 2 ^ w \<le> (2 ^ 63 :: real)"
      by (simp add: divide_le_eq)
  qed simp_all
  finally show ?thesis
    unfolding E by simp
qed

subsection \<open>log2\<close>

definition mant_log :: "real \<Rightarrow> real" where
  "mant_log x = log 2 (x / 2 ^ 96)"

lemma mant_log_close_aux:
  assumes "2 ^ 96 \<le> x" "x \<le> y" "y - x \<le> 1 / 2"
  shows "mant_log y - mant_log x \<le> 1 / 2 ^ 96" "0 \<le> mant_log y - mant_log x"
proof -
  have "(0::real) < 2 ^ 96" by simp
  with assms have x: "0 < x" "0 < y" by linarith+
  have eq: "mant_log y - mant_log x = ln (y / x) / ln 2"
    using x by (simp add: mant_log_def log_def ln_div diff_divide_distrib flip: diff_divide_distrib)
  have half: "1 / 2 \<le> ln (2::real)"
    by (subst ln_ge_iff) (simp_all add: exp_half_le2)
  have "ln (y / x) = ln (1 + (y - x) / x)"
    using x by (simp add: field_simps)
  also have "\<dots> \<le> (y - x) / x"
    using x assms by (intro ln_add_one_self_le_self) simp
  also have "\<dots> \<le> (1 / 2) / 2 ^ 96"
    using assms x by (intro frac_le) simp_all
  finally have up: "ln (y / x) \<le> (1 / 2) / 2 ^ 96" .
  have lo: "0 \<le> ln (y / x)"
    using x assms by (intro ln_ge_zero) simp
  have "ln (y / x) / ln 2 \<le> ((1 / 2) / 2 ^ 96) / (1 / 2)"
    using up lo half by (intro frac_le) simp_all
  then show "mant_log y - mant_log x \<le> 1 / 2 ^ 96"
    unfolding eq by simp
  show "0 \<le> mant_log y - mant_log x"
    unfolding eq using lo half by simp
qed

lemma mant_log_close:
  assumes "2 ^ 96 \<le> x" "2 ^ 96 \<le> y" "\<bar>x - y\<bar> \<le> 1 / 2"
  shows "\<bar>mant_log x - mant_log y\<bar> \<le> 1 / 2 ^ 96"
  using mant_log_close_aux [of x y] mant_log_close_aux [of y x] assms
  by (cases "x \<le> y") (simp_all add: abs_le_iff)

lemma of_int_pow2_le: "2 ^ k \<le> m \<Longrightarrow> (2::real) ^ k \<le> real_of_int m"
  by (metis of_int_le_iff of_int_numeral of_int_power)

lemma of_int_le_pow2: "m \<le> 2 ^ k \<Longrightarrow> real_of_int m \<le> (2::real) ^ k"
  by (metis of_int_le_iff of_int_numeral of_int_power)

lemma mant_log_square:
  assumes "2 ^ 96 \<le> m"
  shows "\<bar>mant_log (real_of_int (qmul m m)) - 2 * mant_log (real_of_int m)\<bar> \<le> 1 / 2 ^ 96"
proof -
  have m: "2 ^ 96 \<le> real_of_int m" using assms by (rule of_int_pow2_le)
  let ?y = "real_of_int m * real_of_int m / 2 ^ 96"
  have "\<bar>real_of_int (qmul m m) - real_of_int (m * m) / 2 ^ 96\<bar> \<le> 1 / 2"
    unfolding qmul_def by (rule shr_round_real_error) simp
  moreover have "2 ^ 96 \<le> real_of_int (qmul m m)"
    using qmul_ge [of m m] assms by (intro of_int_pow2_le) simp
  moreover have "2 ^ 96 \<le> ?y"
    using mult_mono [OF m m] m by simp
  ultimately have "\<bar>mant_log (real_of_int (qmul m m)) - mant_log ?y\<bar> \<le> 1 / 2 ^ 96"
    by (intro mant_log_close) simp_all
  moreover have "mant_log ?y = 2 * mant_log (real_of_int m)"
  proof -
    have "?y / 2 ^ 96 = (real_of_int m / 2 ^ 96) ^ 2"
      by (simp add: power2_eq_square)
    then show ?thesis
      using m by (simp add: mant_log_def log_nat_power)
  qed
  ultimately show ?thesis by simp
qed

lemma abs_chain:
  "\<bar>h - t\<bar> \<le> e \<Longrightarrow> t = s - c \<Longrightarrow> \<bar>s - d\<bar> \<le> e \<Longrightarrow> \<bar>d - (c + h)\<bar> \<le> 2 * (e::real)"
  by linarith

lemma mant_log_next:
  assumes "2 ^ 96 \<le> m"
  shows "\<bar>2 * mant_log (real_of_int m)
      - ((if qmul m m \<ge> 2 ^ 97 then 1 else 0) + mant_log (real_of_int (log2_next m)))\<bar> \<le> 1 / 2 ^ 95"
proof (cases "qmul m m \<ge> 2 ^ 97")
  case True
  let ?s = "qmul m m"
  have s: "2 ^ 97 \<le> real_of_int ?s" using True by (rule of_int_pow2_le)
  have h: "2 ^ 96 \<le> (?s + 1) div 2" using True by simp
  have "\<bar>real_of_int ((?s + 1) div 2) - real_of_int ?s / 2\<bar> \<le> 1 / 2"
    by linarith
  then have "\<bar>mant_log (real_of_int ((?s + 1) div 2)) - mant_log (real_of_int ?s / 2)\<bar> \<le> 1 / 2 ^ 96"
    using s of_int_pow2_le [OF h] by (intro mant_log_close) simp_all
  moreover have "mant_log (real_of_int ?s / 2) = mant_log (real_of_int ?s) - 1"
  proof -
    have "0 < real_of_int ?s / 2 ^ 96" using s by simp
    then have "log 2 (real_of_int ?s / 2 ^ 96 / 2) = log 2 (real_of_int ?s / 2 ^ 96) - log 2 2"
      by (subst log_divide) simp_all
    then show ?thesis by (simp add: mant_log_def)
  qed
  ultimately have "\<bar>2 * mant_log (real_of_int m) - (1 + mant_log (real_of_int ((?s + 1) div 2)))\<bar>
      \<le> 2 * (1 / 2 ^ 96)"
    using mant_log_square [OF assms] by (rule abs_chain)
  then show ?thesis
    using True by (simp add: log2_next_def)
next
  case False
  have "\<bar>2 * mant_log (real_of_int m) - (0 + mant_log (real_of_int (qmul m m)))\<bar> \<le> 2 * (1 / 2 ^ 96)"
    by (rule abs_chain [OF _ _ mant_log_square [OF assms]]) simp_all
  then show ?thesis
    using False by (simp add: log2_next_def)
qed

lemma mant_log_range:
  assumes "2 ^ 96 \<le> m" "m \<le> 2 ^ 97"
  shows "0 \<le> mant_log (real_of_int m)" "mant_log (real_of_int m) \<le> 1"
proof -
  have m: "2 ^ 96 \<le> real_of_int m" "real_of_int m \<le> 2 ^ 97"
    using assms by (intro of_int_pow2_le of_int_le_pow2; simp)+
  then have "1 \<le> real_of_int m / 2 ^ 96" "real_of_int m / 2 ^ 96 \<le> 2 powr 1"
    by simp_all
  then show "0 \<le> mant_log (real_of_int m)" "mant_log (real_of_int m) \<le> 1"
    by (simp_all add: mant_log_def log_le_iff del: powr_one)
qed

lemma log2_frac_zero_error:
  assumes "2 ^ 96 \<le> m" "m \<le> 2 ^ 97"
  shows "\<bar>mant_log (real_of_int m) - real_of_int (log2_frac 0 m)\<bar> \<le> 1 / 2 + 1 / 2 ^ 95"
proof -
  note r = mant_log_range [OF assms]
  note n = mant_log_range [OF log2_next_bounds [OF assms]]
  have "\<bar>2 * mant_log (real_of_int m)
      - (real_of_int (log2_frac 0 m) + mant_log (real_of_int (log2_next m)))\<bar> \<le> 1 / 2 ^ 95"
    using mant_log_next [OF assms(1)] by (cases "qmul m m \<ge> 2 ^ 97") simp_all
  with n show ?thesis
    unfolding abs_le_between by (cases "qmul m m \<ge> 2 ^ 97") (use r in simp_all)
qed

lemma log2_frac_error:
  "2 ^ 96 \<le> m \<Longrightarrow> m \<le> 2 ^ 97 \<Longrightarrow>
     \<bar>2 ^ k * mant_log (real_of_int m) - real_of_int (log2_frac k m)\<bar> \<le> 1 / 2 + 2 ^ k / 2 ^ 95"
proof (induction k arbitrary: m)
  case 0
  then show ?case using log2_frac_zero_error [of m] by simp
next
  case (Suc k)
  let ?b = "if qmul m m \<ge> 2 ^ 97 then 1 else 0 :: real"
  let ?n = "mant_log (real_of_int (log2_next m))"
  have "\<bar>2 ^ k * ?n - real_of_int (log2_frac k (log2_next m))\<bar> \<le> 1 / 2 + 2 ^ k / 2 ^ 95"
    by (rule Suc.IH [OF log2_next_bounds [OF Suc.prems]])
  moreover have "\<bar>2 ^ k * (2 * mant_log (real_of_int m)) - 2 ^ k * (?b + ?n)\<bar> \<le> 2 ^ k * (1 / 2 ^ 95)"
    using mult_left_mono [OF mant_log_next [OF Suc.prems(1)], of "2 ^ k"]
    by (simp only: abs_mult flip: right_diff_distrib) simp
  moreover have "2 ^ k * (?b + ?n) = 2 ^ k * ?b + 2 ^ k * ?n"
    by (rule distrib_left)
  moreover have "real_of_int (log2_frac (Suc k) m) = 2 ^ k * ?b + real_of_int (log2_frac k (log2_next m))"
    by simp
  moreover have "2 ^ Suc k * mant_log (real_of_int m) = 2 ^ k * (2 * mant_log (real_of_int m))"
    "2 ^ Suc k / 2 ^ 95 = 2 ^ k * (1 / 2 ^ 95) + 2 ^ k / (2 ^ 95 :: real)"
    by simp_all
  ultimately show ?case
    by linarith
qed

lemma log2_normalize_error:
  assumes "2 ^ 64 \<le> v" "v \<le> U128_MAX"
  defines "n \<equiv> bitLength v - 1 - int FRAC_BITS"
  shows "\<bar>real_of_int n + mant_log (real_of_int (log2_normalize v n)) - log 2 (real_of_int v / 2 ^ 64)\<bar>
    \<le> 1 / 2 ^ 96"
proof -
  note ip = log2_int_part [OF assms(1,2), folded n_def]
  note nb = log2_normalize_bounds [OF assms(1,2), folded n_def]
  have n: "real_of_int n = real (nat n)" using ip(1) by simp
  have v: "2 ^ nat n * 2 ^ 64 \<le> real_of_int v" "0 < real_of_int v"
  proof -
    have "real_of_int (2 ^ nat n * 2 ^ 64) \<le> real_of_int v"
      using ip(3) by (simp only: of_int_le_iff)
    then show "2 ^ nat n * 2 ^ 64 \<le> real_of_int v" by simp
    show "0 < real_of_int v" using assms(1) by simp
  qed
  let ?x = "real_of_int v / 2 ^ 64 / 2 ^ nat n * 2 ^ 96"
  have lv: "mant_log ?x = log 2 (real_of_int v / 2 ^ 64) - real_of_int n"
  proof -
    have "mant_log ?x = log 2 (real_of_int v / 2 ^ 64 / 2 ^ nat n)"
      by (simp add: mant_log_def)
    also have "\<dots> = log 2 (real_of_int v / 2 ^ 64) - log 2 (2 ^ nat n)"
      using v by (intro log_divide_pos) simp_all
    also have "log 2 (2 ^ nat n :: real) = real (nat n)"
      by (simp add: log_nat_power)
    finally show ?thesis by (simp add: n)
  qed
  have x: "2 ^ 96 \<le> ?x"
    using v(1) by (simp add: field_simps)
  have m: "2 ^ 96 \<le> real_of_int (log2_normalize v n)"
    using nb(1) by (rule of_int_pow2_le)
  have "\<bar>real_of_int (log2_normalize v n) - ?x\<bar> \<le> 1 / 2"
  proof (cases "n \<le> 32")
    case True
    define k where "k = nat (32 - n)"
    have k: "nat n + k = 32" using True ip(1) by (simp add: k_def)
    have "(2::real) ^ nat n * 2 ^ k = 2 ^ 32" by (simp add: k flip: power_add)
    then have "(2::real) ^ k = 2 ^ 32 / 2 ^ nat n" by (simp add: field_simps)
    moreover have "log2_normalize v n = v * 2 ^ k"
      using True by (simp add: log2_normalize_def GUARD_BITS_def k_def)
    ultimately have "real_of_int (log2_normalize v n) = ?x"
      by simp
    then show ?thesis by simp
  next
    case False
    define k where "k = nat (n - 32)"
    have k: "nat n = k + 32" "0 < k" using False by (simp_all add: k_def)
    have "log2_normalize v n = shr_round k v"
      using False by (simp add: log2_normalize_def GUARD_BITS_def k_def)
    moreover have "?x = real_of_int v / 2 ^ k"
      by (simp add: k power_add)
    ultimately show ?thesis
      using shr_round_real_error [OF k(2), of v] by simp
  qed
  then have "\<bar>mant_log (real_of_int (log2_normalize v n)) - mant_log ?x\<bar> \<le> 1 / 2 ^ 96"
    by (intro mant_log_close m x)
  then show ?thesis
    unfolding lv by (simp add: algebra_simps)
qed

lemma abs_two_step:
  "\<bar>x - f\<bar> \<le> a \<Longrightarrow> \<bar>c + x - t\<bar> \<le> b \<Longrightarrow> a + b \<le> 1 \<Longrightarrow> \<bar>c + f - t\<bar> \<le> (1::real)"
  by linarith

lemma fx_log2_error:
  assumes "2 ^ 64 \<le> v" "v \<le> U128_MAX"
  obtains r where "fx_log2 v = Inr r"
    "\<bar>real_of_int r - 2 ^ 64 * log 2 (real_of_int v / 2 ^ 64)\<bar> \<le> 1"
proof
  define n where "n = bitLength v - 1 - int FRAC_BITS"
  define m where "m = log2_normalize v n"
  note nb = log2_normalize_bounds [OF assms, folded n_def, folded m_def]
  show "fx_log2 v = Inr (n * 2 ^ 64 + log2_frac 64 m)"
    using fx_log2_eq [OF assms] by (simp only: n_def m_def)
  let ?T = "log 2 (real_of_int v / 2 ^ 64)"
  have f: "\<bar>2 ^ 64 * mant_log (real_of_int m) - real_of_int (log2_frac 64 m)\<bar> \<le> 1 / 2 + 2 ^ 64 / 2 ^ 95"
    by (rule log2_frac_error [OF nb])
  have "\<bar>real_of_int n + mant_log (real_of_int m) - ?T\<bar> \<le> 1 / 2 ^ 96"
    using log2_normalize_error [OF assms] by (simp only: n_def m_def)
  then have "\<bar>2 ^ 64 * (real_of_int n + mant_log (real_of_int m) - ?T)\<bar> \<le> 2 ^ 64 * (1 / 2 ^ 96)"
    by (simp only: abs_mult) simp
  then have g: "\<bar>2 ^ 64 * real_of_int n + 2 ^ 64 * mant_log (real_of_int m) - 2 ^ 64 * ?T\<bar> \<le> 1 / 2 ^ 32"
    by (simp add: algebra_simps)
  have "real_of_int (n * 2 ^ 64 + log2_frac 64 m) = 2 ^ 64 * real_of_int n + real_of_int (log2_frac 64 m)"
    by simp
  then show "\<bar>real_of_int (n * 2 ^ 64 + log2_frac 64 m) - 2 ^ 64 * ?T\<bar> \<le> 1"
    using abs_two_step [OF f g] by simp
qed

lemma log2_normalize_mono:
  assumes "2 ^ 64 \<le> v" "v \<le> w" "w \<le> U128_MAX" "bitLength v = bitLength w"
  shows "log2_normalize v (bitLength v - 1 - int FRAC_BITS)
    \<le> log2_normalize w (bitLength w - 1 - int FRAC_BITS)"
  using assms by (auto simp: log2_normalize_def intro!: shr_round_mono mult_right_mono)

lemma fx_log2_mono:
  assumes "2 ^ 64 \<le> v" "v \<le> w" "w \<le> U128_MAX" "fx_log2 v = Inr r" "fx_log2 w = Inr s"
  shows "r \<le> s"
proof -
  define n where "n = bitLength v - 1 - int FRAC_BITS"
  define k where "k = bitLength w - 1 - int FRAC_BITS"
  have vb: "v \<le> U128_MAX" and wb: "2 ^ 64 \<le> w" using assms by linarith+
  have r: "r = n * 2 ^ 64 + log2_frac 64 (log2_normalize v n)"
    using fx_log2_eq [OF assms(1) vb] assms(4) by (simp only: n_def) simp
  have s: "s = k * 2 ^ 64 + log2_frac 64 (log2_normalize w k)"
    using fx_log2_eq [OF wb assms(3)] assms(5) by (simp only: k_def) simp
  note ipv = log2_int_part [OF assms(1) vb, folded n_def]
  note ipw = log2_int_part [OF wb assms(3), folded k_def]
  have "(2::int) ^ nat n * 2 ^ 64 < 2 ^ nat k * 2 ^ 65"
    using ipv(3) ipw(4) assms(2) by linarith
  then have "(2::int) ^ nat n < 2 ^ Suc (nat k)" by simp
  then have "nat n < Suc (nat k)"
    by (subst (asm) power_strict_increasing_iff) simp_all
  then have nk: "n \<le> k" using ipv(1) ipw(1) by linarith
  show ?thesis
  proof (cases "n = k")
    case True
    then have b: "bitLength v = bitLength w" by (simp add: n_def k_def)
    have "log2_normalize v n \<le> log2_normalize w k"
      using log2_normalize_mono [OF assms(1-3) b] by (simp only: n_def k_def)
    moreover have "2 ^ 96 \<le> log2_normalize v n" "log2_normalize w k \<le> 2 ^ 97"
      using log2_normalize_bounds [OF assms(1) vb] log2_normalize_bounds [OF wb assms(3)]
      by (simp_all only: n_def k_def)
    ultimately show ?thesis
      unfolding r s True by (simp add: log2_frac_mono del: log2_frac.simps)
  next
    case False
    then have "n + 1 \<le> k" using nk by simp
    then have "n * 2 ^ 64 + 2 ^ 64 \<le> k * 2 ^ 64"
      by simp
    then show ?thesis
      unfolding r s using log2_frac_le [of 64 "log2_normalize v n"]
        log2_frac_nonneg [of 64 "log2_normalize w k"] by linarith
  qed
qed

subsection \<open>The contract of the kernel\<close>

text \<open>
  \<open>exp2\<close> returns for every argument below 64 and its result is within a relative error of
  \<open>2^-64\<close> of the real power of two.\<close>

theorem exp2_accurate:
  assumes "0 \<le> v" "v < 64 * 2 ^ 64"
  shows "\<exists>r. fx_exp2 v = Inr r \<and>
    \<bar>real_of_int r / 2 ^ 64 - 2 powr (real_of_int v / 2 ^ 64)\<bar> \<le> 2 powr (real_of_int v / 2 ^ 64) / 2 ^ 64"
  using fx_exp2_error [OF assms] by blast

theorem exp2_accurate_witness:
  "\<exists>r. fx_exp2 (3 * 2 ^ 63) = Inr r \<and>
    \<bar>real_of_int r / 2 ^ 64 - 2 powr (real_of_int (3 * 2 ^ 63) / 2 ^ 64)\<bar>
      \<le> 2 powr (real_of_int (3 * 2 ^ 63) / 2 ^ 64) / 2 ^ 64"
  by (rule exp2_accurate) simp_all

text \<open>
  \<open>exp2Negative\<close> returns for every argument, its result is in \<open>[0, 1]\<close>, within one unit in
  the last place of \<open>2^-v\<close>, and it never grows with its argument.\<close>

theorem exp2Negative_accurate:
  assumes "0 \<le> v" "v \<le> w"
  shows "\<exists>r s. fx_exp2Negative v = Inr r \<and> fx_exp2Negative w = Inr s \<and> 0 \<le> s \<and> s \<le> r \<and> r \<le> 2 ^ 64 \<and>
    \<bar>real_of_int r - 2 ^ 64 * 2 powr (- real_of_int v / 2 ^ 64)\<bar> \<le> 1"
proof -
  have "0 \<le> w" using assms by simp
  then show ?thesis
    using fx_exp2Negative_eq [OF assms(1)] fx_exp2Negative_eq [OF \<open>0 \<le> w\<close>]
      exp2_neg_nonneg [of w] exp2_neg_le_one [of v] exp2_neg_antimono [OF assms] exp2_neg_error [OF assms(1)]
    by (intro exI [of _ "exp2_neg v"] exI [of _ "exp2_neg w"] conjI)
qed

theorem exp2Negative_accurate_witness:
  "\<exists>r s. fx_exp2Negative (2 ^ 63) = Inr r \<and> fx_exp2Negative (2 ^ 65) = Inr s \<and> 0 \<le> s \<and> s \<le> r \<and> r \<le> 2 ^ 64 \<and>
    \<bar>real_of_int r - 2 ^ 64 * 2 powr (- real_of_int (2 ^ 63) / 2 ^ 64)\<bar> \<le> 1"
  by (rule exp2Negative_accurate) simp_all

text \<open>
  \<open>log2\<close> returns for every representable value from one upwards, within one unit in the last
  place of the real logarithm, and it is monotone.\<close>

theorem log2_accurate:
  assumes "2 ^ 64 \<le> v" "v \<le> w" "w \<le> U128_MAX"
  shows "\<exists>r s. fx_log2 v = Inr r \<and> fx_log2 w = Inr s \<and> r \<le> s \<and>
    \<bar>real_of_int r - 2 ^ 64 * log 2 (real_of_int v / 2 ^ 64)\<bar> \<le> 1"
proof -
  have "v \<le> U128_MAX" "2 ^ 64 \<le> w" using assms by linarith+
  then obtain r s where "fx_log2 v = Inr r" "fx_log2 w = Inr s"
    "\<bar>real_of_int r - 2 ^ 64 * log 2 (real_of_int v / 2 ^ 64)\<bar> \<le> 1"
    using fx_log2_error [OF assms(1)] fx_log2_error [OF _ assms(3)] by metis
  then show ?thesis using fx_log2_mono [OF assms] by blast
qed

theorem log2_accurate_witness:
  "\<exists>r s. fx_log2 (3 * 2 ^ 64) = Inr r \<and> fx_log2 (5 * 2 ^ 64) = Inr s \<and> r \<le> s \<and>
    \<bar>real_of_int r - 2 ^ 64 * log 2 (real_of_int (3 * 2 ^ 64) / 2 ^ 64)\<bar> \<le> 1"
  by (rule log2_accurate) (simp_all add: U128_MAX_def)

end
