(* ===== verification/Lmsr.thy ===== *)
theory Lmsr
  imports Fixed_Accuracy
begin

text \<open>
  The two-outcome LMSR of \<open>app/packages/protocol/src/lmsr.ts\<close>: the domain guard, the cost
  function in its log-sum-exp form, marginal prices, buy and sell amounts, and the
  displacement between prices. Every quantity is a raw 64.64 value in whole USDC.

  The client of the 64.64 kernel needs only a few laws of it: the decay \<open>e^-x\<close> lies in
  \<open>[0, 1]\<close>, is 1 at 0 and antitone; \<open>ln (1 + x)\<close> is monotone and at most \<open>ln 2\<close> on
  \<open>[0, 1]\<close>. They are the locale \<open>pricing_kernel\<close>, in which the price and cost envelopes are
  proved once; the interpretation discharges them for the kernel of \<open>Fixed_Kernel\<close>.
\<close>

subsection \<open>The domain guard\<close>

definition LMSR_DOMAIN_BOUND :: int where
  "LMSR_DOMAIN_BOUND = 48"

datatype lmsr_side = SideLong | SideShort

definition PRICE_ONE_1E9 :: int where
  "PRICE_ONE_1E9 = 1000000000"

definition priceToGrid1e9 :: "fixed \<Rightarrow> int" where
  "priceToGrid1e9 price = (toRaw price * PRICE_ONE_1E9) div 2 ^ 64"

definition ensureDomain :: "fixed \<Rightarrow> fixed \<Rightarrow> fixed \<Rightarrow> unit outcome" where
  "ensureDomain qLong qShort b =
     (if toRaw b = 0 then Inl (fixedFault DivisionByZero)
      else let diff = (if qLong \<ge> qShort then toRaw qLong - toRaw qShort
                       else toRaw qShort - toRaw qLong)
           in if diff > toRaw b * LMSR_DOMAIN_BOUND then Inl (fixedFault Domain) else Inr ())"

definition isWithinDomain :: "fixed \<Rightarrow> fixed \<Rightarrow> fixed \<Rightarrow> bool" where
  "isWithinDomain qLong qShort b =
     (case ensureDomain qLong qShort b of Inr _ \<Rightarrow> True | Inl _ \<Rightarrow> False)"

subsection \<open>Cost and prices\<close>

definition expNegDisplacement :: "fixed \<Rightarrow> fixed \<Rightarrow> fixed \<Rightarrow> fixed outcome" where
  "expNegDisplacement qLong qShort b =
     (let high = (if qLong \<ge> qShort then qLong else qShort);
          low = (if qLong \<ge> qShort then qShort else qLong)
      in rbind (fx_sub high low) (\<lambda>d.
         rbind (fx_div d b) (\<lambda>displacement.
         rbind (fx_div displacement LN_2) fx_exp2Negative)))"

definition lmsrCost :: "fixed \<Rightarrow> fixed \<Rightarrow> fixed \<Rightarrow> fixed outcome" where
  "lmsrCost qLong qShort b =
     rbind (ensureDomain qLong qShort b) (\<lambda>_.
       let high = (if qLong \<ge> qShort then qLong else qShort)
       in rbind (expNegDisplacement qLong qShort b) (\<lambda>e.
          rbind (lnOnePlus e) (\<lambda>l.
          rbind (fx_mul b l) (\<lambda>t. fx_add high t))))"

definition lmsrPriceLong :: "fixed \<Rightarrow> fixed \<Rightarrow> fixed \<Rightarrow> fixed outcome" where
  "lmsrPriceLong qLong qShort b =
     rbind (ensureDomain qLong qShort b) (\<lambda>_.
     rbind (expNegDisplacement qLong qShort b) (\<lambda>expNeg.
     rbind (fx_add ONE expNeg) (\<lambda>denominator.
       if qLong \<ge> qShort then fx_div ONE denominator else fx_div expNeg denominator)))"

definition lmsrPriceShort :: "fixed \<Rightarrow> fixed \<Rightarrow> fixed \<Rightarrow> fixed outcome" where
  "lmsrPriceShort qLong qShort b =
     rbind (lmsrPriceLong qLong qShort b) (\<lambda>p. fx_sub ONE p)"

definition lmsrBuyCost ::
  "fixed \<Rightarrow> fixed \<Rightarrow> fixed \<Rightarrow> lmsr_side \<Rightarrow> fixed \<Rightarrow> fixed outcome" where
  "lmsrBuyCost qLong qShort b side amount =
     rbind (lmsrCost qLong qShort b) (\<lambda>before_c.
     rbind (case side of
              SideLong \<Rightarrow> rbind (fx_add qLong amount) (\<lambda>q. lmsrCost q qShort b)
            | SideShort \<Rightarrow> rbind (fx_add qShort amount) (\<lambda>q. lmsrCost qLong q b))
       (\<lambda>after_c. fx_sub after_c before_c))"

definition lmsrSellProceeds ::
  "fixed \<Rightarrow> fixed \<Rightarrow> fixed \<Rightarrow> lmsr_side \<Rightarrow> fixed \<Rightarrow> fixed outcome" where
  "lmsrSellProceeds qLong qShort b side amount =
     rbind (lmsrCost qLong qShort b) (\<lambda>before_c.
     rbind (case side of
              SideLong \<Rightarrow> rbind (fx_sub qLong amount) (\<lambda>q. lmsrCost q qShort b)
            | SideShort \<Rightarrow> rbind (fx_sub qShort amount) (\<lambda>q. lmsrCost qLong q b))
       (\<lambda>after_c. fx_sub before_c after_c))"

subsection \<open>Displacement between prices\<close>

definition logitSignedMagnitude :: "fixed \<Rightarrow> (bool \<times> fixed) outcome" where
  "logitSignedMagnitude price =
     (if toRaw price = 0 \<or> price \<ge> ONE then Inl (fixedFault Domain)
      else rbind (fx_sub ONE price) (\<lambda>complement.
        if price \<ge> complement
        then rbind (fx_div price complement) (\<lambda>r. rbind (fx_ln r) (\<lambda>m. Inr (True, m)))
        else rbind (fx_div complement price) (\<lambda>r. rbind (fx_ln r) (\<lambda>m. Inr (False, m)))))"

definition lmsrDisplacementBetweenPrices :: "fixed \<Rightarrow> fixed \<Rightarrow> fixed \<Rightarrow> fixed outcome" where
  "lmsrDisplacementBetweenPrices b from_p to_p =
     rbind (logitSignedMagnitude from_p) (\<lambda>(start_pos, start_mag).
     rbind (logitSignedMagnitude to_p) (\<lambda>(end_pos, end_mag).
     rbind (if start_pos = end_pos
            then (if start_mag \<ge> end_mag then fx_sub start_mag end_mag
                  else fx_sub end_mag start_mag)
            else fx_add start_mag end_mag)
       (\<lambda>displacement. fx_mul displacement b)))"

definition lmsrDisplacementCost :: "fixed \<Rightarrow> fixed \<Rightarrow> fixed \<Rightarrow> fixed outcome" where
  "lmsrDisplacementCost b from_p to_p =
     rbind (fx_sub ONE from_p) (\<lambda>fromComplement.
     rbind (fx_sub ONE to_p) (\<lambda>toComplement.
       if toRaw toComplement = 0 then Inl (fixedFault Domain)
       else rbind (fx_div fromComplement toComplement) (\<lambda>r.
            rbind (fx_ln r) (\<lambda>l. fx_mul b l))))"

definition makerWorstCaseLoss :: "fixed \<Rightarrow> fixed outcome" where
  "makerWorstCaseLoss b = fx_mul b LN_2"

subsection \<open>The natural logarithm of 1 + x\<close>

lemma fx_ln_returns:
  assumes "2 ^ 64 \<le> v" "v \<le> U128_MAX"
  obtains l where "fx_log2 v = Inr l" "0 \<le> l" "l \<le> 64 * 2 ^ 64"
    "fx_ln v = Inr (shr_round 96 (l * LN2_Q96))"
proof -
  define n where "n = bitLength v - 1 - int FRAC_BITS"
  let ?f = "log2_frac 64 (log2_normalize v n)"
  note ip = log2_int_part [OF assms, folded n_def]
  have log: "fx_log2 v = Inr (n * 2 ^ 64 + ?f)"
    using fx_log2_eq [OF assms] by (simp only: n_def)
  have f: "0 \<le> ?f" "?f \<le> 2 ^ 64" by (rule log2_frac_nonneg log2_frac_le)+
  have l: "0 \<le> n * 2 ^ 64 + ?f" "n * 2 ^ 64 + ?f \<le> 64 * 2 ^ 64"
    using ip(1,2) f by simp_all
  let ?l = "n * 2 ^ 64 + ?f"
  have "0 \<le> shr_round 96 (?l * LN2_Q96)"
    by (rule shr_round_ge) (use l in \<open>simp_all add: LN2_Q96_def\<close>)
  moreover have "shr_round 96 (?l * LN2_Q96) \<le> 64 * 2 ^ 64"
  proof (rule shr_round_le)
    have "?l * LN2_Q96 \<le> (64 * 2 ^ 64) * 2 ^ 96"
      using l by (intro mult_mono) (simp_all add: LN2_Q96_def)
    then show "?l * LN2_Q96 \<le> 64 * 2 ^ 64 * 2 ^ 96" .
  qed simp
  ultimately have "brand (shr_round 96 (?l * LN2_Q96)) = Inr (shr_round 96 (?l * LN2_Q96))"
    by (intro brand_ok) (simp_all add: U128_MAX_def)
  then have "fx_ln v = Inr (shr_round 96 (?l * LN2_Q96))"
    using assms(1) by (simp add: fx_ln_def log kernel_widths)
  then show ?thesis using log l that by blast
qed

lemma fx_ln_mono:
  assumes "2 ^ 64 \<le> v" "v \<le> w" "w \<le> U128_MAX" "fx_ln v = Inr r" "fx_ln w = Inr s"
  shows "r \<le> s"
proof -
  have vb: "v \<le> U128_MAX" and wb: "2 ^ 64 \<le> w" using assms by linarith+
  obtain l where l: "fx_log2 v = Inr l" "fx_ln v = Inr (shr_round 96 (l * LN2_Q96))"
    by (rule fx_ln_returns [OF assms(1) vb])
  obtain k where k: "fx_log2 w = Inr k" "fx_ln w = Inr (shr_round 96 (k * LN2_Q96))"
    by (rule fx_ln_returns [OF wb assms(3)])
  have "l \<le> k" by (rule fx_log2_mono [OF assms(1-3) l(1) k(1)])
  then have "shr_round 96 (l * LN2_Q96) \<le> shr_round 96 (k * LN2_Q96)"
    by (intro shr_round_mono mult_right_mono) (simp_all add: LN2_Q96_def)
  then show ?thesis using l k assms by simp
qed

definition softlog :: "int \<Rightarrow> int" where
  "softlog x = (case lnOnePlus x of Inr l \<Rightarrow> l | Inl _ \<Rightarrow> 0)"

lemma fx_ln_two: "fx_ln (2 ^ 65) = Inr LN_2"
  by code_simp

lemma lnOnePlus_eq:
  assumes "0 \<le> x" "x \<le> 2 ^ 64"
  shows "lnOnePlus x = Inr (softlog x)" "fx_ln (2 ^ 64 + x) = Inr (softlog x)"
proof -
  have "fx_add ONE x = Inr (2 ^ 64 + x)"
    using assms by (simp add: fx_add_eq_Inr_iff kernel_consts)
  then have eq: "lnOnePlus x = fx_ln (2 ^ 64 + x)"
    by (simp add: lnOnePlus_def)
  obtain l where l: "fx_ln (2 ^ 64 + x) = Inr (shr_round 96 (l * LN2_Q96))"
    by (rule fx_ln_returns [of "2 ^ 64 + x"]) (use assms in \<open>simp_all add: U128_MAX_def\<close>)
  show "lnOnePlus x = Inr (softlog x)" "fx_ln (2 ^ 64 + x) = Inr (softlog x)"
    using l by (simp_all add: eq softlog_def)
qed

lemma softlog_mono:
  assumes "0 \<le> x" "x \<le> y" "y \<le> 2 ^ 64"
  shows "softlog x \<le> softlog y"
proof (rule fx_ln_mono)
  show "fx_ln (2 ^ 64 + x) = Inr (softlog x)" using assms by (intro lnOnePlus_eq) simp_all
  show "fx_ln (2 ^ 64 + y) = Inr (softlog y)" using assms by (intro lnOnePlus_eq) simp_all
qed (use assms in \<open>simp_all add: U128_MAX_def\<close>)

lemma softlog_one: "softlog (2 ^ 64) = LN_2"
  using fx_ln_two lnOnePlus_eq(2) [of "2 ^ 64"] by simp

lemma softlog_nonneg:
  assumes "0 \<le> x" "x \<le> 2 ^ 64"
  shows "0 \<le> softlog x"
proof -
  obtain l where l: "0 \<le> l" "fx_ln (2 ^ 64 + x) = Inr (shr_round 96 (l * LN2_Q96))"
    by (rule fx_ln_returns [of "2 ^ 64 + x"]) (use assms in \<open>simp_all add: U128_MAX_def\<close>)
  have "0 \<le> shr_round 96 (l * LN2_Q96)"
    by (rule shr_round_ge) (use l in \<open>simp_all add: LN2_Q96_def\<close>)
  then show ?thesis using l(2) lnOnePlus_eq(2) [OF assms] by simp
qed

definition decay :: "int \<Rightarrow> int" where
  "decay x = exp2_neg ((x * 2 ^ 64) div LN_2)"

lemma decay_antimono: "0 \<le> x \<Longrightarrow> x \<le> y \<Longrightarrow> decay y \<le> decay x"
  unfolding decay_def
  by (intro exp2_neg_antimono zdiv_mono1 mult_right_mono)
    (simp_all add: LN_2_def pos_imp_zdiv_nonneg_iff)

lemma decay_zero: "decay 0 = 2 ^ 64"
  by (simp add: decay_def exp2_neg_zero)

lemma decay_range: "0 \<le> decay x" "decay x \<le> 2 ^ 64"
  by (simp_all only: decay_def exp2_neg_nonneg exp2_neg_le_one)

subsection \<open>The interface the LMSR relies on\<close>

locale pricing_kernel =
  fixes decay_fn :: "int \<Rightarrow> int" and softlog_fn :: "int \<Rightarrow> int"
  assumes decay_nonneg: "0 \<le> decay_fn x"
    and decay_le_one: "decay_fn x \<le> 2 ^ 64"
    and decay_at_zero: "decay_fn 0 = 2 ^ 64"
    and decay_anti: "0 \<le> x \<Longrightarrow> x \<le> y \<Longrightarrow> decay_fn y \<le> decay_fn x"
    and softlog_nonneg: "0 \<le> u \<Longrightarrow> u \<le> 2 ^ 64 \<Longrightarrow> 0 \<le> softlog_fn u"
    and softlog_mono: "0 \<le> u \<Longrightarrow> u \<le> w \<Longrightarrow> w \<le> 2 ^ 64 \<Longrightarrow> softlog_fn u \<le> softlog_fn w"
    and softlog_at_one: "softlog_fn (2 ^ 64) = LN_2"
begin

lemma denominator_bounds: "2 ^ 64 \<le> 2 ^ 64 + decay_fn x" "2 ^ 64 + decay_fn x \<le> 2 ^ 65"
  using decay_nonneg [of x] decay_le_one [of x] by simp_all

lemma high_price_bounds:
  "2 ^ 63 \<le> (2 ^ 64 * 2 ^ 64) div (2 ^ 64 + decay_fn x)"
  "(2 ^ 64 * 2 ^ 64) div (2 ^ 64 + decay_fn x) \<le> 2 ^ 64"
proof -
  let ?d = "2 ^ 64 + decay_fn x"
  have d: "0 < ?d" using decay_nonneg [of x] by simp
  have "2 ^ 63 * ?d \<le> 2 ^ 63 * 2 ^ 65"
    using denominator_bounds(2) [of x] by (intro mult_left_mono) simp_all
  then show "2 ^ 63 \<le> (2 ^ 64 * 2 ^ 64) div ?d"
    using d by (subst le_div_iff_mult_le) simp_all
  have "(2 ^ 64 * 2 ^ 64) div ?d \<le> (2 ^ 64 * 2 ^ 64) div 2 ^ 64"
    using decay_nonneg [of x] by (intro zdiv_mono2) simp_all
  then show "(2 ^ 64 * 2 ^ 64) div ?d \<le> 2 ^ 64" by simp
qed

lemma low_price_bounds:
  "0 \<le> (decay_fn x * 2 ^ 64) div (2 ^ 64 + decay_fn x)"
  "(decay_fn x * 2 ^ 64) div (2 ^ 64 + decay_fn x) \<le> 2 ^ 63"
proof -
  let ?d = "2 ^ 64 + decay_fn x"
  have d: "0 < ?d" using decay_nonneg [of x] by simp
  show "0 \<le> (decay_fn x * 2 ^ 64) div ?d"
    using d decay_nonneg [of x] by (simp add: pos_imp_zdiv_nonneg_iff)
  have "decay_fn x * 2 ^ 64 < (2 ^ 63 + 1) * ?d"
    using decay_nonneg [of x] decay_le_one [of x] by (simp add: algebra_simps)
  then have "(decay_fn x * 2 ^ 64) div ?d < 2 ^ 63 + 1"
    using d by (subst div_less_iff_less_mult_int) simp_all
  then show "(decay_fn x * 2 ^ 64) div ?d \<le> 2 ^ 63" by simp
qed

lemma high_price_mono:
  assumes "0 \<le> x" "x \<le> y"
  shows "(2 ^ 64 * 2 ^ 64) div (2 ^ 64 + decay_fn x) \<le> (2 ^ 64 * 2 ^ 64) div (2 ^ 64 + decay_fn y)"
  using decay_anti [OF assms] decay_nonneg [of y] by (intro zdiv_mono2) simp_all

lemma low_price_antimono:
  assumes "0 \<le> x" "x \<le> y"
  shows "(decay_fn y * 2 ^ 64) div (2 ^ 64 + decay_fn y) \<le> (decay_fn x * 2 ^ 64) div (2 ^ 64 + decay_fn x)"
proof -
  let ?u = "decay_fn x" and ?w = "decay_fn y"
  have uw: "?w \<le> ?u" "0 \<le> ?w" using decay_anti [OF assms] decay_nonneg by simp_all
  define q where "q = (?w * 2 ^ 64) div (2 ^ 64 + ?w)"
  have qb: "0 \<le> q" "q \<le> 2 ^ 63" unfolding q_def by (rule low_price_bounds)+
  have "q * (2 ^ 64 + ?w) \<le> ?w * 2 ^ 64"
    unfolding q_def using uw by (intro mult_div_le_self) simp
  moreover have "q * (?u - ?w) \<le> 2 ^ 63 * (?u - ?w)"
    using qb uw by (intro mult_right_mono) simp_all
  ultimately have "q * (2 ^ 64 + ?u) \<le> ?w * 2 ^ 64 + 2 ^ 63 * (?u - ?w)"
    by (simp add: algebra_simps)
  also have "\<dots> \<le> ?u * 2 ^ 64" using uw by simp
  finally have "q \<le> (?u * 2 ^ 64) div (2 ^ 64 + ?u)"
    using uw by (subst le_div_iff_mult_le) simp_all
  then show ?thesis unfolding q_def .
qed

lemma cost_tail_bounds:
  assumes "0 \<le> b"
  shows "0 \<le> (b * softlog_fn (decay_fn x)) div 2 ^ 64"
    "(b * softlog_fn (decay_fn x)) div 2 ^ 64 \<le> (b * LN_2) div 2 ^ 64"
proof -
  have s: "0 \<le> softlog_fn (decay_fn x)" "softlog_fn (decay_fn x) \<le> LN_2"
    using softlog_nonneg [OF decay_nonneg decay_le_one] softlog_mono [OF decay_nonneg decay_le_one]
      softlog_at_one by simp_all
  show "0 \<le> (b * softlog_fn (decay_fn x)) div 2 ^ 64"
    using assms s by (simp add: pos_imp_zdiv_nonneg_iff)
  show "(b * softlog_fn (decay_fn x)) div 2 ^ 64 \<le> (b * LN_2) div 2 ^ 64"
    using assms s by (intro zdiv_mono1 mult_left_mono) simp_all
qed

lemma cost_tail_antimono:
  assumes "0 \<le> b" "0 \<le> x" "x \<le> y"
  shows "(b * softlog_fn (decay_fn y)) div 2 ^ 64 \<le> (b * softlog_fn (decay_fn x)) div 2 ^ 64"
  using assms by (intro zdiv_mono1 mult_left_mono softlog_mono decay_nonneg decay_anti decay_le_one) simp_all

end

interpretation lk: pricing_kernel decay softlog
  by unfold_locales
    (assumption | rule decay_range decay_zero decay_antimono softlog_nonneg softlog_mono softlog_one)+

subsection \<open>The operations on a book inside the domain\<close>

definition book_displacement :: "fixed \<Rightarrow> fixed \<Rightarrow> fixed \<Rightarrow> int" where
  "book_displacement qLong qShort b = (\<bar>qLong - qShort\<bar> * 2 ^ 64) div b"

definition valid_book :: "fixed \<Rightarrow> fixed \<Rightarrow> fixed \<Rightarrow> bool" where
  "valid_book qLong qShort b \<longleftrightarrow>
     0 \<le> qLong \<and> qLong \<le> U128_MAX \<and> 0 \<le> qShort \<and> qShort \<le> U128_MAX \<and> 0 < b
     \<and> isWithinDomain qLong qShort b"

lemma isWithinDomain_iff:
  assumes "0 < b"
  shows "isWithinDomain qLong qShort b \<longleftrightarrow> \<bar>qLong - qShort\<bar> \<le> b * 48"
  using assms by (auto simp: isWithinDomain_def ensureDomain_def toRaw_def LMSR_DOMAIN_BOUND_def
      Let_def abs_if)

lemma ensureDomain_valid: "valid_book qLong qShort b \<Longrightarrow> ensureDomain qLong qShort b = Inr ()"
  by (auto simp: valid_book_def isWithinDomain_def split: sum.splits)

lemma displacement_bounds:
  assumes "valid_book qLong qShort b"
  shows "0 \<le> book_displacement qLong qShort b" "book_displacement qLong qShort b \<le> 48 * 2 ^ 64"
proof -
  have b: "0 < b" and d: "\<bar>qLong - qShort\<bar> \<le> b * 48"
    using assms isWithinDomain_iff by (auto simp: valid_book_def)
  show "0 \<le> book_displacement qLong qShort b"
    using b by (simp add: book_displacement_def pos_imp_zdiv_nonneg_iff)
  have "\<bar>qLong - qShort\<bar> * 2 ^ 64 < (48 * 2 ^ 64 + 1) * b"
    using d b by (simp add: algebra_simps)
  then have "book_displacement qLong qShort b < 48 * 2 ^ 64 + 1"
    unfolding book_displacement_def using b by (subst div_less_iff_less_mult_int) simp_all
  then show "book_displacement qLong qShort b \<le> 48 * 2 ^ 64" by simp
qed

lemma expNegDisplacement_eq:
  assumes "valid_book qLong qShort b"
  shows "expNegDisplacement qLong qShort b = Inr (decay (book_displacement qLong qShort b))"
proof -
  note v = assms [unfolded valid_book_def]
  let ?x = "book_displacement qLong qShort b"
  note x = displacement_bounds [OF assms]
  have y: "0 \<le> (?x * 2 ^ 64) div LN_2"
    using x by (simp add: LN_2_def pos_imp_zdiv_nonneg_iff)
  have "(?x * 2 ^ 64) div LN_2 \<le> (48 * 2 ^ 64 * 2 ^ 64) div LN_2"
    using x by (intro zdiv_mono1 mult_right_mono) (simp_all add: LN_2_def)
  also have "\<dots> \<le> U128_MAX" by (simp add: LN_2_def U128_MAX_def)
  finally have ln: "fx_div ?x LN_2 = Inr ((?x * 2 ^ 64) div LN_2)"
    using y by (simp add: fx_div_eq_Inr_iff LN_2_def)
  have d: "fx_div \<bar>qLong - qShort\<bar> b = Inr ?x"
    using v x by (simp add: fx_div_eq_Inr_iff book_displacement_def U128_MAX_def)
  have s: "fx_sub (if qLong \<ge> qShort then qLong else qShort) (if qLong \<ge> qShort then qShort else qLong)
      = Inr \<bar>qLong - qShort\<bar>"
    using v by (simp add: fx_sub_eq_Inr_iff)
  show ?thesis
    unfolding expNegDisplacement_def Let_def s rbind_simps d ln
    using y by (simp add: fx_exp2Negative_eq decay_def)
qed

lemma lmsrPriceLong_eq:
  assumes "valid_book qLong qShort b"
  defines "e \<equiv> decay (book_displacement qLong qShort b)"
  shows "lmsrPriceLong qLong qShort b =
    Inr (if qLong \<ge> qShort then (2 ^ 64 * 2 ^ 64) div (2 ^ 64 + e) else (e * 2 ^ 64) div (2 ^ 64 + e))"
proof -
  have e: "0 \<le> e" "e \<le> 2 ^ 64" unfolding e_def by (rule decay_range)+
  have den: "fx_add ONE e = Inr (2 ^ 64 + e)"
    using e by (simp add: fx_add_eq_Inr_iff kernel_consts)
  have hi: "fx_div ONE (2 ^ 64 + e) = Inr ((2 ^ 64 * 2 ^ 64) div (2 ^ 64 + e))"
    using lk.high_price_bounds [of "book_displacement qLong qShort b"] e
    by (simp add: fx_div_eq_Inr_iff kernel_consts e_def)
  have lo: "fx_div e (2 ^ 64 + e) = Inr ((e * 2 ^ 64) div (2 ^ 64 + e))"
    using lk.low_price_bounds [of "book_displacement qLong qShort b"] e
    by (simp add: fx_div_eq_Inr_iff kernel_consts e_def)
  show ?thesis
    using hi lo by (simp add: lmsrPriceLong_def ensureDomain_valid [OF assms(1)]
        expNegDisplacement_eq [OF assms(1)] den flip: e_def)
qed

definition cost_tail :: "fixed \<Rightarrow> fixed \<Rightarrow> fixed \<Rightarrow> int" where
  "cost_tail qLong qShort b = (b * softlog (decay (book_displacement qLong qShort b))) div 2 ^ 64"

lemma LN_2_div_le: "0 \<le> b \<Longrightarrow> (b * LN_2) div 2 ^ 64 \<le> b"
  using zdiv_mono1 [of "b * LN_2" "b * 2 ^ 64" "2 ^ 64"] by (simp add: LN_2_def)

lemma lmsrCost_eq:
  assumes "valid_book qLong qShort b" "max qLong qShort + b \<le> U128_MAX"
  shows "lmsrCost qLong qShort b = Inr (max qLong qShort + cost_tail qLong qShort b)"
proof -
  note v = assms(1) [unfolded valid_book_def]
  let ?e = "decay (book_displacement qLong qShort b)"
  have t: "0 \<le> cost_tail qLong qShort b" "cost_tail qLong qShort b \<le> b"
    using lk.cost_tail_bounds [of b "book_displacement qLong qShort b"] LN_2_div_le [of b] v
    by (simp_all add: cost_tail_def)
  have l: "lnOnePlus ?e = Inr (softlog ?e)"
    by (rule lnOnePlus_eq) (rule decay_range)+
  have "b \<le> U128_MAX" using v assms(2) by linarith
  then have "cost_tail qLong qShort b \<le> U128_MAX" using t(2) by (rule order_trans [rotated])
  then have m: "fx_mul b (softlog ?e) = Inr (cost_tail qLong qShort b)"
    using t(1) by (simp only: fx_mul_eq_Inr_iff cost_tail_def simp_thms)
  have a: "fx_add (if qLong \<ge> qShort then qLong else qShort) (cost_tail qLong qShort b)
      = Inr (max qLong qShort + cost_tail qLong qShort b)"
    using t v assms(2) by (auto simp: fx_add_eq_Inr_iff max_def)
  show ?thesis
    unfolding lmsrCost_def Let_def ensureDomain_valid [OF assms(1)] rbind_simps
      expNegDisplacement_eq [OF assms(1)] l m a ..
qed

lemma book_displacement_mono:
  assumes "0 < b" "\<bar>qLong - qShort\<bar> \<le> \<bar>qLong' - qShort'\<bar>"
  shows "book_displacement qLong qShort b \<le> book_displacement qLong' qShort' b"
  unfolding book_displacement_def using assms by (intro zdiv_mono1 mult_right_mono) simp_all

lemma lmsrCost_envelope:
  assumes "valid_book qLong qShort b" "max qLong qShort + b \<le> U128_MAX"
  obtains c loss where "lmsrCost qLong qShort b = Inr c" "makerWorstCaseLoss b = Inr loss"
    "max qLong qShort \<le> c" "c \<le> max qLong qShort + loss"
proof -
  note v = assms(1) [unfolded valid_book_def]
  have t: "0 \<le> cost_tail qLong qShort b" "cost_tail qLong qShort b \<le> (b * LN_2) div 2 ^ 64"
    unfolding cost_tail_def
    by (rule lk.cost_tail_bounds, use v in simp)+
  have "b \<le> U128_MAX" using v assms(2) by linarith
  then have "(b * LN_2) div 2 ^ 64 \<le> U128_MAX" using LN_2_div_le [of b] v by linarith
  then have l: "makerWorstCaseLoss b = Inr ((b * LN_2) div 2 ^ 64)"
    using order_trans [OF t] by (simp only: makerWorstCaseLoss_def fx_mul_eq_Inr_iff simp_thms)
  show ?thesis by (rule that [OF lmsrCost_eq [OF assms] l]) (use t in simp_all)
qed

lemma book_displacement_even: "book_displacement q q b = 0"
  by (simp add: book_displacement_def)

lemma lmsrCost_even:
  assumes "0 \<le> q" "0 < b" "q + b \<le> U128_MAX"
  shows "lmsrCost q q b = Inr (q + (b * LN_2) div 2 ^ 64)"
proof -
  have "valid_book q q b" using assms by (simp add: valid_book_def isWithinDomain_iff)
  from lmsrCost_eq [OF this] show ?thesis
    using assms by (simp add: cost_tail_def book_displacement_even decay_zero [simplified] softlog_one [simplified])
qed

lemma lmsrPriceLong_range:
  assumes "valid_book qLong qShort b"
  obtains p where "lmsrPriceLong qLong qShort b = Inr p" "0 \<le> p" "p \<le> 2 ^ 64"
    "qLong \<ge> qShort \<Longrightarrow> 2 ^ 63 \<le> p" "qLong \<le> qShort \<Longrightarrow> p \<le> 2 ^ 63"
proof -
  let ?x = "book_displacement qLong qShort b"
  let ?p = "if qLong \<ge> qShort then (2 ^ 64 * 2 ^ 64) div (2 ^ 64 + decay ?x)
            else (decay ?x * 2 ^ 64) div (2 ^ 64 + decay ?x)"
  note hi = lk.high_price_bounds [of ?x] and lo = lk.low_price_bounds [of ?x]
  have lo64: "(decay ?x * 2 ^ 64) div (2 ^ 64 + decay ?x) \<le> 2 ^ 64"
    using lo(2) by (rule order_trans) simp
  have hi0: "0 \<le> (2 ^ 64 * 2 ^ 64) div (2 ^ 64 + decay ?x)"
    by (rule order_trans [OF _ hi(1)]) simp
  have even: "(2 ^ 64 * 2 ^ 64) div (2 ^ 64 + decay ?x) \<le> 2 ^ 63" if "qLong = qShort"
    using that by (simp add: book_displacement_even decay_zero [simplified])
  show ?thesis
  proof (rule that [OF lmsrPriceLong_eq [OF assms]])
    show "0 \<le> ?p" using hi0 lo(1) by (simp only: split: if_splits) simp
    show "?p \<le> 2 ^ 64" using hi(2) lo64 by (simp only: split: if_splits) simp
    show "2 ^ 63 \<le> ?p" if "qLong \<ge> qShort" using hi(1) that by (simp only: if_True)
    show "?p \<le> 2 ^ 63" if "qLong \<le> qShort"
      using lo(2) even that by (cases "qLong = qShort") (simp_all only: order_antisym if_True if_False split: if_splits, simp_all)
  qed
qed

lemma lmsrPriceLong_mono_qLong:
  assumes "valid_book qLong qShort b" "valid_book qLong' qShort b" "qLong \<le> qLong'"
    and "lmsrPriceLong qLong qShort b = Inr p" "lmsrPriceLong qLong' qShort b = Inr p'"
  shows "p \<le> p'"
proof -
  have b: "0 < b" using assms(1) by (simp add: valid_book_def)
  consider (hh) "qShort \<le> qLong" | (ll) "qLong' < qShort" | (lh) "qLong < qShort" "qShort \<le> qLong'"
    using assms(3) by linarith
  then show ?thesis
  proof cases
    case hh
    have "book_displacement qLong qShort b \<le> book_displacement qLong' qShort b"
      by (rule book_displacement_mono) (use hh assms(3) b in simp_all)
    from lk.high_price_mono [OF displacement_bounds(1) [OF assms(1)] this] show ?thesis
      using assms(4,5) lmsrPriceLong_eq [OF assms(1)] lmsrPriceLong_eq [OF assms(2)] hh assms(3)
      by simp
  next
    case ll
    have "book_displacement qLong' qShort b \<le> book_displacement qLong qShort b"
      by (rule book_displacement_mono) (use ll assms(3) b in simp_all)
    from lk.low_price_antimono [OF displacement_bounds(1) [OF assms(2)] this] show ?thesis
      using assms(4,5) lmsrPriceLong_eq [OF assms(1)] lmsrPriceLong_eq [OF assms(2)] ll assms(3)
      by simp
  next
    case lh
    obtain r where "lmsrPriceLong qLong qShort b = Inr r" "r \<le> 2 ^ 63"
      using lmsrPriceLong_range [OF assms(1)] lh by (metis less_imp_le)
    moreover obtain s where "lmsrPriceLong qLong' qShort b = Inr s" "2 ^ 63 \<le> s"
      using lmsrPriceLong_range [OF assms(2)] lh by metis
    ultimately show ?thesis using assms(4,5) by simp
  qed
qed

lemma lmsrPriceShort_complement:
  assumes "lmsrPriceLong qLong qShort b = Inr p" "0 \<le> p" "p \<le> 2 ^ 64"
  shows "lmsrPriceShort qLong qShort b = Inr (2 ^ 64 - p)"
  using assms by (simp add: lmsrPriceShort_def fx_sub_eq_Inr_iff kernel_consts)

subsection \<open>Path independence\<close>

definition trade_book :: "lmsr_side \<Rightarrow> fixed \<Rightarrow> fixed \<times> fixed \<Rightarrow> fixed \<times> fixed" where
  "trade_book side amount q =
     (case side of SideLong \<Rightarrow> (fst q + amount, snd q) | SideShort \<Rightarrow> (fst q, snd q + amount))"

definition u128_book :: "fixed \<times> fixed \<Rightarrow> bool" where
  "u128_book q \<longleftrightarrow> 0 \<le> fst q \<and> fst q \<le> U128_MAX \<and> 0 \<le> snd q \<and> snd q \<le> U128_MAX"

lemma fx_sub_iff: "0 \<le> c \<Longrightarrow> a \<le> U128_MAX \<Longrightarrow> fx_sub a c = Inr x \<longleftrightarrow> c \<le> a \<and> x = a - c"
  by (auto simp: fx_sub_eq_Inr_iff)

lemma lmsrCost_u128: "lmsrCost qLong qShort b = Inr c \<Longrightarrow> 0 \<le> c \<and> c \<le> U128_MAX"
  by (auto simp: lmsrCost_def rbind_eq_Inr_iff Let_def fx_add_eq_Inr_iff)

lemma cost_difference:
  "lmsrCost p q b = Inr c0 \<Longrightarrow> lmsrCost p' q' b = Inr c1 \<Longrightarrow>
     fx_sub c1 c0 = Inr c \<longleftrightarrow> c0 \<le> c1 \<and> c = c1 - c0"
  using lmsrCost_u128 [of p q b c0] lmsrCost_u128 [of p' q' b c1] by (simp add: fx_sub_iff)

lemma lmsrBuyCost_eq_Inr_iff:
  assumes "u128_book q" "0 \<le> amount"
  shows "lmsrBuyCost (fst q) (snd q) b side amount = Inr c \<longleftrightarrow>
    (\<exists>c0 c1. lmsrCost (fst q) (snd q) b = Inr c0 \<and> u128_book (trade_book side amount q) \<and>
       lmsrCost (fst (trade_book side amount q)) (snd (trade_book side amount q)) b = Inr c1 \<and>
       c0 \<le> c1 \<and> c = c1 - c0)"
  using assms
  by (cases side) (auto simp: lmsrBuyCost_def rbind_eq_Inr_iff fx_add_eq_Inr_iff fx_sub_iff
      trade_book_def u128_book_def cost_difference)

lemma lmsrSellProceeds_eq_Inr_iff:
  assumes "u128_book q" "0 \<le> amount"
  shows "lmsrSellProceeds (fst q) (snd q) b side amount = Inr c \<longleftrightarrow>
    (\<exists>c0 c1. lmsrCost (fst q) (snd q) b = Inr c0 \<and> u128_book (trade_book side (- amount) q) \<and>
       lmsrCost (fst (trade_book side (- amount) q)) (snd (trade_book side (- amount) q)) b = Inr c1 \<and>
       c1 \<le> c0 \<and> c = c0 - c1)"
  using assms
  by (cases side) (auto simp: lmsrSellProceeds_def rbind_eq_Inr_iff fx_sub_iff
      trade_book_def u128_book_def cost_difference)

datatype lmsr_order = Buy lmsr_side fixed | Sell lmsr_side fixed

fun run_orders :: "fixed \<Rightarrow> fixed \<times> fixed \<Rightarrow> lmsr_order list \<Rightarrow> ((fixed \<times> fixed) \<times> int) outcome" where
  "run_orders b q [] = Inr (q, 0)"
| "run_orders b q (Buy side amount # os) =
     rbind (lmsrBuyCost (fst q) (snd q) b side amount) (\<lambda>c.
     rbind (run_orders b (trade_book side amount q) os) (\<lambda>(q', r). Inr (q', c + r)))"
| "run_orders b q (Sell side amount # os) =
     rbind (lmsrSellProceeds (fst q) (snd q) b side amount) (\<lambda>c.
     rbind (run_orders b (trade_book side (- amount) q) os) (\<lambda>(q', r). Inr (q', r - c)))"

fun order_amount :: "lmsr_order \<Rightarrow> fixed" where
  "order_amount (Buy _ a) = a"
| "order_amount (Sell _ a) = a"

lemma run_orders_telescopes:
  assumes "run_orders b q os = Inr (q', r)" "u128_book q" "\<And>x. x \<in> set os \<Longrightarrow> 0 \<le> order_amount x"
    and "lmsrCost (fst q) (snd q) b = Inr c0"
  shows "u128_book q' \<and> lmsrCost (fst q') (snd q') b = Inr (c0 + r)"
  using assms
proof (induction os arbitrary: q c0 r)
  case Nil
  then show ?case by simp
next
  case (Cons x os)
  show ?case
  proof (cases x)
    case (Buy side amount)
    have a: "0 \<le> amount" using Cons.prems(3) [of x] Buy by simp
    from Cons.prems(1) Buy obtain c r' where
      c: "lmsrBuyCost (fst q) (snd q) b side amount = Inr c"
      and r: "run_orders b (trade_book side amount q) os = Inr (q', r')" "r = c + r'"
      by (auto simp: rbind_eq_Inr_iff)
    from c [unfolded lmsrBuyCost_eq_Inr_iff [OF Cons.prems(2) a]] Cons.prems(4)
    have "u128_book (trade_book side amount q)"
      "lmsrCost (fst (trade_book side amount q)) (snd (trade_book side amount q)) b = Inr (c0 + c)"
      by auto
    from Cons.IH [OF r(1) this(1) _ this(2)] Cons.prems(3) show ?thesis
      by (simp add: r(2) add.assoc)
  next
    case (Sell side amount)
    have a: "0 \<le> amount" using Cons.prems(3) [of x] Sell by simp
    from Cons.prems(1) Sell obtain c r' where
      c: "lmsrSellProceeds (fst q) (snd q) b side amount = Inr c"
      and r: "run_orders b (trade_book side (- amount) q) os = Inr (q', r')" "r = r' - c"
      by (auto simp: rbind_eq_Inr_iff)
    from c [unfolded lmsrSellProceeds_eq_Inr_iff [OF Cons.prems(2) a]] Cons.prems(4)
    have "u128_book (trade_book side (- amount) q)"
      "lmsrCost (fst (trade_book side (- amount) q)) (snd (trade_book side (- amount) q)) b = Inr (c0 - c)"
      by auto
    from Cons.IH [OF r(1) this(1) _ this(2)] Cons.prems(3) show ?thesis
      by (simp add: r(2) algebra_simps)
  qed
qed

lemma lmsrCost_domain:
  assumes "lmsrCost qLong qShort b = Inr c"
  shows "b \<noteq> 0" "\<bar>qLong - qShort\<bar> \<le> b * 48"
  using assms by (auto simp: lmsrCost_def rbind_eq_Inr_iff ensureDomain_def toRaw_def Let_def
      LMSR_DOMAIN_BOUND_def split: if_splits)

lemma lmsrCost_ge_max:
  assumes "lmsrCost qLong qShort b = Inr c" "0 \<le> qLong" "0 \<le> qShort" "0 \<le> b"
    "qLong \<le> U128_MAX" "qShort \<le> U128_MAX"
  shows "max qLong qShort \<le> c"
proof -
  have b: "0 < b" using lmsrCost_domain [OF assms(1)] assms(4) by simp
  obtain e l t where "lnOnePlus e = Inr l"
    "fx_mul b l = Inr t" "fx_add (if qLong \<ge> qShort then qLong else qShort) t = Inr c"
    using assms(1) by (auto simp: lmsrCost_def rbind_eq_Inr_iff Let_def)
  then show ?thesis by (auto simp: fx_add_eq_Inr_iff fx_mul_eq_Inr_iff split: if_splits)
qed

lemma run_orders_solvent:
  assumes run: "run_orders b (0, 0) os = Inr ((qLong, qShort), r)"
    and os: "\<And>x. x \<in> set os \<Longrightarrow> 0 \<le> order_amount x"
    and b: "0 < b" "b \<le> U128_MAX" and loss: "makerWorstCaseLoss b = Inr loss"
  shows "max qLong qShort \<le> r + loss"
proof -
  have c0: "lmsrCost 0 0 b = Inr loss"
    using lmsrCost_even [of 0 b] b loss by (simp add: makerWorstCaseLoss_def fx_mul_eq_Inr_iff)
  have z: "u128_book (0, 0)" by (simp add: u128_book_def U128_MAX_def)
  from run_orders_telescopes [OF run z os] c0
  have "u128_book (qLong, qShort)" "lmsrCost qLong qShort b = Inr (loss + r)" by auto
  then show ?thesis using lmsrCost_ge_max [of qLong qShort b] b by (simp add: u128_book_def)
qed

lemma lmsrCost_symmetric: "lmsrCost p q b = lmsrCost q p b"
  by (cases p q rule: linorder_cases) (simp_all add: lmsrCost_def ensureDomain_def expNegDisplacement_def)

lemma sample_cost: "lmsrCost (2 ^ 63) 0 (2 ^ 64) = Inr 17968548835261255578"
  by code_simp

lemma sample_even: "lmsrCost 0 0 (2 ^ 64) = Inr LN_2" "lmsrCost (2 ^ 63) (2 ^ 63) (2 ^ 64) = Inr (2 ^ 63 + LN_2)"
  by (subst lmsrCost_even; simp add: U128_MAX_def LN_2_def)+

lemma sample_runs:
  "run_orders (2 ^ 64) (0, 0) [Buy SideLong (2 ^ 63), Buy SideShort (2 ^ 63)] = Inr ((2 ^ 63, 2 ^ 63), 2 ^ 63)"
  "run_orders (2 ^ 64) (0, 0) [Buy SideShort (2 ^ 63), Buy SideLong (2 ^ 63)] = Inr ((2 ^ 63, 2 ^ 63), 2 ^ 63)"
  using sample_cost sample_cost [folded lmsrCost_symmetric [of 0]] sample_even
  by (simp_all add: lmsrBuyCost_def trade_book_def fx_add_def fx_sub_def brand_def U128_MAX_def LN_2_def)

subsection \<open>What the market maker promises\<close>

text \<open>
  On a book inside the domain the marginal price of LONG is always defined, lies in
  \<open>[0, 1]\<close>, is on the side of one half that the larger quantity dictates, and the two
  prices sum to exactly one.\<close>

theorem lmsr_prices:
  assumes "valid_book qLong qShort b"
  shows "\<exists>p. lmsrPriceLong qLong qShort b = Inr p \<and> lmsrPriceShort qLong qShort b = Inr (ONE - p) \<and>
    0 \<le> p \<and> p \<le> ONE \<and> (qLong \<ge> qShort \<longrightarrow> ONE \<le> 2 * p) \<and> (qLong \<le> qShort \<longrightarrow> 2 * p \<le> ONE)"
proof -
  obtain p where p: "lmsrPriceLong qLong qShort b = Inr p" "0 \<le> p" "p \<le> 2 ^ 64"
    "qLong \<ge> qShort \<Longrightarrow> 2 ^ 63 \<le> p" "qLong \<le> qShort \<Longrightarrow> p \<le> 2 ^ 63"
    by (rule lmsrPriceLong_range [OF assms]) blast
  then show ?thesis using lmsrPriceShort_complement [OF p(1-3)] by (simp add: kernel_consts)
qed

theorem lmsr_prices_witness:
  "\<exists>p. lmsrPriceLong (3 * 2 ^ 64) (2 ^ 64) (2 ^ 64) = Inr p \<and>
    lmsrPriceShort (3 * 2 ^ 64) (2 ^ 64) (2 ^ 64) = Inr (ONE - p) \<and>
    0 \<le> p \<and> p \<le> ONE \<and> ((3 * 2 ^ 64 :: int) \<ge> 2 ^ 64 \<longrightarrow> ONE \<le> 2 * p) \<and> ((3 * 2 ^ 64 :: int) \<le> 2 ^ 64 \<longrightarrow> 2 * p \<le> ONE)"
  by (rule lmsr_prices) (simp add: valid_book_def isWithinDomain_iff U128_MAX_def)

text \<open>
  The price of LONG never falls when LONG is bought.\<close>

theorem lmsr_price_monotone:
  assumes "valid_book qLong qShort b" "valid_book qLong' qShort b" "qLong \<le> qLong'"
  shows "\<exists>p p'. lmsrPriceLong qLong qShort b = Inr p \<and> lmsrPriceLong qLong' qShort b = Inr p' \<and> p \<le> p'"
  using lmsrPriceLong_eq [OF assms(1)] lmsrPriceLong_eq [OF assms(2)]
    lmsrPriceLong_mono_qLong [OF assms] by blast

theorem lmsr_price_monotone_witness:
  "\<exists>p p'. lmsrPriceLong 0 (2 ^ 64) (2 ^ 64) = Inr p \<and> lmsrPriceLong (3 * 2 ^ 64) (2 ^ 64) (2 ^ 64) = Inr p' \<and> p \<le> p'"
  by (rule lmsr_price_monotone) (simp_all add: valid_book_def isWithinDomain_iff U128_MAX_def)

text \<open>
  The cost function is at least the larger quantity, which is what the book pays if that side
  wins, and exceeds it by no more than the worst-case maker loss; on an even book it exceeds it
  by exactly that loss.\<close>

theorem lmsr_cost_envelope:
  assumes "valid_book qLong qShort b" "max qLong qShort + b \<le> U128_MAX"
  shows "\<exists>c loss. lmsrCost qLong qShort b = Inr c \<and> makerWorstCaseLoss b = Inr loss \<and>
    max qLong qShort \<le> c \<and> c \<le> max qLong qShort + loss \<and> (qLong = qShort \<longrightarrow> c = qLong + loss)"
proof -
  obtain c loss where c: "lmsrCost qLong qShort b = Inr c" "makerWorstCaseLoss b = Inr loss"
    "max qLong qShort \<le> c" "c \<le> max qLong qShort + loss"
    by (rule lmsrCost_envelope [OF assms])
  have "c = qLong + loss" if "qLong = qShort"
    using that c(1,2) lmsrCost_even [of qLong b] assms
    by (simp add: valid_book_def makerWorstCaseLoss_def fx_mul_eq_Inr_iff)
  then show ?thesis using c by blast
qed

theorem lmsr_cost_envelope_witness:
  "\<exists>c loss. lmsrCost (3 * 2 ^ 64) (2 ^ 64) (2 ^ 64) = Inr c \<and> makerWorstCaseLoss (2 ^ 64) = Inr loss \<and>
    max (3 * 2 ^ 64) (2 ^ 64) \<le> c \<and> c \<le> max (3 * 2 ^ 64) (2 ^ 64) + loss \<and>
    ((3 * 2 ^ 64 :: int) = 2 ^ 64 \<longrightarrow> c = 3 * 2 ^ 64 + loss)"
  by (rule lmsr_cost_envelope) (simp_all add: valid_book_def isWithinDomain_iff U128_MAX_def)

text \<open>C17
  Path independence: any two sequences of buys and sells that lead from one book to the same
  book collect exactly the same revenue.\<close>

theorem lmsr_path_independent:
  assumes "run_orders b q os = Inr (q', r)" "run_orders b q os' = Inr (q', r')" "u128_book q"
    and "\<forall>x \<in> set os. 0 \<le> order_amount x" "\<forall>x \<in> set os'. 0 \<le> order_amount x"
    and "lmsrCost (fst q) (snd q) b = Inr c"
  shows "r = r'"
  using run_orders_telescopes [OF assms(1,3) _ assms(6)] run_orders_telescopes [OF assms(2,3) _ assms(6)]
    assms(4,5) by simp

theorem lmsr_path_independent_witness:
  "\<exists>r r'. run_orders (2 ^ 64) (0, 0) [Buy SideLong (2 ^ 63), Buy SideShort (2 ^ 63)] = Inr ((2 ^ 63, 2 ^ 63), r)
     \<and> run_orders (2 ^ 64) (0, 0) [Buy SideShort (2 ^ 63), Buy SideLong (2 ^ 63)] = Inr ((2 ^ 63, 2 ^ 63), r')
     \<and> r = r'"
  using lmsr_path_independent [OF sample_runs, of LN_2] sample_runs sample_even(1)
  by (simp add: u128_book_def U128_MAX_def)

text \<open>C1
  Solvency of the maker: whatever is bought and sold from the empty book, the revenue collected
  plus the seeded worst-case loss covers the larger outstanding quantity.\<close>

theorem lmsr_maker_solvent:
  assumes "run_orders b (0, 0) os = Inr ((qLong, qShort), r)" "\<forall>x \<in> set os. 0 \<le> order_amount x"
    and "0 < b" "b \<le> U128_MAX" "makerWorstCaseLoss b = Inr loss"
  shows "max qLong qShort \<le> r + loss"
  using run_orders_solvent [OF assms(1) _ assms(3-5)] assms(2) by blast

theorem lmsr_maker_solvent_witness:
  "max (2 ^ 63) (2 ^ 63) \<le> 2 ^ 63 + LN_2"
proof (rule lmsr_maker_solvent [OF sample_runs(1)])
  show "makerWorstCaseLoss (2 ^ 64) = Inr LN_2"
    by (simp add: makerWorstCaseLoss_def fx_mul_def FRAC_BITS_def brand_def LN_2_def U128_MAX_def)
qed (simp_all add: U128_MAX_def)

end
