(* ===== verification/Quote.thy ===== *)
theory Quote
  imports Lmsr "HOL-Library.Signed_Division"
begin

text \<open>
  The trade-quote pipeline in base units, \<open>app/packages/protocol/src/quote.ts\<close>: the
  conversions between USDC base units and 64.64, the fee, the per-trade bounds, and the buy and
  sell quotes. The lemmas show that the conversion is the exact floor, that the charge direction
  inverts it, that charges and payouts round in escrow's favour, and what each quote reports.
  A BigInt division whose operands may be negative is \<open>sdiv\<close> (truncation towards zero).
\<close>

definition USDC_ONE :: int where
  "USDC_ONE = 1000000"

definition BPS_DENOMINATOR :: int where
  "BPS_DENOMINATOR = 10000"

record book_state =
  bk_qLong :: int
  bk_qShort :: int
  bk_b :: int

record trade_bounds =
  minTrade :: int
  maxTradeNumerator :: int
  maxTradeDenominator :: int

record quote_view =
  qv_cost :: int
  qv_fee :: int
  qv_pAfter1e9 :: int
  qv_maxTrade :: int
  qv_withinDomain :: bool

record buy_quote = quote_view +
  bq_total :: int

record sell_quote = quote_view +
  sq_net :: int

subsection \<open>Conversions\<close>

definition baseUnitsToFixed :: "int \<Rightarrow> fixed outcome" where
  "baseUnitsToFixed value =
     (if value < 0 then Inl (fixedFault Domain)
      else let whole = value div USDC_ONE
           in if whole > U64_MAX then Inl (fixedFault Overflow)
              else rbind (fromInteger whole) (\<lambda>w.
                   rbind (fromRaw (((value mod USDC_ONE) * 2 ^ FRAC_BITS) div USDC_ONE)) (\<lambda>f.
                   fx_add w f)))"

definition fixedToBaseUnitsUp :: "fixed \<Rightarrow> int outcome" where
  "fixedToBaseUnitsUp value =
     rbind (fromInteger USDC_ONE) (\<lambda>u. rbind (fx_mul value u) (\<lambda>m. Inr (roundChargeUp m)))"

definition fixedToBaseUnitsDown :: "fixed \<Rightarrow> int outcome" where
  "fixedToBaseUnitsDown value =
     rbind (fromInteger USDC_ONE) (\<lambda>u. rbind (fx_mul value u) (\<lambda>m. Inr (roundPayoutDown m)))"

subsection \<open>Fees and bounds\<close>

definition feeUp :: "int \<Rightarrow> int \<Rightarrow> int outcome" where
  "feeUp amount feeBps =
     (if amount < 0 \<or> feeBps < 0 then Inl (fixedFault Domain)
      else let scaled = amount * feeBps
           in if scaled > U128_MAX then Inl (fixedFault Overflow)
              else Inr (scaled div BPS_DENOMINATOR + (if scaled mod BPS_DENOMINATOR = 0 then 0 else 1)))"

definition maxTradeAmount :: "int \<Rightarrow> trade_bounds \<Rightarrow> int" where
  "maxTradeAmount b bounds =
     (if maxTradeDenominator bounds = 0 then 0
      else let scaled = b * maxTradeNumerator bounds
           in if scaled > U128_MAX then 0 else scaled sdiv maxTradeDenominator bounds)"

definition ensureTradeBounds :: "int \<Rightarrow> int \<Rightarrow> trade_bounds \<Rightarrow> unit outcome" where
  "ensureTradeBounds b amount bounds =
     (if amount < minTrade bounds then Inl (ProtocolError AmountTooSmall None)
      else if amount > maxTradeAmount b bounds then Inl (ProtocolError AmountTooLarge None)
      else Inr ())"

definition withinTradeBounds :: "int \<Rightarrow> int \<Rightarrow> trade_bounds \<Rightarrow> bool" where
  "withinTradeBounds b amount bounds =
     (amount \<ge> minTrade bounds \<and> amount \<le> maxTradeAmount b bounds)"

definition checkedAdd :: "int \<Rightarrow> int \<Rightarrow> int outcome" where
  "checkedAdd a b =
     (let s = a + b in if s > U128_MAX then Inl (ProtocolError ArithmeticOverflow None) else Inr s)"

definition checkedSub :: "int \<Rightarrow> int \<Rightarrow> int outcome" where
  "checkedSub a b = (if a < b then Inl (ProtocolError ArithmeticOverflow None) else Inr (a - b))"

subsection \<open>The quotes\<close>

definition postTradeView ::
  "int \<Rightarrow> int \<Rightarrow> int \<Rightarrow> trade_bounds \<Rightarrow> (int \<times> int \<times> bool) outcome" where
  "postTradeView postLong postShort b bounds =
     rbind (baseUnitsToFixed postLong) (\<lambda>lng.
     rbind (baseUnitsToFixed postShort) (\<lambda>shrt.
     rbind (baseUnitsToFixed b) (\<lambda>bFixed.
       let withinDomain = isWithinDomain lng shrt bFixed
       in rbind (if withinDomain
                 then rbind (lmsrPriceLong lng shrt bFixed) (\<lambda>p. Inr (priceToGrid1e9 p))
                 else Inr 0) (\<lambda>pAfter.
          Inr (pAfter, maxTradeAmount b bounds, withinDomain)))))"

definition quoteBuy ::
  "book_state \<Rightarrow> lmsr_side \<Rightarrow> int \<Rightarrow> int \<Rightarrow> trade_bounds \<Rightarrow> buy_quote outcome" where
  "quoteBuy book side amount feeBps bounds =
     rbind (if side = SideLong then checkedAdd (bk_qLong book) amount else Inr (bk_qLong book))
       (\<lambda>postLong.
     rbind (if side = SideShort then checkedAdd (bk_qShort book) amount else Inr (bk_qShort book))
       (\<lambda>postShort.
     rbind (baseUnitsToFixed (bk_qLong book)) (\<lambda>ql.
     rbind (baseUnitsToFixed (bk_qShort book)) (\<lambda>qs.
     rbind (baseUnitsToFixed (bk_b book)) (\<lambda>bf.
     rbind (baseUnitsToFixed amount) (\<lambda>af.
     rbind (lmsrBuyCost ql qs bf side af) (\<lambda>raw.
     rbind (fixedToBaseUnitsUp raw) (\<lambda>cost.
     rbind (feeUp cost feeBps) (\<lambda>fee.
     rbind (checkedAdd cost fee) (\<lambda>total.
     rbind (postTradeView postLong postShort (bk_b book) bounds) (\<lambda>(pAfter, maxT, dom_ok).
       Inr \<lparr> qv_cost = cost, qv_fee = fee, qv_pAfter1e9 = pAfter, qv_maxTrade = maxT,
             qv_withinDomain = dom_ok, bq_total = total \<rparr>)))))))))))"

definition quoteSell ::
  "book_state \<Rightarrow> lmsr_side \<Rightarrow> int \<Rightarrow> int \<Rightarrow> trade_bounds \<Rightarrow> sell_quote outcome" where
  "quoteSell book side amount feeBps bounds =
     rbind (if side = SideLong then checkedSub (bk_qLong book) amount else Inr (bk_qLong book))
       (\<lambda>postLong.
     rbind (if side = SideShort then checkedSub (bk_qShort book) amount else Inr (bk_qShort book))
       (\<lambda>postShort.
     rbind (baseUnitsToFixed (bk_qLong book)) (\<lambda>ql.
     rbind (baseUnitsToFixed (bk_qShort book)) (\<lambda>qs.
     rbind (baseUnitsToFixed (bk_b book)) (\<lambda>bf.
     rbind (baseUnitsToFixed amount) (\<lambda>af.
     rbind (lmsrSellProceeds ql qs bf side af) (\<lambda>raw.
     rbind (fixedToBaseUnitsDown raw) (\<lambda>cost.
     rbind (feeUp cost feeBps) (\<lambda>fee.
       if fee > cost then Inl (fixedFault Domain)
       else rbind (postTradeView postLong postShort (bk_b book) bounds) (\<lambda>(pAfter, maxT, dom_ok).
       Inr \<lparr> qv_cost = cost, qv_fee = fee, qv_pAfter1e9 = pAfter, qv_maxTrade = maxT,
             qv_withinDomain = dom_ok, sq_net = cost - fee \<rparr>))))))))))"

subsection \<open>The conversions are exact floors and ceilings\<close>

lemma floor_split:
  assumes "0 < (m::int)"
  shows "(v div m) * k + ((v mod m) * k) div m = (v * k) div m"
proof -
  have "v * k = (v mod m) * k + (v div m * k) * m"
    by (metis distrib_right mult.assoc mult.commute mod_mult_div_eq add.commute)
  then show ?thesis using assms by simp
qed

lemma baseUnitsToFixed_eq_Inr_iff [result_simps]:
  "baseUnitsToFixed v = Inr x \<longleftrightarrow>
     0 \<le> v \<and> v < 2 ^ 64 * USDC_ONE \<and> x = (v * 2 ^ 64) div USDC_ONE"
proof (cases "0 \<le> v \<and> v < 2 ^ 64 * USDC_ONE")
  case True
  have w: "0 \<le> v div USDC_ONE" "v div USDC_ONE \<le> U64_MAX"
    using True by (auto simp: USDC_ONE_def U64_MAX_def pos_imp_zdiv_nonneg_iff)
  have fi: "fromInteger (v div USDC_ONE) = Inr (v div USDC_ONE * 2 ^ 64)"
    using w by (simp add: fromInteger_def brand_eq_Inr_iff FRAC_BITS_def U128_MAX_def U64_MAX_def)
  have r: "0 \<le> ((v mod USDC_ONE) * 2 ^ 64) div USDC_ONE"
    "((v mod USDC_ONE) * 2 ^ 64) div USDC_ONE < 2 ^ 64"
    using pos_mod_bound [of USDC_ONE v]
    by (auto simp: USDC_ONE_def pos_imp_zdiv_nonneg_iff)
  have fr: "fromRaw (((v mod USDC_ONE) * 2 ^ 64) div USDC_ONE) = Inr (((v mod USDC_ONE) * 2 ^ 64) div USDC_ONE)"
    using r by (simp add: fromRaw_def brand_eq_Inr_iff U128_MAX_def)
  have "fx_add (v div USDC_ONE * 2 ^ 64) (((v mod USDC_ONE) * 2 ^ 64) div USDC_ONE)
      = Inr ((v * 2 ^ 64) div USDC_ONE)"
    unfolding fx_add_eq_Inr_iff using w r floor_split [of USDC_ONE v "2 ^ 64"]
    by (simp add: U64_MAX_def U128_MAX_def USDC_ONE_def)
  then show ?thesis
    using True w fi fr by (auto simp: baseUnitsToFixed_def Let_def FRAC_BITS_def)
next
  case False
  then have "v < 0 \<or> v div USDC_ONE > U64_MAX"
    by (auto simp: USDC_ONE_def U64_MAX_def)
  then show ?thesis using False by (auto simp: baseUnitsToFixed_def Let_def)
qed

lemma baseUnitsToFixed_bounds:
  assumes "baseUnitsToFixed v = Inr x"
  shows "0 \<le> x" "x \<le> U128_MAX"
proof -
  have v: "0 \<le> v" "v < 2 ^ 64 * USDC_ONE" and x: "x = (v * 2 ^ 64) div USDC_ONE"
    using assms by (simp_all add: baseUnitsToFixed_eq_Inr_iff)
  show "0 \<le> x" using v by (simp add: x USDC_ONE_def pos_imp_zdiv_nonneg_iff)
  have "x < 2 ^ 128"
    unfolding x using v by (subst div_less_iff_less_mult_int) (simp_all add: USDC_ONE_def)
  then show "x \<le> U128_MAX" by (simp add: U128_MAX_def)
qed

lemma fromInteger_USDC_ONE: "fromInteger USDC_ONE = Inr (USDC_ONE * 2 ^ 64)"
  by (simp add: fromInteger_def USDC_ONE_def brand_eq_Inr_iff FRAC_BITS_def U64_MAX_def U128_MAX_def)

lemma roundChargeUp_eq: "roundChargeUp v = ceil_div v (2 ^ 64)"
  by (simp add: roundChargeUp_def Let_def and_frac_mask FRAC_BITS_def ceil_div_if)

lemma fx_mul_USDC_ONE: "fx_mul v (USDC_ONE * 2 ^ 64) = brand (v * USDC_ONE)"
  unfolding fx_mul_def FRAC_BITS_def
  by (simp only: mult.assoc [symmetric] nonzero_mult_div_cancel_right power_not_zero) simp

lemma fixedToBaseUnitsUp_eq_Inr_iff [result_simps]:
  "fixedToBaseUnitsUp v = Inr x \<longleftrightarrow>
     0 \<le> v \<and> v * USDC_ONE \<le> U128_MAX \<and> x = ceil_div (v * USDC_ONE) (2 ^ 64)"
  unfolding fixedToBaseUnitsUp_def fromInteger_USDC_ONE rbind_simps fx_mul_USDC_ONE
  by (auto simp only: rbind_eq_Inr_iff brand_eq_Inr_iff roundChargeUp_eq) (simp_all add: USDC_ONE_def)

lemma fixedToBaseUnitsDown_eq_Inr_iff [result_simps]:
  "fixedToBaseUnitsDown v = Inr x \<longleftrightarrow>
     0 \<le> v \<and> v * USDC_ONE \<le> U128_MAX \<and> x = (v * USDC_ONE) div 2 ^ 64"
  unfolding fixedToBaseUnitsDown_def fromInteger_USDC_ONE rbind_simps fx_mul_USDC_ONE
  by (auto simp only: rbind_eq_Inr_iff brand_eq_Inr_iff roundPayoutDown_def FRAC_BITS_def) (simp_all add: USDC_ONE_def)

lemma base_units_roundtrip:
  assumes "0 \<le> v" "v \<le> U64_MAX"
  obtains x where "baseUnitsToFixed v = Inr x" "fixedToBaseUnitsUp x = Inr v"
    "fixedToBaseUnitsDown x = Inr v \<or> fixedToBaseUnitsDown x = Inr (v - 1)"
proof -
  define x where "x = (v * 2 ^ 64) div USDC_ONE"
  have le: "x * USDC_ONE \<le> v * 2 ^ 64" and lt: "v * 2 ^ 64 < x * USDC_ONE + USDC_ONE"
    unfolding x_def by (auto simp: mult_div_le_self USDC_ONE_def
      minus_mod_eq_div_mult [symmetric])
  have v: "v * 2 ^ 64 \<le> U128_MAX" using assms by (simp add: U64_MAX_def U128_MAX_def)
  have x0: "0 \<le> x" using assms by (simp add: x_def USDC_ONE_def pos_imp_zdiv_nonneg_iff)
  have b: "baseUnitsToFixed v = Inr x"
    using assms by (simp add: baseUnitsToFixed_eq_Inr_iff x_def USDC_ONE_def U64_MAX_def)
  have m: "x * USDC_ONE \<le> U128_MAX" using le v by linarith
  have up: "ceil_div (x * USDC_ONE) (2 ^ 64) = v"
    using le lt by (subst ceil_div_eq_iff) (simp_all add: USDC_ONE_def)
  have "(v - 1) * 2 ^ 64 \<le> x * USDC_ONE" using lt by (simp add: USDC_ONE_def)
  then have "v - 1 \<le> (x * USDC_ONE) div 2 ^ 64" by (subst le_div_iff_mult_le) simp_all
  moreover have "(x * USDC_ONE) div 2 ^ 64 < v + 1"
    using le by (subst div_less_iff_less_mult_int) simp_all
  ultimately have "(x * USDC_ONE) div 2 ^ 64 = v \<or> (x * USDC_ONE) div 2 ^ 64 = v - 1" by linarith
  then have "fixedToBaseUnitsDown x = Inr v \<or> fixedToBaseUnitsDown x = Inr (v - 1)"
    using x0 m by (auto simp only: fixedToBaseUnitsDown_eq_Inr_iff)
  with b up x0 m show ?thesis by (intro that) (auto simp only: fixedToBaseUnitsUp_eq_Inr_iff)
qed

lemma feeUp_eq_Inr_iff [result_simps]:
  "feeUp amount feeBps = Inr x \<longleftrightarrow> 0 \<le> amount \<and> 0 \<le> feeBps \<and> amount * feeBps \<le> U128_MAX
     \<and> x = ceil_div (amount * feeBps) BPS_DENOMINATOR"
  by (auto simp: feeUp_def Let_def ceil_div_if BPS_DENOMINATOR_def)

lemma ensureTradeBounds_iff:
  "ensureTradeBounds b amount bounds = Inr () \<longleftrightarrow> withinTradeBounds b amount bounds"
  by (auto simp: ensureTradeBounds_def withinTradeBounds_def)

lemma checkedAdd_eq_Inr_iff [result_simps]:
  "checkedAdd a b = Inr x \<longleftrightarrow> a + b \<le> U128_MAX \<and> x = a + b"
  by (auto simp: checkedAdd_def Let_def)

lemma checkedSub_eq_Inr_iff [result_simps]:
  "checkedSub a b = Inr x \<longleftrightarrow> b \<le> a \<and> x = a - b"
  by (auto simp: checkedSub_def)

subsection \<open>What a quote reports\<close>

lemma priceToGrid1e9_bounds:
  assumes "0 \<le> p" "p \<le> 2 ^ 64"
  shows "0 \<le> priceToGrid1e9 p" "priceToGrid1e9 p \<le> PRICE_ONE_1E9"
proof -
  show "0 \<le> priceToGrid1e9 p"
    using assms by (simp add: priceToGrid1e9_def toRaw_def PRICE_ONE_1E9_def pos_imp_zdiv_nonneg_iff)
  have "(p * PRICE_ONE_1E9) div 2 ^ 64 \<le> (2 ^ 64 * PRICE_ONE_1E9) div 2 ^ 64"
    using assms by (intro zdiv_mono1 mult_right_mono) (simp_all add: PRICE_ONE_1E9_def)
  then show "priceToGrid1e9 p \<le> PRICE_ONE_1E9"
    by (simp add: priceToGrid1e9_def toRaw_def)
qed

lemma isWithinDomain_nonzero: "isWithinDomain qLong qShort b \<Longrightarrow> b \<noteq> 0"
  by (auto simp: isWithinDomain_def ensureDomain_def toRaw_def)

lemma postTradeView_facts:
  assumes "postTradeView postLong postShort b bounds = Inr (pAfter, maxT, ok)"
  shows "maxT = maxTradeAmount b bounds" "0 \<le> pAfter" "pAfter \<le> PRICE_ONE_1E9"
    "\<not> ok \<Longrightarrow> pAfter = 0"
proof -
  obtain l s f where c: "baseUnitsToFixed postLong = Inr l" "baseUnitsToFixed postShort = Inr s"
    "baseUnitsToFixed b = Inr f" and ok: "ok = isWithinDomain l s f"
    and m: "maxT = maxTradeAmount b bounds"
    and p: "(if ok then rbind (lmsrPriceLong l s f) (\<lambda>p. Inr (priceToGrid1e9 p)) else Inr 0) = Inr pAfter"
    using assms by (auto simp: postTradeView_def rbind_eq_Inr_iff Let_def)
  show "maxT = maxTradeAmount b bounds" by (rule m)
  show "\<not> ok \<Longrightarrow> pAfter = 0" using p by simp
  have "0 \<le> pAfter \<and> pAfter \<le> PRICE_ONE_1E9"
  proof (cases ok)
    case True
    then have "valid_book l s f"
      using ok isWithinDomain_nonzero [of l s f] baseUnitsToFixed_bounds [OF c(1)]
        baseUnitsToFixed_bounds [OF c(2)] baseUnitsToFixed_bounds [OF c(3)]
      by (simp add: valid_book_def)
    then obtain r where "lmsrPriceLong l s f = Inr r" "0 \<le> r" "r \<le> 2 ^ 64"
      by (rule lmsrPriceLong_range) blast
    then show ?thesis using p True priceToGrid1e9_bounds [of r] by (simp del: One_nat_def)
  qed (use p in \<open>simp add: PRICE_ONE_1E9_def\<close>)
  then show "0 \<le> pAfter" "pAfter \<le> PRICE_ONE_1E9" by simp_all
qed

lemma quoteBuy_E:
  assumes "quoteBuy book side amount feeBps bounds = Inr q"
  obtains ql qs bf af raw where
    "baseUnitsToFixed (bk_qLong book) = Inr ql" "baseUnitsToFixed (bk_qShort book) = Inr qs"
    "baseUnitsToFixed (bk_b book) = Inr bf" "baseUnitsToFixed amount = Inr af"
    "lmsrBuyCost ql qs bf side af = Inr raw" "fixedToBaseUnitsUp raw = Inr (qv_cost q)"
    "feeUp (qv_cost q) feeBps = Inr (qv_fee q)"
    "checkedAdd (qv_cost q) (qv_fee q) = Inr (bq_total q)"
    "postTradeView (if side = SideLong then bk_qLong book + amount else bk_qLong book)
       (if side = SideShort then bk_qShort book + amount else bk_qShort book) (bk_b book) bounds
     = Inr (qv_pAfter1e9 q, qv_maxTrade q, qv_withinDomain q)"
  using assms unfolding quoteBuy_def
  by (cases side) (auto simp: rbind_eq_Inr_iff checkedAdd_eq_Inr_iff)

lemma quoteSell_E:
  assumes "quoteSell book side amount feeBps bounds = Inr q"
  obtains ql qs bf af raw where
    "baseUnitsToFixed (bk_qLong book) = Inr ql" "baseUnitsToFixed (bk_qShort book) = Inr qs"
    "baseUnitsToFixed (bk_b book) = Inr bf" "baseUnitsToFixed amount = Inr af"
    "lmsrSellProceeds ql qs bf side af = Inr raw" "fixedToBaseUnitsDown raw = Inr (qv_cost q)"
    "feeUp (qv_cost q) feeBps = Inr (qv_fee q)" "qv_fee q \<le> qv_cost q"
    "sq_net q = qv_cost q - qv_fee q"
    "postTradeView (if side = SideLong then bk_qLong book - amount else bk_qLong book)
       (if side = SideShort then bk_qShort book - amount else bk_qShort book) (bk_b book) bounds
     = Inr (qv_pAfter1e9 q, qv_maxTrade q, qv_withinDomain q)"
    "amount \<le> (if side = SideLong then bk_qLong book else bk_qShort book)"
  using assms unfolding quoteSell_def
  by (cases side) (auto simp: rbind_eq_Inr_iff checkedSub_eq_Inr_iff split: if_splits)

lemma quoteBuy_facts:
  assumes "quoteBuy book side amount feeBps bounds = Inr q"
  shows "bq_total q = qv_cost q + qv_fee q" "0 \<le> qv_cost q"
    "qv_fee q = ceil_div (qv_cost q * feeBps) BPS_DENOMINATOR" "bq_total q \<le> U128_MAX"
    "qv_maxTrade q = maxTradeAmount (bk_b book) bounds"
    "0 \<le> qv_pAfter1e9 q" "qv_pAfter1e9 q \<le> PRICE_ONE_1E9"
  using assms
  by (auto elim!: quoteBuy_E simp: checkedAdd_eq_Inr_iff feeUp_eq_Inr_iff dest: postTradeView_facts)

lemma quoteSell_facts:
  assumes "quoteSell book side amount feeBps bounds = Inr q"
  shows "sq_net q = qv_cost q - qv_fee q" "0 \<le> sq_net q"
    "qv_fee q = ceil_div (qv_cost q * feeBps) BPS_DENOMINATOR"
    "qv_maxTrade q = maxTradeAmount (bk_b book) bounds"
    "0 \<le> qv_pAfter1e9 q" "qv_pAfter1e9 q \<le> PRICE_ONE_1E9"
  using assms
  by (auto elim!: quoteSell_E simp: feeUp_eq_Inr_iff dest: postTradeView_facts)

text \<open>The book after a buy, in base units.\<close>

definition bought :: "book_state \<Rightarrow> lmsr_side \<Rightarrow> int \<Rightarrow> book_state" where
  "bought book side amount =
     (case side of
        SideLong \<Rightarrow> book\<lparr>bk_qLong := bk_qLong book + amount\<rparr>
      | SideShort \<Rightarrow> book\<lparr>bk_qShort := bk_qShort book + amount\<rparr>)"

lemma baseUnitsToFixed_add_whole:
  assumes "baseUnitsToFixed v = Inr x" "baseUnitsToFixed (n * USDC_ONE) = Inr a"
    "baseUnitsToFixed (v + n * USDC_ONE) = Inr y"
  shows "y = x + a"
proof -
  have nz: "USDC_ONE \<noteq> 0" by (simp add: USDC_ONE_def)
  have "(v + n * USDC_ONE) * 2 ^ 64 = v * 2 ^ 64 + (n * 2 ^ 64) * USDC_ONE"
    by (simp only: distrib_right mult.assoc mult.commute [of USDC_ONE])
  then have y: "y = ((v * 2 ^ 64) + (n * 2 ^ 64) * USDC_ONE) div USDC_ONE"
    using assms(3) by (simp only: baseUnitsToFixed_eq_Inr_iff)
  have "(n * USDC_ONE) * 2 ^ 64 = (n * 2 ^ 64) * USDC_ONE"
    by (simp only: mult.assoc mult.commute [of USDC_ONE])
  then have "a = ((n * 2 ^ 64) * USDC_ONE) div USDC_ONE"
    using assms(2) by (simp only: baseUnitsToFixed_eq_Inr_iff)
  then have "a = n * 2 ^ 64" by (simp only: nonzero_mult_div_cancel_right [OF nz])
  with y have "y = a + (v * 2 ^ 64) div USDC_ONE" by (simp only: div_mult_self1 [OF nz])
  then show ?thesis using assms(1) by (simp only: baseUnitsToFixed_eq_Inr_iff add.commute)
qed

lemma buy_then_sell:
  assumes "lmsrBuyCost (fst q) (snd q) b side a = Inr c" "u128_book q" "0 \<le> a"
  shows "lmsrSellProceeds (fst (trade_book side a q)) (snd (trade_book side a q)) b side a = Inr c"
proof -
  obtain c0 c1 where c: "lmsrCost (fst q) (snd q) b = Inr c0" "u128_book (trade_book side a q)"
    "lmsrCost (fst (trade_book side a q)) (snd (trade_book side a q)) b = Inr c1"
    "c0 \<le> c1" "c = c1 - c0"
    using assms(1) lmsrBuyCost_eq_Inr_iff [OF assms(2,3)] by blast
  have "trade_book side (- a) (trade_book side a q) = q"
    by (cases side) (simp_all add: trade_book_def)
  then show ?thesis
    using c assms(2) by (subst lmsrSellProceeds_eq_Inr_iff [OF c(2) assms(3)]) simp
qed

lemma quote_roundtrip_no_profit:
  assumes buy: "quoteBuy book side (n * USDC_ONE) feeBps bounds = Inr q"
    and sell: "quoteSell (bought book side (n * USDC_ONE)) side (n * USDC_ONE) feeBps' bounds' = Inr r"
    and fees: "0 \<le> feeBps"
  shows "qv_cost r \<le> qv_cost q" "sq_net r \<le> bq_total q"
proof -
  from buy obtain ql qs bf af raw where
    B: "baseUnitsToFixed (bk_qLong book) = Inr ql" "baseUnitsToFixed (bk_qShort book) = Inr qs"
      "baseUnitsToFixed (bk_b book) = Inr bf" "baseUnitsToFixed (n * USDC_ONE) = Inr af"
      "lmsrBuyCost ql qs bf side af = Inr raw" "fixedToBaseUnitsUp raw = Inr (qv_cost q)"
    by (rule quoteBuy_E)
  from sell obtain ql' qs' bf' af' raw' where
    S: "baseUnitsToFixed (bk_qLong (bought book side (n * USDC_ONE))) = Inr ql'"
      "baseUnitsToFixed (bk_qShort (bought book side (n * USDC_ONE))) = Inr qs'"
      "baseUnitsToFixed (bk_b (bought book side (n * USDC_ONE))) = Inr bf'"
      "baseUnitsToFixed (n * USDC_ONE) = Inr af'"
      "lmsrSellProceeds ql' qs' bf' side af' = Inr raw'" "fixedToBaseUnitsDown raw' = Inr (qv_cost r)"
    by (rule quoteSell_E)
  have bk: "bf' = bf" "af' = af" "(ql', qs') = trade_book side af (ql, qs)"
    using B S baseUnitsToFixed_add_whole [OF B(1) B(4)] baseUnitsToFixed_add_whole [OF B(2) B(4)]
    by (cases side; simp add: bought_def trade_book_def)+
  have "u128_book (ql, qs)"
    using B(1,2) [THEN baseUnitsToFixed_bounds(1)] B(1,2) [THEN baseUnitsToFixed_bounds(2)]
    by (simp add: u128_book_def)
  from buy_then_sell [of "(ql, qs)" bf side af raw, OF _ this baseUnitsToFixed_bounds(1) [OF B(4)]]
  have "raw' = raw" using B(5) S(5) bk by (metis Inr_inject fst_conv snd_conv)
  then show "qv_cost r \<le> qv_cost q"
    using B(6) S(6) floor_le_ceil_div [of "2 ^ 64" "raw * USDC_ONE"]
    by (simp only: fixedToBaseUnitsUp_eq_Inr_iff fixedToBaseUnitsDown_eq_Inr_iff) simp
  moreover have "0 \<le> qv_fee q" "0 \<le> qv_fee r"
    using buy sell by (auto elim!: quoteBuy_E quoteSell_E
        simp: feeUp_eq_Inr_iff BPS_DENOMINATOR_def intro!: ceil_div_nonneg)
  ultimately show "sq_net r \<le> bq_total q"
    using quoteBuy_facts(1) [OF buy] quoteSell_facts(1) [OF sell] by simp
qed

lemma quoteSell_oversized:
  assumes "(if side = SideLong then bk_qLong book else bk_qShort book) < amount"
  shows "quoteSell book side amount feeBps bounds = Inl (ProtocolError ArithmeticOverflow None)"
  using assms by (cases side) (simp_all add: quoteSell_def checkedSub_def)

subsection \<open>What a quote promises\<close>

lemma sample_unit_cost:
  "lmsrCost 0 (2 ^ 64) (2 ^ 64) = Inr 24225402251456582096"
  "lmsrPriceLong 0 (2 ^ 64) (2 ^ 64) = Inr 4961093570831980853"
  by code_simp+

lemma sample_even_book:
  "lmsrCost (2 ^ 64) (2 ^ 64) (2 ^ 64) = Inr (2 ^ 64 + LN_2)"
  "lmsrPriceLong (2 ^ 64) (2 ^ 64) (2 ^ 64) = Inr (2 ^ 63)"
proof -
  show "lmsrCost (2 ^ 64) (2 ^ 64) (2 ^ 64) = Inr (2 ^ 64 + LN_2)"
    by (subst lmsrCost_even) (simp_all add: U128_MAX_def)
  have "valid_book (2 ^ 64) (2 ^ 64) (2 ^ 64)"
    by (simp add: valid_book_def isWithinDomain_iff U128_MAX_def)
  from lmsrPriceLong_eq [OF this] show "lmsrPriceLong (2 ^ 64) (2 ^ 64) (2 ^ 64) = Inr (2 ^ 63)"
    by (simp add: book_displacement_even decay_zero [simplified])
qed

lemma sample_conversions:
  "baseUnitsToFixed 0 = Inr 0" "baseUnitsToFixed 1000000 = Inr (2 ^ 64)"
  by (simp_all add: baseUnitsToFixed_eq_Inr_iff USDC_ONE_def)

definition sample_book :: book_state where
  "sample_book = \<lparr> bk_qLong = 0, bk_qShort = 1000000, bk_b = 1000000 \<rparr>"

definition sample_bounds :: trade_bounds where
  "sample_bounds = \<lparr> minTrade = 1, maxTradeNumerator = 1, maxTradeDenominator = 4 \<rparr>"

lemmas sample_eval = fx_add_def fx_sub_def brand_def fixedToBaseUnitsUp_eq_Inr_iff
  fixedToBaseUnitsDown_eq_Inr_iff U128_MAX_def LN_2_def USDC_ONE_def isWithinDomain_iff
  priceToGrid1e9_def toRaw_def PRICE_ONE_1E9_def

lemma sample_buy_cost: "lmsrBuyCost 0 (2 ^ 64) (2 ^ 64) SideLong (2 ^ 64) = Inr 7007650467455625180"
  using sample_unit_cost(1) sample_even_book(1)
  by (simp add: lmsrBuyCost_def fx_add_def fx_sub_def brand_def U128_MAX_def LN_2_def)

lemma sample_sell_proceeds:
  "lmsrSellProceeds (2 ^ 64) (2 ^ 64) (2 ^ 64) SideLong (2 ^ 64) = Inr 7007650467455625180"
  using sample_unit_cost(1) sample_even_book(1)
  by (simp add: lmsrSellProceeds_def fx_add_def fx_sub_def brand_def U128_MAX_def LN_2_def)

lemma sample_charges:
  "fixedToBaseUnitsUp 7007650467455625180 = Inr 379886"
  "fixedToBaseUnitsDown 7007650467455625180 = Inr 379885"
  by (simp_all add: fixedToBaseUnitsUp_eq_Inr_iff fixedToBaseUnitsDown_eq_Inr_iff USDC_ONE_def U128_MAX_def ceil_div_def)

lemma sample_quotes:
  "quoteBuy sample_book SideLong 1000000 30 sample_bounds = Inr \<lparr> qv_cost = 379886, qv_fee = 1140,
     qv_pAfter1e9 = 500000000, qv_maxTrade = 250000, qv_withinDomain = True, bq_total = 381026 \<rparr>"
  "quoteSell (bought sample_book SideLong 1000000) SideLong 1000000 30 sample_bounds =
     Inr \<lparr> qv_cost = 379885, qv_fee = 1140, qv_pAfter1e9 = 268941421, qv_maxTrade = 250000,
     qv_withinDomain = True, sq_net = 378745 \<rparr>"
  using sample_conversions sample_buy_cost sample_sell_proceeds sample_charges sample_unit_cost(2) sample_even_book(2)
  by (simp_all add: quoteBuy_def quoteSell_def sample_book_def sample_bounds_def bought_def checkedAdd_def
      checkedSub_def feeUp_def BPS_DENOMINATOR_def postTradeView_def maxTradeAmount_def isWithinDomain_iff
      priceToGrid1e9_def toRaw_def PRICE_ONE_1E9_def U128_MAX_def signed_divide_int_def)

text \<open>
  Converting base units to 64.64 and charging them back returns exactly the amount; paying
  them out returns it or one base unit less.\<close>

theorem conversion_roundtrip:
  assumes "0 \<le> v" "v \<le> U64_MAX"
  shows "\<exists>x. baseUnitsToFixed v = Inr x \<and> fixedToBaseUnitsUp x = Inr v \<and>
    (\<exists>w. fixedToBaseUnitsDown x = Inr w \<and> v - 1 \<le> w \<and> w \<le> v)"
proof -
  obtain x where x: "baseUnitsToFixed v = Inr x" "fixedToBaseUnitsUp x = Inr v"
    "fixedToBaseUnitsDown x = Inr v \<or> fixedToBaseUnitsDown x = Inr (v - 1)"
    by (rule base_units_roundtrip [OF assms])
  then have "\<exists>w. fixedToBaseUnitsDown x = Inr w \<and> v - 1 \<le> w \<and> w \<le> v" by auto
  with x show ?thesis by blast
qed

theorem conversion_roundtrip_witness:
  "\<exists>x. baseUnitsToFixed 1234567 = Inr x \<and> fixedToBaseUnitsUp x = Inr 1234567 \<and>
    (\<exists>w. fixedToBaseUnitsDown x = Inr w \<and> 1234567 - 1 \<le> w \<and> w \<le> 1234567)"
  by (rule conversion_roundtrip) (simp_all add: U64_MAX_def)

text \<open>
  A buy quote charges the LMSR cost rounded up to the base unit, adds the fee rounded up, and
  reports as total their sum; its marginal price is on the 1e9 grid inside \<open>[0, 1]\<close>.\<close>

theorem quote_buy_charges_up:
  assumes "quoteBuy book side amount feeBps bounds = Inr q"
  shows "\<exists>ql qs bf af raw. baseUnitsToFixed (bk_qLong book) = Inr ql \<and> baseUnitsToFixed (bk_qShort book) = Inr qs \<and>
    baseUnitsToFixed (bk_b book) = Inr bf \<and> baseUnitsToFixed amount = Inr af \<and>
    lmsrBuyCost ql qs bf side af = Inr raw \<and>
    raw * USDC_ONE \<le> qv_cost q * 2 ^ 64 \<and> (qv_cost q - 1) * 2 ^ 64 < raw * USDC_ONE \<and>
    qv_cost q * feeBps \<le> qv_fee q * BPS_DENOMINATOR \<and> (qv_fee q - 1) * BPS_DENOMINATOR < qv_cost q * feeBps \<and>
    bq_total q = qv_cost q + qv_fee q \<and> bq_total q \<le> U128_MAX \<and>
    0 \<le> qv_pAfter1e9 q \<and> qv_pAfter1e9 q \<le> PRICE_ONE_1E9"
proof -
  note f = quoteBuy_facts [OF assms]
  obtain ql qs bf af raw where
    B: "baseUnitsToFixed (bk_qLong book) = Inr ql" "baseUnitsToFixed (bk_qShort book) = Inr qs"
      "baseUnitsToFixed (bk_b book) = Inr bf" "baseUnitsToFixed amount = Inr af"
      "lmsrBuyCost ql qs bf side af = Inr raw" "fixedToBaseUnitsUp raw = Inr (qv_cost q)"
    by (rule quoteBuy_E [OF assms])
  have "qv_cost q = ceil_div (raw * USDC_ONE) (2 ^ 64)"
    using B(6) by (simp only: fixedToBaseUnitsUp_eq_Inr_iff)
  then have c: "raw * USDC_ONE \<le> qv_cost q * 2 ^ 64" "(qv_cost q - 1) * 2 ^ 64 < raw * USDC_ONE"
    using ceil_div_eq_iff [of "2 ^ 64" "raw * USDC_ONE" "qv_cost q"] by simp_all
  have "0 < BPS_DENOMINATOR" by (simp add: BPS_DENOMINATOR_def)
  from ceil_div_eq_iff [OF this, of "qv_cost q * feeBps" "qv_fee q"] f(3)
  have "qv_cost q * feeBps \<le> qv_fee q * BPS_DENOMINATOR"
    "(qv_fee q - 1) * BPS_DENOMINATOR < qv_cost q * feeBps" by simp_all
  with B c f show ?thesis by blast
qed

theorem quote_buy_charges_up_witness:
  "\<exists>q. quoteBuy sample_book SideLong 1000000 30 sample_bounds = Inr q \<and> bq_total q = 381026 \<and>
     bq_total q = qv_cost q + qv_fee q"
  using quote_buy_charges_up [OF sample_quotes(1)] sample_quotes(1) by simp

text \<open>
  A sell quote pays the LMSR proceeds rounded down to the base unit and withholds the fee
  rounded up from them, so the net is never negative; selling more than the book has sold is
  refused with the balance underflow, before the price kernel is reached.\<close>

theorem quote_sell_pays_down:
  "(case quoteSell book side amount feeBps bounds of
      Inr q \<Rightarrow> amount \<le> (if side = SideLong then bk_qLong book else bk_qShort book) \<and>
        sq_net q = qv_cost q - qv_fee q \<and> 0 \<le> sq_net q \<and>
        (\<exists>ql qs bf af raw. baseUnitsToFixed (bk_qLong book) = Inr ql \<and>
          baseUnitsToFixed (bk_qShort book) = Inr qs \<and> baseUnitsToFixed (bk_b book) = Inr bf \<and>
          baseUnitsToFixed amount = Inr af \<and> lmsrSellProceeds ql qs bf side af = Inr raw \<and>
          qv_cost q = (raw * USDC_ONE) div 2 ^ 64 \<and>
          qv_fee q = ceil_div (qv_cost q * feeBps) BPS_DENOMINATOR)
    | Inl e \<Rightarrow> (if side = SideLong then bk_qLong book else bk_qShort book) < amount
        \<longrightarrow> e = ProtocolError ArithmeticOverflow None)"
proof (cases "quoteSell book side amount feeBps bounds")
  case (Inl e)
  then show ?thesis using quoteSell_oversized [of side book amount feeBps bounds] by auto
next
  case (Inr q)
  obtain ql qs bf af raw where
    S: "baseUnitsToFixed (bk_qLong book) = Inr ql" "baseUnitsToFixed (bk_qShort book) = Inr qs"
      "baseUnitsToFixed (bk_b book) = Inr bf" "baseUnitsToFixed amount = Inr af"
      "lmsrSellProceeds ql qs bf side af = Inr raw" "fixedToBaseUnitsDown raw = Inr (qv_cost q)"
      "amount \<le> (if side = SideLong then bk_qLong book else bk_qShort book)"
    by (rule quoteSell_E [OF Inr])
  have "qv_cost q = (raw * USDC_ONE) div 2 ^ 64"
    using S(6) by (simp only: fixedToBaseUnitsDown_eq_Inr_iff)
  then show ?thesis using S quoteSell_facts [OF Inr] Inr by simp
qed

theorem quote_sell_pays_down_witness:
  "\<exists>e. quoteSell sample_book SideLong 1000000 30 sample_bounds = Inl e \<and> e = ProtocolError ArithmeticOverflow None"
  using quote_sell_pays_down [where book = sample_book and side = SideLong
      and amount = 1000000 and feeBps = 30 and bounds = sample_bounds]
  by (auto simp: sample_book_def split: sum.splits)

text \<open>C8
  No profit from a round trip: buying a whole number of USDC of one side and selling it back
  at once, at whatever fees, never credits more than it charged.\<close>

theorem quote_roundtrip:
  assumes "quoteBuy book side (n * USDC_ONE) feeBps bounds = Inr q"
    and "quoteSell (bought book side (n * USDC_ONE)) side (n * USDC_ONE) feeBps' bounds' = Inr r"
    and "0 \<le> feeBps"
  shows "qv_cost r \<le> qv_cost q \<and> sq_net r \<le> bq_total q"
  using quote_roundtrip_no_profit [OF assms] by blast

theorem quote_roundtrip_witness:
  "(379885 :: int) \<le> 379886 \<and> (378745 :: int) \<le> 381026 \<and> (0 :: int) \<le> 30 \<and>
   (\<exists>q r. quoteBuy sample_book SideLong (1 * USDC_ONE) 30 sample_bounds = Inr q \<and>
     quoteSell (bought sample_book SideLong (1 * USDC_ONE)) SideLong (1 * USDC_ONE) 30 sample_bounds = Inr r \<and>
     qv_cost r \<le> qv_cost q \<and> sq_net r \<le> bq_total q)"
  using quote_roundtrip [of sample_book SideLong 1 30 sample_bounds _ 30 sample_bounds] sample_quotes
  by (simp add: USDC_ONE_def)

end
