(* ===== verification/Fee_Contract.thy ===== *)
theory Fee_Contract
  imports Bleavit_Prelude
begin

text \<open>
  The contract of a redemption fee, which two components provide: the client's
  \<open>redemptionFee\<close> (exact, base units) and the explainer's (JavaScript numbers). A fee is
  non-negative, at most the gross, and either waived or leaves at least the minimum net.
\<close>

locale fee_schedule =
  fixes admissible :: "'p \<Rightarrow> bool" and fee :: "'p \<Rightarrow> int \<Rightarrow> int" and min_net :: "'p \<Rightarrow> int"
  assumes fee_nonneg: "admissible p \<Longrightarrow> 0 \<le> g \<Longrightarrow> 0 \<le> fee p g"
    and fee_le: "admissible p \<Longrightarrow> 0 \<le> g \<Longrightarrow> fee p g \<le> g"
    and waived_or_above: "admissible p \<Longrightarrow> 0 \<le> g \<Longrightarrow> fee p g = 0 \<or> min_net p \<le> g - fee p g"
begin

lemma net_bounds: "admissible p \<Longrightarrow> 0 \<le> g \<Longrightarrow> 0 \<le> g - fee p g \<and> g - fee p g \<le> g"
  using fee_nonneg fee_le by simp

lemma small_gross_free: "admissible p \<Longrightarrow> 0 \<le> g \<Longrightarrow> g < min_net p \<Longrightarrow> fee p g = 0"
  using waived_or_above [of p g] fee_nonneg [of p g] by simp

lemma two_legs_bounds:
  assumes "admissible p" "0 \<le> g" "0 \<le> h" "g + h \<le> a"
  shows "0 \<le> fee p g + fee p h" "fee p g + fee p h \<le> a"
    "(g - fee p g) + (h - fee p h) \<le> a - (fee p g + fee p h)"
  using assms fee_nonneg [of p g] fee_nonneg [of p h] fee_le [of p g] fee_le [of p h] by linarith+

end

end
