(* ===== verification/Redemption.thy ===== *)
theory Redemption imports Lmsr Fee_Contract begin

text \<open>
  The redemption fee of \<open>app/packages/protocol/src/redemption.ts\<close>: the provisional fee,
  the net-tested waiver, the two-legged fee of a pair, and the search for the first charged
  gross. A rate or a score outside its domain is refused with \<open>RedemptionRateError\<close>.
  The waiver rule is also the contract \<open>fee_schedule\<close>, from which the facts every consumer
  of a fee needs follow.
\<close>

definition PERBILL_ONE :: int where
  "PERBILL_ONE = 1000000000"

definition SCORE_ONE_1E9 :: int where
  "SCORE_ONE_1E9 = PRICE_ONE_1E9"

datatype redemption_rate_error = RedemptionRateError

type_synonym 'a redemption = "(redemption_rate_error, 'a) result"

record redemption_amounts =
  ra_gross :: int
  ra_fee :: int
  ra_net :: int

record pair_legs =
  leg_long :: int
  leg_short :: int

definition requireBaseUnits :: "int \<Rightarrow> int redemption" where
  "requireBaseUnits value = (if value < 0 then Inl RedemptionRateError else Inr value)"

definition requireRate :: "int \<Rightarrow> int redemption" where
  "requireRate rate = (if rate < 0 \<or> rate > PERBILL_ONE then Inl RedemptionRateError else Inr rate)"

definition requireScore :: "int \<Rightarrow> int redemption" where
  "requireScore sRaw = (if sRaw < 0 \<or> sRaw > SCORE_ONE_1E9 then Inl RedemptionRateError else Inr sRaw)"

definition chargeUp :: "int \<Rightarrow> int \<Rightarrow> int" where
  "chargeUp gross rate =
     (let numerator = gross * rate
      in if numerator = 0 then 0 else (numerator - 1) div PERBILL_ONE + 1)"

definition redemptionFee :: "int \<Rightarrow> int \<Rightarrow> int \<Rightarrow> int redemption" where
  "redemptionFee gross rate minSplit =
     rbind (requireBaseUnits gross) (\<lambda>_.
     rbind (requireBaseUnits minSplit) (\<lambda>_.
     rbind (requireRate rate) (\<lambda>r.
       let fee = chargeUp gross r
       in if fee > gross then Inl RedemptionRateError
          else Inr (if gross - fee < minSplit then 0 else fee))))"

definition redemptionAmounts :: "int \<Rightarrow> int \<Rightarrow> int \<Rightarrow> redemption_amounts redemption" where
  "redemptionAmounts gross rate minSplit =
     rbind (redemptionFee gross rate minSplit) (\<lambda>fee.
       Inr \<lparr> ra_gross = gross, ra_fee = fee, ra_net = gross - fee \<rparr>)"

definition pairLegs :: "int \<Rightarrow> int \<Rightarrow> pair_legs redemption" where
  "pairLegs amount sRaw =
     rbind (requireBaseUnits amount) (\<lambda>_.
     rbind (requireScore sRaw) (\<lambda>_.
       Inr \<lparr> leg_long = (amount * sRaw) div SCORE_ONE_1E9,
             leg_short = (amount * (SCORE_ONE_1E9 - sRaw)) div SCORE_ONE_1E9 \<rparr>))"

definition redemptionFeePair :: "int \<Rightarrow> int \<Rightarrow> int \<Rightarrow> int \<Rightarrow> int redemption" where
  "redemptionFeePair amount sRaw rate minSplit =
     rbind (pairLegs amount sRaw) (\<lambda>legs.
     rbind (redemptionFee (leg_long legs) rate minSplit) (\<lambda>fl.
     rbind (redemptionFee (leg_short legs) rate minSplit) (\<lambda>fs. Inr (fl + fs))))"

definition redemptionAmountsPair :: "int \<Rightarrow> int \<Rightarrow> int \<Rightarrow> int \<Rightarrow> redemption_amounts redemption" where
  "redemptionAmountsPair amount sRaw rate minSplit =
     rbind (redemptionFeePair amount sRaw rate minSplit) (\<lambda>fee.
       Inr \<lparr> ra_gross = amount, ra_fee = fee, ra_net = amount - fee \<rparr>)"

text \<open>The binary search: the loop on \<open>(waived, charged)\<close>, ended by the width of the bracket.\<close>

function firstChargedGross_loop :: "int \<Rightarrow> int \<Rightarrow> int \<Rightarrow> int \<Rightarrow> int redemption" where
  "firstChargedGross_loop rate minSplit waived charged =
     (if charged - waived > 1
      then let mid = (waived + charged) div 2
           in rbind (redemptionFee mid rate minSplit) (\<lambda>fee.
                if fee = 0 then firstChargedGross_loop rate minSplit mid charged
                else firstChargedGross_loop rate minSplit waived mid)
      else Inr charged)"
  by pat_completeness auto

termination
  by (relation "measure (\<lambda>(_, _, waived, charged). nat (charged - waived))") auto

declare firstChargedGross_loop.simps [simp del]

definition firstChargedGross :: "int \<Rightarrow> int \<Rightarrow> int \<Rightarrow> int option redemption" where
  "firstChargedGross rate minSplit searchCeiling =
     rbind (requireRate rate) (\<lambda>_.
     rbind (requireBaseUnits minSplit) (\<lambda>_.
     rbind (requireBaseUnits searchCeiling) (\<lambda>_.
     rbind (redemptionFee searchCeiling rate minSplit) (\<lambda>fee.
       if fee = 0 then Inr None
       else rbind (firstChargedGross_loop rate minSplit 0 searchCeiling) (\<lambda>c. Inr (Some c))))))"

subsection \<open>The fee as a function of the gross\<close>

definition fee_of :: "int \<Rightarrow> int \<Rightarrow> int \<Rightarrow> int" where
  "fee_of rate minSplit gross =
     (let fee = ceil_div (gross * rate) PERBILL_ONE in if gross - fee < minSplit then 0 else fee)"

definition rate_ok :: "int \<Rightarrow> bool" where
  "rate_ok rate \<longleftrightarrow> 0 \<le> rate \<and> rate \<le> PERBILL_ONE"

lemma chargeUp_eq: "chargeUp gross rate = ceil_div (gross * rate) PERBILL_ONE"
proof -
  have p: "0 < PERBILL_ONE" by (simp add: PERBILL_ONE_def)
  show ?thesis
  proof (cases "gross * rate = 0")
    case True then show ?thesis by (simp only: chargeUp_def ceil_div_def Let_def if_True) simp
  next
    case False
    have "ceil_div (gross * rate) PERBILL_ONE = (gross * rate - 1) div PERBILL_ONE + 1"
      unfolding ceil_div_eq_iff [OF p]
      using mult_div_le_self [OF p, of "gross * rate - 1"]
        div_less_iff_less_mult_int [OF p, of "gross * rate - 1" "(gross * rate - 1) div PERBILL_ONE + 1"]
      by simp
    then show ?thesis using False by (simp add: chargeUp_def Let_def)
  qed
qed

lemma ceil_charge_le: "0 \<le> g \<Longrightarrow> rate_ok rate \<Longrightarrow> ceil_div (g * rate) PERBILL_ONE \<le> g"
  by (subst ceil_div_le_iff) (auto simp: rate_ok_def PERBILL_ONE_def intro!: mult_left_mono)

lemma ceil_charge_nonneg: "0 \<le> g \<Longrightarrow> rate_ok rate \<Longrightarrow> 0 \<le> ceil_div (g * rate) PERBILL_ONE"
  by (intro ceil_div_nonneg) (simp_all add: rate_ok_def PERBILL_ONE_def)

lemma redemptionFee_eq:
  assumes "0 \<le> g" "rate_ok rate" "0 \<le> minSplit"
  shows "redemptionFee g rate minSplit = Inr (fee_of rate minSplit g)"
  using assms ceil_charge_le [OF assms(1,2)]
  by (simp add: redemptionFee_def requireBaseUnits_def requireRate_def rate_ok_def Let_def
      chargeUp_eq fee_of_def)

lemma redemptionFee_eq_Inr_iff [result_simps]:
  "redemptionFee g rate minSplit = Inr x \<longleftrightarrow>
     0 \<le> g \<and> rate_ok rate \<and> 0 \<le> minSplit \<and> x = fee_of rate minSplit g"
proof (cases "0 \<le> g \<and> rate_ok rate \<and> 0 \<le> minSplit")
  case True then show ?thesis using redemptionFee_eq by auto
next
  case False then show ?thesis
    by (auto simp: redemptionFee_def requireBaseUnits_def requireRate_def rate_ok_def rbind_eq_Inr_iff
        split: if_splits)
qed

interpretation rf: fee_schedule "\<lambda>(rate, minSplit). rate_ok rate" "\<lambda>(rate, minSplit). fee_of rate minSplit" snd
  by unfold_locales (auto simp: fee_of_def Let_def ceil_charge_le ceil_charge_nonneg)

lemma net_step:
  assumes "rate_ok rate" "g \<le> h"
  shows "g - ceil_div (g * rate) PERBILL_ONE \<le> h - ceil_div (h * rate) PERBILL_ONE"
proof -
  have p: "0 < PERBILL_ONE" by (simp add: PERBILL_ONE_def)
  have "h * rate \<le> (ceil_div (g * rate) PERBILL_ONE + (h - g)) * PERBILL_ONE"
  proof -
    have "g * rate \<le> ceil_div (g * rate) PERBILL_ONE * PERBILL_ONE"
      using ceil_div_le_iff [OF p, of "g * rate"] by blast
    moreover have "(h - g) * rate \<le> (h - g) * PERBILL_ONE"
      using assms by (intro mult_left_mono) (simp_all add: rate_ok_def)
    ultimately show ?thesis by (simp add: algebra_simps)
  qed
  then have "ceil_div (h * rate) PERBILL_ONE \<le> ceil_div (g * rate) PERBILL_ONE + (h - g)"
    by (simp add: ceil_div_le_iff [OF p])
  then show ?thesis by simp
qed

text \<open>The waived set is a prefix: once a gross is charged, so is every larger one.\<close>

lemma charged_mono:
  assumes "rate_ok rate" "0 \<le> g" "g \<le> h" "0 \<le> minSplit" "fee_of rate minSplit g \<noteq> 0"
  shows "fee_of rate minSplit h \<noteq> 0"
proof -
  have p: "0 < PERBILL_ONE" by (simp add: PERBILL_ONE_def)
  have g: "minSplit \<le> g - ceil_div (g * rate) PERBILL_ONE" "ceil_div (g * rate) PERBILL_ONE \<noteq> 0"
    using assms(5) by (auto simp: fee_of_def Let_def split: if_splits)
  have "ceil_div (g * rate) PERBILL_ONE \<le> ceil_div (h * rate) PERBILL_ONE"
    using assms p by (intro ceil_div_mono mult_right_mono) (simp_all add: rate_ok_def)
  then have "ceil_div (h * rate) PERBILL_ONE \<noteq> 0"
    using g(2) ceil_charge_nonneg [OF assms(2,1)] by linarith
  moreover have "minSplit \<le> h - ceil_div (h * rate) PERBILL_ONE"
    using g(1) net_step [OF assms(1,3)] by linarith
  ultimately show ?thesis by (simp add: fee_of_def Let_def)
qed

lemma firstChargedGross_loop_correct:
  assumes "rate_ok rate" "0 \<le> minSplit" "0 \<le> waived" "waived < charged"
    and "fee_of rate minSplit waived = 0" "fee_of rate minSplit charged \<noteq> 0"
  shows "\<exists>c. firstChargedGross_loop rate minSplit waived charged = Inr c \<and> waived < c \<and> c \<le> charged \<and>
     fee_of rate minSplit c \<noteq> 0 \<and> fee_of rate minSplit (c - 1) = 0"
  using assms
proof (induction rate minSplit waived charged rule: firstChargedGross_loop.induct)
  case (1 rate minSplit waived charged)
  show ?case
  proof (cases "charged - waived > 1")
    case False
    then have c: "charged = waived + 1" using "1.prems" by simp
    have "firstChargedGross_loop rate minSplit waived charged = Inr charged"
      using False by (subst firstChargedGross_loop.simps) simp
    then show ?thesis using "1.prems" by (intro exI [of _ charged]) (simp add: c)
  next
    case True
    define mid where "mid = (waived + charged) div 2"
    have m: "waived < mid" "mid < charged" using True by (auto simp: mid_def)
    have fee: "redemptionFee mid rate minSplit = Inr (fee_of rate minSplit mid)"
      using m "1.prems" by (intro redemptionFee_eq) simp_all
    have unf: "firstChargedGross_loop rate minSplit waived charged =
        (if fee_of rate minSplit mid = 0 then firstChargedGross_loop rate minSplit mid charged
         else firstChargedGross_loop rate minSplit waived mid)"
      using True fee by (subst firstChargedGross_loop.simps) (simp add: Let_def mid_def)
    show ?thesis
    proof (cases "fee_of rate minSplit mid = 0")
      case zero: True
      from "1.IH"(1) [OF True mid_def zero] m "1.prems" zero show ?thesis
        unfolding unf by fastforce
    next
      case nz: False
      from "1.IH"(2) [OF True mid_def nz] m "1.prems" nz show ?thesis
        unfolding unf by fastforce
    qed
  qed
qed

lemma fee_of_zero: "0 \<le> minSplit \<Longrightarrow> fee_of rate minSplit 0 = 0"
  by (simp add: fee_of_def ceil_div_def)

lemma firstChargedGross_correct:
  assumes "rate_ok rate" "0 \<le> minSplit" "0 \<le> limit"
  shows "firstChargedGross rate minSplit limit = Inr None \<and>
        (\<forall>g. 0 \<le> g \<and> g \<le> limit \<longrightarrow> redemptionFee g rate minSplit = Inr 0)
    \<or> (\<exists>c. firstChargedGross rate minSplit limit = Inr (Some c) \<and> 0 < c \<and> c \<le> limit \<and>
        (\<forall>g. 0 \<le> g \<longrightarrow> (redemptionFee g rate minSplit = Inr 0) = (g < c)))"
proof -
  have unf: "firstChargedGross rate minSplit limit =
      (if fee_of rate minSplit limit = 0 then Inr None
       else rbind (firstChargedGross_loop rate minSplit 0 limit) (\<lambda>c. Inr (Some c)))"
    using assms by (simp add: firstChargedGross_def requireRate_def requireBaseUnits_def
        redemptionFee_eq rate_ok_def)
  have zero_iff: "redemptionFee g rate minSplit = Inr 0 \<longleftrightarrow> fee_of rate minSplit g = 0" if "0 \<le> g" for g
    using assms that by (simp add: redemptionFee_eq)
  show ?thesis
  proof (cases "fee_of rate minSplit limit = 0")
    case True
    then have "fee_of rate minSplit g = 0" if "0 \<le> g" "g \<le> limit" for g
      using charged_mono [OF assms(1) that assms(2)] by blast
    then show ?thesis using True zero_iff by (simp add: unf)
  next
    case False
    then have "0 < limit" using fee_of_zero [OF assms(2)] assms(3) by (metis order_le_less)
    from firstChargedGross_loop_correct [OF assms(1,2) order_refl this fee_of_zero [OF assms(2)] False]
    obtain c where c: "firstChargedGross_loop rate minSplit 0 limit = Inr c" "0 < c" "c \<le> limit"
      "fee_of rate minSplit c \<noteq> 0" "fee_of rate minSplit (c - 1) = 0" by blast
    have "fee_of rate minSplit g = 0 \<longleftrightarrow> g < c" if "0 \<le> g" for g
    proof
      assume "fee_of rate minSplit g = 0"
      then show "g < c" using charged_mono [OF assms(1) _ _ assms(2) c(4), of g] c(2) by force
    next
      assume "g < c"
      then show "fee_of rate minSplit g = 0"
        using charged_mono [OF assms(1) that _ assms(2), of "c - 1"] c(5) by force
    qed
    then show ?thesis using False c zero_iff by (simp add: unf)
  qed
qed

subsection \<open>Pairs\<close>

lemma floor_window: "(0::int) < m \<Longrightarrow> (a div m) * m \<le> a \<and> a < (a div m) * m + m"
  using mult_div_le_self [of m a] div_less_iff_less_mult_int [of m a "a div m + 1"]
  by (simp add: distrib_right)

lemma pairLegs_facts:
  assumes "0 \<le> amount" "0 \<le> s" "s \<le> SCORE_ONE_1E9"
  obtains legs where "pairLegs amount s = Inr legs" "0 \<le> leg_long legs" "0 \<le> leg_short legs"
    "leg_long legs + leg_short legs \<le> amount" "amount - 1 \<le> leg_long legs + leg_short legs"
proof -
  let ?S = "SCORE_ONE_1E9"
  have p: "0 < ?S" by (simp add: SCORE_ONE_1E9_def PRICE_ONE_1E9_def)
  define l r where "l = (amount * s) div ?S" and "r = (amount * (?S - s)) div ?S"
  have w: "l * ?S \<le> amount * s" "amount * s < l * ?S + ?S"
    "r * ?S \<le> amount * (?S - s)" "amount * (?S - s) < r * ?S + ?S"
    unfolding l_def r_def using floor_window [OF p] by blast+
  then have "(l + r) * ?S \<le> amount * ?S" "amount * ?S < (l + r + 2) * ?S"
    by (simp_all add: algebra_simps)
  then have "l + r \<le> amount" "amount < l + r + 2"
    using p by (simp_all add: mult_le_cancel_right mult_less_cancel_right)
  moreover have "0 \<le> l" "0 \<le> r"
    unfolding l_def r_def using assms p by (simp_all add: pos_imp_zdiv_nonneg_iff)
  moreover have "pairLegs amount s = Inr \<lparr> leg_long = l, leg_short = r \<rparr>"
    using assms by (simp add: pairLegs_def requireBaseUnits_def requireScore_def l_def r_def)
  ultimately show ?thesis by (intro that [of "\<lparr> leg_long = l, leg_short = r \<rparr>"]) simp_all
qed

lemma redemptionFeePair_vs_legs:
  assumes "0 \<le> amount" "0 \<le> s" "s \<le> SCORE_ONE_1E9" "rate_ok rate" "0 \<le> minSplit"
  obtains legs pair ll ls where "pairLegs amount s = Inr legs"
    "redemptionAmountsPair amount s rate minSplit = Inr pair"
    "redemptionAmounts (leg_long legs) rate minSplit = Inr ll"
    "redemptionAmounts (leg_short legs) rate minSplit = Inr ls"
    "ra_fee pair = ra_fee ll + ra_fee ls" "ra_net ll + ra_net ls \<le> ra_net pair"
    "ra_net pair \<le> ra_net ll + ra_net ls + 1" "0 \<le> ra_fee pair" "ra_net pair = amount - ra_fee pair"
    "0 \<le> ra_net pair"
proof -
  obtain legs where L: "pairLegs amount s = Inr legs" "0 \<le> leg_long legs" "0 \<le> leg_short legs"
    "leg_long legs + leg_short legs \<le> amount" "amount - 1 \<le> leg_long legs + leg_short legs"
    by (rule pairLegs_facts [OF assms(1-3)])
  note fs = rf.two_legs_bounds [of "(rate, minSplit)", OF _ L(2-4), simplified, OF assms(4)]
  let ?f = "fee_of rate minSplit"
  have P: "redemptionAmountsPair amount s rate minSplit =
      Inr \<lparr> ra_gross = amount, ra_fee = ?f (leg_long legs) + ?f (leg_short legs),
            ra_net = amount - (?f (leg_long legs) + ?f (leg_short legs)) \<rparr>"
    and A: "\<And>g. 0 \<le> g \<Longrightarrow> redemptionAmounts g rate minSplit =
      Inr \<lparr> ra_gross = g, ra_fee = ?f g, ra_net = g - ?f g \<rparr>"
    using L assms by (simp_all add: redemptionAmountsPair_def redemptionFeePair_def
        redemptionAmounts_def redemptionFee_eq)
  show ?thesis
    by (rule that [OF L(1) P A [OF L(2)] A [OF L(3)]]) (use L fs in simp_all)
qed

subsection \<open>What a redemption promises\<close>

text \<open>
  The redemption fee: it is refused outside the domain of the rate, otherwise it is either
  waived or the ceiling of the rate, it is never more than the gross, and it never leaves a net
  payout below the minimum split; a gross below the minimum split is free.\<close>

theorem redemption_fee_contract:
  "(case redemptionAmounts gross rate minSplit of
      Inl e \<Rightarrow> gross < 0 \<or> minSplit < 0 \<or> \<not> rate_ok rate
    | Inr r \<Rightarrow> ra_net r = ra_gross r - ra_fee r \<and> ra_gross r = gross \<and> 0 \<le> ra_fee r \<and> 0 \<le> ra_net r \<and>
        (ra_fee r = 0 \<or> minSplit \<le> ra_net r \<and> gross * rate \<le> ra_fee r * PERBILL_ONE
           \<and> (ra_fee r - 1) * PERBILL_ONE < gross * rate) \<and>
        (gross < minSplit \<longrightarrow> ra_fee r = 0))"
proof (cases "0 \<le> gross \<and> 0 \<le> minSplit \<and> rate_ok rate")
  case False
  then have "\<nexists>x. redemptionFee gross rate minSplit = Inr x" by (auto simp: redemptionFee_eq_Inr_iff)
  then obtain e where "redemptionFee gross rate minSplit = Inl e"
    by (cases "redemptionFee gross rate minSplit") auto
  then show ?thesis using False by (auto simp: redemptionAmounts_def)
next
  case True
  define p where "p = (rate, minSplit)"
  have ok: "(\<lambda>(rate, minSplit). rate_ok rate) p" using True by (simp add: p_def)
  have f: "fee_of rate minSplit gross = 0 \<or>
      fee_of rate minSplit gross = ceil_div (gross * rate) PERBILL_ONE"
    by (simp add: fee_of_def Let_def)
  have "0 < PERBILL_ONE" by (simp add: PERBILL_ONE_def)
  note c = ceil_div_eq_iff [OF this, of "gross * rate" "ceil_div (gross * rate) PERBILL_ONE"]
  show ?thesis
    using True f c rf.net_bounds [OF ok, of gross] rf.fee_nonneg [OF ok, of gross]
      rf.waived_or_above [OF ok, of gross] rf.small_gross_free [OF ok, of gross]
    by (auto simp: redemptionAmounts_def redemptionFee_eq p_def)
qed

theorem redemption_fee_contract_witness:
  "ra_net \<lparr> ra_gross = 10000, ra_fee = 0, ra_net = 10000 \<rparr> = 10000 \<and>
   (\<exists>r. redemptionAmounts 10000 3000000 10000 = Inr r \<and> ra_gross r = 10000 \<and> 0 \<le> ra_net r)"
proof -
  have "rate_ok 3000000" by (simp add: rate_ok_def PERBILL_ONE_def)
  then obtain r where "redemptionAmounts 10000 3000000 10000 = Inr r"
    by (simp add: redemptionAmounts_def redemptionFee_eq)
  then show ?thesis using redemption_fee_contract [where gross = 10000 and rate = 3000000 and minSplit = 10000] by simp
qed

text \<open>
  A pair pays exactly what its two legs would be charged, nets at least as much as redeeming the
  legs one by one and at most one base unit more, and never a negative amount.\<close>

theorem pair_no_worse_than_legs:
  assumes "0 \<le> amount" "0 \<le> s" "s \<le> SCORE_ONE_1E9" "rate_ok rate" "0 \<le> minSplit"
  shows "\<exists>legs pair ll ls. pairLegs amount s = Inr legs \<and>
    redemptionAmountsPair amount s rate minSplit = Inr pair \<and>
    redemptionAmounts (leg_long legs) rate minSplit = Inr ll \<and>
    redemptionAmounts (leg_short legs) rate minSplit = Inr ls \<and>
    ra_fee pair = ra_fee ll + ra_fee ls \<and> ra_net ll + ra_net ls \<le> ra_net pair \<and>
    ra_net pair \<le> ra_net ll + ra_net ls + 1 \<and> 0 \<le> ra_net pair \<and> ra_net pair = amount - ra_fee pair"
  using redemptionFeePair_vs_legs [OF assms] by metis

theorem pair_no_worse_than_legs_witness:
  "\<exists>legs pair ll ls. pairLegs 20000 700050000 = Inr legs \<and>
    redemptionAmountsPair 20000 700050000 3000000 10000 = Inr pair \<and>
    redemptionAmounts (leg_long legs) 3000000 10000 = Inr ll \<and>
    redemptionAmounts (leg_short legs) 3000000 10000 = Inr ls \<and>
    ra_fee pair = ra_fee ll + ra_fee ls \<and> ra_net ll + ra_net ls \<le> ra_net pair \<and>
    ra_net pair \<le> ra_net ll + ra_net ls + 1 \<and> 0 \<le> ra_net pair \<and> ra_net pair = 20000 - ra_fee pair"
  by (rule pair_no_worse_than_legs) (simp_all add: SCORE_ONE_1E9_def PRICE_ONE_1E9_def rate_ok_def PERBILL_ONE_def)

text \<open>C21
  The threshold search always returns: nothing when no gross up to the ceiling is charged, and
  otherwise the one gross below which every gross is free and from which every gross, even past
  the ceiling, is charged.\<close>

theorem first_charged_gross:
  assumes "rate_ok rate" "0 \<le> minSplit" "0 \<le> searchCeiling"
  shows "firstChargedGross rate minSplit searchCeiling = Inr None \<and>
        (\<forall>g. 0 \<le> g \<and> g \<le> searchCeiling \<longrightarrow> redemptionFee g rate minSplit = Inr 0)
    \<or> (\<exists>c. firstChargedGross rate minSplit searchCeiling = Inr (Some c) \<and> 0 < c \<and> c \<le> searchCeiling \<and>
        (\<forall>g. 0 \<le> g \<longrightarrow> (redemptionFee g rate minSplit = Inr 0) = (g < c)))"
  by (rule firstChargedGross_correct [OF assms])

lemma sample_search: "firstChargedGross 3000000 10000 20000 = Inr (Some 10031)"
  by code_simp

theorem first_charged_gross_witness:
  "(redemptionFee 10030 3000000 10000 = Inr 0) = ((10030 :: int) < 10031) \<and>
   (redemptionFee 10031 3000000 10000 = Inr 0) = ((10031 :: int) < 10031)"
  using first_charged_gross [of 3000000 10000 20000]
  by (simp add: sample_search rate_ok_def PERBILL_ONE_def)

end
