(* ===== verification/Twap.thy ===== *)
theory Twap imports Lmsr "HOL-Library.Signed_Division" begin

text \<open>
  The slew-capped TWAP accumulator of \<open>app/packages/protocol/src/twap.ts\<close>: saturating
  multiplication and powers on the 1e9 grid, the admitted band, one observation, the mean
  between two checkpoints and the staleness of a window. The two power loops differ only in
  their multiplication, and are one loop applied to two multiplications;
  the locale \<open>grid_power\<close> relates the loop to the exact power for any rounded
  multiplication, and is interpreted for the flooring and for the ceiling one.
\<close>

definition WIDENING_CAP :: int where
  "WIDENING_CAP = PRICE_ONE_1E9 * PRICE_ONE_1E9"

definition U256_MAX :: int where
  "U256_MAX = 2 ^ 256 - 1"

record observation_params =
  obsIntervalBlocks :: int
  kappa1e9 :: int
  staleGapBlocks :: int

record observation_state =
  lastQuote1e9 :: int
  lastObservation1e9 :: int
  lastObservedBlock :: int
  cumulativePriceBlocks :: int
  staleEvents :: int

record observation_outcome =
  oo_recorded :: "int option"
  oo_state :: observation_state

definition mul1e9 :: "int \<Rightarrow> int \<Rightarrow> int" where
  "mul1e9 a b =
     (let value = (a * b) sdiv PRICE_ONE_1E9 in if value > U64_MAX then U64_MAX else value)"

definition mul1e9Up :: "int \<Rightarrow> int \<Rightarrow> int" where
  "mul1e9Up a b =
     (let product = a * b;
          value = product sdiv PRICE_ONE_1E9 + (if product smod PRICE_ONE_1E9 = 0 then 0 else 1)
      in if value > U64_MAX then U64_MAX else value)"

function pow_loop :: "(int \<Rightarrow> int \<Rightarrow> int) \<Rightarrow> int \<Rightarrow> int \<Rightarrow> int \<Rightarrow> int" where
  "pow_loop mulf result factor remaining =
     (if remaining > 0 then
        let result' = (if remaining mod 2 = 1 then min (mulf result factor) WIDENING_CAP else result);
            remaining' = remaining div 2;
            factor' = (if remaining' > 0 then min (mulf factor factor) WIDENING_CAP else factor)
        in pow_loop mulf result' factor' remaining'
      else result)"
  by pat_completeness auto

termination
  by (relation "measure (\<lambda>(_, _, _, remaining). nat remaining)") auto

declare pow_loop.simps [simp del]

definition pow1e9 :: "int \<Rightarrow> int \<Rightarrow> int" where
  "pow1e9 bs exponent = pow_loop mul1e9 PRICE_ONE_1E9 (min bs WIDENING_CAP) exponent"

definition pow1e9Up :: "int \<Rightarrow> int \<Rightarrow> int" where
  "pow1e9Up bs exponent = pow_loop mul1e9Up PRICE_ONE_1E9 (min bs WIDENING_CAP) exponent"

definition intervalsElapsed :: "int \<Rightarrow> int \<Rightarrow> int outcome" where
  "intervalsElapsed elapsedBlocks interval =
     (if interval \<le> 0 then Inl (fixedFault DivisionByZero)
      else let whole = elapsedBlocks sdiv interval in Inr (if whole > 1 then whole else 1))"

definition slewBounds :: "int \<Rightarrow> int \<Rightarrow> int \<Rightarrow> (int \<times> int) outcome" where
  "slewBounds obs0 kappa intervals =
     (if kappa > PRICE_ONE_1E9 then Inl (fixedFault Domain)
      else Inr (mul1e9Up obs0 (pow1e9Up (PRICE_ONE_1E9 - kappa) intervals),
                mul1e9 obs0 (pow1e9 (PRICE_ONE_1E9 + kappa) intervals)))"

definition observe ::
  "observation_state \<Rightarrow> observation_params \<Rightarrow> int \<Rightarrow> observation_outcome outcome" where
  "observe st params block =
     (if obsIntervalBlocks params \<le> 0 then Inl (fixedFault DivisionByZero)
      else if block < lastObservedBlock st + obsIntervalBlocks params
      then Inr \<lparr> oo_recorded = None, oo_state = st \<rparr>
      else
        let elapsed = block - lastObservedBlock st;
            stale = (if elapsed > staleGapBlocks params then staleEvents st + 1 else staleEvents st)
        in rbind (intervalsElapsed elapsed (obsIntervalBlocks params)) (\<lambda>intervals.
           rbind (slewBounds (lastObservation1e9 st) (kappa1e9 params) intervals) (\<lambda>(low, high).
             let capped = (if lastQuote1e9 st < low then low
                           else if lastQuote1e9 st > high then high else lastQuote1e9 st);
                 cumulative = cumulativePriceBlocks st + capped * elapsed
             in if cumulative > U256_MAX then Inl (fixedFault Overflow)
                else Inr \<lparr> oo_recorded = Some capped,
                           oo_state = \<lparr> lastQuote1e9 = lastQuote1e9 st, lastObservation1e9 = capped,
                             lastObservedBlock = block, cumulativePriceBlocks = cumulative,
                             staleEvents = stale \<rparr> \<rparr>)))"

definition twapBetween :: "int \<Rightarrow> int \<Rightarrow> int \<Rightarrow> int outcome" where
  "twapBetween cumulativeAtStart cumulativeAtEnd blocks =
     (if blocks \<le> 0 then Inl (fixedFault DivisionByZero)
      else if cumulativeAtEnd < cumulativeAtStart then Inl (fixedFault Domain)
      else let mean = (cumulativeAtEnd - cumulativeAtStart) div blocks
           in if mean > U64_MAX then Inl (fixedFault Overflow) else Inr mean)"

definition isStaleGap :: "int \<Rightarrow> int \<Rightarrow> int \<Rightarrow> bool" where
  "isStaleGap from_b to_b gap = ((if to_b > from_b then to_b - from_b else 0) > gap)"

fun windowStale_loop :: "int \<Rightarrow> int \<Rightarrow> int \<Rightarrow> int list \<Rightarrow> int \<Rightarrow> int \<Rightarrow> int \<times> int" where
  "windowStale_loop start_b end_b gap [] events previous = (events, previous)"
| "windowStale_loop start_b end_b gap (observed # rest) events previous =
     (if observed \<le> start_b \<or> observed > end_b then windowStale_loop start_b end_b gap rest events previous
      else if observed \<le> previous then windowStale_loop start_b end_b gap rest events previous
      else windowStale_loop start_b end_b gap rest
             (if isStaleGap previous observed gap then events + 1 else events) observed)"

definition windowStaleEvents :: "int \<Rightarrow> int \<Rightarrow> int list \<Rightarrow> int \<Rightarrow> int" where
  "windowStaleEvents start_b end_b observations gap =
     (if end_b \<le> start_b then 0
      else let (events, previous) = windowStale_loop start_b end_b gap observations 0 start_b
           in if isStaleGap previous end_b gap then events + 1 else events)"

subsection \<open>Multiplication on the grid\<close>

lemma sdiv_nonneg: "0 \<le> a \<Longrightarrow> 0 \<le> b \<Longrightarrow> a sdiv b = a div b" for a b :: int
  by (auto simp: signed_divide_int_def sgn_if)

lemma smod_nonneg: "0 \<le> a \<Longrightarrow> 0 \<le> b \<Longrightarrow> a smod b = a mod b" for a b :: int
  by (cases "a = 0") (simp_all add: signed_modulo_int_def)

lemma grid_pos: "0 < PRICE_ONE_1E9" "PRICE_ONE_1E9 \<le> WIDENING_CAP" "WIDENING_CAP \<le> U64_MAX"
  by (simp_all add: PRICE_ONE_1E9_def WIDENING_CAP_def U64_MAX_def)

lemma mul1e9_eq:
  assumes "0 \<le> a" "0 \<le> b"
  shows "mul1e9 a b = min U64_MAX ((a * b) div PRICE_ONE_1E9)"
  using assms grid_pos(1) by (simp add: mul1e9_def Let_def sdiv_nonneg min_def)

lemma mul1e9Up_eq:
  assumes "0 \<le> a" "0 \<le> b"
  shows "mul1e9Up a b = min U64_MAX (ceil_div (a * b) PRICE_ONE_1E9)"
  using assms grid_pos(1) by (simp add: mul1e9Up_def Let_def sdiv_nonneg smod_nonneg ceil_div_if min_def)

text \<open>
  If a rounded, capped multiplication keeps an invariant and is related to the exact product
  by a relation compatible with multiplication, then so is the loop to the exact power.
\<close>

locale grid_power =
  fixes mulf :: "int \<Rightarrow> int \<Rightarrow> int" and good :: "int \<Rightarrow> bool" and rel :: "real \<Rightarrow> real \<Rightarrow> bool"
  assumes good_nonneg: "good a \<Longrightarrow> 0 \<le> a"
    and good_mul: "good a \<Longrightarrow> good b \<Longrightarrow> good (min (mulf a b) WIDENING_CAP)"
    and rel_mul: "good a \<Longrightarrow> good b \<Longrightarrow>
      rel (real_of_int (min (mulf a b) WIDENING_CAP) / 10 ^ 9) ((a / 10 ^ 9) * (b / 10 ^ 9))"
    and rel_refl: "rel x x"
    and rel_trans: "rel x y \<Longrightarrow> rel y z \<Longrightarrow> rel x z"
    and rel_times: "rel x y \<Longrightarrow> rel u v \<Longrightarrow> 0 \<le> x \<Longrightarrow> 0 \<le> y \<Longrightarrow> 0 \<le> u \<Longrightarrow> 0 \<le> v \<Longrightarrow> rel (x * u) (y * v)"
begin

lemma rel_power: "rel x y \<Longrightarrow> 0 \<le> x \<Longrightarrow> 0 \<le> y \<Longrightarrow> rel (x ^ n) (y ^ n)"
  by (induction n) (simp_all add: rel_refl rel_times)

lemma pow_loop_rel:
  assumes "good result" "good factor"
  shows "good (pow_loop mulf result factor n) \<and>
    rel (pow_loop mulf result factor n / 10 ^ 9) ((result / 10 ^ 9) * (factor / 10 ^ 9) ^ nat n)"
  using assms
proof (induction "nat n" arbitrary: result factor n rule: less_induct)
  case less
  show ?case
  proof (cases "n > 0")
    case False
    then show ?thesis using less.prems by (subst (1 2) pow_loop.simps) (simp add: rel_refl)
  next
    case True
    let ?r = "if n mod 2 = 1 then min (mulf result factor) WIDENING_CAP else result"
    let ?f = "if n div 2 > 0 then min (mulf factor factor) WIDENING_CAP else factor"
    have unf: "pow_loop mulf result factor n = pow_loop mulf ?r ?f (n div 2)"
      using True by (subst pow_loop.simps) (simp add: Let_def)
    have good: "good ?r" "good ?f" using good_mul less.prems by auto
    then have nn: "0 \<le> ?r" "0 \<le> ?f" by (simp_all only: good_nonneg)
    have IH: "good (pow_loop mulf ?r ?f (n div 2))"
        "rel (pow_loop mulf ?r ?f (n div 2) / 10 ^ 9) ((?r / 10 ^ 9) * (?f / 10 ^ 9) ^ nat (n div 2))"
      using less.hyps [OF _ good, of "n div 2"] True by simp_all
    define x y :: real where "x = result / 10 ^ 9" and "y = factor / 10 ^ 9"
    have xy: "0 \<le> x" "0 \<le> y" using less.prems good_nonneg by (simp_all add: x_def y_def)
    have rr: "rel (?r / 10 ^ 9) (x * y ^ nat (n mod 2))"
    proof (cases "n mod 2 = 1")
      case True
      then show ?thesis using rel_mul [OF less.prems] by (simp add: x_def y_def)
    next
      case False
      then have "n mod 2 = 0" by presburger
      then show ?thesis by (simp add: x_def rel_refl)
    qed
    have ff: "rel ((?f / 10 ^ 9) ^ nat (n div 2)) ((y * y) ^ nat (n div 2))"
    proof (cases "n div 2 > 0")
      case True
      then have "rel (?f / 10 ^ 9) (y * y)" using rel_mul [OF less.prems(2,2)] by (simp add: y_def)
      then show ?thesis using nn xy by (intro rel_power) simp_all
    next
      case False
      then have "nat (n div 2) = 0" by simp
      then show ?thesis by (simp only: power_0 rel_refl)
    qed
    have halve: "nat (n mod 2) + 2 * nat (n div 2) = nat n"
    proof -
      have "0 \<le> n mod 2" "0 \<le> n div 2" "n mod 2 + 2 * (n div 2) = n" using True by simp_all
      then show ?thesis by (metis nat_add_distrib nat_mult_distrib nat_numeral mult_nonneg_nonneg zero_le_numeral)
    qed
    have "rel ((?r / 10 ^ 9) * (?f / 10 ^ 9) ^ nat (n div 2))
        ((x * y ^ nat (n mod 2)) * (y * y) ^ nat (n div 2))"
      using rr ff nn xy by (intro rel_times) simp_all
    also have "(x * y ^ nat (n mod 2)) * (y * y) ^ nat (n div 2)
        = x * y ^ (nat (n mod 2) + 2 * nat (n div 2))"
      by (simp add: power_add power_mult power2_eq_square)
    also have "nat (n mod 2) + 2 * nat (n div 2) = nat n"
      by (rule halve)
    finally show ?thesis using IH rel_trans unfolding unf x_def y_def by blast
  qed
qed

end

lemma floor_mul_real:
  assumes "0 \<le> a" "0 \<le> b"
  shows "real_of_int (mul1e9 a b) / 10 ^ 9 \<le> (a / 10 ^ 9) * (b / 10 ^ 9)"
proof -
  have "mul1e9 a b \<le> (a * b) div PRICE_ONE_1E9" by (simp add: mul1e9_eq [OF assms])
  then have "mul1e9 a b * PRICE_ONE_1E9 \<le> a * b"
    by (simp add: le_div_iff_mult_le [OF grid_pos(1)])
  then have "real_of_int (mul1e9 a b * PRICE_ONE_1E9) \<le> real_of_int (a * b)"
    by (rule of_int_le_iff [THEN iffD2])
  then show ?thesis by (simp add: PRICE_ONE_1E9_def field_simps)
qed

lemma ceil_mul_unit:
  assumes "0 \<le> a" "a \<le> U64_MAX" "0 \<le> b" "b \<le> PRICE_ONE_1E9"
  shows "mul1e9Up a b = ceil_div (a * b) PRICE_ONE_1E9" "0 \<le> mul1e9Up a b" "mul1e9Up a b \<le> a"
proof -
  have "a * b \<le> a * PRICE_ONE_1E9" using assms by (intro mult_left_mono) simp_all
  then have le: "ceil_div (a * b) PRICE_ONE_1E9 \<le> a"
    by (simp only: ceil_div_le_iff [OF grid_pos(1)])
  then show eq: "mul1e9Up a b = ceil_div (a * b) PRICE_ONE_1E9"
    using assms by (simp add: mul1e9Up_eq)
  show "mul1e9Up a b \<le> a" using le eq by simp
  show "0 \<le> mul1e9Up a b" unfolding eq using assms grid_pos(1) by (intro ceil_div_nonneg) simp_all
qed

lemma ceil_mul_real:
  assumes "0 \<le> a" "a \<le> U64_MAX" "0 \<le> b" "b \<le> PRICE_ONE_1E9"
  shows "(a / 10 ^ 9) * (b / 10 ^ 9) \<le> real_of_int (mul1e9Up a b) / 10 ^ 9"
proof -
  have "a * b \<le> mul1e9Up a b * PRICE_ONE_1E9"
    unfolding ceil_mul_unit(1) [OF assms] by (simp flip: ceil_div_le_iff [OF grid_pos(1)])
  then have "real_of_int (a * b) \<le> real_of_int (mul1e9Up a b * PRICE_ONE_1E9)"
    by (rule of_int_le_iff [THEN iffD2])
  then show ?thesis by (simp add: PRICE_ONE_1E9_def field_simps)
qed

lemma floor_mul_ge:
  assumes "0 \<le> a" "a \<le> U64_MAX" "PRICE_ONE_1E9 \<le> b"
  shows "a \<le> mul1e9 a b"
proof -
  have "a * PRICE_ONE_1E9 \<le> a * b" using assms by (intro mult_left_mono) simp_all
  then have "a \<le> (a * b) div PRICE_ONE_1E9" by (simp only: le_div_iff_mult_le [OF grid_pos(1)])
  then show ?thesis using assms grid_pos by (simp add: mul1e9_eq)
qed

interpretation lower_pow: grid_power mul1e9Up "\<lambda>a. 0 \<le> a \<and> a \<le> PRICE_ONE_1E9" "\<lambda>x y. y \<le> x"
proof unfold_locales
  fix a b assume "0 \<le> a \<and> a \<le> PRICE_ONE_1E9" "0 \<le> b \<and> b \<le> PRICE_ONE_1E9"
  then have ab: "0 \<le> a" "a \<le> U64_MAX" "0 \<le> b" "b \<le> PRICE_ONE_1E9" "a \<le> PRICE_ONE_1E9"
    using grid_pos by simp_all
  have m: "min (mul1e9Up a b) WIDENING_CAP = mul1e9Up a b"
    using ceil_mul_unit(3) [OF ab(1-4)] ab(5) grid_pos by simp
  show "0 \<le> min (mul1e9Up a b) WIDENING_CAP \<and> min (mul1e9Up a b) WIDENING_CAP \<le> PRICE_ONE_1E9"
    using ceil_mul_unit(2,3) [OF ab(1-4)] ab(5) by (simp add: m)
  show "(a / 10 ^ 9) * (b / 10 ^ 9) \<le> real_of_int (min (mul1e9Up a b) WIDENING_CAP) / 10 ^ 9"
    unfolding m by (rule ceil_mul_real [OF ab(1-4)])
qed (auto intro: mult_mono)

interpretation upper_pow: grid_power mul1e9 "\<lambda>a. PRICE_ONE_1E9 \<le> a \<and> a \<le> WIDENING_CAP" "\<lambda>x y. x \<le> y"
proof unfold_locales
  fix a b assume "PRICE_ONE_1E9 \<le> a \<and> a \<le> WIDENING_CAP" "PRICE_ONE_1E9 \<le> b \<and> b \<le> WIDENING_CAP"
  then have ab: "0 \<le> a" "a \<le> U64_MAX" "PRICE_ONE_1E9 \<le> a" "0 \<le> b" "PRICE_ONE_1E9 \<le> b"
    using grid_pos by simp_all
  show "PRICE_ONE_1E9 \<le> min (mul1e9 a b) WIDENING_CAP \<and> min (mul1e9 a b) WIDENING_CAP \<le> WIDENING_CAP"
    using floor_mul_ge [OF ab(1,2,5)] ab(3) grid_pos by simp
  have "real_of_int (min (mul1e9 a b) WIDENING_CAP) / 10 ^ 9 \<le> mul1e9 a b / 10 ^ 9"
    by (intro divide_right_mono) simp_all
  also have "\<dots> \<le> (a / 10 ^ 9) * (b / 10 ^ 9)" by (rule floor_mul_real [OF ab(1,4)])
  finally show "real_of_int (min (mul1e9 a b) WIDENING_CAP) / 10 ^ 9 \<le> (a / 10 ^ 9) * (b / 10 ^ 9)" .
qed (auto intro: mult_mono simp: PRICE_ONE_1E9_def)

subsection \<open>The admitted band lies inside the exact one\<close>

lemma slewBounds_exact:
  assumes "0 \<le> o1" "o1 \<le> U64_MAX" "0 \<le> kappa" "kappa \<le> PRICE_ONE_1E9" "0 \<le> k"
  obtains low high where "slewBounds o1 kappa k = Inr (low, high)"
    "o1 * (1 - kappa / 10 ^ 9) ^ nat k \<le> real_of_int low" "low \<le> o1" "0 \<le> low"
    "o1 \<le> high" "real_of_int high \<le> o1 * (1 + kappa / 10 ^ 9) ^ nat k"
proof -
  let ?p = "pow1e9Up (PRICE_ONE_1E9 - kappa) k" and ?q = "pow1e9 (PRICE_ONE_1E9 + kappa) k"
  have "2 * PRICE_ONE_1E9 \<le> WIDENING_CAP" by (simp add: PRICE_ONE_1E9_def WIDENING_CAP_def)
  then have caps: "min (PRICE_ONE_1E9 - kappa) WIDENING_CAP = PRICE_ONE_1E9 - kappa"
    "min (PRICE_ONE_1E9 + kappa) WIDENING_CAP = PRICE_ONE_1E9 + kappa"
    "PRICE_ONE_1E9 + kappa \<le> WIDENING_CAP"
    using assms grid_pos by simp_all
  have P: "(0 \<le> ?p \<and> ?p \<le> PRICE_ONE_1E9) \<and>
      (PRICE_ONE_1E9 / 10 ^ 9) * (real_of_int (PRICE_ONE_1E9 - kappa) / 10 ^ 9) ^ nat k \<le> ?p / 10 ^ 9"
    unfolding pow1e9Up_def caps using assms grid_pos
    by (intro lower_pow.pow_loop_rel) simp_all
  have Q: "(PRICE_ONE_1E9 \<le> ?q \<and> ?q \<le> WIDENING_CAP) \<and>
      ?q / 10 ^ 9 \<le> (PRICE_ONE_1E9 / 10 ^ 9) * (real_of_int (PRICE_ONE_1E9 + kappa) / 10 ^ 9) ^ nat k"
    unfolding pow1e9_def caps using assms grid_pos caps
    by (intro upper_pow.pow_loop_rel) simp_all
  have unit: "real_of_int (PRICE_ONE_1E9 - kappa) / 10 ^ 9 = 1 - kappa / 10 ^ 9"
    "real_of_int (PRICE_ONE_1E9 + kappa) / 10 ^ 9 = 1 + kappa / 10 ^ 9"
    "real_of_int PRICE_ONE_1E9 / 10 ^ 9 = 1"
    by (simp_all add: PRICE_ONE_1E9_def field_simps)
  have p: "(1 - kappa / 10 ^ 9) ^ nat k \<le> ?p / 10 ^ 9" and q: "?q / 10 ^ 9 \<le> (1 + kappa / 10 ^ 9) ^ nat k"
    using P Q by (simp_all only: unit mult_1)
  have sl: "slewBounds o1 kappa k = Inr (mul1e9Up o1 ?p, mul1e9 o1 ?q)"
    using assms by (simp add: slewBounds_def)
  have low: "(o1 / 10 ^ 9) * (?p / 10 ^ 9) \<le> real_of_int (mul1e9Up o1 ?p) / 10 ^ 9"
    "0 \<le> mul1e9Up o1 ?p" "mul1e9Up o1 ?p \<le> o1"
    by (rule ceil_mul_real ceil_mul_unit; use assms P in blast)+
  have q0: "0 \<le> ?q" using Q grid_pos(1) by linarith
  have high: "real_of_int (mul1e9 o1 ?q) / 10 ^ 9 \<le> (o1 / 10 ^ 9) * (?q / 10 ^ 9)" "o1 \<le> mul1e9 o1 ?q"
    by (rule floor_mul_real floor_mul_ge; use assms Q q0 in blast)+
  have "o1 * (1 - kappa / 10 ^ 9) ^ nat k \<le> o1 * (?p / 10 ^ 9)"
    using p assms by (intro mult_left_mono) simp_all
  also have "\<dots> \<le> mul1e9Up o1 ?p" using low(1) by (simp add: field_simps)
  finally have L: "o1 * (1 - kappa / 10 ^ 9) ^ nat k \<le> real_of_int (mul1e9Up o1 ?p)" .
  have "real_of_int (mul1e9 o1 ?q) \<le> o1 * (?q / 10 ^ 9)" using high(1) by (simp add: field_simps)
  also have "\<dots> \<le> o1 * (1 + kappa / 10 ^ 9) ^ nat k"
    using q assms by (intro mult_left_mono) simp_all
  finally have H: "real_of_int (mul1e9 o1 ?q) \<le> o1 * (1 + kappa / 10 ^ 9) ^ nat k" .
  show ?thesis by (rule that [OF sl L low(3,2) high(2) H])
qed

subsection \<open>Observations and the mean\<close>

lemma intervalsElapsed_eq:
  assumes "0 < interval" "0 \<le> elapsed"
  shows "intervalsElapsed elapsed interval = Inr (max 1 (elapsed div interval))"
  using assms by (simp add: intervalsElapsed_def Let_def sdiv_nonneg max_def)

lemma observe_early:
  assumes "0 < obsIntervalBlocks params" "block < lastObservedBlock st + obsIntervalBlocks params"
  shows "observe st params block = Inr \<lparr> oo_recorded = None, oo_state = st \<rparr>"
  using assms by (simp add: observe_def)

lemma observe_recorded_E:
  assumes "observe st params block = Inr out" "oo_recorded out = Some v"
  obtains low high where
    "0 < obsIntervalBlocks params" "obsIntervalBlocks params \<le> block - lastObservedBlock st"
    "slewBounds (lastObservation1e9 st) (kappa1e9 params)
       (max 1 ((block - lastObservedBlock st) div obsIntervalBlocks params)) = Inr (low, high)"
    "v = (if lastQuote1e9 st < low then low else if lastQuote1e9 st > high then high else lastQuote1e9 st)"
    "lastObservation1e9 (oo_state out) = v" "lastObservedBlock (oo_state out) = block"
    "cumulativePriceBlocks (oo_state out) = cumulativePriceBlocks st + v * (block - lastObservedBlock st)"
    "cumulativePriceBlocks (oo_state out) \<le> U256_MAX"
    "staleEvents (oo_state out) = staleEvents st +
       (if block - lastObservedBlock st > staleGapBlocks params then 1 else 0)"
proof -
  have p: "0 < obsIntervalBlocks params" "\<not> block < lastObservedBlock st + obsIntervalBlocks params"
    using assms by (auto simp: observe_def split: if_splits)
  then have e: "0 \<le> block - lastObservedBlock st" by simp
  show ?thesis
    using assms p
    by (auto simp: observe_def Let_def intervalsElapsed_eq [OF p(1) e] rbind_eq_Inr_iff
        split: if_splits intro!: that)
qed

text \<open>One observation moves the price by no more than the exact slew envelope.\<close>

lemma observe_within_envelope:
  assumes "observe st params block = Inr out" "oo_recorded out = Some v"
    and "0 \<le> lastObservation1e9 st" "lastObservation1e9 st \<le> U64_MAX" "0 \<le> kappa1e9 params"
  defines "k \<equiv> nat (max 1 ((block - lastObservedBlock st) div obsIntervalBlocks params))"
  shows "lastObservation1e9 st * (1 - kappa1e9 params / 10 ^ 9) ^ k \<le> real_of_int v"
    "real_of_int v \<le> lastObservation1e9 st * (1 + kappa1e9 params / 10 ^ 9) ^ k"
proof -
  let ?o = "lastObservation1e9 st" and ?K = "kappa1e9 params"
  let ?k = "max 1 ((block - lastObservedBlock st) div obsIntervalBlocks params)"
  obtain low high where sl: "slewBounds ?o ?K ?k = Inr (low, high)"
    and v: "v = (if lastQuote1e9 st < low then low else if lastQuote1e9 st > high then high else lastQuote1e9 st)"
    by (rule observe_recorded_E [OF assms(1,2)])
  have "?K \<le> PRICE_ONE_1E9" using sl by (auto simp: slewBounds_def split: if_splits)
  then obtain low' high' where b: "slewBounds ?o ?K ?k = Inr (low', high')"
    "?o * (1 - ?K / 10 ^ 9) ^ nat ?k \<le> real_of_int low'" "low' \<le> ?o" "?o \<le> high'"
    "real_of_int high' \<le> ?o * (1 + ?K / 10 ^ 9) ^ nat ?k"
    using assms(3-5) by (rule_tac slewBounds_exact [of ?o ?K ?k]) auto
  have "low \<le> v" "v \<le> high" using v b(1,3,4) sl by auto
  moreover have "low' = low" "high' = high" using b(1) sl by simp_all
  ultimately show "?o * (1 - ?K / 10 ^ 9) ^ k \<le> real_of_int v"
    "real_of_int v \<le> ?o * (1 + ?K / 10 ^ 9) ^ k"
    using b(2,5) by (simp_all add: k_def)
qed

text \<open>A sequence of cranks: each entry is the quote in force and the block of the attempt.\<close>

fun observe_all ::
  "observation_params \<Rightarrow> observation_state \<Rightarrow> (int \<times> int) list \<Rightarrow> (observation_state \<times> int list) outcome"
where
  "observe_all params st [] = Inr (st, [])"
| "observe_all params st ((quote, block) # rest) =
     rbind (observe (st\<lparr>lastQuote1e9 := quote\<rparr>) params block) (\<lambda>out.
     rbind (observe_all params (oo_state out) rest) (\<lambda>(st', vs).
       Inr (st', (case oo_recorded out of None \<Rightarrow> vs | Some v \<Rightarrow> v # vs))))"

lemma observe_not_recorded:
  assumes "observe st params block = Inr out" "oo_recorded out = None"
  shows "oo_state out = st"
  using assms by (auto simp: observe_def Let_def rbind_eq_Inr_iff split: if_splits)

lemma observe_all_accumulates:
  assumes "observe_all params st cranks = Inr (st', vs)" "\<And>v. v \<in> set vs \<Longrightarrow> lo \<le> v \<and> v \<le> hi"
  shows "lastObservedBlock st \<le> lastObservedBlock st' \<and>
    lo * (lastObservedBlock st' - lastObservedBlock st) \<le> cumulativePriceBlocks st' - cumulativePriceBlocks st \<and>
    cumulativePriceBlocks st' - cumulativePriceBlocks st \<le> hi * (lastObservedBlock st' - lastObservedBlock st)"
  using assms
proof (induction cranks arbitrary: st vs)
  case Nil
  then show ?case by simp
next
  case (Cons c cranks)
  obtain quote block where c: "c = (quote, block)" by (cases c)
  obtain out vs' where out: "observe (st\<lparr>lastQuote1e9 := quote\<rparr>) params block = Inr out"
    and rest: "observe_all params (oo_state out) cranks = Inr (st', vs')"
    and vs: "vs = (case oo_recorded out of None \<Rightarrow> vs' | Some v \<Rightarrow> v # vs')"
    using Cons.prems(1) by (auto simp: c rbind_eq_Inr_iff)
  have IH: "lastObservedBlock (oo_state out) \<le> lastObservedBlock st' \<and>
    lo * (lastObservedBlock st' - lastObservedBlock (oo_state out)) \<le> cumulativePriceBlocks st' - cumulativePriceBlocks (oo_state out) \<and>
    cumulativePriceBlocks st' - cumulativePriceBlocks (oo_state out) \<le> hi * (lastObservedBlock st' - lastObservedBlock (oo_state out))"
    by (rule Cons.IH [OF rest]) (use Cons.prems(2) vs in \<open>auto split: option.splits\<close>)
  show ?case
  proof (cases "oo_recorded out")
    case None
    then show ?thesis using IH observe_not_recorded [OF out] by simp
  next
    case (Some v)
    have v: "lo \<le> v" "v \<le> hi" using Cons.prems(2) vs Some by auto
    obtain e: "0 < obsIntervalBlocks params" "obsIntervalBlocks params \<le> block - lastObservedBlock st"
      "lastObservedBlock (oo_state out) = block"
      "cumulativePriceBlocks (oo_state out) = cumulativePriceBlocks st + v * (block - lastObservedBlock st)"
      by (rule observe_recorded_E [OF out Some]) simp
    let ?d = "block - lastObservedBlock st"
    have "lo * ?d \<le> v * ?d" "v * ?d \<le> hi * ?d" using v e(1,2) by (simp_all add: mult_right_mono)
    then show ?thesis using IH e by (simp add: algebra_simps)
  qed
qed

lemma twapBetween_eq_Inr_iff [result_simps]:
  "twapBetween a b n = Inr m \<longleftrightarrow> 0 < n \<and> a \<le> b \<and> m = (b - a) div n \<and> m \<le> U64_MAX"
  by (auto simp: twapBetween_def Let_def)

lemma twap_within_observations:
  assumes "observe_all params st cranks = Inr (st', vs)" "\<And>v. v \<in> set vs \<Longrightarrow> lo \<le> v \<and> v \<le> hi"
    and "0 \<le> lo" "hi \<le> U64_MAX" "lastObservedBlock st < lastObservedBlock st'"
  obtains m where "twapBetween (cumulativePriceBlocks st) (cumulativePriceBlocks st')
      (lastObservedBlock st' - lastObservedBlock st) = Inr m" "lo \<le> m" "m \<le> hi"
proof -
  let ?n = "lastObservedBlock st' - lastObservedBlock st"
  let ?A = "cumulativePriceBlocks st' - cumulativePriceBlocks st"
  have n: "0 < ?n" using assms(5) by simp
  have acc: "lo * ?n \<le> ?A" "?A \<le> hi * ?n"
    using observe_all_accumulates [OF assms(1,2)] by simp_all
  have "0 \<le> lo * ?n" using assms(3) n by simp
  then have A: "0 \<le> ?A" using acc(1) by linarith
  have lo: "lo \<le> ?A div ?n" using acc(1) by (simp add: le_div_iff_mult_le [OF n])
  have "?A < (hi + 1) * ?n" using acc(2) n by (simp add: distrib_right)
  then have hi: "?A div ?n \<le> hi" by (simp flip: div_less_iff_less_mult_int [OF n])
  show ?thesis
    by (rule that [OF _ lo hi]) (use n A hi assms(4) in \<open>simp add: twapBetween_eq_Inr_iff\<close>)
qed

subsection \<open>Staleness of a window\<close>

text \<open>
  Every stretch of \<open>gap\<close> blocks that starts inside the window and ends before it closes
  holds an observation.
\<close>

definition covered :: "int \<Rightarrow> int \<Rightarrow> int \<Rightarrow> int list \<Rightarrow> bool" where
  "covered start_b end_b gap obs \<longleftrightarrow>
     (\<forall>x. start_b \<le> x \<and> x + gap < end_b \<longrightarrow> (\<exists>y \<in> set obs. x < y \<and> y \<le> x + gap))"

lemma covered_skip: "y \<le> p \<or> end_b < y \<Longrightarrow> covered p end_b gap (y # obs) = covered p end_b gap obs"
  unfolding covered_def by (rule all_cong) (simp; linarith)

lemma not_covered:
  assumes "p + gap < y" "sorted (y # obs)" "p + gap < end_b"
  shows "\<not> covered p end_b gap (y # obs)"
  unfolding covered_def using assms by (intro notI) (drule spec [of _ p], force)

lemma covered_advance:
  assumes "p < y" "y \<le> p + gap"
  shows "covered p end_b gap (y # obs) = covered y end_b gap obs"
proof
  assume p: "covered p end_b gap (y # obs)"
  show "covered y end_b gap obs"
    unfolding covered_def
  proof (intro allI impI)
    fix x assume x: "y \<le> x \<and> x + gap < end_b"
    then obtain z where "z \<in> set (y # obs)" "x < z" "z \<le> x + gap"
      using p assms unfolding covered_def by (meson order_trans less_imp_le)
    then show "\<exists>z \<in> set obs. x < z \<and> z \<le> x + gap" using x by auto
  qed
next
  assume y: "covered y end_b gap obs"
  show "covered p end_b gap (y # obs)"
    unfolding covered_def
  proof (intro allI impI)
    fix x assume x: "p \<le> x \<and> x + gap < end_b"
    show "\<exists>z \<in> set (y # obs). x < z \<and> z \<le> x + gap"
    proof (cases "y \<le> x")
      case True then show ?thesis using x y unfolding covered_def by auto
    next
      case False then show ?thesis using x assms by auto
    qed
  qed
qed

lemma covered_Nil: "0 \<le> gap \<Longrightarrow> covered p end_b gap [] \<longleftrightarrow> end_b \<le> p + gap"
  unfolding covered_def by (auto dest: spec [of _ p])

definition window_total :: "int \<Rightarrow> int \<Rightarrow> int \<times> int \<Rightarrow> int" where
  "window_total end_b gap r = fst r + (if isStaleGap (snd r) end_b gap then 1 else 0)"

lemma window_total_ge:
  "events \<le> window_total end_b gap (windowStale_loop start_b end_b gap obs events p)"
proof (induction obs arbitrary: events p)
  case Nil then show ?case by (simp add: window_total_def)
next
  case (Cons y obs)
  from Cons [of events p] Cons [of events y] Cons [of "events + 1" y] show ?case by simp
qed

lemma windowStale_loop_correct:
  assumes "sorted obs" "start_b \<le> p" "p \<le> end_b" "0 \<le> gap"
  shows "window_total end_b gap (windowStale_loop start_b end_b gap obs events p) = events \<longleftrightarrow>
    covered p end_b gap obs"
  using assms
proof (induction obs arbitrary: p)
  case Nil
  then show ?case by (auto simp: window_total_def isStaleGap_def covered_Nil)
next
  case (Cons y obs)
  show ?case
  proof (cases "y \<le> p \<or> end_b < y")
    case True
    then have "windowStale_loop start_b end_b gap (y # obs) events p = windowStale_loop start_b end_b gap obs events p"
      by auto
    then show ?thesis using Cons True by (simp only: covered_skip sorted_simps)
  next
    case False
    then have in_w: "start_b < y" "y \<le> end_b" "p < y" using Cons.prems by auto
    let ?e = "if isStaleGap p y gap then events + 1 else events"
    have step: "windowStale_loop start_b end_b gap (y # obs) events p = windowStale_loop start_b end_b gap obs ?e y"
      using in_w by simp
    show ?thesis
    proof (cases "isStaleGap p y gap")
      case stale: True
      then have "p + gap < y" "p + gap < end_b" using in_w by (auto simp: isStaleGap_def)
      then have "\<not> covered p end_b gap (y # obs)" using Cons.prems(1) by (intro not_covered)
      moreover have "events < window_total end_b gap (windowStale_loop start_b end_b gap (y # obs) events p)"
        unfolding step using stale window_total_ge [of "events + 1" end_b gap start_b obs y] by simp
      ultimately show ?thesis by simp
    next
      case fresh: False
      then have "y \<le> p + gap" using in_w by (auto simp: isStaleGap_def)
      then show ?thesis
        unfolding step using fresh in_w Cons.IH [of y] Cons.prems by (simp add: covered_advance)
    qed
  qed
qed

lemma windowStaleEvents_zero_iff:
  assumes "sorted obs" "0 \<le> gap" "start_b < end_b"
  shows "windowStaleEvents start_b end_b obs gap = 0 \<longleftrightarrow> covered start_b end_b gap obs"
proof -
  have "windowStaleEvents start_b end_b obs gap =
      window_total end_b gap (windowStale_loop start_b end_b gap obs 0 start_b)"
    using assms(3) by (simp add: windowStaleEvents_def window_total_def split: prod.splits)
  then show ?thesis using windowStale_loop_correct [of obs start_b start_b end_b gap 0] assms by simp
qed

lemma windowStale_loop_clip:
  "windowStale_loop start_b end_b gap (filter (\<lambda>y. start_b < y \<and> y \<le> end_b) obs) events p
   = windowStale_loop start_b end_b gap obs events p"
  by (induction obs arbitrary: events p) auto

lemma windowStaleEvents_clip:
  "windowStaleEvents start_b end_b (filter (\<lambda>y. start_b < y \<and> y \<le> end_b) obs) gap =
   windowStaleEvents start_b end_b obs gap"
  by (simp add: windowStaleEvents_def windowStale_loop_clip)

subsection \<open>What the accumulator promises\<close>

text \<open>
  The computed band lies inside the exact real envelope \<open>[o (1 - kappa)^k, o (1 + kappa)^k]\<close>
  and always contains the last observation.\<close>

theorem slew_band_inward:
  assumes "0 \<le> o1" "o1 \<le> U64_MAX" "0 \<le> kappa" "kappa \<le> PRICE_ONE_1E9" "0 \<le> k"
  shows "\<exists>low high. slewBounds o1 kappa k = Inr (low, high) \<and>
    o1 * (1 - kappa / 10 ^ 9) ^ nat k \<le> real_of_int low \<and> 0 \<le> low \<and> low \<le> o1 \<and>
    o1 \<le> high \<and> real_of_int high \<le> o1 * (1 + kappa / 10 ^ 9) ^ nat k"
  using slewBounds_exact [OF assms] by metis

theorem slew_band_inward_witness:
  "\<exists>low high. slewBounds 500000000 5000000 3 = Inr (low, high) \<and>
    real_of_int 500000000 * (1 - real_of_int 5000000 / 10 ^ 9) ^ nat 3 \<le> real_of_int low \<and> 0 \<le> low \<and>
    low \<le> 500000000 \<and> 500000000 \<le> high \<and>
    real_of_int high \<le> real_of_int 500000000 * (1 + real_of_int 5000000 / 10 ^ 9) ^ nat 3"
  by (rule slew_band_inward) (simp_all add: U64_MAX_def PRICE_ONE_1E9_def)

text \<open>
  An observation attempt before the interval has elapsed changes nothing; a recorded one is
  stamped with its block, is weighted by the blocks since the last one, counts a stale event
  exactly when the gap is strictly longer than the threshold, and has moved no further from the
  last observation than the slew cap allows for the whole intervals elapsed.\<close>

theorem observe_step:
  assumes "observe st params block = Inr out"
    and "0 \<le> lastObservation1e9 st" "lastObservation1e9 st \<le> U64_MAX" "0 \<le> kappa1e9 params"
  shows "(case oo_recorded out of
      None \<Rightarrow> block < lastObservedBlock st + obsIntervalBlocks params \<and> oo_state out = st
    | Some v \<Rightarrow>
        let elapsed = block - lastObservedBlock st; k = nat (max 1 (elapsed div obsIntervalBlocks params))
        in obsIntervalBlocks params \<le> elapsed \<and> oo_state out = st\<lparr> lastObservation1e9 := v,
             lastObservedBlock := block,
             cumulativePriceBlocks := cumulativePriceBlocks st + v * elapsed,
             staleEvents := staleEvents st + (if elapsed > staleGapBlocks params then 1 else 0) \<rparr> \<and>
           lastObservation1e9 st * (1 - kappa1e9 params / 10 ^ 9) ^ k \<le> real_of_int v \<and>
           real_of_int v \<le> lastObservation1e9 st * (1 + kappa1e9 params / 10 ^ 9) ^ k)"
proof (cases "oo_recorded out")
  case None
  have "block < lastObservedBlock st + obsIntervalBlocks params"
    using assms(1) None by (auto simp: observe_def Let_def rbind_eq_Inr_iff split: if_splits)
  then show ?thesis using None observe_not_recorded [OF assms(1) None] by simp
next
  case (Some v)
  obtain e: "obsIntervalBlocks params \<le> block - lastObservedBlock st"
    "lastObservation1e9 (oo_state out) = v" "lastObservedBlock (oo_state out) = block"
    "cumulativePriceBlocks (oo_state out) = cumulativePriceBlocks st + v * (block - lastObservedBlock st)"
    "staleEvents (oo_state out) = staleEvents st +
       (if block - lastObservedBlock st > staleGapBlocks params then 1 else 0)"
    by (rule observe_recorded_E [OF assms(1) Some]) simp
  moreover have "lastQuote1e9 (oo_state out) = lastQuote1e9 st"
    using assms(1) by (auto simp: observe_def Let_def rbind_eq_Inr_iff split: if_splits)
  ultimately have "oo_state out = st\<lparr> lastObservation1e9 := v, lastObservedBlock := block,
      cumulativePriceBlocks := cumulativePriceBlocks st + v * (block - lastObservedBlock st),
      staleEvents := staleEvents st + (if block - lastObservedBlock st > staleGapBlocks params then 1 else 0) \<rparr>"
    by (simp add: observation_state.equality)
  then show ?thesis
    using Some e(1) observe_within_envelope [OF assms(1) Some assms(2-4)] by (simp add: Let_def)
qed

definition sample_params :: observation_params where
  "sample_params = \<lparr> obsIntervalBlocks = 10, kappa1e9 = 5000000, staleGapBlocks = 50 \<rparr>"

definition sample_state :: observation_state where
  "sample_state = \<lparr> lastQuote1e9 = 500000000, lastObservation1e9 = 500000000, lastObservedBlock = 100,
     cumulativePriceBlocks = 0, staleEvents = 0 \<rparr>"

lemma sample_observation:
  "observe (sample_state\<lparr> lastQuote1e9 := 600000000 \<rparr>) sample_params 110 = Inr \<lparr> oo_recorded = Some 502500000,
     oo_state = \<lparr> lastQuote1e9 = 600000000, lastObservation1e9 = 502500000, lastObservedBlock = 110,
       cumulativePriceBlocks = 5025000000, staleEvents = 0 \<rparr> \<rparr>"
  by code_simp

theorem observe_step_witness:
  "real_of_int 500000000 * (1 - real_of_int 5000000 / 10 ^ 9) ^ 1 \<le> real_of_int 502500000 \<and>
   real_of_int 502500000 \<le> real_of_int 500000000 * (1 + real_of_int 5000000 / 10 ^ 9) ^ 1"
  using observe_step [OF sample_observation] by (simp add: sample_state_def sample_params_def U64_MAX_def)

text \<open>C22
  The mean of a run of cranks: whenever the last recorded block has advanced, the TWAP between
  the two checkpoints is defined and lies between the least and the greatest recorded
  observation.\<close>

theorem twap_is_a_mean:
  assumes "observe_all params st cranks = Inr (st', vs)" "\<forall>v \<in> set vs. lo \<le> v \<and> v \<le> hi"
    and "0 \<le> lo" "hi \<le> U64_MAX" "lastObservedBlock st < lastObservedBlock st'"
  shows "\<exists>m. twapBetween (cumulativePriceBlocks st) (cumulativePriceBlocks st')
      (lastObservedBlock st' - lastObservedBlock st) = Inr m \<and> lo \<le> m \<and> m \<le> hi"
  using twap_within_observations [OF assms(1) _ assms(3-5)] assms(2) by metis

lemma sample_cranks:
  "observe_all sample_params sample_state [(600000000, 110), (600000000, 115)] =
     Inr (\<lparr> lastQuote1e9 = 600000000, lastObservation1e9 = 502500000, lastObservedBlock = 110,
       cumulativePriceBlocks = 5025000000, staleEvents = 0 \<rparr>, [502500000])"
  using sample_observation by (simp add: observe_early sample_params_def)

theorem twap_is_a_mean_witness:
  "\<exists>m. twapBetween 0 5025000000 10 = Inr m \<and> 500000000 \<le> m \<and> m \<le> 502500000"
  using twap_is_a_mean [OF sample_cranks, of 500000000 502500000]
  by (simp add: sample_state_def U64_MAX_def)

text \<open>
  A window has no stale event exactly when every stretch of \<open>gap\<close> blocks that begins in it and
  ends before it closes holds an observation, the closing stretch included; observations
  outside the window change nothing.\<close>

theorem window_fresh_iff_covered:
  assumes "sorted obs" "0 \<le> gap" "start_b < end_b"
  shows "(windowStaleEvents start_b end_b obs gap = 0) = covered start_b end_b gap obs \<and>
    windowStaleEvents start_b end_b (filter (\<lambda>y. start_b < y \<and> y \<le> end_b) obs) gap =
      windowStaleEvents start_b end_b obs gap"
  using windowStaleEvents_zero_iff [OF assms] windowStaleEvents_clip by blast

theorem window_fresh_iff_covered_witness:
  "\<not> covered 100 300 50 [90, 110, 150, 200, 290]"
  using window_fresh_iff_covered [of "[90, 110, 150, 200, 290]" 50 100 300]
  by (simp add: windowStaleEvents_def isStaleGap_def)

end
