(* ===== verification/Js_Number.thy ===== *)
theory Js_Number imports Bleavit_Prelude begin

text \<open>
  JavaScript numbers. A finite double is a rational; \<open>fl\<close> rounds an exact rational result
  to the nearest double (53 significant bits, ties to even), which is what every JavaScript
  arithmetic operator does to its exact result. The exponent range is not modelled: overflow to
  an infinity and subnormal loss lie outside the magnitudes the modelled code computes with.
  A value that arrives from outside may also be a NaN or an infinity; the modelled code refuses
  those with \<open>Number.isFinite\<close> or \<open>Number.isSafeInteger\<close> before it computes.
\<close>

subsection \<open>Rounding to 53 bits\<close>

definition pow2 :: "int \<Rightarrow> rat" where
  "pow2 e = (if e \<ge> 0 then 2 ^ nat e else 1 / 2 ^ nat (- e))"

fun bits_loop :: "nat \<Rightarrow> int \<Rightarrow> int" where
  "bits_loop 0 n = 0"
| "bits_loop (Suc f) n = (if n \<le> 1 then 0 else 1 + bits_loop f (n div 2))"

definition int_log2 :: "int \<Rightarrow> int" where
  "int_log2 n = bits_loop (nat n) n"

text \<open>The binary exponent of a positive rational.\<close>

definition rat_log2 :: "rat \<Rightarrow> int" where
  "rat_log2 x = (let (n, d) = quotient_of x; e = int_log2 n - int_log2 d
                 in if pow2 e \<le> x then e else e - 1)"

definition round_half_even :: "rat \<Rightarrow> int" where
  "round_half_even m =
     (let f = \<lfloor>m\<rfloor>; d = m - of_int f
      in if d < 1 / 2 then f else if d > 1 / 2 then f + 1 else if even f then f else f + 1)"

definition fl_pos :: "rat \<Rightarrow> rat" where
  "fl_pos x = (let u = pow2 (rat_log2 x - 52) in of_int (round_half_even (x / u)) * u)"

definition fl :: "rat \<Rightarrow> rat" where
  "fl x = (if x = 0 then 0 else if x > 0 then fl_pos x else - fl_pos (- x))"

lemma pow2_pos [simp]: "0 < pow2 e"
  by (simp add: pow2_def)

lemma pow2_nonneg [simp]: "0 \<le> pow2 e" "pow2 e \<noteq> 0"
  using pow2_pos [of e] by linarith+

lemma pow2_powi: "pow2 e = 2 powi e"
  by (simp add: pow2_def power_int_def inverse_eq_divide power_divide)

lemma pow2_add: "pow2 (a + b) = pow2 a * pow2 b"
  by (simp add: pow2_powi power_int_add)

lemma pow2_Suc: "pow2 (e + 1) = 2 * pow2 e"
  by (simp add: pow2_add) (simp add: pow2_def)

lemma pow2_nat: "pow2 (int n) = 2 ^ n"
  by (simp add: pow2_def)

lemma pow2_mono: "a \<le> b \<Longrightarrow> pow2 a \<le> pow2 b"
  by (simp add: pow2_powi power_int_increasing)

lemma pow2_less_imp: "pow2 a < pow2 b \<Longrightarrow> a < b"
  using pow2_mono [of b a] by (cases "a < b") auto

lemma bits_loop_spec:
  assumes "0 < n" "n \<le> int f"
  shows "0 \<le> bits_loop f n \<and> 2 ^ nat (bits_loop f n) \<le> n \<and> n < 2 ^ nat (bits_loop f n + 1)"
  using assms
proof (induction f arbitrary: n)
  case 0
  then show ?case by simp
next
  case (Suc f)
  show ?case
  proof (cases "n \<le> 1")
    case True then show ?thesis using Suc.prems by simp
  next
    case False
    let ?k = "bits_loop f (n div 2)"
    have IH: "0 \<le> ?k" "2 ^ nat ?k \<le> n div 2" "n div 2 < 2 ^ nat (?k + 1)"
      using Suc.IH [of "n div 2"] False Suc.prems by auto
    have "(2::int) ^ nat (1 + ?k) = 2 * 2 ^ nat ?k" "(2::int) ^ nat (1 + ?k + 1) = 2 * 2 ^ nat (?k + 1)"
      using IH(1) by (simp_all add: nat_add_distrib)
    then show ?thesis using False IH by (simp add: add.commute) linarith
  qed
qed

lemma int_log2_spec:
  assumes "0 < n"
  shows "pow2 (int_log2 n) \<le> of_int n" "of_int n < pow2 (int_log2 n + 1)"
proof -
  have b: "0 \<le> int_log2 n" "2 ^ nat (int_log2 n) \<le> n" "n < 2 ^ nat (int_log2 n + 1)"
    using bits_loop_spec [of n "nat n"] assms by (simp_all add: int_log2_def)
  have "(of_int (2 ^ nat (int_log2 n)) :: rat) \<le> of_int n" using b(2) by (rule of_int_le_iff [THEN iffD2])
  then show "pow2 (int_log2 n) \<le> of_int n" using b(1) by (simp add: pow2_def)
  have "(of_int n :: rat) < of_int (2 ^ nat (int_log2 n + 1))" using b(3) by (rule of_int_less_iff [THEN iffD2])
  then show "of_int n < pow2 (int_log2 n + 1)" using b(1) by (simp add: pow2_def)
qed

lemma rat_log2_spec:
  assumes "0 < x"
  shows "pow2 (rat_log2 x) \<le> x" "x < pow2 (rat_log2 x + 1)"
proof -
  obtain n d where q: "quotient_of x = (n, d)" by (cases "quotient_of x")
  have d: "0 < d" using quotient_of_denom_pos [OF q] .
  have x: "x = of_int n / of_int d" using quotient_of_div [OF q] .
  have n: "0 < n" using assms d x by (simp add: zero_less_divide_iff)
  let ?e = "int_log2 n - int_log2 d"
  have split: "pow2 a * pow2 (int_log2 d) = pow2 (a + int_log2 d)" for a by (simp add: pow2_add)
  have up: "x < pow2 (?e + 1)"
  proof -
    have "of_int n < pow2 (?e + 1) * pow2 (int_log2 d)"
      using int_log2_spec(2) [OF n] unfolding split by simp
    also have "\<dots> \<le> pow2 (?e + 1) * of_int d"
      using int_log2_spec(1) [OF d] by (intro mult_left_mono) simp_all
    finally show ?thesis using d by (simp add: x divide_less_eq)
  qed
  have low: "pow2 (?e - 1) < x"
  proof -
    have "pow2 (?e - 1) * of_int d < pow2 (?e - 1) * pow2 (int_log2 d + 1)"
      using int_log2_spec(2) [OF d] by (intro mult_strict_left_mono) simp_all
    also have "\<dots> = pow2 (int_log2 n)" by (simp flip: pow2_add)
    also have "\<dots> \<le> of_int n" by (rule int_log2_spec(1) [OF n])
    finally show ?thesis using d by (simp add: x less_divide_eq)
  qed
  show "pow2 (rat_log2 x) \<le> x" "x < pow2 (rat_log2 x + 1)"
    using up low by (auto simp: rat_log2_def q Let_def)
qed

lemma rat_log2_unique:
  assumes "pow2 e \<le> x" "x < pow2 (e + 1)"
  shows "rat_log2 x = e"
proof -
  have x: "0 < x" using assms(1) pow2_pos [of e] by linarith
  note s = rat_log2_spec [OF x]
  have "e < rat_log2 x + 1" "rat_log2 x < e + 1"
    using order_le_less_trans [OF assms(1) s(2)] order_le_less_trans [OF s(1) assms(2)]
    by (simp_all only: pow2_less_imp)
  then show ?thesis by simp
qed

lemma round_half_even_mono: "m \<le> n \<Longrightarrow> round_half_even m \<le> round_half_even n"
proof -
  assume mn: "m \<le> n"
  consider "\<lfloor>m\<rfloor> = \<lfloor>n\<rfloor>" | "\<lfloor>m\<rfloor> + 1 \<le> \<lfloor>n\<rfloor>" using floor_mono [OF mn] by linarith
  then show ?thesis
  proof cases
    case 1 then show ?thesis using mn by (auto simp: round_half_even_def Let_def)
  next
    case 2 then show ?thesis by (auto simp: round_half_even_def Let_def)
  qed
qed

lemma round_half_even_of_int [simp]: "round_half_even (of_int k) = k"
  by (simp add: round_half_even_def)

lemma round_half_even_error: "\<bar>of_int (round_half_even m) - m\<bar> \<le> 1 / 2"
proof -
  have "of_int \<lfloor>m\<rfloor> \<le> m" "m < of_int \<lfloor>m\<rfloor> + 1" using floor_correct [of m] by simp_all
  then show ?thesis unfolding round_half_even_def Let_def by (auto simp: abs_le_iff)
qed

lemma round_half_even_bounds:
  assumes "of_int a \<le> m" "m \<le> of_int b"
  shows "a \<le> round_half_even m" "round_half_even m \<le> b"
  using round_half_even_mono [OF assms(1)] round_half_even_mono [OF assms(2)] by simp_all

lemma fl_pos_bounds:
  assumes "0 < x"
  shows "pow2 (rat_log2 x) \<le> fl_pos x" "fl_pos x \<le> pow2 (rat_log2 x + 1)"
proof -
  let ?e = "rat_log2 x" and ?u = "pow2 (rat_log2 x - 52)"
  have u: "pow2 ?e = 2 ^ 52 * ?u" "pow2 (?e + 1) = 2 ^ 53 * ?u"
    using pow2_add [of 52 "?e - 52"] pow2_add [of 53 "?e - 52"]
    by (simp_all add: pow2_def add.commute)
  have "of_int (2 ^ 52) \<le> x / ?u" "x / ?u \<le> of_int (2 ^ 53)"
    using rat_log2_spec [OF assms] u by (simp_all add: le_divide_eq divide_le_eq)
  then have "2 ^ 52 \<le> round_half_even (x / ?u)" "round_half_even (x / ?u) \<le> 2 ^ 53"
    using round_half_even_bounds [of "2 ^ 52" "x / ?u" "2 ^ 53"] by simp_all
  then have "(of_int (2 ^ 52) :: rat) \<le> of_int (round_half_even (x / ?u))"
    "(of_int (round_half_even (x / ?u)) :: rat) \<le> of_int (2 ^ 53)"
    by (simp_all only: of_int_le_iff)
  then show "pow2 ?e \<le> fl_pos x" "fl_pos x \<le> pow2 (?e + 1)"
    by (simp_all add: fl_pos_def Let_def u)
qed

lemma fl_pos_mono:
  assumes "0 < x" "x \<le> y"
  shows "fl_pos x \<le> fl_pos y"
proof -
  have y: "0 < y" using assms by simp
  have "pow2 (rat_log2 x) < pow2 (rat_log2 y + 1)"
    using rat_log2_spec [OF assms(1)] rat_log2_spec [OF y] assms(2) by linarith
  then have "rat_log2 x \<le> rat_log2 y" using pow2_less_imp by fastforce
  then consider "rat_log2 x = rat_log2 y" | "rat_log2 x + 1 \<le> rat_log2 y" by linarith
  then show ?thesis
  proof cases
    case 1
    have "round_half_even (x / pow2 (rat_log2 y - 52)) \<le> round_half_even (y / pow2 (rat_log2 y - 52))"
      using assms(2) by (intro round_half_even_mono divide_right_mono) simp_all
    then show ?thesis
      by (simp add: fl_pos_def Let_def 1)
  next
    case 2
    have "fl_pos x \<le> pow2 (rat_log2 x + 1)" by (rule fl_pos_bounds [OF assms(1)])
    also have "\<dots> \<le> pow2 (rat_log2 y)" by (rule pow2_mono [OF 2])
    also have "\<dots> \<le> fl_pos y" by (rule fl_pos_bounds [OF y])
    finally show ?thesis .
  qed
qed

lemma fl_pos_error:
  assumes "0 < x" "x < pow2 e"
  shows "\<bar>fl_pos x - x\<bar> \<le> pow2 (e - 54)"
proof -
  let ?u = "pow2 (rat_log2 x - 52)"
  have "pow2 (rat_log2 x) < pow2 e" using rat_log2_spec(1) [OF assms(1)] assms(2) by linarith
  then have e: "rat_log2 x < e" by (rule pow2_less_imp)
  have "fl_pos x - x = (of_int (round_half_even (x / ?u)) - x / ?u) * ?u"
    by (simp add: fl_pos_def Let_def left_diff_distrib)
  then have "\<bar>fl_pos x - x\<bar> \<le> 1 / 2 * ?u"
    using round_half_even_error [of "x / ?u"] by (simp add: abs_mult mult_right_mono)
  also have "\<dots> = pow2 (rat_log2 x - 53)" using pow2_Suc [of "rat_log2 x - 53"] by simp
  also have "\<dots> \<le> pow2 (e - 54)" using e by (intro pow2_mono) simp
  finally show ?thesis .
qed

lemma pow2_53: "pow2 (k + 53) = 2 ^ 53 * pow2 k"
  unfolding pow2_add by (simp add: pow2_def)

lemma pow2_52: "pow2 (k + 52) = 2 ^ 52 * pow2 k"
  unfolding pow2_add by (simp add: pow2_def)

lemma rat_le_53: "m \<le> 2 ^ 53 \<Longrightarrow> (of_int m :: rat) \<le> 2 ^ 53"
  using of_int_le_iff [of m "2 ^ 53", where ?'a = rat] by simp

lemma representable_multiple:
  assumes "0 < m" "m \<le> 2 ^ 53" "pow2 (e + 52) \<le> of_int m * pow2 k"
  shows "\<exists>j. of_int m * pow2 k = of_int j * pow2 e"
proof (cases "e \<le> k")
  case True
  then have "pow2 k = pow2 (k - e) * pow2 e" by (simp flip: pow2_add)
  moreover have "pow2 (k - e) = of_int (2 ^ nat (k - e))" using True by (simp add: pow2_def)
  ultimately have "of_int m * pow2 k = of_int (m * 2 ^ nat (k - e)) * pow2 e" by simp
  then show ?thesis by blast
next
  case False
  have "of_int m * pow2 k \<le> 2 ^ 53 * pow2 k"
    using rat_le_53 [OF assms(2)] by (rule mult_right_mono) simp
  then have le: "pow2 (e + 52) \<le> pow2 (k + 53)" using assms(3) unfolding pow2_53 by (rule order_trans [rotated])
  then have "e + 52 \<le> k + 53" using pow2_less_imp [of "k + 53" "e + 52"]
      pow2_Suc [of "k + 53"] pow2_mono [of "k + 53 + 1" "e + 52"] pow2_pos [of "k + 53"] by linarith
  then have ek: "e = k + 1" using False by simp
  have "pow2 (e + 52) = 2 ^ 53 * pow2 k" unfolding ek using pow2_53 [of k] by (simp add: add.assoc)
  then have "2 ^ 53 * pow2 k \<le> of_int m * pow2 k" using assms(3) by simp
  then have "(2 ^ 53 :: rat) \<le> of_int m" by (rule mult_right_le_imp_le) simp
  then have "of_int (2 ^ 53) \<le> (of_int m :: rat)" by simp
  then have "m = 2 ^ 53" using assms(2) by (simp only: of_int_le_iff)
  then have "of_int m * pow2 k = of_int (2 ^ 52) * pow2 e" unfolding ek pow2_Suc by simp
  then show ?thesis by blast
qed

lemma fl_pos_exact:
  assumes "0 < m" "m \<le> 2 ^ 53"
  shows "fl_pos (of_int m * pow2 k) = of_int m * pow2 k"
proof -
  let ?x = "of_int m * pow2 k"
  have x: "0 < ?x" using assms by simp
  define e where "e = rat_log2 ?x - 52"
  have "pow2 (e + 52) \<le> ?x" using rat_log2_spec(1) [OF x] by (simp add: e_def)
  then obtain j where j: "?x = of_int j * pow2 e"
    using representable_multiple [OF assms] by blast
  then have "?x / pow2 e = of_int j" by simp
  then have "fl_pos ?x = of_int j * pow2 e"
    unfolding fl_pos_def Let_def e_def [symmetric] by simp
  then show ?thesis using j by simp
qed

text \<open>The facts about rounding that the components use.\<close>

lemma fl_zero [simp]: "fl 0 = 0"
  by (simp add: fl_def)

lemma fl_pos_nonneg: "0 < x \<Longrightarrow> 0 < fl_pos x"
  using fl_pos_bounds(1) [of x] pow2_pos [of "rat_log2 x"] by linarith

lemma fl_mono: "x \<le> y \<Longrightarrow> fl x \<le> fl y"
  using fl_pos_mono [of x y] fl_pos_mono [of "- y" "- x"] fl_pos_nonneg [of y] fl_pos_nonneg [of "- x"]
  by (auto simp: fl_def)

lemma fl_nonneg: "0 \<le> x \<Longrightarrow> 0 \<le> fl x"
  using fl_mono [of 0 x] by simp

lemma fl_exact:
  assumes "\<bar>m\<bar> \<le> 2 ^ 53"
  shows "fl (of_int m * pow2 k) = of_int m * pow2 k"
proof (cases "m = 0")
  case False
  then consider "0 < m" | "m < 0" by linarith
  then show ?thesis
  proof cases
    case 1 then show ?thesis using fl_pos_exact [of m k] assms by (simp add: fl_def zero_less_mult_iff)
  next
    case 2
    have "fl_pos (of_int (- m) * pow2 k) = of_int (- m) * pow2 k"
      using 2 assms by (intro fl_pos_exact) simp_all
    moreover have "of_int m * pow2 k < 0" using 2 by (simp add: mult_less_0_iff)
    ultimately show ?thesis by (simp add: fl_def)
  qed
qed simp

lemma fl_int: "\<bar>m\<bar> \<le> 2 ^ 53 \<Longrightarrow> fl (of_int m) = of_int m"
  using fl_exact [of m 0] by (simp add: pow2_def)

lemma fl_error:
  assumes "\<bar>x\<bar> < pow2 e"
  shows "\<bar>fl x - x\<bar> \<le> pow2 (e - 54)"
proof (cases "0::rat" x rule: linorder_cases)
  case less then show ?thesis using fl_pos_error [of x e] assms by (simp add: fl_def)
next
  case greater
  then have "\<bar>fl_pos (- x) - - x\<bar> \<le> pow2 (e - 54)" using assms by (intro fl_pos_error) simp_all
  moreover have "fl x - x = - (fl_pos (- x) - - x)" using greater by (simp add: fl_def)
  ultimately show ?thesis by (simp only: abs_minus_cancel)
qed simp

subsection \<open>Values\<close>

datatype js_number = Num rat | NaN | PosInfinity | NegInfinity

definition MAX_SAFE_INTEGER :: int where
  "MAX_SAFE_INTEGER = 2 ^ 53 - 1"

definition isFinite :: "js_number \<Rightarrow> bool" where
  "isFinite x = (case x of Num _ \<Rightarrow> True | _ \<Rightarrow> False)"

definition isSafeInteger :: "js_number \<Rightarrow> bool" where
  "isSafeInteger x =
     (case x of Num r \<Rightarrow> of_int \<lfloor>r\<rfloor> = r \<and> \<bar>\<lfloor>r\<rfloor>\<bar> \<le> MAX_SAFE_INTEGER | _ \<Rightarrow> False)"

text \<open>The integer a number denotes, for the code behind an \<open>isSafeInteger\<close> guard.\<close>

definition js_int :: "js_number \<Rightarrow> int" where
  "js_int x = (case x of Num r \<Rightarrow> \<lfloor>r\<rfloor> | _ \<Rightarrow> 0)"

definition js_of_int :: "int \<Rightarrow> js_number" where
  "js_of_int n = Num (of_int n)"

text \<open>Addition and subtraction of integral doubles: exact up to \<open>2^53\<close>, rounded beyond.\<close>

definition jadd :: "int \<Rightarrow> int \<Rightarrow> int" where
  "jadd a b = \<lfloor>fl (of_int (a + b))\<rfloor>"

definition jsub :: "int \<Rightarrow> int \<Rightarrow> int" where
  "jsub a b = \<lfloor>fl (of_int (a - b))\<rfloor>"

text \<open>\<open>Math.round\<close> rounds to the nearest integer, ties upwards.\<close>

definition js_round :: "rat \<Rightarrow> int" where
  "js_round x = \<lfloor>x + 1 / 2\<rfloor>"

lemma isSafeInteger_of_int [simp]: "isSafeInteger (js_of_int n) \<longleftrightarrow> \<bar>n\<bar> \<le> MAX_SAFE_INTEGER"
  by (simp add: isSafeInteger_def js_of_int_def)

lemma js_int_of_int [simp]: "js_int (js_of_int n) = n"
  by (simp add: js_int_def js_of_int_def)

lemma isSafeInteger_bounds: "isSafeInteger x \<Longrightarrow> \<bar>js_int x\<bar> \<le> MAX_SAFE_INTEGER"
  by (auto simp: isSafeInteger_def js_int_def split: js_number.splits)

lemma jadd_exact: "\<bar>a + b\<bar> \<le> 2 ^ 53 \<Longrightarrow> jadd a b = a + b"
  unfolding jadd_def by (simp only: fl_int floor_of_int)

lemma jsub_exact: "\<bar>a - b\<bar> \<le> 2 ^ 53 \<Longrightarrow> jsub a b = a - b"
  unfolding jsub_def by (simp only: fl_int floor_of_int)

lemma jadd_nonneg_exact: "0 \<le> a \<Longrightarrow> 0 \<le> b \<Longrightarrow> a + b \<le> 2 ^ 53 \<Longrightarrow> jadd a b = a + b"
  by (rule jadd_exact) simp

lemma jsub_nonneg_exact: "0 \<le> b \<Longrightarrow> b \<le> a \<Longrightarrow> a \<le> 2 ^ 53 \<Longrightarrow> jsub a b = a - b"
  by (rule jsub_exact) simp

text \<open>A rounded sum that is still a safe integer was exact.\<close>

lemma jadd_safe_exact:
  assumes "0 \<le> a" "0 \<le> b" "jadd a b \<le> MAX_SAFE_INTEGER"
  shows "a + b \<le> MAX_SAFE_INTEGER" "jadd a b = a + b"
proof -
  show le: "a + b \<le> MAX_SAFE_INTEGER"
  proof (rule ccontr)
    assume "\<not> a + b \<le> MAX_SAFE_INTEGER"
    then have "(2::int) ^ 53 \<le> a + b" by (simp add: MAX_SAFE_INTEGER_def)
    then have "(of_int (2 ^ 53) :: rat) \<le> of_int (a + b)" by (rule of_int_le_iff [THEN iffD2])
    then have "fl (of_int (2 ^ 53)) \<le> fl (of_int (a + b))" by (rule fl_mono)
    moreover have "fl (of_int (2 ^ 53)) = of_int (2 ^ 53)" by (rule fl_int) simp
    ultimately have "2 ^ 53 \<le> jadd a b" unfolding jadd_def by (simp add: le_floor_iff)
    then show False using assms(3) by (simp add: MAX_SAFE_INTEGER_def)
  qed
  then show "jadd a b = a + b" using assms by (intro jadd_exact) (simp add: MAX_SAFE_INTEGER_def)
qed

end
