(* ===== verification/Explainer_Types.thy ===== *)
theory Explainer_Types
  imports Js_Number
begin

text \<open>
  The protocol vocabulary of \<open>explainer/src/protocol/types.ts\<close> and the units of
  \<open>explainer/src/protocol/units.ts\<close>. An enumeration of the source is a datatype with its
  constructors in the source's order (the order is the wire index), and the list of its members
  keeps the source's name. A member that two enumerations share, or that clashes with HOL, has a
  suffix or prefix.
\<close>

subsection \<open>Proposals\<close>

datatype proposal_class = Param | Treasury | Code | Meta | Constitutional

definition PROPOSAL_CLASSES :: "proposal_class list" where
  "PROPOSAL_CLASSES = [Param, Treasury, Code, Meta, Constitutional]"

definition GATE_BEARING_CLASSES :: "proposal_class list" where
  "GATE_BEARING_CLASSES = [Param, Treasury, Code, Meta]"

definition requiresGateMarkets :: "proposal_class \<Rightarrow> bool" where
  "requiresGateMarkets c = (c \<noteq> Constitutional)"

definition requiresRatification :: "proposal_class \<Rightarrow> bool" where
  "requiresRatification c = (c = Code \<or> c = Meta)"

datatype reject_reason =
    NotDecisionGrade | GateVetoSurvival | GateVetoSecurity | HurdleNotMet | ConvergenceFailed
  | SecondExtensionFailed | ProcessHold | ConstitutionViolation | ResourceConflict | RateLimited
  | VetoUpheldByReview | StaleQueue | PayloadReverted | NotRatified | SecuritySizing
  | AttestationMissing | RolloverExhausted

definition REJECT_REASONS :: "reject_reason list" where
  "REJECT_REASONS =
     [NotDecisionGrade, GateVetoSurvival, GateVetoSecurity, HurdleNotMet, ConvergenceFailed,
      SecondExtensionFailed, ProcessHold, ConstitutionViolation, ResourceConflict, RateLimited,
      VetoUpheldByReview, StaleQueue, PayloadReverted, NotRatified, SecuritySizing,
      AttestationMissing, RolloverExhausted]"

datatype proposal_state =
    Submitted | Screening | Qualified | Trading | Extended | Queued | Suspended | Rerun
  | Rejected | Executed | FailedExecuted | Measuring | Settled | Cancelled | Expired

definition PROPOSAL_STATES :: "proposal_state list" where
  "PROPOSAL_STATES =
     [Submitted, Screening, Qualified, Trading, Extended, Queued, Suspended, Rerun, Rejected,
      Executed, FailedExecuted, Measuring, Settled, Cancelled, Expired]"

datatype decision_outcome = Adopt | Extend | Reject reject_reason

subsection \<open>Epochs\<close>

datatype epoch_phase =
  Intake | Qualify | Seed | Trade | Decide | Review | Execute | Housekeeping

definition EPOCH_PHASES :: "epoch_phase list" where
  "EPOCH_PHASES = [Intake, Qualify, Seed, Trade, Decide, Review, Execute, Housekeeping]"

subsection \<open>The conditional ledger\<close>

datatype branch = AcceptB | RejectB

definition BRANCHES :: "branch list" where
  "BRANCHES = [AcceptB, RejectB]"

datatype scalar_side = LongSide | ShortSide

definition SCALAR_SIDES :: "scalar_side list" where
  "SCALAR_SIDES = [LongSide, ShortSide]"

datatype gate_type = Survival | Security

definition GATE_TYPES :: "gate_type list" where
  "GATE_TYPES = [Survival, Security]"

record 'a per_gate =
  at_Survival :: 'a
  at_Security :: 'a

definition at_gate :: "gate_type \<Rightarrow> 'a per_gate \<Rightarrow> 'a" where
  "at_gate g m = (case g of Survival \<Rightarrow> at_Survival m | Security \<Rightarrow> at_Security m)"

datatype position_kind = BranchUsdc | Long | Short | GateYes gate_type | GateNo gate_type

definition POSITION_KINDS :: "position_kind list" where
  "POSITION_KINDS =
     [BranchUsdc, Long, Short, GateYes Survival, GateNo Survival, GateYes Security, GateNo Security]"

datatype position_id =
    ProposalPosition int branch position_kind
  | BaselinePosition int scalar_side

text \<open>The settlement score \<open>s\<close> of a state is a JavaScript number.\<close>

datatype vault_state =
    Open
  | Resolved branch
  | ScalarSettled branch js_number
  | Voided
  | BaselineSettled js_number

datatype welfare_grade = GradeOk | GradeInsufficient | GradeInvalid

subsection \<open>Units\<close>

definition FIXED_SCALE :: int where
  "FIXED_SCALE = 1000000000"

text \<open>The literal \<open>1e-9\<close>: the double nearest to it.\<close>

definition EPS_1E9 :: rat where
  "EPS_1E9 = fl (1 / 10 ^ 9)"

definition roundPayoutDown_js :: "rat \<Rightarrow> int" where
  "roundPayoutDown_js baseUnits = \<lfloor>fl (baseUnits + EPS_1E9)\<rfloor>"

lemma EPS_bounds: "0 \<le> EPS_1E9" "EPS_1E9 \<le> 1 / 10 ^ 8"
proof -
  have "\<bar>fl (1 / 10 ^ 9) - 1 / 10 ^ 9\<bar> \<le> pow2 (0 - 54)"
    by (rule fl_error) (simp add: pow2_def)
  then have "fl (1 / 10 ^ 9) - 1 / 10 ^ 9 \<le> pow2 (0 - 54)" by (simp only: abs_le_iff)
  also have "pow2 (0 - 54) \<le> 1 / 10 ^ 8 - 1 / 10 ^ 9" by (simp add: pow2_def)
  finally show "EPS_1E9 \<le> 1 / 10 ^ 8" unfolding EPS_1E9_def by (simp only: diff_right_mono diff_le_eq diff_add_cancel)
  show "0 \<le> EPS_1E9" unfolding EPS_1E9_def by (rule fl_nonneg) simp
qed

text \<open>
  A half or a quarter of a safe amount is exact, and adding \<open>1e-9\<close> never lifts it to the next
  integer, so the payout is the integer quotient.
\<close>

lemma quarter_exact:
  assumes "0 \<le> n" "n \<le> 2 ^ 53"
  shows "fl (of_int n / 4) = of_int n / 4" "fl (of_int n / 2) = of_int n / 2"
proof -
  have "\<bar>n\<bar> \<le> 2 ^ 53" using assms by simp
  from fl_exact [OF this, of "-2"] fl_exact [OF this, of "-1"]
  show "fl (of_int n / 4) = of_int n / 4" "fl (of_int n / 2) = of_int n / 2"
    by (simp_all add: pow2_def)
qed

lemma roundPayoutDown_bounds:
  assumes "0 \<le> x" "x < pow2 e - 1 / 10 ^ 8" "fl x = x" "x \<le> of_int k + 1 - 2 * pow2 (e - 54)"
    "1 / 10 ^ 8 < pow2 (e - 54)" "of_int k \<le> x"
  shows "roundPayoutDown_js x = k"
proof -
  have "\<bar>fl (x + EPS_1E9) - (x + EPS_1E9)\<bar> \<le> pow2 (e - 54)"
    by (rule fl_error) (use assms EPS_bounds in \<open>simp add: abs_le_iff\<close>)
  then have "fl (x + EPS_1E9) \<le> x + 1 / 10 ^ 8 + pow2 (e - 54)" using EPS_bounds by simp
  also have "\<dots> < of_int k + 1" using assms(4,5) by simp
  finally have up: "fl (x + EPS_1E9) < of_int (k + 1)" by simp
  have "fl x \<le> fl (x + EPS_1E9)" by (rule fl_mono) (use EPS_bounds in simp)
  then have "of_int k \<le> fl (x + EPS_1E9)" using assms(3,6) by simp
  with up show ?thesis unfolding roundPayoutDown_js_def by (simp add: floor_eq_iff)
qed

lemma roundPayoutDown_half:
  assumes "0 \<le> n" "n \<le> MAX_SAFE_INTEGER"
  shows "roundPayoutDown_js (fl (of_int n / 2)) = n div 2"
proof -
  have n: "n \<le> 2 ^ 53" using assms by (simp add: MAX_SAFE_INTEGER_def)
  have h: "n = 2 * (n div 2) + n mod 2" "0 \<le> n mod 2" "n mod 2 \<le> 1" by simp_all
  have "(of_int n :: rat) = of_int (2 * (n div 2) + n mod 2)" by (rule arg_cong [OF h(1)])
  then have "(of_int n :: rat) = 2 * of_int (n div 2) + of_int (n mod 2)"
    by (simp only: of_int_add of_int_mult of_int_numeral)
  then have x: "(of_int n / 2 :: rat) = of_int (n div 2) + of_int (n mod 2) / 2"
    by (simp add: add_divide_distrib)
  have m: "(of_int (n mod 2) :: rat) \<le> 1" "(0::rat) \<le> of_int (n mod 2)" using h by simp_all
  show ?thesis
    unfolding quarter_exact(2) [OF assms(1) n]
  proof (rule roundPayoutDown_bounds [where e = 52])
    have "(of_int n :: rat) \<le> of_int MAX_SAFE_INTEGER" using assms(2) by (rule of_int_le_iff [THEN iffD2])
    then show "(of_int n / 2 :: rat) < pow2 52 - 1 / 10 ^ 8"
      by (simp add: MAX_SAFE_INTEGER_def pow2_def)
    show "(of_int n / 2 :: rat) \<le> of_int (n div 2) + 1 - 2 * pow2 (52 - 54)"
      unfolding x using m by (simp add: pow2_def)
    show "of_int (n div 2) \<le> (of_int n / 2 :: rat)" unfolding x using m by simp
  qed (use assms n quarter_exact(2) in \<open>simp_all add: pow2_def\<close>)
qed

lemma roundPayoutDown_quarter:
  assumes "0 \<le> n" "n \<le> MAX_SAFE_INTEGER"
  shows "roundPayoutDown_js (fl (of_int n / 4)) = n div 4"
proof -
  have n: "n \<le> 2 ^ 53" using assms by (simp add: MAX_SAFE_INTEGER_def)
  have h: "n = 4 * (n div 4) + n mod 4" "0 \<le> n mod 4" "n mod 4 \<le> 3" by simp_all
  have "(of_int n :: rat) = of_int (4 * (n div 4) + n mod 4)" by (rule arg_cong [OF h(1)])
  then have "(of_int n :: rat) = 4 * of_int (n div 4) + of_int (n mod 4)"
    by (simp only: of_int_add of_int_mult of_int_numeral)
  then have x: "(of_int n / 4 :: rat) = of_int (n div 4) + of_int (n mod 4) / 4"
    by (simp add: add_divide_distrib)
  have m: "(of_int (n mod 4) :: rat) \<le> 3" "(0::rat) \<le> of_int (n mod 4)"
    using h(2,3) of_int_le_iff [of "n mod 4" 3, where ?'a = rat] by simp_all
  show ?thesis
    unfolding quarter_exact(1) [OF assms(1) n]
  proof (rule roundPayoutDown_bounds [where e = 51])
    have "(of_int n :: rat) \<le> of_int MAX_SAFE_INTEGER" using assms(2) by (rule of_int_le_iff [THEN iffD2])
    then show "(of_int n / 4 :: rat) < pow2 51 - 1 / 10 ^ 8"
      by (simp add: MAX_SAFE_INTEGER_def pow2_def)
    show "(of_int n / 4 :: rat) \<le> of_int (n div 4) + 1 - 2 * pow2 (51 - 54)"
      unfolding x using m by (simp add: pow2_def)
    show "of_int (n div 4) \<le> (of_int n / 4 :: rat)" unfolding x using m by simp
  qed (use assms n quarter_exact(1) in \<open>simp_all add: pow2_def\<close>)
qed

end
