(* ===== verification/Ledger.thy ===== *)
theory Ledger
  imports Explainer_Types Fee_Contract
begin

text \<open>
  The conditional ledger of \<open>explainer/src/protocol/ledger.ts\<close>: the vault, its signed calls,
  the authority transitions, the redemptions, their effects, and the conservation check.
  Amounts in the vault are integral doubles and are added with \<open>jadd\<close> and \<open>jsub\<close>;
  amounts and scores that arrive from a caller are arbitrary JavaScript numbers. The message and
  the citation of a result are not modelled.
\<close>

subsection \<open>Constants and payouts\<close>

definition MIN_SPLIT_USDC :: int where
  "MIN_SPLIT_USDC = 10000"

definition MIN_TRANSFER_USDC :: int where
  "MIN_TRANSFER_USDC = 10000"

definition proposalPositions :: "int \<Rightarrow> position_id list" where
  "proposalPositions proposal =
     concat (map (\<lambda>b. map (ProposalPosition proposal b) POSITION_KINDS) BRANCHES)"

definition baselinePositions :: "int \<Rightarrow> position_id list" where
  "baselinePositions epoch = map (BaselinePosition epoch) SCALAR_SIDES"

definition scoreRaw :: "js_number \<Rightarrow> int option" where
  "scoreRaw s =
     (case s of
        Num r \<Rightarrow> if r < 0 \<or> r > 1 then None else Some (js_round (fl (r * of_int FIXED_SCALE)))
      | _ \<Rightarrow> None)"

text \<open>\<open>Number(bigint)\<close> rounds the exact quotient to a double.\<close>

definition floorScaled :: "int \<Rightarrow> int \<Rightarrow> int" where
  "floorScaled amount raw = \<lfloor>fl (of_int ((amount * raw) div FIXED_SCALE))\<rfloor>"

definition scalarPayout :: "js_number \<Rightarrow> scalar_side \<Rightarrow> js_number \<Rightarrow> int" where
  "scalarPayout s side amount =
     (case scoreRaw s of
        None \<Rightarrow> 0
      | Some raw \<Rightarrow>
          if \<not> isSafeInteger amount \<or> js_int amount < 0 then 0
          else if side = LongSide then floorScaled (js_int amount) raw
          else floorScaled (js_int amount) (jsub FIXED_SCALE raw))"

definition scalarPairPayout :: "js_number \<Rightarrow> int" where
  "scalarPairPayout amount = (if isSafeInteger amount \<and> js_int amount \<ge> 0 then js_int amount else 0)"

definition baselinePayout :: "js_number \<Rightarrow> scalar_side \<Rightarrow> js_number \<Rightarrow> int" where
  "baselinePayout s side amount = scalarPayout s side amount"

definition redeemVoidPayout :: "position_kind \<Rightarrow> js_number \<Rightarrow> int" where
  "redeemVoidPayout kind amount =
     (if \<not> isSafeInteger amount \<or> js_int amount < 0 then 0
      else if kind = BranchUsdc then roundPayoutDown_js (fl (of_int (js_int amount) / 2))
      else roundPayoutDown_js (fl (of_int (js_int amount) / 4)))"

subsection \<open>The redemption fee\<close>

definition DEFAULT_REDEEM_FEE_PPB :: js_number where
  "DEFAULT_REDEEM_FEE_PPB = js_of_int 3000000"

definition redemptionFee_js :: "js_number \<Rightarrow> js_number \<Rightarrow> int" where
  "redemptionFee_js gross ratePpb =
     (if \<not> isSafeInteger gross \<or> js_int gross \<le> 0 then 0
      else case ratePpb of
        Num rate \<Rightarrow>
          if rate \<le> 0 then 0
          else let g = js_int gross;
                   charged = \<lceil>fl (fl (of_int g * rate) / of_int FIXED_SCALE)\<rceil>
               in if charged \<ge> g then 0
                  else if jsub g charged < MIN_SPLIT_USDC then 0 else charged
      | _ \<Rightarrow> 0)"

definition pairRedemptionFee :: "js_number \<Rightarrow> js_number \<Rightarrow> js_number \<Rightarrow> int" where
  "pairRedemptionFee amount s ratePpb =
     (let lng = scalarPayout s LongSide amount; shrt = scalarPayout s ShortSide amount
      in jadd (redemptionFee_js (js_of_int lng) ratePpb) (redemptionFee_js (js_of_int shrt) ratePpb))"

definition redeemPayout :: "vault_state \<Rightarrow> position_kind \<Rightarrow> js_number \<Rightarrow> bool option \<Rightarrow> int" where
  "redeemPayout st kind amount gateOutcome =
     (if \<not> isSafeInteger amount \<or> js_int amount < 0 then 0
      else case st of
        Open \<Rightarrow> 0
      | Resolved _ \<Rightarrow> 0
      | Voided \<Rightarrow> redeemVoidPayout kind amount
      | BaselineSettled s \<Rightarrow>
          (if kind = Long then baselinePayout s LongSide amount
           else if kind = Short then baselinePayout s ShortSide amount else 0)
      | ScalarSettled _ s \<Rightarrow>
          (case kind of
             BranchUsdc \<Rightarrow> js_int amount
           | Long \<Rightarrow> scalarPayout s LongSide amount
           | Short \<Rightarrow> scalarPayout s ShortSide amount
           | GateYes _ \<Rightarrow> if gateOutcome = Some True then js_int amount else 0
           | GateNo _ \<Rightarrow> if gateOutcome = Some False then js_int amount else 0))"

subsection \<open>The legal calls\<close>

datatype ledger_call =
    C_split | C_merge | C_split_scalar | C_merge_scalar | C_split_gate | C_merge_gate | C_transfer
  | C_split_baseline | C_merge_baseline | C_redeem | C_redeem_scalar | C_redeem_scalar_pair
  | C_redeem_gate | C_redeem_void | C_redeem_baseline | C_redeem_baseline_pair

definition LEDGER_CALLS :: "ledger_call list" where
  "LEDGER_CALLS =
     [C_split, C_merge, C_split_scalar, C_merge_scalar, C_split_gate, C_merge_gate, C_transfer,
      C_split_baseline, C_merge_baseline, C_redeem, C_redeem_scalar, C_redeem_scalar_pair,
      C_redeem_gate, C_redeem_void, C_redeem_baseline, C_redeem_baseline_pair]"

definition legalCallsFor :: "vault_state \<Rightarrow> ledger_call list" where
  "legalCallsFor st =
     (case st of
        Open \<Rightarrow> [C_split, C_merge, C_split_scalar, C_merge_scalar, C_split_gate, C_merge_gate, C_transfer]
      | Resolved _ \<Rightarrow> [C_merge, C_merge_scalar, C_merge_gate, C_transfer]
      | ScalarSettled _ _ \<Rightarrow> [C_redeem, C_redeem_scalar, C_redeem_scalar_pair, C_redeem_gate]
      | Voided \<Rightarrow> [C_merge, C_merge_scalar, C_merge_gate, C_transfer, C_redeem_void]
      | BaselineSettled _ \<Rightarrow> [C_redeem_baseline, C_redeem_baseline_pair])"

definition FEE_CHARGED_CALLS :: "ledger_call list" where
  "FEE_CHARGED_CALLS =
     [C_redeem_scalar, C_redeem_scalar_pair, C_redeem_gate, C_redeem_baseline, C_redeem_baseline_pair]"

definition isFeeCharged :: "ledger_call option \<Rightarrow> bool" where
  "isFeeCharged call = (case call of None \<Rightarrow> False | Some c \<Rightarrow> c \<in> set FEE_CHARGED_CALLS)"

subsection \<open>The redemption matrix\<close>

record redemption_context =
  ctx_s :: js_number
  ctx_gateWins :: bool

datatype vault_state_kind = K_Open | K_Resolved | K_ScalarSettled | K_Voided | K_BaselineSettled

record redemption_row =
  rr_state :: vault_state_kind
  rr_holding :: string
  rr_call :: "ledger_call option"
  rr_payout :: "js_number \<Rightarrow> redemption_context \<Rightarrow> js_number"

definition matrix_row ::
  "vault_state_kind \<Rightarrow> string \<Rightarrow> ledger_call option \<Rightarrow> (js_number \<Rightarrow> redemption_context \<Rightarrow> js_number) \<Rightarrow> redemption_row"
where
  "matrix_row st holding call pay =
     \<lparr> rr_state = st, rr_holding = holding, rr_call = call, rr_payout = pay \<rparr>"

abbreviation pays_nothing :: "js_number \<Rightarrow> redemption_context \<Rightarrow> js_number" where
  "pays_nothing \<equiv> (\<lambda>a ctx. js_of_int 0)"

abbreviation pays_par :: "js_number \<Rightarrow> redemption_context \<Rightarrow> js_number" where
  "pays_par \<equiv> (\<lambda>a ctx. a)"

definition REDEMPTION_MATRIX :: "redemption_row list" where
  "REDEMPTION_MATRIX =
    [matrix_row K_Open ''Accept + Reject branch-USDC pair'' (Some C_merge) pays_par,
     matrix_row K_Open ''same-branch LONG + SHORT set'' (Some C_merge_scalar) pays_nothing,
     matrix_row K_Open ''same-branch gate YES + NO set'' (Some C_merge_gate) pays_nothing,
     matrix_row K_Open ''any unpaired instrument'' None pays_nothing,
     matrix_row K_Resolved ''Accept + Reject branch-USDC pair'' (Some C_merge) pays_par,
     matrix_row K_Resolved ''same-branch scalar or gate set'' (Some C_merge_scalar) pays_nothing,
     matrix_row K_Resolved ''unpaired winning branch-USDC'' None pays_nothing,
     matrix_row K_Resolved ''any losing-branch instrument'' None pays_nothing,
     matrix_row K_ScalarSettled ''winning branch-USDC'' (Some C_redeem) pays_par,
     matrix_row K_ScalarSettled ''winning-branch LONG'' (Some C_redeem_scalar)
       (\<lambda>a ctx. js_of_int (scalarPayout (ctx_s ctx) LongSide a)),
     matrix_row K_ScalarSettled ''winning-branch SHORT'' (Some C_redeem_scalar)
       (\<lambda>a ctx. js_of_int (scalarPayout (ctx_s ctx) ShortSide a)),
     matrix_row K_ScalarSettled ''winning-branch LONG + SHORT pair'' (Some C_redeem_scalar_pair)
       (\<lambda>a ctx. js_of_int (scalarPairPayout a)),
     matrix_row K_ScalarSettled ''winning gate side of the winning branch'' (Some C_redeem_gate)
       (\<lambda>a ctx. if ctx_gateWins ctx then a else js_of_int 0),
     matrix_row K_ScalarSettled ''any losing-branch instrument'' None pays_nothing,
     matrix_row K_Voided ''Accept + Reject branch-USDC pair'' (Some C_merge) pays_par,
     matrix_row K_Voided ''same-branch LONG + SHORT set'' (Some C_merge_scalar) pays_nothing,
     matrix_row K_Voided ''same-branch gate YES + NO set'' (Some C_merge_gate) pays_nothing,
     matrix_row K_Voided ''unpaired branch-USDC'' (Some C_redeem_void)
       (\<lambda>a ctx. js_of_int (redeemVoidPayout BranchUsdc a)),
     matrix_row K_Voided ''unpaired LONG / SHORT / gate YES / gate NO'' (Some C_redeem_void)
       (\<lambda>a ctx. js_of_int (redeemVoidPayout Long a)),
     matrix_row K_BaselineSettled ''B-LONG'' (Some C_redeem_baseline)
       (\<lambda>a ctx. js_of_int (baselinePayout (ctx_s ctx) LongSide a)),
     matrix_row K_BaselineSettled ''B-SHORT'' (Some C_redeem_baseline)
       (\<lambda>a ctx. js_of_int (baselinePayout (ctx_s ctx) ShortSide a)),
     matrix_row K_BaselineSettled ''B-LONG + B-SHORT pair'' (Some C_redeem_baseline_pair)
       (\<lambda>a ctx. js_of_int (scalarPairPayout a))]"

subsection \<open>The vault\<close>

datatype ledger_error =
    BadOrigin | UnknownVault | UnknownBaselineVault | WrongVaultState | BelowMinimum
  | ArithmeticOverflow | InsufficientPosition | TooManyPositions | InvalidScore
  | GateAlreadySettled | GateNotSettled | TryStateViolation | ReapNotDue | DepositFailed
  | SplitPaused | Frozen | FreezeOutOfBounds | FreezeRenewalExhausted | InflowCapExceeded
  | ProtocolDestination

definition LEDGER_ERRORS :: "ledger_error list" where
  "LEDGER_ERRORS =
     [BadOrigin, UnknownVault, UnknownBaselineVault, WrongVaultState, BelowMinimum,
      ArithmeticOverflow, InsufficientPosition, TooManyPositions, InvalidScore,
      GateAlreadySettled, GateNotSettled, TryStateViolation, ReapNotDue, DepositFailed,
      SplitPaused, Frozen, FreezeOutOfBounds, FreezeRenewalExhausted, InflowCapExceeded,
      ProtocolDestination]"

record branch_supply =
  bs_usdc :: int
  bs_scalarSets :: int
  bs_gateSets :: "int per_gate"
  bs_long :: int
  bs_short :: int
  bs_gateYes :: "int per_gate"
  bs_gateNo :: "int per_gate"

record 'a per_branch =
  at_Accept :: 'a
  at_Reject :: 'a

definition at_branch :: "branch \<Rightarrow> 'a per_branch \<Rightarrow> 'a" where
  "at_branch b m = (case b of AcceptB \<Rightarrow> at_Accept m | RejectB \<Rightarrow> at_Reject m)"

record vault =
  v_proposal :: int
  v_escrowed :: int
  v_state :: vault_state
  v_branches :: "branch_supply per_branch"
  v_gateOutcomes :: "bool option per_gate"
  v_collateralIn :: int
  v_paidOut :: int
  v_terminalRedemptions :: int

record position_delta =
  pd_position :: position_id
  pd_amount :: int

datatype effect_call = Signed ledger_call | E_resolve | E_void | E_settle_scalar | E_settle_gate

record ledger_effect =
  le_call :: effect_call
  le_escrowIn :: int
  le_payout :: int
  le_grossPayout :: int
  le_fee :: int
  le_minted :: "position_delta list"
  le_burned :: "position_delta list"

type_synonym ledger_result = "(ledger_error, vault \<times> ledger_effect) result"

definition ZERO_GATES :: "int per_gate" where
  "ZERO_GATES = \<lparr> at_Survival = 0, at_Security = 0 \<rparr>"

definition emptySupply :: branch_supply where
  "emptySupply = \<lparr> bs_usdc = 0, bs_scalarSets = 0, bs_gateSets = ZERO_GATES, bs_long = 0, bs_short = 0,
     bs_gateYes = ZERO_GATES, bs_gateNo = ZERO_GATES \<rparr>"

definition createVault :: "int \<Rightarrow> vault" where
  "createVault proposal = \<lparr> v_proposal = proposal, v_escrowed = 0, v_state = Open,
     v_branches = \<lparr> at_Accept = emptySupply, at_Reject = emptySupply \<rparr>,
     v_gateOutcomes = \<lparr> at_Survival = None, at_Security = None \<rparr>,
     v_collateralIn = 0, v_paidOut = 0, v_terminalRedemptions = 0 \<rparr>"

definition setGateValue :: "'a per_gate \<Rightarrow> gate_type \<Rightarrow> 'a \<Rightarrow> 'a per_gate" where
  "setGateValue m gate val =
     (if gate = Survival then \<lparr> at_Survival = val, at_Security = at_Security m \<rparr>
      else \<lparr> at_Survival = at_Survival m, at_Security = val \<rparr>)"

definition withBranch :: "vault \<Rightarrow> branch \<Rightarrow> branch_supply \<Rightarrow> vault" where
  "withBranch v b nxt = v\<lparr> v_branches :=
     (if b = AcceptB then \<lparr> at_Accept = nxt, at_Reject = at_Reject (v_branches v) \<rparr>
      else \<lparr> at_Accept = at_Accept (v_branches v), at_Reject = nxt \<rparr>) \<rparr>"

definition badAmount :: "js_number \<Rightarrow> bool" where
  "badAmount amount = (\<not> isSafeInteger amount \<or> js_int amount < 0)"

definition supplyOf :: "branch_supply \<Rightarrow> position_kind \<Rightarrow> int" where
  "supplyOf supply kind =
     (case kind of
        BranchUsdc \<Rightarrow> bs_usdc supply
      | Long \<Rightarrow> bs_long supply
      | Short \<Rightarrow> bs_short supply
      | GateYes g \<Rightarrow> at_gate g (bs_gateYes supply)
      | GateNo g \<Rightarrow> at_gate g (bs_gateNo supply))"

definition burnLeg :: "branch_supply \<Rightarrow> position_kind \<Rightarrow> int \<Rightarrow> branch_supply" where
  "burnLeg supply kind amount =
     (case kind of
        BranchUsdc \<Rightarrow> supply\<lparr> bs_usdc := jsub (bs_usdc supply) amount \<rparr>
      | Long \<Rightarrow> supply\<lparr> bs_long := jsub (bs_long supply) amount \<rparr>
      | Short \<Rightarrow> supply\<lparr> bs_short := jsub (bs_short supply) amount \<rparr>
      | GateYes g \<Rightarrow> supply\<lparr> bs_gateYes := setGateValue (bs_gateYes supply) g
                                 (jsub (at_gate g (bs_gateYes supply)) amount) \<rparr>
      | GateNo g \<Rightarrow> supply\<lparr> bs_gateNo := setGateValue (bs_gateNo supply) g
                                 (jsub (at_gate g (bs_gateNo supply)) amount) \<rparr>)"

definition admitsPairOps :: "vault_state \<Rightarrow> bool" where
  "admitsPairOps st = (case st of Open \<Rightarrow> True | Resolved _ \<Rightarrow> True | Voided \<Rightarrow> True | _ \<Rightarrow> False)"

definition delta_at :: "vault \<Rightarrow> branch \<Rightarrow> position_kind \<Rightarrow> int \<Rightarrow> position_delta" where
  "delta_at v b kind amount = \<lparr> pd_position = ProposalPosition (v_proposal v) b kind, pd_amount = amount \<rparr>"

definition no_effect :: "effect_call \<Rightarrow> ledger_effect" where
  "no_effect call = \<lparr> le_call = call, le_escrowIn = 0, le_payout = 0, le_grossPayout = 0, le_fee = 0,
     le_minted = [], le_burned = [] \<rparr>"

subsection \<open>Splits and merges\<close>

definition vault_split :: "vault \<Rightarrow> js_number \<Rightarrow> ledger_result" where
  "vault_split v amount =
     (if v_state v \<noteq> Open then Inl WrongVaultState
      else if badAmount amount then Inl BelowMinimum
      else let a = js_int amount in
        if a < MIN_SPLIT_USDC then Inl BelowMinimum
        else
          let v0 = v\<lparr> v_escrowed := jadd (v_escrowed v) a, v_collateralIn := jadd (v_collateralIn v) a \<rparr>;
              mint = (\<lambda>b w. let s = at_branch b (v_branches w)
                             in withBranch w b (s\<lparr> bs_usdc := jadd (bs_usdc s) a \<rparr>))
          in Inr (fold mint BRANCHES v0,
               (no_effect (Signed C_split))\<lparr> le_escrowIn := a,
                  le_minted := map (\<lambda>b. delta_at v b BranchUsdc a) BRANCHES \<rparr>))"

definition vault_merge :: "vault \<Rightarrow> js_number \<Rightarrow> ledger_result" where
  "vault_merge v amount =
     (if \<not> admitsPairOps (v_state v) then Inl WrongVaultState
      else if badAmount amount then Inl BelowMinimum
      else let a = js_int amount in
        if \<exists>b \<in> set BRANCHES. bs_usdc (at_branch b (v_branches v)) < a then Inl InsufficientPosition
        else
          let v0 = v\<lparr> v_escrowed := jsub (v_escrowed v) a, v_paidOut := jadd (v_paidOut v) a \<rparr>;
              burn = (\<lambda>b w. let s = at_branch b (v_branches w)
                             in withBranch w b (s\<lparr> bs_usdc := jsub (bs_usdc s) a \<rparr>))
          in Inr (fold burn BRANCHES v0,
               (no_effect (Signed C_merge))\<lparr> le_payout := a, le_grossPayout := a,
                  le_burned := map (\<lambda>b. delta_at v b BranchUsdc a) BRANCHES \<rparr>))"

definition splitScalar :: "vault \<Rightarrow> branch \<Rightarrow> js_number \<Rightarrow> ledger_result" where
  "splitScalar v b amount =
     (if v_state v \<noteq> Open then Inl WrongVaultState
      else if badAmount amount then Inl BelowMinimum
      else let a = js_int amount in
        if a < MIN_SPLIT_USDC then Inl BelowMinimum
        else let s = at_branch b (v_branches v) in
          if bs_usdc s < a then Inl InsufficientPosition
          else Inr (withBranch v b (s\<lparr> bs_usdc := jsub (bs_usdc s) a, bs_scalarSets := jadd (bs_scalarSets s) a,
                      bs_long := jadd (bs_long s) a, bs_short := jadd (bs_short s) a \<rparr>),
               (no_effect (Signed C_split_scalar))\<lparr>
                  le_minted := [delta_at v b Long a, delta_at v b Short a],
                  le_burned := [delta_at v b BranchUsdc a] \<rparr>))"

definition mergeScalar :: "vault \<Rightarrow> branch \<Rightarrow> js_number \<Rightarrow> ledger_result" where
  "mergeScalar v b amount =
     (if \<not> admitsPairOps (v_state v) then Inl WrongVaultState
      else if badAmount amount then Inl BelowMinimum
      else let a = js_int amount; s = at_branch b (v_branches v) in
        if bs_long s < a \<or> bs_short s < a \<or> bs_scalarSets s < a then Inl InsufficientPosition
        else Inr (withBranch v b (s\<lparr> bs_usdc := jadd (bs_usdc s) a, bs_scalarSets := jsub (bs_scalarSets s) a,
                    bs_long := jsub (bs_long s) a, bs_short := jsub (bs_short s) a \<rparr>),
             (no_effect (Signed C_merge_scalar))\<lparr>
                le_minted := [delta_at v b BranchUsdc a],
                le_burned := [delta_at v b Long a, delta_at v b Short a] \<rparr>))"

definition splitGate :: "vault \<Rightarrow> branch \<Rightarrow> gate_type \<Rightarrow> js_number \<Rightarrow> ledger_result" where
  "splitGate v b g amount =
     (if v_state v \<noteq> Open then Inl WrongVaultState
      else if badAmount amount then Inl BelowMinimum
      else let a = js_int amount in
        if a < MIN_SPLIT_USDC then Inl BelowMinimum
        else let s = at_branch b (v_branches v) in
          if bs_usdc s < a then Inl InsufficientPosition
          else Inr (withBranch v b (s\<lparr> bs_usdc := jsub (bs_usdc s) a,
                      bs_gateSets := setGateValue (bs_gateSets s) g (jadd (at_gate g (bs_gateSets s)) a),
                      bs_gateYes := setGateValue (bs_gateYes s) g (jadd (at_gate g (bs_gateYes s)) a),
                      bs_gateNo := setGateValue (bs_gateNo s) g (jadd (at_gate g (bs_gateNo s)) a) \<rparr>),
               (no_effect (Signed C_split_gate))\<lparr>
                  le_minted := [delta_at v b (GateYes g) a, delta_at v b (GateNo g) a],
                  le_burned := [delta_at v b BranchUsdc a] \<rparr>))"

definition mergeGate :: "vault \<Rightarrow> branch \<Rightarrow> gate_type \<Rightarrow> js_number \<Rightarrow> ledger_result" where
  "mergeGate v b g amount =
     (if \<not> admitsPairOps (v_state v) then Inl WrongVaultState
      else if badAmount amount then Inl BelowMinimum
      else let a = js_int amount; s = at_branch b (v_branches v) in
        if at_gate g (bs_gateYes s) < a \<or> at_gate g (bs_gateNo s) < a \<or> at_gate g (bs_gateSets s) < a
        then Inl InsufficientPosition
        else Inr (withBranch v b (s\<lparr> bs_usdc := jadd (bs_usdc s) a,
                    bs_gateSets := setGateValue (bs_gateSets s) g (jsub (at_gate g (bs_gateSets s)) a),
                    bs_gateYes := setGateValue (bs_gateYes s) g (jsub (at_gate g (bs_gateYes s)) a),
                    bs_gateNo := setGateValue (bs_gateNo s) g (jsub (at_gate g (bs_gateNo s)) a) \<rparr>),
             (no_effect (Signed C_merge_gate))\<lparr>
                le_minted := [delta_at v b BranchUsdc a],
                le_burned := [delta_at v b (GateYes g) a, delta_at v b (GateNo g) a] \<rparr>))"

definition vault_transfer :: "vault \<Rightarrow> position_id \<Rightarrow> js_number \<Rightarrow> ledger_result" where
  "vault_transfer v position amount =
     (if \<not> admitsPairOps (v_state v) then Inl WrongVaultState
      else case position of
        BaselinePosition _ _ \<Rightarrow> Inl UnknownVault
      | ProposalPosition p b kind \<Rightarrow>
          if p \<noteq> v_proposal v then Inl UnknownVault
          else if badAmount amount then Inl BelowMinimum
          else let a = js_int amount in
            if a < MIN_TRANSFER_USDC then Inl BelowMinimum
            else if supplyOf (at_branch b (v_branches v)) kind < a then Inl InsufficientPosition
            else Inr (v, no_effect (Signed C_transfer)))"

definition applyTransferRemainderRule :: "js_number \<Rightarrow> js_number \<Rightarrow> int" where
  "applyTransferRemainderRule balance requested =
     (if badAmount balance \<or> badAmount requested \<or> js_int requested > js_int balance then 0
      else let remainder = jsub (js_int balance) (js_int requested)
           in if remainder > 0 \<and> remainder < MIN_TRANSFER_USDC then js_int balance else js_int requested)"

subsection \<open>Authority transitions\<close>

definition vault_resolve :: "vault \<Rightarrow> branch \<Rightarrow> ledger_result" where
  "vault_resolve v winner =
     (if v_state v \<noteq> Open then Inl WrongVaultState
      else Inr (v\<lparr> v_state := Resolved winner \<rparr>, no_effect E_resolve))"

definition voidVault :: "vault \<Rightarrow> ledger_result" where
  "voidVault v =
     (case v_state v of
        Open \<Rightarrow> Inr (v\<lparr> v_state := Voided \<rparr>, no_effect E_void)
      | Resolved _ \<Rightarrow> Inr (v\<lparr> v_state := Voided \<rparr>, no_effect E_void)
      | _ \<Rightarrow> Inl WrongVaultState)"

definition settleScalar :: "vault \<Rightarrow> js_number \<Rightarrow> ledger_result" where
  "settleScalar v s =
     (case v_state v of
        Resolved winner \<Rightarrow>
          if scoreRaw s = None then Inl InvalidScore
          else Inr (v\<lparr> v_state := ScalarSettled winner s \<rparr>, no_effect E_settle_scalar)
      | _ \<Rightarrow> Inl WrongVaultState)"

definition settleGate :: "vault \<Rightarrow> gate_type \<Rightarrow> bool \<Rightarrow> ledger_result" where
  "settleGate v g outcome =
     (if (case v_state v of Resolved _ \<Rightarrow> False | ScalarSettled _ _ \<Rightarrow> False | _ \<Rightarrow> True)
      then Inl WrongVaultState
      else if at_gate g (v_gateOutcomes v) \<noteq> None then Inl GateAlreadySettled
      else Inr (v\<lparr> v_gateOutcomes := setGateValue (v_gateOutcomes v) g (Some outcome) \<rparr>,
             no_effect E_settle_gate))"

subsection \<open>Redemptions\<close>

definition vault_payout :: "vault \<Rightarrow> int \<Rightarrow> vault" where
  "vault_payout v amount =
     v\<lparr> v_escrowed := jsub (v_escrowed v) amount, v_paidOut := jadd (v_paidOut v) amount,
        v_terminalRedemptions := jadd (v_terminalRedemptions v) 1 \<rparr>"

definition redeem :: "vault \<Rightarrow> js_number \<Rightarrow> ledger_result" where
  "redeem v amount =
     (case v_state v of
        ScalarSettled b _ \<Rightarrow>
          if badAmount amount then Inl BelowMinimum
          else let a = js_int amount; s = at_branch b (v_branches v) in
            if bs_usdc s < a then Inl InsufficientPosition
            else Inr (withBranch (vault_payout v a) b (s\<lparr> bs_usdc := jsub (bs_usdc s) a \<rparr>),
                 (no_effect (Signed C_redeem))\<lparr> le_payout := a, le_grossPayout := a,
                    le_burned := [delta_at v b BranchUsdc a] \<rparr>)
      | _ \<Rightarrow> Inl WrongVaultState)"

definition redeemScalar :: "vault \<Rightarrow> scalar_side \<Rightarrow> js_number \<Rightarrow> ledger_result" where
  "redeemScalar v side amount =
     (case v_state v of
        ScalarSettled b score \<Rightarrow>
          if badAmount amount then Inl BelowMinimum
          else let a = js_int amount; s = at_branch b (v_branches v);
                   held = (if side = LongSide then bs_long s else bs_short s) in
            if held < a then Inl InsufficientPosition
            else let paid = scalarPayout score side amount;
                     fee = redemptionFee_js (js_of_int paid) DEFAULT_REDEEM_FEE_PPB
                 in Inr (withBranch (vault_payout v paid) b
                      (if side = LongSide then s\<lparr> bs_long := jsub (bs_long s) a \<rparr>
                       else s\<lparr> bs_short := jsub (bs_short s) a \<rparr>),
                    (no_effect (Signed C_redeem_scalar))\<lparr> le_payout := jsub paid fee, le_grossPayout := paid,
                       le_fee := fee,
                       le_burned := [delta_at v b (if side = LongSide then Long else Short) a] \<rparr>)
      | _ \<Rightarrow> Inl WrongVaultState)"

definition redeemScalarPair :: "vault \<Rightarrow> js_number \<Rightarrow> ledger_result" where
  "redeemScalarPair v amount =
     (case v_state v of
        ScalarSettled b score \<Rightarrow>
          if badAmount amount then Inl BelowMinimum
          else let a = js_int amount; s = at_branch b (v_branches v) in
            if bs_long s < a \<or> bs_short s < a \<or> bs_scalarSets s < a then Inl InsufficientPosition
            else let fee = pairRedemptionFee amount score DEFAULT_REDEEM_FEE_PPB
                 in Inr (withBranch (vault_payout v a) b
                      (s\<lparr> bs_long := jsub (bs_long s) a, bs_short := jsub (bs_short s) a,
                          bs_scalarSets := jsub (bs_scalarSets s) a \<rparr>),
                    (no_effect (Signed C_redeem_scalar_pair))\<lparr> le_payout := jsub a fee, le_grossPayout := a,
                       le_fee := fee, le_burned := [delta_at v b Long a, delta_at v b Short a] \<rparr>)
      | _ \<Rightarrow> Inl WrongVaultState)"

text \<open>\<open>yes\<close> is the side: \<open>'Yes'\<close> when true, \<open>'No'\<close> when false.\<close>

definition redeemGate :: "vault \<Rightarrow> gate_type \<Rightarrow> bool \<Rightarrow> js_number \<Rightarrow> ledger_result" where
  "redeemGate v g yes amount =
     (case v_state v of
        ScalarSettled b _ \<Rightarrow>
          (case at_gate g (v_gateOutcomes v) of
             None \<Rightarrow> Inl GateNotSettled
           | Some outcome \<Rightarrow>
               if badAmount amount then Inl BelowMinimum
               else let a = js_int amount; s = at_branch b (v_branches v);
                        kind = (if yes then GateYes g else GateNo g) in
                 if supplyOf s kind < a then Inl InsufficientPosition
                 else let wins = (yes = outcome); paid = (if wins then a else 0);
                          fee = redemptionFee_js (js_of_int paid) DEFAULT_REDEEM_FEE_PPB
                      in Inr (withBranch (vault_payout v paid) b (burnLeg s kind a),
                         (no_effect (Signed C_redeem_gate))\<lparr> le_payout := jsub paid fee, le_grossPayout := paid,
                            le_fee := fee, le_burned := [delta_at v b kind a] \<rparr>))
      | _ \<Rightarrow> Inl WrongVaultState)"

definition redeemVoid :: "vault \<Rightarrow> branch \<Rightarrow> position_kind \<Rightarrow> js_number \<Rightarrow> ledger_result" where
  "redeemVoid v b kind amount =
     (if v_state v \<noteq> Voided then Inl WrongVaultState
      else if badAmount amount then Inl BelowMinimum
      else let a = js_int amount; s = at_branch b (v_branches v) in
        if supplyOf s kind < a then Inl InsufficientPosition
        else let paid = redeemVoidPayout kind amount
             in Inr (withBranch (vault_payout v paid) b (burnLeg s kind a),
                (no_effect (Signed C_redeem_void))\<lparr> le_payout := paid, le_grossPayout := paid,
                   le_burned := [delta_at v b kind a] \<rparr>))"

subsection \<open>Conservation\<close>

definition branchIdentity :: "branch_supply \<Rightarrow> int" where
  "branchIdentity s =
     jadd (jadd (jadd (bs_usdc s) (bs_scalarSets s)) (at_Survival (bs_gateSets s))) (at_Security (bs_gateSets s))"

definition quarterDown :: "int \<Rightarrow> int" where
  "quarterDown n = roundPayoutDown_js (fl (of_int n / 4))"

definition halfDown :: "int \<Rightarrow> int" where
  "halfDown n = roundPayoutDown_js (fl (of_int n / 2))"

text \<open>One branch of the \<open>Voided\<close> valuation: the effective branch-USDC and the leftovers so far.\<close>

definition void_gate :: "branch_supply \<Rightarrow> gate_type \<Rightarrow> int \<times> int \<Rightarrow> int \<times> int" where
  "void_gate s g acc =
     (case acc of (usdc, leftovers) \<Rightarrow>
        let yes = at_gate g (bs_gateYes s); no = at_gate g (bs_gateNo s); gatePairs = min yes no
        in (jadd usdc gatePairs,
            jadd (jadd leftovers (quarterDown (jsub yes gatePairs))) (quarterDown (jsub no gatePairs))))"

definition void_branch :: "vault \<Rightarrow> branch \<Rightarrow> int list \<times> int \<Rightarrow> int list \<times> int" where
  "void_branch v b acc =
     (case acc of (effective, leftovers) \<Rightarrow>
        let s = at_branch b (v_branches v);
            scalarPairs = min (bs_long s) (bs_short s);
            usdc = jadd (bs_usdc s) scalarPairs;
            leftovers1 = jadd leftovers (quarterDown (jsub (bs_long s) scalarPairs));
            leftovers2 = jadd leftovers1 (quarterDown (jsub (bs_short s) scalarPairs));
            (usdc', leftovers') = fold (void_gate s) GATE_TYPES (usdc, leftovers2)
        in (effective @ [usdc'], leftovers'))"

definition settled_gate :: "vault \<Rightarrow> branch_supply \<Rightarrow> gate_type \<Rightarrow> int \<Rightarrow> int" where
  "settled_gate v s g tot =
     jadd tot
       (case at_gate g (v_gateOutcomes v) of
          None \<Rightarrow> max (at_gate g (bs_gateYes s)) (at_gate g (bs_gateNo s))
        | Some outcome \<Rightarrow> if outcome then at_gate g (bs_gateYes s) else at_gate g (bs_gateNo s))"

definition maxClaimValue :: "vault \<Rightarrow> js_number" where
  "maxClaimValue v =
     (case v_state v of
        Open \<Rightarrow> js_of_int (max (branchIdentity (at_branch AcceptB (v_branches v)))
                                (branchIdentity (at_branch RejectB (v_branches v))))
      | Resolved winner \<Rightarrow> js_of_int (branchIdentity (at_branch winner (v_branches v)))
      | Voided \<Rightarrow>
          (let (effective, leftovers) = fold (void_branch v) BRANCHES ([], 0);
               accept = effective ! 0; reject = effective ! 1;
               cross = min accept reject
           in js_of_int (jadd (jadd (jadd cross (halfDown (jsub accept cross)))
                                (halfDown (jsub reject cross))) leftovers))
      | ScalarSettled winner score \<Rightarrow>
          (let s = at_branch winner (v_branches v); pairs = min (bs_long s) (bs_short s);
               tot = jadd (jadd (jadd (bs_usdc s) pairs)
                         (scalarPayout score LongSide (js_of_int (jsub (bs_long s) pairs))))
                         (scalarPayout score ShortSide (js_of_int (jsub (bs_short s) pairs)))
           in js_of_int (fold (settled_gate v s) GATE_TYPES tot))
      | BaselineSettled _ \<Rightarrow> PosInfinity)"

definition claim_covered :: "js_number \<Rightarrow> int \<Rightarrow> bool" where
  "claim_covered m e = (case m of Num r \<Rightarrow> r \<le> of_int e | NegInfinity \<Rightarrow> True | _ \<Rightarrow> False)"

definition sets_balanced :: "branch_supply \<Rightarrow> bool" where
  "sets_balanced s \<longleftrightarrow> bs_long s = bs_short s \<and> bs_long s = bs_scalarSets s \<and>
     (\<forall>g \<in> set GATE_TYPES. at_gate g (bs_gateYes s) = at_gate g (bs_gateNo s) \<and>
        at_gate g (bs_gateYes s) = at_gate g (bs_gateSets s))"

definition checkConservation :: "vault \<Rightarrow> bool" where
  "checkConservation v =
     (if v_escrowed v < 0 \<or> v_paidOut v < 0 then False
      else if jadd (v_escrowed v) (v_paidOut v) \<noteq> v_collateralIn v then False
      else if (case v_state v of BaselineSettled _ \<Rightarrow> True | _ \<Rightarrow> False) then False
      else if v_terminalRedemptions v = 0 \<and>
        \<not> (\<forall>b \<in> set BRANCHES. branchIdentity (at_branch b (v_branches v)) = v_escrowed v \<and>
             sets_balanced (at_branch b (v_branches v))) then False
      else claim_covered (maxClaimValue v) (v_escrowed v))"

subsection \<open>Reading a vault\<close>

definition holdings :: "vault \<Rightarrow> branch \<Rightarrow> branch_supply" where
  "holdings v b = at_branch b (v_branches v)"

lemma at_branch_simps [simp]:
  "at_branch AcceptB m = at_Accept m" "at_branch RejectB m = at_Reject m"
  by (simp_all add: at_branch_def)

lemma at_gate_simps [simp]:
  "at_gate Survival m = at_Survival m" "at_gate Security m = at_Security m"
  by (simp_all add: at_gate_def)

lemma at_gate_set [simp]: "at_gate g (setGateValue m h x) = (if g = h then x else at_gate g m)"
  by (cases g; cases h) (simp_all add: setGateValue_def)

lemma all_branch: "(\<forall>b. P b) \<longleftrightarrow> P AcceptB \<and> P RejectB"
  by (metis branch.exhaust)

lemma all_gate: "(\<forall>g. P g) \<longleftrightarrow> P Survival \<and> P Security"
  by (metis gate_type.exhaust)

lemma set_BRANCHES [simp]: "set BRANCHES = UNIV"
  by (auto simp: BRANCHES_def intro: branch.exhaust)

lemma set_GATE_TYPES [simp]: "set GATE_TYPES = UNIV"
  by (auto simp: GATE_TYPES_def intro: gate_type.exhaust)

lemma withBranch_simps [simp]:
  "holdings (withBranch v b s) b' = (if b' = b then s else holdings v b')"
  "v_escrowed (withBranch v b s) = v_escrowed v" "v_paidOut (withBranch v b s) = v_paidOut v"
  "v_collateralIn (withBranch v b s) = v_collateralIn v" "v_state (withBranch v b s) = v_state v"
  "v_gateOutcomes (withBranch v b s) = v_gateOutcomes v" "v_proposal (withBranch v b s) = v_proposal v"
  "v_terminalRedemptions (withBranch v b s) = v_terminalRedemptions v"
  by (cases b; cases b'; simp add: withBranch_def holdings_def)+

lemma supply_update [simp]:
  "holdings (v\<lparr> v_escrowed := x \<rparr>) = holdings v" "holdings (v\<lparr> v_paidOut := x \<rparr>) = holdings v"
  "holdings (v\<lparr> v_collateralIn := x \<rparr>) = holdings v" "holdings (v\<lparr> v_state := st \<rparr>) = holdings v"
  "holdings (v\<lparr> v_gateOutcomes := oc \<rparr>) = holdings v" "holdings (v\<lparr> v_terminalRedemptions := x \<rparr>) = holdings v"
  by (simp_all add: holdings_def fun_eq_iff)

lemma vault_payout_simps [simp]:
  "holdings (vault_payout v x) = holdings v" "v_escrowed (vault_payout v x) = jsub (v_escrowed v) x"
  "v_paidOut (vault_payout v x) = jadd (v_paidOut v) x" "v_collateralIn (vault_payout v x) = v_collateralIn v"
  "v_state (vault_payout v x) = v_state v" "v_gateOutcomes (vault_payout v x) = v_gateOutcomes v"
  "v_proposal (vault_payout v x) = v_proposal v"
  "v_terminalRedemptions (vault_payout v x) = jadd (v_terminalRedemptions v) 1"
  by (simp_all add: vault_payout_def)

lemma supply_fold: "at_branch b (v_branches v) = holdings v b"
  by (simp add: holdings_def)

subsection \<open>The linear functionals of a supply\<close>

definition gate_sum :: "int per_gate \<Rightarrow> int" where
  "gate_sum m = at_Survival m + at_Security m"

definition ident :: "branch_supply \<Rightarrow> int" where
  "ident s = bs_usdc s + bs_scalarSets s + gate_sum (bs_gateSets s)"

definition void_val :: "branch_supply \<Rightarrow> int" where
  "void_val s = 2 * bs_usdc s + bs_long s + bs_short s + gate_sum (bs_gateYes s) + gate_sum (bs_gateNo s)"

definition gate_val :: "bool option \<Rightarrow> int \<Rightarrow> int \<Rightarrow> int" where
  "gate_val oc yes no = (case oc of None \<Rightarrow> max yes no | Some True \<Rightarrow> yes | Some False \<Rightarrow> no)"

definition settled_val :: "int \<Rightarrow> bool option per_gate \<Rightarrow> branch_supply \<Rightarrow> int" where
  "settled_val r oc s =
     FIXED_SCALE * bs_usdc s + r * bs_long s + (FIXED_SCALE - r) * bs_short s
     + FIXED_SCALE * (gate_val (at_Survival oc) (at_Survival (bs_gateYes s)) (at_Survival (bs_gateNo s))
                    + gate_val (at_Security oc) (at_Security (bs_gateYes s)) (at_Security (bs_gateNo s)))"

definition gates_nonneg :: "int per_gate \<Rightarrow> bool" where
  "gates_nonneg m \<longleftrightarrow> 0 \<le> at_Survival m \<and> 0 \<le> at_Security m"

text \<open>Every holding is non-negative and no family of holdings exceeds what was ever split in.\<close>

definition supply_ok :: "int \<Rightarrow> branch_supply \<Rightarrow> bool" where
  "supply_ok C s \<longleftrightarrow>
     0 \<le> bs_usdc s \<and> 0 \<le> bs_scalarSets s \<and> 0 \<le> bs_long s \<and> 0 \<le> bs_short s \<and>
     gates_nonneg (bs_gateSets s) \<and> gates_nonneg (bs_gateYes s) \<and> gates_nonneg (bs_gateNo s) \<and>
     bs_usdc s + bs_long s + gate_sum (bs_gateYes s) \<le> C \<and>
     bs_usdc s + bs_short s + gate_sum (bs_gateNo s) \<le> C \<and> ident s \<le> C"

definition balanced :: "int \<Rightarrow> branch_supply \<Rightarrow> bool" where
  "balanced E s \<longleftrightarrow> ident s = E \<and> sets_balanced s"

lemmas functional_defs = ident_def void_val_def settled_val_def gate_sum_def

lemma gate_val_nonneg: "0 \<le> yes \<Longrightarrow> 0 \<le> no \<Longrightarrow> 0 \<le> gate_val oc yes no"
  by (auto simp: gate_val_def split: option.splits bool.splits)

lemma gate_val_le: "0 \<le> yes \<Longrightarrow> 0 \<le> no \<Longrightarrow> gate_val oc yes no \<le> yes + no"
  by (auto simp: gate_val_def split: option.splits bool.splits)

lemma settled_val_nonneg:
  assumes "supply_ok C s" "0 \<le> r" "r \<le> FIXED_SCALE"
  shows "0 \<le> settled_val r oc s"
proof -
  have s: "0 \<le> bs_usdc s" "0 \<le> bs_long s" "0 \<le> bs_short s" "0 \<le> FIXED_SCALE"
    using assms by (simp_all add: supply_ok_def FIXED_SCALE_def)
  have "0 \<le> gate_val (at_Survival oc) (at_Survival (bs_gateYes s)) (at_Survival (bs_gateNo s))"
    "0 \<le> gate_val (at_Security oc) (at_Security (bs_gateYes s)) (at_Security (bs_gateNo s))"
    using assms(1) by (simp_all add: supply_ok_def gates_nonneg_def gate_val_nonneg)
  then show ?thesis
    unfolding settled_val_def using s assms(2,3) by (intro add_nonneg_nonneg mult_nonneg_nonneg) simp_all
qed

lemma void_val_nonneg: "supply_ok C s \<Longrightarrow> 0 \<le> void_val s"
  by (simp add: supply_ok_def void_val_def gates_nonneg_def gate_sum_def)

lemma balanced_void_val: "balanced E s \<Longrightarrow> void_val s = 2 * E"
  by (auto simp: balanced_def functional_defs sets_balanced_def GATE_TYPES_def)

lemma balanced_settled_val: "balanced E s \<Longrightarrow> settled_val r oc s = FIXED_SCALE * E"
  by (auto simp: balanced_def functional_defs sets_balanced_def GATE_TYPES_def gate_val_def algebra_simps
      split: option.splits bool.splits)

subsection \<open>The invariant\<close>

definition state_inv :: "vault \<Rightarrow> bool" where
  "state_inv v \<longleftrightarrow>
     (case v_state v of
        Open \<Rightarrow> v_terminalRedemptions v = 0
      | Resolved _ \<Rightarrow> v_terminalRedemptions v = 0
      | Voided \<Rightarrow> void_val (holdings v AcceptB) + void_val (holdings v RejectB) \<le> 4 * v_escrowed v
      | ScalarSettled w sc \<Rightarrow>
          (case scoreRaw sc of
             None \<Rightarrow> False
           | Some r \<Rightarrow> settled_val r (v_gateOutcomes v) (holdings v w) \<le> FIXED_SCALE * v_escrowed v)
      | BaselineSettled _ \<Rightarrow> False)"

definition vault_inv :: "vault \<Rightarrow> bool" where
  "vault_inv v \<longleftrightarrow>
     0 \<le> v_escrowed v \<and> 0 \<le> v_paidOut v \<and> v_escrowed v + v_paidOut v = v_collateralIn v \<and>
     0 \<le> v_terminalRedemptions v \<and> (\<forall>b. supply_ok (v_collateralIn v) (holdings v b)) \<and>
     (v_terminalRedemptions v = 0 \<longrightarrow> (\<forall>b. balanced (v_escrowed v) (holdings v b))) \<and> state_inv v"

lemma vault_inv_create: "vault_inv (createVault p)"
  by (simp add: vault_inv_def createVault_def supply_ok_def emptySupply_def ZERO_GATES_def holdings_def
      all_branch state_inv_def balanced_def functional_defs gates_nonneg_def sets_balanced_def GATE_TYPES_def)

lemma js_round_bounds:
  "of_int a \<le> x \<Longrightarrow> a \<le> js_round x" "x \<le> of_int b \<Longrightarrow> js_round x \<le> b"
  unfolding js_round_def by (simp_all add: le_floor_iff floor_le_iff)

lemma scoreRaw_bounds:
  assumes "scoreRaw s = Some r"
  shows "0 \<le> r" "r \<le> FIXED_SCALE"
proof -
  obtain x where s: "s = Num x" and x: "0 \<le> x" "x \<le> 1" and r: "r = js_round (fl (x * of_int FIXED_SCALE))"
    using assms by (auto simp: scoreRaw_def split: js_number.splits if_splits)
  have "fl 0 \<le> fl (x * of_int FIXED_SCALE)" using x by (intro fl_mono) (simp add: FIXED_SCALE_def)
  then show "0 \<le> r" unfolding r by (intro js_round_bounds(1)) simp
  have "fl (x * of_int FIXED_SCALE) \<le> fl (of_int FIXED_SCALE)"
    using x by (intro fl_mono) (simp add: FIXED_SCALE_def)
  also have "fl (of_int FIXED_SCALE) = of_int FIXED_SCALE" by (rule fl_int) (simp add: FIXED_SCALE_def)
  finally show "r \<le> FIXED_SCALE" unfolding r by (intro js_round_bounds(2))
qed

lemma badAmount_iff: "badAmount amount \<longleftrightarrow> \<not> (isSafeInteger amount \<and> 0 \<le> js_int amount)"
  by (auto simp: badAmount_def)

lemma not_badAmount:
  assumes "\<not> badAmount amount"
  shows "0 \<le> js_int amount" "js_int amount \<le> MAX_SAFE_INTEGER" "isSafeInteger amount"
  using assms isSafeInteger_bounds [of amount] by (auto simp: badAmount_def)

lemma floorScaled_eq:
  assumes "0 \<le> a" "a \<le> MAX_SAFE_INTEGER" "0 \<le> r" "r \<le> FIXED_SCALE"
  shows "floorScaled a r = (a * r) div FIXED_SCALE" "0 \<le> floorScaled a r" "floorScaled a r \<le> a"
    "FIXED_SCALE * floorScaled a r \<le> r * a"
proof -
  have p: "0 < FIXED_SCALE" by (simp add: FIXED_SCALE_def)
  let ?q = "(a * r) div FIXED_SCALE"
  have q0: "0 \<le> ?q" using assms p by (simp add: pos_imp_zdiv_nonneg_iff)
  have "a * r < (a + 1) * FIXED_SCALE"
    using mult_left_mono [OF assms(4,1)] p by (simp add: distrib_right)
  then have qa: "?q \<le> a" using div_less_iff_less_mult_int [OF p, of "a * r" "a + 1"] by simp
  have "\<bar>?q\<bar> \<le> 2 ^ 53" using q0 qa assms(2) by (simp add: MAX_SAFE_INTEGER_def)
  then show eq: "floorScaled a r = ?q" unfolding floorScaled_def by (simp only: fl_int floor_of_int)
  show "0 \<le> floorScaled a r" "floorScaled a r \<le> a" using q0 qa eq by simp_all
  show "FIXED_SCALE * floorScaled a r \<le> r * a"
    unfolding eq using mult_div_le_self [OF p, of "a * r"] by (simp add: mult.commute)
qed

lemma scalarPayout_bounds:
  assumes "scoreRaw s = Some r" "isSafeInteger amount" "0 \<le> js_int amount"
  shows "0 \<le> scalarPayout s side amount" "scalarPayout s side amount \<le> js_int amount"
    "FIXED_SCALE * scalarPayout s side amount
       \<le> (if side = LongSide then r else FIXED_SCALE - r) * js_int amount"
proof -
  note r = scoreRaw_bounds [OF assms(1)]
  have j: "jsub FIXED_SCALE r = FIXED_SCALE - r"
    using r by (intro jsub_nonneg_exact) (simp_all add: FIXED_SCALE_def)
  have a: "js_int amount \<le> MAX_SAFE_INTEGER" using isSafeInteger_bounds [OF assms(2)] by simp
  have eq: "scalarPayout s side amount =
      floorScaled (js_int amount) (if side = LongSide then r else FIXED_SCALE - r)"
    using assms by (simp add: scalarPayout_def j)
  show "0 \<le> scalarPayout s side amount" "scalarPayout s side amount \<le> js_int amount"
    "FIXED_SCALE * scalarPayout s side amount \<le> (if side = LongSide then r else FIXED_SCALE - r) * js_int amount"
    unfolding eq using floorScaled_eq [OF assms(3) a] r by simp_all
qed

lemma redeemVoidPayout_eq:
  assumes "isSafeInteger amount" "0 \<le> js_int amount"
  shows "redeemVoidPayout kind amount = (if kind = BranchUsdc then js_int amount div 2 else js_int amount div 4)"
  using assms isSafeInteger_bounds [OF assms(1)]
  by (simp add: redeemVoidPayout_def roundPayoutDown_half roundPayoutDown_quarter)

lemma jadd_one_pos: "0 \<le> n \<Longrightarrow> 1 \<le> jadd n 1"
proof -
  assume "0 \<le> n"
  then have "fl (of_int 1) \<le> fl (of_int (n + 1))" by (intro fl_mono) simp
  moreover have "fl (of_int 1) = of_int 1" by (rule fl_int) simp
  ultimately show ?thesis unfolding jadd_def by (simp add: le_floor_iff)
qed

subsection \<open>Supplies under the calls\<close>

text \<open>What a move inside one branch keeps: the identity, the valuations and the balance.\<close>

definition move_keeps :: "int \<Rightarrow> branch_supply \<Rightarrow> branch_supply \<Rightarrow> bool" where
  "move_keeps C s s' \<longleftrightarrow> supply_ok C s' \<and> ident s' = ident s \<and> void_val s' = void_val s \<and>
     (sets_balanced s \<longrightarrow> sets_balanced s')"

lemmas supply_defs = supply_ok_def functional_defs gates_nonneg_def

lemma sets_balanced_iff:
  "sets_balanced s \<longleftrightarrow> bs_long s = bs_short s \<and> bs_long s = bs_scalarSets s \<and>
     at_Survival (bs_gateYes s) = at_Survival (bs_gateNo s) \<and> at_Survival (bs_gateYes s) = at_Survival (bs_gateSets s) \<and>
     at_Security (bs_gateYes s) = at_Security (bs_gateNo s) \<and> at_Security (bs_gateYes s) = at_Security (bs_gateSets s)"
  by (simp add: sets_balanced_def GATE_TYPES_def)

lemma sub_exact:
  assumes ok: "supply_ok C s" and safe: "C \<le> MAX_SAFE_INTEGER" and a0: "0 \<le> a"
  shows "a \<le> bs_usdc s \<Longrightarrow> jsub (bs_usdc s) a = bs_usdc s - a"
    "a \<le> bs_long s \<Longrightarrow> jsub (bs_long s) a = bs_long s - a"
    "a \<le> bs_short s \<Longrightarrow> jsub (bs_short s) a = bs_short s - a"
    "a \<le> bs_scalarSets s \<Longrightarrow> jsub (bs_scalarSets s) a = bs_scalarSets s - a"
    "a \<le> at_Survival (bs_gateYes s) \<Longrightarrow> jsub (at_Survival (bs_gateYes s)) a = at_Survival (bs_gateYes s) - a"
    "a \<le> at_Survival (bs_gateNo s) \<Longrightarrow> jsub (at_Survival (bs_gateNo s)) a = at_Survival (bs_gateNo s) - a"
    "a \<le> at_Survival (bs_gateSets s) \<Longrightarrow> jsub (at_Survival (bs_gateSets s)) a = at_Survival (bs_gateSets s) - a"
    "a \<le> at_Security (bs_gateYes s) \<Longrightarrow> jsub (at_Security (bs_gateYes s)) a = at_Security (bs_gateYes s) - a"
    "a \<le> at_Security (bs_gateNo s) \<Longrightarrow> jsub (at_Security (bs_gateNo s)) a = at_Security (bs_gateNo s) - a"
    "a \<le> at_Security (bs_gateSets s) \<Longrightarrow> jsub (at_Security (bs_gateSets s)) a = at_Security (bs_gateSets s) - a"
  by (rule jsub_nonneg_exact; use ok safe a0 in \<open>simp add: supply_defs MAX_SAFE_INTEGER_def\<close>)+

lemma split_scalar_move:
  assumes ok: "supply_ok C s" and safe: "C \<le> MAX_SAFE_INTEGER" and a0: "0 \<le> a"
    and assms: "a \<le> bs_usdc s"
  shows "move_keeps C s (s\<lparr> bs_usdc := jsub (bs_usdc s) a, bs_scalarSets := jadd (bs_scalarSets s) a,
            bs_long := jadd (bs_long s) a, bs_short := jadd (bs_short s) a \<rparr>)"
proof -
  have "jadd (bs_scalarSets s) a = bs_scalarSets s + a" "jadd (bs_long s) a = bs_long s + a"
    "jadd (bs_short s) a = bs_short s + a"
    by (rule jadd_nonneg_exact; use ok safe a0 assms in \<open>simp add: supply_defs MAX_SAFE_INTEGER_def\<close>)+
  then show ?thesis
    using ok a0 assms unfolding move_keeps_def
    by (simp add: sub_exact [OF ok safe a0] supply_defs sets_balanced_iff)
qed

lemma merge_scalar_move:
  assumes ok: "supply_ok C s" and safe: "C \<le> MAX_SAFE_INTEGER" and a0: "0 \<le> a"
    and assms: "a \<le> bs_long s" "a \<le> bs_short s" "a \<le> bs_scalarSets s"
  shows "move_keeps C s (s\<lparr> bs_usdc := jadd (bs_usdc s) a, bs_scalarSets := jsub (bs_scalarSets s) a,
            bs_long := jsub (bs_long s) a, bs_short := jsub (bs_short s) a \<rparr>)"
proof -
  have "jadd (bs_usdc s) a = bs_usdc s + a"
    by (rule jadd_nonneg_exact; use ok safe a0 assms in \<open>simp add: supply_defs MAX_SAFE_INTEGER_def\<close>)
  then show ?thesis
    using ok a0 assms unfolding move_keeps_def
    by (simp add: sub_exact [OF ok safe a0] supply_defs sets_balanced_iff)
qed

lemma split_gate_move:
  assumes ok: "supply_ok C s" and safe: "C \<le> MAX_SAFE_INTEGER" and a0: "0 \<le> a"
    and assms: "a \<le> bs_usdc s"
  shows "move_keeps C s (s\<lparr> bs_usdc := jsub (bs_usdc s) a,
      bs_gateSets := setGateValue (bs_gateSets s) g (jadd (at_gate g (bs_gateSets s)) a),
      bs_gateYes := setGateValue (bs_gateYes s) g (jadd (at_gate g (bs_gateYes s)) a),
      bs_gateNo := setGateValue (bs_gateNo s) g (jadd (at_gate g (bs_gateNo s)) a) \<rparr>)"
proof -
  have "jadd (at_gate g (bs_gateSets s)) a = at_gate g (bs_gateSets s) + a"
    "jadd (at_gate g (bs_gateYes s)) a = at_gate g (bs_gateYes s) + a"
    "jadd (at_gate g (bs_gateNo s)) a = at_gate g (bs_gateNo s) + a"
    by (rule jadd_nonneg_exact; use ok safe a0 assms in \<open>cases g; simp add: supply_defs MAX_SAFE_INTEGER_def\<close>)+
  then show ?thesis
    using ok a0 assms unfolding move_keeps_def
    by (cases g) (auto simp: sub_exact [OF ok safe a0] supply_defs sets_balanced_iff setGateValue_def)
qed

lemma merge_gate_move:
  assumes ok: "supply_ok C s" and safe: "C \<le> MAX_SAFE_INTEGER" and a0: "0 \<le> a"
    and assms: "a \<le> at_gate g (bs_gateYes s)" "a \<le> at_gate g (bs_gateNo s)" "a \<le> at_gate g (bs_gateSets s)"
  shows "move_keeps C s (s\<lparr> bs_usdc := jadd (bs_usdc s) a,
      bs_gateSets := setGateValue (bs_gateSets s) g (jsub (at_gate g (bs_gateSets s)) a),
      bs_gateYes := setGateValue (bs_gateYes s) g (jsub (at_gate g (bs_gateYes s)) a),
      bs_gateNo := setGateValue (bs_gateNo s) g (jsub (at_gate g (bs_gateNo s)) a) \<rparr>)"
proof -
  have "jadd (bs_usdc s) a = bs_usdc s + a"
    by (rule jadd_nonneg_exact; use ok safe a0 assms in \<open>cases g; simp add: supply_defs MAX_SAFE_INTEGER_def\<close>)
  then show ?thesis
    using ok a0 assms unfolding move_keeps_def
    by (cases g) (auto simp: sub_exact [OF ok safe a0] supply_defs sets_balanced_iff setGateValue_def)
qed

lemma burn_usdc:
  assumes ok: "supply_ok C s" and safe: "C \<le> MAX_SAFE_INTEGER" and a0: "0 \<le> a"
    and assms: "a \<le> bs_usdc s"
  shows "supply_ok C (s\<lparr> bs_usdc := jsub (bs_usdc s) a \<rparr>)"
    "ident (s\<lparr> bs_usdc := jsub (bs_usdc s) a \<rparr>) = ident s - a"
    "void_val (s\<lparr> bs_usdc := jsub (bs_usdc s) a \<rparr>) = void_val s - 2 * a"
    "settled_val r oc (s\<lparr> bs_usdc := jsub (bs_usdc s) a \<rparr>) = settled_val r oc s - FIXED_SCALE * a"
    "sets_balanced s \<Longrightarrow> sets_balanced (s\<lparr> bs_usdc := jsub (bs_usdc s) a \<rparr>)"
  using ok a0 assms by (simp_all add: sub_exact [OF ok safe a0] supply_defs sets_balanced_iff algebra_simps)

lemma burn_side:
  assumes ok: "supply_ok C s" and safe: "C \<le> MAX_SAFE_INTEGER" and a0: "0 \<le> a"
  shows "a \<le> bs_long s \<Longrightarrow> supply_ok C (s\<lparr> bs_long := jsub (bs_long s) a \<rparr>) \<and>
     settled_val r oc (s\<lparr> bs_long := jsub (bs_long s) a \<rparr>) = settled_val r oc s - r * a"
  "a \<le> bs_short s \<Longrightarrow> supply_ok C (s\<lparr> bs_short := jsub (bs_short s) a \<rparr>) \<and>
     settled_val r oc (s\<lparr> bs_short := jsub (bs_short s) a \<rparr>) = settled_val r oc s - (FIXED_SCALE - r) * a"
  using ok a0 by (simp_all add: sub_exact [OF ok safe a0] supply_defs algebra_simps)

lemma burn_pair:
  assumes ok: "supply_ok C s" and safe: "C \<le> MAX_SAFE_INTEGER" and a0: "0 \<le> a"
    and assms: "a \<le> bs_long s" "a \<le> bs_short s" "a \<le> bs_scalarSets s"
  shows "supply_ok C (s\<lparr> bs_long := jsub (bs_long s) a, bs_short := jsub (bs_short s) a,
            bs_scalarSets := jsub (bs_scalarSets s) a \<rparr>)"
    "settled_val r oc (s\<lparr> bs_long := jsub (bs_long s) a, bs_short := jsub (bs_short s) a,
            bs_scalarSets := jsub (bs_scalarSets s) a \<rparr>) = settled_val r oc s - FIXED_SCALE * a"
  using ok a0 assms by (simp_all add: sub_exact [OF ok safe a0] supply_defs algebra_simps)

lemma burnLeg_ok:
  assumes ok: "supply_ok C s" and safe: "C \<le> MAX_SAFE_INTEGER" and a0: "0 \<le> a"
    and assms: "a \<le> supplyOf s kind"
  shows "supply_ok C (burnLeg s kind a)"
    "void_val (burnLeg s kind a) = void_val s - (if kind = BranchUsdc then 2 else 1) * a"
proof -
  have "supply_ok C (burnLeg s kind a) \<and>
    void_val (burnLeg s kind a) = void_val s - (if kind = BranchUsdc then 2 else 1) * a"
  proof (cases kind)
    case (GateYes g)
    then show ?thesis using ok a0 assms 
      by (cases g) (simp_all add: burnLeg_def supplyOf_def supply_defs setGateValue_def sub_exact [OF ok safe a0])
  next
    case (GateNo g)
    then show ?thesis using ok a0 assms 
      by (cases g) (simp_all add: burnLeg_def supplyOf_def supply_defs setGateValue_def sub_exact [OF ok safe a0])
  qed (use ok a0 assms in \<open>simp_all add: burnLeg_def supplyOf_def supply_defs sub_exact [OF ok safe a0]\<close>)
  then show "supply_ok C (burnLeg s kind a)"
    "void_val (burnLeg s kind a) = void_val s - (if kind = BranchUsdc then 2 else 1) * a" by blast+
qed

lemma burn_gate_settled:
  assumes ok: "supply_ok C s" and safe: "C \<le> MAX_SAFE_INTEGER" and a0: "0 \<le> a"
    and assms: "a \<le> supplyOf s (if yes then GateYes g else GateNo g)" "at_gate g oc = Some outcome"
  shows "settled_val r oc (burnLeg s (if yes then GateYes g else GateNo g) a) =
    settled_val r oc s - FIXED_SCALE * (if yes = outcome then a else 0)"
  using assms ok a0 
  by (cases g; cases yes; cases outcome)
    (simp_all add: burnLeg_def supplyOf_def settled_val_def setGateValue_def gate_val_def algebra_simps sub_exact [OF ok safe a0])

declare at_branch_simps [simp del]
declare supply_fold [simp]

subsection \<open>Every operation keeps the invariant\<close>

lemma vault_invD:
  assumes "vault_inv v"
  shows "0 \<le> v_escrowed v" "0 \<le> v_paidOut v" "v_escrowed v + v_paidOut v = v_collateralIn v"
    "0 \<le> v_terminalRedemptions v" "supply_ok (v_collateralIn v) (holdings v b)"
    "v_terminalRedemptions v = 0 \<Longrightarrow> balanced (v_escrowed v) (holdings v b)" "state_inv v"
  using assms by (simp_all add: vault_inv_def)

lemma move_inv:
  assumes inv: "vault_inv v" and st: "admitsPairOps (v_state v)"
    and mv: "move_keeps (v_collateralIn v) (holdings v b) s'"
  shows "vault_inv (withBranch v b s')"
  using inv st mv
  by (cases "v_state v"; cases b)
    (auto simp: vault_inv_def move_keeps_def state_inv_def admitsPairOps_def balanced_def)

lemma balanced_both:
  assumes "vault_inv v" "v_terminalRedemptions v = 0"
  shows "void_val (holdings v AcceptB) + void_val (holdings v RejectB) = 4 * v_escrowed v"
    "settled_val r oc (holdings v b) = FIXED_SCALE * v_escrowed v"
  using balanced_void_val [OF vault_invD(6) [OF assms]] balanced_settled_val [OF vault_invD(6) [OF assms]]
  by simp_all

lemma vault_split_inv:
  assumes "vault_inv v" "vault_split v amount = Inr (v', e)" "v_collateralIn v' \<le> MAX_SAFE_INTEGER"
  shows "vault_inv v'"
proof -
  let ?a = "js_int amount"
  have st: "v_state v = Open" and bad: "\<not> badAmount amount"
    and v': "v' = fold (\<lambda>b w. withBranch w b ((holdings w b)\<lparr> bs_usdc := jadd (bs_usdc (holdings w b)) ?a \<rparr>)) BRANCHES
        (v\<lparr> v_escrowed := jadd (v_escrowed v) ?a, v_collateralIn := jadd (v_collateralIn v) ?a \<rparr>)"
    using assms(2) by (auto simp: vault_split_def Let_def split: if_splits)
  note a = not_badAmount [OF bad]
  note inv = vault_invD [OF assms(1)]
  have C': "v_collateralIn v' = jadd (v_collateralIn v) ?a" by (simp add: v' BRANCHES_def)
  have C0: "0 \<le> v_collateralIn v" using inv(1-3) by linarith
  have safe: "v_collateralIn v + ?a \<le> MAX_SAFE_INTEGER" and C: "jadd (v_collateralIn v) ?a = v_collateralIn v + ?a"
    using jadd_safe_exact [OF C0 a(1)] assms(3) C' by simp_all
  have E: "jadd (v_escrowed v) ?a = v_escrowed v + ?a"
    using inv(1-3) a safe by (intro jadd_nonneg_exact) (simp_all add: MAX_SAFE_INTEGER_def)
  have U: "jadd (bs_usdc (holdings v b)) ?a = bs_usdc (holdings v b) + ?a" for b
    using inv(5) [of b] a safe by (intro jadd_nonneg_exact) (simp_all add: MAX_SAFE_INTEGER_def supply_defs)
  have H: "holdings v' b = (holdings v b)\<lparr> bs_usdc := bs_usdc (holdings v b) + ?a \<rparr>" for b
    by (cases b) (simp_all add: v' BRANCHES_def U)
  have ok: "supply_ok (v_collateralIn v + ?a) (holdings v' b)" for b
    using inv(5) [of b] a unfolding H by (simp add: supply_defs)
  have bal: "balanced (v_escrowed v + ?a) (holdings v' b)" for b
    using inv(7) st inv(6) [of b] unfolding H
    by (simp add: state_inv_def balanced_def functional_defs sets_balanced_iff)
  show ?thesis
    using inv ok bal st unfolding vault_inv_def
    by (simp add: C' C state_inv_def) (simp add: v' BRANCHES_def E a)
qed

lemma vault_merge_inv:
  assumes "vault_inv v" "v_collateralIn v \<le> MAX_SAFE_INTEGER" "vault_merge v amount = Inr (v', e)"
  shows "vault_inv v'"
proof -
  let ?a = "js_int amount"
  have st: "admitsPairOps (v_state v)" and bad: "\<not> badAmount amount"
    and le: "\<And>b. ?a \<le> bs_usdc (holdings v b)"
    and v': "v' = fold (\<lambda>b w. withBranch w b ((holdings w b)\<lparr> bs_usdc := jsub (bs_usdc (holdings w b)) ?a \<rparr>)) BRANCHES
        (v\<lparr> v_escrowed := jsub (v_escrowed v) ?a, v_paidOut := jadd (v_paidOut v) ?a \<rparr>)"
    using assms(3) by (auto simp: vault_merge_def Let_def not_less split: if_splits)
  note a = not_badAmount [OF bad]
  note inv = vault_invD [OF assms(1)]
  have H: "holdings v' b = (holdings v b)\<lparr> bs_usdc := jsub (bs_usdc (holdings v b)) ?a \<rparr>" for b
    by (cases b) (simp_all add: v' BRANCHES_def)
  note burn = burn_usdc [OF inv(5) assms(2) a(1) le]
  have V: "?a \<le> v_escrowed v"
  proof (cases "v_terminalRedemptions v = 0")
    case True
    then have "ident (holdings v AcceptB) = v_escrowed v" using inv(6) by (simp add: balanced_def)
    then show ?thesis using le [of AcceptB] inv(5) [of AcceptB] by (simp add: supply_defs)
  next
    case False
    then have "v_state v = Voided" using inv(7) st by (auto simp: state_inv_def admitsPairOps_def split: vault_state.splits)
    then have vv: "void_val (holdings v AcceptB) + void_val (holdings v RejectB) \<le> 4 * v_escrowed v"
      using inv(7) by (simp add: state_inv_def)
    have "2 * ?a \<le> void_val (holdings v b)" for b
      using le [of b] inv(5) [of b] by (simp add: supply_defs)
    from this [of AcceptB] this [of RejectB] vv show ?thesis by linarith
  qed
  have E: "jsub (v_escrowed v) ?a = v_escrowed v - ?a"
    using inv(1-3) a V assms(2) by (intro jsub_nonneg_exact) (simp_all add: MAX_SAFE_INTEGER_def)
  have P: "jadd (v_paidOut v) ?a = v_paidOut v + ?a"
    using inv(1-3) a V assms(2) by (intro jadd_nonneg_exact) (simp_all add: MAX_SAFE_INTEGER_def)
  have S: "v_escrowed v' = v_escrowed v - ?a" "v_paidOut v' = v_paidOut v + ?a"
    "v_collateralIn v' = v_collateralIn v" "v_terminalRedemptions v' = v_terminalRedemptions v"
    "v_state v' = v_state v" "v_gateOutcomes v' = v_gateOutcomes v"
    by (simp_all add: v' BRANCHES_def E P)
  have sv: "state_inv v'"
    using inv(7) st by (auto simp: state_inv_def S H burn admitsPairOps_def split: vault_state.splits)
  show ?thesis
    using inv V a(1) sv unfolding vault_inv_def by (simp add: S H burn balanced_def)
qed

lemma mergeScalar_inv:
  assumes "vault_inv v" "v_collateralIn v \<le> MAX_SAFE_INTEGER" "mergeScalar v b amount = Inr (v', e)"
  shows "vault_inv v'"
  using assms vault_invD(5) [OF assms(1), of b] not_badAmount [of amount]
  by (auto simp: mergeScalar_def Let_def not_less intro!: move_inv merge_scalar_move split: if_splits)

lemma splitScalar_inv:
  assumes "vault_inv v" "v_collateralIn v \<le> MAX_SAFE_INTEGER" "splitScalar v b amount = Inr (v', e)"
  shows "vault_inv v'"
  using assms vault_invD(5) [OF assms(1), of b] not_badAmount [of amount]
  by (auto simp: splitScalar_def Let_def not_less admitsPairOps_def intro!: move_inv split_scalar_move split: if_splits)

lemma splitGate_inv:
  assumes "vault_inv v" "v_collateralIn v \<le> MAX_SAFE_INTEGER" "splitGate v b g amount = Inr (v', e)"
  shows "vault_inv v'"
  using assms vault_invD(5) [OF assms(1), of b] not_badAmount [of amount]
  by (auto simp: splitGate_def Let_def not_less admitsPairOps_def intro!: move_inv split_gate_move split: if_splits)

lemma mergeGate_inv:
  assumes "vault_inv v" "v_collateralIn v \<le> MAX_SAFE_INTEGER" "mergeGate v b g amount = Inr (v', e)"
  shows "vault_inv v'"
  using assms vault_invD(5) [OF assms(1), of b] not_badAmount [of amount]
  by (auto simp: mergeGate_def Let_def not_less intro!: move_inv merge_gate_move split: if_splits)

lemma vault_transfer_inv: "vault_inv v \<Longrightarrow> vault_transfer v p amount = Inr (v', e) \<Longrightarrow> vault_inv v'"
  by (auto simp: vault_transfer_def Let_def split: if_splits position_id.splits)

lemma vault_resolve_inv: "vault_inv v \<Longrightarrow> vault_resolve v w = Inr (v', e) \<Longrightarrow> vault_inv v'"
  by (auto simp: vault_resolve_def vault_inv_def state_inv_def split: if_splits)

lemma voidVault_inv:
  assumes "vault_inv v" "voidVault v = Inr (v', e)"
  shows "vault_inv v'"
proof -
  have st: "v_state v = Open \<or> (\<exists>w. v_state v = Resolved w)" and v': "v' = v\<lparr> v_state := Voided \<rparr>"
    using assms(2) by (auto simp: voidVault_def split: vault_state.splits)
  have "v_terminalRedemptions v = 0" using vault_invD(7) [OF assms(1)] st by (auto simp: state_inv_def)
  from balanced_both(1) [OF assms(1) this] show ?thesis
    using assms(1) by (simp add: v' vault_inv_def state_inv_def)
qed

lemma settleScalar_inv:
  assumes "vault_inv v" "settleScalar v s = Inr (v', e)"
  shows "vault_inv v'"
proof -
  obtain w r where st: "v_state v = Resolved w" and r: "scoreRaw s = Some r"
    and v': "v' = v\<lparr> v_state := ScalarSettled w s \<rparr>"
    using assms(2) by (auto simp: settleScalar_def split: vault_state.splits if_splits)
  have "v_terminalRedemptions v = 0" using vault_invD(7) [OF assms(1)] st by (simp add: state_inv_def)
  from balanced_both(2) [OF assms(1) this] show ?thesis
    using assms(1) r by (simp add: v' vault_inv_def state_inv_def)
qed

lemma gate_val_settle: "gate_val (Some x) yes no \<le> gate_val None yes no"
  by (simp add: gate_val_def split: bool.splits)

lemma settled_val_settle:
  assumes "at_gate g oc = None"
  shows "settled_val r (setGateValue oc g (Some x)) s \<le> settled_val r oc s"
  using assms gate_val_settle [of x] FIXED_SCALE_def
  by (cases g) (simp_all add: settled_val_def setGateValue_def)

lemma settleGate_inv:
  assumes "vault_inv v" "settleGate v g x = Inr (v', e)"
  shows "vault_inv v'"
proof -
  have oc: "at_gate g (v_gateOutcomes v) = None"
    and v': "v' = v\<lparr> v_gateOutcomes := setGateValue (v_gateOutcomes v) g (Some x) \<rparr>"
    using assms(2) by (auto simp: settleGate_def split: if_splits)
  have "state_inv v'"
    using vault_invD(7) [OF assms(1)] order_trans [OF settled_val_settle [OF oc]]
    by (auto simp: v' state_inv_def split: vault_state.splits option.splits)
  then show ?thesis using assms(1) by (simp add: v' vault_inv_def)
qed

text \<open>A terminal redemption in a settled or voided vault: the claim falls by at least the payout.\<close>

lemma redemption_inv:
  assumes inv: "vault_inv v" and safe: "v_collateralIn v \<le> MAX_SAFE_INTEGER"
    and ok: "supply_ok (v_collateralIn v) s'" and paid: "0 \<le> paid" "paid \<le> v_escrowed v"
    and st: "state_inv ((withBranch v b s')\<lparr> v_escrowed := v_escrowed v - paid \<rparr>)"
    and terminal: "(case v_state v of Voided \<Rightarrow> True | ScalarSettled _ _ \<Rightarrow> True | _ \<Rightarrow> False)"
  shows "vault_inv (withBranch (vault_payout v paid) b s')"
proof -
  note i = vault_invD [OF inv]
  have E: "jsub (v_escrowed v) paid = v_escrowed v - paid"
    using i paid safe by (intro jsub_nonneg_exact) (simp_all add: MAX_SAFE_INTEGER_def)
  have P: "jadd (v_paidOut v) paid = v_paidOut v + paid"
    using i paid safe by (intro jadd_nonneg_exact) (simp_all add: MAX_SAFE_INTEGER_def)
  have T: "1 \<le> jadd (v_terminalRedemptions v) 1" by (rule jadd_one_pos [OF i(4)])
  have "state_inv (withBranch (vault_payout v paid) b s')"
    using st terminal by (cases b; cases "v_state v") (auto simp: state_inv_def E split: option.splits)
  then show ?thesis
    using i ok paid T unfolding vault_inv_def by (simp add: E P)
qed

lemma settled_cover:
  assumes "vault_inv v" "v_state v = ScalarSettled w sc"
  obtains r where "scoreRaw sc = Some r" "0 \<le> r" "r \<le> FIXED_SCALE"
    "settled_val r (v_gateOutcomes v) (holdings v w) \<le> FIXED_SCALE * v_escrowed v"
proof -
  obtain r where r: "scoreRaw sc = Some r"
    "settled_val r (v_gateOutcomes v) (holdings v w) \<le> FIXED_SCALE * v_escrowed v"
    using vault_invD(7) [OF assms(1)] assms(2) by (auto simp: state_inv_def split: option.splits)
  then show ?thesis using that scoreRaw_bounds by blast
qed

lemma settled_redemption_inv:
  assumes inv: "vault_inv v" and safe: "v_collateralIn v \<le> MAX_SAFE_INTEGER"
    and st: "v_state v = ScalarSettled w sc" and r: "scoreRaw sc = Some r"
    and ok: "supply_ok (v_collateralIn v) s'" and paid: "0 \<le> paid"
    and val: "settled_val r (v_gateOutcomes v) s' + FIXED_SCALE * paid \<le> settled_val r (v_gateOutcomes v) (holdings v w)"
  shows "vault_inv (withBranch (vault_payout v paid) w s')"
proof -
  have cov: "settled_val r (v_gateOutcomes v) (holdings v w) \<le> FIXED_SCALE * v_escrowed v"
    using settled_cover [OF inv st] r by auto
  have bound: "settled_val r (v_gateOutcomes v) s' \<le> FIXED_SCALE * (v_escrowed v - paid)"
    using val cov by (simp add: right_diff_distrib)
  have "0 \<le> settled_val r (v_gateOutcomes v) s'"
    using settled_val_nonneg [OF ok] scoreRaw_bounds [OF r] by blast
  then have "0 \<le> FIXED_SCALE * (v_escrowed v - paid)" using bound by linarith
  then have le: "paid \<le> v_escrowed v" by (simp add: FIXED_SCALE_def zero_le_mult_iff)
  show ?thesis
    by (rule redemption_inv [OF inv safe ok paid le]) (use st r bound in \<open>simp_all add: state_inv_def\<close>)
qed

lemma redeem_inv:
  assumes "vault_inv v" "v_collateralIn v \<le> MAX_SAFE_INTEGER" "redeem v amount = Inr (v', e)"
  shows "vault_inv v'"
proof -
  let ?a = "js_int amount"
  obtain w sc where st: "v_state v = ScalarSettled w sc" and bad: "\<not> badAmount amount"
    and le: "?a \<le> bs_usdc (holdings v w)"
    and v': "v' = withBranch (vault_payout v ?a) w ((holdings v w)\<lparr> bs_usdc := jsub (bs_usdc (holdings v w)) ?a \<rparr>)"
    using assms(3) by (auto simp: redeem_def Let_def not_less split: vault_state.splits if_splits)
  obtain r where r: "scoreRaw sc = Some r" by (rule settled_cover [OF assms(1) st])
  note burn = burn_usdc [OF vault_invD(5) [OF assms(1)] assms(2) not_badAmount(1) [OF bad] le]
  show ?thesis unfolding v'
    by (rule settled_redemption_inv [OF assms(1,2) st r burn(1)]) (use not_badAmount [OF bad] burn(4) in simp_all)
qed

lemma redeemScalar_inv:
  assumes "vault_inv v" "v_collateralIn v \<le> MAX_SAFE_INTEGER" "redeemScalar v side amount = Inr (v', e)"
  shows "vault_inv v'"
proof -
  let ?a = "js_int amount"
  obtain w sc where st: "v_state v = ScalarSettled w sc" and bad: "\<not> badAmount amount"
    and le: "?a \<le> (if side = LongSide then bs_long (holdings v w) else bs_short (holdings v w))"
    and v': "v' = withBranch (vault_payout v (scalarPayout sc side amount)) w
        (if side = LongSide then (holdings v w)\<lparr> bs_long := jsub (bs_long (holdings v w)) ?a \<rparr>
         else (holdings v w)\<lparr> bs_short := jsub (bs_short (holdings v w)) ?a \<rparr>)"
    using assms(3) by (auto simp: redeemScalar_def Let_def not_less split: vault_state.splits if_splits)
  obtain r where r: "scoreRaw sc = Some r" by (rule settled_cover [OF assms(1) st])
  note burn = burn_side [OF vault_invD(5) [OF assms(1)] assms(2) not_badAmount(1) [OF bad]]
  note pay = scalarPayout_bounds [OF r not_badAmount(3,1) [OF bad], of side]
  show ?thesis unfolding v'
    by (rule settled_redemption_inv [OF assms(1,2) st r])
      (use burn le pay in \<open>cases side; simp\<close>)+
qed

lemma redeemScalarPair_inv:
  assumes "vault_inv v" "v_collateralIn v \<le> MAX_SAFE_INTEGER" "redeemScalarPair v amount = Inr (v', e)"
  shows "vault_inv v'"
proof -
  let ?a = "js_int amount"
  obtain w sc where st: "v_state v = ScalarSettled w sc" and bad: "\<not> badAmount amount"
    and le: "?a \<le> bs_long (holdings v w)" "?a \<le> bs_short (holdings v w)" "?a \<le> bs_scalarSets (holdings v w)"
    and v': "v' = withBranch (vault_payout v ?a) w ((holdings v w)\<lparr> bs_long := jsub (bs_long (holdings v w)) ?a,
        bs_short := jsub (bs_short (holdings v w)) ?a, bs_scalarSets := jsub (bs_scalarSets (holdings v w)) ?a \<rparr>)"
    using assms(3) by (auto simp: redeemScalarPair_def Let_def not_less split: vault_state.splits if_splits)
  obtain r where r: "scoreRaw sc = Some r" by (rule settled_cover [OF assms(1) st])
  note burn = burn_pair [OF vault_invD(5) [OF assms(1)] assms(2) not_badAmount(1) [OF bad] le]
  show ?thesis unfolding v'
    by (rule settled_redemption_inv [OF assms(1,2) st r burn(1)]) (use not_badAmount [OF bad] burn(2) in simp_all)
qed

lemma redeemGate_inv:
  assumes "vault_inv v" "v_collateralIn v \<le> MAX_SAFE_INTEGER" "redeemGate v g yes amount = Inr (v', e)"
  shows "vault_inv v'"
proof -
  let ?a = "js_int amount" and ?kind = "if yes then GateYes g else GateNo g"
  obtain w sc outcome where st: "v_state v = ScalarSettled w sc" and bad: "\<not> badAmount amount"
    and oc: "at_gate g (v_gateOutcomes v) = Some outcome"
    and le: "?a \<le> supplyOf (holdings v w) ?kind"
    and v': "v' = withBranch (vault_payout v (if yes = outcome then ?a else 0)) w (burnLeg (holdings v w) ?kind ?a)"
    using assms(3) by (auto simp: redeemGate_def Let_def not_less split: vault_state.splits if_splits option.splits)
  obtain r where r: "scoreRaw sc = Some r" by (rule settled_cover [OF assms(1) st])
  note ok = vault_invD(5) [OF assms(1), of w]
  note leg = burnLeg_ok(1) [OF ok assms(2) not_badAmount(1) [OF bad] le]
  note val = burn_gate_settled [OF ok assms(2) not_badAmount(1) [OF bad] le oc, of r]
  show ?thesis unfolding v'
    by (rule settled_redemption_inv [OF assms(1,2) st r leg]) (use not_badAmount [OF bad] val in simp_all)
qed

lemma redeemVoid_inv:
  assumes "vault_inv v" "v_collateralIn v \<le> MAX_SAFE_INTEGER" "redeemVoid v b kind amount = Inr (v', e)"
  shows "vault_inv v'"
proof -
  let ?a = "js_int amount"
  define paid where "paid = redeemVoidPayout kind amount"
  have st: "v_state v = Voided" and bad: "\<not> badAmount amount" and le: "?a \<le> supplyOf (holdings v b) kind"
    and v': "v' = withBranch (vault_payout v paid) b (burnLeg (holdings v b) kind ?a)"
    using assms(3) by (auto simp: redeemVoid_def Let_def not_less paid_def split: if_splits)
  note ok = vault_invD(5) [OF assms(1)]
  note leg = burnLeg_ok [OF ok assms(2) not_badAmount(1) [OF bad] le]
  have p: "0 \<le> paid" "4 * paid \<le> (if kind = BranchUsdc then 2 else 1) * ?a"
    using redeemVoidPayout_eq [OF not_badAmount(3,1) [OF bad], of kind] not_badAmount(1) [OF bad]
      mult_div_le_self [of 2 ?a] mult_div_le_self [of 4 ?a]
    by (simp_all add: paid_def pos_imp_zdiv_nonneg_iff mult.commute)
  have vv: "void_val (holdings v AcceptB) + void_val (holdings v RejectB) \<le> 4 * v_escrowed v"
    using vault_invD(7) [OF assms(1)] st by (simp add: state_inv_def)
  have nn: "0 \<le> void_val (holdings v b')" "0 \<le> void_val (burnLeg (holdings v b) kind ?a)" for b'
    using void_val_nonneg ok leg(1) by blast+
  have pe: "paid \<le> v_escrowed v"
    using vv nn(1) [of AcceptB] nn(1) [of RejectB] nn(2) leg(2) p by (cases b) simp_all
  show ?thesis unfolding v'
    by (rule redemption_inv [OF assms(1,2) leg(1) p(1) pe])
      (use st vv leg(2) p in \<open>cases b; simp add: state_inv_def\<close>)+
qed

subsection \<open>Reachable vaults\<close>

datatype ledger_op =
    OpSplit js_number | OpMerge js_number
  | OpSplitScalar branch js_number | OpMergeScalar branch js_number
  | OpSplitGate branch gate_type js_number | OpMergeGate branch gate_type js_number
  | OpTransfer position_id js_number
  | OpResolve branch | OpVoid | OpSettleScalar js_number | OpSettleGate gate_type bool
  | OpRedeem js_number | OpRedeemScalar scalar_side js_number | OpRedeemScalarPair js_number
  | OpRedeemGate gate_type bool js_number | OpRedeemVoid branch position_kind js_number

fun apply_op :: "ledger_op \<Rightarrow> vault \<Rightarrow> ledger_result" where
  "apply_op (OpSplit a) v = vault_split v a"
| "apply_op (OpMerge a) v = vault_merge v a"
| "apply_op (OpSplitScalar b a) v = splitScalar v b a"
| "apply_op (OpMergeScalar b a) v = mergeScalar v b a"
| "apply_op (OpSplitGate b g a) v = splitGate v b g a"
| "apply_op (OpMergeGate b g a) v = mergeGate v b g a"
| "apply_op (OpTransfer p a) v = vault_transfer v p a"
| "apply_op (OpResolve w) v = vault_resolve v w"
| "apply_op OpVoid v = voidVault v"
| "apply_op (OpSettleScalar s) v = settleScalar v s"
| "apply_op (OpSettleGate g x) v = settleGate v g x"
| "apply_op (OpRedeem a) v = redeem v a"
| "apply_op (OpRedeemScalar side a) v = redeemScalar v side a"
| "apply_op (OpRedeemScalarPair a) v = redeemScalarPair v a"
| "apply_op (OpRedeemGate g yes a) v = redeemGate v g yes a"
| "apply_op (OpRedeemVoid b kind a) v = redeemVoid v b kind a"

inductive vault_step :: "vault \<Rightarrow> vault \<Rightarrow> bool" where
  vault_stepI: "apply_op op v = Inr (v', e) \<Longrightarrow> vault_step v v'"

inductive_cases vault_stepE: "vault_step v v'"

inductive reachable_vault :: "vault \<Rightarrow> bool" where
  reachable_create: "reachable_vault (createVault p)"
| reachable_step: "reachable_vault v \<Longrightarrow> vault_step v v' \<Longrightarrow> reachable_vault v'"

lemma collateral_step:
  assumes "apply_op op v = Inr (v', e)"
  shows "v_collateralIn v' = v_collateralIn v \<or> (\<exists>a \<ge> 0. v_collateralIn v' = jadd (v_collateralIn v) a)"
proof (cases op)
  case (OpSplit amount)
  then have bad: "\<not> badAmount amount" and "v_collateralIn v' = jadd (v_collateralIn v) (js_int amount)"
    using assms by (auto simp: vault_split_def Let_def BRANCHES_def split: if_splits)
  then show ?thesis using not_badAmount(1) [OF bad] by blast
qed (use assms in \<open>auto simp: vault_merge_def splitScalar_def mergeScalar_def splitGate_def mergeGate_def
    vault_transfer_def vault_resolve_def voidVault_def settleScalar_def settleGate_def redeem_def redeemScalar_def
    redeemScalarPair_def redeemGate_def redeemVoid_def Let_def BRANCHES_def
    split: if_splits vault_state.splits option.splits position_id.splits\<close>)

lemma collateral_mono:
  assumes "apply_op op v = Inr (v', e)" "0 \<le> v_collateralIn v" "v_collateralIn v' \<le> MAX_SAFE_INTEGER"
  shows "v_collateralIn v \<le> v_collateralIn v'"
proof -
  consider "v_collateralIn v' = v_collateralIn v" | a where "0 \<le> a" "v_collateralIn v' = jadd (v_collateralIn v) a"
    using collateral_step [OF assms(1)] by blast
  then show ?thesis
  proof cases
    case 2 then show ?thesis using jadd_safe_exact(2) [OF assms(2) 2(1)] assms(3) by simp
  qed simp
qed

lemma jadd_nonneg: "0 \<le> a \<Longrightarrow> 0 \<le> b \<Longrightarrow> 0 \<le> jadd a b"
  unfolding jadd_def by (simp add: fl_nonneg)

lemma reachable_collateral_nonneg: "reachable_vault v \<Longrightarrow> 0 \<le> v_collateralIn v"
proof (induction rule: reachable_vault.induct)
  case (reachable_create p)
  show ?case by (simp add: createVault_def)
next
  case (reachable_step v v')
  then obtain op e where "apply_op op v = Inr (v', e)" by (auto elim: vault_stepE)
  from collateral_step [OF this] reachable_step.IH show ?case by (auto intro: jadd_nonneg)
qed

lemma apply_op_inv:
  assumes "vault_inv v" "apply_op op v = Inr (v', e)" "v_collateralIn v' \<le> MAX_SAFE_INTEGER"
  shows "vault_inv v'"
proof -
  have "0 \<le> v_collateralIn v" using vault_invD(1-3) [OF assms(1)] by linarith
  then have safe: "v_collateralIn v \<le> MAX_SAFE_INTEGER"
    using collateral_mono [OF assms(2)] assms(3) by linarith
  show ?thesis
    using assms(2) by (cases op; simp only: apply_op.simps)
      (blast intro: vault_split_inv [OF assms(1) _ assms(3)] vault_merge_inv [OF assms(1) safe]
        splitScalar_inv [OF assms(1) safe] mergeScalar_inv [OF assms(1) safe]
        splitGate_inv [OF assms(1) safe] mergeGate_inv [OF assms(1) safe]
        vault_transfer_inv [OF assms(1)] vault_resolve_inv [OF assms(1)] voidVault_inv [OF assms(1)]
        settleScalar_inv [OF assms(1)] settleGate_inv [OF assms(1)] redeem_inv [OF assms(1) safe]
        redeemScalar_inv [OF assms(1) safe] redeemScalarPair_inv [OF assms(1) safe]
        redeemGate_inv [OF assms(1) safe] redeemVoid_inv [OF assms(1) safe])+
qed

lemma reachable_inv:
  assumes "reachable_vault v" "v_collateralIn v \<le> MAX_SAFE_INTEGER"
  shows "vault_inv v"
  using assms
proof (induction rule: reachable_vault.induct)
  case (reachable_create p)
  show ?case by (rule vault_inv_create)
next
  case (reachable_step v v')
  then obtain op e where op: "apply_op op v = Inr (v', e)" by (auto elim: vault_stepE)
  have "v_collateralIn v \<le> MAX_SAFE_INTEGER"
    using collateral_mono [OF op reachable_collateral_nonneg [OF reachable_step.hyps(1)] reachable_step.prems]
      reachable_step.prems by linarith
  then show ?case using apply_op_inv [OF reachable_step.IH op reachable_step.prems] by blast
qed

subsection \<open>The conservation check\<close>

lemma branchIdentity_eq:
  assumes "supply_ok C s" "C \<le> MAX_SAFE_INTEGER"
  shows "branchIdentity s = ident s"
proof -
  have "jadd (bs_usdc s) (bs_scalarSets s) = bs_usdc s + bs_scalarSets s"
    by (rule jadd_nonneg_exact; use assms in \<open>simp add: supply_defs MAX_SAFE_INTEGER_def\<close>)
  moreover have "jadd (bs_usdc s + bs_scalarSets s) (at_Survival (bs_gateSets s))
      = bs_usdc s + bs_scalarSets s + at_Survival (bs_gateSets s)"
    by (rule jadd_nonneg_exact; use assms in \<open>simp add: supply_defs MAX_SAFE_INTEGER_def\<close>)
  moreover have "jadd (bs_usdc s + bs_scalarSets s + at_Survival (bs_gateSets s)) (at_Security (bs_gateSets s))
      = bs_usdc s + bs_scalarSets s + at_Survival (bs_gateSets s) + at_Security (bs_gateSets s)"
    by (rule jadd_nonneg_exact; use assms in \<open>simp add: supply_defs MAX_SAFE_INTEGER_def\<close>)
  ultimately show ?thesis by (simp add: branchIdentity_def ident_def gate_sum_def)
qed

lemma down_eq:
  assumes "0 \<le> n" "n \<le> MAX_SAFE_INTEGER"
  shows "quarterDown n = n div 4" "halfDown n = n div 2"
  using assms by (simp_all add: quarterDown_def halfDown_def roundPayoutDown_quarter roundPayoutDown_half)

text \<open>Three amounts that stay within the safe range add exactly.\<close>

lemma jadd3:
  assumes "0 \<le> a" "0 \<le> b" "0 \<le> c" "a + b + c \<le> MAX_SAFE_INTEGER"
  shows "jadd (jadd a b) c = a + b + c" "jadd a b = a + b"
proof -
  show ab: "jadd a b = a + b" using assms by (intro jadd_nonneg_exact) (simp_all add: MAX_SAFE_INTEGER_def)
  show "jadd (jadd a b) c = a + b + c"
    unfolding ab using assms by (intro jadd_nonneg_exact) (simp_all add: MAX_SAFE_INTEGER_def)
qed

definition unpaired :: "int \<Rightarrow> int \<Rightarrow> int" where
  "unpaired x y = (x - min x y) div 4 + (y - min x y) div 4"

lemma unpaired_bounds:
  assumes "0 \<le> x" "0 \<le> y"
  shows "0 \<le> unpaired x y" "2 * min x y + 4 * unpaired x y \<le> x + y" "4 * unpaired x y \<le> x + y"
proof -
  define m where "m = min x y"
  have m: "0 \<le> m" "m \<le> x" "m \<le> y" using assms by (simp_all add: m_def)
  define k l where "k = (x - m) div 4" and "l = (y - m) div 4"
  have q0: "0 \<le> k" "0 \<le> l" using m by (simp_all add: k_def l_def pos_imp_zdiv_nonneg_iff)
  have q: "k * 4 \<le> x - m" "l * 4 \<le> y - m" unfolding k_def l_def by (rule mult_div_le_self; simp)+
  have r: "unpaired x y = k + l" by (simp add: unpaired_def m_def k_def l_def)
  show "0 \<le> unpaired x y" unfolding r using q0 by linarith
  show "2 * min x y + 4 * unpaired x y \<le> x + y" unfolding r m_def [symmetric] using q by presburger
  show "4 * unpaired x y \<le> x + y" unfolding r using q m(1) by presburger
qed

lemma unpaired_exact:
  assumes "0 \<le> x" "x \<le> MAX_SAFE_INTEGER" "0 \<le> y" "y \<le> MAX_SAFE_INTEGER" "0 \<le> acc" "acc + unpaired x y \<le> MAX_SAFE_INTEGER"
  shows "jadd (jadd acc (quarterDown (jsub x (min x y)))) (quarterDown (jsub y (min x y))) = acc + unpaired x y"
proof -
  have j: "jsub x (min x y) = x - min x y" "jsub y (min x y) = y - min x y"
    by (rule jsub_nonneg_exact; use assms in \<open>simp add: MAX_SAFE_INTEGER_def\<close>)+
  have q: "quarterDown (x - min x y) = (x - min x y) div 4" "quarterDown (y - min x y) = (y - min x y) div 4"
    by (rule down_eq; use assms in simp)+
  show ?thesis
    unfolding j q using assms
    by (subst jadd3(1)) (simp_all add: unpaired_def pos_imp_zdiv_nonneg_iff)
qed

definition merged_usdc :: "branch_supply \<Rightarrow> int" where
  "merged_usdc s = bs_usdc s + min (bs_long s) (bs_short s)
     + min (at_Survival (bs_gateYes s)) (at_Survival (bs_gateNo s))
     + min (at_Security (bs_gateYes s)) (at_Security (bs_gateNo s))"

definition leftover_val :: "branch_supply \<Rightarrow> int" where
  "leftover_val s = unpaired (bs_long s) (bs_short s)
     + unpaired (at_Survival (bs_gateYes s)) (at_Survival (bs_gateNo s))
     + unpaired (at_Security (bs_gateYes s)) (at_Security (bs_gateNo s))"

lemma merged_bounds:
  assumes "supply_ok C s"
  shows "0 \<le> merged_usdc s" "merged_usdc s \<le> C" "0 \<le> leftover_val s" "2 * leftover_val s \<le> C" "2 * merged_usdc s + 4 * leftover_val s \<le> void_val s"
proof -
  note ok = assms [unfolded supply_defs]
  have r: "0 \<le> unpaired (bs_long s) (bs_short s)" "4 * unpaired (bs_long s) (bs_short s) \<le> bs_long s + bs_short s"
    "2 * min (bs_long s) (bs_short s) + 4 * unpaired (bs_long s) (bs_short s) \<le> bs_long s + bs_short s"
    by (rule unpaired_bounds; use ok in simp)+
  have g: "0 \<le> unpaired (at_gate g (bs_gateYes s)) (at_gate g (bs_gateNo s))"
    "4 * unpaired (at_gate g (bs_gateYes s)) (at_gate g (bs_gateNo s)) \<le> at_gate g (bs_gateYes s) + at_gate g (bs_gateNo s)"
    "2 * min (at_gate g (bs_gateYes s)) (at_gate g (bs_gateNo s)) +
       4 * unpaired (at_gate g (bs_gateYes s)) (at_gate g (bs_gateNo s)) \<le> at_gate g (bs_gateYes s) + at_gate g (bs_gateNo s)" for g
    by (cases g; rule unpaired_bounds; use ok in simp)+
  note g' = g [of Survival, unfolded at_gate_simps] g [of Security, unfolded at_gate_simps]
  show "0 \<le> merged_usdc s" using ok by (simp add: merged_usdc_def)
  have "merged_usdc s \<le> bs_usdc s + bs_long s + (at_Survival (bs_gateYes s) + at_Security (bs_gateYes s))"
    by (simp add: merged_usdc_def)
  then show "merged_usdc s \<le> C" using ok by linarith
  show "0 \<le> leftover_val s" using r g' by (simp add: leftover_val_def)
  have "4 * leftover_val s \<le> bs_long s + bs_short s + (at_Survival (bs_gateYes s) + at_Survival (bs_gateNo s))
      + (at_Security (bs_gateYes s) + at_Security (bs_gateNo s))"
    using r(2) g'(2,5) by (simp add: leftover_val_def)
  then show "2 * leftover_val s \<le> C" using ok by linarith
  show "2 * merged_usdc s + 4 * leftover_val s \<le> void_val s"
    using add_mono [OF add_mono [OF r(3) g'(3)] g'(6)]
    by (simp add: merged_usdc_def leftover_val_def void_val_def gate_sum_def algebra_simps)
qed

lemma void_branch_eq:
  assumes ok: "supply_ok C (holdings v b)" and safe: "C \<le> MAX_SAFE_INTEGER" and acc: "0 \<le> acc" "2 * acc \<le> C"
  shows "void_branch v b (es, acc) = (es @ [merged_usdc (holdings v b)], acc + leftover_val (holdings v b))"
proof -
  let ?s = "holdings v b"
  note o = ok [unfolded supply_defs]
  note bounds = merged_bounds [OF ok]
  let ?r1 = "unpaired (bs_long ?s) (bs_short ?s)" and ?r2 = "unpaired (at_Survival (bs_gateYes ?s)) (at_Survival (bs_gateNo ?s))"
    and ?r3 = "unpaired (at_Security (bs_gateYes ?s)) (at_Security (bs_gateNo ?s))"
  have r0: "0 \<le> ?r1" "0 \<le> ?r2" "0 \<le> ?r3" by (rule unpaired_bounds; use o in simp)+
  have total: "acc + ?r1 + ?r2 + ?r3 \<le> MAX_SAFE_INTEGER"
    using bounds(4) acc safe by (simp add: leftover_val_def)
  define m1 m2 m3 where "m1 = min (bs_long ?s) (bs_short ?s)"
    and "m2 = min (at_Survival (bs_gateYes ?s)) (at_Survival (bs_gateNo ?s))"
    and "m3 = min (at_Security (bs_gateYes ?s)) (at_Security (bs_gateNo ?s))"
  have mn: "0 \<le> m1" "0 \<le> m2" "0 \<le> m3" "0 \<le> bs_usdc ?s" "bs_usdc ?s + m1 + m2 + m3 \<le> MAX_SAFE_INTEGER"
    using o safe bounds(2) by (simp_all add: m1_def m2_def m3_def merged_usdc_def)
  have e: "jadd (bs_usdc ?s) m1 = bs_usdc ?s + m1" "jadd (bs_usdc ?s + m1) m2 = bs_usdc ?s + m1 + m2"
    "jadd (bs_usdc ?s + m1 + m2) m3 = merged_usdc ?s"
    unfolding merged_usdc_def m1_def [symmetric] m2_def [symmetric] m3_def [symmetric]
    by (rule jadd_nonneg_exact; use mn in \<open>simp add: MAX_SAFE_INTEGER_def\<close>)+
  note e = e [unfolded m1_def m2_def m3_def]
  have l1: "jadd (jadd acc (quarterDown (jsub (bs_long ?s) (min (bs_long ?s) (bs_short ?s)))))
      (quarterDown (jsub (bs_short ?s) (min (bs_long ?s) (bs_short ?s)))) = acc + ?r1"
    by (rule unpaired_exact) (use o safe acc total r0 in simp_all)
  have l2: "jadd (jadd (acc + ?r1) (quarterDown (jsub (at_Survival (bs_gateYes ?s)) (min (at_Survival (bs_gateYes ?s)) (at_Survival (bs_gateNo ?s))))))
      (quarterDown (jsub (at_Survival (bs_gateNo ?s)) (min (at_Survival (bs_gateYes ?s)) (at_Survival (bs_gateNo ?s))))) = acc + ?r1 + ?r2"
    by (rule unpaired_exact) (use o safe acc total r0 in simp_all)
  have l3: "jadd (jadd (acc + ?r1 + ?r2) (quarterDown (jsub (at_Security (bs_gateYes ?s)) (min (at_Security (bs_gateYes ?s)) (at_Security (bs_gateNo ?s))))))
      (quarterDown (jsub (at_Security (bs_gateNo ?s)) (min (at_Security (bs_gateYes ?s)) (at_Security (bs_gateNo ?s))))) = acc + ?r1 + ?r2 + ?r3"
    by (rule unpaired_exact) (use o safe acc total r0 in simp_all)
  show ?thesis
    by (simp add: void_branch_def Let_def GATE_TYPES_def void_gate_def e l1 l2 l3 leftover_val_def)
qed

lemma void_claim:
  assumes "vault_inv v" "v_collateralIn v \<le> MAX_SAFE_INTEGER" "v_state v = Voided"
  shows "claim_covered (maxClaimValue v) (v_escrowed v)"
proof -
  note inv = vault_invD [OF assms(1)]
  let ?A = "holdings v AcceptB" and ?R = "holdings v RejectB"
  note A = merged_bounds [OF inv(5), of AcceptB] and R = merged_bounds [OF inv(5), of RejectB]
  define cross where "cross = min (merged_usdc ?A) (merged_usdc ?R)"
  have vv: "void_val ?A + void_val ?R \<le> 4 * v_escrowed v" using inv(7) assms(3) by (simp add: state_inv_def)
  have f: "fold (void_branch v) BRANCHES ([], 0) = ([merged_usdc ?A, merged_usdc ?R], leftover_val ?A + leftover_val ?R)"
    using void_branch_eq [OF inv(5) assms(2), where b = AcceptB and acc = 0 and es = "[]"]
      void_branch_eq [OF inv(5) assms(2) A(3,4), where b = RejectB and es = "[merged_usdc ?A]"] inv(1-3)
    by (simp add: BRANCHES_def)
  have c: "0 \<le> cross" "cross \<le> merged_usdc ?A" "cross \<le> merged_usdc ?R" using A R by (simp_all add: cross_def)
  have js: "jsub (merged_usdc ?A) cross = merged_usdc ?A - cross" "jsub (merged_usdc ?R) cross = merged_usdc ?R - cross"
    by (rule jsub_nonneg_exact; use c A(2) R(2) assms(2) in \<open>simp add: MAX_SAFE_INTEGER_def\<close>)+
  have h: "halfDown (merged_usdc ?A - cross) = (merged_usdc ?A - cross) div 2" "halfDown (merged_usdc ?R - cross) = (merged_usdc ?R - cross) div 2"
    by (rule down_eq; use c A(2) R(2) assms(2) in simp)+
  let ?h1 = "(merged_usdc ?A - cross) div 2" and ?h2 = "(merged_usdc ?R - cross) div 2"
  have h0: "0 \<le> ?h1" "0 \<le> ?h2" using c by (simp_all add: pos_imp_zdiv_nonneg_iff)
  have h2: "?h1 * 2 \<le> merged_usdc ?A - cross" "?h2 * 2 \<le> merged_usdc ?R - cross" by (rule mult_div_le_self; simp)+
  have tot: "cross + ?h1 + ?h2 + (leftover_val ?A + leftover_val ?R) \<le> v_escrowed v"
    using h2 A(5) R(5) vv by linarith
  have le: "v_escrowed v \<le> MAX_SAFE_INTEGER" using inv(1-3) assms(2) by linarith
  have "jadd (jadd (jadd cross ?h1) ?h2) (leftover_val ?A + leftover_val ?R) = cross + ?h1 + ?h2 + (leftover_val ?A + leftover_val ?R)"
    using jadd3(1) [of cross ?h1 ?h2] jadd3(1) [of "cross + ?h1" ?h2 "leftover_val ?A + leftover_val ?R"] jadd3(2) [of "cross + ?h1" ?h2 "leftover_val ?A + leftover_val ?R"]
      c h0 A(3) R(3) tot le by (simp add: jadd_nonneg_exact MAX_SAFE_INTEGER_def)
  then show ?thesis
    using assms(3) tot
    by (simp add: maxClaimValue_def f claim_covered_def js_of_int_def Let_def js h flip: cross_def)
qed

lemma settled_claim:
  assumes "vault_inv v" "v_collateralIn v \<le> MAX_SAFE_INTEGER" "v_state v = ScalarSettled w sc"
  shows "claim_covered (maxClaimValue v) (v_escrowed v)"
proof -
  note inv = vault_invD [OF assms(1)]
  let ?s = "holdings v w" and ?oc = "v_gateOutcomes v"
  note o = inv(5) [of w, unfolded supply_defs]
  obtain r where r: "scoreRaw sc = Some r" "0 \<le> r" "r \<le> FIXED_SCALE"
    and cov: "settled_val r ?oc ?s \<le> FIXED_SCALE * v_escrowed v"
    by (rule settled_cover [OF assms(1,3)])
  define p where "p = min (bs_long ?s) (bs_short ?s)"
  define l s where "l = scalarPayout sc LongSide (js_of_int (bs_long ?s - p))"
    and "s = scalarPayout sc ShortSide (js_of_int (bs_short ?s - p))"
  define g1 where "g1 = gate_val (at_Survival ?oc) (at_Survival (bs_gateYes ?s)) (at_Survival (bs_gateNo ?s))"
  define g2 where "g2 = gate_val (at_Security ?oc) (at_Security (bs_gateYes ?s)) (at_Security (bs_gateNo ?s))"
  have p: "0 \<le> p" "p \<le> bs_long ?s" "p \<le> bs_short ?s" using o by (simp_all add: p_def)
  have js: "jsub (bs_long ?s) p = bs_long ?s - p" "jsub (bs_short ?s) p = bs_short ?s - p"
    by (rule jsub_nonneg_exact; use p o assms(2) in \<open>simp add: MAX_SAFE_INTEGER_def\<close>)+
  have sl: "isSafeInteger (js_of_int (bs_long ?s - p))" "isSafeInteger (js_of_int (bs_short ?s - p))"
    using p o assms(2) by simp_all
  have L: "0 \<le> l" "FIXED_SCALE * l \<le> r * (bs_long ?s - p)"
    using scalarPayout_bounds [OF r(1) sl(1), of LongSide] p by (simp_all add: l_def)
  have S: "0 \<le> s" "FIXED_SCALE * s \<le> (FIXED_SCALE - r) * (bs_short ?s - p)"
    using scalarPayout_bounds [OF r(1) sl(2), of ShortSide] p by (simp_all add: s_def)
  have g: "0 \<le> g1" "0 \<le> g2" using o by (simp_all add: g1_def g2_def gate_val_nonneg)
  let ?T = "bs_usdc ?s + p + l + s + g1 + g2"
  have "FIXED_SCALE * ?T \<le> settled_val r ?oc ?s"
  proof -
    have "settled_val r ?oc ?s = FIXED_SCALE * bs_usdc ?s + FIXED_SCALE * p + r * (bs_long ?s - p)
        + (FIXED_SCALE - r) * (bs_short ?s - p) + FIXED_SCALE * (g1 + g2)"
      by (simp add: settled_val_def g1_def g2_def algebra_simps)
    then show ?thesis using L(2) S(2) by (simp only: distrib_left)
  qed
  then have "FIXED_SCALE * ?T \<le> FIXED_SCALE * v_escrowed v" using cov by linarith
  then have T: "?T \<le> v_escrowed v" by (simp add: FIXED_SCALE_def)
  have le: "v_escrowed v \<le> MAX_SAFE_INTEGER" using inv(1-3) assms(2) by linarith
  have u: "0 \<le> bs_usdc ?s" using o by simp
  have ex: "jadd (jadd (jadd (bs_usdc ?s) p) l) s = bs_usdc ?s + p + l + s"
    "jadd (bs_usdc ?s + p + l + s) g1 = bs_usdc ?s + p + l + s + g1"
    "jadd (bs_usdc ?s + p + l + s + g1) g2 = ?T"
    using jadd3(1) [of "bs_usdc ?s" p l] jadd3(1) [of "bs_usdc ?s + p" l s] jadd3(2) [of "bs_usdc ?s + p" l s]
      u p(1) L(1) S(1) g T le
    by (simp_all add: jadd_nonneg_exact MAX_SAFE_INTEGER_def)
  have gates: "settled_gate v ?s Survival t = jadd t g1" "settled_gate v ?s Security t = jadd t g2" for t
    by (simp_all add: settled_gate_def g1_def g2_def gate_val_def split: option.splits bool.splits)
  have "maxClaimValue v = js_of_int ?T"
    using assms(3) ex by (simp add: maxClaimValue_def Let_def GATE_TYPES_def gates js flip: p_def l_def s_def)
  then show ?thesis using T by (simp add: claim_covered_def js_of_int_def)
qed

lemma checkConservation_inv:
  assumes "vault_inv v" "v_collateralIn v \<le> MAX_SAFE_INTEGER"
  shows "checkConservation v"
proof -
  note inv = vault_invD [OF assms(1)]
  have sum: "jadd (v_escrowed v) (v_paidOut v) = v_collateralIn v"
    using jadd_nonneg_exact [OF inv(1,2)] inv(3) assms(2) by (simp add: MAX_SAFE_INTEGER_def)
  have bid: "branchIdentity (holdings v b) = ident (holdings v b)" for b
    by (rule branchIdentity_eq [OF inv(5) assms(2)])
  have bal: "v_terminalRedemptions v = 0 \<Longrightarrow> branchIdentity (holdings v b) = v_escrowed v \<and> sets_balanced (holdings v b)" for b
    using inv(6) by (simp add: bid balanced_def)
  have claim: "claim_covered (maxClaimValue v) (v_escrowed v)"
  proof (cases "v_state v")
    case Open
    then have "v_terminalRedemptions v = 0" using inv(7) by (simp add: state_inv_def)
    then show ?thesis using bal Open by (simp add: maxClaimValue_def claim_covered_def js_of_int_def)
  next
    case (Resolved w)
    then have "v_terminalRedemptions v = 0" using inv(7) by (simp add: state_inv_def)
    then show ?thesis using bal Resolved by (simp add: maxClaimValue_def claim_covered_def js_of_int_def)
  next
    case (BaselineSettled s) then show ?thesis using inv(7) by (simp add: state_inv_def)
  qed (use settled_claim [OF assms] void_claim [OF assms] in simp_all)
  have "\<not> (case v_state v of BaselineSettled _ \<Rightarrow> True | _ \<Rightarrow> False)"
    using inv(7) by (auto simp: state_inv_def split: vault_state.splits)
  then show ?thesis
    using inv(1,2) sum bal claim by (auto simp: checkConservation_def)
qed

end
