(* ===== verification/Ledger_Claims.thy ===== *)
theory Ledger_Claims
  imports Ledger
begin

text \<open>
  The ledger as its clients see it: the effect that every call reports accounts exactly for the
  change of the vault (a refinement of an abstract ledger of claims), the reported fee keeps the
  fee contract, the table of legal calls and the previews agree with the handlers, a voided vault
  can always be drained, and every reachable vault passes the conservation check.
\<close>

subsection \<open>The explainer's fee keeps the fee contract\<close>

lemma redemptionFee_js_cases:
  assumes "0 \<le> g"
  obtains "redemptionFee_js (js_of_int g) p = 0"
  | "0 \<le> redemptionFee_js (js_of_int g) p" "redemptionFee_js (js_of_int g) p < g"
    "MIN_SPLIT_USDC \<le> g - redemptionFee_js (js_of_int g) p" "g \<le> MAX_SAFE_INTEGER"
proof (cases "redemptionFee_js (js_of_int g) p = 0")
  case False
  then obtain rate where p: "p = Num rate" "0 < rate" and safe: "\<bar>g\<bar> \<le> MAX_SAFE_INTEGER" "0 < g"
    by (auto simp: redemptionFee_js_def not_le split: js_number.splits if_splits)
  define c where "c = \<lceil>fl (fl (of_int g * rate) / of_int FIXED_SCALE)\<rceil>"
  have fee: "redemptionFee_js (js_of_int g) p = c" "c < g" "\<not> jsub g c < MIN_SPLIT_USDC"
    using False p safe by (auto simp: redemptionFee_js_def Let_def c_def split: if_splits)
  have "0 \<le> fl (fl (of_int g * rate) / of_int FIXED_SCALE)"
    using p safe by (intro fl_nonneg divide_nonneg_nonneg) (simp_all add: FIXED_SCALE_def)
  then have "0 \<le> c" unfolding c_def by linarith
  moreover have "jsub g c = g - c"
    using \<open>0 \<le> c\<close> fee(2) safe by (intro jsub_nonneg_exact) (simp_all add: MAX_SAFE_INTEGER_def)
  ultimately show ?thesis using fee safe that(2) by simp
qed (rule that(1))

interpretation lf: fee_schedule "\<lambda>p. True" "\<lambda>p g. redemptionFee_js (js_of_int g) p" "\<lambda>p. MIN_SPLIT_USDC"
proof unfold_locales
  fix p and g :: int assume g: "0 \<le> g"
  show "0 \<le> redemptionFee_js (js_of_int g) p" "redemptionFee_js (js_of_int g) p \<le> g"
    "redemptionFee_js (js_of_int g) p = 0 \<or> MIN_SPLIT_USDC \<le> g - redemptionFee_js (js_of_int g) p"
    using redemptionFee_js_cases [OF g, of p] g by (metis less_imp_le order_refl)+
qed

text \<open>The legs of a pair never exceed the pair, so the pair's fee is exact.\<close>

lemma pair_legs_le:
  assumes "scoreRaw s = Some r" "isSafeInteger amount" "0 \<le> js_int amount"
  shows "scalarPayout s LongSide amount + scalarPayout s ShortSide amount \<le> js_int amount"
proof -
  let ?l = "scalarPayout s LongSide amount" and ?s = "scalarPayout s ShortSide amount" and ?a = "js_int amount"
  have "FIXED_SCALE * (?l + ?s) \<le> r * ?a + (FIXED_SCALE - r) * ?a"
    using scalarPayout_bounds(3) [OF assms, of LongSide] scalarPayout_bounds(3) [OF assms, of ShortSide]
    by (simp only: distrib_left scalar_side.distinct if_True if_False simp_thms)
  also have "\<dots> = FIXED_SCALE * ?a" by (simp add: algebra_simps)
  finally show ?thesis by (simp add: FIXED_SCALE_def)
qed

lemma pair_fee:
  assumes "scoreRaw s = Some r" "isSafeInteger amount" "0 \<le> js_int amount"
  shows "pairRedemptionFee amount s p =
      redemptionFee_js (js_of_int (scalarPayout s LongSide amount)) p
      + redemptionFee_js (js_of_int (scalarPayout s ShortSide amount)) p"
    "0 \<le> pairRedemptionFee amount s p" "pairRedemptionFee amount s p \<le> js_int amount"
proof -
  note L = scalarPayout_bounds(1) [OF assms, of LongSide] and S = scalarPayout_bounds(1) [OF assms, of ShortSide]
  note two = lf.two_legs_bounds [OF TrueI L S pair_legs_le [OF assms], of p]
  show eq: "pairRedemptionFee amount s p =
      redemptionFee_js (js_of_int (scalarPayout s LongSide amount)) p
      + redemptionFee_js (js_of_int (scalarPayout s ShortSide amount)) p"
    unfolding pairRedemptionFee_def Let_def
    by (rule jadd_nonneg_exact)
      (use lf.fee_nonneg [OF TrueI L] lf.fee_nonneg [OF TrueI S] two isSafeInteger_bounds [OF assms(2)]
        in \<open>simp_all add: MAX_SAFE_INTEGER_def\<close>)
  show "0 \<le> pairRedemptionFee amount s p" "pairRedemptionFee amount s p \<le> js_int amount"
    unfolding eq by (rule two)+
qed

subsection \<open>The abstract ledger of claims\<close>

record claim_ledger =
  cl_escrow :: int
  cl_paid :: int
  cl_claims :: "position_id \<Rightarrow> int"

definition ledger_abs :: "vault \<Rightarrow> claim_ledger" where
  "ledger_abs v = \<lparr> cl_escrow = v_escrowed v, cl_paid = v_paidOut v,
     cl_claims = (\<lambda>pos. case pos of
        ProposalPosition q b kind \<Rightarrow> if q = v_proposal v then supplyOf (holdings v b) kind else 0
      | BaselinePosition _ _ \<Rightarrow> 0) \<rparr>"

definition delta_sum :: "position_delta list \<Rightarrow> position_id \<Rightarrow> int" where
  "delta_sum ds pos = sum_list (map pd_amount (filter (\<lambda>d. pd_position d = pos) ds))"

definition apply_effect :: "ledger_effect \<Rightarrow> claim_ledger \<Rightarrow> claim_ledger" where
  "apply_effect e L = \<lparr> cl_escrow = cl_escrow L + le_escrowIn e - le_grossPayout e,
     cl_paid = cl_paid L + le_grossPayout e,
     cl_claims = (\<lambda>pos. cl_claims L pos + delta_sum (le_minted e) pos - delta_sum (le_burned e) pos) \<rparr>"

text \<open>An effect a ledger can honour: no claim is burned beyond what is held, and the fee comes
  out of the gross payout.\<close>

definition effect_sound :: "claim_ledger \<Rightarrow> ledger_effect \<Rightarrow> bool" where
  "effect_sound L e \<longleftrightarrow>
     0 \<le> le_escrowIn e \<and> 0 \<le> le_fee e \<and> 0 \<le> le_payout e \<and> le_payout e + le_fee e = le_grossPayout e \<and>
     le_grossPayout e \<le> cl_escrow L \<and>
     (\<forall>pos. 0 \<le> delta_sum (le_minted e) pos \<and> 0 \<le> delta_sum (le_burned e) pos \<and>
        delta_sum (le_burned e) pos \<le> cl_claims L pos)"

definition refines :: "vault \<Rightarrow> ledger_effect \<Rightarrow> vault \<Rightarrow> bool" where
  "refines v e v' \<longleftrightarrow> ledger_abs v' = apply_effect e (ledger_abs v) \<and> effect_sound (ledger_abs v) e"

lemma delta_sum_map:
  assumes "distinct D"
  shows "delta_sum (map (\<lambda>(b, k). delta_at v b k a) D) pos =
    (case pos of ProposalPosition q b k \<Rightarrow> if q = v_proposal v \<and> (b, k) \<in> set D then a else 0 | _ \<Rightarrow> 0)"
  using assms
proof (induction D)
  case Nil
  show ?case by (simp add: delta_sum_def split: position_id.splits)
next
  case (Cons d D)
  then show ?case
    by (cases d; cases pos) (auto simp: delta_sum_def delta_at_def)
qed

text \<open>Every effect moves one amount at a list of distinct legs.\<close>

definition moves :: "vault \<Rightarrow> ledger_effect \<Rightarrow> int \<Rightarrow> (branch \<times> position_kind) list \<Rightarrow> (branch \<times> position_kind) list \<Rightarrow> bool" where
  "moves v e a M B \<longleftrightarrow> 0 \<le> a \<and> distinct M \<and> distinct B \<and>
     le_minted e = map (\<lambda>(b, k). delta_at v b k a) M \<and> le_burned e = map (\<lambda>(b, k). delta_at v b k a) B"

definition pays :: "vault \<Rightarrow> ledger_effect \<Rightarrow> vault \<Rightarrow> bool" where
  "pays v e v' \<longleftrightarrow> v_proposal v' = v_proposal v \<and>
     v_escrowed v' = v_escrowed v + le_escrowIn e - le_grossPayout e \<and>
     v_paidOut v' = v_paidOut v + le_grossPayout e \<and>
     0 \<le> le_escrowIn e \<and> 0 \<le> le_fee e \<and> 0 \<le> le_payout e \<and> le_payout e + le_fee e = le_grossPayout e \<and>
     le_grossPayout e \<le> v_escrowed v"

lemma refinesI:
  assumes "moves v e a M B" "pays v e v'" "\<And>b k. 0 \<le> supplyOf (holdings v b) k"
    "\<And>b k. supplyOf (holdings v' b) k =
       supplyOf (holdings v b) k + (if (b, k) \<in> set M then a else 0) - (if (b, k) \<in> set B then a else 0)"
    "\<And>b k. (b, k) \<in> set B \<Longrightarrow> a \<le> supplyOf (holdings v b) k"
  shows "refines v e v'"
proof -
  have D: "delta_sum (le_minted e) pos = (case pos of ProposalPosition q b k \<Rightarrow>
        if q = v_proposal v \<and> (b, k) \<in> set M then a else 0 | _ \<Rightarrow> 0)"
    "delta_sum (le_burned e) pos = (case pos of ProposalPosition q b k \<Rightarrow>
        if q = v_proposal v \<and> (b, k) \<in> set B then a else 0 | _ \<Rightarrow> 0)" for pos
    using assms(1) by (simp_all add: moves_def delta_sum_map)
  have a: "0 \<le> a" using assms(1) by (simp add: moves_def)
  have "cl_claims (ledger_abs v') pos = cl_claims (apply_effect e (ledger_abs v)) pos" for pos
    using assms(2,4) by (cases pos) (simp_all add: ledger_abs_def apply_effect_def D pays_def)
  moreover have "0 \<le> delta_sum (le_minted e) pos \<and> 0 \<le> delta_sum (le_burned e) pos \<and>
      delta_sum (le_burned e) pos \<le> cl_claims (ledger_abs v) pos" for pos
    using assms(3,5) a by (cases pos) (simp_all add: ledger_abs_def D)
  ultimately show ?thesis
    using assms(2) by (auto simp: refines_def effect_sound_def ledger_abs_def apply_effect_def pays_def)
qed

lemma supplyOf_bounds:
  assumes "supply_ok C s"
  shows "0 \<le> supplyOf s k" "supplyOf s k \<le> C"
  using assms by (cases k rule: position_kind.exhaust;
      simp add: supplyOf_def supply_defs at_gate_def split: gate_type.split)+

lemma supplyOf_burnLeg:
  assumes "supply_ok C s" "C \<le> MAX_SAFE_INTEGER" "0 \<le> a" "a \<le> supplyOf s kind"
  shows "supplyOf (burnLeg s kind a) k = supplyOf s k - (if k = kind then a else 0)"
proof -
  have "jsub (supplyOf s kind) a = supplyOf s kind - a"
    using supplyOf_bounds [OF assms(1), of kind] assms
    by (intro jsub_nonneg_exact) (simp_all add: MAX_SAFE_INTEGER_def)
  then show ?thesis
    by (cases kind; cases k) (auto simp: burnLeg_def supplyOf_def setGateValue_def at_gate_def split: gate_type.splits)
qed

text \<open>What a call pays leaves the escrow exactly.\<close>

lemma payout_pays:
  assumes inv: "vault_inv v" "vault_inv v'" "v_collateralIn v \<le> MAX_SAFE_INTEGER"
    and g: "0 \<le> g" "g \<le> MAX_SAFE_INTEGER"
    and upd: "v_escrowed v' = jsub (v_escrowed v) g" "v_paidOut v' = jadd (v_paidOut v) g" "v_proposal v' = v_proposal v"
    and e: "le_escrowIn e = 0" "le_grossPayout e = g" "le_payout e = g - le_fee e" "0 \<le> le_fee e" "le_fee e \<le> g"
  shows "pays v e v'"
proof -
  note i = vault_invD(1-3) [OF inv(1)]
  have E: "jsub (v_escrowed v) g = v_escrowed v - g"
    using i g inv(3) by (intro jsub_exact) (simp add: MAX_SAFE_INTEGER_def abs_le_iff)
  then have le: "g \<le> v_escrowed v" using vault_invD(1) [OF inv(2)] upd(1) by simp
  have P: "jadd (v_paidOut v) g = v_paidOut v + g"
    using i g le inv(3) by (intro jadd_nonneg_exact) (simp_all add: MAX_SAFE_INTEGER_def)
  show ?thesis using e le by (simp add: pays_def upd E P)
qed

lemma nothing_pays:
  assumes "v_escrowed v' = v_escrowed v" "v_paidOut v' = v_paidOut v" "v_proposal v' = v_proposal v"
    "le_escrowIn e = 0" "le_grossPayout e = 0" "le_payout e = 0" "le_fee e = 0" "vault_inv v"
  shows "pays v e v'"
  using assms vault_invD(1) [OF assms(8)] by (simp add: pays_def)

lemma idle_refines:
  assumes "vault_inv v" "holdings v' = holdings v" "v_escrowed v' = v_escrowed v" "v_paidOut v' = v_paidOut v"
    "v_proposal v' = v_proposal v" "e = no_effect c"
  shows "refines v e v'"
  by (rule refinesI [where a = 0 and M = "[]" and B = "[]"])
    (use assms supplyOf_bounds(1) [OF vault_invD(5) [OF assms(1)]] in
      \<open>simp_all add: moves_def no_effect_def nothing_pays\<close>)

text \<open>A redemption burns one leg and pays for it.\<close>

lemma burn_refines:
  assumes inv: "vault_inv v" "vault_inv v'" "v_collateralIn v \<le> MAX_SAFE_INTEGER"
    and a: "0 \<le> a" "a \<le> supplyOf (holdings v b) kind"
    and v': "v' = withBranch (vault_payout v g) b (burnLeg (holdings v b) kind a)"
    and g: "0 \<le> g" "g \<le> MAX_SAFE_INTEGER"
    and e: "le_escrowIn e = 0" "le_grossPayout e = g" "le_payout e = g - le_fee e" "0 \<le> le_fee e" "le_fee e \<le> g"
      "le_minted e = []" "le_burned e = [delta_at v b kind a]"
  shows "refines v e v'"
proof (rule refinesI [where a = a and M = "[]" and B = "[(b, kind)]"])
  show "moves v e a [] [(b, kind)]" using a e by (simp add: moves_def)
  show "pays v e v'" by (rule payout_pays [OF inv g _ _ _ e(1-5)]) (simp_all add: v')
  note ok = vault_invD(5) [OF inv(1)]
  show "0 \<le> supplyOf (holdings v b') k" for b' k by (rule supplyOf_bounds(1) [OF ok])
  show "supplyOf (holdings v' b') k = supplyOf (holdings v b') k + (if (b', k) \<in> set [] then a else 0)
      - (if (b', k) \<in> set [(b, kind)] then a else 0)" for b' k
    by (simp add: v' supplyOf_burnLeg [OF ok inv(3) a])
  show "a \<le> supplyOf (holdings v b') k" if "(b', k) \<in> set [(b, kind)]" for b' k using that a by simp
qed

lemma legs_as_burnLeg:
  "s\<lparr> bs_usdc := jsub (bs_usdc s) a \<rparr> = burnLeg s BranchUsdc a"
  "s\<lparr> bs_long := jsub (bs_long s) a \<rparr> = burnLeg s Long a"
  "s\<lparr> bs_short := jsub (bs_short s) a \<rparr> = burnLeg s Short a"
  by (simp_all add: burnLeg_def)

lemma js_fee_facts:
  assumes "0 \<le> g" "g \<le> MAX_SAFE_INTEGER"
  shows "0 \<le> redemptionFee_js (js_of_int g) p" "redemptionFee_js (js_of_int g) p \<le> g"
    "jsub g (redemptionFee_js (js_of_int g) p) = g - redemptionFee_js (js_of_int g) p"
proof -
  show f: "0 \<le> redemptionFee_js (js_of_int g) p" "redemptionFee_js (js_of_int g) p \<le> g"
    using lf.fee_nonneg lf.fee_le assms by simp_all
  show "jsub g (redemptionFee_js (js_of_int g) p) = g - redemptionFee_js (js_of_int g) p"
    using f assms by (intro jsub_nonneg_exact) (simp_all add: MAX_SAFE_INTEGER_def)
qed

lemma redeem_refines:
  assumes "vault_inv v" "v_collateralIn v \<le> MAX_SAFE_INTEGER" "redeem v amount = Inr (v', e)"
  shows "refines v e v'"
proof -
  note inv' = redeem_inv [OF assms]
  obtain w sc where "v_state v = ScalarSettled w sc" and bad: "\<not> badAmount amount"
    and le: "js_int amount \<le> supplyOf (holdings v w) BranchUsdc"
    and v': "v' = withBranch (vault_payout v (js_int amount)) w (burnLeg (holdings v w) BranchUsdc (js_int amount))"
    and e: "e = (no_effect (Signed C_redeem))\<lparr> le_payout := js_int amount, le_grossPayout := js_int amount,
              le_burned := [delta_at v w BranchUsdc (js_int amount)] \<rparr>"
    using assms(3) by (auto simp: redeem_def Let_def not_less supplyOf_def legs_as_burnLeg split: vault_state.splits if_splits)
  show ?thesis
    by (rule burn_refines [OF assms(1) inv' assms(2) not_badAmount(1) [OF bad] le v' not_badAmount(1,2) [OF bad]])
      (use not_badAmount(1) [OF bad] in \<open>simp_all add: e no_effect_def\<close>)
qed

lemma redeemScalar_refines:
  assumes "vault_inv v" "v_collateralIn v \<le> MAX_SAFE_INTEGER" "redeemScalar v side amount = Inr (v', e)"
  shows "refines v e v'"
proof -
  note inv' = redeemScalar_inv [OF assms]
  define kind where "kind = (if side = LongSide then Long else Short)"
  obtain w sc where st: "v_state v = ScalarSettled w sc" and bad: "\<not> badAmount amount"
    and le: "js_int amount \<le> supplyOf (holdings v w) kind"
    and v': "v' = withBranch (vault_payout v (scalarPayout sc side amount)) w (burnLeg (holdings v w) kind (js_int amount))"
    and e: "e = (let paid = scalarPayout sc side amount; fee = redemptionFee_js (js_of_int paid) DEFAULT_REDEEM_FEE_PPB
        in (no_effect (Signed C_redeem_scalar))\<lparr> le_payout := jsub paid fee, le_grossPayout := paid, le_fee := fee,
              le_burned := [delta_at v w kind (js_int amount)] \<rparr>)"
    using assms(3) by (cases side) (auto simp: redeemScalar_def Let_def not_less supplyOf_def legs_as_burnLeg kind_def
        split: vault_state.splits if_splits)
  obtain r where r: "scoreRaw sc = Some r" by (rule settled_cover [OF assms(1) st])
  note a = not_badAmount [OF bad]
  have p: "0 \<le> scalarPayout sc side amount" "scalarPayout sc side amount \<le> MAX_SAFE_INTEGER"
    using scalarPayout_bounds(1,2) [OF r a(3,1), of side] a(2) by linarith+
  show ?thesis
    by (rule burn_refines [OF assms(1) inv' assms(2) a(1) le v' p])
      (use js_fee_facts [OF p] in \<open>simp_all add: e no_effect_def Let_def\<close>)
qed

lemma redeemGate_refines:
  assumes "vault_inv v" "v_collateralIn v \<le> MAX_SAFE_INTEGER" "redeemGate v g yes amount = Inr (v', e)"
  shows "refines v e v'"
proof -
  note inv' = redeemGate_inv [OF assms]
  let ?kind = "if yes then GateYes g else GateNo g"
  obtain w sc outcome where st: "v_state v = ScalarSettled w sc" and oc: "at_gate g (v_gateOutcomes v) = Some outcome"
    using assms(3) by (auto simp: redeemGate_def split: vault_state.splits option.splits)
  note unfold = assms(3) [unfolded redeemGate_def st oc Let_def vault_state.case option.case]
  have bad: "\<not> badAmount amount" using unfold by (auto split: if_splits)
  have le: "js_int amount \<le> supplyOf (holdings v w) ?kind" using unfold bad by (simp add: not_less split: if_split_asm)
  have v': "v' = withBranch (vault_payout v (if yes = outcome then js_int amount else 0)) w (burnLeg (holdings v w) ?kind (js_int amount))"
    and e: "e = (let paid = (if yes = outcome then js_int amount else 0); fee = redemptionFee_js (js_of_int paid) DEFAULT_REDEEM_FEE_PPB
        in (no_effect (Signed C_redeem_gate))\<lparr> le_payout := jsub paid fee, le_grossPayout := paid, le_fee := fee,
              le_burned := [delta_at v w ?kind (js_int amount)] \<rparr>)"
    using unfold bad le unfolding supply_fold Let_def by (simp_all only: not_less [symmetric] if_False sum.inject prod.inject simp_thms)
  note a = not_badAmount [OF bad]
  have p: "0 \<le> (if yes = outcome then js_int amount else 0)" "(if yes = outcome then js_int amount else 0) \<le> MAX_SAFE_INTEGER"
    using a by (simp_all add: MAX_SAFE_INTEGER_def)
  show ?thesis
    by (rule burn_refines [OF assms(1) inv' assms(2) a(1) le v' p])
      (use js_fee_facts [OF p] in \<open>simp_all add: e no_effect_def Let_def\<close>)
qed

lemma redeemVoid_refines:
  assumes "vault_inv v" "v_collateralIn v \<le> MAX_SAFE_INTEGER" "redeemVoid v b kind amount = Inr (v', e)"
  shows "refines v e v'"
proof -
  note inv' = redeemVoid_inv [OF assms]
  have bad: "\<not> badAmount amount" and le: "js_int amount \<le> supplyOf (holdings v b) kind"
    and v': "v' = withBranch (vault_payout v (redeemVoidPayout kind amount)) b (burnLeg (holdings v b) kind (js_int amount))"
    and e: "e = (no_effect (Signed C_redeem_void))\<lparr> le_payout := redeemVoidPayout kind amount,
        le_grossPayout := redeemVoidPayout kind amount, le_burned := [delta_at v b kind (js_int amount)] \<rparr>"
    using assms(3) by (auto simp: redeemVoid_def Let_def not_less split: if_splits)
  note a = not_badAmount [OF bad]
  have p: "0 \<le> redeemVoidPayout kind amount" "redeemVoidPayout kind amount \<le> MAX_SAFE_INTEGER"
    unfolding redeemVoidPayout_eq [OF a(3,1)] using a div_le_self_nonneg [of "js_int amount" 2] div_le_self_nonneg [of "js_int amount" 4]
    by (simp_all add: pos_imp_zdiv_nonneg_iff)
  show ?thesis
    by (rule burn_refines [OF assms(1) inv' assms(2) a(1) le v' p]) (use p in \<open>simp_all add: e no_effect_def\<close>)
qed

lemma redeemScalarPair_refines:
  assumes "vault_inv v" "v_collateralIn v \<le> MAX_SAFE_INTEGER" "redeemScalarPair v amount = Inr (v', e)"
  shows "refines v e v'"
proof -
  note inv' = redeemScalarPair_inv [OF assms]
  let ?a = "js_int amount"
  obtain w sc where st: "v_state v = ScalarSettled w sc" and bad: "\<not> badAmount amount"
    and le: "?a \<le> bs_long (holdings v w)" "?a \<le> bs_short (holdings v w)" "?a \<le> bs_scalarSets (holdings v w)"
    and v': "v' = withBranch (vault_payout v ?a) w ((holdings v w)\<lparr> bs_long := jsub (bs_long (holdings v w)) ?a,
        bs_short := jsub (bs_short (holdings v w)) ?a, bs_scalarSets := jsub (bs_scalarSets (holdings v w)) ?a \<rparr>)"
    and e: "e = (let fee = pairRedemptionFee amount sc DEFAULT_REDEEM_FEE_PPB
        in (no_effect (Signed C_redeem_scalar_pair))\<lparr> le_payout := jsub ?a fee, le_grossPayout := ?a, le_fee := fee,
              le_burned := [delta_at v w Long ?a, delta_at v w Short ?a] \<rparr>)"
    using assms(3) by (auto simp: redeemScalarPair_def Let_def not_less split: vault_state.splits if_splits)
  obtain r where r: "scoreRaw sc = Some r" by (rule settled_cover [OF assms(1) st])
  note a = not_badAmount [OF bad]
  note fee = pair_fee(2,3) [OF r a(3,1), of DEFAULT_REDEEM_FEE_PPB]
  have J: "jsub ?a (pairRedemptionFee amount sc DEFAULT_REDEEM_FEE_PPB) = ?a - pairRedemptionFee amount sc DEFAULT_REDEEM_FEE_PPB"
    using fee a by (intro jsub_nonneg_exact) (simp_all add: MAX_SAFE_INTEGER_def)
  note ok = vault_invD(5) [OF assms(1)]
  show ?thesis
  proof (rule refinesI [where a = ?a and M = "[]" and B = "[(w, Long), (w, Short)]"])
    show "moves v e ?a [] [(w, Long), (w, Short)]" using a by (simp add: moves_def e no_effect_def Let_def)
    show "pays v e v'"
      by (rule payout_pays [OF assms(1) inv' assms(2) a(1,2)]) (use fee in \<open>simp_all add: v' e no_effect_def Let_def J\<close>)
    show "0 \<le> supplyOf (holdings v b') k" for b' k by (rule supplyOf_bounds(1) [OF ok])
    show "supplyOf (holdings v' b') k = supplyOf (holdings v b') k + (if (b', k) \<in> set [] then ?a else 0)
        - (if (b', k) \<in> set [(w, Long), (w, Short)] then ?a else 0)" for b' k
      by (cases k) (use le in \<open>simp_all add: v' supplyOf_def sub_exact [OF ok assms(2) a(1)]\<close>)
    show "?a \<le> supplyOf (holdings v b') k" if "(b', k) \<in> set [(w, Long), (w, Short)]" for b' k
      using that le by (auto simp: supplyOf_def)
  qed
qed

lemma vault_split_refines:
  assumes "vault_inv v" "vault_split v amount = Inr (v', e)" "v_collateralIn v' \<le> MAX_SAFE_INTEGER"
  shows "refines v e v'"
proof -
  let ?a = "js_int amount"
  have bad: "\<not> badAmount amount"
    and v': "v' = fold (\<lambda>b w. withBranch w b ((holdings w b)\<lparr> bs_usdc := jadd (bs_usdc (holdings w b)) ?a \<rparr>)) BRANCHES
        (v\<lparr> v_escrowed := jadd (v_escrowed v) ?a, v_collateralIn := jadd (v_collateralIn v) ?a \<rparr>)"
    and e: "e = (no_effect (Signed C_split))\<lparr> le_escrowIn := ?a,
        le_minted := map (\<lambda>b. delta_at v b BranchUsdc ?a) BRANCHES \<rparr>"
    using assms(2) by (auto simp: vault_split_def Let_def split: if_splits)
  note a = not_badAmount [OF bad]
  note inv = vault_invD [OF assms(1)]
  have safe: "v_collateralIn v + ?a \<le> MAX_SAFE_INTEGER"
    using jadd_safe_exact(1) [of "v_collateralIn v" ?a] inv(1-3) a assms(3) by (simp add: v' BRANCHES_def)
  have E: "jadd (v_escrowed v) ?a = v_escrowed v + ?a"
    using inv(1-3) a safe by (intro jadd_nonneg_exact) (simp_all add: MAX_SAFE_INTEGER_def)
  have U: "jadd (bs_usdc (holdings v b)) ?a = bs_usdc (holdings v b) + ?a" for b
    using inv(5) [of b] a safe by (intro jadd_nonneg_exact) (simp_all add: MAX_SAFE_INTEGER_def supply_defs)
  have H: "holdings v' b = (holdings v b)\<lparr> bs_usdc := bs_usdc (holdings v b) + ?a \<rparr>" for b
    by (cases b) (simp_all add: v' BRANCHES_def U)
  show ?thesis
  proof (rule refinesI [where a = ?a and M = "[(AcceptB, BranchUsdc), (RejectB, BranchUsdc)]" and B = "[]"])
    show "moves v e ?a [(AcceptB, BranchUsdc), (RejectB, BranchUsdc)] []"
      using a by (simp add: moves_def e no_effect_def BRANCHES_def)
    show "pays v e v'" using a inv(1) by (simp add: pays_def e no_effect_def v' BRANCHES_def E)
    show "0 \<le> supplyOf (holdings v b') k" for b' k by (rule supplyOf_bounds(1) [OF inv(5)])
    show "supplyOf (holdings v' b') k = supplyOf (holdings v b') k
        + (if (b', k) \<in> set [(AcceptB, BranchUsdc), (RejectB, BranchUsdc)] then ?a else 0)
        - (if (b', k) \<in> set [] then ?a else 0)" for b' k
      unfolding H by (cases b'; cases k) (simp_all add: supplyOf_def)
  qed simp
qed

lemma vault_merge_refines:
  assumes "vault_inv v" "v_collateralIn v \<le> MAX_SAFE_INTEGER" "vault_merge v amount = Inr (v', e)"
  shows "refines v e v'"
proof -
  let ?a = "js_int amount"
  note inv' = vault_merge_inv [OF assms]
  have bad: "\<not> badAmount amount" and le: "\<And>b. ?a \<le> bs_usdc (holdings v b)"
    and v': "v' = fold (\<lambda>b w. withBranch w b ((holdings w b)\<lparr> bs_usdc := jsub (bs_usdc (holdings w b)) ?a \<rparr>)) BRANCHES
        (v\<lparr> v_escrowed := jsub (v_escrowed v) ?a, v_paidOut := jadd (v_paidOut v) ?a \<rparr>)"
    and e: "e = (no_effect (Signed C_merge))\<lparr> le_payout := ?a, le_grossPayout := ?a,
        le_burned := map (\<lambda>b. delta_at v b BranchUsdc ?a) BRANCHES \<rparr>"
    using assms(3) by (auto simp: vault_merge_def Let_def not_less split: if_splits)
  note a = not_badAmount [OF bad]
  note ok = vault_invD(5) [OF assms(1)]
  have H: "holdings v' b = burnLeg (holdings v b) BranchUsdc ?a" for b
    by (cases b) (simp_all add: v' BRANCHES_def burnLeg_def)
  show ?thesis
  proof (rule refinesI [where a = ?a and M = "[]" and B = "[(AcceptB, BranchUsdc), (RejectB, BranchUsdc)]"])
    show "moves v e ?a [] [(AcceptB, BranchUsdc), (RejectB, BranchUsdc)]"
      using a by (simp add: moves_def e no_effect_def BRANCHES_def)
    show "pays v e v'"
      by (rule payout_pays [OF assms(1) inv' assms(2) a(1,2)]) (use a in \<open>simp_all add: v' e no_effect_def BRANCHES_def\<close>)
    show "0 \<le> supplyOf (holdings v b') k" for b' k by (rule supplyOf_bounds(1) [OF ok])
    have U: "?a \<le> supplyOf (holdings v b') BranchUsdc" for b' using le by (simp add: supplyOf_def)
    show "supplyOf (holdings v' b') k = supplyOf (holdings v b') k + (if (b', k) \<in> set [] then ?a else 0)
        - (if (b', k) \<in> set [(AcceptB, BranchUsdc), (RejectB, BranchUsdc)] then ?a else 0)" for b' k
      unfolding H supplyOf_burnLeg [OF ok assms(2) a(1) U] by (cases b') simp_all
    show "?a \<le> supplyOf (holdings v b') k" if "(b', k) \<in> set [(AcceptB, BranchUsdc), (RejectB, BranchUsdc)]" for b' k
      using that U by auto
  qed
qed

text \<open>A move inside one branch burns one list of its legs and mints another.\<close>

lemma branch_refines:
  assumes inv: "vault_inv v" and v': "v' = withBranch v b s'"
    and e: "e = (no_effect c)\<lparr> le_minted := map (\<lambda>k. delta_at v b k a) Ms, le_burned := map (\<lambda>k. delta_at v b k a) Bs \<rparr>"
    and a: "0 \<le> a" "distinct Ms" "distinct Bs"
    and leg: "\<And>k. supplyOf s' k = supplyOf (holdings v b) k + (if k \<in> set Ms then a else 0) - (if k \<in> set Bs then a else 0)"
    and le: "\<And>k. k \<in> set Bs \<Longrightarrow> a \<le> supplyOf (holdings v b) k"
  shows "refines v e v'"
proof (rule refinesI [where a = a and M = "map (Pair b) Ms" and B = "map (Pair b) Bs"])
  show "moves v e a (map (Pair b) Ms) (map (Pair b) Bs)"
    using a by (simp add: moves_def e no_effect_def distinct_map inj_on_def)
  show "pays v e v'" using vault_invD(1) [OF inv] by (simp add: pays_def e no_effect_def v')
  show "0 \<le> supplyOf (holdings v b') k" for b' k by (rule supplyOf_bounds(1) [OF vault_invD(5) [OF inv]])
  show "supplyOf (holdings v' b') k = supplyOf (holdings v b') k + (if (b', k) \<in> set (map (Pair b) Ms) then a else 0)
      - (if (b', k) \<in> set (map (Pair b) Bs) then a else 0)" for b' k
    using leg by (auto simp: v')
  show "a \<le> supplyOf (holdings v b') k" if "(b', k) \<in> set (map (Pair b) Bs)" for b' k using that le by auto
qed

lemma gate_field_bounds:
  assumes "supply_ok C s"
  shows "0 \<le> at_gate g (bs_gateYes s)" "0 \<le> at_gate g (bs_gateNo s)" "0 \<le> at_gate g (bs_gateSets s)"
    "bs_usdc s + at_gate g (bs_gateYes s) \<le> C" "bs_usdc s + at_gate g (bs_gateNo s) \<le> C"
    "bs_usdc s + at_gate g (bs_gateSets s) \<le> C"
  using assms by (cases g; simp add: supply_defs)+

lemma at_setGateValue [simp]: "at_gate g' (setGateValue m g x) = (if g' = g then x else at_gate g' m)"
  by (cases g; cases g'; simp add: setGateValue_def)

lemma splitScalar_refines:
  assumes "vault_inv v" "v_collateralIn v \<le> MAX_SAFE_INTEGER" "splitScalar v b amount = Inr (v', e)"
  shows "refines v e v'"
proof -
  let ?a = "js_int amount" and ?s = "holdings v b"
  have bad: "\<not> badAmount amount" and le: "?a \<le> bs_usdc ?s"
    and v': "v' = withBranch v b (?s\<lparr> bs_usdc := jsub (bs_usdc ?s) ?a, bs_scalarSets := jadd (bs_scalarSets ?s) ?a,
        bs_long := jadd (bs_long ?s) ?a, bs_short := jadd (bs_short ?s) ?a \<rparr>)"
    and e: "e = (no_effect (Signed C_split_scalar))\<lparr> le_minted := map (\<lambda>k. delta_at v b k ?a) [Long, Short],
        le_burned := map (\<lambda>k. delta_at v b k ?a) [BranchUsdc] \<rparr>"
    using assms(3) by (auto simp: splitScalar_def Let_def not_less split: if_splits)
  note a = not_badAmount [OF bad] and ok = vault_invD(5) [OF assms(1), of b]
  have J: "jadd (bs_long ?s) ?a = bs_long ?s + ?a" "jadd (bs_short ?s) ?a = bs_short ?s + ?a"
    by (rule jadd_nonneg_exact; use ok assms(2) a le in \<open>simp add: supply_defs MAX_SAFE_INTEGER_def\<close>)+
  show ?thesis
    by (rule branch_refines [OF assms(1) v' e a(1)])
      (use le in \<open>auto simp: supplyOf_def J sub_exact [OF ok assms(2) a(1)] split: position_kind.splits\<close>)
qed

lemma mergeScalar_refines:
  assumes "vault_inv v" "v_collateralIn v \<le> MAX_SAFE_INTEGER" "mergeScalar v b amount = Inr (v', e)"
  shows "refines v e v'"
proof -
  let ?a = "js_int amount" and ?s = "holdings v b"
  have bad: "\<not> badAmount amount" and le: "?a \<le> bs_long ?s" "?a \<le> bs_short ?s" "?a \<le> bs_scalarSets ?s"
    and v': "v' = withBranch v b (?s\<lparr> bs_usdc := jadd (bs_usdc ?s) ?a, bs_scalarSets := jsub (bs_scalarSets ?s) ?a,
        bs_long := jsub (bs_long ?s) ?a, bs_short := jsub (bs_short ?s) ?a \<rparr>)"
    and e: "e = (no_effect (Signed C_merge_scalar))\<lparr> le_minted := map (\<lambda>k. delta_at v b k ?a) [BranchUsdc],
        le_burned := map (\<lambda>k. delta_at v b k ?a) [Long, Short] \<rparr>"
    using assms(3) by (auto simp: mergeScalar_def Let_def not_less split: if_splits)
  note a = not_badAmount [OF bad] and ok = vault_invD(5) [OF assms(1), of b]
  have J: "jadd (bs_usdc ?s) ?a = bs_usdc ?s + ?a"
    by (rule jadd_nonneg_exact; use ok assms(2) a le in \<open>simp add: supply_defs MAX_SAFE_INTEGER_def\<close>)
  show ?thesis
    by (rule branch_refines [OF assms(1) v' e a(1)])
      (use le in \<open>auto simp: supplyOf_def J sub_exact [OF ok assms(2) a(1)] split: position_kind.splits\<close>)
qed

lemma splitGate_refines:
  assumes "vault_inv v" "v_collateralIn v \<le> MAX_SAFE_INTEGER" "splitGate v b g amount = Inr (v', e)"
  shows "refines v e v'"
proof -
  let ?a = "js_int amount" and ?s = "holdings v b"
  have bad: "\<not> badAmount amount" and le: "?a \<le> bs_usdc ?s"
    and v': "v' = withBranch v b (?s\<lparr> bs_usdc := jsub (bs_usdc ?s) ?a,
        bs_gateSets := setGateValue (bs_gateSets ?s) g (jadd (at_gate g (bs_gateSets ?s)) ?a),
        bs_gateYes := setGateValue (bs_gateYes ?s) g (jadd (at_gate g (bs_gateYes ?s)) ?a),
        bs_gateNo := setGateValue (bs_gateNo ?s) g (jadd (at_gate g (bs_gateNo ?s)) ?a) \<rparr>)"
    and e: "e = (no_effect (Signed C_split_gate))\<lparr> le_minted := map (\<lambda>k. delta_at v b k ?a) [GateYes g, GateNo g],
        le_burned := map (\<lambda>k. delta_at v b k ?a) [BranchUsdc] \<rparr>"
    using assms(3) by (auto simp: splitGate_def Let_def not_less split: if_splits)
  note a = not_badAmount [OF bad] and ok = vault_invD(5) [OF assms(1), of b]
  have J: "jadd (at_gate g (bs_gateYes ?s)) ?a = at_gate g (bs_gateYes ?s) + ?a"
    "jadd (at_gate g (bs_gateNo ?s)) ?a = at_gate g (bs_gateNo ?s) + ?a"
    by (rule jadd_nonneg_exact; use gate_field_bounds [OF ok, of g] assms(2) a le in \<open>simp add: MAX_SAFE_INTEGER_def\<close>)+
  show ?thesis
    by (rule branch_refines [OF assms(1) v' e a(1)])
      (use le in \<open>auto simp: supplyOf_def J sub_exact [OF ok assms(2) a(1)] split: position_kind.splits\<close>)
qed

lemma mergeGate_refines:
  assumes "vault_inv v" "v_collateralIn v \<le> MAX_SAFE_INTEGER" "mergeGate v b g amount = Inr (v', e)"
  shows "refines v e v'"
proof -
  let ?a = "js_int amount" and ?s = "holdings v b"
  have bad: "\<not> badAmount amount"
    and le: "?a \<le> at_gate g (bs_gateYes ?s)" "?a \<le> at_gate g (bs_gateNo ?s)" "?a \<le> at_gate g (bs_gateSets ?s)"
    and v': "v' = withBranch v b (?s\<lparr> bs_usdc := jadd (bs_usdc ?s) ?a,
        bs_gateSets := setGateValue (bs_gateSets ?s) g (jsub (at_gate g (bs_gateSets ?s)) ?a),
        bs_gateYes := setGateValue (bs_gateYes ?s) g (jsub (at_gate g (bs_gateYes ?s)) ?a),
        bs_gateNo := setGateValue (bs_gateNo ?s) g (jsub (at_gate g (bs_gateNo ?s)) ?a) \<rparr>)"
    and e: "e = (no_effect (Signed C_merge_gate))\<lparr> le_minted := map (\<lambda>k. delta_at v b k ?a) [BranchUsdc],
        le_burned := map (\<lambda>k. delta_at v b k ?a) [GateYes g, GateNo g] \<rparr>"
    using assms(3) by (auto simp: mergeGate_def Let_def not_less split: if_splits)
  note a = not_badAmount [OF bad] and ok = vault_invD(5) [OF assms(1), of b]
  note gb = gate_field_bounds [OF ok, of g]
  have J: "jadd (bs_usdc ?s) ?a = bs_usdc ?s + ?a"
    "jsub (at_gate g (bs_gateYes ?s)) ?a = at_gate g (bs_gateYes ?s) - ?a"
    "jsub (at_gate g (bs_gateNo ?s)) ?a = at_gate g (bs_gateNo ?s) - ?a"
    by (rule jadd_nonneg_exact jsub_nonneg_exact; use ok gb assms(2) a le in \<open>simp add: supply_ok_def MAX_SAFE_INTEGER_def\<close>)+
  show ?thesis
    by (rule branch_refines [OF assms(1) v' e a(1)])
      (use le in \<open>auto simp: supplyOf_def J split: position_kind.splits\<close>)
qed

lemma apply_op_refines:
  assumes inv: "vault_inv v" and op: "apply_op op v = Inr (v', e)" and C': "v_collateralIn v' \<le> MAX_SAFE_INTEGER"
  shows "refines v e v'"
proof -
  have "0 \<le> v_collateralIn v" using vault_invD(1-3) [OF inv] by linarith
  then have safe: "v_collateralIn v \<le> MAX_SAFE_INTEGER" using collateral_mono [OF op] C' by linarith
  note moves = vault_merge_refines [OF inv safe] splitScalar_refines [OF inv safe] mergeScalar_refines [OF inv safe]
    splitGate_refines [OF inv safe] mergeGate_refines [OF inv safe] redeem_refines [OF inv safe]
    redeemScalar_refines [OF inv safe] redeemScalarPair_refines [OF inv safe]
    redeemGate_refines [OF inv safe] redeemVoid_refines [OF inv safe]
  show ?thesis
  proof (cases op)
    case (OpSplit a) then show ?thesis using vault_split_refines [OF inv _ C'] op by simp
  next
    case (OpTransfer p a)
    then have "v' = v \<and> e = no_effect (Signed C_transfer)"
      using op by (auto simp: vault_transfer_def Let_def split: if_splits position_id.splits)
    then show ?thesis by (intro idle_refines [OF inv]) simp_all
  next
    case (OpResolve w)
    then show ?thesis using op
      by (auto simp: vault_resolve_def intro!: idle_refines [OF inv] split: if_splits)
  next
    case OpVoid
    then show ?thesis using op
      by (auto simp: voidVault_def intro!: idle_refines [OF inv] split: vault_state.splits)
  next
    case (OpSettleScalar s)
    then show ?thesis using op
      by (auto simp: settleScalar_def intro!: idle_refines [OF inv] split: vault_state.splits if_splits)
  next
    case (OpSettleGate g x)
    then show ?thesis using op
      by (auto simp: settleGate_def intro!: idle_refines [OF inv] split: if_splits)
  qed (use op in \<open>simp_all only: apply_op.simps moves\<close>)
qed

subsection \<open>Which call a state admits\<close>

fun op_call :: "ledger_op \<Rightarrow> effect_call" where
  "op_call (OpSplit a) = Signed C_split"
| "op_call (OpMerge a) = Signed C_merge"
| "op_call (OpSplitScalar b a) = Signed C_split_scalar"
| "op_call (OpMergeScalar b a) = Signed C_merge_scalar"
| "op_call (OpSplitGate b g a) = Signed C_split_gate"
| "op_call (OpMergeGate b g a) = Signed C_merge_gate"
| "op_call (OpTransfer p a) = Signed C_transfer"
| "op_call (OpResolve w) = E_resolve"
| "op_call OpVoid = E_void"
| "op_call (OpSettleScalar s) = E_settle_scalar"
| "op_call (OpSettleGate g x) = E_settle_gate"
| "op_call (OpRedeem a) = Signed C_redeem"
| "op_call (OpRedeemScalar side a) = Signed C_redeem_scalar"
| "op_call (OpRedeemScalarPair a) = Signed C_redeem_scalar_pair"
| "op_call (OpRedeemGate g yes a) = Signed C_redeem_gate"
| "op_call (OpRedeemVoid b kind a) = Signed C_redeem_void"

lemmas op_defs = vault_split_def vault_merge_def splitScalar_def mergeScalar_def splitGate_def mergeGate_def
  vault_transfer_def vault_resolve_def voidVault_def settleScalar_def settleGate_def redeem_def redeemScalar_def
  redeemScalarPair_def redeemGate_def redeemVoid_def

text \<open>The state guard of every call is the table of legal calls.\<close>

lemma wrong_state_iff:
  "op_call op = Signed c \<Longrightarrow> apply_op op v = Inl WrongVaultState \<longleftrightarrow> c \<notin> set (legalCallsFor (v_state v))"
  by (cases op; cases "v_state v"; simp add: op_defs Let_def legalCallsFor_def admitsPairOps_def
      split: position_id.splits option.splits)

lemma authority_wrong_state_iff:
  "apply_op (OpResolve w) v = Inl WrongVaultState \<longleftrightarrow> v_state v \<noteq> Open"
  "apply_op OpVoid v = Inl WrongVaultState \<longleftrightarrow> (\<forall>w. v_state v \<noteq> Open \<and> v_state v \<noteq> Resolved w)"
  "apply_op (OpSettleScalar s) v = Inl WrongVaultState \<longleftrightarrow> (\<forall>w. v_state v \<noteq> Resolved w)"
  "apply_op (OpSettleGate g x) v = Inl WrongVaultState \<longleftrightarrow> (\<forall>w sc. v_state v \<noteq> Resolved w \<and> v_state v \<noteq> ScalarSettled w sc)"
  by (cases "v_state v"; simp add: op_defs)+

lemma op_errors:
  "apply_op op v = Inl err \<Longrightarrow>
     err \<in> {WrongVaultState, BelowMinimum, InsufficientPosition, UnknownVault, InvalidScore, GateAlreadySettled, GateNotSettled}"
  by (cases op) (auto simp: op_defs Let_def split: if_splits vault_state.splits position_id.splits option.splits)

subsection \<open>The redemption table prices the calls\<close>

definition state_kind :: "vault_state \<Rightarrow> vault_state_kind" where
  "state_kind st = (case st of Open \<Rightarrow> K_Open | Resolved _ \<Rightarrow> K_Resolved | ScalarSettled _ _ \<Rightarrow> K_ScalarSettled
     | Voided \<Rightarrow> K_Voided | BaselineSettled _ \<Rightarrow> K_BaselineSettled)"

fun op_context :: "ledger_op \<Rightarrow> vault \<Rightarrow> redemption_context" where
  "op_context op v =
     \<lparr> ctx_s = (case v_state v of ScalarSettled _ s \<Rightarrow> s | _ \<Rightarrow> js_of_int 0),
       ctx_gateWins = (case op of OpRedeemGate g yes a \<Rightarrow> at_gate g (v_gateOutcomes v) = Some yes | _ \<Rightarrow> False) \<rparr>"

lemma safe_as_int: "isSafeInteger a \<Longrightarrow> js_of_int (js_int a) = a"
  by (auto simp: isSafeInteger_def js_int_def js_of_int_def split: js_number.splits)

text \<open>The holding that a list of burned legs is, in the words of the table.\<close>

definition single_leg :: "vault_state \<Rightarrow> branch \<Rightarrow> position_kind \<Rightarrow> string option" where
  "single_leg st b kind = (case st of
       ScalarSettled w s \<Rightarrow>
         if b \<noteq> w then None
         else Some (case kind of BranchUsdc \<Rightarrow> ''winning branch-USDC'' | Long \<Rightarrow> ''winning-branch LONG''
              | Short \<Rightarrow> ''winning-branch SHORT'' | _ \<Rightarrow> ''winning gate side of the winning branch'')
     | Voided \<Rightarrow> Some (if kind = BranchUsdc then ''unpaired branch-USDC'' else ''unpaired LONG / SHORT / gate YES / gate NO'')
     | _ \<Rightarrow> None)"

definition same_branch_set :: "vault_state \<Rightarrow> branch \<Rightarrow> position_kind \<Rightarrow> position_kind \<Rightarrow> string option" where
  "same_branch_set st b kind other = (case (kind, other) of
       (Long, Short) \<Rightarrow> (case st of
           ScalarSettled w s \<Rightarrow> if b = w then Some ''winning-branch LONG + SHORT pair'' else None
         | Resolved w \<Rightarrow> Some ''same-branch scalar or gate set''
         | BaselineSettled s \<Rightarrow> None
         | _ \<Rightarrow> Some ''same-branch LONG + SHORT set'')
     | (GateYes g, GateNo h) \<Rightarrow>
         if g \<noteq> h then None
         else (case st of Resolved w \<Rightarrow> Some ''same-branch scalar or gate set''
             | Open \<Rightarrow> Some ''same-branch gate YES + NO set'' | Voided \<Rightarrow> Some ''same-branch gate YES + NO set'' | _ \<Rightarrow> None)
     | _ \<Rightarrow> None)"

definition holding_of :: "vault_state \<Rightarrow> (branch \<times> position_kind) list \<Rightarrow> string option" where
  "holding_of st legs = (case legs of
       [(b, kind)] \<Rightarrow> single_leg st b kind
     | [(b, kind), (c, other)] \<Rightarrow>
         if (b, kind) = (AcceptB, BranchUsdc) \<and> (c, other) = (RejectB, BranchUsdc)
         then (if admitsPairOps st then Some ''Accept + Reject branch-USDC pair'' else None)
         else if b = c then same_branch_set st b kind other else None
     | _ \<Rightarrow> None)"

fun op_redeems :: "ledger_op \<Rightarrow> js_number option" where
  "op_redeems (OpMerge a) = Some a"
| "op_redeems (OpMergeScalar b a) = Some a"
| "op_redeems (OpMergeGate b g a) = Some a"
| "op_redeems (OpRedeem a) = Some a"
| "op_redeems (OpRedeemScalar side a) = Some a"
| "op_redeems (OpRedeemScalarPair a) = Some a"
| "op_redeems (OpRedeemGate g yes a) = Some a"
| "op_redeems (OpRedeemVoid b kind a) = Some a"
| "op_redeems _ = None"

text \<open>The row of a resolved vault that covers scalar and gate sets names the scalar merge for both.\<close>

definition row_call :: "ledger_op \<Rightarrow> vault \<Rightarrow> effect_call" where
  "row_call op v = (case (op, v_state v) of (OpMergeGate b g a, Resolved w) \<Rightarrow> Signed C_merge_scalar | _ \<Rightarrow> op_call op)"

definition priced_by :: "vault \<Rightarrow> effect_call \<Rightarrow> js_number \<Rightarrow> redemption_context \<Rightarrow> ledger_effect \<Rightarrow> bool" where
  "priced_by v c a ctx e \<longleftrightarrow>
     (\<exists>row \<in> set REDEMPTION_MATRIX. rr_state row = state_kind (v_state v) \<and> map_option Signed (rr_call row) = Some c \<and>
        (\<exists>legs. le_burned e = map (\<lambda>(b, kind). delta_at v b kind (js_int a)) legs \<and>
           holding_of (v_state v) legs = Some (rr_holding row)) \<and>
        rr_payout row a ctx = js_of_int (le_grossPayout e))"

definition row_for :: "vault_state_kind \<Rightarrow> string \<Rightarrow> redemption_row option" where
  "row_for k holding = find (\<lambda>row. rr_state row = k \<and> rr_holding row = holding) REDEMPTION_MATRIX"

lemma row_forD: "row_for k holding = Some row \<Longrightarrow> row \<in> set REDEMPTION_MATRIX \<and> rr_state row = k \<and> rr_holding row = holding"
  by (auto simp: row_for_def find_Some_iff)

lemma priced_by_row:
  assumes "le_burned e = map (\<lambda>(b, kind). delta_at v b kind (js_int a)) legs" "holding_of (v_state v) legs = Some holding"
    "\<exists>row. row_for (state_kind (v_state v)) holding = Some row \<and> map_option Signed (rr_call row) = Some c \<and>
       rr_payout row a ctx = js_of_int (le_grossPayout e)"
  shows "priced_by v c a ctx e"
  unfolding priced_by_def using assms row_forD by fastforce

lemmas holding_simps = holding_of_def single_leg_def same_branch_set_def admitsPairOps_def
lemmas row_simps = row_for_def REDEMPTION_MATRIX_def matrix_row_def state_kind_def row_call_def safe_as_int
lemmas op_simps = badAmount_def no_effect_def Let_def admitsPairOps_def BRANCHES_def

lemma priced_merge:
  assumes "vault_merge v a = Inr (v', e)"
  shows "priced_by v (Signed C_merge) a ctx e"
  using assms by (intro priced_by_row [of _ _ _ "[(AcceptB, BranchUsdc), (RejectB, BranchUsdc)]" "''Accept + Reject branch-USDC pair''"])
    (auto simp: vault_merge_def op_simps holding_simps row_simps split: if_splits vault_state.splits)

lemma row_of_scalar_set:
  assumes "admitsPairOps st"
  obtains row holding where "same_branch_set st b Long Short = Some holding" "row_for (state_kind st) holding = Some row"
    "rr_call row = Some C_merge_scalar" "\<forall>a ctx. rr_payout row a ctx = js_of_int 0"
  by (rule that [of "the (same_branch_set st b Long Short)" "the (row_for (state_kind st) (the (same_branch_set st b Long Short)))"];
    use assms in \<open>cases st; simp add: admitsPairOps_def same_branch_set_def row_simps\<close>)

lemma row_of_gate_set:
  assumes "admitsPairOps (v_state v)"
  obtains row holding where "same_branch_set (v_state v) b (GateYes g) (GateNo g) = Some holding" "row_for (state_kind (v_state v)) holding = Some row"
    "map_option Signed (rr_call row) = Some (row_call (OpMergeGate b g x) v)" "\<forall>a ctx. rr_payout row a ctx = js_of_int 0"
  by (rule that [of "the (same_branch_set (v_state v) b (GateYes g) (GateNo g))"
      "the (row_for (state_kind (v_state v)) (the (same_branch_set (v_state v) b (GateYes g) (GateNo g))))"];
    use assms in \<open>cases "v_state v"; simp add: admitsPairOps_def same_branch_set_def row_simps\<close>)

lemma priced_merge_scalar:
  assumes "mergeScalar v b a = Inr (v', e)"
  shows "priced_by v (Signed C_merge_scalar) a ctx e"
proof -
  have e: "admitsPairOps (v_state v)" "le_burned e = map (\<lambda>(b, kind). delta_at v b kind (js_int a)) [(b, Long), (b, Short)]"
    "le_grossPayout e = 0"
    using assms by (auto simp: mergeScalar_def badAmount_def no_effect_def Let_def split: if_splits)
  show ?thesis
    by (rule row_of_scalar_set [OF e(1), of b], rule priced_by_row [OF e(2)]) (auto simp: holding_of_def e(3))
qed

lemma priced_merge_gate:
  assumes "mergeGate v b g a = Inr (v', e)"
  shows "priced_by v (row_call (OpMergeGate b g a) v) a ctx e"
proof -
  have e: "admitsPairOps (v_state v)" "le_burned e = map (\<lambda>(b, kind). delta_at v b kind (js_int a)) [(b, GateYes g), (b, GateNo g)]"
    "le_grossPayout e = 0"
    using assms by (auto simp: mergeGate_def badAmount_def no_effect_def Let_def split: if_splits)
  show ?thesis
    by (rule row_of_gate_set [OF e(1), of b g a], rule priced_by_row [OF e(2)]) (auto simp: holding_of_def e(3))
qed

lemma priced_redeem:
  assumes "redeem v a = Inr (v', e)" "v_state v = ScalarSettled w s"
  shows "priced_by v (Signed C_redeem) a ctx e"
  using assms by (intro priced_by_row [of _ _ _ "[(w, BranchUsdc)]" "''winning branch-USDC''"])
    (auto simp: redeem_def op_simps holding_simps row_simps split: if_splits)

lemma priced_redeem_scalar:
  assumes "redeemScalar v side a = Inr (v', e)" "v_state v = ScalarSettled w s" "ctx_s ctx = s"
  shows "priced_by v (Signed C_redeem_scalar) a ctx e"
  using assms by (intro priced_by_row [of _ _ _ "[(w, if side = LongSide then Long else Short)]"
      "if side = LongSide then ''winning-branch LONG'' else ''winning-branch SHORT''"]; cases side)
    (auto simp: redeemScalar_def op_simps holding_simps row_simps split: if_splits)

lemma priced_redeem_pair:
  assumes "redeemScalarPair v a = Inr (v', e)" "v_state v = ScalarSettled w s"
  shows "priced_by v (Signed C_redeem_scalar_pair) a ctx e"
  using assms by (intro priced_by_row [of _ _ _ "[(w, Long), (w, Short)]" "''winning-branch LONG + SHORT pair''"])
    (auto simp: redeemScalarPair_def op_simps holding_simps row_simps scalarPairPayout_def split: if_splits)

lemma priced_redeem_gate:
  assumes "redeemGate v g yes a = Inr (v', e)" "v_state v = ScalarSettled w s"
    "ctx_gateWins ctx = (at_gate g (v_gateOutcomes v) = Some yes)"
  shows "priced_by v (Signed C_redeem_gate) a ctx e"
  using assms by (intro priced_by_row [of _ _ _ "[(w, if yes then GateYes g else GateNo g)]" "''winning gate side of the winning branch''"])
    (auto simp: redeemGate_def op_simps holding_simps row_simps split: if_splits option.splits)

lemma priced_redeem_void:
  assumes "redeemVoid v b kind a = Inr (v', e)"
  shows "priced_by v (Signed C_redeem_void) a ctx e"
  using assms by (intro priced_by_row [of _ _ _ "[(b, kind)]"
      "if kind = BranchUsdc then ''unpaired branch-USDC'' else ''unpaired LONG / SHORT / gate YES / gate NO''"])
    (auto simp: redeemVoid_def op_simps holding_simps row_simps redeemVoidPayout_def split: if_splits)

lemma matrix_prices:
  assumes op: "apply_op op v = Inr (v', e)" and a: "op_redeems op = Some a"
  shows "priced_by v (row_call op v) a (op_context op v) e"
proof -
  have settled: "\<exists>w s. v_state v = ScalarSettled w s"
    if "op = OpRedeem x \<or> op = OpRedeemScalar side x \<or> op = OpRedeemScalarPair x \<or> op = OpRedeemGate g yes x" for side x g yes
    using that op by (auto simp: op_defs split: vault_state.splits)
  have same: "row_call op v = op_call op" if "\<And>b g x. op \<noteq> OpMergeGate b g x"
    using that by (cases op; cases "v_state v") (simp_all add: row_call_def)
  show ?thesis
  proof (cases op)
    case (OpMerge x)
    then show ?thesis using op a same priced_merge [of v a v' e] by simp
  next
    case (OpMergeScalar b x)
    then show ?thesis using op a same priced_merge_scalar [of v b a v' e] by simp
  next
    case (OpMergeGate b g x)
    then show ?thesis using op a priced_merge_gate [of v b g a v' e] by simp
  next
    case (OpRedeem x)
    then show ?thesis using op a same settled [of x] priced_redeem [of v a v' e] by auto
  next
    case (OpRedeemScalar side x)
    then show ?thesis using op a same settled [of x side] priced_redeem_scalar [of v side a v' e] by auto
  next
    case (OpRedeemScalarPair x)
    then show ?thesis using op a same settled [of x] priced_redeem_pair [of v a v' e] by auto
  next
    case (OpRedeemGate g yes x)
    then show ?thesis using op a same settled [of x _ g yes] priced_redeem_gate [of v g yes a v' e] by auto
  next
    case (OpRedeemVoid b kind x)
    then show ?thesis using op a same priced_redeem_void [of v b kind a v' e] by simp
  qed (use a in simp_all)
qed

lemma matrix_rows_distinct: "distinct (map (\<lambda>row. (rr_state row, rr_holding row)) REDEMPTION_MATRIX)"
  by (simp add: REDEMPTION_MATRIX_def matrix_row_def)

subsection \<open>Draining a voided vault\<close>

fun run_ops :: "ledger_op list \<Rightarrow> vault \<Rightarrow> (ledger_error, vault) result" where
  "run_ops [] v = Inr v"
| "run_ops (op # ops) v = rbind (apply_op op v) (\<lambda>(v', e). run_ops ops v')"

definition all_legs :: "(branch \<times> position_kind) list" where
  "all_legs = List.product BRANCHES POSITION_KINDS"

definition drain :: "(branch \<times> position_kind) list \<Rightarrow> vault \<Rightarrow> ledger_op list" where
  "drain legs v = map (\<lambda>(b, k). OpRedeemVoid b k (js_of_int (supplyOf (holdings v b) k))) legs"

lemma all_legs: "distinct all_legs" "set all_legs = UNIV"
proof -
  show "distinct all_legs" by (simp add: all_legs_def BRANCHES_def POSITION_KINDS_def)
  have "(b, k) \<in> set all_legs" for b k
    by (cases k; cases b) (auto simp: all_legs_def POSITION_KINDS_def intro: gate_type.exhaust)
  then show "set all_legs = UNIV" by auto
qed

lemma drain_step:
  assumes inv: "vault_inv v" "v_collateralIn v \<le> MAX_SAFE_INTEGER" "v_state v = Voided"
  obtains v' e where "apply_op (OpRedeemVoid b k (js_of_int (supplyOf (holdings v b) k))) v = Inr (v', e)"
    "vault_inv v'" "v_collateralIn v' = v_collateralIn v" "v_state v' = Voided"
    "\<And>b' k'. supplyOf (holdings v' b') k' = (if b' = b \<and> k' = k then 0 else supplyOf (holdings v b') k')"
proof -
  let ?a = "supplyOf (holdings v b) k"
  note ok = vault_invD(5) [OF inv(1)]
  note a = supplyOf_bounds [OF ok, of b k]
  define v' where "v' = withBranch (vault_payout v (redeemVoidPayout k (js_of_int ?a))) b (burnLeg (holdings v b) k ?a)"
  obtain e where op: "apply_op (OpRedeemVoid b k (js_of_int ?a)) v = Inr (v', e)"
    using a inv by (auto simp: redeemVoid_def badAmount_def Let_def v'_def)
  have "vault_inv v'" by (rule redeemVoid_inv [OF inv(1,2)]) (use op in simp)
  then show ?thesis
    by (rule that [OF op]) (simp_all add: v'_def inv supplyOf_burnLeg [OF ok inv(2) a(1) order_refl])
qed

lemma drain_runs:
  assumes "distinct legs" "vault_inv v" "v_collateralIn v \<le> MAX_SAFE_INTEGER" "v_state v = Voided"
  shows "\<exists>v'. run_ops (drain legs v) v = Inr v' \<and> vault_inv v' \<and> v_state v' = Voided \<and>
     v_collateralIn v' = v_collateralIn v \<and>
     (\<forall>b k. supplyOf (holdings v' b) k = (if (b, k) \<in> set legs then 0 else supplyOf (holdings v b) k))"
  using assms
proof (induction legs arbitrary: v)
  case Nil
  then show ?case by (simp add: drain_def)
next
  case (Cons leg legs)
  obtain b k where leg: "leg = (b, k)" by (cases leg)
  obtain v1 e where step: "apply_op (OpRedeemVoid b k (js_of_int (supplyOf (holdings v b) k))) v = Inr (v1, e)"
    and inv1: "vault_inv v1" "v_collateralIn v1 = v_collateralIn v" "v_state v1 = Voided"
    and s: "\<And>b' k'. supplyOf (holdings v1 b') k' = (if b' = b \<and> k' = k then 0 else supplyOf (holdings v b') k')"
    by (rule drain_step [OF Cons.prems(2-4), where b = b and k = k]) blast
  have same: "drain legs v = drain legs v1"
    using Cons.prems(1) by (auto simp: drain_def s leg)
  have "run_ops (drain (leg # legs) v) v = run_ops (drain legs v1) v1"
    using step by (simp add: drain_def leg flip: same [unfolded drain_def])
  then show ?case
    using Cons.IH [of v1] Cons.prems inv1 s by (auto simp: leg)
qed

subsection \<open>A sample run\<close>

definition sample_ops :: "ledger_op list" where
  "sample_ops = [OpSplit (js_of_int 100000), OpSplitScalar AcceptB (js_of_int 40000),
     OpSplitGate RejectB Survival (js_of_int 30000), OpMerge (js_of_int 20000), OpResolve AcceptB, OpVoid,
     OpRedeemVoid AcceptB Long (js_of_int 40000)]"

definition sample_vault :: vault where
  "sample_vault = (case run_ops sample_ops (createVault 7) of Inr v \<Rightarrow> v | Inl _ \<Rightarrow> createVault 7)"

lemma fold_pair: "fold f [a, b] x = f b (f a x)"
  by simp

lemmas sample_simps = op_defs Let_def badAmount_def BRANCHES_def createVault_def emptySupply_def ZERO_GATES_def
  MIN_SPLIT_USDC_def MAX_SAFE_INTEGER_def jadd_exact jsub_exact no_effect_def delta_at_def withBranch_def
  setGateValue_def holdings_def at_branch_def at_gate_def admitsPairOps_def supplyOf_def burnLeg_def vault_payout_def
  redeemVoidPayout_eq

lemma sample_run:
  "case run_ops sample_ops (createVault 7) of Inr v \<Rightarrow> v_collateralIn v = 100000 \<and> v_state v = Voided \<and>
     v_escrowed v = 70000 \<and> v_paidOut v = 30000 \<and> v_terminalRedemptions v = 1 | Inl _ \<Rightarrow> False"
  by (simp add: sample_ops_def sample_simps del: supply_fold)

lemma run_ops_reachable: "reachable_vault v \<Longrightarrow> run_ops ops v = Inr v' \<Longrightarrow> reachable_vault v'"
proof (induction ops arbitrary: v)
  case (Cons op ops)
  then obtain v1 e where "apply_op op v = Inr (v1, e)" "run_ops ops v1 = Inr v'"
    by (auto simp: rbind_eq_Inr_iff)
  then show ?case using Cons.IH [OF reachable_step [OF Cons.prems(1)]] vault_stepI by blast
qed simp

lemma sample_vault:
  "run_ops sample_ops (createVault 7) = Inr sample_vault" "v_collateralIn sample_vault = 100000"
  "v_state sample_vault = Voided" "v_escrowed sample_vault = 70000" "v_paidOut sample_vault = 30000"
  "reachable_vault sample_vault" "v_collateralIn sample_vault \<le> MAX_SAFE_INTEGER"
proof -
  show r: "run_ops sample_ops (createVault 7) = Inr sample_vault"
    using sample_run by (simp add: sample_vault_def split: sum.splits)
  show s: "v_collateralIn sample_vault = 100000" "v_state sample_vault = Voided"
    "v_escrowed sample_vault = 70000" "v_paidOut sample_vault = 30000"
    using sample_run by (simp_all add: r)
  show "reachable_vault sample_vault" by (rule run_ops_reachable [OF reachable_create r])
  show "v_collateralIn sample_vault \<le> MAX_SAFE_INTEGER" by (simp add: s MAX_SAFE_INTEGER_def)
qed

subsection \<open>Properties\<close>

text \<open>C4
  Conservation. In every vault the calls can reach from a fresh one, while the collateral split in
  stays a safe integer, the code's own conservation check passes: escrow and payouts are
  non-negative and sum exactly to the collateral, every branch that has not been redeemed still
  carries the escrow with balanced sets, and the claims still extractable are covered by the escrow.\<close>

theorem ledger_conservation:
  assumes "reachable_vault v" and "v_collateralIn v \<le> MAX_SAFE_INTEGER"
  shows "checkConservation v \<and> v_escrowed v + v_paidOut v = v_collateralIn v \<and> 0 \<le> v_escrowed v"
  using checkConservation_inv [OF reachable_inv [OF assms] assms(2)] vault_invD(1-3) [OF reachable_inv [OF assms]] by simp

theorem ledger_conservation_witness:
  "checkConservation sample_vault \<and> v_escrowed sample_vault = 70000 \<and> v_paidOut sample_vault = 30000"
  using ledger_conservation [OF sample_vault(6,7)] sample_vault(4,5) by simp

text \<open>C7
  The effects account for the vault. Over the abstract ledger of claims (escrow, payouts, one
  balance per position) every successful call does exactly what its reported effect says: the
  collateral it takes and the gross it pays move the escrow, the minted and burned deltas move the
  balances, the net payout and the fee split the gross, and nothing is burned that is not held.\<close>

theorem ledger_refines_effects:
  assumes "reachable_vault v" and "apply_op op v = Inr (v', e)" and "v_collateralIn v' \<le> MAX_SAFE_INTEGER"
  shows "ledger_abs v' = apply_effect e (ledger_abs v) \<and> effect_sound (ledger_abs v) e"
proof -
  have "v_collateralIn v \<le> v_collateralIn v'"
    by (rule collateral_mono [OF assms(2) reachable_collateral_nonneg [OF assms(1)] assms(3)])
  then have "vault_inv v" using reachable_inv [OF assms(1)] assms(3) by linarith
  from apply_op_refines [OF this assms(2,3)] show ?thesis by (simp only: refines_def)
qed

theorem ledger_refines_effects_witness:
  "\<exists>v' e. apply_op (OpMerge (js_of_int 1000)) (createVault 7) = Inl InsufficientPosition \<and>
     apply_op (OpSplit (js_of_int 50000)) (createVault 7) = Inr (v', e) \<and>
     ledger_abs v' = apply_effect e (ledger_abs (createVault 7)) \<and> effect_sound (ledger_abs (createVault 7)) e \<and>
     cl_escrow (ledger_abs v') = 50000"
proof -
  have "case apply_op (OpSplit (js_of_int 50000)) (createVault 7) of Inl _ \<Rightarrow> False | Inr (v', e) \<Rightarrow>
      v_collateralIn v' = 50000 \<and> v_escrowed v' = 50000"
    by (simp add: sample_simps del: supply_fold)
  then obtain v' e where op: "apply_op (OpSplit (js_of_int 50000)) (createVault 7) = Inr (v', e)"
    and v': "v_collateralIn v' = 50000" "v_escrowed v' = 50000" by (auto split: sum.splits)
  have "v_collateralIn v' \<le> MAX_SAFE_INTEGER" by (simp add: v' MAX_SAFE_INTEGER_def)
  note r = ledger_refines_effects [OF reachable_create op this]
  have "apply_op (OpMerge (js_of_int 1000)) (createVault 7) = Inl InsufficientPosition"
    by (simp add: sample_simps del: supply_fold)
  moreover have "cl_escrow (ledger_abs v') = 50000" using v' by (simp add: ledger_abs_def)
  ultimately show ?thesis using op r by blast
qed

text \<open>C23
  The refusals. A signed call is refused for the vault's state exactly when the table of legal
  calls does not list it for that state; the four authority transitions have the state guards of
  the lifecycle; and no call ever fails with an error other than the seven listed (so an overflow
  is never reported).\<close>

theorem ledger_refusals:
  "(case op_call op of
      Signed c \<Rightarrow> apply_op op v = Inl WrongVaultState \<longleftrightarrow> c \<notin> set (legalCallsFor (v_state v))
    | E_resolve \<Rightarrow> apply_op op v = Inl WrongVaultState \<longleftrightarrow> v_state v \<noteq> Open
    | E_void \<Rightarrow> apply_op op v = Inl WrongVaultState \<longleftrightarrow> v_state v \<notin> {Open, Resolved AcceptB, Resolved RejectB}
    | E_settle_scalar \<Rightarrow> apply_op op v = Inl WrongVaultState \<longleftrightarrow> v_state v \<notin> {Resolved AcceptB, Resolved RejectB}
    | E_settle_gate \<Rightarrow> apply_op op v = Inl WrongVaultState \<longleftrightarrow>
        (case v_state v of Resolved _ \<Rightarrow> False | ScalarSettled _ _ \<Rightarrow> False | _ \<Rightarrow> True)) \<and>
   (case apply_op op v of Inr _ \<Rightarrow> True | Inl err \<Rightarrow>
      err \<in> {WrongVaultState, BelowMinimum, InsufficientPosition, UnknownVault, InvalidScore,
             GateAlreadySettled, GateNotSettled})"
proof -
  have branch: "w = AcceptB \<or> w = RejectB" for w by (cases w) simp_all
  show ?thesis
    using op_errors [of op v] wrong_state_iff [of op _ v] branch
    by (cases op; cases "v_state v")
      (simp_all add: authority_wrong_state_iff [unfolded apply_op.simps] split: sum.splits)
qed

text \<open>C18
  Merges and redemptions are priced by the table. Any of the three merges or five redemptions that
  succeeds burns exactly one of the table's holdings, at the amount asked; the row of that holding
  in the vault's state (each state and holding has one row) names the call, and its payout, computed
  from the amount, the settlement score and the gate outcome, is the gross payout of the effect. One row names another call
  than the one made: a resolved vault's row for scalar and gate sets says \<open>merge_scalar\<close> for both.\<close>

theorem redemption_matrix_prices:
  assumes "apply_op op v = Inr (v', e)" and "op_redeems op = Some a"
  shows "(\<exists>row \<in> set REDEMPTION_MATRIX. \<exists>legs. rr_state row = state_kind (v_state v) \<and>
      le_burned e = map (\<lambda>(b, kind). delta_at v b kind (js_int a)) legs \<and> holding_of (v_state v) legs = Some (rr_holding row) \<and>
      map_option Signed (rr_call row) = Some (row_call op v) \<and>
      rr_payout row a (op_context op v) = js_of_int (le_grossPayout e)) \<and>
    distinct (map (\<lambda>row. (rr_state row, rr_holding row)) REDEMPTION_MATRIX)"
  using matrix_prices [OF assms] matrix_rows_distinct unfolding priced_by_def by blast

theorem redemption_matrix_prices_witness:
  "\<exists>v' e. apply_op (OpRedeemVoid RejectB BranchUsdc (js_of_int 999)) sample_vault = Inr (v', e) \<and>
    le_grossPayout e = 499 \<and>
    (\<exists>row \<in> set REDEMPTION_MATRIX. \<exists>legs. rr_state row = K_Voided \<and>
      le_burned e = map (\<lambda>(b, kind). delta_at sample_vault b kind 999) legs \<and> holding_of Voided legs = Some (rr_holding row) \<and>
      map_option Signed (rr_call row) = Some (Signed C_redeem_void) \<and>
      rr_payout row (js_of_int 999) (op_context (OpRedeemVoid RejectB BranchUsdc (js_of_int 999)) sample_vault) = js_of_int 499)"
proof -
  let ?op = "OpRedeemVoid RejectB BranchUsdc (js_of_int 999)"
  have "case run_ops sample_ops (createVault 7) of Inl _ \<Rightarrow> False
     | Inr v \<Rightarrow> bs_usdc (holdings v RejectB) = 50000"
    by (simp add: sample_ops_def sample_simps del: supply_fold)
  then have h: "bs_usdc (holdings sample_vault RejectB) = 50000" by (simp add: sample_vault(1))
  obtain v' e where op: "apply_op ?op sample_vault = Inr (v', e)" and e: "le_grossPayout e = 499"
    using sample_vault(3) h
    by (simp add: redeemVoid_def badAmount_def Let_def supplyOf_def MAX_SAFE_INTEGER_def no_effect_def redeemVoidPayout_eq)
  have c: "row_call ?op sample_vault = Signed C_redeem_void" by (simp add: row_call_def)
  show ?thesis
    using redemption_matrix_prices [OF op, of "js_of_int 999"] op unfolding e c sample_vault(3)
    by (auto simp: state_kind_def e)
qed

text \<open>C19
  A voided vault can always be emptied: redeeming every leg of both branches at its full balance
  succeeds at every step, from any reachable voided vault, and leaves no claim behind while the
  books still balance.\<close>

theorem voided_vault_drains:
  assumes "reachable_vault v" and "v_collateralIn v \<le> MAX_SAFE_INTEGER" and "v_state v = Voided"
  shows "\<exists>v'. run_ops (drain all_legs v) v = Inr v' \<and> (\<forall>b k. supplyOf (holdings v' b) k = 0) \<and>
    checkConservation v'"
proof -
  obtain v' where "run_ops (drain all_legs v) v = Inr v'" "vault_inv v'" "v_collateralIn v' = v_collateralIn v"
    "\<forall>b k. supplyOf (holdings v' b) k = 0"
    using drain_runs [OF all_legs(1) reachable_inv [OF assms(1,2)] assms(2,3)] all_legs(2) by auto
  then show ?thesis using checkConservation_inv [of v'] assms(2) by auto
qed

theorem voided_vault_drains_witness:
  "\<exists>v'. run_ops (drain all_legs sample_vault) sample_vault = Inr v' \<and> checkConservation v' \<and>
     (\<forall>b k. supplyOf (holdings v' b) k = 0)"
  using voided_vault_drains [OF sample_vault(6,7,3)] by blast

end
