(* ===== verification/Js_Arith.thy ===== *)
theory Js_Arith
  imports Js_Number
begin

text \<open>
  The JavaScript operators on arbitrary numbers, NaN and the infinities included: addition,
  subtraction, multiplication, division by a positive constant, the comparisons (false on a NaN),
  \<open>Math.min\<close>, \<open>Math.max\<close>, \<open>Math.floor\<close> and \<open>Math.ceil\<close>.
  The sign of a zero is not modelled: no modelled code divides by a computed zero.
\<close>

fun jn_add :: "js_number \<Rightarrow> js_number \<Rightarrow> js_number" where
  "jn_add (Num a) (Num b) = Num (fl (a + b))"
| "jn_add NaN y = NaN"
| "jn_add x NaN = NaN"
| "jn_add (Num a) y = y"
| "jn_add x (Num b) = x"
| "jn_add x y = (if x = y then x else NaN)"

fun jn_neg :: "js_number \<Rightarrow> js_number" where
  "jn_neg (Num a) = Num (- a)"
| "jn_neg NaN = NaN"
| "jn_neg PosInfinity = NegInfinity"
| "jn_neg NegInfinity = PosInfinity"

definition jn_sub :: "js_number \<Rightarrow> js_number \<Rightarrow> js_number" where
  "jn_sub x y = jn_add x (jn_neg y)"

fun jn_sgn :: "js_number \<Rightarrow> int" where
  "jn_sgn (Num a) = (if a > 0 then 1 else if a < 0 then - 1 else 0)"
| "jn_sgn NaN = 0"
| "jn_sgn PosInfinity = 1"
| "jn_sgn NegInfinity = - 1"

fun jn_mul :: "js_number \<Rightarrow> js_number \<Rightarrow> js_number" where
  "jn_mul (Num a) (Num b) = Num (fl (a * b))"
| "jn_mul NaN y = NaN"
| "jn_mul x NaN = NaN"
| "jn_mul x y = (let s = jn_sgn x * jn_sgn y in if s > 0 then PosInfinity else if s < 0 then NegInfinity else NaN)"

text \<open>Division by a positive constant of the source.\<close>

fun jn_div_by :: "js_number \<Rightarrow> rat \<Rightarrow> js_number" where
  "jn_div_by (Num a) d = Num (fl (a / d))"
| "jn_div_by x d = x"

fun js_lt :: "js_number \<Rightarrow> js_number \<Rightarrow> bool" where
  "js_lt (Num a) (Num b) = (a < b)"
| "js_lt (Num a) PosInfinity = True"
| "js_lt NegInfinity (Num b) = True"
| "js_lt NegInfinity PosInfinity = True"
| "js_lt x y = False"

definition js_le :: "js_number \<Rightarrow> js_number \<Rightarrow> bool" where
  "js_le x y \<longleftrightarrow> js_lt x y \<or> (x = y \<and> x \<noteq> NaN)"

definition jn_min :: "js_number \<Rightarrow> js_number \<Rightarrow> js_number" where
  "jn_min x y = (if x = NaN \<or> y = NaN then NaN else if js_le x y then x else y)"

definition jn_max :: "js_number \<Rightarrow> js_number \<Rightarrow> js_number" where
  "jn_max x y = (if x = NaN \<or> y = NaN then NaN else if js_le x y then y else x)"

fun jn_floor :: "js_number \<Rightarrow> js_number" where
  "jn_floor (Num a) = js_of_int \<lfloor>a\<rfloor>"
| "jn_floor x = x"

fun jn_ceil :: "js_number \<Rightarrow> js_number" where
  "jn_ceil (Num a) = js_of_int \<lceil>a\<rceil>"
| "jn_ceil x = x"

lemma js_le_simps [simp]:
  "js_le (Num a) (Num b) \<longleftrightarrow> a \<le> b" "\<not> js_le NaN x" "\<not> js_le x NaN"
  "js_le x PosInfinity \<longleftrightarrow> x \<noteq> NaN" "js_le NegInfinity x \<longleftrightarrow> x \<noteq> NaN"
  "\<not> js_le PosInfinity (Num b)" "\<not> js_le (Num a) NegInfinity" "\<not> js_le PosInfinity NegInfinity"
  by (auto simp: js_le_def elim: js_lt.elims)
    (cases x; simp)+

lemma js_lt_irrefl [simp]: "\<not> js_lt x x"
  by (cases x) simp_all

lemma js_le_antisym: "js_le x y \<Longrightarrow> js_le y x \<Longrightarrow> x = y"
  by (cases x; cases y) simp_all

lemma js_le_trans: "js_le x y \<Longrightarrow> js_le y z \<Longrightarrow> js_le x z"
  by (cases x; cases y; cases z) simp_all

text \<open>Only a NaN can escape both a comparison and its negation.\<close>

lemma js_lt_or_le: "x \<noteq> NaN \<Longrightarrow> y \<noteq> NaN \<Longrightarrow> js_lt x y \<or> js_le y x"
  by (cases x; cases y) auto

lemma js_lt_not_le: "js_lt x y \<Longrightarrow> \<not> js_le y x"
  by (cases x; cases y) simp_all

lemma jn_min_le: "jn_min x y \<noteq> NaN \<Longrightarrow> js_le (jn_min x y) x \<and> js_le (jn_min x y) y"
  by (cases x; cases y) (auto simp: jn_min_def)

lemma fl_numeral: "(numeral w :: int) \<le> 2 ^ 53 \<Longrightarrow> fl (numeral w) = numeral w"
  using fl_int [of "numeral w"] by simp

lemma fl_one: "fl 1 = 1"
  using fl_int [of 1] by simp

lemma fl_dyadic:
  "\<bar>m\<bar> \<le> 2 ^ 53 \<Longrightarrow> fl (of_int m / 2) = of_int m / 2"
  "\<bar>m\<bar> \<le> 2 ^ 53 \<Longrightarrow> fl (of_int m / 4) = of_int m / 4"
  "\<bar>m\<bar> \<le> 2 ^ 53 \<Longrightarrow> fl (of_int m / 8) = of_int m / 8"
  "\<bar>m\<bar> \<le> 2 ^ 53 \<Longrightarrow> fl (of_int m / 64) = of_int m / 64"
  using fl_exact [of m "-1"] fl_exact [of m "-2"] fl_exact [of m "-3"] fl_exact [of m "-6"]
  by (simp_all add: pow2_def)

end
