(* ===== verification/Sizing.thy ===== *)
theory Sizing
  imports Js_Arith Explainer_Types
begin

text \<open>
  The security sizing of \<open>explainer/src/protocol/treasury.ts\<close>: measured depth, the cost of
  an attack, the prize inside the capability, and the comparison that gates step 9 of
  \<open>decide\<close>. All numbers are JavaScript numbers in USDC.
\<close>

definition BLOCKS_PER_DAY :: rat where
  "BLOCKS_PER_DAY = 14400"

definition SECURITY_FACTOR :: js_number where
  "SECURITY_FACTOR = js_of_int 3"

definition RERUN_HURDLE_BUMP :: js_number where
  "RERUN_HURDLE_BUMP = Num (fl (1 / 100))"

text \<open>The double nearest to \<open>ln 2\<close>, which \<open>Math.LN2\<close> is.\<close>

definition LN2_js :: js_number where
  "LN2_js = Num (6243314768165359 / 2 ^ 53)"

definition MICRO :: rat where
  "MICRO = 1000000"

definition floorMicro :: "js_number \<Rightarrow> js_number" where
  "floorMicro x = jn_div_by (jn_floor (jn_mul x (Num MICRO))) MICRO"

definition ceilMicro :: "js_number \<Rightarrow> js_number" where
  "ceilMicro x = jn_div_by (jn_ceil (jn_sub (jn_mul x (Num MICRO)) (Num EPS_1E9))) MICRO"

definition polCommitment :: "js_number \<Rightarrow> js_number" where
  "polCommitment b = jn_mul b LN2_js"

definition decisionPairContestCapital :: "js_number \<Rightarrow> js_number \<Rightarrow> js_number" where
  "decisionPairContestCapital accept reject = jn_min accept reject"

definition lHat :: "js_number \<Rightarrow> js_number \<Rightarrow> js_number \<Rightarrow> js_number \<Rightarrow> js_number \<Rightarrow> js_number" where
  "lHat polDepth pairContest flowCap bAccept bReject =
     (let ceiling = jn_mul flowCap (jn_add bAccept bReject)
      in jn_add polDepth (jn_min pairContest ceiling))"

record attack_cost_options =
  ac_publishedFlowPerDay :: "js_number option"
  ac_decisionWindow :: "js_number option"

definition attackCostHat :: "js_number \<Rightarrow> attack_cost_options \<Rightarrow> js_number" where
  "attackCostHat measuredLiquidity opts =
     (let decisionWindow = (case ac_decisionWindow opts of None \<Rightarrow> js_of_int 43200 | Some w \<Rightarrow> w);
          days = jn_div_by decisionWindow BLOCKS_PER_DAY;
          perDay = (case ac_publishedFlowPerDay opts of
              None \<Rightarrow> jn_div_by measuredLiquidity 2
            | Some f \<Rightarrow> jn_min (jn_div_by measuredLiquidity 2) f)
      in floorMicro (jn_mul perDay days))"

record prize_inputs =
  pz_ask :: "js_number option"
  pz_envelope :: "js_number option"
  pz_spendableNav :: "js_number option"
  pz_capProposal :: "js_number option"
  pz_upgradePayload :: "bool option"

definition inCapPrize :: "proposal_class \<Rightarrow> prize_inputs \<Rightarrow> js_number option" where
  "inCapPrize proposalClass inputs =
     (let ask = (case pz_ask inputs of None \<Rightarrow> js_of_int 0 | Some x \<Rightarrow> x);
          spendableNav = (case pz_spendableNav inputs of None \<Rightarrow> js_of_int 0 | Some x \<Rightarrow> x);
          capProposal = (case pz_capProposal inputs of None \<Rightarrow> Num (fl (5 / 100)) | Some x \<Rightarrow> x);
          upgradePayload = (case pz_upgradePayload inputs of None \<Rightarrow> True | Some x \<Rightarrow> x)
      in if proposalClass = Treasury then Some (ceilMicro ask)
         else case pz_envelope inputs of
           None \<Rightarrow> None
         | Some envelope \<Rightarrow>
             if proposalClass = Param then Some (ceilMicro envelope)
             else if proposalClass = Constitutional then None
             else let flr = (if upgradePayload then jn_mul capProposal spendableNav else js_of_int 0)
                  in Some (ceilMicro (jn_max (jn_max ask envelope) flr)))"

definition securitySizingOk :: "js_number \<Rightarrow> js_number \<Rightarrow> bool" where
  "securitySizingOk prize attackCost = js_le (jn_mul SECURITY_FACTOR prize) attackCost"

definition manipFloorHat :: "js_number \<Rightarrow> js_number \<Rightarrow> js_number" where
  "manipFloorHat displacementCost holdingCost = floorMicro (jn_add displacementCost holdingCost)"

definition CLASS_NAV_FLOOR_USDC :: "proposal_class \<Rightarrow> int" where
  "CLASS_NAV_FLOOR_USDC c =
     (case c of Param \<Rightarrow> 4620989 | Treasury \<Rightarrow> 7393600 | Code \<Rightarrow> 13862944 | Meta \<Rightarrow> 21256533
      | Constitutional \<Rightarrow> 21256533)"

end
