(* ===== verification/Lifecycle.thy ===== *)
theory Lifecycle
  imports Explainer_Types
begin

text \<open>
  The proposal state machine of \<open>explainer/src/protocol/lifecycle.ts\<close>: the closed table of
  its transitions, the lookups over it, the terminal and transient states, and the expansion of a
  declared path into the states it visits. The guard prose, the citations and the blurbs of the
  tables are not modelled; an origin of a dash (no call of its own) is \<open>None\<close>.
\<close>

subsection \<open>The table\<close>

datatype transition_id =
    T1 | T2 | T3 | T4 | T5 | T6 | T7 | T8 | T9 | T10 | T11 | T12 | T13
  | T14 | T15 | T16 | T17 | T18 | T19 | T20 | T21 | T22 | T23 | T24 | T25 | T26

datatype origin_states = From_none | From_one proposal_state | From_any "proposal_state list"

record transition =
  tr_id :: transition_id
  tr_from :: origin_states
  tr_to :: proposal_state
  tr_toReason :: "reject_reason option"
  tr_trigger :: string
  tr_origin :: "string option"
  tr_event :: "string option"
  tr_sameBlockFollowUp :: bool
  tr_commonPath :: bool

definition row ::
  "transition_id \<Rightarrow> origin_states \<Rightarrow> proposal_state \<Rightarrow> reject_reason option \<Rightarrow> string \<Rightarrow> string option
    \<Rightarrow> string option \<Rightarrow> bool \<Rightarrow> bool \<Rightarrow> transition"
where
  "row i f t r trig org ev follow common =
     \<lparr> tr_id = i, tr_from = f, tr_to = t, tr_toReason = r, tr_trigger = trig, tr_origin = org, tr_event = ev,
       tr_sameBlockFollowUp = follow, tr_commonPath = common \<rparr>"

definition TRANSITIONS :: "transition list" where
  "TRANSITIONS =
    [row T1 From_none Submitted None ''epoch.submit''
       (Some ''funder (Signed)'') (Some ''ProposalSubmitted'') False False,
     row T2 (From_one Submitted) Cancelled None ''epoch.withdraw''
       (Some ''proposer or funder (Signed)'') (Some ''ProposalWithdrawn'') False False,
     row T3 (From_one Submitted) Screening None ''tick''
       (Some ''keeper (permissionless)'') (Some ''ScreeningStarted'') False False,
     row T4 (From_one Screening) Cancelled None ''tick (static checks fail)''
       (Some ''keeper (permissionless)'') (Some ''ProposalCancelled(reason)'') False False,
     row T5 (From_one Screening) Qualified None ''tick (checks pass)''
       (Some ''keeper (permissionless)'') (Some ''ProposalQualified'') False False,
     row T6 (From_one Screening) Submitted None ''tick (no slot won, or a resource-lock conflict)''
       (Some ''keeper (permissionless)'') (Some ''ProposalDeferred'') False False,
     row T7 (From_one Qualified) Trading None ''tick''
       (Some ''keeper (permissionless)'') (Some ''MarketsOpened'') False False,
     row T8 (From_one Trading) Extended None ''decide, or the first TWAP stale event''
       (Some ''keeper (permissionless)'') (Some ''DecisionExtended'') False False,
     row T9 (From_any [Trading, Extended]) Queued None ''decide''
       (Some ''keeper (permissionless)'') (Some ''ProposalQueued { payload_hash, maturity }'') False False,
     row T10 (From_any [Trading, Extended]) Rejected None ''decide''
       (Some ''keeper (permissionless)'') (Some ''ProposalRejected(r)'') True True,
     row T11 (From_one Queued) Suspended None ''guardian.delay_once''
       (Some ''GuardianHold'') (Some ''ProposalDelayed { justification_hash }'') False False,
     row T12 (From_one Suspended) Rerun None ''tick''
       (Some ''keeper (permissionless)'') (Some ''RerunScheduled'') False False,
     row T13 (From_one Rerun) Extended None ''tick at the T12 Seed boundary''
       (Some ''keeper (permissionless)'') (Some ''RerunOpened'') False False,
     row T14 (From_one Queued) Executed None ''execution_guard.execute''
       (Some ''Signed (keeper)'') (Some ''Executed { record }'') False False,
     row T15 (From_one Queued) Expired None ''tick''
       (Some ''keeper (permissionless)'') (Some ''MandateExpired'') True False,
     row T16 (From_one Queued) Rejected None ''tick, or an execute failure path''
       (Some ''keeper (permissionless)'') (Some ''ProposalRejected(r)'') True False,
     row T17 (From_one Executed) Measuring None ''automatic within T14''
       None (Some ''MeasurementStarted(cohort)'') False False,
     row T18 (From_one Queued) FailedExecuted None ''execution_guard.execute (payload dispatch error)''
       (Some ''Signed (keeper)'') (Some ''ExecutionFailed { reason: PayloadReverted }'') False False,
     row T19 (From_one Measuring) Settled None ''settle_cohort''
       (Some ''keeper (permissionless)'') (Some ''CohortSettled { s }'') False False,
     row T20 (From_any [Submitted, Screening, Qualified, Trading, Extended, Queued, Suspended, Rerun,
         FailedExecuted]) Rejected (Some ProcessHold)
       ''tick or decide()''
       (Some ''keeper (permissionless)'') (Some ''ProposalForceRejected { pid, reason: ProcessHold }'') False False,
     row T21 (From_any [Rejected, Expired]) Measuring None
       ''automatic, in the same block as entering Rejected or Expired''
       None (Some ''MeasurementStarted(cohort)'') False True,
     row T22 (From_one FailedExecuted) Measuring None ''tick''
       (Some ''keeper (permissionless)'') (Some ''MeasurementStarted(cohort)'') False False,
     row T23 (From_one FailedExecuted) Executed None ''execution_guard.execute (retry)''
       (Some ''Signed (keeper)'') (Some ''Executed { record }'') False False,
     row T24 (From_one Suspended) Rejected (Some VetoUpheldByReview)
       ''guardian.uphold_veto(action_id), enacted by the ratify-track retrospective review''
       (Some ''values enactment (via the guardian pallet)'') (Some ''ProposalRejected(VetoUpheldByReview)'') True False,
     row T25 (From_any [Trading, Extended, Queued]) Extended None ''guardian.force_rerun(pid)''
       (Some ''GuardianHold'') (Some ''ForceRerun { pid, justification_hash, window_end }'') False False,
     row T26 (From_one Screening) Cancelled (Some RolloverExhausted)
       ''tick (no slot won, or a resource-lock conflict) against a proposal that already took T6''
       (Some ''keeper (permissionless)'') (Some ''ProposalCancelled { pid, reason: RolloverExhausted }'') False False]"

definition fromStates :: "transition \<Rightarrow> proposal_state list" where
  "fromStates t = (case tr_from t of From_none \<Rightarrow> [] | From_one s \<Rightarrow> [s] | From_any ss \<Rightarrow> ss)"

definition transitionsFrom :: "proposal_state \<Rightarrow> transition list" where
  "transitionsFrom st = filter (\<lambda>t. st \<in> set (fromStates t)) TRANSITIONS"

definition BY_ID :: "transition_id \<Rightarrow> transition option" where
  "BY_ID = map_of (rev (map (\<lambda>t. (tr_id t, t)) TRANSITIONS))"

definition transitionById :: "transition_id \<Rightarrow> transition" where
  "transitionById i = the (BY_ID i)"

definition isTerminal :: "proposal_state \<Rightarrow> bool \<Rightarrow> bool" where
  "isTerminal st hasHealthyVault =
     (case st of
        Settled \<Rightarrow> True
      | Cancelled \<Rightarrow> True
      | Rejected \<Rightarrow> \<not> hasHealthyVault
      | Expired \<Rightarrow> \<not> hasHealthyVault
      | _ \<Rightarrow> False)"

definition isTransient :: "proposal_state \<Rightarrow> bool \<Rightarrow> bool" where
  "isTransient st hasHealthyVault \<longleftrightarrow> (st = Rejected \<or> st = Expired) \<and> hasHealthyVault"

datatype state_tier = Tier_intake | Tier_market | Tier_mandate | Tier_measurement | Tier_terminal

definition STATE_TIERS :: "state_tier list" where
  "STATE_TIERS = [Tier_intake, Tier_market, Tier_mandate, Tier_measurement, Tier_terminal]"

definition state_tier_of :: "proposal_state \<Rightarrow> state_tier" where
  "state_tier_of st =
     (case st of
        Submitted \<Rightarrow> Tier_intake
      | Screening \<Rightarrow> Tier_intake
      | Qualified \<Rightarrow> Tier_intake
      | Trading \<Rightarrow> Tier_market
      | Extended \<Rightarrow> Tier_market
      | Queued \<Rightarrow> Tier_mandate
      | Suspended \<Rightarrow> Tier_mandate
      | Rerun \<Rightarrow> Tier_market
      | Executed \<Rightarrow> Tier_mandate
      | FailedExecuted \<Rightarrow> Tier_mandate
      | Rejected \<Rightarrow> Tier_measurement
      | Expired \<Rightarrow> Tier_measurement
      | Measuring \<Rightarrow> Tier_measurement
      | Settled \<Rightarrow> Tier_terminal
      | Cancelled \<Rightarrow> Tier_terminal)"

subsection \<open>Paths\<close>

text \<open>The two throws of \<open>pathFor\<close>, with the transition, the one before it and the state reached.\<close>

datatype path_error =
    Entry_not_first transition_id transition_id
  | Not_connected transition_id transition_id proposal_state

fun pathFor_loop :: "transition_id list \<Rightarrow> transition_id \<Rightarrow> proposal_state \<Rightarrow> proposal_state list
  \<Rightarrow> (path_error, proposal_state list) result"
where
  "pathFor_loop [] previous current path = Inr path"
| "pathFor_loop (i # ids) previous current path =
     (let t = transitionById i; origins = fromStates t in
      if origins = [] then Inl (Entry_not_first i previous)
      else if current \<notin> set origins then Inl (Not_connected i previous current)
      else pathFor_loop ids i (tr_to t) (path @ [tr_to t]))"

definition pathFor :: "transition_id list \<Rightarrow> (path_error, proposal_state list) result" where
  "pathFor ids =
     (case ids of
        [] \<Rightarrow> Inr []
      | i # rest \<Rightarrow>
          (let t = transitionById i
           in pathFor_loop rest i (tr_to t)
                ((case fromStates t of [] \<Rightarrow> [] | entry # _ \<Rightarrow> [entry]) @ [tr_to t])))"

subsection \<open>Rejection reasons\<close>

definition T10_REJECT_REASONS :: "reject_reason list" where
  "T10_REJECT_REASONS =
     [NotDecisionGrade, GateVetoSurvival, GateVetoSecurity, HurdleNotMet, ConvergenceFailed, SecondExtensionFailed,
      ProcessHold, ConstitutionViolation, ResourceConflict, SecuritySizing, AttestationMissing, RateLimited]"

definition T16_REJECT_REASONS :: "reject_reason list" where
  "T16_REJECT_REASONS = [StaleQueue, NotRatified, AttestationMissing]"

datatype severity = Routine | Safety

definition reject_severity :: "reject_reason \<Rightarrow> severity" where
  "reject_severity r =
     (case r of
        NotDecisionGrade \<Rightarrow> Routine
      | GateVetoSurvival \<Rightarrow> Safety
      | GateVetoSecurity \<Rightarrow> Safety
      | HurdleNotMet \<Rightarrow> Routine
      | ConvergenceFailed \<Rightarrow> Routine
      | SecondExtensionFailed \<Rightarrow> Routine
      | ProcessHold \<Rightarrow> Safety
      | ConstitutionViolation \<Rightarrow> Routine
      | ResourceConflict \<Rightarrow> Routine
      | RateLimited \<Rightarrow> Routine
      | VetoUpheldByReview \<Rightarrow> Routine
      | StaleQueue \<Rightarrow> Routine
      | PayloadReverted \<Rightarrow> Routine
      | NotRatified \<Rightarrow> Routine
      | SecuritySizing \<Rightarrow> Routine
      | AttestationMissing \<Rightarrow> Routine
      | RolloverExhausted \<Rightarrow> Routine)"


subsection \<open>The shape of the table\<close>

lemma row_simps [simp]:
  "tr_id (row i f t r trig org ev fo co) = i" "tr_to (row i f t r trig org ev fo co) = t"
  "tr_toReason (row i f t r trig org ev fo co) = r"
  "fromStates (row i f t r trig org ev fo co) = (case f of From_none \<Rightarrow> [] | From_one s \<Rightarrow> [s] | From_any ss \<Rightarrow> ss)"
  "tr_sameBlockFollowUp (row i f t r trig org ev fo co) = fo"
  by (simp_all add: row_def fromStates_def)

definition table_shape :: "(transition_id \<times> proposal_state list \<times> proposal_state) list" where
  "table_shape = map (\<lambda>t. (tr_id t, fromStates t, tr_to t)) TRANSITIONS"

lemma table_shape_eq:
  "table_shape =
    [(T1, [], Submitted),
     (T2, [Submitted], Cancelled),
     (T3, [Submitted], Screening),
     (T4, [Screening], Cancelled),
     (T5, [Screening], Qualified),
     (T6, [Screening], Submitted),
     (T7, [Qualified], Trading),
     (T8, [Trading], Extended),
     (T9, [Trading, Extended], Queued),
     (T10, [Trading, Extended], Rejected),
     (T11, [Queued], Suspended),
     (T12, [Suspended], Rerun),
     (T13, [Rerun], Extended),
     (T14, [Queued], Executed),
     (T15, [Queued], Expired),
     (T16, [Queued], Rejected),
     (T17, [Executed], Measuring),
     (T18, [Queued], FailedExecuted),
     (T19, [Measuring], Settled),
     (T20, [Submitted, Screening, Qualified, Trading, Extended, Queued, Suspended, Rerun, FailedExecuted], Rejected),
     (T21, [Rejected, Expired], Measuring),
     (T22, [FailedExecuted], Measuring),
     (T23, [FailedExecuted], Executed),
     (T24, [Suspended], Rejected),
     (T25, [Trading, Extended, Queued], Extended),
     (T26, [Screening], Cancelled)]"
  by (simp only: table_shape_def TRANSITIONS_def list.map row_simps origin_states.case)

lemma table_ids: "map tr_id TRANSITIONS = map fst table_shape" "distinct (map tr_id TRANSITIONS)"
  "i \<in> set (map tr_id TRANSITIONS)"
proof -
  show eq: "map tr_id TRANSITIONS = map fst table_shape" by (simp add: table_shape_def comp_def)
  show "distinct (map tr_id TRANSITIONS)" unfolding eq table_shape_eq by simp
  show "i \<in> set (map tr_id TRANSITIONS)" unfolding eq table_shape_eq by (cases i) simp_all
qed

lemma transitionById_id:
  assumes "t \<in> set TRANSITIONS"
  shows "transitionById (tr_id t) = t"
proof -
  have "distinct (map fst (rev (map (\<lambda>t. (tr_id t, t)) TRANSITIONS)))"
    using table_ids(2) by (simp add: rev_map [symmetric] comp_def)
  then have "BY_ID (tr_id t) = Some t" unfolding BY_ID_def using assms by (intro map_of_is_SomeI) auto
  then show ?thesis by (simp add: transitionById_def)
qed

lemma transitionById_table: "transitionById i \<in> set TRANSITIONS" "tr_id (transitionById i) = i"
proof -
  obtain t where "t \<in> set TRANSITIONS" "tr_id t = i" using table_ids(3) [of i] by auto
  then show "transitionById i \<in> set TRANSITIONS" "tr_id (transitionById i) = i"
    using transitionById_id [of t] by simp_all
qed

lemma shape_of_id: "(i, fromStates (transitionById i), tr_to (transitionById i)) \<in> set table_shape"
  using transitionById_table [of i] by (auto simp: table_shape_def image_iff intro: bexI [where x = "transitionById i"])

lemma from_to_table:
  "(i, F, t) \<in> set table_shape \<longleftrightarrow> fromStates (transitionById i) = F \<and> tr_to (transitionById i) = t"
proof
  assume "(i, F, t) \<in> set table_shape"
  then obtain r where "r \<in> set TRANSITIONS" "tr_id r = i" "fromStates r = F" "tr_to r = t"
    by (auto simp: table_shape_def)
  then show "fromStates (transitionById i) = F \<and> tr_to (transitionById i) = t"
    using transitionById_id [of r] by simp
qed (use shape_of_id [of i] in auto)

subsection \<open>Walks\<close>

inductive lifecycle_step :: "transition_id \<Rightarrow> proposal_state \<Rightarrow> proposal_state \<Rightarrow> bool" where
  lifecycle_stepI: "s \<in> set (fromStates (transitionById i)) \<Longrightarrow> lifecycle_step i s (tr_to (transitionById i))"

inductive lifecycle_walk :: "proposal_state \<Rightarrow> transition_id list \<Rightarrow> proposal_state \<Rightarrow> bool" where
  walk_nil: "lifecycle_walk s [] s"
| walk_cons: "lifecycle_step i s s' \<Longrightarrow> lifecycle_walk s' ids t \<Longrightarrow> lifecycle_walk s (i # ids) t"

inductive_simps lifecycle_walk_simps [simp]: "lifecycle_walk s [] t" "lifecycle_walk s (i # ids) t"

lemma lifecycle_step_shape:
  "lifecycle_step i s s' \<longleftrightarrow> (\<exists>F. (i, F, s') \<in> set table_shape \<and> s \<in> set F)"
  by (auto simp: lifecycle_step.simps from_to_table)

text \<open>The states reached from a set when some transitions are avoided, checked row by row.\<close>

definition closed_avoiding :: "transition_id list \<Rightarrow> proposal_state list \<Rightarrow> bool" where
  "closed_avoiding I A \<longleftrightarrow>
     list_all (\<lambda>(j, F, t). j \<in> set I \<or> list_all (\<lambda>s. s \<notin> set A) F \<or> t \<in> set A) table_shape"

lemma walk_stays:
  assumes "lifecycle_walk s ids t" "s \<in> set A" "set ids \<inter> set I = {}" "closed_avoiding I A"
  shows "t \<in> set A"
  using assms(1-3)
proof (induction rule: lifecycle_walk.induct)
  case (walk_cons j s s' ids t)
  then obtain F where "(j, F, s') \<in> set table_shape" "s \<in> set F" by (auto simp: lifecycle_step_shape)
  then have "s' \<in> set A" using assms(4) walk_cons.prems unfolding closed_avoiding_def list_all_iff by fastforce
  then show ?case using walk_cons.IH walk_cons.prems by simp
qed

subsection \<open>Paths are walks\<close>

lemma pathFor_loop_walk:
  "(\<exists>path. pathFor_loop ids prev s (xs @ [s]) = Inr path \<and> List.last path = t) \<longleftrightarrow> lifecycle_walk s ids t"
proof (induction ids arbitrary: prev s xs)
  case (Cons i ids)
  then show ?case
    using Cons.IH [of i "tr_to (transitionById i)" "xs @ [s]"]
    by (auto simp: Let_def lifecycle_step.simps)
qed auto

text \<open>What must have happened before a state is reached from \<open>Submitted\<close>.\<close>

lemma must_pass:
  assumes "lifecycle_walk Submitted ids t" "closed_avoiding I A" "Submitted \<in> set A" "t \<notin> set A"
  shows "set ids \<inter> set I \<noteq> {}"
  using walk_stays [OF assms(1,3) _ assms(2)] assms(4) by blast

lemma closed_sets:
  "closed_avoiding [T5] [Submitted, Screening, Cancelled, Rejected, Measuring, Settled]"
  "closed_avoiding [T7] [Submitted, Screening, Qualified, Cancelled, Rejected, Measuring, Settled]"
  "closed_avoiding [T9] [Submitted, Screening, Qualified, Trading, Extended, Cancelled, Rejected, Measuring, Settled]"
  "closed_avoiding [T14, T23] [Submitted, Screening, Qualified, Trading, Extended, Queued, Suspended, Rerun,
      FailedExecuted, Cancelled, Rejected, Expired, Measuring, Settled]"
  "closed_avoiding [T17, T21, T22] [Submitted, Screening, Qualified, Trading, Extended, Queued, Suspended, Rerun,
      FailedExecuted, Executed, Cancelled, Rejected, Expired]"
  "closed_avoiding [T19] [Submitted, Screening, Qualified, Trading, Extended, Queued, Suspended, Rerun,
      FailedExecuted, Executed, Cancelled, Rejected, Expired, Measuring]"
  by (simp_all add: closed_avoiding_def table_shape_eq)

definition enabled_from :: "proposal_state \<Rightarrow> bool \<Rightarrow> transition_id list" where
  "enabled_from st hasHealthyVault =
     filter (\<lambda>i. if i = T21 then hasHealthyVault else True) (map tr_id (transitionsFrom st))"

lemma transitionsFrom_shape:
  "map tr_id (transitionsFrom st) = map fst (filter (\<lambda>(i, F, t). st \<in> set F) table_shape)"
  by (simp add: transitionsFrom_def table_shape_def filter_map comp_def)

lemma healthy_exit:
  "\<exists>ids t. lifecycle_walk st ids t \<and> isTerminal t True"
proof -
  have walks: "lifecycle_walk Measuring [T19] Settled" "lifecycle_walk Rejected [T21, T19] Settled"
    "lifecycle_walk Expired [T21, T19] Settled" "lifecycle_walk Executed [T17, T19] Settled"
    "lifecycle_walk Submitted [T2] Cancelled" "lifecycle_walk Screening [T4] Cancelled"
    "lifecycle_walk Qualified [T20, T21, T19] Settled" "lifecycle_walk Trading [T10, T21, T19] Settled"
    "lifecycle_walk Extended [T10, T21, T19] Settled" "lifecycle_walk Queued [T14, T17, T19] Settled"
    "lifecycle_walk Suspended [T24, T21, T19] Settled" "lifecycle_walk Rerun [T13, T10, T21, T19] Settled"
    "lifecycle_walk FailedExecuted [T22, T19] Settled" "lifecycle_walk Settled [] Settled"
    "lifecycle_walk Cancelled [] Cancelled"
    by (simp_all add: lifecycle_step_shape table_shape_eq)
  have t: "isTerminal Settled True" "isTerminal Cancelled True" by (simp_all add: isTerminal_def)
  show ?thesis
    by (cases st) (use walks t in blast)+
qed

subsection \<open>Properties\<close>

text \<open>C20
  Nothing executes unseen. Every way through the transition table from submission to execution
  passes qualification (T5), opens markets (T7) and is adopted by \<open>decide\<close> (T9), and
  executes through the guard (T14, or its retry T23); and every way to settlement passes a
  measurement start and the cohort settlement.\<close>

theorem lifecycle_execution_needs_decision:
  assumes "lifecycle_walk Submitted ids st"
  shows "(if st = Executed then {T5, T7, T9} \<subseteq> set ids \<and> set ids \<inter> {T14, T23} \<noteq> {}
    else if st = Settled then T19 \<in> set ids \<and> set ids \<inter> {T17, T21, T22} \<noteq> {} else True)"
  using must_pass [OF assms closed_sets(1)] must_pass [OF assms closed_sets(2)] must_pass [OF assms closed_sets(3)]
    must_pass [OF assms closed_sets(4)] must_pass [OF assms closed_sets(5)] must_pass [OF assms closed_sets(6)]
  by auto

theorem lifecycle_execution_needs_decision_witness:
  "lifecycle_walk Submitted [T3, T5, T7, T8, T9, T18, T23] Executed \<and>
   {T5, T7, T9} \<subseteq> set [T3, T5, T7, T8, T9, T18, T23] \<and>
   set [T3, T5, T7, T8, T9, T18, T23] \<inter> {T14, T23} \<noteq> {}"
proof -
  have w: "lifecycle_walk Submitted [T3, T5, T7, T8, T9, T18, T23] Executed"
    by (simp add: lifecycle_step_shape table_shape_eq)
  from lifecycle_execution_needs_decision [OF w] w show ?thesis by simp
qed

text \<open>
  The path expansion accepts exactly the walks of the transition table: \<open>pathFor\<close> of a
  declared path returns states ending in a state exactly when consecutive transitions connect and
  lead there; otherwise it throws.\<close>

theorem pathFor_accepts_walks:
  "(\<exists>path. pathFor (i # ids) = Inr path \<and> List.last path = st)
     \<longleftrightarrow> lifecycle_walk (tr_to (transitionById i)) ids st"
  unfolding pathFor_def Let_def list.case by (rule pathFor_loop_walk)

text \<open>
  The machine stops where it says it stops. A state is terminal, given the vault, exactly when no
  transition is enabled from it (T21 needs a healthy vault), transient exactly when T21 is the only
  one enabled, and from every state a healthy proposal can still reach a terminal state.\<close>

theorem lifecycle_terminal_states:
  "(isTerminal st hasHealthyVault \<longleftrightarrow> enabled_from st hasHealthyVault = []) \<and>
   (isTransient st hasHealthyVault \<longleftrightarrow> enabled_from st hasHealthyVault = [T21]) \<and>
   (\<exists>ids t. lifecycle_walk st ids t \<and> isTerminal t True)"
proof -
  have "(isTerminal st hasHealthyVault \<longleftrightarrow> enabled_from st hasHealthyVault = []) \<and>
   (isTransient st hasHealthyVault \<longleftrightarrow> enabled_from st hasHealthyVault = [T21])"
    by (cases st) (simp_all add: enabled_from_def transitionsFrom_shape table_shape_eq isTerminal_def isTransient_def)
  then show ?thesis using healthy_exit by blast
qed

end
