(* ===== verification/Decide.thy ===== *)
theory Decide
  imports Sizing Lifecycle
begin

text \<open>
  The ordered decision rule of \<open>explainer/src/protocol/decide.ts\<close>. The eleven steps run in
  order over the growing list of step results; an early return of the source is
  \<open>Returned\<close> with its finished trace, and its one throw is \<open>Thrown\<close>. Of a step's
  facts the verdict flag is modelled (\<open>Some True\<close>, \<open>Some False\<close>, or
  \<open>None\<close> where the fact is context), not its label and formatted numbers.
\<close>

subsection \<open>Traces\<close>

datatype step_verdict = V_pass | V_skip proposal_class | V_extend | V_reject reject_reason | V_not_reached

record step_result =
  sr_step :: nat
  sr_name :: string
  sr_verdict :: step_verdict
  sr_facts :: "bool option list"

record diagnostics =
  dg_rEff :: "js_number option"
  dg_uplift :: "js_number option"
  dg_hurdle :: "js_number option"
  dg_attackCostHat :: "js_number option"
  dg_inCapPrize :: "js_number option"

record decision_trace =
  dt_outcome :: decision_outcome
  dt_steps :: "step_result list"
  dt_stoppedAt :: nat
  dt_diagnostics :: diagnostics

record gate_readings =
  gr_pAdopt :: "js_number option"
  gr_pReject :: "js_number option"
  gr_pMax :: "js_number option"
  gr_eps :: "js_number option"
  gr_bookValid :: "bool option"

record decision_inputs =
  di_proposalClass :: "proposal_class option"
  di_preimageOk :: "bool option"
  di_resourceLocksHeld :: "bool option"
  di_processHold :: "bool option"
  di_gateBookValid :: "bool option"
  di_gates :: "gate_readings option per_gate"
  di_welfareGrade :: "welfare_grade option"
  di_extended :: "bool option"
  di_acceptFull :: js_number
  di_rejectFullEffective :: js_number
  di_acceptTrailing :: "js_number option"
  di_rejectTrailingEffective :: "js_number option"
  di_delta :: js_number
  di_rerun :: "bool option"
  di_converged :: "bool option"
  di_measuredLiquidity :: "js_number option"
  di_polDepth :: "js_number option"
  di_contestAccept :: "js_number option"
  di_contestReject :: "js_number option"
  di_flowCap :: "js_number option"
  di_bAccept :: "js_number option"
  di_bReject :: "js_number option"
  di_publishedFlowPerDay :: "js_number option"
  di_decisionWindow :: "js_number option"
  di_ask :: "js_number option"
  di_envelopeValue :: "js_number option"
  di_spendableNav :: "js_number option"
  di_attestationOk :: "bool option"
  di_queueTimeOk :: "bool option"

definition or_else :: "'a option \<Rightarrow> 'a \<Rightarrow> 'a" where
  "or_else x d = (case x of None \<Rightarrow> d | Some y \<Rightarrow> y)"

definition SPECS :: "(nat \<times> string) list" where
  "SPECS =
     [(1, ''Payload and locks''), (2, ''Process holds''), (3, ''Gate-book validity''), (4, ''Gate veto''),
      (5, ''Welfare-book grade''), (6, ''Full-window hurdle''), (7, ''Trailing hurdle''), (8, ''Convergence''),
      (9, ''Security sizing''), (10, ''Attestation and meters''), (11, ''Enqueue'')]"

definition step_at :: "nat \<Rightarrow> step_verdict \<Rightarrow> bool option list \<Rightarrow> step_result" where
  "step_at i verdict facts =
     \<lparr> sr_step = fst (SPECS ! i), sr_name = snd (SPECS ! i), sr_verdict = verdict, sr_facts = facts \<rparr>"

definition notReached :: "nat \<Rightarrow> step_result" where
  "notReached i = step_at i V_not_reached []"

definition push :: "nat \<Rightarrow> step_verdict \<Rightarrow> bool option list \<Rightarrow> step_result list \<Rightarrow> step_result list" where
  "push i verdict facts steps = steps @ [step_at i verdict facts]"

definition finish :: "step_result list \<Rightarrow> decision_outcome \<Rightarrow> nat \<Rightarrow> diagnostics \<Rightarrow> decision_trace" where
  "finish steps outcome stoppedAt dg =
     \<lparr> dt_outcome = outcome, dt_steps = steps @ map notReached [length steps ..< length SPECS],
       dt_stoppedAt = stoppedAt, dt_diagnostics = dg \<rparr>"

definition diag :: diagnostics where
  "diag = \<lparr> dg_rEff = None, dg_uplift = None, dg_hurdle = None, dg_attackCostHat = None, dg_inCapPrize = None \<rparr>"

datatype decide_exit = Returned decision_trace | Thrown

type_synonym 'a decide_flow = "(decide_exit, 'a) result"

text \<open>Push a refusal (or an extension) and return.\<close>

definition refuse :: "nat \<Rightarrow> reject_reason \<Rightarrow> bool option list \<Rightarrow> nat \<Rightarrow> diagnostics \<Rightarrow> step_result list \<Rightarrow> 'a decide_flow" where
  "refuse i r facts stoppedAt dg steps =
     Inl (Returned (finish (push i (V_reject r) facts steps) (Reject r) stoppedAt dg))"

subsection \<open>Steps 1 and 2\<close>

definition decide_payload :: "decision_inputs \<Rightarrow> step_result list \<Rightarrow> step_result list decide_flow" where
  "decide_payload input steps =
     (if di_preimageOk input = Some False then refuse 0 ConstitutionViolation [Some False] 1 diag steps
      else if di_resourceLocksHeld input = Some False
      then refuse 0 ResourceConflict [Some True, Some False] 1 diag steps
      else Inr (push 0 V_pass [Some True, Some True] steps))"

definition decide_holds :: "decision_inputs \<Rightarrow> step_result list \<Rightarrow> step_result list decide_flow" where
  "decide_holds input steps =
     (if di_processHold input = Some True then refuse 1 ProcessHold [Some False] 2 diag steps
      else Inr (push 1 V_pass [Some True, Some True, Some True] steps))"

subsection \<open>Steps 3 and 4: the gates\<close>

record gate_reading =
  rd_gate :: gate_type
  rd_pAdopt :: js_number
  rd_pReject :: js_number
  rd_pMax :: js_number
  rd_eps :: js_number
  rd_bookValid :: bool

definition gate_reading_of :: "decision_inputs \<Rightarrow> gate_type \<Rightarrow> gate_reading" where
  "gate_reading_of input g =
     (let r = at_gate g (di_gates input)
      in \<lparr> rd_gate = g,
           rd_pAdopt = or_else (Option.bind r gr_pAdopt) (js_of_int 0),
           rd_pReject = or_else (Option.bind r gr_pReject) (js_of_int 0),
           rd_pMax = or_else (Option.bind r gr_pMax) (Num (fl (5 / 100))),
           rd_eps = or_else (Option.bind r gr_eps) (Num (fl (2 / 100))),
           rd_bookValid = or_else (Option.bind r gr_bookValid) (or_else (di_gateBookValid input) True) \<rparr>)"

definition capBreached :: "gate_reading \<Rightarrow> bool" where
  "capBreached r = js_lt (rd_pMax r) (rd_pAdopt r)"

definition relBreached :: "gate_reading \<Rightarrow> bool" where
  "relBreached r = js_lt (jn_add (rd_pReject r) (rd_eps r)) (rd_pAdopt r)"

fun gate_loop :: "gate_reading list \<Rightarrow> bool option list \<Rightarrow> bool option list \<Rightarrow> step_result list \<Rightarrow> step_result list decide_flow"
where
  "gate_loop [] validity veto steps = Inr (push 3 V_pass veto (push 2 V_pass validity steps))"
| "gate_loop (r # rs) validity veto steps =
     (if \<not> rd_bookValid r then refuse 2 NotDecisionGrade (validity @ [Some False]) 3 diag steps
      else
        let validity' = validity @ [Some True];
            veto' = veto @ [Some (\<not> capBreached r \<and> \<not> relBreached r)]
        in if capBreached r \<or> relBreached r
           then refuse 3 (if rd_gate r = Survival then GateVetoSurvival else GateVetoSecurity) veto' 4 diag
                  (push 2 V_pass validity' steps)
           else gate_loop rs validity' veto' steps)"

definition decide_gates :: "decision_inputs \<Rightarrow> proposal_class \<Rightarrow> step_result list \<Rightarrow> step_result list decide_flow" where
  "decide_gates input cls steps =
     (if \<not> requiresGateMarkets cls then Inr (push 3 (V_skip cls) [] (push 2 (V_skip cls) [] steps))
      else gate_loop (map (gate_reading_of input) [Survival, Security]) [] [] steps)"

subsection \<open>Step 5: the welfare books\<close>

definition decide_grade :: "decision_inputs \<Rightarrow> step_result list \<Rightarrow> step_result list decide_flow" where
  "decide_grade input steps =
     (let grade = or_else (di_welfareGrade input) GradeOk; extended = or_else (di_extended input) False;
          facts = [Some (grade = GradeOk), None, None]
      in if grade = GradeInsufficient \<and> \<not> extended
         then Inl (Returned (finish (push 4 V_extend facts steps) Extend 5 diag))
         else if grade \<noteq> GradeOk then refuse 4 NotDecisionGrade facts 5 diag steps
         else Inr (push 4 V_pass facts steps))"

subsection \<open>Steps 6 to 8: the hurdle\<close>

definition hurdle_of :: "decision_inputs \<Rightarrow> js_number" where
  "hurdle_of input =
     jn_add (di_delta input) (if di_rerun input = Some True then RERUN_HURDLE_BUMP else js_of_int 0)"

definition acceptTrailing_of :: "decision_inputs \<Rightarrow> js_number" where
  "acceptTrailing_of input = or_else (di_acceptTrailing input) (di_acceptFull input)"

definition rejectTrailing_of :: "decision_inputs \<Rightarrow> js_number" where
  "rejectTrailing_of input = or_else (di_rejectTrailingEffective input) (di_rejectFullEffective input)"

definition fullPass :: "decision_inputs \<Rightarrow> bool" where
  "fullPass input = js_le (jn_add (di_rejectFullEffective input) (hurdle_of input)) (di_acceptFull input)"

definition tailPass :: "decision_inputs \<Rightarrow> bool" where
  "tailPass input = js_le (jn_add (rejectTrailing_of input) (hurdle_of input)) (acceptTrailing_of input)"

definition diagHurdle :: "decision_inputs \<Rightarrow> diagnostics" where
  "diagHurdle input = diag\<lparr> dg_rEff := Some (di_rejectFullEffective input),
     dg_uplift := Some (jn_sub (di_acceptFull input) (di_rejectFullEffective input)),
     dg_hurdle := Some (hurdle_of input) \<rparr>"

definition decide_hurdle :: "decision_inputs \<Rightarrow> step_result list \<Rightarrow> step_result list decide_flow" where
  "decide_hurdle input steps =
     (let full = fullPass input; tail = tailPass input; converged = or_else (di_converged input) True;
          extended = or_else (di_extended input) False;
          hurdleFacts = [None, None, Some full]; tailFacts = [None, None, Some tail];
          convFacts = [Some converged, None]
      in if full \<and> tail \<and> converged
         then Inr (push 7 V_pass convFacts (push 6 V_pass tailFacts (push 5 V_pass hurdleFacts steps)))
         else if full \<noteq> tail
         then let stopped = (if full then 7 else 6);
                  r = (if extended then V_reject SecondExtensionFailed else V_extend)
              in Inl (Returned (finish
                   (push 7 V_not_reached convFacts
                     (push 6 (if tail then V_pass else r) tailFacts
                       (push 5 (if full then V_pass else r) hurdleFacts steps)))
                   (if extended then Reject SecondExtensionFailed else Extend) stopped (diagHurdle input)))
         else let reason = (if converged then HurdleNotMet else ConvergenceFailed); r = V_reject reason
              in Inl (Returned (finish
                   (push 7 (if converged then V_pass else r) convFacts
                     (push 6 (if tail then V_pass else r) tailFacts
                       (push 5 (if full then V_pass else r) hurdleFacts steps)))
                   (Reject reason) (if converged then 6 else 8) (diagHurdle input))))"

subsection \<open>Step 9: security sizing\<close>

definition decomposed :: "decision_inputs \<Rightarrow> js_number option list" where
  "decomposed input =
     [di_polDepth input, di_contestAccept input, di_contestReject input, di_flowCap input,
      di_bAccept input, di_bReject input]"

definition measured_depth :: "decision_inputs \<Rightarrow> js_number decide_flow" where
  "measured_depth input =
     (if list_ex (\<lambda>p. p \<noteq> None) (decomposed input)
      then if list_ex (\<lambda>p. p = None) (decomposed input) then Inl Thrown
           else Inr (lHat (the (di_polDepth input))
                  (decisionPairContestCapital (the (di_contestAccept input)) (the (di_contestReject input)))
                  (the (di_flowCap input)) (the (di_bAccept input)) (the (di_bReject input)))
      else Inr (or_else (di_measuredLiquidity input) (js_of_int 0)))"

definition attack_of :: "decision_inputs \<Rightarrow> js_number \<Rightarrow> js_number" where
  "attack_of input measured =
     attackCostHat measured \<lparr> ac_publishedFlowPerDay = di_publishedFlowPerDay input,
       ac_decisionWindow = Some (or_else (di_decisionWindow input) (js_of_int 43200)) \<rparr>"

definition prize_of :: "decision_inputs \<Rightarrow> proposal_class \<Rightarrow> js_number option" where
  "prize_of input cls =
     inCapPrize cls \<lparr> pz_ask = di_ask input, pz_envelope = di_envelopeValue input,
       pz_spendableNav = di_spendableNav input, pz_capProposal = None, pz_upgradePayload = None \<rparr>"

definition diagFull :: "decision_inputs \<Rightarrow> js_number \<Rightarrow> js_number option \<Rightarrow> diagnostics" where
  "diagFull input attack prize =
     (diagHurdle input)\<lparr> dg_attackCostHat := Some attack, dg_inCapPrize := prize \<rparr>"

definition sizing_ok :: "js_number option \<Rightarrow> js_number \<Rightarrow> bool" where
  "sizing_ok prize attack = (case prize of None \<Rightarrow> False | Some p \<Rightarrow> securitySizingOk p attack)"

definition decide_sizing :: "decision_inputs \<Rightarrow> proposal_class \<Rightarrow> step_result list
  \<Rightarrow> (step_result list \<times> diagnostics) decide_flow"
where
  "decide_sizing input cls steps =
     rbind (measured_depth input) (\<lambda>measured.
       let attack = attack_of input measured; prize = prize_of input cls;
           facts = [None, None, None, Some (sizing_ok prize attack)]; dg = diagFull input attack prize
       in if \<not> sizing_ok prize attack then refuse 8 SecuritySizing facts 9 dg steps
          else Inr (push 8 V_pass facts steps, dg))"

subsection \<open>Steps 10 and 11\<close>

definition decide_meters :: "decision_inputs \<Rightarrow> proposal_class \<Rightarrow> step_result list \<times> diagnostics
  \<Rightarrow> (step_result list \<times> diagnostics) decide_flow"
where
  "decide_meters input cls st =
     (case st of (steps, dg) \<Rightarrow>
        let needsAttestation = (cls = Code \<or> cls = Meta);
            attestationOk = or_else (di_attestationOk input) True;
            queueTimeOk = or_else (di_queueTimeOk input) True;
            facts = [if needsAttestation then Some attestationOk else None, Some queueTimeOk, None]
        in if needsAttestation \<and> \<not> attestationOk then refuse 9 AttestationMissing facts 10 dg steps
           else if \<not> queueTimeOk then refuse 9 RateLimited facts 10 dg steps
           else Inr (push 9 V_pass facts steps, dg))"

definition decide_enqueue :: "step_result list \<times> diagnostics \<Rightarrow> decision_trace" where
  "decide_enqueue st = (case st of (steps, dg) \<Rightarrow> finish (push 10 V_pass [None, None] steps) Adopt 11 dg)"

subsection \<open>The rule\<close>

datatype decide_error = Decomposed_incomplete

definition decide :: "decision_inputs \<Rightarrow> (decide_error, decision_trace) result" where
  "decide input =
     (let cls = or_else (di_proposalClass input) Param in
      case rbind (decide_payload input []) (\<lambda>steps.
           rbind (decide_holds input steps) (\<lambda>steps.
           rbind (decide_gates input cls steps) (\<lambda>steps.
           rbind (decide_grade input steps) (\<lambda>steps.
           rbind (decide_hurdle input steps) (\<lambda>steps.
           rbind (decide_sizing input cls steps) (\<lambda>st.
           rbind (decide_meters input cls st) (\<lambda>st. Inr (decide_enqueue st)))))))) of
        Inl (Returned t) \<Rightarrow> Inr t
      | Inl Thrown \<Rightarrow> Inl Decomposed_incomplete
      | Inr t \<Rightarrow> Inr t)"

subsection \<open>What a trace shows\<close>

definition facts_agree :: "step_result \<Rightarrow> bool" where
  "facts_agree s = (case sr_verdict s of
       V_pass \<Rightarrow> Some False \<notin> set (sr_facts s)
     | V_skip _ \<Rightarrow> sr_facts s = []
     | V_not_reached \<Rightarrow> True
     | _ \<Rightarrow> Some False \<in> set (sr_facts s))"

definition cleared :: "step_result \<Rightarrow> bool" where
  "cleared s = (case sr_verdict s of V_pass \<Rightarrow> True | V_skip _ \<Rightarrow> True | _ \<Rightarrow> False)"

definition verdict_of :: "decision_outcome \<Rightarrow> step_verdict" where
  "verdict_of o' = (case o' of Adopt \<Rightarrow> V_pass | Extend \<Rightarrow> V_extend | Reject r \<Rightarrow> V_reject r)"

text \<open>Steps 6 to 8 are recorded together, so a stop among them closes the group.\<close>

definition stop_group :: "nat \<Rightarrow> nat" where
  "stop_group n = (if 6 \<le> n \<and> n \<le> 8 then 8 else n)"

definition trace_ok :: "decision_trace \<Rightarrow> bool" where
  "trace_ok t \<longleftrightarrow>
     map (\<lambda>s. (sr_step s, sr_name s)) (dt_steps t) = SPECS \<and>
     list_all facts_agree (dt_steps t) \<and>
     1 \<le> dt_stoppedAt t \<and> dt_stoppedAt t \<le> 11 \<and>
     sr_verdict (dt_steps t ! (dt_stoppedAt t - 1)) = verdict_of (dt_outcome t) \<and>
     list_all (\<lambda>s. cleared s \<or> sr_verdict s = verdict_of (dt_outcome t)) (take (dt_stoppedAt t) (dt_steps t)) \<and>
     list_all (\<lambda>s. sr_verdict s = V_not_reached) (drop (stop_group (dt_stoppedAt t)) (dt_steps t))"

definition shaped :: "nat \<Rightarrow> step_result list \<Rightarrow> bool" where
  "shaped n steps \<longleftrightarrow> length steps = n \<and> map (\<lambda>s. (sr_step s, sr_name s)) steps = take n SPECS"

definition prefix_ok :: "nat \<Rightarrow> step_result list \<Rightarrow> bool" where
  "prefix_ok n steps \<longleftrightarrow> shaped n steps \<and> list_all (\<lambda>s. cleared s \<and> facts_agree s) steps"

lemma length_SPECS [simp]: "length SPECS = 11"
  by (simp add: SPECS_def)

lemma shaped_push: "shaped n steps \<Longrightarrow> n < 11 \<Longrightarrow> shaped (Suc n) (push n v f steps)"
  by (simp add: shaped_def push_def step_at_def take_Suc_conv_app_nth)

lemma step_at_simps [simp]: "sr_verdict (step_at i v f) = v" "sr_facts (step_at i v f) = f"
  "sr_step (step_at i v f) = fst (SPECS ! i)" "sr_name (step_at i v f) = snd (SPECS ! i)"
  by (simp_all add: step_at_def)

lemma prefix_push:
  assumes "prefix_ok n steps" "n < 11" "facts_agree (step_at n v f)" "cleared (step_at n v f)"
  shows "prefix_ok (Suc n) (push n v f steps)"
  using assms shaped_push [of n steps v f] by (simp add: prefix_ok_def push_def)

lemma shaped_finish:
  assumes "shaped n steps" "n \<le> 11"
  shows "map (\<lambda>s. (sr_step s, sr_name s)) (dt_steps (finish steps o' k dg)) = SPECS"
proof -
  have "map (\<lambda>s. (sr_step s, sr_name s)) (map notReached [n..<11]) = map ((!) SPECS) [n..<11]"
    by (simp add: notReached_def comp_def)
  also have "\<dots> = drop n SPECS"
    using assms(2) by (intro nth_equalityI) simp_all
  finally show ?thesis using assms(1) by (simp add: finish_def shaped_def)
qed

lemma not_reached_tail:
  "list_all facts_agree (map notReached xs)" "list_all (\<lambda>s. sr_verdict s = V_not_reached) (map notReached xs)"
  by (simp_all add: list_all_iff notReached_def facts_agree_def)

lemma finish_trace_ok:
  assumes sh: "shaped n xs" and n: "n \<le> 11" "1 \<le> k" "k \<le> n" "stop_group k = n"
    and facts: "list_all facts_agree xs" and v: "sr_verdict (xs ! (k - 1)) = verdict_of o'"
    and early: "list_all (\<lambda>s. cleared s \<or> sr_verdict s = verdict_of o') (take k xs)"
  shows "trace_ok (finish xs o' k dg)"
proof -
  have len: "length xs = n" using sh by (simp add: shaped_def)
  have steps: "dt_steps (finish xs o' k dg) = xs @ map notReached [n..<11]"
    "dt_outcome (finish xs o' k dg) = o'" "dt_stoppedAt (finish xs o' k dg) = k"
    by (simp_all add: finish_def len)
  note shape = shaped_finish [OF sh n(1), of o' k dg, unfolded steps]
  have idx: "(xs @ map notReached [n..<11]) ! (k - 1) = xs ! (k - 1)" using n(2,3) by (simp add: len nth_append)
  show ?thesis
    unfolding trace_ok_def steps shape idx using n facts v early not_reached_tail by (simp add: len)
qed

text \<open>A stop at step \<open>n + 1\<close> outside the hurdle group.\<close>

lemma stop_ok:
  assumes p: "prefix_ok n steps" and n: "n < 11" "n < 5 \<or> 7 < n"
    and v: "v = verdict_of o'" "facts_agree (step_at n v f)"
  shows "trace_ok (finish (push n v f steps) o' (Suc n) dg)"
proof (rule finish_trace_ok)
  have len: "length steps = n" using p by (simp add: prefix_ok_def shaped_def)
  show "shaped (Suc n) (push n v f steps)" using p n(1) by (simp add: prefix_ok_def shaped_push)
  show "stop_group (Suc n) = Suc n" using n by (auto simp: stop_group_def)
  show "list_all facts_agree (push n v f steps)"
    "list_all (\<lambda>s. cleared s \<or> sr_verdict s = verdict_of o') (take (Suc n) (push n v f steps))"
    using p v len by (auto simp: prefix_ok_def push_def list_all_iff)
  show "sr_verdict (push n v f steps ! (Suc n - 1)) = verdict_of o'" using v(1) len by (simp add: push_def nth_append)
qed (use n in simp_all)

definition flow_ok :: "nat \<Rightarrow> step_result list decide_flow \<Rightarrow> bool" where
  "flow_ok n m = (case m of Inl (Returned t) \<Rightarrow> trace_ok t \<and> dt_outcome t \<noteq> Adopt | Inl Thrown \<Rightarrow> True
     | Inr steps \<Rightarrow> prefix_ok n steps)"

lemma flow_ok_refuse:
  assumes "prefix_ok n steps" "n < 5 \<or> 7 < n" "n < 11" "Some False \<in> set f" "k = Suc n"
  shows "flow_ok m (refuse n r f k dg steps)"
  using stop_ok [OF assms(1,3,2), of "V_reject r" "Reject r" f dg] assms(4,5)
  by (simp add: flow_ok_def refuse_def verdict_of_def facts_agree_def finish_def)

lemma flow_ok_push:
  assumes "prefix_ok n steps" "n < 11" "Some False \<notin> set f"
  shows "flow_ok (Suc n) (Inr (push n V_pass f steps))"
  using prefix_push [OF assms(1,2), of V_pass f] assms(3) by (simp add: flow_ok_def facts_agree_def cleared_def)

lemma payload_flow: "flow_ok 1 (decide_payload input [])"
proof -
  have p: "prefix_ok 0 []" by (simp add: prefix_ok_def shaped_def)
  show ?thesis
    using flow_ok_refuse [OF p] flow_ok_push [OF p] by (simp add: decide_payload_def)
qed

lemma holds_flow: "prefix_ok 1 steps \<Longrightarrow> flow_ok 2 (decide_holds input steps)"
  using flow_ok_refuse [of 1 steps] flow_ok_push [of 1 steps] by (simp add: decide_holds_def numeral_2_eq_2)

lemma gate_loop_flow:
  assumes "prefix_ok 2 steps" "Some False \<notin> set validity" "Some False \<notin> set veto"
  shows "flow_ok 4 (gate_loop rs validity veto steps)"
  using assms(2,3)
proof (induction rs arbitrary: validity veto)
  case Nil
  have p: "prefix_ok 3 (push 2 V_pass validity steps)"
    using flow_ok_push [OF assms(1) _ Nil(1)] by (simp add: flow_ok_def eval_nat_numeral)
  show ?case using flow_ok_push [OF p _ Nil(2)] by (simp add: eval_nat_numeral)
next
  case (Cons r rs)
  have p: "prefix_ok 3 (push 2 V_pass (validity @ [Some True]) steps)"
    using flow_ok_push [OF assms(1), of "validity @ [Some True]"] Cons.prems by (simp add: flow_ok_def eval_nat_numeral)
  show ?case
    using Cons flow_ok_refuse [OF assms(1)] flow_ok_refuse [OF p] by (auto simp: Let_def)
qed

lemma gates_flow: "prefix_ok 2 steps \<Longrightarrow> flow_ok 4 (decide_gates input cls steps)"
proof -
  assume p: "prefix_ok 2 steps"
  have p3: "prefix_ok 3 (push 2 (V_skip cls) [] steps)"
    using prefix_push [OF p, of "V_skip cls" "[]"] by (simp add: facts_agree_def cleared_def)
  have "prefix_ok 4 (push 3 (V_skip cls) [] (push 2 (V_skip cls) [] steps))"
    using prefix_push [OF p3, of "V_skip cls" "[]"] by (simp add: facts_agree_def cleared_def)
  then show ?thesis
    using gate_loop_flow [OF p, of "[]" "[]"] by (simp add: decide_gates_def flow_ok_def del: gate_loop.simps)
qed

lemma grade_flow: "prefix_ok 4 steps \<Longrightarrow> flow_ok 5 (decide_grade input steps)"
proof -
  assume p: "prefix_ok 4 steps"
  have "trace_ok (finish (push 4 V_extend [Some False, None, None] steps) Extend 5 diag)"
    using stop_ok [OF p, of V_extend Extend "[Some False, None, None]" diag] by (simp add: verdict_of_def facts_agree_def)
  then show ?thesis
    using flow_ok_refuse [OF p] flow_ok_push [OF p, of "[Some True, None, None]"]
    by (simp add: decide_grade_def Let_def flow_ok_def finish_def eval_nat_numeral)
qed

lemma hurdle_stop:
  assumes p: "prefix_ok 5 steps" and k: "k \<in> {6, 7, 8}"
    and f: "facts_agree (step_at 5 v1 f1)" "facts_agree (step_at 6 v2 f2)" "facts_agree (step_at 7 v3 f3)"
    and v: "v1 = verdict_of o' \<or> k \<noteq> 6 \<and> v1 = V_pass"
      "k = 6 \<or> v2 = verdict_of o' \<or> k \<noteq> 7 \<and> v2 = V_pass" "k = 8 \<longrightarrow> v3 = verdict_of o'"
  shows "trace_ok (finish (push 7 v3 f3 (push 6 v2 f2 (push 5 v1 f1 steps))) o' k dg)"
proof (rule finish_trace_ok)
  have len: "length steps = 5" using p by (simp add: prefix_ok_def shaped_def)
  show "shaped 8 (push 7 v3 f3 (push 6 v2 f2 (push 5 v1 f1 steps)))"
    using shaped_push [of 7] shaped_push [of 6] shaped_push [of 5 steps] p
    by (simp add: prefix_ok_def eval_nat_numeral)
  show "stop_group k = 8" "1 \<le> k" "k \<le> 8" using k by (auto simp: stop_group_def)
  show "list_all facts_agree (push 7 v3 f3 (push 6 v2 f2 (push 5 v1 f1 steps)))"
    using p f by (auto simp: prefix_ok_def push_def list_all_iff)
  have pre: "list_all (\<lambda>s. cleared s \<or> sr_verdict s = verdict_of o') steps"
    using p by (auto simp: prefix_ok_def list_all_iff)
  show "list_all (\<lambda>s. cleared s \<or> sr_verdict s = verdict_of o')
      (take k (push 7 v3 f3 (push 6 v2 f2 (push 5 v1 f1 steps))))"
    using k v pre by (auto simp: push_def len cleared_def)
  show "sr_verdict (push 7 v3 f3 (push 6 v2 f2 (push 5 v1 f1 steps)) ! (k - 1)) = verdict_of o'"
    using k v by (auto simp: push_def len nth_append)
qed simp

lemma hurdle_flow: "prefix_ok 5 steps \<Longrightarrow> flow_ok 8 (decide_hurdle input steps)"
proof -
  assume p: "prefix_ok 5 steps"
  let ?c = "or_else (di_converged input) True"
  have pass: "flow_ok 8 (Inr (push 7 V_pass f3 (push 6 V_pass f2 (push 5 V_pass f1 steps))))"
    if "Some False \<notin> set f1" "Some False \<notin> set f2" "Some False \<notin> set f3" for f1 f2 f3
    using flow_ok_push [OF p, of f1] flow_ok_push [of 6 _ f2] flow_ok_push [of 7 _ f3] that
    by (simp add: flow_ok_def eval_nat_numeral)
  show ?thesis
  proof (cases "fullPass input"; cases "tailPass input"; cases ?c)
    assume "fullPass input" "tailPass input" "?c"
    then show ?thesis using pass by (simp add: decide_hurdle_def Let_def)
  qed (simp_all add: decide_hurdle_def Let_def flow_ok_def,
      auto intro!: hurdle_stop [OF p] simp: facts_agree_def verdict_of_def, simp_all add: finish_def)
qed

definition pair_flow_ok :: "nat \<Rightarrow> (step_result list \<times> diagnostics) decide_flow \<Rightarrow> bool" where
  "pair_flow_ok n m = flow_ok n (rbind m (\<lambda>(steps, dg). Inr steps))"

lemma pair_flow_refuse:
  assumes "prefix_ok n steps" "7 < n" "n < 11" "Some False \<in> set f" "k = Suc n"
  shows "pair_flow_ok m (refuse n r f k dg steps)"
  using flow_ok_refuse [OF assms(1) _ assms(3-5)] assms(2) by (simp add: pair_flow_ok_def refuse_def)

lemma sizing_flow: "prefix_ok 8 steps \<Longrightarrow> pair_flow_ok 9 (decide_sizing input cls steps)"
  unfolding decide_sizing_def measured_depth_def Let_def
  using pair_flow_refuse [of 8 steps] flow_ok_push [of 8 steps]
  by (auto simp: pair_flow_ok_def flow_ok_def eval_nat_numeral)

lemma meters_flow: "prefix_ok 9 steps \<Longrightarrow> pair_flow_ok 10 (decide_meters input cls (steps, dg))"
  unfolding decide_meters_def Let_def
  using pair_flow_refuse [of 9 steps] flow_ok_push [of 9 steps]
  by (auto simp: pair_flow_ok_def eval_nat_numeral)

lemma enqueue_ok:
  "prefix_ok 10 steps \<Longrightarrow> trace_ok (decide_enqueue (steps, dg)) \<and> dt_outcome (decide_enqueue (steps, dg)) = Adopt"
  using stop_ok [of 10 steps V_pass Adopt "[None, None]" dg]
  by (simp add: decide_enqueue_def verdict_of_def facts_agree_def finish_def)

definition final_ok :: "decision_trace decide_flow \<Rightarrow> bool" where
  "final_ok m = (case m of Inl (Returned t) \<Rightarrow> trace_ok t \<and> dt_outcome t \<noteq> Adopt | Inl Thrown \<Rightarrow> True
     | Inr t \<Rightarrow> trace_ok t \<and> dt_outcome t = Adopt)"

lemma final_bind:
  assumes "flow_ok n m" "\<And>steps. prefix_ok n steps \<Longrightarrow> final_ok (f steps)"
  shows "final_ok (rbind m f)"
proof (cases m)
  case (Inl e) then show ?thesis using assms(1) by (cases e) (simp_all add: flow_ok_def final_ok_def)
next
  case (Inr s) then show ?thesis using assms by (simp add: flow_ok_def)
qed

lemma final_pair_bind:
  assumes "pair_flow_ok n m" "\<And>steps dg. prefix_ok n steps \<Longrightarrow> final_ok (f (steps, dg))"
  shows "final_ok (rbind m f)"
proof (cases m)
  case (Inl e) then show ?thesis using assms(1) by (cases e) (simp_all add: pair_flow_ok_def flow_ok_def final_ok_def)
next
  case (Inr s) then show ?thesis using assms by (cases s) (simp add: pair_flow_ok_def flow_ok_def)
qed

text \<open>The chain of \<open>decide\<close> before its exits are told apart.\<close>

definition decide_flow_of :: "decision_inputs \<Rightarrow> decision_trace decide_flow" where
  "decide_flow_of input =
     (let cls = or_else (di_proposalClass input) Param in
      rbind (decide_payload input []) (\<lambda>steps.
      rbind (decide_holds input steps) (\<lambda>steps.
      rbind (decide_gates input cls steps) (\<lambda>steps.
      rbind (decide_grade input steps) (\<lambda>steps.
      rbind (decide_hurdle input steps) (\<lambda>steps.
      rbind (decide_sizing input cls steps) (\<lambda>st.
      rbind (decide_meters input cls st) (\<lambda>st. Inr (decide_enqueue st)))))))))"

lemma decide_exits:
  "decide input = (case decide_flow_of input of
      Inl (Returned t) \<Rightarrow> Inr t | Inl Thrown \<Rightarrow> Inl Decomposed_incomplete | Inr t \<Rightarrow> Inr t)"
  by (simp only: decide_def decide_flow_of_def Let_def)

lemma decide_flow_ok: "final_ok (decide_flow_of input)"
  unfolding decide_flow_of_def Let_def
  by (intro final_bind [OF payload_flow] final_bind [OF holds_flow] final_bind [OF gates_flow]
      final_bind [OF grade_flow] final_bind [OF hurdle_flow] final_pair_bind [OF sizing_flow]
      final_pair_bind [OF meters_flow]) (simp_all add: final_ok_def enqueue_ok)

lemma decide_trace_ok: "decide input = Inr t \<Longrightarrow> trace_ok t"
  using decide_flow_ok [of input] by (auto simp: decide_exits final_ok_def split: sum.splits decide_exit.splits)

subsection \<open>When a step passes\<close>

lemma refuse_not_Inr [simp]: "refuse n r f k dg steps \<noteq> Inr x"
  by (simp add: refuse_def)

lemma payload_passes:
  "decide_payload input steps = Inr s \<longleftrightarrow> di_preimageOk input \<noteq> Some False \<and> di_resourceLocksHeld input \<noteq> Some False \<and>
     s = push 0 V_pass [Some True, Some True] steps"
  by (auto simp: decide_payload_def)

lemma holds_passes:
  "decide_holds input steps = Inr s \<longleftrightarrow> di_processHold input \<noteq> Some True \<and>
     s = push 1 V_pass [Some True, Some True, Some True] steps"
  by (auto simp: decide_holds_def)

definition gate_clear :: "gate_reading \<Rightarrow> bool" where
  "gate_clear r \<longleftrightarrow> rd_bookValid r \<and> \<not> capBreached r \<and> \<not> relBreached r"

definition gates_clear :: "decision_inputs \<Rightarrow> proposal_class \<Rightarrow> bool" where
  "gates_clear input cls = (if requiresGateMarkets cls
     then gate_clear (gate_reading_of input Survival) \<and> gate_clear (gate_reading_of input Security) else True)"

lemma gate_loop_passes: "(\<exists>s. gate_loop rs validity veto steps = Inr s) \<longleftrightarrow> list_all gate_clear rs"
  by (induction rs arbitrary: validity veto) (auto simp: gate_clear_def Let_def)

lemma gates_passes: "(\<exists>s. decide_gates input cls steps = Inr s) \<longleftrightarrow> gates_clear input cls"
  using gate_loop_passes [of "map (gate_reading_of input) [Survival, Security]" "[]" "[]" steps]
  by (simp add: decide_gates_def gates_clear_def del: gate_loop.simps)

lemma grade_passes: "(\<exists>s. decide_grade input steps = Inr s) \<longleftrightarrow> or_else (di_welfareGrade input) GradeOk = GradeOk"
  by (auto simp: decide_grade_def Let_def)

lemma hurdle_passes:
  "(\<exists>s. decide_hurdle input steps = Inr s) \<longleftrightarrow> fullPass input \<and> tailPass input \<and> or_else (di_converged input) True"
  by (auto simp: decide_hurdle_def Let_def)

definition sizing_clear :: "decision_inputs \<Rightarrow> proposal_class \<Rightarrow> bool" where
  "sizing_clear input cls = (case measured_depth input of Inl _ \<Rightarrow> False
     | Inr measured \<Rightarrow> sizing_ok (prize_of input cls) (attack_of input measured))"

lemma sizing_passes: "(\<exists>s. decide_sizing input cls steps = Inr s) \<longleftrightarrow> sizing_clear input cls"
  by (auto simp: decide_sizing_def sizing_clear_def Let_def split: sum.splits)

definition meters_clear :: "decision_inputs \<Rightarrow> proposal_class \<Rightarrow> bool" where
  "meters_clear input cls \<longleftrightarrow>
     (if cls = Code \<or> cls = Meta then or_else (di_attestationOk input) True else True) \<and> or_else (di_queueTimeOk input) True"

lemma meters_passes: "(\<exists>s. decide_meters input cls st = Inr s) \<longleftrightarrow> meters_clear input cls"
  by (cases st) (auto simp: decide_meters_def meters_clear_def Let_def)

lemma flow_passes:
  "(\<exists>t. decide_flow_of input = Inr t) \<longleftrightarrow>
     di_preimageOk input \<noteq> Some False \<and> di_resourceLocksHeld input \<noteq> Some False \<and> di_processHold input \<noteq> Some True \<and>
     gates_clear input (or_else (di_proposalClass input) Param) \<and> or_else (di_welfareGrade input) GradeOk = GradeOk \<and>
     fullPass input \<and> tailPass input \<and> or_else (di_converged input) True \<and>
     sizing_clear input (or_else (di_proposalClass input) Param) \<and> meters_clear input (or_else (di_proposalClass input) Param)"
proof -
  have bind: "(\<exists>t. rbind m f = Inr t) \<longleftrightarrow> (\<exists>s. m = Inr s \<and> (\<exists>t. f s = Inr t))" for m :: "'x decide_flow" and f :: "'x \<Rightarrow> 'y decide_flow"
    by (auto simp: rbind_eq_Inr_iff)
  show ?thesis
    unfolding decide_flow_of_def Let_def bind payload_passes holds_passes
    by (simp add: gates_passes grade_passes hurdle_passes sizing_passes meters_passes del: split_paired_Ex)
qed

lemma decide_adopt_flow:
  "(\<exists>t. decide input = Inr t \<and> dt_outcome t = Adopt) \<longleftrightarrow> (\<exists>t. decide_flow_of input = Inr t)"
  using decide_flow_ok [of input] by (auto simp: decide_exits final_ok_def split: sum.splits decide_exit.splits)

subsection \<open>The reasons of an early return\<close>

definition early_outcome :: "decision_inputs \<Rightarrow> decision_outcome \<Rightarrow> bool" where
  "early_outcome input o' = (case o' of Adopt \<Rightarrow> False | Extend \<Rightarrow> \<not> or_else (di_extended input) False
     | Reject r \<Rightarrow> r \<in> set T10_REJECT_REASONS)"

lemmas early_defs = early_outcome_def T10_REJECT_REASONS_def refuse_def finish_def

lemma gate_loop_early:
  "gate_loop rs validity veto steps = Inl (Returned t) \<Longrightarrow> early_outcome input (dt_outcome t) \<and> dt_stoppedAt t \<le> 4"
  by (induction rs arbitrary: validity veto) (auto simp: early_defs Let_def split: if_splits)

lemma step_early:
  "decide_payload input steps = Inl (Returned t) \<Longrightarrow> early_outcome input (dt_outcome t)"
  "decide_holds input steps = Inl (Returned t) \<Longrightarrow> early_outcome input (dt_outcome t)"
  "decide_gates input cls steps = Inl (Returned t) \<Longrightarrow> early_outcome input (dt_outcome t)"
  "decide_grade input steps = Inl (Returned t) \<Longrightarrow> early_outcome input (dt_outcome t)"
  "decide_hurdle input steps = Inl (Returned t) \<Longrightarrow> early_outcome input (dt_outcome t)"
  "decide_sizing input cls steps = Inl (Returned t) \<Longrightarrow> early_outcome input (dt_outcome t)"
  "decide_meters input cls st = Inl (Returned t) \<Longrightarrow> early_outcome input (dt_outcome t)"
  using gate_loop_early [of "map (gate_reading_of input) [Survival, Security]" "[]" "[]" steps t input]
  by (auto simp: decide_payload_def decide_holds_def decide_gates_def decide_grade_def decide_hurdle_def
      decide_sizing_def measured_depth_def decide_meters_def early_defs Let_def rbind_eq_Inl_iff
      simp del: gate_loop.simps split: if_splits prod.splits)

lemma decide_early: "decide_flow_of input = Inl (Returned t) \<Longrightarrow> early_outcome input (dt_outcome t)"
  unfolding decide_flow_of_def Let_def rbind_eq_Inl_iff
  by (elim disjE exE conjE) (simp_all add: step_early)

lemma decide_outcome:
  "decide input = Inr t \<Longrightarrow> dt_outcome t = Adopt \<or> early_outcome input (dt_outcome t)"
  using decide_flow_ok [of input] decide_early [of input]
  by (auto simp: decide_exits final_ok_def split: sum.splits decide_exit.splits)

subsection \<open>The throw\<close>

definition partly_decomposed :: "decision_inputs \<Rightarrow> bool" where
  "partly_decomposed input \<longleftrightarrow>
     list_ex (\<lambda>p. p \<noteq> None) (decomposed input) \<and> list_ex (\<lambda>p. p = None) (decomposed input)"

lemma refuse_not_Thrown [simp]: "refuse n r f k dg steps \<noteq> Inl Thrown"
  by (simp add: refuse_def)

lemma gate_loop_not_Thrown: "gate_loop rs validity veto steps \<noteq> Inl Thrown"
  by (induction rs arbitrary: validity veto) (simp_all add: Let_def)

lemma not_thrown:
  "decide_payload input steps \<noteq> Inl Thrown" "decide_holds input steps \<noteq> Inl Thrown"
  "decide_gates input cls steps \<noteq> Inl Thrown" "decide_grade input steps \<noteq> Inl Thrown"
  "decide_hurdle input steps \<noteq> Inl Thrown" "decide_meters input cls st \<noteq> Inl Thrown"
  by (auto simp: decide_payload_def decide_holds_def decide_gates_def gate_loop_not_Thrown decide_grade_def
      decide_hurdle_def decide_meters_def Let_def simp del: gate_loop.simps split: prod.splits)

lemma sizing_throws: "decide_sizing input cls steps = Inl Thrown \<longleftrightarrow> partly_decomposed input"
  by (auto simp: decide_sizing_def measured_depth_def partly_decomposed_def Let_def rbind_eq_Inl_iff)

lemma decide_throws:
  "decide input = Inl e \<longleftrightarrow>
     di_preimageOk input \<noteq> Some False \<and> di_resourceLocksHeld input \<noteq> Some False \<and> di_processHold input \<noteq> Some True \<and>
     gates_clear input (or_else (di_proposalClass input) Param) \<and> or_else (di_welfareGrade input) GradeOk = GradeOk \<and>
     fullPass input \<and> tailPass input \<and> or_else (di_converged input) True \<and> partly_decomposed input"
proof -
  have "decide input = Inl e \<longleftrightarrow> decide_flow_of input = Inl Thrown"
    by (cases e) (auto simp: decide_exits split: sum.splits decide_exit.splits)
  also have "\<dots> \<longleftrightarrow> (\<exists>s0 s1 s2 s3 s4. decide_payload input [] = Inr s0 \<and> decide_holds input s0 = Inr s1 \<and>
      decide_gates input (or_else (di_proposalClass input) Param) s1 = Inr s2 \<and> decide_grade input s2 = Inr s3 \<and>
      decide_hurdle input s3 = Inr s4 \<and> partly_decomposed input)"
    unfolding decide_flow_of_def Let_def rbind_eq_Inl_iff by (simp add: not_thrown sizing_throws)
  also have "\<dots> \<longleftrightarrow> di_preimageOk input \<noteq> Some False \<and> di_resourceLocksHeld input \<noteq> Some False \<and> di_processHold input \<noteq> Some True \<and>
     gates_clear input (or_else (di_proposalClass input) Param) \<and> or_else (di_welfareGrade input) GradeOk = GradeOk \<and>
     fullPass input \<and> tailPass input \<and> or_else (di_converged input) True \<and> partly_decomposed input"
    unfolding payload_passes holds_passes
    by (simp add: gates_passes grade_passes hurdle_passes)
  finally show ?thesis .
qed

subsection \<open>A sample proposal that is adopted\<close>

definition sample_gate :: gate_readings where
  "sample_gate = \<lparr> gr_pAdopt = Some (Num (1 / 64)), gr_pReject = Some (Num (1 / 64)), gr_pMax = Some (Num (1 / 8)),
     gr_eps = Some (Num (1 / 64)), gr_bookValid = Some True \<rparr>"

definition sample_inputs :: decision_inputs where
  "sample_inputs = \<lparr> di_proposalClass = Some Treasury, di_preimageOk = None, di_resourceLocksHeld = Some True,
     di_processHold = None, di_gateBookValid = None,
     di_gates = \<lparr> at_Survival = Some sample_gate, at_Security = Some sample_gate \<rparr>,
     di_welfareGrade = Some GradeOk, di_extended = Some False, di_acceptFull = Num (3 / 4),
     di_rejectFullEffective = Num (1 / 2), di_acceptTrailing = None, di_rejectTrailingEffective = None,
     di_delta = Num (1 / 8), di_rerun = None, di_converged = Some True, di_measuredLiquidity = Some (js_of_int 1000),
     di_polDepth = None, di_contestAccept = None, di_contestReject = None, di_flowCap = None, di_bAccept = None,
     di_bReject = None, di_publishedFlowPerDay = None, di_decisionWindow = None, di_ask = Some (js_of_int 0),
     di_envelopeValue = None, di_spendableNav = None, di_attestationOk = None, di_queueTimeOk = Some True \<rparr>"

lemma fl_sample: "fl (1 / 8) = 1 / 8" "fl (5 / 8) = 5 / 8" "fl (1 / 32) = 1 / 32"
  using fl_exact [of 1 "-3"] fl_exact [of 5 "-3"] fl_exact [of 1 "-5"] by (simp_all add: pow2_def)

lemma zero_prize: "ceilMicro (js_of_int 0) = js_of_int 0"
proof -
  have "fl (- 1 / 2) \<le> fl (- EPS_1E9)" using EPS_bounds by (intro fl_mono) simp
  moreover have "fl (- 1 / 2) = - 1 / 2" using fl_exact [of "-1" "-1"] by (simp add: pow2_def)
  ultimately have lo: "- 1 < fl (- EPS_1E9)" by simp
  have hi: "fl (- EPS_1E9) \<le> 0" using fl_mono [of "- EPS_1E9" 0] EPS_bounds by simp
  have "\<lceil>fl (- EPS_1E9)\<rceil> = 0" using lo hi by (simp add: ceiling_eq_iff)
  then show ?thesis by (simp add: ceilMicro_def js_of_int_def jn_sub_def)
qed

lemma sample_clear:
  "di_preimageOk sample_inputs \<noteq> Some False" "di_resourceLocksHeld sample_inputs \<noteq> Some False"
  "di_processHold sample_inputs \<noteq> Some True" "gates_clear sample_inputs Treasury"
  "or_else (di_welfareGrade sample_inputs) GradeOk = GradeOk"
  "fullPass sample_inputs" "tailPass sample_inputs" "or_else (di_converged sample_inputs) True"
  "sizing_clear sample_inputs Treasury" "meters_clear sample_inputs Treasury"
  "or_else (di_proposalClass sample_inputs) Param = Treasury"
proof -
  show "gates_clear sample_inputs Treasury"
    by (simp add: gates_clear_def requiresGateMarkets_def gate_clear_def gate_reading_of_def sample_inputs_def
        sample_gate_def at_gate_def or_else_def capBreached_def relBreached_def Let_def fl_sample)
  show "fullPass sample_inputs" "tailPass sample_inputs"
    by (simp_all add: fullPass_def tailPass_def hurdle_of_def rejectTrailing_of_def acceptTrailing_of_def
        sample_inputs_def or_else_def js_of_int_def fl_sample)
  have "fl (1000 / 2) = 500" "fl (43200 / 14400) = 3" "fl 1500 = 1500" "fl 1500000000 = 1500000000"
    using fl_int [of 500] fl_int [of 3] fl_int [of 1500] fl_int [of 1500000000] by simp_all
  then have "attack_of sample_inputs (js_of_int 1000) = js_of_int 1500"
    by (simp add: attack_of_def attackCostHat_def sample_inputs_def or_else_def js_of_int_def BLOCKS_PER_DAY_def
        floorMicro_def MICRO_def)
  moreover have "measured_depth sample_inputs = Inr (js_of_int 1000)" "prize_of sample_inputs Treasury = Some (js_of_int 0)"
    by (simp_all add: measured_depth_def decomposed_def prize_of_def inCapPrize_def sample_inputs_def or_else_def zero_prize)
  moreover have "securitySizingOk (js_of_int 0) (js_of_int 1500)"
    by (simp add: securitySizingOk_def SECURITY_FACTOR_def js_of_int_def)
  ultimately show "sizing_clear sample_inputs Treasury" by (simp add: sizing_clear_def sizing_ok_def)
qed (simp_all add: sample_inputs_def or_else_def meters_clear_def)

text \<open>The transition of the lifecycle table that an outcome fires.\<close>

definition outcome_transition :: "decision_outcome \<Rightarrow> transition_id" where
  "outcome_transition o' = (case o' of Adopt \<Rightarrow> T9 | Extend \<Rightarrow> T8 | Reject _ \<Rightarrow> T10)"

subsection \<open>Properties\<close>

text \<open>C6
  The decision rule adopts exactly when every check passes: the payload and the locks stand, no
  process hold, each gate book of a gate-bearing class is valid and neither its cap nor its relative
  test is breached, the welfare books are graded Ok, both hurdles pass and the price converged,
  the attack cost covers three times the defined prize, and the attestation and the meters hold.\<close>

theorem decide_adopts_iff:
  "(\<exists>t. decide input = Inr t \<and> dt_outcome t = Adopt) \<longleftrightarrow>
     (let cls = or_else (di_proposalClass input) Param in
       di_preimageOk input \<noteq> Some False \<and> di_resourceLocksHeld input \<noteq> Some False \<and> di_processHold input \<noteq> Some True \<and>
       gates_clear input cls \<and> or_else (di_welfareGrade input) GradeOk = GradeOk \<and>
       fullPass input \<and> tailPass input \<and> or_else (di_converged input) True \<and>
       sizing_clear input cls \<and> meters_clear input cls)"
  unfolding decide_adopt_flow flow_passes Let_def ..

theorem decide_adopts_iff_witness: "\<exists>t. decide sample_inputs = Inr t \<and> dt_outcome t = Adopt"
  using sample_clear by (simp add: decide_adopts_iff Let_def)

text \<open>C16
  No upside buys past a ruin gate: when a gate book is invalid or a gate test is breached, the
  decision is a rejection that stops by step 4, and it stays the same trace under any change of
  the welfare prices, the hurdle, the grade, the liquidity, the prize, the attestation and the
  meters.\<close>

theorem decide_gate_veto_final:
  assumes "\<not> gates_clear a (or_else (di_proposalClass a) Param)"
    and "di_proposalClass b = di_proposalClass a" "di_preimageOk b = di_preimageOk a"
    and "di_resourceLocksHeld b = di_resourceLocksHeld a" "di_processHold b = di_processHold a"
    and "di_gates b = di_gates a" "di_gateBookValid b = di_gateBookValid a"
  shows "decide b = decide a \<and> (\<exists>t r. decide a = Inr t \<and> dt_outcome t = Reject r \<and> dt_stoppedAt t \<le> 4)"
proof -
  let ?cls = "or_else (di_proposalClass a) Param"
  define f where "f input = rbind (decide_payload input []) (\<lambda>steps.
      rbind (decide_holds input steps) (\<lambda>steps. decide_gates input ?cls steps))" for input
  have same: "f b = f a"
    using assms(3-7) by (simp add: f_def decide_payload_def decide_holds_def decide_gates_def gate_reading_of_def cong: if_cong)
  have no: "f a \<noteq> Inr s" for s
    using assms(1) gates_passes [of a ?cls] by (auto simp: f_def rbind_eq_Inr_iff)
  then obtain x where x: "f a = Inl x" by (cases "f a") auto
  have chain: "decide_flow_of input = rbind (f input) (\<lambda>steps.
      rbind (decide_grade input steps) (\<lambda>steps. rbind (decide_hurdle input steps) (\<lambda>steps.
      rbind (decide_sizing input ?cls steps) (\<lambda>st. rbind (decide_meters input ?cls st) (\<lambda>st. Inr (decide_enqueue st))))))"
    if "di_proposalClass input = di_proposalClass a" for input
    using that by (simp add: decide_flow_of_def f_def Let_def rbind_assoc)
  have flow: "decide_flow_of a = Inl x" "decide_flow_of b = Inl x"
    using chain [of a] chain [of b] assms(2) x same by simp_all
  obtain t where t: "x = Returned t" "dt_stoppedAt t \<le> 4" "\<exists>r. dt_outcome t = Reject r"
  proof (cases x)
    case Thrown
    then show ?thesis using x by (auto simp: f_def rbind_eq_Inl_iff not_thrown)
  next
    case (Returned t)
    have gl: "gate_loop rs v w steps = Inl (Returned t) \<Longrightarrow> dt_stoppedAt t \<le> 4 \<and> (\<exists>r. dt_outcome t = Reject r)"
      for rs v w steps
      by (induction rs arbitrary: v w) (auto simp: refuse_def finish_def Let_def split: if_splits)
    have "dt_stoppedAt t \<le> 4 \<and> (\<exists>r. dt_outcome t = Reject r)"
      using x Returned gl
      by (auto simp: f_def rbind_eq_Inl_iff decide_payload_def decide_holds_def decide_gates_def refuse_def finish_def
          simp del: gate_loop.simps split: if_splits)
    then show ?thesis using that Returned by blast
  qed
  show ?thesis using flow t by (auto simp: decide_exits)
qed

theorem decide_gate_veto_final_witness:
  "let a = sample_inputs\<lparr> di_gates := \<lparr> at_Survival = Some (sample_gate\<lparr> gr_pAdopt := Some (Num (1 / 4)) \<rparr>),
       at_Security = None \<rparr> \<rparr>;
       b = a\<lparr> di_acceptFull := Num 1, di_rejectFullEffective := Num 0, di_measuredLiquidity := Some PosInfinity \<rparr>
   in decide b = decide a \<and> (\<exists>t r. decide a = Inr t \<and> dt_outcome t = Reject r \<and> dt_stoppedAt t \<le> 4)"
proof -
  define a where "a = sample_inputs\<lparr> di_gates := \<lparr> at_Survival = Some (sample_gate\<lparr> gr_pAdopt := Some (Num (1 / 4)) \<rparr>),
       at_Security = None \<rparr> \<rparr>"
  have "\<not> gates_clear a (or_else (di_proposalClass a) Param)"
    by (simp add: a_def gates_clear_def requiresGateMarkets_def gate_clear_def gate_reading_of_def sample_inputs_def
        sample_gate_def at_gate_def or_else_def capBreached_def Let_def)
  from decide_gate_veto_final [OF this, of "a\<lparr> di_acceptFull := Num 1, di_rejectFullEffective := Num 0,
        di_measuredLiquidity := Some PosInfinity \<rparr>"]
  show ?thesis unfolding Let_def a_def [symmetric] by simp
qed

text \<open>C24
  Every trace explains itself: it has the eleven steps in order, no step that passed shows a failed
  fact and every step that refused or extended shows one, the step it stopped at carries the
  verdict of the outcome, every earlier step passed or carries the same verdict, and every later
  one (after the hurdle group, for a stop within it) is not reached.\<close>

theorem decide_trace_explains:
  "case decide input of
     Inl e \<Rightarrow> partly_decomposed input
   | Inr t \<Rightarrow>
       map (\<lambda>s. (sr_step s, sr_name s)) (dt_steps t) = SPECS \<and>
       list_all facts_agree (dt_steps t) \<and>
       1 \<le> dt_stoppedAt t \<and> dt_stoppedAt t \<le> 11 \<and>
       sr_verdict (dt_steps t ! (dt_stoppedAt t - 1)) = verdict_of (dt_outcome t) \<and>
       list_all (\<lambda>s. cleared s \<or> sr_verdict s = verdict_of (dt_outcome t)) (take (dt_stoppedAt t) (dt_steps t)) \<and>
       list_all (\<lambda>s. sr_verdict s = V_not_reached) (drop (stop_group (dt_stoppedAt t)) (dt_steps t))"
  using decide_trace_ok [of input] decide_throws [of input]
  by (simp add: trace_ok_def split: sum.splits)

text \<open>C25
  The outcome fits the lifecycle. From Trading, or from Extended once the one extension is spent,
  the outcome of \<open>decide\<close> names a transition of the table that leaves that state (T9, T8 or
  T10), a rejection carries a reason the table lists for T10, and a proposal already extended is
  never extended again, so a second decision is final.\<close>

theorem decide_fits_lifecycle:
  assumes "decide input = Inr t"
  shows "lifecycle_step (outcome_transition (dt_outcome t))
      (if or_else (di_extended input) False then Extended else Trading)
      (case dt_outcome t of Adopt \<Rightarrow> Queued | Extend \<Rightarrow> Extended | Reject _ \<Rightarrow> Rejected) \<and>
    (case dt_outcome t of Adopt \<Rightarrow> True | Extend \<Rightarrow> \<not> or_else (di_extended input) False
      | Reject r \<Rightarrow> r \<in> set T10_REJECT_REASONS)"
  using decide_outcome [OF assms]
  by (cases "dt_outcome t")
    (auto simp: early_outcome_def outcome_transition_def lifecycle_step_shape table_shape_eq)

theorem decide_fits_lifecycle_witness:
  "\<exists>t. decide sample_inputs = Inr t \<and> lifecycle_step (outcome_transition (dt_outcome t)) Trading Queued"
proof -
  obtain t where t: "decide sample_inputs = Inr t" "dt_outcome t = Adopt"
    using sample_clear decide_adopt_flow [of sample_inputs] flow_passes [of sample_inputs] by auto
  from decide_fits_lifecycle [OF t(1)] t show ?thesis by (auto simp: sample_inputs_def or_else_def)
qed

end
