(* ===== verification/Compat.thy ===== *)
theory Compat
  imports Bleavit_Prelude
begin

text \<open>
  The runtime-compatibility classifier of \<open>app/packages/descriptors/src\<close>:
  \<open>probe.ts\<close> (what a compatibility object says of a surface), \<open>compat.ts\<close>
  (the three modes and which calls may be signed), \<open>foreign.ts\<close> (the same verdict for
  the second chain, kept in a type of its own) and \<open>spec-versions.ts\<close>. The
  compatibility object itself comes from a chain SDK that is not part of this
  repository: it is a parameter, a lookup by group, pallet and member. Texts of reasons are
  constructors of their own.
\<close>

subsection \<open>Probing\<close>

datatype compat_level = Level_incompatible | Level_partial | Level_backwards_compatible | Level_identical

datatype compat_group = Group_apis | Group_query | Group_constants | Group_event | Group_tx

record compat_helper =
  ch_level :: int
  ch_isCompatible :: bool

text \<open>An \<open>Args_value\<close> helper answers \<open>isCompatible()\<close> itself, next to its two sides.\<close>

datatype any_helper = Flat compat_helper | Args_value compat_helper compat_helper bool

type_synonym compat_surface = "compat_group \<Rightarrow> string \<Rightarrow> string \<Rightarrow> any_helper option"

record surface_entry =
  se_id :: string
  se_compatGroup :: compat_group
  se_pallet :: string
  se_member :: string

record surface_probe =
  sp_id :: string
  sp_compatible :: bool
  sp_level :: compat_level

definition COMPATIBILITY_LEVELS :: "compat_level list" where
  "COMPATIBILITY_LEVELS = [Level_incompatible, Level_partial, Level_backwards_compatible, Level_identical]"

definition levelName :: "int \<Rightarrow> compat_level" where
  "levelName level =
     (if 0 \<le> level \<and> level < int (length COMPATIBILITY_LEVELS) then COMPATIBILITY_LEVELS ! nat level
      else Level_incompatible)"

definition levelOf :: "any_helper \<Rightarrow> int" where
  "levelOf helper = (case helper of Args_value args val _ \<Rightarrow> min (ch_level args) (ch_level val) | Flat h \<Rightarrow> ch_level h)"

definition helper_isCompatible :: "any_helper \<Rightarrow> bool" where
  "helper_isCompatible helper = (case helper of Args_value _ _ ok \<Rightarrow> ok | Flat h \<Rightarrow> ch_isCompatible h)"

definition helperFor :: "compat_surface \<Rightarrow> surface_entry \<Rightarrow> any_helper option" where
  "helperFor api e = api (se_compatGroup e) (se_pallet e) (se_member e)"

definition probeAll :: "compat_surface \<Rightarrow> surface_entry list \<Rightarrow> surface_probe list" where
  "probeAll api targets =
     map (\<lambda>e. case helperFor api e of
         None \<Rightarrow> \<lparr> sp_id = se_id e, sp_compatible = False, sp_level = Level_incompatible \<rparr>
       | Some helper \<Rightarrow> \<lparr> sp_id = se_id e, sp_compatible = helper_isCompatible helper, sp_level = levelName (levelOf helper) \<rparr>)
       targets"

definition probeCriticalSurface :: "compat_surface \<Rightarrow> surface_entry list \<Rightarrow> surface_probe list" where
  "probeCriticalSurface api surface = probeAll api surface"

definition probeForeignSurface :: "compat_surface \<Rightarrow> surface_entry list \<Rightarrow> surface_probe list" where
  "probeForeignSurface api surface = probeAll api surface"

subsection \<open>Classifying a runtime\<close>

datatype compat_mode = Full | Restricted | Read_only_incompatible

datatype surface_reason = Absent_or_unreadable | Changed_shape

record disabled_surface =
  ds_id :: string
  ds_level :: compat_level
  ds_reason :: surface_reason

record compat_classification =
  cc_mode :: compat_mode
  cc_specVersion :: int
  cc_disabled :: "disabled_surface list"
  cc_proven :: "string list"

datatype probe_coverage_error = Never_probed nat nat string

definition reasonFor :: "compat_level \<Rightarrow> surface_reason" where
  "reasonFor level = (if level = Level_incompatible then Absent_or_unreadable else Changed_shape)"

text \<open>\<open>new Map(probes.map((p) => [p.id, p]))\<close>: a later probe of an id replaces an earlier one.\<close>

definition probes_byId :: "surface_probe list \<Rightarrow> string \<Rightarrow> surface_probe option" where
  "probes_byId probes = map_of (rev (map (\<lambda>p. (sp_id p, p)) probes))"

fun sort_surface :: "(string \<Rightarrow> surface_probe option) \<Rightarrow> surface_entry list \<Rightarrow> disabled_surface list \<times> string list" where
  "sort_surface byId [] = ([], [])"
| "sort_surface byId (e # es) =
     (let (disabled, proven) = sort_surface byId es in
      case byId (se_id e) of
        None \<Rightarrow> (disabled, proven)
      | Some probe \<Rightarrow>
          if sp_compatible probe then (disabled, se_id e # proven)
          else (\<lparr> ds_id = se_id e, ds_level = sp_level probe, ds_reason = reasonFor (sp_level probe) \<rparr> # disabled, proven))"

definition unprobed :: "(string \<Rightarrow> surface_probe option) \<Rightarrow> surface_entry list \<Rightarrow> string list" where
  "unprobed byId surface = map se_id (filter (\<lambda>e. byId (se_id e) = None) surface)"

definition classify ::
  "int \<Rightarrow> int list \<Rightarrow> surface_probe list \<Rightarrow> surface_entry list \<Rightarrow> (probe_coverage_error, compat_classification) result" where
  "classify specVersion supportedSpecVersions probes surface =
     (if specVersion \<notin> set supportedSpecVersions
      then Inr \<lparr> cc_mode = Read_only_incompatible, cc_specVersion = specVersion, cc_disabled = [], cc_proven = [] \<rparr>
      else
        let byId = probes_byId probes in
        case unprobed byId surface of
          missing # others \<Rightarrow> Inl (Never_probed (length (missing # others)) (length surface) missing)
        | [] \<Rightarrow>
            (let (disabled, proven) = sort_surface byId surface in
             Inr \<lparr> cc_mode = (if length disabled = 0 then Full else Restricted), cc_specVersion = specVersion,
               cc_disabled = disabled, cc_proven = proven \<rparr>))"

definition surfaceIsProven :: "compat_classification \<Rightarrow> string \<Rightarrow> bool" where
  "surfaceIsProven classification i =
     (cc_mode classification \<noteq> Read_only_incompatible \<and> i \<in> set (cc_proven classification))"

definition callIsProven :: "compat_classification \<Rightarrow> string \<Rightarrow> bool" where
  "callIsProven classification call = (cc_mode classification = Full)"

datatype call_unavailable = No_descriptors int | Call_unproven string

definition callUnavailableReason :: "compat_classification \<Rightarrow> string \<Rightarrow> call_unavailable option" where
  "callUnavailableReason classification call =
     (if cc_mode classification = Full then None
      else if cc_mode classification = Read_only_incompatible then Some (No_descriptors (cc_specVersion classification))
      else Some (Call_unproven call))"

subsection \<open>The second chain\<close>

record foreign_pin =
  fp_label :: string
  fp_genesisHash :: string
  fp_supportedSpecVersions :: "int list"

datatype foreign_mode = Foreign_full | Foreign_restricted | Foreign_unsupported | Wrong_chain | Unreachable

datatype foreign_reason =
    No_pin string | Not_reached string | Different_chain string string string | No_foreign_descriptors string "int option"
  | Unverified_surfaces "string list" nat

record foreign_classification =
  fc_chain :: string
  fc_mode :: foreign_mode
  fc_specVersion :: "int option"
  fc_disabled :: "disabled_surface list"
  fc_proven :: "string list"
  fc_reason :: "foreign_reason option"

record foreign_observation =
  fo_chainLabel :: string
  fo_genesisHash :: "string option"
  fo_specVersion :: "int option"
  fo_probes :: "surface_probe list"

definition FOREIGN_SURFACE :: "surface_entry list" where
  "FOREIGN_SURFACE =
     [\<lparr> se_id = ''assethub.Assets.Account'', se_compatGroup = Group_query, se_pallet = ''Assets'', se_member = ''Account'' \<rparr>,
      \<lparr> se_id = ''assethub.System.Account'', se_compatGroup = Group_query, se_pallet = ''System'', se_member = ''Account'' \<rparr>,
      \<lparr> se_id = ''assethub.PolkadotXcm.limited_reserve_transfer_assets'', se_compatGroup = Group_tx,
        se_pallet = ''PolkadotXcm'', se_member = ''limited_reserve_transfer_assets'' \<rparr>]"

definition FOREIGN_CHAIN_PINS :: "foreign_pin list" where
  "FOREIGN_CHAIN_PINS =
     [\<lparr> fp_label = ''Asset Hub'',
        fp_genesisHash = ''0xd6eec26135305a8ad257a20d003357284c8aa03d0bdb2b357ab0a22371e11ef2'',
        fp_supportedSpecVersions = [2004002] \<rparr>]"

definition foreign_verdict ::
  "foreign_observation \<Rightarrow> foreign_mode \<Rightarrow> disabled_surface list \<Rightarrow> string list \<Rightarrow> foreign_reason option \<Rightarrow> foreign_classification" where
  "foreign_verdict obs mode disabled proven reason =
     \<lparr> fc_chain = fo_chainLabel obs, fc_mode = mode, fc_specVersion = fo_specVersion obs,
       fc_disabled = disabled, fc_proven = proven, fc_reason = reason \<rparr>"

definition classifyForeign ::
  "foreign_observation \<Rightarrow> foreign_pin list \<Rightarrow> surface_entry list \<Rightarrow> (probe_coverage_error, foreign_classification) result" where
  "classifyForeign observation pins surface =
     (case List.find (\<lambda>p. fp_label p = fo_chainLabel observation) pins of
        None \<Rightarrow> Inr (foreign_verdict observation Unreachable [] [] (Some (No_pin (fo_chainLabel observation))))
      | Some pin \<Rightarrow>
        (case fo_genesisHash observation of
           None \<Rightarrow> Inr (foreign_verdict observation Unreachable [] [] (Some (Not_reached (fp_label pin))))
         | Some genesis \<Rightarrow>
           if genesis \<noteq> fp_genesisHash pin
           then Inr (foreign_verdict observation Wrong_chain [] []
             (Some (Different_chain (fp_label pin) genesis (fp_genesisHash pin))))
           else if (case fo_specVersion observation of None \<Rightarrow> True | Some v \<Rightarrow> v \<notin> set (fp_supportedSpecVersions pin))
           then Inr (foreign_verdict observation Foreign_unsupported [] []
             (Some (No_foreign_descriptors (fp_label pin) (fo_specVersion observation))))
           else
             let byId = probes_byId (fo_probes observation) in
             case unprobed byId surface of
               missing # others \<Rightarrow> Inl (Never_probed (length (missing # others)) (length surface) missing)
             | [] \<Rightarrow>
                 (let (disabled, proven) = sort_surface byId surface in
                  if length disabled = 0
                  then Inr (foreign_verdict observation Foreign_full disabled proven None)
                  else Inr (foreign_verdict observation Foreign_restricted disabled proven
                    (Some (Unverified_surfaces (map ds_id disabled) (length surface)))))))"

definition depositMayProceed :: "foreign_classification \<Rightarrow> bool" where
  "depositMayProceed classification = (fc_mode classification = Foreign_full)"

definition withdrawIsBlockedBy :: "foreign_classification \<Rightarrow> bool" where
  "withdrawIsBlockedBy classification = False"

subsection \<open>The paired releases\<close>

datatype runtime_role = Primary | Recovery

record supported_runtime =
  sr_specVersion :: int
  sr_specName :: string
  sr_role :: runtime_role
  sr_profile :: string
  sr_descriptorKey :: string
  sr_integrationContractVersion :: int
  sr_metadataSha256 :: string

definition SUPPORTED_RUNTIMES :: "supported_runtime list" where
  "SUPPORTED_RUNTIMES =
     [\<lparr> sr_specVersion = 2, sr_specName = ''bleavit'', sr_role = Primary, sr_profile = ''bootstrap'',
        sr_descriptorKey = ''bleavit'', sr_integrationContractVersion = 31,
        sr_metadataSha256 = ''5828c99fc32743717a5d11a630c317ca21ac26bf085203e0c5d02d2fc78cd6c7'' \<rparr>,
      \<lparr> sr_specVersion = 3, sr_specName = ''bleavit'', sr_role = Recovery, sr_profile = ''bootstrap-recovery'',
        sr_descriptorKey = ''bleavit_recovery'', sr_integrationContractVersion = 31,
        sr_metadataSha256 = ''0f36a82b23cf197a3eb21d67485a79ac44a875a634cab559764e24d226b7e4c2'' \<rparr>]"

definition SUPPORTED_SPEC_VERSIONS :: "int list" where
  "SUPPORTED_SPEC_VERSIONS = map sr_specVersion SUPPORTED_RUNTIMES"

definition runtimeFor :: "int \<Rightarrow> supported_runtime option" where
  "runtimeFor specVersion = List.find (\<lambda>r. sr_specVersion r = specVersion) SUPPORTED_RUNTIMES"

definition pairedRuntime :: "int \<Rightarrow> supported_runtime option" where
  "pairedRuntime specVersion =
     (case runtimeFor specVersion of
        None \<Rightarrow> None
      | Some self \<Rightarrow> List.find (\<lambda>r. sr_specName r = sr_specName self \<and> sr_role r \<noteq> sr_role self) SUPPORTED_RUNTIMES)"

subsection \<open>Facts about the sorted surface\<close>

definition probe_passes :: "(string \<Rightarrow> surface_probe option) \<Rightarrow> surface_entry \<Rightarrow> bool" where
  "probe_passes byId e = (case byId (se_id e) of None \<Rightarrow> False | Some p \<Rightarrow> sp_compatible p)"

definition probe_fails :: "(string \<Rightarrow> surface_probe option) \<Rightarrow> surface_entry \<Rightarrow> bool" where
  "probe_fails byId e = (case byId (se_id e) of None \<Rightarrow> False | Some p \<Rightarrow> \<not> sp_compatible p)"

lemma sort_surface_step:
  "sort_surface byId (e # es) =
     ((if probe_fails byId e then [\<lparr> ds_id = se_id e, ds_level = sp_level (the (byId (se_id e))),
          ds_reason = reasonFor (sp_level (the (byId (se_id e)))) \<rparr>] else []) @ fst (sort_surface byId es),
      (if probe_passes byId e then [se_id e] else []) @ snd (sort_surface byId es))"
  by (simp add: case_prod_beta Let_def probe_passes_def probe_fails_def split: option.splits)

lemmas sort_surface_simps = sort_surface.simps(1) sort_surface_step

lemma sort_surface_fst: "fst (sort_surface byId es) = [] \<longleftrightarrow> (\<forall>e \<in> set es. \<not> probe_fails byId e)"
  by (induction es) (simp_all add: sort_surface_simps del: sort_surface.simps(2))

lemma sort_surface_proven: "set (snd (sort_surface byId es)) = se_id ` {e \<in> set es. probe_passes byId e}"
  by (induction es) (auto simp add: sort_surface_simps simp del: sort_surface.simps(2))

lemma sort_surface_disabled: "ds_id ` set (fst (sort_surface byId es)) = se_id ` {e \<in> set es. probe_fails byId e}"
  by (induction es) (auto simp add: sort_surface_simps simp del: sort_surface.simps(2))

lemma unprobed_Nil: "unprobed byId es = [] \<longleftrightarrow> (\<forall>e \<in> set es. byId (se_id e) \<noteq> None)"
  by (auto simp: unprobed_def filter_empty_conv)

text \<open>What the probe of an entry says, and that \<open>probeAll\<close> answers for every entry.\<close>

definition entry_compatible :: "compat_surface \<Rightarrow> surface_entry \<Rightarrow> bool" where
  "entry_compatible api e = (case helperFor api e of None \<Rightarrow> False | Some h \<Rightarrow> helper_isCompatible h)"

lemma probeAll_byId:
  assumes "distinct (map se_id es)" "e \<in> set es"
  shows "\<exists>p. probes_byId (probeAll api es) (se_id e) = Some p \<and> sp_compatible p = entry_compatible api e"
proof -
  define probe where "probe = (\<lambda>e. hd (probeAll api [e]))"
  have pr: "sp_id (probe e) = se_id e" "sp_compatible (probe e) = entry_compatible api e" for e
    by (simp_all add: probe_def probeAll_def entry_compatible_def split: option.split)
  have "probeAll api es = map probe es" by (simp add: probeAll_def probe_def)
  then have "probes_byId (probeAll api es) = map_of (rev (map (\<lambda>e. (se_id e, probe e)) es))"
    by (simp add: probes_byId_def pr(1) comp_def)
  moreover have "map_of (rev (map (\<lambda>e. (se_id e, probe e)) es)) (se_id e) = Some (probe e)"
  proof (rule map_of_is_SomeI)
    have "map fst (rev (map (\<lambda>e. (se_id e, probe e)) es)) = rev (map se_id es)" by (simp add: rev_map comp_def)
    then show "distinct (map fst (rev (map (\<lambda>e. (se_id e, probe e)) es)))" using assms(1) by simp
    show "(se_id e, probe e) \<in> set (rev (map (\<lambda>e. (se_id e, probe e)) es))" using assms(2) by auto
  qed
  ultimately show ?thesis using pr(2) by simp
qed

lemma probeAll_sorted:
  fixes api :: compat_surface
  assumes "distinct (map se_id es)"
  defines "byId \<equiv> probes_byId (probeAll api es)"
  shows "unprobed byId es = []"
    "fst (sort_surface byId es) = [] \<longleftrightarrow> list_all (entry_compatible api) es"
    "set (snd (sort_surface byId es)) = se_id ` {e \<in> set es. entry_compatible api e}"
    "ds_id ` set (fst (sort_surface byId es)) = se_id ` {e \<in> set es. \<not> entry_compatible api e}"
proof -
  have p: "\<exists>p. byId (se_id e) = Some p \<and> sp_compatible p = entry_compatible api e" if "e \<in> set es" for e
    using probeAll_byId [OF assms(1) that, of api] by (simp add: byId_def)
  have pf: "probe_passes byId e = entry_compatible api e" "probe_fails byId e = (\<not> entry_compatible api e)" if "e \<in> set es" for e
    using p [OF that] by (auto simp: probe_passes_def probe_fails_def)
  show "unprobed byId es = []" using p by (auto simp: unprobed_Nil)
  show "fst (sort_surface byId es) = [] \<longleftrightarrow> list_all (entry_compatible api) es"
    by (simp add: sort_surface_fst pf list_all_iff)
  show "set (snd (sort_surface byId es)) = se_id ` {e \<in> set es. entry_compatible api e}"
    unfolding sort_surface_proven using pf(1) by (metis (mono_tags, lifting) Collect_cong)
  show "ds_id ` set (fst (sort_surface byId es)) = se_id ` {e \<in> set es. \<not> entry_compatible api e}"
    unfolding sort_surface_disabled using pf(2) by (metis (mono_tags, lifting) Collect_cong)
qed

lemma classify_cases:
  fixes api :: compat_surface
  assumes "distinct (map se_id surface)"
  defines "byId \<equiv> probes_byId (probeCriticalSurface api surface)"
  shows "classify v supported (probeCriticalSurface api surface) surface =
    (if v \<notin> set supported
     then Inr \<lparr> cc_mode = Read_only_incompatible, cc_specVersion = v, cc_disabled = [], cc_proven = [] \<rparr>
     else Inr \<lparr> cc_mode = (if fst (sort_surface byId surface) = [] then Full else Restricted), cc_specVersion = v,
       cc_disabled = fst (sort_surface byId surface), cc_proven = snd (sort_surface byId surface) \<rparr>)"
  using probeAll_sorted(1) [OF assms(1), of api]
  by (simp add: classify_def byId_def probeCriticalSurface_def Let_def case_prod_beta)

definition sample_api :: compat_surface where
  "sample_api g pallet member =
     (if g = Group_query \<and> pallet = ''Epoch'' then Some (Flat \<lparr> ch_level = 3, ch_isCompatible = True \<rparr>)
      else if g = Group_apis then Some (Args_value \<lparr> ch_level = 3, ch_isCompatible = True \<rparr>
        \<lparr> ch_level = 1, ch_isCompatible = False \<rparr> False)
      else None)"

definition sample_surface :: "surface_entry list" where
  "sample_surface =
     [\<lparr> se_id = ''storage.epoch.proposals'', se_compatGroup = Group_query, se_pallet = ''Epoch'', se_member = ''Proposals'' \<rparr>,
      \<lparr> se_id = ''api.quote'', se_compatGroup = Group_apis, se_pallet = ''FutarchyApi'', se_member = ''quote'' \<rparr>]"

text \<open>C27
  Signing needs the whole surface: for a runtime probed over the frozen list the
  classifier never refuses, a call may be signed exactly when the version is supported and
  every entry of the list was found compatible (and otherwise a reason is given), and in a
  supported runtime the proven and the disabled entries are exactly the compatible and the
  incompatible ones; an absent entry is disabled at level incompatible.
\<close>

theorem call_needs_whole_surface:
  assumes "distinct (map se_id surface)"
  shows "case classify v supported (probeCriticalSurface api surface) surface of
      Inl e \<Rightarrow> False
    | Inr c \<Rightarrow>
        (callIsProven c call = (v \<in> set supported \<and> list_all (entry_compatible api) surface)) \<and>
        ((callUnavailableReason c call = None) = callIsProven c call) \<and>
        (surfaceIsProven c i = (v \<in> set supported \<and> (\<exists>e \<in> set surface. se_id e = i \<and> entry_compatible api e))) \<and>
        set (cc_proven c) = (if v \<in> set supported then se_id ` {e \<in> set surface. entry_compatible api e} else {}) \<and>
        ds_id ` set (cc_disabled c) = (if v \<in> set supported then se_id ` {e \<in> set surface. \<not> entry_compatible api e} else {})"
proof (cases "v \<in> set supported")
  case False
  then show ?thesis
    by (simp add: classify_cases [OF assms] callIsProven_def callUnavailableReason_def surfaceIsProven_def)
next
  case True
  note sorted = probeAll_sorted(2,3,4) [OF assms, of api, folded probeCriticalSurface_def]
  show ?thesis
    using sorted True
    by (auto simp: classify_cases [OF assms] callIsProven_def callUnavailableReason_def surfaceIsProven_def)
qed

theorem call_needs_whole_surface_witness:
  "map se_id sample_surface = [''storage.epoch.proposals'', ''api.quote''] \<and>
   (case classify 2 SUPPORTED_SPEC_VERSIONS (probeCriticalSurface sample_api sample_surface) sample_surface of
      Inl e \<Rightarrow> False
    | Inr c \<Rightarrow> \<not> callIsProven c ''market.buy'' \<and> surfaceIsProven c ''storage.epoch.proposals'' \<and>
        map ds_reason (cc_disabled c) = [Changed_shape])"
proof -
  have "distinct (map se_id sample_surface)" by code_simp
  note call_needs_whole_surface [OF this, where v = 2 and supported = SUPPORTED_SPEC_VERSIONS and api = sample_api
      and call = "''market.buy''" and i = "''storage.epoch.proposals''"]
  moreover have "map se_id sample_surface = [''storage.epoch.proposals'', ''api.quote'']"
    "2 \<in> set SUPPORTED_SPEC_VERSIONS" "\<not> list_all (entry_compatible sample_api) sample_surface"
    "\<exists>e \<in> set sample_surface. se_id e = ''storage.epoch.proposals'' \<and> entry_compatible sample_api e" by code_simp+
  moreover have "case classify 2 SUPPORTED_SPEC_VERSIONS (probeCriticalSurface sample_api sample_surface) sample_surface of
      Inl e \<Rightarrow> False | Inr c \<Rightarrow> map ds_reason (cc_disabled c) = [Changed_shape]" by code_simp
  ultimately show ?thesis by (cases "classify 2 SUPPORTED_SPEC_VERSIONS (probeCriticalSurface sample_api sample_surface) sample_surface") simp_all
qed

text \<open>
  An unprobed surface is never a passing one, for either chain: with a supported runtime
  the classifier of the local chain refuses exactly when some entry has no probe, naming
  the first; the classifier of the second chain refuses under the same condition, but only
  after the chain was reached, matched the pinned genesis hash and reported a supported
  version; deposits may proceed exactly when all of this holds and every probe passed, and
  a reason is given exactly when they may not.
\<close>

theorem unprobed_is_refused:
  "((\<exists>e. classify v supported probes surface = Inl e) =
      (v \<in> set supported \<and> (\<exists>e \<in> set surface. se_id e \<notin> sp_id ` set probes))) \<and>
   (case classifyForeign observation pins surface of
      Inl e \<Rightarrow> e = Never_probed (length (unprobed (probes_byId (fo_probes observation)) surface)) (length surface)
          (hd (unprobed (probes_byId (fo_probes observation)) surface)) \<and>
        (\<exists>x \<in> set surface. se_id x \<notin> sp_id ` set (fo_probes observation))
    | Inr c \<Rightarrow> (fc_reason c = None) = depositMayProceed c \<and> \<not> withdrawIsBlockedBy c \<and>
        (depositMayProceed c =
          (case List.find (\<lambda>p. fp_label p = fo_chainLabel observation) pins of None \<Rightarrow> False | Some pin \<Rightarrow>
            fo_genesisHash observation = Some (fp_genesisHash pin) \<and>
            (case fo_specVersion observation of None \<Rightarrow> False | Some n \<Rightarrow> n \<in> set (fp_supportedSpecVersions pin)) \<and>
            list_all (probe_passes (probes_byId (fo_probes observation))) surface)))"
proof
  have byId: "(probes_byId ps i = None) = (i \<notin> sp_id ` set ps)" for ps i
    by (simp add: probes_byId_def map_of_eq_None_iff image_image)
  note defs = classifyForeign_def foreign_verdict_def depositMayProceed_def withdrawIsBlockedBy_def
  have un: "(unprobed (probes_byId ps) surface = []) = (\<forall>e \<in> set surface. se_id e \<in> sp_id ` set ps)" for ps
    unfolding unprobed_Nil byId by blast
  show "(\<exists>e. classify v supported probes surface = Inl e) =
      (v \<in> set supported \<and> (\<exists>e \<in> set surface. se_id e \<notin> sp_id ` set probes))"
    using un [of probes] by (auto simp: classify_def Let_def case_prod_beta split: list.splits)
  show "case classifyForeign observation pins surface of
      Inl e \<Rightarrow> e = Never_probed (length (unprobed (probes_byId (fo_probes observation)) surface)) (length surface)
          (hd (unprobed (probes_byId (fo_probes observation)) surface)) \<and>
        (\<exists>x \<in> set surface. se_id x \<notin> sp_id ` set (fo_probes observation))
    | Inr c \<Rightarrow> (fc_reason c = None) = depositMayProceed c \<and> \<not> withdrawIsBlockedBy c \<and>
        (depositMayProceed c =
          (case List.find (\<lambda>p. fp_label p = fo_chainLabel observation) pins of None \<Rightarrow> False | Some pin \<Rightarrow>
            fo_genesisHash observation = Some (fp_genesisHash pin) \<and>
            (case fo_specVersion observation of None \<Rightarrow> False | Some n \<Rightarrow> n \<in> set (fp_supportedSpecVersions pin)) \<and>
            list_all (probe_passes (probes_byId (fo_probes observation))) surface))"
  proof (cases "List.find (\<lambda>p. fp_label p = fo_chainLabel observation) pins")
    case None
    then show ?thesis by (simp add: defs)
  next
    case pin: (Some pin)
    show ?thesis
    proof (cases "fo_genesisHash observation = Some (fp_genesisHash pin) \<and>
        (case fo_specVersion observation of None \<Rightarrow> False | Some n \<Rightarrow> n \<in> set (fp_supportedSpecVersions pin))")
      case False
      then show ?thesis using pin by (cases "fo_genesisHash observation"; cases "fo_specVersion observation") (auto simp: defs)
    next
      case True
      let ?byId = "probes_byId (fo_probes observation)"
      have c: "classifyForeign observation pins surface =
          (case unprobed ?byId surface of missing # others \<Rightarrow> Inl (Never_probed (length (missing # others)) (length surface) missing)
           | [] \<Rightarrow> if fst (sort_surface ?byId surface) = []
             then Inr (foreign_verdict observation Foreign_full (fst (sort_surface ?byId surface)) (snd (sort_surface ?byId surface)) None)
             else Inr (foreign_verdict observation Foreign_restricted (fst (sort_surface ?byId surface)) (snd (sort_surface ?byId surface))
               (Some (Unverified_surfaces (map ds_id (fst (sort_surface ?byId surface))) (length surface)))))"
        using True pin by (auto simp: classifyForeign_def Let_def case_prod_beta split: option.splits list.splits)
      show ?thesis
      proof (cases "unprobed ?byId surface")
        case Nil
        have all: "(fst (sort_surface ?byId surface) = []) = list_all (probe_passes ?byId) surface"
          unfolding sort_surface_fst list_all_iff using Nil unfolding unprobed_Nil
          by (intro ball_cong) (auto simp: probe_passes_def probe_fails_def split: option.splits)
        show ?thesis using True pin Nil
          by (cases "fst (sort_surface ?byId surface) = []")
            (simp_all add: c all [symmetric] foreign_verdict_def depositMayProceed_def withdrawIsBlockedBy_def)
      next
        case (Cons x xs)
        then have "\<exists>e \<in> set surface. se_id e \<notin> sp_id ` set (fo_probes observation)" using un [of "fo_probes observation"] by auto
        then show ?thesis by (simp add: c Cons)
      qed
    qed
  qed
qed

end
