(* ===== verification/Provenance.thy ===== *)
theory Provenance
  imports Bleavit_Prelude "HOL-Library.List_Lexorder" "HOL-Library.Char_ord"
begin

text \<open>
  Where a value came from: the statuses of \<open>app/packages/shared-types/src/provenance.ts\<close>,
  their combination in \<open>derive.ts\<close>, and the pinned reads of
  \<open>app/packages/chain-client/src/provenance.ts\<close>. A \<open>Finalized\<close> value is a
  record that only \<open>finalize\<close>, \<open>derive\<close>, \<open>meet\<close> and
  \<open>readmitFromLeader\<close> build.
\<close>

subsection \<open>Statuses\<close>

type_synonym hex_string = string

datatype range_origin = Self | Operator string | Snapshot string | Indexer string

record coverage_range =
  cr_fromBlock :: int
  cr_toBlock :: int
  cr_origin :: range_origin

record coverage_ref =
  co_ranges :: "coverage_range list"
  co_holes :: "(int \<times> int) list"

definition origin_name :: "range_origin \<Rightarrow> string" where
  "origin_name o' = (case o' of Self \<Rightarrow> ''self'' | Operator p \<Rightarrow> ''operator:'' @ p
     | Snapshot p \<Rightarrow> ''snapshot:'' @ p | Indexer p \<Rightarrow> ''indexer:'' @ p)"

definition coverageBoundarySet :: "coverage_ref \<Rightarrow> string list" where
  "coverageBoundarySet coverage = sort (remdups (map (\<lambda>r. origin_name (cr_origin r)) (co_ranges coverage)))"

datatype verification_status =
    Verified_finalized hex_string hex_string int
  | Verified_best hex_string hex_string int
  | Derived_local coverage_ref
  | Provider string bool
  | Stale_cache int int
  | External_proposal

record 'a verified =
  vf_value :: 'a
  vf_status :: verification_status

definition externalProposal :: "'a \<Rightarrow> 'a verified" where
  "externalProposal x = \<lparr> vf_value = x, vf_status = External_proposal \<rparr>"

definition provider_status :: "string \<Rightarrow> bool \<Rightarrow> verification_status" where
  "provider_status providerId sampled = Provider providerId sampled"

definition isUnverified :: "verification_status \<Rightarrow> bool" where
  "isUnverified s = (case s of Verified_finalized _ _ _ \<Rightarrow> False | _ \<Rightarrow> True)"

subsection \<open>Combining statuses\<close>

definition status_rank :: "verification_status \<Rightarrow> nat" where
  "status_rank s = (case s of Verified_finalized _ _ _ \<Rightarrow> 1 | Verified_best _ _ _ \<Rightarrow> 2 | Derived_local _ \<Rightarrow> 3
     | Stale_cache _ _ \<Rightarrow> 4 | Provider _ _ \<Rightarrow> 5 | External_proposal \<Rightarrow> 6)"

definition blockOf :: "verification_status \<Rightarrow> hex_string option" where
  "blockOf s = (case s of Verified_finalized _ h _ \<Rightarrow> Some h | Verified_best _ h _ \<Rightarrow> Some h | _ \<Rightarrow> None)"

definition chainOf :: "verification_status \<Rightarrow> hex_string option" where
  "chainOf s = (case s of Verified_finalized c _ _ \<Rightarrow> Some c | Verified_best c _ _ \<Rightarrow> Some c | _ \<Rightarrow> None)"

datatype incomparable = No_reads | Different_chains | Different_blocks

datatype 'a combined = Stated "'a verified" | Incomparable incomparable

definition weakest_of :: "verification_status \<Rightarrow> verification_status list \<Rightarrow> verification_status" where
  "weakest_of s0 ss = foldl (\<lambda>w s. if status_rank s > status_rank w then s else w) s0 ss"

definition combineStatus :: "verification_status list \<Rightarrow> (incomparable, verification_status) result" where
  "combineStatus statuses =
     (case statuses of
        [] \<Rightarrow> Inl No_reads
      | s0 # _ \<Rightarrow>
          (let weakest = weakest_of s0 statuses in
           if blockOf weakest \<noteq> None \<and> length (remdups (map chainOf statuses)) > 1 then Inl Different_chains
           else if blockOf weakest \<noteq> None \<and> length (remdups (map blockOf statuses)) > 1 then Inl Different_blocks
           else Inr weakest))"

definition combine :: "'a \<Rightarrow> verification_status list \<Rightarrow> 'a combined" where
  "combine x statuses =
     (case combineStatus statuses of Inl e \<Rightarrow> Incomparable e | Inr s \<Rightarrow> Stated \<lparr> vf_value = x, vf_status = s \<rparr>)"

definition combine2 :: "'a verified \<Rightarrow> 'b verified \<Rightarrow> ('a \<Rightarrow> 'b \<Rightarrow> 'c) \<Rightarrow> 'c combined" where
  "combine2 a b compute = combine (compute (vf_value a) (vf_value b)) [vf_status a, vf_status b]"

subsection \<open>Pinned reads\<close>

record finalized_block_ref =
  fb_chain :: hex_string
  fb_blockHash :: hex_string
  fb_blockNumber :: int

record 'a finalized =
  fz_value :: 'a
  fz_status :: finalized_block_ref

definition finalize :: "'a \<Rightarrow> finalized_block_ref \<Rightarrow> 'a finalized" where
  "finalize x pin = \<lparr> fz_value = x, fz_status = pin \<rparr>"

definition derive :: "'a finalized \<Rightarrow> ('a \<Rightarrow> 'b) \<Rightarrow> 'b finalized" where
  "derive read compute = finalize (compute (fz_value read)) (fz_status read)"

definition meet :: "'a finalized \<Rightarrow> 'b finalized \<Rightarrow> ('a \<Rightarrow> 'b \<Rightarrow> 'c) \<Rightarrow> 'c finalized option" where
  "meet a b join =
     (if fb_chain (fz_status a) \<noteq> fb_chain (fz_status b) then None
      else if fb_blockHash (fz_status a) \<noteq> fb_blockHash (fz_status b) then None
      else Some (finalize (join (fz_value a) (fz_value b)) (fz_status a)))"

definition hasFinalizedStatus :: "'a verified \<Rightarrow> bool" where
  "hasFinalizedStatus v = (case vf_status v of Verified_finalized _ _ _ \<Rightarrow> True | _ \<Rightarrow> False)"

definition readmitFromLeader :: "'a verified \<Rightarrow> finalized_block_ref \<Rightarrow> 'a finalized option" where
  "readmitFromLeader v leaderPin =
     (case vf_status v of
        Verified_finalized chain blockHash blockNumber \<Rightarrow>
          if chain \<noteq> fb_chain leaderPin then None
          else if blockHash \<noteq> fb_blockHash leaderPin then None
          else if blockNumber \<noteq> fb_blockNumber leaderPin then None
          else Some (finalize (vf_value v) leaderPin)
      | _ \<Rightarrow> None)"

text \<open>A pinned read as the plain value it travels as.\<close>

definition as_verified :: "'a finalized \<Rightarrow> 'a verified" where
  "as_verified r = \<lparr> vf_value = fz_value r,
     vf_status = Verified_finalized (fb_chain (fz_status r)) (fb_blockHash (fz_status r)) (fb_blockNumber (fz_status r)) \<rparr>"

subsection \<open>Facts about the combination\<close>

lemma weakest_of_spec:
  "weakest_of s0 ss \<in> insert s0 (set ss)"
  "status_rank s0 \<le> status_rank (weakest_of s0 ss)"
  "s \<in> set ss \<Longrightarrow> status_rank s \<le> status_rank (weakest_of s0 ss)"
proof -
  have "weakest_of s0 ss \<in> insert s0 (set ss) \<and> status_rank s0 \<le> status_rank (weakest_of s0 ss) \<and>
      (\<forall>s \<in> set ss. status_rank s \<le> status_rank (weakest_of s0 ss))"
  proof (induction ss arbitrary: s0)
    case Nil
    show ?case by (simp add: weakest_of_def)
  next
    case (Cons a ss)
    let ?s = "if status_rank a > status_rank s0 then a else s0"
    have step: "weakest_of s0 (a # ss) = weakest_of ?s ss" by (simp add: weakest_of_def)
    have "status_rank s0 \<le> status_rank ?s" "status_rank a \<le> status_rank ?s" by simp_all
    with Cons.IH [of ?s] show ?case unfolding step
      by (auto intro: order_trans split: if_splits)
  qed
  then show "weakest_of s0 ss \<in> insert s0 (set ss)" "status_rank s0 \<le> status_rank (weakest_of s0 ss)"
    "s \<in> set ss \<Longrightarrow> status_rank s \<le> status_rank (weakest_of s0 ss)" by blast+
qed

lemma rank_verified: "blockOf s \<noteq> None \<longleftrightarrow> status_rank s \<le> 2" "chainOf s \<noteq> None \<longleftrightarrow> status_rank s \<le> 2"
  by (cases s; simp add: blockOf_def chainOf_def status_rank_def)+

lemma several_classes [simp]:
  "Suc 0 < length (remdups (map f xs)) \<longleftrightarrow> (\<exists>x \<in> set xs. \<exists>y \<in> set xs. f x \<noteq> f y)"
proof -
  have "length (remdups (map f xs)) \<le> Suc 0 \<longleftrightarrow> (\<forall>x \<in> f ` set xs. \<forall>y \<in> f ` set xs. x = y)"
    unfolding length_remdups_card_conv set_map by (rule card_le_Suc0_iff_eq) simp
  then show ?thesis unfolding not_le [symmetric] by simp
qed

definition of_one :: "('a \<Rightarrow> 'b) \<Rightarrow> 'a list \<Rightarrow> bool" where
  "of_one f xs \<longleftrightarrow> (\<forall>x \<in> set xs. \<forall>y \<in> set xs. f x = f y)"

lemma of_one_iff: "(1 < length (remdups (map f xs))) = (\<not> of_one f xs)"
  by (simp add: of_one_def)

lemma combineStatus_cases:
  assumes "ss \<noteq> []"
  obtains (stated) s where "combineStatus ss = Inr s" "s \<in> set ss" "\<forall>t \<in> set ss. status_rank t \<le> status_rank s"
      "blockOf s = None \<or> of_one chainOf ss \<and> of_one blockOf ss"
    | (chains) "combineStatus ss = Inl Different_chains" "\<forall>t \<in> set ss. blockOf t \<noteq> None" "\<not> of_one chainOf ss"
    | (blocks) "combineStatus ss = Inl Different_blocks" "\<forall>t \<in> set ss. blockOf t \<noteq> None" "of_one chainOf ss"
        "\<not> of_one blockOf ss"
proof -
  obtain s0 ss' where ss: "ss = s0 # ss'" using assms by (cases ss) auto
  define w where "w = weakest_of s0 ss"
  have w: "w \<in> set ss" using weakest_of_spec(1) [of s0 ss] by (auto simp: w_def ss)
  have ranks: "\<forall>t \<in> set ss. status_rank t \<le> status_rank w" using weakest_of_spec(3) by (simp add: w_def)
  have named: "\<forall>t \<in> set ss. blockOf t \<noteq> None" if "blockOf w \<noteq> None"
    using ranks that unfolding rank_verified by (meson order_trans)
  have c: "combineStatus ss = (if blockOf w \<noteq> None \<and> \<not> of_one chainOf ss then Inl Different_chains
      else if blockOf w \<noteq> None \<and> \<not> of_one blockOf ss then Inl Different_blocks else Inr w)"
    unfolding combineStatus_def w_def of_one_iff Let_def by (simp only: ss list.case)
  show thesis
  proof (cases "blockOf w = None")
    case none: True
    show thesis by (rule stated [OF _ w ranks]) (simp_all add: c none)
  next
    case False
    note named = named [OF False]
    consider "\<not> of_one chainOf ss" | "of_one chainOf ss" "\<not> of_one blockOf ss" | "of_one chainOf ss" "of_one blockOf ss" by blast
    then show thesis
    proof cases
      case 1
      show thesis by (rule chains [OF _ named 1]) (simp add: c 1 False)
    next
      case 2
      show thesis by (rule blocks [OF _ named 2]) (simp add: c 2 False)
    next
      case 3
      show thesis by (rule stated [OF _ w ranks]) (simp_all add: c 3)
    qed
  qed
qed

text \<open>What a status says of the chain: the block it names, if it names one.\<close>

definition pinned_at :: "verification_status \<Rightarrow> hex_string \<Rightarrow> hex_string \<Rightarrow> bool" where
  "pinned_at s chain blockHash \<longleftrightarrow> chainOf s = Some chain \<and> blockOf s = Some blockHash"

definition sample_pin :: finalized_block_ref where
  "sample_pin = \<lparr> fb_chain = ''0xce'', fb_blockHash = ''0x11'', fb_blockNumber = 7 \<rparr>"

text \<open>C26
  Combining provenance never promotes: the status of a derived value is one of the
  inputs' statuses and claims no more than any of them; a result that still names a
  block requires every input to name that block of that chain. A combination of no
  reads is refused, and so is one of verified reads of different chains or blocks.
\<close>

theorem combine_never_promotes:
  assumes "ss \<noteq> []"
  shows "case combineStatus ss of
      Inr s \<Rightarrow> s \<in> set ss \<and> (\<forall>t. t \<notin> set ss \<or> status_rank t \<le> status_rank s) \<and>
        (\<forall>chain blockHash. pinned_at s chain blockHash \<longrightarrow> (\<forall>t \<in> set ss. pinned_at t chain blockHash))
    | Inl e \<Rightarrow> (\<forall>s \<in> set ss. blockOf s \<noteq> None) \<and>
        (e = Different_chains \<and> (\<exists>s \<in> set ss. \<exists>t \<in> set ss. chainOf s \<noteq> chainOf t) \<or>
         e = Different_blocks \<and> (\<forall>s \<in> set ss. \<forall>t \<in> set ss. chainOf s = chainOf t) \<and>
           (\<exists>s \<in> set ss. \<exists>t \<in> set ss. blockOf s \<noteq> blockOf t))"
proof (cases rule: combineStatus_cases [OF assms, case_names stated chains blocks])
  case (stated s)
  have "pinned_at t chain h" if "pinned_at s chain h" "t \<in> set ss" for chain h t
    using stated(2,4) that unfolding pinned_at_def of_one_def by (metis option.distinct(1))
  then show ?thesis unfolding stated(1) sum.case using stated(2,3) by blast
next
  case chains
  then show ?thesis unfolding chains(1) sum.case of_one_def by blast
next
  case blocks
  then show ?thesis unfolding blocks(1) sum.case of_one_def by blast
qed

definition sample_statuses :: "verification_status list" where
  "sample_statuses = [Verified_finalized ''0xce'' ''0x11'' 7, Verified_best ''0xce'' ''0x11'' 7]"

theorem combine_never_promotes_witness:
  "combineStatus sample_statuses = Inr (Verified_best ''0xce'' ''0x11'' 7) \<and>
   pinned_at (Verified_best ''0xce'' ''0x11'' 7) ''0xce'' ''0x11'' \<and>
   (case combineStatus sample_statuses of Inr s \<Rightarrow> s \<in> set sample_statuses | Inl e \<Rightarrow> False)"
proof -
  have c: "combineStatus sample_statuses = Inr (Verified_best ''0xce'' ''0x11'' 7)" by code_simp
  have "sample_statuses \<noteq> []" by (simp add: sample_statuses_def)
  from combine_never_promotes [OF this] c show ?thesis
    by (simp add: pinned_at_def chainOf_def blockOf_def)
qed

text \<open>
  A pinned read keeps its pin: \<open>derive\<close> and \<open>meet\<close> attach the pin of the
  reads they were given, \<open>meet\<close> gives nothing exactly for reads of different
  chains or blocks, and what \<open>readmitFromLeader\<close> admits is exactly a value that
  already claims the leader's chain, block and number, so that it returns a pinned read
  that crossed to another tab unchanged.
\<close>

theorem pinned_reads_keep_their_pin:
  "fz_status (derive r f) = fz_status r \<and>
   (case meet a b g of Some c \<Rightarrow> fz_status c = fz_status a \<and> fz_value c = g (fz_value a) (fz_value b) \<and>
      fb_chain (fz_status b) = fb_chain (fz_status c) \<and> fb_blockHash (fz_status b) = fb_blockHash (fz_status c)
    | None \<Rightarrow> \<not> (fb_chain (fz_status a) = fb_chain (fz_status b) \<and> fb_blockHash (fz_status a) = fb_blockHash (fz_status b))) \<and>
   meet a a (\<lambda>x _. f x) = Some (derive a f) \<and>
   readmitFromLeader (as_verified r) pin = (if fz_status r = pin then Some r else None) \<and>
   (readmitFromLeader v pin = Some r) = (fz_status r = pin \<and> as_verified r = v)"
proof (intro conjI)
  show "fz_status (derive r f) = fz_status r" by (simp add: derive_def finalize_def)
  show "case meet a b g of Some c \<Rightarrow> fz_status c = fz_status a \<and> fz_value c = g (fz_value a) (fz_value b) \<and>
      fb_chain (fz_status b) = fb_chain (fz_status c) \<and> fb_blockHash (fz_status b) = fb_blockHash (fz_status c)
    | None \<Rightarrow> \<not> (fb_chain (fz_status a) = fb_chain (fz_status b) \<and> fb_blockHash (fz_status a) = fb_blockHash (fz_status b))"
    by (simp add: meet_def finalize_def)
  show "meet a a (\<lambda>x _. f x) = Some (derive a f)" by (simp add: meet_def derive_def)
  show "readmitFromLeader (as_verified r) pin = (if fz_status r = pin then Some r else None)"
    by (cases r, cases pin, cases "fz_status r") (auto simp: readmitFromLeader_def as_verified_def finalize_def)
  show "(readmitFromLeader v pin = Some r) = (fz_status r = pin \<and> as_verified r = v)"
    by (cases v, cases "vf_status v", auto simp: readmitFromLeader_def as_verified_def finalize_def)
qed

end
