(* ===== verification/Tx_Multisig.thy ===== *)
theory Tx_Multisig
  imports Bleavit_Prelude "HOL-Library.Word" "HOL-Library.List_Lexorder" "HOL-Library.Multiset"
begin

unbundle bit_operations_syntax

text \<open>
  The multisig account of \<open>app/packages/transaction-builder/src/multisig.ts\<close>: the
  decoding of public keys, their order, the encoding that is hashed and the derived
  account. The hash is blake2b-256, which the source takes as an argument; it is an
  argument here too, with no assumption on it. A thrown \<open>MultisigDerivationError\<close> is
  a constructor of \<open>multisig_error\<close>.
\<close>

subsection \<open>Public keys\<close>

type_synonym public_key = "8 word list"

datatype multisig_error =
    Not_a_key nat | Bad_compact_length int | Compact_too_long int | No_signatories | Bad_threshold int
  | Threshold_exceeds int nat | Duplicate_signatory | Bad_digest | Bad_signer | Not_a_signatory

definition PUBLIC_KEY_BYTES :: nat where "PUBLIC_KEY_BYTES = 32"

definition U16_MAX :: int where "U16_MAX = 65535"

definition PREFIX :: "8 word list" where
  "PREFIX = map of_char ''modlpy/utilisuba''"

definition lower_char :: "char \<Rightarrow> char" where
  "lower_char c = (if 65 \<le> (of_char c :: nat) \<and> (of_char c :: nat) \<le> 90 then char_of ((of_char c :: nat) + 32) else c)"

definition toLowerCase :: "string \<Rightarrow> string" where
  "toLowerCase s = map lower_char s"

definition HEX_DIGITS :: string where "HEX_DIGITS = ''0123456789abcdef''"

fun digit_in :: "string \<Rightarrow> char \<Rightarrow> nat option" where
  "digit_in [] c = None"
| "digit_in (d # ds) c = (if d = c then Some 0 else map_option Suc (digit_in ds c))"

text \<open>\<open>HEX32\<close>: \<open>0x\<close> and sixty-four lower-case hexadecimal digits.\<close>

definition is_HEX32 :: "string \<Rightarrow> bool" where
  "is_HEX32 s = (take 2 s = ''0x'' \<and> length (drop 2 s) = 64 \<and> list_all (\<lambda>c. c \<in> set HEX_DIGITS) (drop 2 s))"

text \<open>\<open>Number.parseInt(\<dots>, 16)\<close> of two digits, once the expression matched.\<close>

definition parse_byte :: "char \<Rightarrow> char \<Rightarrow> 8 word" where
  "parse_byte h l = of_nat (16 * the (digit_in HEX_DIGITS h) + the (digit_in HEX_DIGITS l))"

fun parse_bytes :: "string \<Rightarrow> public_key" where
  "parse_bytes (h # l # cs) = parse_byte h l # parse_bytes cs"
| "parse_bytes _ = []"

definition decodeKey :: "string \<Rightarrow> nat \<Rightarrow> (multisig_error, public_key) result" where
  "decodeKey hex position =
     (let normalized = toLowerCase hex in
      if \<not> is_HEX32 normalized then Inl (Not_a_key position)
      else Inr (parse_bytes (drop 2 normalized)))"

definition encode_byte :: "8 word \<Rightarrow> string" where
  "encode_byte b = [HEX_DIGITS ! (unat b div 16), HEX_DIGITS ! (unat b mod 16)]"

definition encodeKey :: "public_key \<Rightarrow> string" where
  "encodeKey bytes = ''0x'' @ concat (map encode_byte bytes)"

text \<open>The comparator: the first differing byte decides, a missing byte reads as zero.\<close>

definition byte_at :: "public_key \<Rightarrow> nat \<Rightarrow> int" where
  "byte_at a i = (if i < length a then uint (a ! i) else 0)"

fun compare_from :: "nat \<Rightarrow> nat \<Rightarrow> public_key \<Rightarrow> public_key \<Rightarrow> int" where
  "compare_from 0 i a b = 0"
| "compare_from (Suc n) i a b =
     (let difference = byte_at a i - byte_at b i in
      if difference \<noteq> 0 then difference else compare_from n (Suc i) a b)"

definition compareKeys :: "public_key \<Rightarrow> public_key \<Rightarrow> int" where
  "compareKeys a b = compare_from PUBLIC_KEY_BYTES 0 a b"

text \<open>\<open>Array.prototype.sort\<close> with a comparator is a stable sort.\<close>

fun insert_by :: "('a \<Rightarrow> 'a \<Rightarrow> int) \<Rightarrow> 'a \<Rightarrow> 'a list \<Rightarrow> 'a list" where
  "insert_by cmp x [] = [x]"
| "insert_by cmp x (y # ys) = (if cmp x y \<le> 0 then x # y # ys else y # insert_by cmp x ys)"

definition sort_by :: "('a \<Rightarrow> 'a \<Rightarrow> int) \<Rightarrow> 'a list \<Rightarrow> 'a list" where
  "sort_by cmp xs = foldr (insert_by cmp) xs []"

fun has_duplicate :: "public_key list \<Rightarrow> bool" where
  "has_duplicate (a # b # ks) = (compareKeys a b = 0 \<or> has_duplicate (b # ks))"
| "has_duplicate _ = False"

subsection \<open>The preimage and the derived account\<close>

definition compactU32 :: "int \<Rightarrow> (multisig_error, 8 word list) result" where
  "compactU32 n =
     (if n < 0 then Inl (Bad_compact_length n)
      else if n < 2 ^ 6 then Inr [word_of_int (push_bit 2 n)]
      else if n < 2 ^ 14 then
        (let encoded = n * 4 + 1 in Inr [word_of_int (encoded AND 255), word_of_int (drop_bit 8 encoded AND 255)])
      else if n < 2 ^ 30 then
        (let encoded = n * 4 + 2 in
         Inr [word_of_int (encoded AND 255), word_of_int (drop_bit 8 encoded AND 255),
              word_of_int (drop_bit 16 encoded AND 255), word_of_int (drop_bit 24 encoded AND 255)])
      else Inl (Compact_too_long n))"

record multisig_derivation =
  md_account :: string
  md_signatories :: "string list"
  md_threshold :: int
  md_preimage :: "8 word list"

fun decode_all :: "nat \<Rightarrow> string list \<Rightarrow> (multisig_error, public_key list) result" where
  "decode_all position [] = Inr []"
| "decode_all position (s # ss) =
     (case decodeKey s position of
        Inl e \<Rightarrow> Inl e
      | Inr k \<Rightarrow> (case decode_all (Suc position) ss of Inl e \<Rightarrow> Inl e | Inr ks \<Rightarrow> Inr (k # ks)))"

definition threshold_bytes :: "int \<Rightarrow> 8 word list" where
  "threshold_bytes threshold = [word_of_int (threshold AND 255), word_of_int (drop_bit 8 threshold AND 255)]"

definition deriveMultisigAccount ::
  "string list \<Rightarrow> int \<Rightarrow> (8 word list \<Rightarrow> 8 word list) \<Rightarrow> (multisig_error, multisig_derivation) result" where
  "deriveMultisigAccount signatories threshold blake2b256 =
     (if length signatories = 0 then Inl No_signatories
      else if threshold < 1 \<or> threshold > U16_MAX then Inl (Bad_threshold threshold)
      else if threshold > int (length signatories) then Inl (Threshold_exceeds threshold (length signatories))
      else case decode_all 0 signatories of
        Inl e \<Rightarrow> Inl e
      | Inr keys \<Rightarrow>
          (let sorted = sort_by compareKeys keys in
           if has_duplicate sorted then Inl Duplicate_signatory
           else case compactU32 (int (length sorted)) of
             Inl e \<Rightarrow> Inl e
           | Inr keyCount \<Rightarrow>
               (let preimage = PREFIX @ keyCount @ concat sorted @ threshold_bytes threshold;
                    digest = blake2b256 preimage in
                if length digest \<noteq> PUBLIC_KEY_BYTES then Inl Bad_digest
                else Inr \<lparr> md_account = encodeKey digest, md_signatories = map encodeKey sorted,
                       md_threshold = threshold, md_preimage = preimage \<rparr>)))"

definition otherSignatories :: "multisig_derivation \<Rightarrow> string \<Rightarrow> (multisig_error, string list) result" where
  "otherSignatories derivation signer =
     (let normalized = toLowerCase signer in
      if \<not> is_HEX32 normalized then Inl Bad_signer
      else if normalized \<notin> set (md_signatories derivation) then Inl Not_a_signatory
      else Inr (filter (\<lambda>key. key \<noteq> normalized) (md_signatories derivation)))"

subsection \<open>Hexadecimal\<close>

lemma digit_in_nth:
  assumes "distinct ds" "i < length ds"
  shows "digit_in ds (ds ! i) = Some i"
  using assms
proof (induction ds arbitrary: i)
  case (Cons d ds)
  then show ?case by (cases i) auto
qed simp

lemma nth_digit_in: "digit_in ds c = Some i \<Longrightarrow> i < length ds \<and> ds ! i = c"
  by (induction ds arbitrary: i) (auto split: if_splits)

lemma digit_in_Some: "c \<in> set ds \<Longrightarrow> \<exists>i. digit_in ds c = Some i"
  by (induction ds) auto

lemma HEX_DIGITS_facts: "length HEX_DIGITS = 16" "distinct HEX_DIGITS"
  by (simp_all add: HEX_DIGITS_def)

lemma parse_encode_byte: "parse_byte (HEX_DIGITS ! (unat b div 16)) (HEX_DIGITS ! (unat b mod 16)) = b"
proof -
  have "unat b < 256" using unsigned_less [of b, where 'a = nat] by simp
  then have "unat b div 16 < length HEX_DIGITS" "unat b mod 16 < length HEX_DIGITS"
    by (simp_all add: HEX_DIGITS_facts)
  then show ?thesis by (simp add: parse_byte_def digit_in_nth HEX_DIGITS_facts)
qed

lemma parse_encode [simp]: "parse_bytes (concat (map encode_byte bs)) = bs"
  by (induction bs) (simp_all add: encode_byte_def parse_encode_byte)

lemma encode_parse:
  assumes "even (length cs)" "list_all (\<lambda>c. c \<in> set HEX_DIGITS) cs"
  shows "concat (map encode_byte (parse_bytes cs)) = cs"
  using assms
proof (induction cs rule: parse_bytes.induct)
  case (1 h l cs)
  obtain i j where d: "digit_in HEX_DIGITS h = Some i" "digit_in HEX_DIGITS l = Some j"
    using 1(3) digit_in_Some [of h HEX_DIGITS] digit_in_Some [of l HEX_DIGITS] by auto
  note ij = nth_digit_in [OF d(1)] nth_digit_in [OF d(2)]
  then have lt: "i < 16" "j < 16" by (simp_all add: HEX_DIGITS_facts)
  have u: "unat (parse_byte h l) = 16 * i + j"
    unfolding parse_byte_def d option.sel unat_of_nat using lt by simp
  have "encode_byte (parse_byte h l) = [h, l]"
    using ij lt by (simp add: encode_byte_def u)
  then show ?case using 1 by simp
qed auto

lemma length_parse_bytes: "length (parse_bytes cs) = length cs div 2"
  by (induction cs rule: parse_bytes.induct) simp_all

lemma encodeKey_inj: "encodeKey a = encodeKey b \<Longrightarrow> a = b"
  by (metis append_same_eq encodeKey_def parse_encode same_append_eq)

lemma length_encode: "length (concat (map encode_byte bs)) = 2 * length bs"
  by (induction bs) (simp_all add: encode_byte_def)

lemma encode_digits: "list_all (\<lambda>c. c \<in> set HEX_DIGITS) (concat (map encode_byte bs))"
proof -
  have "HEX_DIGITS ! (unat b div 16) \<in> set HEX_DIGITS \<and> HEX_DIGITS ! (unat b mod 16) \<in> set HEX_DIGITS" for b :: "8 word"
  proof -
    have "unat b < 256" using unsigned_less [of b, where 'a = nat] by simp
    then show ?thesis by (intro conjI nth_mem) (simp_all add: HEX_DIGITS_facts)
  qed
  then show ?thesis by (auto simp: list_all_iff encode_byte_def)
qed

lemma lower_digit: "c \<in> set HEX_DIGITS \<Longrightarrow> lower_char c = c"
  unfolding HEX_DIGITS_def lower_char_def by auto

lemma decode_encode:
  assumes "length k = 32"
  shows "toLowerCase (encodeKey k) = encodeKey k" "is_HEX32 (encodeKey k)" "decodeKey (encodeKey k) i = Inr k"
proof -
  have "map lower_char (concat (map encode_byte k)) = concat (map encode_byte k)"
    by (rule map_idI) (use encode_digits [of k] in \<open>auto simp: list_all_iff lower_digit\<close>)
  moreover have "map lower_char ''0x'' = ''0x''" by (simp add: lower_char_def)
  ultimately show low: "toLowerCase (encodeKey k) = encodeKey k"
    unfolding toLowerCase_def encodeKey_def map_append by simp
  show hex: "is_HEX32 (encodeKey k)" unfolding is_HEX32_def encodeKey_def
    using encode_digits assms by (simp add: length_encode)
  show "decodeKey (encodeKey k) i = Inr k" by (simp add: decodeKey_def low hex) (simp add: encodeKey_def)
qed

lemma decodeKey_Inr:
  assumes "decodeKey s i = Inr k"
  shows "length k = 32" "encodeKey k = toLowerCase s" "is_HEX32 (toLowerCase s)"
proof -
  have hex: "is_HEX32 (toLowerCase s)" and k: "k = parse_bytes (drop 2 (toLowerCase s))"
    using assms by (auto simp: decodeKey_def Let_def split: if_splits)
  show "length k = 32" using hex by (simp add: k length_parse_bytes is_HEX32_def)
  have "concat (map encode_byte k) = drop 2 (toLowerCase s)"
    using hex unfolding k by (intro encode_parse) (simp_all add: is_HEX32_def)
  then show "encodeKey k = toLowerCase s" using hex unfolding is_HEX32_def encodeKey_def
    by (metis append_take_drop_id)
  show "is_HEX32 (toLowerCase s)" by (rule hex)
qed

lemma decodeKey_position: "(decodeKey s i = Inr k) = (decodeKey s j = Inr k)"
  by (simp add: decodeKey_def Let_def)

subsection \<open>The order\<close>

lemma compare_from_spec:
  assumes "length a = i + n" "length b = i + n"
  shows "(compare_from n i a b \<le> 0) = (drop i a \<le> drop i b) \<and> (compare_from n i a b = 0) = (drop i a = drop i b)"
  using assms
proof (induction n arbitrary: i)
  case (Suc n)
  have d: "drop i a = a ! i # drop (Suc i) a" "drop i b = b ! i # drop (Suc i) b"
    using Suc(2,3) by (simp_all add: Cons_nth_drop_Suc)
  have b: "byte_at a i = uint (a ! i)" "byte_at b i = uint (b ! i)"
    using Suc(2,3) by (simp_all add: byte_at_def)
  have IH: "(compare_from n (Suc i) a b \<le> 0) = (drop (Suc i) a \<le> drop (Suc i) b) \<and>
      (compare_from n (Suc i) a b = 0) = (drop (Suc i) a = drop (Suc i) b)"
    using Suc(2,3) by (intro Suc.IH) simp_all
  show ?case
  proof (cases "a ! i = b ! i")
    case True
    then show ?thesis using IH by (simp add: d b)
  next
    case False
    then have "uint (a ! i) \<noteq> uint (b ! i)" by (simp add: word_uint_eq_iff)
    with False show ?thesis by (simp add: d b word_less_def order_le_less)
  qed
qed simp

lemma compareKeys_spec:
  assumes "length a = 32" "length b = 32"
  shows "(compareKeys a b \<le> 0) = (a \<le> b)" "(compareKeys a b = 0) = (a = b)"
  using compare_from_spec [of a 0 32 b] assms by (simp_all add: compareKeys_def PUBLIC_KEY_BYTES_def)

lemma insert_by_insort:
  assumes "length k = 32" "\<forall>x \<in> set ks. length x = 32"
  shows "insert_by compareKeys k ks = insort k ks"
  using assms by (induction ks) (simp_all add: compareKeys_spec)

lemma sort_by_sort:
  assumes "\<forall>x \<in> set ks. length x = 32"
  shows "sort_by compareKeys ks = sort ks"
  using assms
proof (induction ks)
  case (Cons k ks)
  then show ?case using insert_by_insort [of k "sort ks"] by (simp add: sort_by_def)
qed (simp add: sort_by_def)

lemma has_duplicate_distinct:
  assumes "sorted ks" "\<forall>x \<in> set ks. length x = 32"
  shows "has_duplicate ks = (\<not> distinct ks)"
  using assms
proof (induction ks rule: has_duplicate.induct)
  case (1 a b ks)
  have "a \<in> set ks \<Longrightarrow> a = b" using 1(2) by (auto simp: order_antisym)
  then show ?case using 1 by (auto simp: compareKeys_spec)
qed simp_all

subsection \<open>The encoding\<close>

lemma word8_and: "word_of_int (x AND 255) = (word_of_int x :: 8 word)"
proof -
  have "x AND 255 = take_bit 8 x" by (simp add: take_bit_eq_mask mask_eq_exp_minus_1)
  then show ?thesis by (simp add: word_of_int_eq_iff)
qed

lemma uint_byte: "uint (word_of_int x :: 8 word) = x mod 256"
  by (simp add: unsigned_of_int take_bit_eq_mod)

lemma drop_bits: "drop_bit 8 x = x div 256" "drop_bit 16 x = x div 65536" "drop_bit 24 x = x div 16777216" for x :: int
  by (simp_all add: drop_bit_eq_div)

lemma compactU32_eq:
  "compactU32 n =
     (if n < 0 then Inl (Bad_compact_length n)
      else if n < 64 then Inr [word_of_int (4 * n)]
      else if n < 16384 then Inr [word_of_int (4 * n + 1), word_of_int ((4 * n + 1) div 256)]
      else if n < 1073741824 then Inr [word_of_int (4 * n + 2), word_of_int ((4 * n + 2) div 256),
        word_of_int ((4 * n + 2) div 65536), word_of_int ((4 * n + 2) div 16777216)]
      else Inl (Compact_too_long n))"
  by (simp add: compactU32_def word8_and drop_bits push_bit_eq_mult Let_def mult.commute)

lemma two_bytes_mod: "x mod 256 + 256 * (x div 256 mod 256) = x mod 65536" for x :: int
  using zmod_zmult2_eq [of 256 x 256] by simp

lemma two_bytes:
  assumes "0 \<le> x" "x < 65536"
  shows "uint (word_of_int x :: 8 word) + 256 * uint (word_of_int (x div 256) :: 8 word) = x"
  unfolding uint_byte two_bytes_mod using assms by simp

lemma four_bytes:
  assumes "0 \<le> x" "x < 4294967296"
  shows "uint (word_of_int x :: 8 word) + 256 * uint (word_of_int (x div 256) :: 8 word) +
    65536 * (uint (word_of_int (x div 65536) :: 8 word) + 256 * uint (word_of_int (x div 16777216) :: 8 word)) = x"
proof -
  have "x div 16777216 = x div 65536 div 256" using zdiv_zmult2_eq [of 256 x 65536] by simp
  moreover have "x mod 65536 + 65536 * (x div 65536 mod 65536) = x"
    using zmod_zmult2_eq [of 65536 x 65536] assms by simp
  ultimately show ?thesis by (simp only: uint_byte two_bytes_mod)
qed

lemma compactU32_prefix:
  assumes "compactU32 n = Inr c" "compactU32 m = Inr d" "c @ xs = d @ ys"
  shows "n = m \<and> xs = ys"
proof -
  define mode :: "8 word list \<Rightarrow> int" where "mode = (\<lambda>ws. uint (hd ws) mod 4)"
  have m4: "uint (word_of_int (4 * k + r) :: 8 word) mod 4 = r mod 4" for k r :: int
    unfolding uint_byte by (simp add: mod_mod_cancel)
  have mode: "0 \<le> n \<and> n < 1073741824 \<and> c \<noteq> [] \<and> mode c = (if n < 64 then 0 else if n < 16384 then 1 else 2)"
    if "compactU32 n = Inr c" for n c
    using that m4 [of n 0] m4 [of n 1] m4 [of n 2] unfolding compactU32_eq mode_def by (auto split: if_splits)
  have hd: "hd c = hd d" using mode [OF assms(1)] mode [OF assms(2)] assms(3) by (metis hd_append2)
  consider "n < 64 \<and> m < 64" | "64 \<le> n \<and> n < 16384 \<and> 64 \<le> m \<and> m < 16384" | "16384 \<le> n \<and> 16384 \<le> m"
    using mode [OF assms(1)] mode [OF assms(2)] hd unfolding mode_def by (auto split: if_splits)
  then show ?thesis
  proof cases
    case 1
    then have "uint (word_of_int (4 * n) :: 8 word) = uint (word_of_int (4 * m) :: 8 word)" "xs = ys"
      using assms unfolding compactU32_eq by (auto split: if_splits)
    then show ?thesis using 1 mode [OF assms(1)] mode [OF assms(2)] unfolding uint_byte by auto
  next
    case 2
    let ?x = "4 * n + 1" and ?y = "4 * m + 1"
    have "word_of_int ?x = (word_of_int ?y :: 8 word)" "word_of_int (?x div 256) = (word_of_int (?y div 256) :: 8 word)" "xs = ys"
      using assms 2 unfolding compactU32_eq by (auto split: if_splits)
    moreover have "0 \<le> ?x" "?x < 65536" "0 \<le> ?y" "?y < 65536" using 2 by simp_all
    ultimately show ?thesis using two_bytes [of ?x] two_bytes [of ?y] by (metis add_right_cancel mult_cancel_left zero_neq_numeral)
  next
    case 3
    let ?x = "4 * n + 2" and ?y = "4 * m + 2"
    have "word_of_int ?x = (word_of_int ?y :: 8 word)" "word_of_int (?x div 256) = (word_of_int (?y div 256) :: 8 word)"
      "word_of_int (?x div 65536) = (word_of_int (?y div 65536) :: 8 word)"
      "word_of_int (?x div 16777216) = (word_of_int (?y div 16777216) :: 8 word)" "xs = ys"
      using assms 3 unfolding compactU32_eq by (auto split: if_splits)
    moreover have "0 \<le> ?x" "?x < 4294967296" "0 \<le> ?y" "?y < 4294967296"
      using 3 mode [OF assms(1)] mode [OF assms(2)] by simp_all
    ultimately show ?thesis using four_bytes [of ?x] four_bytes [of ?y]
      by (metis add_right_cancel mult_cancel_left zero_neq_numeral)
  qed
qed

lemma threshold_bytes_inj:
  assumes "threshold_bytes t = threshold_bytes u" "0 \<le> t" "t \<le> U16_MAX" "0 \<le> u" "u \<le> U16_MAX"
  shows "t = u"
proof -
  have eqs: "word_of_int t = (word_of_int u :: 8 word)" "word_of_int (t div 256) = (word_of_int (u div 256) :: 8 word)"
    using assms(1) by (simp_all add: threshold_bytes_def word8_and drop_bits)
  have "t < 65536" "u < 65536" using assms(3,5) by (simp_all add: U16_MAX_def)
  from two_bytes [OF assms(2) this(1), unfolded eqs] two_bytes [OF assms(4) this(2)] show ?thesis by (rule trans [OF sym])
qed

lemma concat_inj:
  assumes "concat ks @ xs = concat ls @ ys" "length ks = length ls" "\<forall>k \<in> set ks \<union> set ls. length k = 32"
  shows "ks = ls \<and> xs = ys"
  using assms(2,1,3) by (induction ks ls rule: list_induct2) auto

subsection \<open>Derivations\<close>

definition key_of :: "string \<Rightarrow> public_key" where
  "key_of s = parse_bytes (drop 2 (toLowerCase s))"

definition all_keys :: "string list \<Rightarrow> bool" where
  "all_keys ss = list_all (\<lambda>s. is_HEX32 (toLowerCase s)) ss"

lemma decodeKey_key_of: "is_HEX32 (toLowerCase s) \<Longrightarrow> decodeKey s i = Inr (key_of s)"
  by (simp add: decodeKey_def key_of_def)

lemma decodeKey_no_key: "\<not> is_HEX32 (toLowerCase s) \<Longrightarrow> decodeKey s i = Inl (Not_a_key i)"
  by (simp add: decodeKey_def Let_def)

lemma key_of_facts:
  assumes "is_HEX32 (toLowerCase s)"
  shows "length (key_of s) = 32" "encodeKey (key_of s) = toLowerCase s"
  using decodeKey_Inr [OF decodeKey_key_of [OF assms, of 0]] by simp_all

lemma decode_all_eq: "(decode_all i ss = Inr ks) = (all_keys ss \<and> ks = map key_of ss)"
proof (induction ss arbitrary: i ks)
  case (Cons s ss)
  show ?case
  proof (cases "is_HEX32 (toLowerCase s)")
    case True
    show ?thesis
    proof (cases "decode_all (Suc i) ss")
      case (Inl e)
      then have "\<not> all_keys ss" using Cons.IH [of "Suc i" "map key_of ss"] by auto
      then show ?thesis using True Inl by (simp add: decodeKey_key_of all_keys_def)
    next
      case (Inr ls)
      then show ?thesis using True Cons.IH [of "Suc i" ls] by (auto simp: decodeKey_key_of all_keys_def)
    qed
  qed (simp add: decodeKey_no_key all_keys_def)
qed (auto simp: all_keys_def)

text \<open>The keys in the order they are hashed, and the bytes that are hashed.\<close>

definition sorted_keys :: "string list \<Rightarrow> public_key list" where
  "sorted_keys ss = sort (map key_of ss)"

definition preimage_of :: "string list \<Rightarrow> int \<Rightarrow> 8 word list" where
  "preimage_of ss t = PREFIX @ (case compactU32 (int (length ss)) of Inr c \<Rightarrow> c | Inl e \<Rightarrow> []) @
     concat (sorted_keys ss) @ threshold_bytes t"

definition derivable :: "string list \<Rightarrow> int \<Rightarrow> (8 word list \<Rightarrow> 8 word list) \<Rightarrow> bool" where
  "derivable ss t h = (1 \<le> t \<and> t \<le> U16_MAX \<and> t \<le> int (length ss) \<and> length ss < 2 ^ 30 \<and>
     all_keys ss \<and> distinct (map toLowerCase ss) \<and> length (h (preimage_of ss t)) = 32)"

lemma key_of_inj:
  assumes "is_HEX32 (toLowerCase s)" "is_HEX32 (toLowerCase s')"
  shows "key_of s = key_of s' \<longleftrightarrow> toLowerCase s = toLowerCase s'"
proof
  assume "key_of s = key_of s'"
  then show "toLowerCase s = toLowerCase s'" using key_of_facts(2) [OF assms(1)] key_of_facts(2) [OF assms(2)] by simp
next
  assume "toLowerCase s = toLowerCase s'"
  then show "key_of s = key_of s'" by (simp only: key_of_def)
qed

lemma all_keys_lengths: "all_keys ss \<Longrightarrow> \<forall>x \<in> set (map key_of ss). length x = 32"
  by (auto simp: all_keys_def list_all_iff key_of_facts)

lemma distinct_keys:
  assumes "all_keys ss"
  shows "distinct (map key_of ss) = distinct (map toLowerCase ss)"
  using assms
proof (induction ss)
  case (Cons s ss)
  then have "is_HEX32 (toLowerCase s)" "\<forall>s' \<in> set ss. is_HEX32 (toLowerCase s')" by (simp_all add: all_keys_def list_all_iff)
  then have "key_of s \<in> key_of ` set ss \<longleftrightarrow> toLowerCase s \<in> toLowerCase ` set ss" by (auto simp: image_iff key_of_inj)
  with Cons show ?case by (simp add: all_keys_def)
qed simp

lemma derive_eq:
  "(deriveMultisigAccount ss t h = Inr d) =
    (derivable ss t h \<and> d = \<lparr> md_account = encodeKey (h (preimage_of ss t)), md_signatories = map encodeKey (sorted_keys ss),
       md_threshold = t, md_preimage = preimage_of ss t \<rparr>)"
proof (cases "1 \<le> t \<and> t \<le> U16_MAX \<and> t \<le> int (length ss) \<and> all_keys ss")
  case False
  have no_keys: "\<exists>e. decode_all 0 ss = Inl e" if "\<not> all_keys ss"
    using decode_all_eq [of 0 ss] that by (cases "decode_all 0 ss") auto
  show ?thesis using False no_keys by (auto simp: deriveMultisigAccount_def derivable_def)
next
  case True
  have keys: "decode_all 0 ss = Inr (map key_of ss)" using True by (simp add: decode_all_eq)
  have sorted: "sort_by compareKeys (map key_of ss) = sorted_keys ss"
    using sort_by_sort [OF all_keys_lengths] True by (simp add: sorted_keys_def)
  have dup: "has_duplicate (sorted_keys ss) = (\<not> distinct (map toLowerCase ss))"
    using has_duplicate_distinct [of "sorted_keys ss"] all_keys_lengths [of ss] distinct_keys [of ss] True
    by (simp add: sorted_keys_def)
  have len: "length (sorted_keys ss) = length ss" by (simp add: sorted_keys_def)
  have compact: "(\<exists>c. compactU32 (int (length ss)) = Inr c) = (length ss < 2 ^ 30)"
    unfolding compactU32_eq by auto
  have ne: "length ss \<noteq> 0" using True by auto
  show ?thesis
  proof (cases "compactU32 (int (length ss))")
    case (Inl e)
    then show ?thesis using True keys compact ne
      by (auto simp: deriveMultisigAccount_def derivable_def sorted len Let_def)
  next
    case (Inr c)
    then have "length ss < 2 ^ 30" using compact by blast
    moreover have pre: "preimage_of ss t = PREFIX @ c @ concat (sorted_keys ss) @ threshold_bytes t"
      by (simp only: preimage_of_def Inr sum.case)
    ultimately show ?thesis using True keys ne
      by (auto simp: deriveMultisigAccount_def derivable_def sorted len dup Inr Let_def PUBLIC_KEY_BYTES_def)
  qed
qed

lemma same_lower_facts:
  assumes "mset (map toLowerCase ss) = mset (map toLowerCase ss')"
  shows "length ss = length ss'" "all_keys ss = all_keys ss'" "sorted_keys ss = sorted_keys ss'"
    "distinct (map toLowerCase ss) = distinct (map toLowerCase ss')"
proof -
  show "length ss = length ss'" using mset_eq_length [OF assms] by simp
  have "all_keys ss = (\<forall>l \<in> set (map toLowerCase ss). is_HEX32 l)" for ss by (simp add: all_keys_def list_all_iff)
  then show "all_keys ss = all_keys ss'" by (simp only: mset_eq_setD [OF assms])
  have "map key_of ss = map (\<lambda>l. parse_bytes (drop 2 l)) (map toLowerCase ss)" for ss by (simp add: key_of_def)
  then have "mset (map key_of ss) = mset (map key_of ss')"
    using assms by (metis mset_map)
  then show "sorted_keys ss = sorted_keys ss'"
    unfolding sorted_keys_def by (metis sorted_list_of_multiset_mset)
  show "distinct (map toLowerCase ss) = distinct (map toLowerCase ss')"
    using assms by (metis mset_eq_imp_distinct_iff)
qed

lemma signatories_mset:
  assumes "all_keys ss"
  shows "mset (map encodeKey (sorted_keys ss)) = mset (map toLowerCase ss)"
proof -
  have "mset (map encodeKey (sorted_keys ss)) = mset (map encodeKey (map key_of ss))"
    unfolding sorted_keys_def mset_map mset_sort by (rule refl)
  also have "map encodeKey (map key_of ss) = map toLowerCase ss"
    using assms by (auto simp: all_keys_def list_all_iff key_of_facts(2))
  finally show ?thesis .
qed

lemma preimage_inj:
  assumes "derivable ss t h" "derivable ss' t' h'" "preimage_of ss t = preimage_of ss' t'"
  shows "t = t' \<and> mset (map toLowerCase ss) = mset (map toLowerCase ss')"
proof -
  have len: "length ss < 1073741824" "length ss' < 1073741824" using assms(1,2) by (simp_all add: derivable_def)
  have "\<exists>c. compactU32 (int n) = Inr c" if "n < 1073741824" for n using that by (simp add: compactU32_eq)
  then obtain c c' where c: "compactU32 (int (length ss)) = Inr c" "compactU32 (int (length ss')) = Inr c'"
    using len by blast
  have "c @ (concat (sorted_keys ss) @ threshold_bytes t) = c' @ (concat (sorted_keys ss') @ threshold_bytes t')"
    using assms(3) by (simp add: preimage_of_def c)
  from compactU32_prefix [OF c this] have ll: "length ss = length ss'"
    and rest: "concat (sorted_keys ss) @ threshold_bytes t = concat (sorted_keys ss') @ threshold_bytes t'" by simp_all
  have keys: "all_keys ss" "all_keys ss'" using assms(1,2) by (simp_all add: derivable_def)
  have lengths: "\<forall>k \<in> set (sorted_keys ss) \<union> set (sorted_keys ss'). length k = 32"
    using all_keys_lengths keys by (auto simp: sorted_keys_def)
  have same: "sorted_keys ss = sorted_keys ss'" and tb: "threshold_bytes t = threshold_bytes t'"
    using concat_inj [OF rest _ lengths] ll by (simp_all add: sorted_keys_def)
  have "t = t'" using threshold_bytes_inj [OF tb] assms(1,2) by (simp add: derivable_def)
  moreover have "mset (map toLowerCase ss) = mset (map toLowerCase ss')"
    using signatories_mset keys same by metis
  ultimately show ?thesis by blast
qed

definition sample_keys :: "string list" where
  "sample_keys = [''0x'' @ replicate 64 CHR ''b'', ''0x'' @ replicate 64 CHR ''A'']"

definition sample_hash :: "8 word list \<Rightarrow> 8 word list" where
  "sample_hash bytes = replicate 32 (last bytes + of_nat (length bytes))"

text \<open>C28
  A multisig account is a function of the set of keys and the threshold: listing the
  signatories in another order or letter case derives the same account, the recorded
  signatories are the given keys in lower case, once each, in the pallet's byte order,
  and two derivations that hash the same bytes have the same keys and threshold (so with an
  injective hash the account determines both). For a signatory in any letter case
  \<open>otherSignatories\<close> gives exactly the remaining keys, and refuses everybody else.
\<close>

theorem multisig_account_determined:
  assumes "deriveMultisigAccount ss t blake2b256 = Inr d"
  shows "(mset (map toLowerCase ss') = mset (map toLowerCase ss) \<longrightarrow> deriveMultisigAccount ss' t blake2b256 = Inr d) \<and>
    mset (md_signatories d) = mset (map toLowerCase ss) \<and> distinct (md_signatories d) \<and>
    (\<exists>keys. sorted keys \<and> md_signatories d = map encodeKey keys) \<and>
    (deriveMultisigAccount ss' t' blake2b256 = Inr d' \<and> md_preimage d' = md_preimage d \<longrightarrow>
      t' = t \<and> mset (map toLowerCase ss') = mset (map toLowerCase ss)) \<and>
    (case otherSignatories d signer of
       Inr others \<Rightarrow> add_mset (toLowerCase signer) (mset others) = mset (map toLowerCase ss)
     | Inl e \<Rightarrow> toLowerCase signer \<notin> set (map toLowerCase ss))"
proof (intro conjI impI)
  have d: "derivable ss t blake2b256" "d = \<lparr> md_account = encodeKey (blake2b256 (preimage_of ss t)),
      md_signatories = map encodeKey (sorted_keys ss), md_threshold = t, md_preimage = preimage_of ss t \<rparr>"
    using assms by (simp_all add: derive_eq)
  have keys: "all_keys ss" using d(1) by (simp add: derivable_def)
  show "deriveMultisigAccount ss' t blake2b256 = Inr d" if "mset (map toLowerCase ss') = mset (map toLowerCase ss)"
    using d same_lower_facts [OF that] by (simp add: derive_eq derivable_def preimage_of_def)
  show ms: "mset (md_signatories d) = mset (map toLowerCase ss)" using signatories_mset [OF keys] by (simp add: d(2))
  show dist: "distinct (md_signatories d)" using mset_eq_imp_distinct_iff [OF ms] d(1) by (simp add: derivable_def)
  show "\<exists>keys. sorted keys \<and> md_signatories d = map encodeKey keys"
    by (rule exI [of _ "sorted_keys ss"]) (simp add: d(2) sorted_keys_def)
  have same: "t' = t \<and> mset (map toLowerCase ss') = mset (map toLowerCase ss)"
    if "deriveMultisigAccount ss' t' blake2b256 = Inr d' \<and> md_preimage d' = md_preimage d"
    using that d by (intro preimage_inj [of _ _ blake2b256 _ _ blake2b256]) (auto simp: derive_eq)
  show "t' = t" "mset (map toLowerCase ss') = mset (map toLowerCase ss)"
    if "deriveMultisigAccount ss' t' blake2b256 = Inr d' \<and> md_preimage d' = md_preimage d"
    using same [OF that] by simp_all
  have members: "set (md_signatories d) = set (map toLowerCase ss)" by (rule mset_eq_setD [OF ms])
  show "case otherSignatories d signer of
       Inr others \<Rightarrow> add_mset (toLowerCase signer) (mset others) = mset (map toLowerCase ss)
     | Inl e \<Rightarrow> toLowerCase signer \<notin> set (map toLowerCase ss)"
  proof (cases "toLowerCase signer \<in> set (map toLowerCase ss)")
    case False
    then show ?thesis by (simp add: otherSignatories_def Let_def members [simplified] split: if_splits)
  next
    case True
    have hex: "is_HEX32 (toLowerCase signer)" using True keys by (auto simp: all_keys_def list_all_iff)
    have "filter (\<lambda>k. k \<noteq> x) ks = remove1 x ks" if "distinct ks" for x :: string and ks
      using that by (simp add: distinct_remove1_removeAll removeAll_filter_not_eq neq_commute)
    then have "mset (filter (\<lambda>k. k \<noteq> toLowerCase signer) (md_signatories d)) = mset (md_signatories d) - {# toLowerCase signer #}"
      using dist by simp
    then show ?thesis using True members ms by (simp add: otherSignatories_def hex Let_def)
  qed
qed

theorem multisig_account_determined_witness:
  "\<exists>d. deriveMultisigAccount sample_keys 2 sample_hash = Inr d \<and> deriveMultisigAccount (rev sample_keys) 2 sample_hash = Inr d \<and>
     md_signatories d = [''0x'' @ replicate 64 CHR ''a'', ''0x'' @ replicate 64 CHR ''b''] \<and>
     otherSignatories d (sample_keys ! 1) = Inr [''0x'' @ replicate 64 CHR ''b'']"
proof -
  have "(case deriveMultisigAccount sample_keys 2 sample_hash of Inl e \<Rightarrow> False | Inr d \<Rightarrow>
      md_signatories d = [''0x'' @ replicate 64 CHR ''a'', ''0x'' @ replicate 64 CHR ''b''] \<and>
      otherSignatories d (sample_keys ! 1) = Inr [''0x'' @ replicate 64 CHR ''b''])" by code_simp
  then obtain d where d: "deriveMultisigAccount sample_keys 2 sample_hash = Inr d"
      "md_signatories d = [''0x'' @ replicate 64 CHR ''a'', ''0x'' @ replicate 64 CHR ''b'']"
      "otherSignatories d (sample_keys ! 1) = Inr [''0x'' @ replicate 64 CHR ''b'']"
    by (auto split: sum.splits)
  have "mset (map toLowerCase (rev sample_keys)) = mset (map toLowerCase sample_keys)" by (simp flip: rev_map)
  from multisig_account_determined [OF d(1), THEN conjunct1, rule_format, OF this] d show ?thesis by blast
qed

end
