(* ===== verification/Tx_Wrappers.thy ===== *)
theory Tx_Wrappers
  imports Provenance Tx_Multisig
begin

text \<open>
  The two call wrappers of \<open>app/packages/transaction-builder/src/wrappers.ts\<close>: a
  proxy call and a multisig call run under another account than the signer's. Which
  account acts and which pays, what the next multisig approval does, and whether a proxy
  delegation admits a call. A stored multisig entry and the delegations arrive as pinned
  reads (theory Provenance). Texts of refusals are constructors.
\<close>

subsection \<open>Whose account\<close>

type_synonym account_id = string

record timepoint =
  tp_height :: int
  tp_index :: int

record multisig_entry =
  me_when :: timepoint
  me_deposit :: int
  me_depositor :: account_id
  me_approvals :: "account_id list"

record multisig_key =
  mk_multisig :: account_id
  mk_callHash :: string

record multisig_read =
  mr_key :: multisig_key
  mr_entry :: "multisig_entry option"

datatype multisig_dispatch = As_multi | As_multi_threshold_1

datatype call_wrapper =
    No_wrapper
  | Proxy (pw_real: account_id) (pw_proxyType: "string option")
  | Multisig (mw_multisig: account_id) (mw_threshold: int) (mw_others: "account_id list")

definition multisigWrapper :: "multisig_derivation \<Rightarrow> account_id \<Rightarrow> (multisig_error, call_wrapper) result" where
  "multisigWrapper derivation signer =
     (case otherSignatories derivation signer of
        Inl e \<Rightarrow> Inl e
      | Inr others \<Rightarrow> Inr (Multisig (md_account derivation) (md_threshold derivation) others))"

definition actingAccount :: "call_wrapper \<Rightarrow> account_id \<Rightarrow> account_id" where
  "actingAccount wrapper signer =
     (case wrapper of No_wrapper \<Rightarrow> signer | Proxy acct _ \<Rightarrow> acct | Multisig multisig _ _ \<Rightarrow> multisig)"

definition feePayer :: "call_wrapper \<Rightarrow> account_id \<Rightarrow> account_id" where
  "feePayer wrapper signer = signer"

definition splitsIdentity :: "call_wrapper \<Rightarrow> account_id \<Rightarrow> bool" where
  "splitsIdentity wrapper signer = (actingAccount wrapper signer \<noteq> feePayer wrapper signer)"

subsection \<open>The next approval\<close>

datatype approval_step =
    First (as_needed: int) (as_executes: bool) (as_dispatch: multisig_dispatch)
  | Subsequent timepoint (as_sofar: nat) (as_needed: int) (as_executes: bool)
  | Completes timepoint (as_sofar: nat) (as_needed: int) bool
  | Already_approved timepoint (as_sofar: nat) (as_needed: int)

datatype approval_error = Bad_approval_threshold int | Other_pending_call multisig_key multisig_key

definition deriveApproval ::
  "multisig_read finalized \<Rightarrow> multisig_key \<Rightarrow> account_id \<Rightarrow> int \<Rightarrow> (approval_error, approval_step) result" where
  "deriveApproval read expected signer threshold =
     (if threshold < 1 then Inl (Bad_approval_threshold threshold)
      else
        let key = mr_key (fz_value read); entry = mr_entry (fz_value read) in
        if mk_multisig key \<noteq> mk_multisig expected \<or> mk_callHash key \<noteq> mk_callHash expected
        then Inl (Other_pending_call key expected)
        else if threshold = 1 then Inr (First 1 True As_multi_threshold_1)
        else case entry of
          None \<Rightarrow> Inr (First threshold False As_multi)
        | Some e \<Rightarrow>
            (let approvalsSoFar = length (me_approvals e) in
             if int approvalsSoFar \<ge> threshold
             then Inr (Completes (me_when e) approvalsSoFar threshold (signer \<in> set (me_approvals e)))
             else if signer \<in> set (me_approvals e)
             then Inr (Already_approved (me_when e) approvalsSoFar threshold)
             else Inr (Subsequent (me_when e) approvalsSoFar threshold (int approvalsSoFar + 1 \<ge> threshold))))"

text \<open>The fields the steps share, each as its constructor states it.\<close>

definition step_sofar :: "approval_step \<Rightarrow> nat" where
  "step_sofar step = (case step of First _ _ _ \<Rightarrow> 0 | Subsequent _ n _ _ \<Rightarrow> n | Completes _ n _ _ \<Rightarrow> n | Already_approved _ n _ \<Rightarrow> n)"

definition step_executes :: "approval_step \<Rightarrow> bool" where
  "step_executes step = (case step of First _ b _ \<Rightarrow> b | Subsequent _ _ _ b \<Rightarrow> b | Completes _ _ _ _ \<Rightarrow> True | Already_approved _ _ _ \<Rightarrow> False)"

definition step_timepoint :: "approval_step \<Rightarrow> timepoint option" where
  "step_timepoint step = (case step of First _ _ _ \<Rightarrow> None | Subsequent t _ _ _ \<Rightarrow> Some t | Completes t _ _ _ \<Rightarrow> Some t
     | Already_approved t _ _ \<Rightarrow> Some t)"

datatype wrapper_refusal = Repeat_approval nat int

definition wrapperRefusalReason :: "approval_step \<Rightarrow> wrapper_refusal option" where
  "wrapperRefusalReason step = (case step of Already_approved _ n m \<Rightarrow> Some (Repeat_approval n m) | _ \<Rightarrow> None)"

subsection \<open>Proxy delegations\<close>

definition proxyTypeCovers :: "string option \<Rightarrow> string \<Rightarrow> bool" where
  "proxyTypeCovers proxyType callName = (case proxyType of None \<Rightarrow> False | Some p \<Rightarrow> p = ''Any'')"

record proxy_delegation =
  pd_delegate :: account_id
  pd_proxyType :: string
  pd_delay :: int

record proxy_read =
  pr_real :: account_id
  pr_delegations :: "proxy_delegation list"

datatype delegation_evidence = Read "proxy_read finalized" | Unreadable string

datatype proxy_refusal =
    Not_readable string | Other_account account_id account_id | Not_a_proxy | Announcement_needed int | Type_unproven "string list"

definition proxyAdmits ::
  "delegation_evidence \<Rightarrow> account_id \<Rightarrow> account_id \<Rightarrow> string \<Rightarrow> (proxy_refusal, proxy_delegation) result" where
  "proxyAdmits evidence acct signer callName =
     (case evidence of
        Unreadable reason \<Rightarrow> Inl (Not_readable reason)
      | Read read \<Rightarrow>
          (let readAt = pr_real (fz_value read); delegations = pr_delegations (fz_value read) in
           if readAt \<noteq> acct then Inl (Other_account readAt acct)
           else
             let forSigner = filter (\<lambda>d. pd_delegate d = signer) delegations in
             if length forSigner = 0 then Inl Not_a_proxy
             else case List.find (\<lambda>d. pd_delay d = 0 \<and> proxyTypeCovers (Some (pd_proxyType d)) callName) forSigner of
               Some usable \<Rightarrow> Inr usable
             | None \<Rightarrow>
                 (case List.find (\<lambda>d. pd_delay d > 0 \<and> proxyTypeCovers (Some (pd_proxyType d)) callName) forSigner of
                    Some delayed \<Rightarrow> Inl (Announcement_needed (pd_delay delayed))
                  | None \<Rightarrow> Inl (Type_unproven (map pd_proxyType forSigner)))))"

subsection \<open>A run of approvals\<close>

text \<open>
  What the chain stores after an approval is not code of this repository; a run takes it
  as \<open>stored\<close>, the entry stored after the given signer approved.
\<close>

fun approval_run ::
  "(multisig_entry option \<Rightarrow> account_id \<Rightarrow> multisig_entry) \<Rightarrow> multisig_key \<Rightarrow> finalized_block_ref \<Rightarrow> int \<Rightarrow>
   multisig_entry option \<Rightarrow> account_id list \<Rightarrow> (approval_error, approval_step) result list" where
  "approval_run stored key pin threshold entry [] = []"
| "approval_run stored key pin threshold entry (s # ss) =
     deriveApproval (finalize \<lparr> mr_key = key, mr_entry = entry \<rparr> pin) key s threshold #
     approval_run stored key pin threshold (Some (stored entry s)) ss"

definition approvals_in :: "multisig_entry option \<Rightarrow> account_id list" where
  "approvals_in entry = (case entry of None \<Rightarrow> [] | Some e \<Rightarrow> me_approvals e)"

text \<open>The documented law of the stored entry: one more approval, the first timepoint kept.\<close>

definition records_approvals :: "(multisig_entry option \<Rightarrow> account_id \<Rightarrow> multisig_entry) \<Rightarrow> bool" where
  "records_approvals stored \<longleftrightarrow>
     (\<forall>entry s. s \<notin> set (approvals_in entry) \<longrightarrow>
        set (me_approvals (stored entry s)) = insert s (set (approvals_in entry)) \<and>
        length (me_approvals (stored entry s)) = Suc (length (approvals_in entry))) \<and>
     (\<forall>e s. me_when (stored (Some e) s) = me_when e)"

definition sample_stored :: "multisig_entry option \<Rightarrow> account_id \<Rightarrow> multisig_entry" where
  "sample_stored entry s =
     (case entry of
        None \<Rightarrow> \<lparr> me_when = \<lparr> tp_height = 10, tp_index = 2 \<rparr>, me_deposit = 5, me_depositor = s, me_approvals = [s] \<rparr>
      | Some e \<Rightarrow> e \<lparr> me_approvals := me_approvals e @ [s] \<rparr>)"

lemma approval_step_value:
  assumes "threshold \<ge> 2"
  shows "deriveApproval (finalize \<lparr> mr_key = key, mr_entry = entry \<rparr> pin) key s threshold =
    Inr (case entry of None \<Rightarrow> First threshold False As_multi
      | Some e \<Rightarrow>
          if int (length (me_approvals e)) \<ge> threshold
          then Completes (me_when e) (length (me_approvals e)) threshold (s \<in> set (me_approvals e))
          else if s \<in> set (me_approvals e) then Already_approved (me_when e) (length (me_approvals e)) threshold
          else Subsequent (me_when e) (length (me_approvals e)) threshold (int (length (me_approvals e)) + 1 \<ge> threshold))"
  using assms by (auto simp: deriveApproval_def finalize_def Let_def split: option.splits)

text \<open>Once an entry exists: the remaining signers, up to the one that reaches the threshold.\<close>

lemma approval_run_from:
  assumes "records_approvals stored" "threshold \<ge> 2" "distinct ss" "set ss \<inter> set (me_approvals e) = {}"
    "int (length (me_approvals e) + length ss) = threshold"
  shows "approval_run stored key pin threshold (Some e) ss =
    map (\<lambda>i. Inr (Subsequent (me_when e) i threshold (int i + 1 = threshold)))
      [length (me_approvals e) ..< length (me_approvals e) + length ss]"
  using assms(3-5)
proof (induction ss arbitrary: e)
  case (Cons s ss)
  have s: "s \<notin> set (approvals_in (Some e))" using Cons(3) by (simp add: approvals_in_def)
  define e' where "e' = stored (Some e) s"
  have e': "set (me_approvals e') = insert s (set (me_approvals e))" "length (me_approvals e') = Suc (length (me_approvals e))"
    "me_when e' = me_when e"
    using assms(1) s unfolding records_approvals_def e'_def by (simp_all add: approvals_in_def)
  have "int (length (me_approvals e)) < threshold" "(int (length (me_approvals e)) + 1 \<ge> threshold) = (int (length (me_approvals e)) + 1 = threshold)"
    using Cons(4) by auto
  then have hd: "deriveApproval (finalize \<lparr> mr_key = key, mr_entry = Some e \<rparr> pin) key s threshold =
      Inr (Subsequent (me_when e) (length (me_approvals e)) threshold (int (length (me_approvals e)) + 1 = threshold))"
    using s by (simp add: approval_step_value [OF assms(2)] approvals_in_def)
  have "approval_run stored key pin threshold (Some e') ss =
      map (\<lambda>i. Inr (Subsequent (me_when e) i threshold (int i + 1 = threshold)))
        [Suc (length (me_approvals e)) ..< length (me_approvals e) + length (s # ss)]"
    using Cons(1) [of e'] Cons(2-4) e' by simp
  then show ?case unfolding approval_run.simps hd e'_def [symmetric]
    by (simp add: upt_conv_Cons del: upt_Suc)
qed simp

text \<open>C29
  Approvals complete a multisig at the threshold and not before: when distinct signers
  approve one pending call in turn, each step is accepted, counts the approvals before it
  and, after the first, names the timepoint the first approval recorded; exactly the last
  of as many signers as the threshold executes the call. A signer who approves a second
  time before the threshold is reached is refused.
\<close>

theorem approvals_complete_at_threshold:
  assumes "records_approvals stored" "threshold \<ge> 2" "distinct ss" "int (length ss) = threshold"
  shows "approval_run stored key pin threshold None ss =
      Inr (First threshold False As_multi) #
      map (\<lambda>i. Inr (Subsequent (me_when (stored None (hd ss))) i threshold (int i + 1 = threshold))) [1 ..< length ss] \<and>
    (s \<in> set (me_approvals e) \<and> int (length (me_approvals e)) < threshold \<longrightarrow>
      (case deriveApproval (finalize \<lparr> mr_key = key, mr_entry = Some e \<rparr> pin) key s threshold of
         Inl _ \<Rightarrow> False | Inr step \<Rightarrow> wrapperRefusalReason step = Some (Repeat_approval (length (me_approvals e)) threshold)))"
proof (intro conjI impI)
  obtain s1 ss' where ss: "ss = s1 # ss'" using assms(2,4) by (cases ss) auto
  define e' where "e' = stored None s1"
  have e': "set (me_approvals e') = {s1}" "length (me_approvals e') = 1"
    using assms(1) unfolding records_approvals_def e'_def by (simp_all add: approvals_in_def)
  have "approval_run stored key pin threshold (Some e') ss' =
      map (\<lambda>i. Inr (Subsequent (me_when e') i threshold (int i + 1 = threshold))) [1 ..< 1 + length ss']"
    using approval_run_from [OF assms(1,2), of ss' e'] assms(3,4) e' by (simp add: ss)
  then show "approval_run stored key pin threshold None ss =
      Inr (First threshold False As_multi) #
      map (\<lambda>i. Inr (Subsequent (me_when (stored None (hd ss))) i threshold (int i + 1 = threshold))) [1 ..< length ss]"
    by (simp add: ss e'_def approval_step_value [OF assms(2)] del: upt_Suc)
  show "case deriveApproval (finalize \<lparr> mr_key = key, mr_entry = Some e \<rparr> pin) key s threshold of
         Inl _ \<Rightarrow> False | Inr step \<Rightarrow> wrapperRefusalReason step = Some (Repeat_approval (length (me_approvals e)) threshold)"
    if "s \<in> set (me_approvals e) \<and> int (length (me_approvals e)) < threshold"
    using that by (simp add: approval_step_value [OF assms(2)] wrapperRefusalReason_def)
qed

theorem approvals_complete_at_threshold_witness:
  "records_approvals sample_stored \<and>
   map (\<lambda>r. case r of Inl _ \<Rightarrow> False | Inr step \<Rightarrow> step_executes step)
     (approval_run sample_stored \<lparr> mk_multisig = ''m'', mk_callHash = ''h'' \<rparr> sample_pin 3 None [''a'', ''b'', ''c'']) =
     [False, False, True]"
proof -
  have laws: "records_approvals sample_stored"
    by (simp add: records_approvals_def sample_stored_def approvals_in_def split: option.split)
  have "distinct [''a'', ''b'', ''c'']" "int (length [''a'', ''b'', ''c'']) = 3" by simp_all
  from approvals_complete_at_threshold [OF laws _ this, where key = "\<lparr> mk_multisig = ''m'', mk_callHash = ''h'' \<rparr>" and pin = sample_pin]
  show ?thesis by (simp add: laws step_executes_def upt_conv_Cons)
qed

end
