(* ===== verification/Tx_Rows.thy ===== *)
theory Tx_Rows
  imports Tx_Wrappers
begin

text \<open>
  The precondition tables of \<open>app/packages/transaction-builder/src/rows.ts\<close> and
  \<open>governance-rows.ts\<close>: the rows P-1 to P-15, O-1 to O-9 and G-1 to G-9, each a list of
  clauses naming what is read, from which surface, by which kind of read and against whose
  account. Sentences are kept, with the typographic apostrophe and prime written
  \<open>'\<close> and \<open>-prime\<close>; reasons of unreadable obligations and citations of spec
  questions are kept by their question only.
\<close>

subsection \<open>Clauses\<close>

datatype clause_source = Storage | Runtime_api | Constant

datatype clause_subject = Chain | Acting | Signer | Recipient

datatype fee_asset = VIT | USDC

definition FEE_ASSETS :: "fee_asset list" where "FEE_ASSETS = [VIT, USDC]"

datatype row_id =
    P_1 | P_2 | P_3 | P_4 | P_5 | P_6 | P_7 | P_8 | P_9 | P_10 | P_11 | P_12 | P_13 | P_14 | P_15
  | O_1 | O_2 | O_3 | O_4 | O_5 | O_6 | O_7 | O_8 | O_9

datatype governance_row_id = G_1 | G_2 | G_3 | G_4 | G_5 | G_6 | G_7 | G_8 | G_9

fun row_name :: "row_id \<Rightarrow> string" where
  "row_name P_1 = ''P-1''"
| "row_name P_2 = ''P-2''"
| "row_name P_3 = ''P-3''"
| "row_name P_4 = ''P-4''"
| "row_name P_5 = ''P-5''"
| "row_name P_6 = ''P-6''"
| "row_name P_7 = ''P-7''"
| "row_name P_8 = ''P-8''"
| "row_name P_9 = ''P-9''"
| "row_name P_10 = ''P-10''"
| "row_name P_11 = ''P-11''"
| "row_name P_12 = ''P-12''"
| "row_name P_13 = ''P-13''"
| "row_name P_14 = ''P-14''"
| "row_name P_15 = ''P-15''"
| "row_name O_1 = ''O-1''"
| "row_name O_2 = ''O-2''"
| "row_name O_3 = ''O-3''"
| "row_name O_4 = ''O-4''"
| "row_name O_5 = ''O-5''"
| "row_name O_6 = ''O-6''"
| "row_name O_7 = ''O-7''"
| "row_name O_8 = ''O-8''"
| "row_name O_9 = ''O-9''"

fun governance_row_name :: "governance_row_id \<Rightarrow> string" where
  "governance_row_name G_1 = ''G-1''"
| "governance_row_name G_2 = ''G-2''"
| "governance_row_name G_3 = ''G-3''"
| "governance_row_name G_4 = ''G-4''"
| "governance_row_name G_5 = ''G-5''"
| "governance_row_name G_6 = ''G-6''"
| "governance_row_name G_7 = ''G-7''"
| "governance_row_name G_8 = ''G-8''"
| "governance_row_name G_9 = ''G-9''"

record clause_extra =
  ce_feeAsset :: "fee_asset option"
  ce_anyOf :: "string option"
  ce_key :: "string option"

definition no_extra :: clause_extra where
  "no_extra = \<lparr> ce_feeAsset = None, ce_anyOf = None, ce_key = None \<rparr>"

definition keyed :: "string \<Rightarrow> clause_extra" where
  "keyed k = \<lparr> ce_feeAsset = None, ce_anyOf = None, ce_key = Some k \<rparr>"

definition any_of :: "string \<Rightarrow> clause_extra" where
  "any_of g = \<lparr> ce_feeAsset = None, ce_anyOf = Some g, ce_key = None \<rparr>"

definition paid_in :: "fee_asset \<Rightarrow> clause_extra" where
  "paid_in a = \<lparr> ce_feeAsset = Some a, ce_anyOf = None, ce_key = None \<rparr>"

record precondition_clause =
  pc_row :: row_id
  pc_requirement :: string
  pc_surface :: string
  pc_source :: clause_source
  pc_subject :: clause_subject
  pc_extra :: clause_extra

definition clause ::
  "row_id \<Rightarrow> string \<Rightarrow> string \<Rightarrow> clause_source \<Rightarrow> clause_subject \<Rightarrow> clause_extra \<Rightarrow> precondition_clause" where
  "clause row requirement surface source subject extra =
     \<lparr> pc_row = row, pc_requirement = requirement, pc_surface = surface, pc_source = source, pc_subject = subject,
       pc_extra = extra \<rparr>"

datatype registry_instance = Incident | Milestone

fun reg_filings :: "registry_instance \<Rightarrow> string" where
  "reg_filings Incident = ''storage.incident_registry.filings''"
| "reg_filings Milestone = ''storage.milestone_registry.filings''"

fun reg_closedAt :: "registry_instance \<Rightarrow> string" where
  "reg_closedAt Incident = ''storage.incident_registry.closed_at''"
| "reg_closedAt Milestone = ''storage.milestone_registry.closed_at''"

fun reg_ackRecords :: "registry_instance \<Rightarrow> string" where
  "reg_ackRecords Incident = ''storage.incident_registry.ack_records''"
| "reg_ackRecords Milestone = ''storage.milestone_registry.ack_records''"

subsection \<open>The rows of every call\<close>

definition P1 :: "precondition_clause list" where
  "P1 =
     [clause P_1 ''the owning proposal is Trading or Extended'' ''storage.epoch.proposals'' Storage Chain no_extra,
      clause P_1 ''the book exists and its phase is Open'' ''storage.market.markets'' Storage Chain no_extra,
      clause P_1 ''the quoted cost still satisfies max_cost / min_proceeds'' ''api.quote'' Runtime_api Chain no_extra,
      clause P_1 ''the chain fee rate matches the client's'' ''constant.market.fee'' Constant Chain no_extra,
      clause P_1 ''the raw fee parameter agrees with the metadata constant'' ''api.params'' Runtime_api Chain no_extra,
      clause P_1 ''the trade is within the per-trade minimum'' ''constant.market.min_trade'' Constant Chain no_extra,
      clause P_1 ''the trade is within the per-trade maximum ratio'' ''constant.market.max_trade_ratio'' Constant Chain no_extra,
      clause P_1 ''trading is enabled by the constitution's phase flags'' ''storage.constitution.phase_flags'' Storage Chain no_extra,
      clause P_1 ''the chain's quote and the client's recompute agree'' ''storage.market.markets'' Storage Chain no_extra,
      clause P_1 ''the ledger is not frozen by PB-LEDGER-FREEZE'' ''api.epoch_status'' Runtime_api Chain no_extra,
      clause P_1 ''your USDC balance covers the purchase'' ''storage.foreign_assets.account'' Storage Acting no_extra,
      clause P_1 ''your position balance covers the sale'' ''storage.ledger.positions'' Storage Acting no_extra]"

definition P2 :: "precondition_clause list" where
  "P2 =
     [clause P_2 ''the epoch has a Baseline book'' ''storage.market.baseline_market_of'' Storage Chain no_extra,
      clause P_2 ''that Baseline book exists in Markets'' ''storage.market.markets'' Storage Chain no_extra,
      clause P_2 ''the epoch trading window is open'' ''storage.epoch.epoch_of'' Storage Chain no_extra,
      clause P_2 ''the Baseline vault for the epoch is open'' ''storage.ledger.baseline_vaults'' Storage Chain no_extra,
      clause P_2 ''the trade is within the per-trade minimum'' ''constant.market.min_trade'' Constant Chain no_extra,
      clause P_2 ''the trade is within the per-trade maximum ratio'' ''constant.market.max_trade_ratio'' Constant Chain no_extra,
      clause P_2 ''trading is enabled by the constitution's phase flags'' ''storage.constitution.phase_flags'' Storage Chain no_extra,
      clause P_2 ''the quoted cost still satisfies max_cost / min_proceeds'' ''api.quote'' Runtime_api Chain no_extra,
      clause P_2 ''the chain's quote and the client's recompute agree'' ''storage.market.markets'' Storage Chain no_extra,
      clause P_2 ''the chain fee rate matches the client's'' ''constant.market.fee'' Constant Chain no_extra,
      clause P_2 ''the raw fee parameter agrees with the metadata constant'' ''api.params'' Runtime_api Chain no_extra,
      clause P_2 ''the ledger is not frozen by PB-LEDGER-FREEZE'' ''api.epoch_status'' Runtime_api Chain no_extra,
      clause P_2 ''your USDC balance covers the purchase'' ''storage.foreign_assets.account'' Storage Acting no_extra,
      clause P_2 ''your position balance covers the sale'' ''storage.ledger.positions'' Storage Acting no_extra]"

definition P3 :: "precondition_clause list" where
  "P3 =
     [clause P_3 ''the vault is Open'' ''storage.ledger.vaults'' Storage Chain no_extra,
      clause P_3 ''the acting account's USDC balance covers the amount'' ''storage.foreign_assets.account'' Storage Acting no_extra,
      clause P_3 ''your fee headroom covers the fee in VIT'' ''storage.system.account'' Storage Signer (paid_in VIT),
      clause P_3 ''your fee headroom covers the fee in USDC'' ''storage.foreign_assets.account'' Storage Signer (paid_in USDC),
      clause P_3 ''the amount is at least the minimum split'' ''constant.ledger.min_split'' Constant Chain no_extra,
      clause P_3 ''you have room for each new position key'' ''constant.ledger.max_positions_per_account'' Constant Chain no_extra,
      clause P_3 ''your current position count leaves room'' ''api.account_positions'' Runtime_api Acting no_extra,
      clause P_3 ''the ledger is not frozen by PB-LEDGER-FREEZE'' ''api.epoch_status'' Runtime_api Chain no_extra]"

definition P4 :: "precondition_clause list" where
  "P4 =
     [clause P_4 ''the vault is Open, Resolved or Voided'' ''storage.ledger.vaults'' Storage Chain no_extra,
      clause P_4 ''you hold enough of both sides of the pair'' ''storage.ledger.positions'' Storage Acting no_extra,
      clause P_4 ''the ledger is not frozen by PB-LEDGER-FREEZE'' ''api.epoch_status'' Runtime_api Chain no_extra]"

definition P5 :: "precondition_clause list" where
  "P5 =
     [clause P_5 ''the vault is ScalarSettled'' ''storage.ledger.vaults'' Storage Chain no_extra,
      clause P_5 ''you hold enough winning-branch USDC'' ''storage.ledger.positions'' Storage Acting no_extra]"

definition P6 :: "precondition_clause list" where
  "P6 =
     [clause P_6 ''the vault is ScalarSettled with a settlement value'' ''storage.ledger.vaults'' Storage Chain (any_of ''P-6/settled''),
      clause P_6 ''the Baseline position view is BaselineSettled'' ''storage.ledger.baseline_vaults'' Storage Chain (any_of ''P-6/settled''),
      clause P_6 ''your LONG or SHORT balance covers the amount'' ''storage.ledger.positions'' Storage Acting no_extra,
      clause P_6 ''the redemption-fee constant is readable'' ''constant.ledger.redemption_fee'' Constant Chain no_extra,
      clause P_6 ''the redemption-fee rate agrees with its raw parameter'' ''api.params'' Runtime_api Chain no_extra]"

definition P7 :: "precondition_clause list" where
  "P7 =
     [clause P_7 ''the vault is ScalarSettled'' ''storage.ledger.vaults'' Storage Chain (any_of ''P-7/settled''),
      clause P_7 ''the Baseline position view is BaselineSettled'' ''storage.ledger.baseline_vaults'' Storage Chain (any_of ''P-7/settled''),
      clause P_7 ''you hold at least the amount of both LONG and SHORT'' ''storage.ledger.positions'' Storage Acting no_extra,
      clause P_7 ''the redemption-fee constant is readable'' ''constant.ledger.redemption_fee'' Constant Chain no_extra,
      clause P_7 ''the redemption-fee rate agrees with its raw parameter'' ''api.params'' Runtime_api Chain no_extra]"

definition P8 :: "precondition_clause list" where
  "P8 =
     [clause P_8 ''the vault is Voided'' ''storage.ledger.vaults'' Storage Chain no_extra,
      clause P_8 ''your balance of that position is at least the amount'' ''storage.ledger.positions'' Storage Acting no_extra]"

definition P9 :: "precondition_clause list" where
  "P9 =
     [clause P_9 ''the vault is Open, Resolved or Voided'' ''storage.ledger.vaults'' Storage Chain no_extra,
      clause P_9 ''the recipient has room for another position'' ''constant.ledger.max_positions_per_account'' Constant Recipient no_extra,
      clause P_9 ''the recipient's current position count leaves room'' ''api.account_positions'' Runtime_api Recipient no_extra,
      clause P_9 ''the amount is at least the minimum transfer'' ''constant.ledger.min_transfer'' Constant Chain no_extra,
      clause P_9 ''you hold at least the amount being transferred'' ''storage.ledger.positions'' Storage Acting no_extra,
      clause P_9 ''the recipient can cover the per-entry position deposit'' ''constant.ledger.position_deposit'' Constant Recipient no_extra,
      clause P_9 ''the recipient's USDC balance covers that deposit'' ''storage.foreign_assets.account'' Storage Recipient no_extra,
      clause P_9 ''the recipient is not a protocol account'' ''api.is_reserved_protocol_destination'' Runtime_api Recipient no_extra]"

definition P10 :: "precondition_clause list" where
  "P10 =
     [clause P_10 ''the epoch is in its Intake phase'' ''storage.epoch.epoch_of'' Storage Chain no_extra,
      clause P_10 ''the intake queue has room'' ''storage.epoch.intake_queue'' Storage Chain no_extra,
      clause P_10 ''the intake queue bound is not reached'' ''constant.epoch.max_intake_queue'' Constant Chain no_extra,
      clause P_10 ''the funder is under the per-epoch intake rate limit'' ''api.proposal_summaries'' Runtime_api Acting no_extra,
      clause P_10 ''that rate limit is read live, not assumed'' ''api.params'' Runtime_api Chain no_extra,
      clause P_10 ''your class bond balance in USDC is sufficient'' ''storage.foreign_assets.account'' Storage Acting no_extra,
      clause P_10 ''the payload preimage is noted with a matching hash and length'' ''storage.preimage.preimage_for'' Storage Chain no_extra,
      clause P_10 ''that preimage is pinned and cannot be reaped'' ''storage.preimage.status_for'' Storage Chain no_extra,
      clause P_10 ''every declared resource domain is valid for this class'' ''storage.constitution.capabilities'' Storage Chain no_extra]"

definition P11 :: "precondition_clause list" where
  "P11 =
     [clause P_11 ''the proposal is still Submitted'' ''storage.epoch.proposals'' Storage Chain no_extra,
      clause P_11 ''the epoch has not reached Qualify'' ''storage.epoch.epoch_of'' Storage Chain no_extra,
      clause P_11 ''you are the proposal's author'' ''api.proposal_summaries'' Runtime_api Acting (any_of ''P-11/identity''),
      clause P_11 ''or you are the account that funded its bond'' ''api.proposal_summaries'' Runtime_api Acting (any_of ''P-11/identity'')]"

definition P12 :: "precondition_clause list" where
  "P12 =
     [clause P_12 ''the proposal is queued and not cancelled'' ''storage.execution_guard.queue'' Storage Chain no_extra,
      clause P_12 ''the execution window is open'' ''storage.execution_guard.queue'' Storage Chain no_extra,
      clause P_12 ''the payload preimage is noted and matches the queued hash and length'' ''storage.preimage.preimage_for'' Storage Chain no_extra,
      clause P_12 ''the mandate's runtime-version constraint still matches this runtime'' ''storage.execution_guard.queue'' Storage Chain no_extra,
      clause P_12 ''the mandate is ratified'' ''storage.execution_guard.ratifications'' Storage Chain no_extra,
      clause P_12 ''the attestor quorum is met and unrevoked'' ''storage.attestor.attestations'' Storage Chain no_extra,
      clause P_12 ''the attestations are bound to this payload'' ''storage.execution_guard.attestation_bindings'' Storage Chain no_extra,
      clause P_12 ''every declared call domain's capability rule admits this class origin'' ''storage.constitution.capabilities'' Storage Chain no_extra,
      clause P_12 ''the rate meters admit this execution now'' ''api.execution_queue'' Runtime_api Chain no_extra,
      clause P_12 ''every declared resource domain is still locked to this proposal'' ''storage.execution_guard.held_resources'' Storage Chain no_extra,
      clause P_12 ''the proposal is not suspended or held for rerun'' ''storage.epoch.proposals'' Storage Chain no_extra,
      clause P_12 ''no welfare-gate suspension is active for the current epoch'' ''storage.execution_guard.gate_suspension'' Storage Chain no_extra,
      clause P_12 ''the current epoch is read for that suspension'' ''storage.epoch.epoch_of'' Storage Chain no_extra,
      clause P_12 ''no hard welfare-gate breach is latched'' ''storage.execution_guard.hard_gate_breach'' Storage Chain no_extra,
      clause P_12 ''no hard-gate daily breach flag is set'' ''storage.welfare.gate_breach_flags'' Storage Chain no_extra,
      clause P_12 ''the dead-man switch is not engaged'' ''storage.execution_guard.dead_man_freeze'' Storage Chain no_extra,
      clause P_12 ''the dead-man phase flag is clear'' ''storage.constitution.phase_flags'' Storage Chain no_extra,
      clause P_12 ''PB-LEDGER-FREEZE is clear'' ''storage.constitution.phase_flags'' Storage Chain (any_of ''P-12/ledger-freeze-or-expedited''),
      clause P_12 ''or this proposal holds the expedited exemption'' ''storage.execution_guard.expedited'' Storage Chain (any_of ''P-12/ledger-freeze-or-expedited''),
      clause P_12 ''no migration halt is in force'' ''storage.execution_guard.migration_halt'' Storage Chain (any_of ''P-12/migration-halt-or-expedited''),
      clause P_12 ''or this proposal holds the expedited exemption'' ''storage.execution_guard.expedited'' Storage Chain (any_of ''P-12/migration-halt-or-expedited''),
      clause P_12 ''the decoded batch is within its call, size and weight bounds'' ''api.execution_queue'' Runtime_api Chain no_extra]"

definition P13 :: "precondition_clause list" where
  "P13 =
     [clause P_13 ''the round state for this component and epoch admits this report'' ''storage.oracle.rounds'' Storage Chain (keyed ''round-open''),
      clause P_13 ''the report window has not elapsed'' ''storage.oracle.rounds'' Storage Chain (keyed ''report-window''),
      clause P_13 ''you are a registered reporter'' ''storage.oracle.reporters'' Storage Acting (keyed ''registered''),
      clause P_13 ''your reporter stake is held in full'' ''storage.oracle.reporters'' Storage Acting (keyed ''stake-held''),
      clause P_13 ''the bond this report will hold, priced at B-prime'' ''api.bond_quote'' Runtime_api Chain (keyed ''bond-quote''),
      clause P_13 ''your USDC balance covers that bond'' ''storage.foreign_assets.account'' Storage Acting (keyed ''bond-headroom''),
      clause P_13 ''an evidence hash is attached to the report'' ''storage.oracle.rounds'' Storage Chain (keyed ''evidence'')]"

definition P14 :: "precondition_clause list" where
  "P14 =
     [clause P_14 ''the round is open and its challenge window has not elapsed'' ''storage.oracle.rounds'' Storage Chain no_extra,
      clause P_14 ''any watchtower-quorum extension is accounted for'' ''storage.oracle.watchtowers'' Storage Chain no_extra,
      clause P_14 ''the current escalation round sets the bond multiple'' ''storage.oracle.rounds'' Storage Chain no_extra,
      clause P_14 ''your USDC balance covers the escalated bond'' ''storage.foreign_assets.account'' Storage Acting no_extra]"

definition P15 :: "precondition_clause list" where
  "P15 =
     [clause P_15 ''this crank's own staleness condition holds'' ''storage.epoch.epoch_of'' Storage Chain no_extra]"

definition feeHeadroom :: "row_id \<Rightarrow> precondition_clause list" where
  "feeHeadroom row =
     [clause row ''your fee headroom covers the fee in VIT'' ''storage.system.account'' Storage Signer (paid_in VIT \<lparr> ce_key := Some ''fee-headroom'' \<rparr>),
      clause row ''your fee headroom covers the fee in USDC'' ''storage.foreign_assets.account'' Storage Signer (paid_in USDC \<lparr> ce_key := Some ''fee-headroom'' \<rparr>)]"

definition O1 :: "precondition_clause list" where
  "O1 =
     [clause O_1 ''you are not already in the reporter registry'' ''storage.oracle.reporters'' Storage Acting (keyed ''not-registered''),
      clause O_1 ''the reporter stake is read live'' ''api.params'' Runtime_api Chain (keyed ''stake-amount''),
      clause O_1 ''your free USDC covers the reporter stake'' ''storage.foreign_assets.account'' Storage Acting (keyed ''stake-headroom'')]
     @ feeHeadroom O_1"

definition O2 :: "precondition_clause list" where
  "O2 =
     [clause O_2 ''the round is open'' ''storage.oracle.rounds'' Storage Chain (keyed ''round-open''),
      clause O_2 ''this component's frozen MetricSpec permits deterministic recomputation'' ''storage.welfare.metric_specs'' Storage Chain (keyed ''deterministic'')]
     @ feeHeadroom O_2"

definition O3 :: "precondition_clause list" where
  "O3 =
     [clause O_3 ''you are a guardian'' ''storage.guardian.members'' Storage Acting (keyed ''member''),
      clause O_3 ''the approval threshold and seat count are read live'' ''constant.guardian.guardian_threshold'' Constant Chain (keyed ''threshold''),
      clause O_3 ''the action is pending and has not expired'' ''storage.guardian.pending_actions'' Storage Chain (keyed ''pending''),
      clause O_3 ''you have not already approved this action'' ''storage.guardian.approvals'' Storage Acting (keyed ''not-approved''),
      clause O_3 ''the enumerated call batch's preimage is noted'' ''storage.preimage.preimage_for'' Storage Chain (keyed ''batch-preimage''),
      clause O_3 ''this action's power still has allowance'' ''storage.guardian.allowances'' Storage Chain (keyed ''allowance''),
      clause O_3 ''the delay_once allowance per epoch is read at B-prime'' ''constant.guardian.delay_once_allowance_per_epoch'' Constant Chain (keyed ''allowance-limit-delay-once''),
      clause O_3 ''the force_rerun allowance per epoch is read at B-prime'' ''constant.guardian.force_rerun_allowance_per_epoch'' Constant Chain (keyed ''allowance-limit-force-rerun''),
      clause O_3 ''the pause_intake allowance per window is read at B-prime'' ''constant.guardian.pause_intake_allowance'' Constant Chain (keyed ''allowance-limit-pause-intake''),
      clause O_3 ''the pause_intake allowance window length is read at B-prime'' ''constant.guardian.pause_intake_allowance_window_epochs'' Constant Chain (keyed ''allowance-window-pause-intake''),
      clause O_3 ''the epoch the pause_intake window is measured from'' ''storage.epoch.epoch_of'' Storage Chain (keyed ''allowance-window-epoch''),
      clause O_3 ''the playbook an activation names is registered on this chain'' ''storage.guardian.playbook_registered'' Storage Chain (keyed ''playbook-registered''),
      clause O_3 ''no PB-LEDGER-FREEZE record is already active'' ''storage.guardian.active_playbooks'' Storage Chain (keyed ''playbook-not-already-active''),
      clause O_3 ''the dead-man and reserve-health trigger flags are read at B-prime'' ''storage.constitution.phase_flags'' Storage Chain (keyed ''trigger-phase-flags''),
      clause O_3 ''the gate-breach trigger flag for the current epoch is read at B-prime'' ''storage.welfare.gate_breach_flags'' Storage Chain (keyed ''trigger-gate-breach''),
      clause O_3 ''the current epoch the gate-breach flag is keyed to'' ''storage.epoch.epoch_of'' Storage Chain (keyed ''trigger-epoch''),
      clause O_3 ''the migration-halt trigger is read at B-prime'' ''storage.execution_guard.migration_halt'' Storage Chain (keyed ''trigger-migration-halt''),
      clause O_3 ''the pending-VOID latch, for this cohort and chain-wide'' ''storage.epoch.pending_oracle_voids'' Storage Chain (keyed ''trigger-pending-void''),
      clause O_3 ''the I-4 ledger-drift latch is read at B-prime'' ''storage.ledger.ledger_drifted'' Storage Chain (keyed ''trigger-ledger-drift''),
      clause O_3 ''the longest hold this chain admits is read at B-prime'' ''constant.guardian.playbook_freeze_window_blocks'' Constant Chain (keyed ''hold-window''),
      clause O_3 ''the proposal a rerun action names is in a state that admits it'' ''storage.epoch.proposals'' Storage Chain (keyed ''rerun-state'')]
     @ feeHeadroom O_3"

definition O4 :: "precondition_clause list" where
  "O4 =
     [clause O_4 ''you are a guardian'' ''storage.guardian.members'' Storage Acting (keyed ''member''),
      clause O_4 ''this power's allowance has room'' ''storage.guardian.allowances'' Storage Chain (keyed ''allowance''),
      clause O_4 ''the delay_once allowance per epoch is read at B-prime'' ''constant.guardian.delay_once_allowance_per_epoch'' Constant Chain (keyed ''allowance-limit-delay-once''),
      clause O_4 ''the force_rerun allowance per epoch is read at B-prime'' ''constant.guardian.force_rerun_allowance_per_epoch'' Constant Chain (keyed ''allowance-limit-force-rerun''),
      clause O_4 ''the pause_intake allowance per window is read at B-prime'' ''constant.guardian.pause_intake_allowance'' Constant Chain (keyed ''allowance-limit-pause-intake''),
      clause O_4 ''the pause_intake allowance window length is read at B-prime'' ''constant.guardian.pause_intake_allowance_window_epochs'' Constant Chain (keyed ''allowance-window-pause-intake''),
      clause O_4 ''the epoch the pause_intake window is measured from'' ''storage.epoch.epoch_of'' Storage Chain (keyed ''allowance-window-epoch''),
      clause O_4 ''the playbook an activation names is registered on this chain'' ''storage.guardian.playbook_registered'' Storage Chain (keyed ''playbook-registered''),
      clause O_4 ''no PB-LEDGER-FREEZE record is already active'' ''storage.guardian.active_playbooks'' Storage Chain (keyed ''playbook-not-already-active''),
      clause O_4 ''the pending-action queue is read at B-prime'' ''storage.guardian.pending_actions'' Storage Chain (keyed ''pending-count''),
      clause O_4 ''the dead-man and reserve-health trigger flags are read at B-prime'' ''storage.constitution.phase_flags'' Storage Chain (keyed ''trigger-phase-flags''),
      clause O_4 ''the gate-breach trigger flag for the current epoch is read at B-prime'' ''storage.welfare.gate_breach_flags'' Storage Chain (keyed ''trigger-gate-breach''),
      clause O_4 ''the current epoch the gate-breach flag is keyed to'' ''storage.epoch.epoch_of'' Storage Chain (keyed ''trigger-epoch''),
      clause O_4 ''the migration-halt trigger is read at B-prime'' ''storage.execution_guard.migration_halt'' Storage Chain (keyed ''trigger-migration-halt''),
      clause O_4 ''the pending-VOID latch, for this cohort and chain-wide'' ''storage.epoch.pending_oracle_voids'' Storage Chain (keyed ''trigger-pending-void''),
      clause O_4 ''the I-4 ledger-drift latch is read at B-prime'' ''storage.ledger.ledger_drifted'' Storage Chain (keyed ''trigger-ledger-drift''),
      clause O_4 ''the longest hold this chain admits is read at B-prime'' ''constant.guardian.playbook_freeze_window_blocks'' Constant Chain (keyed ''hold-window''),
      clause O_4 ''the proposal a rerun power names is in a state that admits it'' ''storage.epoch.proposals'' Storage Chain (keyed ''rerun-state'')]
     @ feeHeadroom O_4"

definition O5 :: "precondition_clause list" where
  "O5 =
     [clause O_5 ''the treasury view the chain publishes is read at B-prime'' ''api.nav'' Runtime_api Chain (keyed ''nav''),
      clause O_5 ''this runtime can pay a stream claim at all'' ''api.nav'' Runtime_api Chain (keyed ''claims-wired''),
      clause O_5 ''this stream is one of yours at B-prime'' ''api.treasury_streams'' Runtime_api Acting (keyed ''stream-yours''),
      clause O_5 ''the stream has not been cancelled'' ''api.treasury_streams'' Runtime_api Acting (keyed ''stream-live''),
      clause O_5 ''the amount claimable now is above zero'' ''api.treasury_streams'' Runtime_api Acting (keyed ''claimable'')]
     @ feeHeadroom O_5"

definition O6 :: "precondition_clause list" where
  "O6 =
     [clause O_6 ''the chain has an authorized upgrade, and this artifact hashes to it'' ''storage.system.authorized_upgrade'' Storage Chain (keyed ''authorized-hash''),
      clause O_6 ''the upgrade's stored applicable_at has been reached'' ''storage.execution_guard.pending_upgrade'' Storage Chain (keyed ''applicable-at'')]
     @ feeHeadroom O_6"

definition O7 :: "precondition_clause list" where
  "O7 =
     [clause O_7 ''the epoch boundary has passed'' ''storage.epoch.epoch_of'' Storage Chain (keyed ''boundary''),
      clause O_7 ''no snapshot exists for this epoch at this MetricSpec version'' ''storage.welfare.snapshots'' Storage Chain (keyed ''not-taken''),
      clause O_7 ''the MetricSpec version this snapshot would record'' ''storage.welfare.metric_specs'' Storage Chain (keyed ''spec-version'')]
     @ feeHeadroom O_7"

definition o8For :: "registry_instance \<Rightarrow> precondition_clause list" where
  "o8For instance =
     [clause O_8 ''this registry instance has room for another filing this epoch'' (reg_filings instance) Storage Chain (keyed ''occupancy''),
      clause O_8 ''this epoch is not already closed at the MetricSpec version this filing names'' (reg_closedAt instance) Storage Chain (keyed ''not-final''),
      clause O_8 ''the bond this filing will hold, priced at B-prime'' ''api.bond_quote'' Runtime_api Chain (keyed ''bond-quote''),
      clause O_8 ''your free USDC covers the filing bond'' ''storage.foreign_assets.account'' Storage Acting (keyed ''bond-headroom''),
      clause O_8 ''the MetricSpec version this filing names is one the cohorts froze for this epoch'' ''storage.epoch.cohort_schedules'' Storage Chain (keyed ''frozen-spec-version'')]
     @ feeHeadroom O_8"

definition o9For :: "registry_instance \<Rightarrow> precondition_clause list" where
  "o9For instance =
     [clause O_9 ''the filing exists and its challenge window has not closed'' (reg_filings instance) Storage Chain (keyed ''window''),
      clause O_9 ''the registry epoch is not already closed'' (reg_closedAt instance) Storage Chain (keyed ''not-closed''),
      clause O_9 ''any watchtower-quorum extension of the window is accounted for'' (reg_ackRecords instance) Storage Chain (keyed ''extension''),
      clause O_9 ''your free USDC covers the challenge bond'' ''storage.foreign_assets.account'' Storage Acting (keyed ''bond-headroom'')]
     @ feeHeadroom O_9"

definition O8 :: "precondition_clause list" where
  "O8 = o8For Incident"

definition O9 :: "precondition_clause list" where
  "O9 = o9For Incident"


subsection \<open>The governance rows\<close>

record governance_clause =
  gc_row :: governance_row_id
  gc_requirement :: string
  gc_surface :: string
  gc_source :: clause_source
  gc_subject :: clause_subject
  gc_aboveTheFold :: bool

definition gov_clause ::
  "governance_row_id \<Rightarrow> string \<Rightarrow> string \<Rightarrow> clause_source \<Rightarrow> clause_subject \<Rightarrow> bool \<Rightarrow> governance_clause" where
  "gov_clause row requirement surface source subject shown =
     \<lparr> gc_row = row, gc_requirement = requirement, gc_surface = surface, gc_source = source, gc_subject = subject,
       gc_aboveTheFold = shown \<rparr>"

definition G1 :: "governance_clause list" where
  "G1 =
     [gov_clause G_1 ''the referendum is still Ongoing'' ''storage.referenda.referendum_info_for'' Storage Chain False,
      gov_clause G_1 ''your vote balance is within your free VIT'' ''storage.conviction_voting.voting_for'' Storage Acting False,
      gov_clause G_1 ''the tokens this vote locks, and for how long, shown before you sign'' ''storage.conviction_voting.class_locks_for'' Storage Acting True]"

definition G2 :: "governance_clause list" where
  "G2 =
     [gov_clause G_2 ''you have no direct votes recorded in this class -- remove them first'' ''storage.conviction_voting.voting_for'' Storage Acting False,
      gov_clause G_2 ''the account you are delegating to, as the chain resolves it'' ''storage.conviction_voting.voting_for'' Storage Recipient False,
      gov_clause G_2 ''the tokens this delegation locks, and for how long'' ''storage.conviction_voting.class_locks_for'' Storage Acting True]"

definition G3 :: "governance_clause list" where
  "G3 =
     [gov_clause G_3 ''you are currently delegating in this class'' ''storage.conviction_voting.voting_for'' Storage Acting False]"

definition G4 :: "governance_clause list" where
  "G4 =
     [gov_clause G_4 ''the vote exists'' ''storage.conviction_voting.voting_for'' Storage Acting False,
      gov_clause G_4 ''the referendum has ended, or removal is otherwise allowed'' ''storage.referenda.referendum_info_for'' Storage Chain False]"

definition G5 :: "governance_clause list" where
  "G5 =
     [gov_clause G_5 ''the lock on that account has expired -- otherwise the exact time remaining'' ''storage.conviction_voting.class_locks_for'' Storage Recipient False]"

definition G6 :: "governance_clause list" where
  "G6 =
     [gov_clause G_6 ''the track's submission deposit is within your free VIT'' ''storage.referenda.track_queue'' Storage Signer False,
      gov_clause G_6 ''the call is one this track admits'' ''storage.referenda.referendum_count'' Storage Chain False,
      gov_clause G_6 ''the preimage is noted and its hash matches the call'' ''storage.preimage.preimage_for'' Storage Chain False]"

definition G7 :: "governance_clause list" where
  "G7 =
     [gov_clause G_7 ''the referendum is still Preparing'' ''storage.referenda.referendum_info_for'' Storage Chain False,
      gov_clause G_7 ''the decision deposit is within your free VIT'' ''storage.referenda.deciding_count'' Storage Signer False]"

definition G8 :: "governance_clause list" where
  "G8 =
     [gov_clause G_8 ''the referendum has reached a terminal state'' ''storage.referenda.referendum_info_for'' Storage Chain False]"

definition G9 :: "governance_clause list" where
  "G9 =
     [gov_clause G_9 ''you are the proposal's proposer'' ''storage.execution_guard.queue'' Storage Acting False,
      gov_clause G_9 ''the referendum is live on the ratify track'' ''storage.referenda.referendum_info_for'' Storage Chain False,
      gov_clause G_9 ''its preimage decodes to ratify for exactly this proposal and index'' ''storage.preimage.preimage_for'' Storage Chain False,
      gov_clause G_9 ''the artifact commitment is unchanged'' ''storage.execution_guard.attestation_bindings'' Storage Chain False]"

fun ALL_ROWS :: "row_id \<Rightarrow> precondition_clause list" where
  "ALL_ROWS P_1 = P1"
| "ALL_ROWS P_2 = P2"
| "ALL_ROWS P_3 = P3"
| "ALL_ROWS P_4 = P4"
| "ALL_ROWS P_5 = P5"
| "ALL_ROWS P_6 = P6"
| "ALL_ROWS P_7 = P7"
| "ALL_ROWS P_8 = P8"
| "ALL_ROWS P_9 = P9"
| "ALL_ROWS P_10 = P10"
| "ALL_ROWS P_11 = P11"
| "ALL_ROWS P_12 = P12"
| "ALL_ROWS P_13 = P13"
| "ALL_ROWS P_14 = P14"
| "ALL_ROWS P_15 = P15"
| "ALL_ROWS O_1 = O1"
| "ALL_ROWS O_2 = O2"
| "ALL_ROWS O_3 = O3"
| "ALL_ROWS O_4 = O4"
| "ALL_ROWS O_5 = O5"
| "ALL_ROWS O_6 = O6"
| "ALL_ROWS O_7 = O7"
| "ALL_ROWS O_8 = O8"
| "ALL_ROWS O_9 = O9"

definition ROW_IDS :: "row_id list" where
  "ROW_IDS = [P_1, P_2, P_3, P_4, P_5, P_6, P_7, P_8, P_9, P_10, P_11, P_12, P_13, P_14, P_15, O_1, O_2, O_3, O_4, O_5, O_6, O_7, O_8, O_9]"

definition ALL_CLAUSES :: "precondition_clause list" where
  "ALL_CLAUSES = concat (map ALL_ROWS ROW_IDS)"

fun GOVERNANCE_ROWS :: "governance_row_id \<Rightarrow> governance_clause list" where
  "GOVERNANCE_ROWS G_1 = G1"
| "GOVERNANCE_ROWS G_2 = G2"
| "GOVERNANCE_ROWS G_3 = G3"
| "GOVERNANCE_ROWS G_4 = G4"
| "GOVERNANCE_ROWS G_5 = G5"
| "GOVERNANCE_ROWS G_6 = G6"
| "GOVERNANCE_ROWS G_7 = G7"
| "GOVERNANCE_ROWS G_8 = G8"
| "GOVERNANCE_ROWS G_9 = G9"

definition GOVERNANCE_ROW_IDS :: "governance_row_id list" where
  "GOVERNANCE_ROW_IDS = [G_1, G_2, G_3, G_4, G_5, G_6, G_7, G_8, G_9]"

subsection \<open>Selecting the clauses of a row\<close>

datatype rows_error =
    No_clauses row_id | All_filtered row_id fee_asset | Coverage_collision row_id string | Governance_duplicate governance_row_id string
  | No_recipient row_id

definition rowsFor :: "row_id \<Rightarrow> fee_asset \<Rightarrow> (rows_error, precondition_clause list) result" where
  "rowsFor i feeAsset =
     (let rows = ALL_ROWS i in
      if length rows = 0 then Inl (No_clauses i)
      else
        let selected = filter (\<lambda>c. ce_feeAsset (pc_extra c) = None \<or> ce_feeAsset (pc_extra c) = Some feeAsset) rows in
        if length selected = 0 then Inl (All_filtered i feeAsset) else Inr selected)"

text \<open>
  The groups under construction: each with the \<open>anyOf\<close> it stands for, in order of
  their first clause.
\<close>

definition add_to_group ::
  "(string option \<times> precondition_clause list) list \<Rightarrow> precondition_clause \<Rightarrow> (string option \<times> precondition_clause list) list" where
  "add_to_group groups entry =
     (case ce_anyOf (pc_extra entry) of
        None \<Rightarrow> groups @ [(None, [entry])]
      | Some g \<Rightarrow>
          if Some g \<in> set (map fst groups)
          then map (\<lambda>(k, cs). if k = Some g then (k, cs @ [entry]) else (k, cs)) groups
          else groups @ [(Some g, [entry])])"

definition clauseGroupsFor :: "row_id \<Rightarrow> fee_asset \<Rightarrow> (rows_error, precondition_clause list list) result" where
  "clauseGroupsFor i feeAsset =
     (case rowsFor i feeAsset of
        Inl e \<Rightarrow> Inl e
      | Inr entries \<Rightarrow> Inr (map snd (foldl add_to_group [] entries)))"

definition clauseCoverageId :: "precondition_clause \<Rightarrow> string" where
  "clauseCoverageId entry =
     row_name (pc_row entry) @ ''/'' @
     (case ce_anyOf (pc_extra entry) of Some g \<Rightarrow> g
      | None \<Rightarrow> (case ce_key (pc_extra entry) of Some k \<Rightarrow> k | None \<Rightarrow> pc_requirement entry))"

fun coverage_loop :: "row_id \<Rightarrow> string list \<Rightarrow> precondition_clause list list \<Rightarrow> (rows_error, string list) result" where
  "coverage_loop i seen [] = Inr seen"
| "coverage_loop i seen ([] # groups) = coverage_loop i seen groups"
| "coverage_loop i seen ((first # members) # groups) =
     (let coverageId = clauseCoverageId first in
      if coverageId \<in> set seen then Inl (Coverage_collision i coverageId)
      else coverage_loop i (seen @ [coverageId]) groups)"

definition clauseCoverageIds :: "row_id \<Rightarrow> fee_asset \<Rightarrow> (rows_error, string list) result" where
  "clauseCoverageIds i feeAsset =
     (case clauseGroupsFor i feeAsset of Inl e \<Rightarrow> Inl e | Inr groups \<Rightarrow> coverage_loop i [] groups)"

fun gov_coverage_loop :: "governance_row_id \<Rightarrow> string list \<Rightarrow> governance_clause list \<Rightarrow> (rows_error, string list) result" where
  "gov_coverage_loop row seen [] = Inr seen"
| "gov_coverage_loop row seen (entry # entries) =
     (let coverageId = governance_row_name (gc_row entry) @ ''/'' @ gc_requirement entry in
      if coverageId \<in> set seen then Inl (Governance_duplicate row (gc_requirement entry))
      else gov_coverage_loop row (seen @ [coverageId]) entries)"

definition governanceCoverageIds :: "governance_row_id \<Rightarrow> (rows_error, string list) result" where
  "governanceCoverageIds row = gov_coverage_loop row [] (GOVERNANCE_ROWS row)"

definition aboveTheFoldClauses :: "governance_clause list" where
  "aboveTheFoldClauses = concat (map (\<lambda>row. filter gc_aboveTheFold (GOVERNANCE_ROWS row)) GOVERNANCE_ROW_IDS)"

text \<open>A row a preparation may declare, of either table, and what it demands.\<close>

datatype declarable_row = Call_row row_id | Governance_row governance_row_id

definition declaredCoverageIds :: "declarable_row \<Rightarrow> fee_asset \<Rightarrow> (rows_error, string list) result" where
  "declaredCoverageIds row feeAsset =
     (case row of Governance_row g \<Rightarrow> governanceCoverageIds g | Call_row i \<Rightarrow> clauseCoverageIds i feeAsset)"

text \<open>The lookup in the record \<open>operatorRowsFor\<close> builds; the source indexes it by O rows only.\<close>

definition operatorRowsFor :: "registry_instance \<Rightarrow> row_id \<Rightarrow> precondition_clause list" where
  "operatorRowsFor instance i = (if i = O_8 then o8For instance else if i = O_9 then o9For instance else ALL_ROWS i)"

subsection \<open>Calls and cranks\<close>

datatype operator_call =
    Register_reporter | Recompute_proof | Approve_action | Propose_action | Claim_stream | Apply_authorized_upgrade
  | Record_snapshot | Registry_file | Registry_challenge

fun OPERATOR_CALL_ROWS :: "operator_call \<Rightarrow> row_id" where
  "OPERATOR_CALL_ROWS Register_reporter = O_1"
| "OPERATOR_CALL_ROWS Recompute_proof = O_2"
| "OPERATOR_CALL_ROWS Approve_action = O_3"
| "OPERATOR_CALL_ROWS Propose_action = O_4"
| "OPERATOR_CALL_ROWS Claim_stream = O_5"
| "OPERATOR_CALL_ROWS Apply_authorized_upgrade = O_6"
| "OPERATOR_CALL_ROWS Record_snapshot = O_7"
| "OPERATOR_CALL_ROWS Registry_file = O_8"
| "OPERATOR_CALL_ROWS Registry_challenge = O_9"

datatype operator_surface_call = Operator_call operator_call | Oracle_report | Oracle_challenge

fun OPERATOR_SURFACE_ROWS :: "operator_surface_call \<Rightarrow> row_id" where
  "OPERATOR_SURFACE_ROWS (Operator_call c) = OPERATOR_CALL_ROWS c"
| "OPERATOR_SURFACE_ROWS Oracle_report = P_13"
| "OPERATOR_SURFACE_ROWS Oracle_challenge = P_14"

datatype crank_call =
    Epoch_tick | Crank_observe | Market_reap | Settle_cohort | Sweep_revenue | Sweep_redemption_fees | Welfare_record_snapshot

datatype crank_staleness = Readable precondition_clause | Unreadable_surface string

definition readable :: "string \<Rightarrow> string \<Rightarrow> clause_source \<Rightarrow> crank_staleness" where
  "readable requirement surface source = Readable (clause P_15 requirement surface source Chain no_extra)"

fun CRANK_STALENESS :: "crank_call \<Rightarrow> crank_staleness" where
  "CRANK_STALENESS Epoch_tick = readable ''the epoch has reached its next boundary'' ''storage.epoch.epoch_of'' Storage"
| "CRANK_STALENESS Crank_observe = readable ''an observation window is due on this book'' ''storage.market.markets'' Storage"
| "CRANK_STALENESS Market_reap = readable ''this book is archivable'' ''storage.market.markets'' Storage"
| "CRANK_STALENESS Settle_cohort = readable ''the cohort has reached its settlement point'' ''storage.epoch.cohorts'' Storage"
| "CRANK_STALENESS Sweep_revenue = Unreadable_surface ''accrued market revenue''"
| "CRANK_STALENESS Sweep_redemption_fees = Unreadable_surface ''accrued redemption fees''"
| "CRANK_STALENESS Welfare_record_snapshot =
     readable ''no snapshot exists for this epoch at this MetricSpec version'' ''storage.welfare.snapshots'' Storage"

definition crankStaleness :: "crank_call \<Rightarrow> crank_staleness" where
  "crankStaleness call = CRANK_STALENESS call"

subsection \<open>Obligations nothing can read\<close>

datatype guardian_power = Pause_intake | Delay_once | Force_rerun | Activate_playbook | Suspend_on_gate

datatype playbook_id = Pb_depeg | Pb_migration | Pb_oracle_void | Pb_halt_intake | Pb_reserve | Pb_ledger_freeze

record obligation_scope =
  os_power :: guardian_power
  os_playbook :: "playbook_id option"

datatype disposition = Stated_only | Blocking

record unreadable_obligation =
  uo_row :: row_id
  uo_requirement :: string
  uo_specQuestion :: string
  uo_disposition :: disposition
  uo_scope :: "obligation_scope option"

definition unread :: "row_id \<Rightarrow> string \<Rightarrow> string \<Rightarrow> disposition \<Rightarrow> obligation_scope option \<Rightarrow> unreadable_obligation" where
  "unread row requirement specQuestion disposition scope =
     \<lparr> uo_row = row, uo_requirement = requirement, uo_specQuestion = specQuestion, uo_disposition = disposition, uo_scope = scope \<rparr>"

definition UNREADABLE :: "row_id \<Rightarrow> unreadable_obligation list" where
  "UNREADABLE i =
     (if i = O_1 then
        [unread O_1 ''your account carries no retained 07 sec. 3 ejection'' ''SQ-564'' Stated_only None,
         unread O_1 ''permissionless entry is not closed by the sec. 3 saturation clause'' ''SQ-564'' Stated_only None]
      else if i = O_3 then
        [unread O_3 ''the chain has room for another retrospective review record'' ''SQ-1022'' Stated_only None]
      else [])"

definition unreadableObligationsFor :: "row_id \<Rightarrow> unreadable_obligation list" where
  "unreadableObligationsFor i = UNREADABLE i"

definition obligationAppliesTo :: "unreadable_obligation \<Rightarrow> obligation_scope option \<Rightarrow> bool" where
  "obligationAppliesTo entry subject =
     (case (uo_scope entry, subject) of
        (Some scope, Some s) \<Rightarrow>
          if os_power scope \<noteq> os_power s then False
          else os_playbook scope = None \<or> os_playbook scope = os_playbook s
      | _ \<Rightarrow> True)"

definition scopedObligationsFor :: "row_id \<Rightarrow> obligation_scope option \<Rightarrow> unreadable_obligation list" where
  "scopedObligationsFor i subject = filter (\<lambda>entry. obligationAppliesTo entry subject) (unreadableObligationsFor i)"

definition blockingObligationsFor :: "row_id \<Rightarrow> obligation_scope option \<Rightarrow> unreadable_obligation list" where
  "blockingObligationsFor i subject = filter (\<lambda>entry. uo_disposition entry = Blocking) (scopedObligationsFor i subject)"

subsection \<open>Whose account a clause reads\<close>

definition accountForClause ::
  "precondition_clause \<Rightarrow> call_wrapper \<Rightarrow> account_id \<Rightarrow> account_id option \<Rightarrow> (rows_error, account_id option) result" where
  "accountForClause entry wrapper signer recipient =
     (case pc_subject entry of
        Chain \<Rightarrow> Inr None
      | Acting \<Rightarrow> Inr (Some (actingAccount wrapper signer))
      | Signer \<Rightarrow> Inr (Some (feePayer wrapper signer))
      | Recipient \<Rightarrow> (case recipient of None \<Rightarrow> Inl (No_recipient (pc_row entry)) | Some r \<Rightarrow> Inr (Some r)))"

definition clausesNeedingOtherAccounts ::
  "row_id \<Rightarrow> call_wrapper \<Rightarrow> account_id \<Rightarrow> fee_asset \<Rightarrow> (rows_error, precondition_clause list) result" where
  "clausesNeedingOtherAccounts i wrapper signer feeAsset =
     (case rowsFor i feeAsset of
        Inl e \<Rightarrow> Inl e
      | Inr entries \<Rightarrow> Inr (filter (\<lambda>entry.
          if pc_subject entry = Recipient then True
          else (case accountForClause entry wrapper signer None of
                  Inr (Some account) \<Rightarrow> account \<noteq> signer | _ \<Rightarrow> False)) entries))"

subsection \<open>Facts about groups and coverage\<close>

definition group_ok :: "string option \<times> precondition_clause list \<Rightarrow> bool" where
  "group_ok g \<longleftrightarrow> snd g \<noteq> [] \<and> (\<forall>c \<in> set (snd g). ce_anyOf (pc_extra c) = fst g) \<and> (fst g = None \<longrightarrow> length (snd g) = 1)"

lemma add_to_group_ok:
  assumes "\<forall>g \<in> set groups. group_ok g"
  shows "\<forall>g \<in> set (add_to_group groups c). group_ok g"
    "\<Union> (set ` snd ` set (add_to_group groups c)) = insert c (\<Union> (set ` snd ` set groups))"
proof -
  have rewritten: "group_ok (k, cs @ [c])" if "(k, cs) \<in> set groups" "k = Some g" "ce_anyOf (pc_extra c) = Some g" for k cs g
    using assms that by (auto simp: group_ok_def)
  show "\<forall>g \<in> set (add_to_group groups c). group_ok g"
    using assms rewritten by (auto simp: add_to_group_def group_ok_def split: option.split if_splits)
  show "\<Union> (set ` snd ` set (add_to_group groups c)) = insert c (\<Union> (set ` snd ` set groups))"
    by (auto simp: add_to_group_def image_iff split: option.split if_splits)
qed

lemma groups_ok:
  assumes "\<forall>g \<in> set groups. group_ok g"
  shows "\<forall>g \<in> set (foldl add_to_group groups cs). group_ok g"
    "\<Union> (set ` snd ` set (foldl add_to_group groups cs)) = set cs \<union> \<Union> (set ` snd ` set groups)"
proof -
  have "(\<forall>g \<in> set (foldl add_to_group groups cs). group_ok g) \<and>
      \<Union> (set ` snd ` set (foldl add_to_group groups cs)) = set cs \<union> \<Union> (set ` snd ` set groups)"
    using assms
  proof (induction cs arbitrary: groups)
    case (Cons c cs)
    then show ?case using add_to_group_ok [OF Cons.prems, of c] by simp
  qed simp
  then show "\<forall>g \<in> set (foldl add_to_group groups cs). group_ok g"
    "\<Union> (set ` snd ` set (foldl add_to_group groups cs)) = set cs \<union> \<Union> (set ` snd ` set groups)" by blast+
qed

lemma coverage_loop_Inr:
  assumes "coverage_loop i seen groups = Inr ids" "distinct seen" "\<forall>g \<in> set groups. g \<noteq> []"
  shows "ids = seen @ map (\<lambda>g. clauseCoverageId (hd g)) groups \<and> distinct ids"
  using assms
proof (induction groups arbitrary: seen)
  case (Cons g groups)
  then obtain c cs where g: "g = c # cs" by (cases g) auto
  have new: "clauseCoverageId c \<notin> set seen" and step: "coverage_loop i (seen @ [clauseCoverageId c]) groups = Inr ids"
    using Cons.prems(1) by (simp_all add: g Let_def split: if_splits)
  have "ids = (seen @ [clauseCoverageId c]) @ map (\<lambda>g. clauseCoverageId (hd g)) groups \<and> distinct ids"
    using new Cons.prems(2,3) by (intro Cons.IH [OF step]) simp_all
  then show ?case unfolding g list.map list.sel append.simps append_assoc .
qed simp

lemma gov_coverage_loop_Inr:
  assumes "gov_coverage_loop i seen entries = Inr ids" "distinct seen"
  shows "ids = seen @ map (\<lambda>e. governance_row_name (gc_row e) @ ''/'' @ gc_requirement e) entries \<and> distinct ids"
  using assms
proof (induction entries arbitrary: seen)
  case (Cons e entries)
  let ?id = "governance_row_name (gc_row e) @ ''/'' @ gc_requirement e"
  have new: "?id \<notin> set seen" and step: "gov_coverage_loop i (seen @ [?id]) entries = Inr ids"
    using Cons.prems(1) unfolding gov_coverage_loop.simps Let_def by (simp_all only: split: if_splits) simp_all
  have "ids = (seen @ [?id]) @ map (\<lambda>e. governance_row_name (gc_row e) @ ''/'' @ gc_requirement e) entries \<and> distinct ids"
    using new Cons.prems(2) by (intro Cons.IH [OF step]) simp
  then show ?case unfolding list.map append.simps append_assoc .
qed simp

definition applying :: "row_id \<Rightarrow> fee_asset \<Rightarrow> precondition_clause list" where
  "applying i a = filter (\<lambda>c. ce_feeAsset (pc_extra c) = None \<or> ce_feeAsset (pc_extra c) = Some a) (ALL_ROWS i)"

lemma rowsFor_applying: "rowsFor i a = Inr cs \<Longrightarrow> cs = applying i a \<and> cs \<noteq> []"
  by (auto simp: rowsFor_def applying_def Let_def split: if_splits)

lemma clauseCoverageIds_Inr:
  assumes "clauseCoverageIds i a = Inr ids" "list_all (\<lambda>c. pc_row c = i) (ALL_ROWS i)"
  shows "distinct ids" "ids \<noteq> []" "set ids = clauseCoverageId ` set (applying i a)"
    "c \<in> set (applying i a) \<Longrightarrow> c' \<in> set (applying i a) \<Longrightarrow> clauseCoverageId c = clauseCoverageId c' \<Longrightarrow>
      c = c' \<or> ce_anyOf (pc_extra c) = ce_anyOf (pc_extra c') \<and> ce_anyOf (pc_extra c) \<noteq> None"
proof -
  define groups where "groups = foldl add_to_group [] (applying i a)"
  have loop: "coverage_loop i [] (map snd groups) = Inr ids" and ne: "applying i a \<noteq> []"
    using assms(1) rowsFor_applying [of i a]
    by (auto simp: clauseCoverageIds_def clauseGroupsFor_def groups_def split: sum.splits)
  have ok: "\<forall>g \<in> set groups. group_ok g" and un: "\<Union> (set ` snd ` set groups) = set (applying i a)"
    using groups_ok [of "[]" "applying i a"] by (simp_all add: groups_def)
  have ids: "ids = map (\<lambda>g. clauseCoverageId (hd (snd g))) groups" and dist: "distinct ids"
    using coverage_loop_Inr [OF loop] ok by (auto simp: group_ok_def comp_def)
  show "distinct ids" by (rule dist)
  show "ids \<noteq> []" using un ne by (auto simp: ids)
  have member: "clauseCoverageId c = clauseCoverageId (hd (snd g))" if "g \<in> set groups" "c \<in> set (snd g)" for c g
  proof (cases "fst g")
    case None
    then have "length (snd g) = 1" using ok that(1) by (auto simp: group_ok_def)
    then show ?thesis using that(2) by (auto simp: length_Suc_conv)
  next
    case (Some x)
    have hd: "hd (snd g) \<in> set (snd g)" using ok that(1) by (auto simp: group_ok_def)
    have "pc_row c' = i" if "c' \<in> set (snd g)" for c'
      using that \<open>g \<in> set groups\<close> un assms(2) by (auto simp: applying_def list_all_iff)
    then show ?thesis using ok that hd Some by (simp add: clauseCoverageId_def group_ok_def)
  qed
  show "set ids = clauseCoverageId ` set (applying i a)"
  proof -
    have "clauseCoverageId ` set (applying i a) = (\<lambda>g. clauseCoverageId (hd (snd g))) ` set groups"
      unfolding un [symmetric]
    proof (intro set_eqI iffI)
      fix x
      assume "x \<in> clauseCoverageId ` \<Union> (set ` snd ` set groups)"
      then obtain g c where "g \<in> set groups" "c \<in> set (snd g)" "x = clauseCoverageId c" by blast
      then show "x \<in> (\<lambda>g. clauseCoverageId (hd (snd g))) ` set groups" using member by blast
    next
      fix x
      assume "x \<in> (\<lambda>g. clauseCoverageId (hd (snd g))) ` set groups"
      then obtain g where "g \<in> set groups" "x = clauseCoverageId (hd (snd g))" by blast
      moreover have "hd (snd g) \<in> set (snd g)" using ok \<open>g \<in> set groups\<close> by (simp add: group_ok_def)
      ultimately show "x \<in> clauseCoverageId ` \<Union> (set ` snd ` set groups)" by blast
    qed
    then show ?thesis by (simp add: ids)
  qed
  show "c = c' \<or> ce_anyOf (pc_extra c) = ce_anyOf (pc_extra c') \<and> ce_anyOf (pc_extra c) \<noteq> None"
    if cc: "c \<in> set (applying i a)" "c' \<in> set (applying i a)" "clauseCoverageId c = clauseCoverageId c'"
  proof -
    obtain g g' where g: "g \<in> set groups" "c \<in> set (snd g)" "g' \<in> set groups" "c' \<in> set (snd g')"
      using cc(1,2) unfolding un [symmetric] by auto
    have "clauseCoverageId (hd (snd g)) = clauseCoverageId (hd (snd g'))" using member g cc(3) by metis
    then have same: "g = g'" using dist g(1,3) unfolding ids distinct_map inj_on_def by blast
    have gok: "group_ok g" using ok g(1) by blast
    show ?thesis
    proof (cases "fst g")
      case None
      then obtain x where "snd g = [x]" using gok by (auto simp: group_ok_def length_Suc_conv)
      then show ?thesis using g(2,4) same by simp
    next
      case (Some y)
      then show ?thesis using g(2,4) same gok by (simp add: group_ok_def)
    qed
  qed
qed

text \<open>The tables, checked.\<close>

definition row_ok :: "row_id \<Rightarrow> bool" where
  "row_ok i = (list_all (\<lambda>c. pc_row c = i) (ALL_ROWS i) \<and>
     list_all (\<lambda>a. case clauseCoverageIds i a of Inr ids \<Rightarrow> True | Inl e \<Rightarrow> False) FEE_ASSETS)"

lemma rows_ok_P:
  "row_ok P_1" "row_ok P_2" "row_ok P_3" "row_ok P_4" "row_ok P_5" "row_ok P_6" "row_ok P_7" "row_ok P_8"
  "row_ok P_9" "row_ok P_10" "row_ok P_11" "row_ok P_12" "row_ok P_13" "row_ok P_14" "row_ok P_15"
  by code_simp+

lemma rows_ok_O:
  "row_ok O_1" "row_ok O_2" "row_ok O_5" "row_ok O_6" "row_ok O_7" "row_ok O_8" "row_ok O_9"
  by code_simp+

lemma rows_ok_O3: "row_ok O_3" by code_simp

lemma rows_ok_O4: "row_ok O_4" by code_simp

lemma row_ok: "row_ok i"
  by (cases i) (simp_all only: rows_ok_P rows_ok_O rows_ok_O3 rows_ok_O4)

definition gov_row_ok :: "governance_row_id \<Rightarrow> bool" where
  "gov_row_ok g = ((case governanceCoverageIds g of Inr ids \<Rightarrow> True | Inl e \<Rightarrow> False) \<and> GOVERNANCE_ROWS g \<noteq> [])"

lemma gov_row_ok: "gov_row_ok g"
  by (cases g; simp only:; code_simp)

text \<open>What a clause reads agrees with how it is read, and the fee is the signer's affair.\<close>

definition source_prefix :: "clause_source \<Rightarrow> string" where
  "source_prefix s = (case s of Storage \<Rightarrow> ''storage.'' | Runtime_api \<Rightarrow> ''api.'' | Constant \<Rightarrow> ''constant.'')"

definition reads_its_source :: "clause_source \<Rightarrow> string \<Rightarrow> bool" where
  "reads_its_source s surface = (take (length (source_prefix s)) surface = source_prefix s)"

definition clause_ok :: "precondition_clause \<Rightarrow> bool" where
  "clause_ok c = (reads_its_source (pc_source c) (pc_surface c) \<and>
     (ce_feeAsset (pc_extra c) = None \<or> pc_subject c = Signer) \<and>
     (pc_subject c \<noteq> Signer \<or> ce_feeAsset (pc_extra c) \<noteq> None))"

definition gov_clause_ok :: "governance_clause \<Rightarrow> bool" where
  "gov_clause_ok c = reads_its_source (gc_source c) (gc_surface c)"

lemma clauses_ok: "list_all clause_ok (ALL_ROWS i)"
  by (cases i; simp only:; code_simp)

lemma gov_clauses_ok: "list_all gov_clause_ok (GOVERNANCE_ROWS g)"
  by (cases g; simp only:; code_simp)

lemma registry_rows_ok: "list_all clause_ok (operatorRowsFor r i)"
proof -
  have "list_all clause_ok (o8For Incident)" "list_all clause_ok (o8For Milestone)"
    "list_all clause_ok (o9For Incident)" "list_all clause_ok (o9For Milestone)" by code_simp+
  then show ?thesis using clauses_ok by (cases r) (auto simp: operatorRowsFor_def)
qed

definition demanded :: "declarable_row \<Rightarrow> fee_asset \<Rightarrow> string set" where
  "demanded d a = (case d of
     Call_row i \<Rightarrow> clauseCoverageId ` set (applying i a)
   | Governance_row g \<Rightarrow> (\<lambda>c. governance_row_name (gc_row c) @ ''/'' @ gc_requirement c) ` set (GOVERNANCE_ROWS g))"

lemma declared_rows_demand:
  "\<exists>ids. declaredCoverageIds d a = Inr ids \<and> ids \<noteq> [] \<and> distinct ids \<and> set ids = demanded d a"
proof (cases d)
  case (Call_row i)
  have "list_all (\<lambda>c. pc_row c = i) (ALL_ROWS i)" "\<exists>ids. clauseCoverageIds i a = Inr ids"
    using row_ok [of i] by (cases a; auto simp: row_ok_def FEE_ASSETS_def split: sum.splits)+
  then show ?thesis using clauseCoverageIds_Inr(1-3) [of i a]
    by (auto simp: Call_row declaredCoverageIds_def demanded_def)
next
  case (Governance_row g)
  obtain ids where loop: "gov_coverage_loop g [] (GOVERNANCE_ROWS g) = Inr ids" and ne: "GOVERNANCE_ROWS g \<noteq> []"
    using gov_row_ok [of g] by (auto simp: gov_row_ok_def governanceCoverageIds_def split: sum.splits)
  have eq: "ids = [] @ map (\<lambda>e. governance_row_name (gc_row e) @ ''/'' @ gc_requirement e) (GOVERNANCE_ROWS g) \<and> distinct ids"
    by (rule gov_coverage_loop_Inr [OF loop]) simp
  have "ids \<noteq> []" "set ids = demanded d a" using conjunct1 [OF eq] ne by (simp_all add: Governance_row demanded_def)
  moreover have "distinct ids" using eq by (rule conjunct2)
  moreover have "declaredCoverageIds d a = Inr ids" by (simp add: Governance_row declaredCoverageIds_def governanceCoverageIds_def loop)
  ultimately show ?thesis by blast
qed

text \<open>
  What the gate relies on: a row expands, and to the ids of its obligations. The gate's
  facts about a whole declaration follow from this alone.
\<close>

locale obligation_table =
  fixes expand :: "'row \<Rightarrow> 'asset \<Rightarrow> ('e, string list) result"
    and obligations :: "'row \<Rightarrow> 'asset \<Rightarrow> string set"
  assumes expands: "\<exists>ids. expand row a = Inr ids \<and> ids \<noteq> [] \<and> distinct ids \<and> set ids = obligations row a"
begin

lemma expand_Inr: "expand row a = Inr ids \<Longrightarrow> set ids = obligations row a"
  using expands [of row a] by auto

lemma expansion_total: "\<exists>ids. flat_map_result (\<lambda>row. expand row a) rows = Inr ids"
proof (induction rows)
  case (Cons row rows)
  then obtain ids where "flat_map_result (\<lambda>row. expand row a) rows = Inr ids" by blast
  moreover obtain xs where "expand row a = Inr xs" using expands by blast
  ultimately show ?case by simp
qed simp

lemma expansion_demands:
  "flat_map_result (\<lambda>row. expand row a) rows = Inr ids \<Longrightarrow> set ids = (\<Union>row \<in> set rows. obligations row a)"
proof (induction rows arbitrary: ids)
  case (Cons row rows)
  from Cons.prems obtain xs ys where "expand row a = Inr xs" "flat_map_result (\<lambda>row. expand row a) rows = Inr ys" "ids = xs @ ys"
    by (auto split: sum.splits)
  then show ?case using Cons.IH expand_Inr by simp
qed simp

end

interpretation tables: obligation_table declaredCoverageIds demanded
  by unfold_locales (rule declared_rows_demand)

lemma clauses_of_rowsFor: "rowsFor i a = Inr (applying i a)"
proof -
  have "\<exists>ids. declaredCoverageIds (Call_row i) a = Inr ids" using declared_rows_demand by blast
  then obtain cs where "rowsFor i a = Inr cs"
    by (auto simp: declaredCoverageIds_def clauseCoverageIds_def clauseGroupsFor_def split: sum.splits)
  then show ?thesis using rowsFor_applying by blast
qed

lemma other_accounts:
  "clausesNeedingOtherAccounts i wrapper signer a =
    Inr (filter (\<lambda>c. pc_subject c = Recipient \<or> pc_subject c = Acting \<and> splitsIdentity wrapper signer) (applying i a))"
  unfolding clausesNeedingOtherAccounts_def clauses_of_rowsFor sum.case
  by (intro arg_cong [where f = Inr] filter_cong refl)
    (auto simp: accountForClause_def splitsIdentity_def feePayer_def split: clause_subject.split)

text \<open>
  Which rows have nothing to read elsewhere. The comment on \<open>clausesNeedingOtherAccounts\<close> has the
  list empty for an unwrapped call and not empty under a wrapper. The code differs on P-9, whose
  recipient is read for an unwrapped transfer too; the five rows without a clause on the acting
  account (P-12, P-15, O-2, O-6, O-7) have nothing to read elsewhere under any wrapper.
\<close>

definition all_row_ids :: "row_id list" where
  "all_row_ids = [P_1, P_2, P_3, P_4, P_5, P_6, P_7, P_8, P_9, P_10, P_11, P_12, P_13, P_14, P_15,
     O_1, O_2, O_3, O_4, O_5, O_6, O_7, O_8, O_9]"

lemma all_row_ids: "i \<in> set all_row_ids"
  by (cases i) (simp_all add: all_row_ids_def)

definition no_subject :: "clause_subject \<Rightarrow> row_id \<Rightarrow> fee_asset \<Rightarrow> bool" where
  "no_subject s i a = list_all (\<lambda>c. pc_subject c \<noteq> s) (applying i a)"

lemma subjects_checked:
  "list_all (\<lambda>i. \<forall>a \<in> {USDC, VIT}. no_subject Recipient i a = (i \<noteq> P_9) \<and>
     (no_subject Acting i a \<and> no_subject Recipient i a) = (i \<in> {P_12, P_15, O_2, O_6, O_7})) all_row_ids"
  by code_simp

lemma subjects_of_rows:
  "no_subject Recipient i a = (i \<noteq> P_9)" "(no_subject Acting i a \<and> no_subject Recipient i a) = (i \<in> {P_12, P_15, O_2, O_6, O_7})"
  using subjects_checked all_row_ids [of i] by (cases a; simp add: list_all_iff)+

lemma other_accounts_empty:
  "clausesNeedingOtherAccounts i wrapper signer a = Inr [] \<longleftrightarrow>
     (if splitsIdentity wrapper signer then i \<in> {P_12, P_15, O_2, O_6, O_7} else i \<noteq> P_9)"
  unfolding other_accounts subjects_of_rows [of i a, symmetric] by (auto simp: filter_empty_conv no_subject_def list_all_iff)

text \<open>C12
  A declared row demands every one of its obligations: for every row of either table and
  each fee currency the expansion into coverage ids succeeds, is never empty and names
  each clause that applies; two clauses share an id only as alternatives of one group. Every
  clause of a call row, in either registry instance, is read by the kind of read its surface
  is published as, and exactly the fee clauses are the signer's. The clauses read elsewhere are the
  recipient's, wrapped or not, and under a wrapper that splits the identity also the acting
  account's: none for an unwrapped call except on the transfer row P-9 (against the comment in the
  code, which has none at all), and some for a split call except on the five rows without a clause
  on the acting account.
\<close>

theorem declared_rows_cover_their_clauses:
  "(\<exists>ids. declaredCoverageIds d a = Inr ids \<and> ids \<noteq> [] \<and> distinct ids \<and> set ids = demanded d a) \<and>
   (c \<in> set (applying i a) \<and> c' \<in> set (applying i a) \<and> clauseCoverageId c = clauseCoverageId c' \<longrightarrow>
    c = c' \<or> ce_anyOf (pc_extra c) = ce_anyOf (pc_extra c') \<and> ce_anyOf (pc_extra c) \<noteq> None) \<and>
   list_all (\<lambda>c. reads_its_source (pc_source c) (pc_surface c) \<and> (pc_subject c = Signer) = (ce_feeAsset (pc_extra c) \<noteq> None))
    (operatorRowsFor r i) \<and>
   clausesNeedingOtherAccounts i wrapper signer a =
    Inr (filter (\<lambda>c. pc_subject c = Recipient \<or> pc_subject c = Acting \<and> splitsIdentity wrapper signer) (applying i a)) \<and>
   (clausesNeedingOtherAccounts i wrapper signer a = Inr []) =
     (if splitsIdentity wrapper signer then i \<in> {P_12, P_15, O_2, O_6, O_7} else i \<noteq> P_9)"
proof (intro conjI impI)
  show "\<exists>ids. declaredCoverageIds d a = Inr ids \<and> ids \<noteq> [] \<and> distinct ids \<and> set ids = demanded d a"
    by (rule declared_rows_demand)
  show "c = c' \<or> ce_anyOf (pc_extra c) = ce_anyOf (pc_extra c') \<and> ce_anyOf (pc_extra c) \<noteq> None"
    if "c \<in> set (applying i a) \<and> c' \<in> set (applying i a) \<and> clauseCoverageId c = clauseCoverageId c'"
  proof -
    obtain ids where "clauseCoverageIds i a = Inr ids"
      using declared_rows_demand [of "Call_row i" a] by (auto simp: declaredCoverageIds_def)
    then show ?thesis using clauseCoverageIds_Inr(4) [of i a ids c c'] that row_ok [of i] by (simp add: row_ok_def)
  qed
  show "list_all (\<lambda>c. reads_its_source (pc_source c) (pc_surface c) \<and> (pc_subject c = Signer) = (ce_feeAsset (pc_extra c) \<noteq> None))
    (operatorRowsFor r i)"
    using registry_rows_ok [of r i] by (auto simp: clause_ok_def elim!: list.pred_mono_strong)
  show "clausesNeedingOtherAccounts i wrapper signer a =
    Inr (filter (\<lambda>c. pc_subject c = Recipient \<or> pc_subject c = Acting \<and> splitsIdentity wrapper signer) (applying i a))"
    by (rule other_accounts)
  show "(clausesNeedingOtherAccounts i wrapper signer a = Inr []) =
     (if splitsIdentity wrapper signer then i \<in> {P_12, P_15, O_2, O_6, O_7} else i \<noteq> P_9)"
    by (rule other_accounts_empty)
qed

theorem declared_rows_cover_their_clauses_witness:
  "\<exists>c c'. c \<noteq> c' \<and> c \<in> set (applying P_6 VIT) \<and> c' \<in> set (applying P_6 VIT) \<and> clauseCoverageId c = clauseCoverageId c' \<and>
     ce_anyOf (pc_extra c) = ce_anyOf (pc_extra c') \<and> ce_anyOf (pc_extra c) \<noteq> None"
proof -
  define c c' where "c = P6 ! 0" and "c' = P6 ! 1"
  have cc: "c \<noteq> c'" "c \<in> set (applying P_6 VIT)" "c' \<in> set (applying P_6 VIT)" "clauseCoverageId c = clauseCoverageId c'"
    unfolding c_def c'_def by code_simp+
  from declared_rows_cover_their_clauses [THEN conjunct2, THEN conjunct1, rule_format, of c P_6 VIT c'] cc
  show ?thesis by blast
qed

end
