(* ===== verification/Tx_Machine.thy ===== *)
theory Tx_Machine
  imports Compat Tx_Rows
begin

text \<open>
  The transaction lifecycle of \<open>app/packages/transaction-builder/src/machine.ts\<close> with
  \<open>preconditions.ts\<close>: evaluating precondition rows against pinned reads, the gate in
  front of the signer, and the reducer of a session. Preparations are objects that the
  reducer compares by identity, so a session and a proof hold a reference and the contents
  are looked up in a store; the objects are frozen, so the store does not change.
\<close>

subsection \<open>Preconditions\<close>

datatype precondition_source = Src_storage string bool | Src_runtime_api string "string option" | Src_constant string string

record 'v precondition_row =
  prow_id :: string
  prow_requirement :: string
  prow_source :: precondition_source
  prow_satisfiedBy :: "'v \<Rightarrow> bool"
  prow_expected :: "'v \<Rightarrow> string"

record precondition_result =
  pres_id :: string
  pres_ok :: bool
  pres_requirement :: string
  pres_expected :: string
  pres_actual :: string
  pres_at :: finalized_block_ref

text \<open>\<open>describe\<close> renders an arbitrary JavaScript value; it is an argument here.\<close>

definition evaluate_row :: "('v \<Rightarrow> string) \<Rightarrow> 'v precondition_row \<Rightarrow> 'v finalized \<Rightarrow> precondition_result" where
  "evaluate_row describe row read =
     \<lparr> pres_id = prow_id row, pres_ok = prow_satisfiedBy row (fz_value read), pres_requirement = prow_requirement row,
       pres_expected = prow_expected row (fz_value read), pres_actual = describe (fz_value read), pres_at = fz_status read \<rparr>"

fun evaluateAll ::
  "('v \<Rightarrow> string) \<Rightarrow> finalized_block_ref \<Rightarrow> 'v precondition_row list \<Rightarrow>
   (precondition_source \<Rightarrow> (string, 'v finalized) result) \<Rightarrow> precondition_result list" where
  "evaluateAll describe readerAt [] reading = []"
| "evaluateAll describe readerAt (row # rows) reading =
     (case reading (prow_source row) of
        Inr r \<Rightarrow> evaluate_row describe row r
      | Inl message \<Rightarrow> \<lparr> pres_id = prow_id row, pres_ok = False, pres_requirement = prow_requirement row,
          pres_expected = ''readable at the pinned finalized block'', pres_actual = ''read failed: '' @ message,
          pres_at = readerAt \<rparr>) # evaluateAll describe readerAt rows reading"

subsection \<open>Sessions\<close>

datatype tx_state =
    Draft | Prepared | Refreshing | Blocked | AwaitingSignature | Broadcast | InBestBlock | Finalized | Dropped | Retracted

datatype tx_error_code = FE_TX_004 | FE_TX_007

record built_for =
  bf_specVersion :: int
  bf_metadataHash :: string

record tx_preparation =
  prep_scaleHex :: string
  prep_signingAccount :: account_id
  prep_builtFor :: built_for
  prep_preparedAt :: finalized_block_ref
  prep_requires :: "declarable_row list"
  prep_feeAsset :: fee_asset

type_synonym prep_ref = nat

type_synonym prep_store = "prep_ref \<Rightarrow> tx_preparation"

record gate_passed =
  gp_at :: finalized_block_ref
  gp_prep :: prep_ref
  gp_scaleHex :: string
  gp_account :: account_id
  gp_results :: "precondition_result list"

datatype gate_detail =
    Compat_unestablished | Signing_unavailable "call_unavailable option" | Runtime_changed int int | Evaluator_missing "int option"
  | Rows_failed nat | No_rows_declared | Rows_not_expandable rows_error | Never_read "string list" | Mixed_blocks nat | No_signing_account

datatype gate_outcome =
    Proceed gate_passed
  | Gate_blocked tx_error_code finalized_block_ref "precondition_result list" gate_detail

datatype tx_event =
    Ev_prepared prep_ref | Ev_submit_requested | Ev_gate_result gate_outcome | Ev_edit | Ev_signed | Ev_signature_declined
  | Ev_in_best_block | Ev_finalized | Ev_dropped | Ev_retracted

record tx_session =
  ts_state :: tx_state
  ts_prep :: "prep_ref option"
  ts_failed :: "precondition_result list"
  ts_lastError :: "tx_error_code option"
  ts_signingWindow :: "gate_passed option"

definition INITIAL_TX_SESSION :: tx_session where
  "INITIAL_TX_SESSION = \<lparr> ts_state = Draft, ts_prep = None, ts_failed = [], ts_lastError = None, ts_signingWindow = None \<rparr>"

definition TX_TERMINAL_STATES :: "tx_state list" where
  "TX_TERMINAL_STATES = [Finalized, Dropped, Retracted]"

subsection \<open>The gate\<close>

definition refreshFailure :: "finalized_block_ref \<Rightarrow> gate_detail \<Rightarrow> gate_outcome" where
  "refreshFailure pin detail = Gate_blocked FE_TX_004 pin [] detail"

definition gateContext ::
  "tx_preparation \<Rightarrow> finalized_block_ref \<Rightarrow> built_for \<Rightarrow> compat_classification option \<Rightarrow> gate_outcome option" where
  "gateContext prep pin live verdict =
     (if (case verdict of None \<Rightarrow> True | Some c \<Rightarrow> \<not> callIsProven c ''*'')
      then Some (refreshFailure pin (case verdict of None \<Rightarrow> Compat_unestablished
        | Some c \<Rightarrow> Signing_unavailable (callUnavailableReason c ''this call'')))
      else if bf_specVersion live \<noteq> bf_specVersion (prep_builtFor prep) \<or>
              bf_metadataHash live \<noteq> bf_metadataHash (prep_builtFor prep)
      then Some (Gate_blocked FE_TX_007 pin [] (Runtime_changed (bf_specVersion (prep_builtFor prep)) (bf_specVersion live)))
      else None)"

text \<open>
  The public gate: it opens a pin, observes the runtime and refuses, whatever the
  preparation. The pin and the runtime come from the connection; an opening that fails is
  a rejected promise and produces no outcome.
\<close>

definition refreshAndGate :: "tx_preparation \<Rightarrow> finalized_block_ref \<Rightarrow> built_for option \<Rightarrow> gate_outcome" where
  "refreshAndGate prep readerAt runtime = refreshFailure readerAt (Evaluator_missing (map_option bf_specVersion runtime))"

definition expand_rows :: "declarable_row list \<Rightarrow> fee_asset \<Rightarrow> (rows_error, string list) result" where
  "expand_rows rows feeAsset = flat_map_result (\<lambda>row. declaredCoverageIds row feeAsset) rows"

definition gateEvaluatedForTesting ::
  "prep_store \<Rightarrow> prep_ref \<Rightarrow> finalized_block_ref \<Rightarrow> built_for \<Rightarrow> compat_classification option \<Rightarrow> precondition_result list \<Rightarrow>
   gate_outcome" where
  "gateEvaluatedForTesting store ref pin live verdict results =
     (let prep = store ref in
      case gateContext prep pin live verdict of
        Some contextFailure \<Rightarrow> contextFailure
      | None \<Rightarrow>
        let failed = filter (\<lambda>r. \<not> pres_ok r) results in
        if length failed > 0 then Gate_blocked FE_TX_004 pin failed (Rows_failed (length failed))
        else if length (prep_requires prep) = 0 then Gate_blocked FE_TX_004 pin [] No_rows_declared
        else (case expand_rows (prep_requires prep) (prep_feeAsset prep) of
          Inl e \<Rightarrow> Gate_blocked FE_TX_004 pin [] (Rows_not_expandable e)
        | Inr required \<Rightarrow>
          let uncovered = filter (\<lambda>i. i \<notin> set (map pres_id results)) required in
          if length uncovered > 0 then Gate_blocked FE_TX_004 pin [] (Never_read uncovered)
          else
            let mixed = filter (\<lambda>r. fb_blockHash (pres_at r) \<noteq> fb_blockHash pin) results in
            if length mixed > 0 then Gate_blocked FE_TX_004 pin mixed (Mixed_blocks (length mixed))
            else if length (prep_signingAccount prep) = 0 then refreshFailure pin No_signing_account
            else Proceed \<lparr> gp_at = pin, gp_prep = ref, gp_scaleHex = prep_scaleHex prep,
                   gp_account = prep_signingAccount prep, gp_results = results \<rparr>))"

subsection \<open>The reducer\<close>

definition reduce :: "tx_session \<Rightarrow> tx_event \<Rightarrow> tx_session" where
  "reduce session event =
     (if ts_state session \<in> set TX_TERMINAL_STATES then session
      else case ts_state session of
        Draft \<Rightarrow>
          (case event of Ev_prepared p \<Rightarrow> session \<lparr> ts_state := Prepared, ts_prep := Some p \<rparr> | _ \<Rightarrow> session)
      | Prepared \<Rightarrow>
          (case event of
             Ev_submit_requested \<Rightarrow> session \<lparr> ts_state := Refreshing \<rparr>
           | Ev_edit \<Rightarrow> session \<lparr> ts_state := Draft, ts_prep := None \<rparr>
           | _ \<Rightarrow> session)
      | Refreshing \<Rightarrow>
          (case event of
             Ev_gate_result outcome \<Rightarrow>
               (case outcome of
                  Gate_blocked code pin failed detail \<Rightarrow>
                    session \<lparr> ts_state := Blocked, ts_failed := failed, ts_lastError := Some code \<rparr>
                | Proceed passed \<Rightarrow>
                    if ts_prep session = None \<or> Some (gp_prep passed) \<noteq> ts_prep session
                    then session \<lparr> ts_state := Blocked, ts_failed := [], ts_lastError := Some FE_TX_004 \<rparr>
                    else session \<lparr> ts_state := AwaitingSignature, ts_signingWindow := Some passed, ts_failed := [],
                           ts_lastError := None \<rparr>)
           | _ \<Rightarrow> session)
      | Blocked \<Rightarrow>
          (case event of
             Ev_edit \<Rightarrow> session \<lparr> ts_state := Draft, ts_failed := [], ts_lastError := None, ts_signingWindow := None \<rparr>
           | _ \<Rightarrow> session)
      | AwaitingSignature \<Rightarrow>
          (case event of
             Ev_signed \<Rightarrow> session \<lparr> ts_state := Broadcast \<rparr>
           | Ev_signature_declined \<Rightarrow> session \<lparr> ts_state := Draft, ts_signingWindow := None \<rparr>
           | _ \<Rightarrow> session)
      | Broadcast \<Rightarrow>
          (case event of
             Ev_in_best_block \<Rightarrow> session \<lparr> ts_state := InBestBlock \<rparr>
           | Ev_dropped \<Rightarrow> session \<lparr> ts_state := Dropped \<rparr>
           | _ \<Rightarrow> session)
      | InBestBlock \<Rightarrow>
          (case event of
             Ev_finalized \<Rightarrow> session \<lparr> ts_state := Finalized \<rparr>
           | Ev_retracted \<Rightarrow> session \<lparr> ts_state := Retracted \<rparr>
           | Ev_dropped \<Rightarrow> session \<lparr> ts_state := Dropped \<rparr>
           | _ \<Rightarrow> session)
      | _ \<Rightarrow> session)"

text \<open>The edges the reducer takes, as \<open>txTransitionEdges\<close> enumerates them.\<close>

definition enumerator_prep :: tx_preparation where
  "enumerator_prep =
     \<lparr> prep_scaleHex = ''0x00'', prep_signingAccount = ''transition-enumerator'',
       prep_builtFor = \<lparr> bf_specVersion = 1, bf_metadataHash = ''0x00'' \<rparr>,
       prep_preparedAt = \<lparr> fb_chain = ''0x'' @ concat (replicate 32 ''ce''), fb_blockHash = ''0x'' @ concat (replicate 32 ''00''),
         fb_blockNumber = 0 \<rparr>,
       prep_requires = [Call_row P_1], prep_feeAsset = USDC \<rparr>"

definition enumerator_pin :: finalized_block_ref where
  "enumerator_pin = \<lparr> fb_chain = ''0x'' @ concat (replicate 32 ''ce''), fb_blockHash = ''0x'' @ concat (replicate 32 ''11''),
     fb_blockNumber = 1 \<rparr>"

definition enumerator_passing :: "precondition_result list" where
  "enumerator_passing =
     (case declaredCoverageIds (Call_row P_1) USDC of
        Inl _ \<Rightarrow> []
      | Inr ids \<Rightarrow> map (\<lambda>i. \<lparr> pres_id = i, pres_ok = True, pres_requirement = ''the enumerator's stand-in obligation'',
          pres_expected = ''ok'', pres_actual = ''ok'', pres_at = enumerator_pin \<rparr>) ids)"

definition enumerator_verdict :: compat_classification where
  "enumerator_verdict = \<lparr> cc_mode = Full, cc_specVersion = 1, cc_disabled = [], cc_proven = [] \<rparr>"

definition enumerator_gate :: "built_for \<Rightarrow> gate_outcome" where
  "enumerator_gate live =
     gateEvaluatedForTesting (\<lambda>_. enumerator_prep) 0 enumerator_pin live (Some enumerator_verdict) enumerator_passing"

definition TX_STATES :: "tx_state list" where
  "TX_STATES = [Draft, Prepared, Refreshing, Blocked, AwaitingSignature, Broadcast, InBestBlock, Finalized, Dropped, Retracted]"

definition enumerator_events :: "tx_event list" where
  "enumerator_events =
     [Ev_prepared 0, Ev_submit_requested, Ev_gate_result (enumerator_gate (prep_builtFor enumerator_prep)),
      Ev_gate_result (enumerator_gate \<lparr> bf_specVersion = 2, bf_metadataHash = ''0x00'' \<rparr>),
      Ev_edit, Ev_signed, Ev_signature_declined, Ev_in_best_block, Ev_finalized, Ev_dropped, Ev_retracted]"

fun tx_state_name :: "tx_state \<Rightarrow> string" where
  "tx_state_name Draft = ''Draft''"
| "tx_state_name Prepared = ''Prepared''"
| "tx_state_name Refreshing = ''Refreshing''"
| "tx_state_name Blocked = ''Blocked''"
| "tx_state_name AwaitingSignature = ''AwaitingSignature''"
| "tx_state_name Broadcast = ''Broadcast''"
| "tx_state_name InBestBlock = ''InBestBlock''"
| "tx_state_name Finalized = ''Finalized''"
| "tx_state_name Dropped = ''Dropped''"
| "tx_state_name Retracted = ''Retracted''"

definition txTransitionEdges :: "(tx_state \<times> tx_state) list" where
  "txTransitionEdges =
     sort_key (\<lambda>(a, b). tx_state_name a @ ''>'' @ tx_state_name b)
       (remdups (concat (map (\<lambda>s. concat (map (\<lambda>e.
          let next_state = ts_state (reduce (INITIAL_TX_SESSION \<lparr> ts_state := s, ts_prep := Some 0 \<rparr>) e) in
          if next_state \<noteq> s then [(s, next_state)] else []) enumerator_events)) TX_STATES)))"

lemma edges_listed:
  "txTransitionEdges =
     [(AwaitingSignature, Broadcast), (AwaitingSignature, Draft), (Blocked, Draft), (Broadcast, Dropped), (Broadcast, InBestBlock),
      (Draft, Prepared), (InBestBlock, Dropped), (InBestBlock, Finalized), (InBestBlock, Retracted), (Prepared, Draft),
      (Prepared, Refreshing), (Refreshing, AwaitingSignature), (Refreshing, Blocked)]"
  by code_simp

subsection \<open>Reachable sessions\<close>

text \<open>
  The outcomes a gate can produce: of the evaluator, when \<open>runtime\<close> and
  \<open>verdict\<close> say which runtime and which compatibility verdict belong to a block,
  and of the public gate.
\<close>

definition evaluated ::
  "prep_store \<Rightarrow> (finalized_block_ref \<Rightarrow> built_for) \<Rightarrow> (finalized_block_ref \<Rightarrow> compat_classification option) \<Rightarrow> gate_outcome \<Rightarrow> bool" where
  "evaluated store runtime verdict outcome \<longleftrightarrow>
     (\<exists>ref pin results. outcome = gateEvaluatedForTesting store ref pin (runtime pin) (verdict pin) results)"

definition published :: "gate_outcome \<Rightarrow> bool" where
  "published outcome \<longleftrightarrow> (\<exists>prep pin runtime. outcome = refreshAndGate prep pin runtime)"

fun event_of :: "(gate_outcome \<Rightarrow> bool) \<Rightarrow> tx_event \<Rightarrow> bool" where
  "event_of produced (Ev_gate_result outcome) = produced outcome"
| "event_of produced _ = True"

inductive tx_reachable :: "(gate_outcome \<Rightarrow> bool) \<Rightarrow> tx_session \<Rightarrow> bool" for produced where
  initial: "tx_reachable produced INITIAL_TX_SESSION"
| event: "tx_reachable produced s \<Longrightarrow> event_of produced e \<Longrightarrow> tx_reachable produced (reduce s e)"

text \<open>What a signing window certifies, over the preparation it names.\<close>

definition authorises ::
  "prep_store \<Rightarrow> (finalized_block_ref \<Rightarrow> built_for) \<Rightarrow> (finalized_block_ref \<Rightarrow> compat_classification option) \<Rightarrow> gate_passed \<Rightarrow> bool" where
  "authorises store runtime verdict w \<longleftrightarrow>
     (let prep = store (gp_prep w) in
      gp_scaleHex w = prep_scaleHex prep \<and> gp_account w = prep_signingAccount prep \<and> gp_account w \<noteq> [] \<and>
      (\<exists>c. verdict (gp_at w) = Some c \<and> cc_mode c = Full) \<and>
      bf_specVersion (runtime (gp_at w)) = bf_specVersion (prep_builtFor prep) \<and>
      bf_metadataHash (runtime (gp_at w)) = bf_metadataHash (prep_builtFor prep) \<and>
      prep_requires prep \<noteq> [] \<and>
      (\<forall>r \<in> set (gp_results w). pres_ok r \<and> fb_blockHash (pres_at r) = fb_blockHash (gp_at w)) \<and>
      (\<forall>row \<in> set (prep_requires prep). \<forall>i \<in> demanded row (prep_feeAsset prep). \<exists>r \<in> set (gp_results w). pres_id r = i))"

lemma expand_rows_demanded: "expand_rows rows a = Inr ids \<Longrightarrow> set ids = (\<Union>row \<in> set rows. demanded row a)"
  unfolding expand_rows_def by (rule tables.expansion_demands)

text \<open>The gate never blocks because a declared row could not be expanded.\<close>

lemma expand_rows_total: "\<exists>ids. expand_rows rows a = Inr ids"
  unfolding expand_rows_def by (rule tables.expansion_total)

lemma gate_proceeds:
  assumes "gateEvaluatedForTesting store ref pin live verdict results = Proceed w"
  shows "gp_at w = pin" "gp_prep w = ref" "gp_results w = results" "gp_scaleHex w = prep_scaleHex (store ref)"
    "gp_account w = prep_signingAccount (store ref)" "gp_account w \<noteq> []"
    "gateContext (store ref) pin live verdict = None" "prep_requires (store ref) \<noteq> []"
    "\<forall>r \<in> set results. pres_ok r" "\<forall>r \<in> set results. fb_blockHash (pres_at r) = fb_blockHash pin"
    "\<exists>ids. expand_rows (prep_requires (store ref)) (prep_feeAsset (store ref)) = Inr ids \<and> set ids \<subseteq> pres_id ` set results"
  using assms
  by (auto simp: gateEvaluatedForTesting_def gateContext_def refreshFailure_def Let_def filter_empty_conv
      split: option.splits if_splits sum.splits)

lemma evaluated_authorises:
  assumes "evaluated store runtime verdict (Proceed w)"
  shows "authorises store runtime verdict w"
proof -
  obtain ref pin results where g: "gateEvaluatedForTesting store ref pin (runtime pin) (verdict pin) results = Proceed w"
    using assms by (auto simp: evaluated_def)
  note facts = gate_proceeds [OF g]
  obtain ids where ids: "expand_rows (prep_requires (store ref)) (prep_feeAsset (store ref)) = Inr ids"
      "set ids \<subseteq> pres_id ` set results" using facts(11) by blast
  have covered: "\<exists>r \<in> set results. pres_id r = i"
    if "row \<in> set (prep_requires (store ref))" "i \<in> demanded row (prep_feeAsset (store ref))" for row i
    using that ids(2) unfolding expand_rows_demanded [OF ids(1)] by blast
  have context_ok: "(\<exists>c. verdict pin = Some c \<and> cc_mode c = Full) \<and>
      bf_specVersion (runtime pin) = bf_specVersion (prep_builtFor (store ref)) \<and>
      bf_metadataHash (runtime pin) = bf_metadataHash (prep_builtFor (store ref))"
    using facts(7) by (auto simp: gateContext_def callIsProven_def split: option.splits if_splits)
  show ?thesis unfolding authorises_def Let_def facts(1-5)
    using facts(6,8-10) context_ok covered by (auto simp: facts(5))
qed

definition signing_states :: "tx_state list" where
  "signing_states = [AwaitingSignature, Broadcast, InBestBlock, Finalized, Dropped, Retracted]"

definition session_ok :: "(gate_passed \<Rightarrow> bool) \<Rightarrow> tx_session \<Rightarrow> bool" where
  "session_ok good s \<longleftrightarrow>
     (case ts_signingWindow s of
        None \<Rightarrow> ts_state s \<notin> set signing_states
      | Some w \<Rightarrow> ts_state s \<in> set signing_states \<and> good w \<and> ts_prep s = Some (gp_prep w))"

lemma reduce_session_ok:
  assumes "session_ok good s" "event_of produced e" "\<And>w. produced (Proceed w) \<Longrightarrow> good w"
  shows "session_ok good (reduce s e)"
  using assms
  by (cases "ts_state s"; cases e)
    (auto simp: session_ok_def reduce_def TX_TERMINAL_STATES_def signing_states_def split: option.splits gate_outcome.split)

lemma reachable_session_ok:
  assumes "tx_reachable produced s" "\<And>w. produced (Proceed w) \<Longrightarrow> good w"
  shows "session_ok good s"
  using assms(1)
proof induction
  case initial
  show ?case by (simp add: session_ok_def INITIAL_TX_SESSION_def signing_states_def)
next
  case (event s e)
  then show ?case using reduce_session_ok assms(2) by blast
qed

text \<open>C5
  Nothing is signed past the gate: in every session driven by gate outcomes a signing
  window is present exactly from \<open>AwaitingSignature\<close> on (through broadcast and
  inclusion to the terminal states), it belongs to the session's own preparation, carries
  its bytes and its account, was produced under a full compatibility verdict for the
  runtime the bytes were built for, and every obligation of every declared row was read, at
  the window's block, and held. The public gate never opens a window, so its sessions stay
  before the signer; and the reducer's edges are exactly the thirteen of the specification.
\<close>

theorem signing_needs_the_gate:
  "(tx_reachable (evaluated store runtime verdict) s \<longrightarrow>
    (case ts_signingWindow s of
       None \<Rightarrow> ts_state s \<notin> set signing_states
     | Some w \<Rightarrow> ts_state s \<in> set signing_states \<and> authorises store runtime verdict w \<and> ts_prep s = Some (gp_prep w))) \<and>
   (tx_reachable published s \<longrightarrow> ts_signingWindow s = None \<and> ts_state s \<notin> set signing_states) \<and>
   txTransitionEdges =
     [(AwaitingSignature, Broadcast), (AwaitingSignature, Draft), (Blocked, Draft), (Broadcast, Dropped), (Broadcast, InBestBlock),
      (Draft, Prepared), (InBestBlock, Dropped), (InBestBlock, Finalized), (InBestBlock, Retracted), (Prepared, Draft),
      (Prepared, Refreshing), (Refreshing, AwaitingSignature), (Refreshing, Blocked)]"
proof (intro conjI impI)
  show "case ts_signingWindow s of
       None \<Rightarrow> ts_state s \<notin> set signing_states
     | Some w \<Rightarrow> ts_state s \<in> set signing_states \<and> authorises store runtime verdict w \<and> ts_prep s = Some (gp_prep w)"
    if "tx_reachable (evaluated store runtime verdict) s"
    using reachable_session_ok [OF that evaluated_authorises] by (simp add: session_ok_def)
  have closed: "session_ok (\<lambda>_. False) s" if "tx_reachable published s"
    by (rule reachable_session_ok [OF that]) (auto simp: published_def refreshAndGate_def refreshFailure_def)
  show "ts_signingWindow s = None" "ts_state s \<notin> set signing_states" if "tx_reachable published s"
    using closed [OF that] by (simp_all add: session_ok_def split: option.splits)
qed (rule edges_listed)

definition enumerator_session :: tx_session where
  "enumerator_session = foldl reduce INITIAL_TX_SESSION
     [Ev_prepared 0, Ev_submit_requested, Ev_gate_result (enumerator_gate (prep_builtFor enumerator_prep)), Ev_signed]"

theorem signing_needs_the_gate_witness:
  "ts_state enumerator_session = Broadcast \<and>
   (case ts_signingWindow enumerator_session of None \<Rightarrow> False | Some w \<Rightarrow>
      authorises (\<lambda>_. enumerator_prep) (\<lambda>_. prep_builtFor enumerator_prep) (\<lambda>_. Some enumerator_verdict) w) \<and>
   ts_signingWindow (reduce INITIAL_TX_SESSION (Ev_prepared 0)) = None"
proof -
  let ?produced = "evaluated (\<lambda>_. enumerator_prep) (\<lambda>_. prep_builtFor enumerator_prep) (\<lambda>_. Some enumerator_verdict)"
  have "?produced (enumerator_gate (prep_builtFor enumerator_prep))"
    unfolding evaluated_def enumerator_gate_def by blast
  then have r: "tx_reachable ?produced enumerator_session"
    unfolding enumerator_session_def foldl.simps by (intro tx_reachable.intros) simp_all
  have st: "ts_state enumerator_session = Broadcast" by code_simp
  have "tx_reachable published (reduce INITIAL_TX_SESSION (Ev_prepared 0))" by (intro tx_reachable.intros) simp
  from signing_needs_the_gate [THEN conjunct2, THEN conjunct1, rule_format, OF this]
    signing_needs_the_gate [THEN conjunct1, rule_format, OF r] st show ?thesis
    by (auto simp: signing_states_def split: option.splits)
qed

end
