(* ===== verification/Tx_Fees.thy ===== *)
theory Tx_Fees
  imports Tx_Machine
begin

text \<open>
  What is computed from a signing window, \<open>app/packages/transaction-builder/src/fees.ts\<close>
  and \<open>conviction.ts\<close>: the admitted exchange rate, the fee in both currencies with its
  headroom, the era and the nonce, the warning of a phase boundary, and the lock a vote
  imposes. Big integers are \<open>int\<close>, their division is \<open>div\<close> (an admitted rate has
  a positive scale and value, and the fee is not negative); thrown errors are constructors.
\<close>

subsection \<open>Rates and fees\<close>

datatype fee_error =
    Scale_not_positive int | Rate_not_positive | Rate_below int int | Rate_above int int | Negative_fee int
  | Tip_not_priceable int | Other_block string string string | Not_a_block_number int | Bad_in_flight int
  | Bad_enactment_period int | Bad_voting_end int

record vit_usdc_rate =
  vr_value :: int
  vr_reference :: int
  vr_scale :: int

definition LOWER_NUMERATOR :: int where "LOWER_NUMERATOR = 1"
definition LOWER_DENOMINATOR :: int where "LOWER_DENOMINATOR = 10"
definition UPPER_MULTIPLE :: int where "UPPER_MULTIPLE = 10"

definition admitRate :: "vit_usdc_rate finalized \<Rightarrow> (fee_error, vit_usdc_rate finalized) result" where
  "admitRate read =
     (let rate = fz_value read in
      if vr_scale rate \<le> 0 then Inl (Scale_not_positive (vr_scale rate))
      else if vr_value rate \<le> 0 \<or> vr_reference rate \<le> 0 then Inl Rate_not_positive
      else if vr_value rate * LOWER_DENOMINATOR < vr_reference rate * LOWER_NUMERATOR
      then Inl (Rate_below (vr_value rate) (vr_reference rate))
      else if vr_value rate > vr_reference rate * UPPER_MULTIPLE
      then Inl (Rate_above (vr_value rate) (vr_reference rate))
      else Inr (derive read (\<lambda>checked. checked)))"

record fee_estimate =
  fe_vit :: int
  fe_usdc :: int
  fe_selected :: fee_asset
  fe_headroom :: int
  fe_disclosure :: vit_usdc_rate

definition price_fee :: "fee_asset \<Rightarrow> int \<Rightarrow> vit_usdc_rate \<Rightarrow> fee_estimate" where
  "price_fee selected fee admitted =
     (let usdc = (fee * vr_value admitted + vr_scale admitted - 1) div vr_scale admitted in
      \<lparr> fe_vit = fee, fe_usdc = usdc, fe_selected = selected, fe_headroom = (if selected = VIT then fee else usdc),
        fe_disclosure = admitted \<rparr>)"

definition estimateFee ::
  "gate_passed \<Rightarrow> int finalized \<Rightarrow> vit_usdc_rate finalized \<Rightarrow> fee_asset \<Rightarrow> int \<Rightarrow> (fee_error, fee_estimate finalized option) result" where
  "estimateFee passed feeInVit rate selected tip =
     (if fz_value feeInVit < 0 then Inl (Negative_fee (fz_value feeInVit))
      else if tip \<noteq> 0 then Inl (Tip_not_priceable tip)
      else if fb_blockHash (fz_status feeInVit) \<noteq> fb_blockHash (gp_at passed)
      then Inl (Other_block ''fee'' (fb_blockHash (fz_status feeInVit)) (fb_blockHash (gp_at passed)))
      else if fb_blockHash (fz_status rate) \<noteq> fb_blockHash (gp_at passed)
      then Inl (Other_block ''rate'' (fb_blockHash (fz_status rate)) (fb_blockHash (gp_at passed)))
      else Inr (meet feeInVit rate (price_fee selected)))"

subsection \<open>Era and nonce\<close>

definition MORTAL_ERA_BLOCKS :: int where "MORTAL_ERA_BLOCKS = 64"
definition MORTAL_ERA_BLOCKS_RAW_EXTERNAL :: int where "MORTAL_ERA_BLOCKS_RAW_EXTERNAL = 256"
definition PHASE_PROXIMITY_WARNING_BLOCKS :: int where "PHASE_PROXIMITY_WARNING_BLOCKS = 25"

record mortality =
  mo_periodBlocks :: int
  mo_fromBlock :: int

definition mortalityFor :: "gate_passed \<Rightarrow> bool \<Rightarrow> (fee_error, mortality) result" where
  "mortalityFor passed rawExternal =
     (let n = fb_blockNumber (gp_at passed) in
      if n < 0 then Inl (Not_a_block_number n)
      else Inr \<lparr> mo_periodBlocks = (if rawExternal then MORTAL_ERA_BLOCKS_RAW_EXTERNAL else MORTAL_ERA_BLOCKS), mo_fromBlock = n \<rparr>)"

definition nonceFor :: "gate_passed \<Rightarrow> int finalized \<Rightarrow> int \<Rightarrow> (fee_error, int) result" where
  "nonceFor passed finalizedNonce inFlight =
     (if inFlight < 0 then Inl (Bad_in_flight inFlight)
      else if fb_blockHash (fz_status finalizedNonce) \<noteq> fb_blockHash (gp_at passed)
      then Inl (Other_block ''nonce'' (fb_blockHash (fz_status finalizedNonce)) (fb_blockHash (gp_at passed)))
      else Inr (fz_value finalizedNonce + inFlight))"

definition phaseBoundaryWarning :: "int \<Rightarrow> int \<Rightarrow> int option" where
  "phaseBoundaryWarning n boundaryAt =
     (let distance = boundaryAt - n in
      if distance < 0 \<or> distance \<ge> PHASE_PROXIMITY_WARNING_BLOCKS then None else Some distance)"

subsection \<open>Conviction\<close>

datatype conviction = Conviction_None | Locked1x | Locked2x | Locked3x | Locked4x | Locked5x | Locked6x

fun LOCK_PERIODS :: "conviction \<Rightarrow> int" where
  "LOCK_PERIODS Conviction_None = 0"
| "LOCK_PERIODS Locked1x = 1"
| "LOCK_PERIODS Locked2x = 2"
| "LOCK_PERIODS Locked3x = 4"
| "LOCK_PERIODS Locked4x = 8"
| "LOCK_PERIODS Locked5x = 16"
| "LOCK_PERIODS Locked6x = 32"

fun VOTE_WEIGHT_TENTHS :: "conviction \<Rightarrow> int" where
  "VOTE_WEIGHT_TENTHS Conviction_None = 1"
| "VOTE_WEIGHT_TENTHS Locked1x = 10"
| "VOTE_WEIGHT_TENTHS Locked2x = 20"
| "VOTE_WEIGHT_TENTHS Locked3x = 30"
| "VOTE_WEIGHT_TENTHS Locked4x = 40"
| "VOTE_WEIGHT_TENTHS Locked5x = 50"
| "VOTE_WEIGHT_TENTHS Locked6x = 60"

definition CONVICTIONS :: "conviction list" where
  "CONVICTIONS = [Conviction_None, Locked1x, Locked2x, Locked3x, Locked4x, Locked5x, Locked6x]"

definition lockPeriods :: "conviction \<Rightarrow> int" where
  "lockPeriods c = LOCK_PERIODS c"

record lock_disclosed =
  ld_conviction :: conviction
  ld_lockBlocks :: int
  ld_unlocksAtEarliest :: int
  ld_weightTenths :: int

definition discloseLock :: "conviction \<Rightarrow> int \<Rightarrow> int \<Rightarrow> (fee_error, lock_disclosed) result" where
  "discloseLock c enactmentPeriodBlocks votingEndsAtBlock =
     (if enactmentPeriodBlocks < 0 then Inl (Bad_enactment_period enactmentPeriodBlocks)
      else if votingEndsAtBlock < 0 then Inl (Bad_voting_end votingEndsAtBlock)
      else
        let lockBlocks = LOCK_PERIODS c * enactmentPeriodBlocks in
        Inr \<lparr> ld_conviction = c, ld_lockBlocks = lockBlocks, ld_unlocksAtEarliest = votingEndsAtBlock + lockBlocks,
          ld_weightTenths = VOTE_WEIGHT_TENTHS c \<rparr>)"

datatype vote_intent = Standard_vote bool int | Split_vote int int | Split_abstain int int int

definition acceptsConviction :: "vote_intent \<Rightarrow> bool" where
  "acceptsConviction intent = (case intent of Standard_vote _ _ \<Rightarrow> True | _ \<Rightarrow> False)"

subsection \<open>Facts about fees\<close>

lemma ceiling_div:
  assumes "0 < (s::int)"
  shows "x \<le> (x + s - 1) div s * s" "((x + s - 1) div s - 1) * s < x"
proof -
  define q r where "q = (x + s - 1) div s" and "r = (x + s - 1) mod s"
  have "q * s + r = x + s - 1" "0 \<le> r" "r < s" using assms by (simp_all add: q_def r_def)
  then show "x \<le> (x + s - 1) div s * s" "((x + s - 1) div s - 1) * s < x"
    by (simp_all add: q_def [symmetric] left_diff_distrib)
qed

lemma admitRate_Inr:
  assumes "admitRate read = Inr rate"
  shows "rate = read" "0 < vr_scale (fz_value read)" "0 < vr_value (fz_value read)" "0 < vr_reference (fz_value read)"
    "vr_reference (fz_value read) \<le> 10 * vr_value (fz_value read)"
    "vr_value (fz_value read) \<le> 10 * vr_reference (fz_value read)"
  using assms
  by (auto simp: admitRate_def Let_def derive_def finalize_def LOWER_NUMERATOR_def LOWER_DENOMINATOR_def UPPER_MULTIPLE_def
      split: if_splits)

definition sample_rate :: "vit_usdc_rate finalized" where
  "sample_rate = finalize \<lparr> vr_value = 250000, vr_reference = 1000000, vr_scale = 1000000 \<rparr> sample_pin"

definition sample_window :: gate_passed where
  "sample_window = \<lparr> gp_at = sample_pin, gp_prep = 0, gp_scaleHex = ''0x00'', gp_account = ''alice'', gp_results = [] \<rparr>"

text \<open>
  A fee is priced at the gate's block or not at all: under an admitted rate an estimate is
  refused exactly for a negative fee, a tip or a read of another block, and missing exactly
  for reads of different chains; an estimate carries the pin of the fee, its USDC figure is
  the least whole amount that covers the fee at the rate (so rounding is against the payer
  by less than one unit and stays within a factor of ten of the reference price), and the
  headroom is the figure of the selected currency.
\<close>

theorem fee_priced_at_the_gate:
  assumes "admitRate read = Inr rate"
  shows "case estimateFee passed fee rate selected tip of
      Inl e \<Rightarrow> fz_value fee < 0 \<or> tip \<noteq> 0 \<or> fb_blockHash (fz_status fee) \<noteq> fb_blockHash (gp_at passed) \<or>
        fb_blockHash (fz_status read) \<noteq> fb_blockHash (gp_at passed)
    | Inr None \<Rightarrow> fb_chain (fz_status fee) \<noteq> fb_chain (fz_status read)
    | Inr (Some estimate) \<Rightarrow>
        0 \<le> fz_value fee \<and> tip = 0 \<and> fz_status estimate = fz_status fee \<and>
        fb_blockHash (fz_status fee) = fb_blockHash (gp_at passed) \<and>
        fb_blockHash (fz_status read) = fb_blockHash (gp_at passed) \<and> fb_chain (fz_status read) = fb_chain (fz_status fee) \<and>
        fe_vit (fz_value estimate) = fz_value fee \<and>
        fz_value fee * vr_value (fz_value read) \<le> fe_usdc (fz_value estimate) * vr_scale (fz_value read) \<and>
        (fe_usdc (fz_value estimate) - 1) * vr_scale (fz_value read) < fz_value fee * vr_value (fz_value read) \<and>
        fz_value fee * vr_reference (fz_value read) \<le> 10 * fe_usdc (fz_value estimate) * vr_scale (fz_value read) \<and>
        (fe_usdc (fz_value estimate) - 1) * vr_scale (fz_value read) < 10 * (fz_value fee * vr_reference (fz_value read)) + 1 \<and>
        fe_headroom (fz_value estimate) = (if selected = VIT then fe_vit (fz_value estimate) else fe_usdc (fz_value estimate))"
proof -
  note admitted = admitRate_Inr [OF assms]
  show ?thesis
  proof (cases "estimateFee passed fee rate selected tip")
    case (Inl e)
    then show ?thesis by (auto simp: estimateFee_def admitted(1) split: if_splits)
  next
    case (Inr r)
    have ok: "0 \<le> fz_value fee" "tip = 0" "fb_blockHash (fz_status fee) = fb_blockHash (gp_at passed)"
        "fb_blockHash (fz_status read) = fb_blockHash (gp_at passed)" "r = meet fee read (price_fee selected)"
      using Inr by (auto simp: estimateFee_def admitted(1) split: if_splits)
    show ?thesis
    proof (cases r)
      case None
      then show ?thesis using ok(5) None unfolding Inr None by (auto simp: meet_def ok(3,4) split: if_splits)
    next
      case (Some estimate)
      have e: "fb_chain (fz_status read) = fb_chain (fz_status fee)"
          "estimate = finalize (price_fee selected (fz_value fee) (fz_value read)) (fz_status fee)"
        using Some ok by (auto simp: meet_def split: if_splits)
      define x u where "x = fz_value fee * vr_value (fz_value read)"
        and "u = (x + vr_scale (fz_value read) - 1) div vr_scale (fz_value read)"
      have u: "x \<le> u * vr_scale (fz_value read)" "(u - 1) * vr_scale (fz_value read) < x"
        using ceiling_div [OF admitted(2)] by (simp_all add: u_def)
      have "fz_value fee * vr_reference (fz_value read) \<le> 10 * x" "x \<le> 10 * (fz_value fee * vr_reference (fz_value read))"
        using mult_left_mono [OF admitted(5) ok(1)] mult_left_mono [OF admitted(6) ok(1)] by (simp_all add: x_def)
      then show ?thesis unfolding Inr Some using ok(1-4) e u
        by (simp add: finalize_def price_fee_def Let_def u_def x_def)
    qed
  qed
qed

theorem fee_priced_at_the_gate_witness:
  "admitRate sample_rate = Inr sample_rate \<and>
   (case estimateFee sample_window (finalize 7 sample_pin) sample_rate USDC 0 of
      Inr (Some estimate) \<Rightarrow> fe_usdc (fz_value estimate) = 2 \<and> fe_headroom (fz_value estimate) = 2 \<and> fz_status estimate = sample_pin
    | _ \<Rightarrow> False)"
proof -
  have a: "admitRate sample_rate = Inr sample_rate" by code_simp
  have e: "case estimateFee sample_window (finalize 7 sample_pin) sample_rate USDC 0 of
      Inr (Some estimate) \<Rightarrow> fe_usdc (fz_value estimate) = 2 | _ \<Rightarrow> False" by code_simp
  from fee_priced_at_the_gate [OF a, where passed = sample_window and fee = "finalize 7 sample_pin" and selected = USDC and tip = 0] a e show ?thesis
    by (cases "estimateFee sample_window (finalize 7 sample_pin) sample_rate USDC 0")
      (auto simp: finalize_def split: option.splits)
qed

end
