(* ===== verification/Js_Value.thy ===== *)
theory Js_Value
  imports Js_Number "HOL-Library.Multiset"
begin

text \<open>
  Untyped JavaScript values, as they come back from storage or another tab, and the parts of
  the standard library that read them: property access, \<open>Array.prototype.sort\<close>,
  \<open>forEach\<close> with a callback that may throw, \<open>String.prototype.trim\<close> and
  the pattern every 32-byte hash of the repository is tested against.
\<close>

subsection \<open>Values and property access\<close>

datatype js_value =
    JUndefined
  | JNull
  | JBool bool
  | JNumber js_number
  | JString string
  | JArray "js_value list"
  | JObject "(string \<times> js_value) list"

definition js_get :: "js_value \<Rightarrow> string \<Rightarrow> js_value" where
  "js_get v k = (case v of JObject ps \<Rightarrow> (case map_of ps k of Some x \<Rightarrow> x | None \<Rightarrow> JUndefined) | _ \<Rightarrow> JUndefined)"

text \<open>\<open>v === null || typeof v !== 'object'\<close>, negated.\<close>

definition js_is_object :: "js_value \<Rightarrow> bool" where
  "js_is_object v = (case v of JObject _ \<Rightarrow> True | JArray _ \<Rightarrow> True | _ \<Rightarrow> False)"

text \<open>\<open>Number.isInteger\<close>, which refuses everything that is not a number.\<close>

definition js_integer :: "js_value \<Rightarrow> int option" where
  "js_integer v = (case v of JNumber (Num r) \<Rightarrow> if of_int \<lfloor>r\<rfloor> = r then Some \<lfloor>r\<rfloor> else None | _ \<Rightarrow> None)"

definition js_finite :: "js_value \<Rightarrow> rat option" where
  "js_finite v = (case v of JNumber (Num r) \<Rightarrow> Some r | _ \<Rightarrow> None)"

definition js_string :: "js_value \<Rightarrow> string option" where
  "js_string v = (case v of JString s \<Rightarrow> Some s | _ \<Rightarrow> None)"

lemma js_get_simps [simp]:
  "js_get (JObject []) k = JUndefined"
  "js_get (JObject ((j, v) # ps)) k = (if k = j then v else js_get (JObject ps) k)"
  by (simp_all add: js_get_def)

lemma js_value_readers [simp]:
  "js_integer (JNumber (Num (of_int n))) = Some n"
  "js_finite (JNumber (Num r)) = Some r"
  "js_string (JString s) = Some s"
  "js_is_object (JObject ps)"
  by (simp_all add: js_integer_def js_finite_def js_string_def js_is_object_def)

subsection \<open>Loops that may throw\<close>

text \<open>\<open>xs.forEach(f)\<close>: the first throw ends it.\<close>

fun for_each :: "('a \<Rightarrow> ('e, 'b) result) \<Rightarrow> 'a list \<Rightarrow> ('e, unit) result" where
  "for_each f [] = Inr ()"
| "for_each f (x # xs) = rbind (f x) (\<lambda>_. for_each f xs)"

lemma for_each_Inr [simp]: "for_each f xs = Inr u \<longleftrightarrow> (\<forall>x \<in> set xs. returns (f x))"
  by (induction xs) (auto simp: rbind_def returns_def split: sum.splits)

lemma for_each_returns [simp]: "returns (for_each f xs) \<longleftrightarrow> (\<forall>x \<in> set xs. returns (f x))"
  unfolding returns_iff [of "for_each f xs"] by simp

subsection \<open>Sorting\<close>

text \<open>
  \<open>xs.sort(cmp)\<close>. The standard prescribes a stable sort, so for a consistent
  comparator the result is the one insertion sort computes.
\<close>

fun insert_by :: "('a \<Rightarrow> 'a \<Rightarrow> int) \<Rightarrow> 'a \<Rightarrow> 'a list \<Rightarrow> 'a list" where
  "insert_by cmp x [] = [x]"
| "insert_by cmp x (y # ys) = (if cmp x y \<le> 0 then x # y # ys else y # insert_by cmp x ys)"

definition js_sort :: "('a \<Rightarrow> 'a \<Rightarrow> int) \<Rightarrow> 'a list \<Rightarrow> 'a list" where
  "js_sort cmp xs = foldr (insert_by cmp) xs []"

text \<open>\<open>a || b\<close> on the numbers a comparator returns.\<close>

definition js_or :: "int \<Rightarrow> int \<Rightarrow> int" where
  "js_or a b = (if a \<noteq> 0 then a else b)"

text \<open>A comparator that is consistent on \<open>S\<close>.\<close>

definition compares :: "('a \<Rightarrow> 'a \<Rightarrow> int) \<Rightarrow> 'a set \<Rightarrow> bool" where
  "compares cmp S \<longleftrightarrow>
     (\<forall>a \<in> S. \<forall>b \<in> S. cmp a b < 0 \<longleftrightarrow> 0 < cmp b a) \<and>
     (\<forall>a \<in> S. \<forall>b \<in> S. \<forall>c \<in> S. cmp a b \<le> 0 \<longrightarrow> cmp b c \<le> 0 \<longrightarrow> cmp a c \<le> 0)"

lemma mset_insert_by [simp]: "mset (insert_by cmp x xs) = add_mset x (mset xs)"
  by (induction xs) auto

lemma mset_js_sort [simp]: "mset (js_sort cmp xs) = mset xs"
  by (induction xs) (simp_all add: js_sort_def)

lemma set_js_sort [simp]: "set (js_sort cmp xs) = set xs"
  by (rule mset_eq_setD) simp

lemma js_sort_Nil [simp]: "js_sort cmp [] = []"
  by (simp add: js_sort_def)

lemma js_sort_Cons: "js_sort cmp (x # xs) = insert_by cmp x (js_sort cmp xs)"
  by (simp add: js_sort_def)

lemma js_sort_eq_Nil_iff [simp]: "js_sort cmp xs = [] \<longleftrightarrow> xs = []"
  by (simp flip: set_empty)

lemma set_insert_by [simp]: "set (insert_by cmp x xs) = insert x (set xs)"
  by (induction xs) auto

lemma compares_sign: "compares cmp S \<Longrightarrow> a \<in> S \<Longrightarrow> b \<in> S \<Longrightarrow> cmp a b < 0 \<longleftrightarrow> 0 < cmp b a"
  unfolding compares_def by blast

lemma compares_total: "compares cmp S \<Longrightarrow> a \<in> S \<Longrightarrow> b \<in> S \<Longrightarrow> cmp a b \<le> 0 \<or> cmp b a \<le> 0"
  using compares_sign [of cmp S b a] by linarith

lemma compares_trans:
  "compares cmp S \<Longrightarrow> a \<in> S \<Longrightarrow> b \<in> S \<Longrightarrow> c \<in> S \<Longrightarrow> cmp a b \<le> 0 \<Longrightarrow> cmp b c \<le> 0 \<Longrightarrow> cmp a c \<le> 0"
  unfolding compares_def by blast

lemma compares_strict:
  assumes "compares cmp S" "a \<in> S" "b \<in> S" "c \<in> S" "cmp a b \<le> 0" "cmp b c \<le> 0" "cmp a b < 0 \<or> cmp b c < 0"
  shows "cmp a c < 0"
proof (rule ccontr)
  assume "\<not> cmp a c < 0"
  then have ca: "cmp c a \<le> 0" using compares_sign [OF assms(1,2,4)] by simp
  have "cmp b a \<le> 0" by (rule compares_trans [OF assms(1,3,4,2,6) ca])
  moreover have "cmp c b \<le> 0" by (rule compares_trans [OF assms(1,4,2,3) ca assms(5)])
  ultimately show False
    using assms(7) compares_sign [OF assms(1,2,3)] compares_sign [OF assms(1,3,4)] by auto
qed

lemma js_or_le: "js_or a b \<le> 0 \<longleftrightarrow> a < 0 \<or> a = 0 \<and> b \<le> 0"
  by (auto simp: js_or_def)

text \<open>Breaking the ties of one comparator by another, and comparing a part.\<close>

lemma compares_or:
  assumes 1: "compares f S" and 2: "compares g S"
  shows "compares (\<lambda>a b. js_or (f a b) (g a b)) S"
  unfolding compares_def
proof (intro conjI ballI impI)
  fix a b assume "a \<in> S" "b \<in> S"
  then show "(js_or (f a b) (g a b) < 0) = (0 < js_or (f b a) (g b a))"
    using compares_sign [OF 1, of a b] compares_sign [OF 1, of b a] compares_sign [OF 2, of a b]
    unfolding js_or_def by (simp split: if_splits) linarith
next
  fix a b c assume S: "a \<in> S" "b \<in> S" "c \<in> S"
    and ab: "js_or (f a b) (g a b) \<le> 0" and bc: "js_or (f b c) (g b c) \<le> 0"
  have f: "f a b \<le> 0" "f b c \<le> 0" using ab bc by (auto simp: js_or_le)
  show "js_or (f a c) (g a c) \<le> 0"
  proof (cases "f a b < 0 \<or> f b c < 0")
    case True
    then show ?thesis using compares_strict [OF 1 S f] by (simp add: js_or_le)
  next
    case False
    then have "g a b \<le> 0" "g b c \<le> 0" using ab bc by (auto simp: js_or_le)
    then have "g a c \<le> 0" by (rule compares_trans [OF 2 S])
    moreover have "f a c \<le> 0" by (rule compares_trans [OF 1 S f])
    ultimately show ?thesis by (auto simp: js_or_le)
  qed
qed

lemma compares_subset: "compares cmp S \<Longrightarrow> T \<subseteq> S \<Longrightarrow> compares cmp T"
  unfolding compares_def by (meson subsetD)

lemma compares_refl: "compares cmp S \<Longrightarrow> a \<in> S \<Longrightarrow> cmp a a = 0"
  using compares_sign [of cmp S a a] by arith

lemma compares_image: "compares cmp (h ` S) \<Longrightarrow> compares (\<lambda>a b. cmp (h a) (h b)) S"
  unfolding compares_def by blast

lemma compares_key: "compares (\<lambda>a b. key a - key b) S"
  by (auto simp: compares_def)

lemma sorted_insert_by:
  assumes "compares cmp S" "x \<in> S" "set xs \<subseteq> S" "sorted_wrt (\<lambda>a b. cmp a b \<le> 0) xs"
  shows "sorted_wrt (\<lambda>a b. cmp a b \<le> 0) (insert_by cmp x xs)"
  using assms(3,4)
proof (induction xs)
  case Nil
  show ?case by simp
next
  case (Cons y ys)
  have S: "y \<in> S" "set ys \<subseteq> S" using Cons.prems by simp_all
  have tot: "cmp x y \<le> 0 \<or> cmp y x \<le> 0" by (rule compares_total [OF assms(1,2) S(1)])
  have tr: "\<forall>z \<in> set ys. cmp x y \<le> 0 \<longrightarrow> cmp x z \<le> 0"
    using compares_trans [OF assms(1,2) S(1)] S(2) Cons.prems(2) by auto
  show ?case using Cons.IH [OF S(2)] Cons.prems(2) tot tr by auto
qed

lemma sorted_js_sort:
  assumes "compares cmp (set xs)"
  shows "sorted_wrt (\<lambda>a b. cmp a b \<le> 0) (js_sort cmp xs)"
proof -
  have "set ys \<subseteq> set xs \<Longrightarrow> sorted_wrt (\<lambda>a b. cmp a b \<le> 0) (js_sort cmp ys)" for ys
  proof (induction ys)
    case Nil
    show ?case by simp
  next
    case (Cons y ys)
    then show ?case unfolding js_sort_Cons by (intro sorted_insert_by [OF assms]) simp_all
  qed
  then show ?thesis by blast
qed

subsection \<open>Strings\<close>

text \<open>White space as \<open>trim\<close> removes it, among the characters below 256.\<close>

definition js_whitespace :: "char \<Rightarrow> bool" where
  "js_whitespace c = (of_char c \<in> {9, 10, 11, 12, 13, 32, 160 :: nat})"

definition js_blank :: "string \<Rightarrow> bool" where
  "js_blank s = list_all js_whitespace s"

definition lower_hex :: "char \<Rightarrow> bool" where
  "lower_hex c = (c \<in> set ''0123456789abcdef'')"

definition HASH_32 :: "string \<Rightarrow> bool" where
  "HASH_32 s = (take 2 s = ''0x'' \<and> length s = 66 \<and> list_all lower_hex (drop 2 s))"

end
