(* ===== verification/Local_Coverage.thy ===== *)
theory Local_Coverage
  imports Js_Value Provenance
begin

text \<open>
  The coverage of the local index, \<open>app/packages/local-index/src/coverage.ts\<close>: which
  blocks have been ingested, each range with its origin and the edge facts that can be checked
  against the chain. Ranges of different provenance are never joined; holes are computed.
\<close>

subsection \<open>Ranges\<close>

datatype range_edge = Checked_edge string string int | Unverifiable_edge string string

record indexed_range =
  ir_fromBlock :: int
  ir_toBlock :: int
  ir_ingestedAt :: rat
  ir_edge :: range_edge
  ir_origin :: range_origin

type_synonym hole = "int \<times> int"

record indexed_coverage =
  ic_ranges :: "indexed_range list"
  ic_holes :: "hole list"

datatype coverage_error =
    Not_an_object
  | Bad_block string
  | Runs_backwards
  | Bad_ingestedAt
  | Unknown_origin
  | Unnamed_provider
  | Self_with_provider
  | No_edge
  | Unknown_edge_kind
  | No_genesis
  | No_reason
  | Unverifiable_with_facts
  | No_edge_hash
  | No_edge_spec_version
  | Two_chains
  | Not_canonical
  | Holes_mismatch
  | Foreign_genesis
  | Not_a_genesis_hash

fun edge_genesis :: "range_edge \<Rightarrow> string" where
  "edge_genesis (Checked_edge g h s) = g"
| "edge_genesis (Unverifiable_edge g w) = g"

definition selfRange :: "int \<Rightarrow> int \<Rightarrow> rat \<Rightarrow> range_edge \<Rightarrow> indexed_range" where
  "selfRange fromBlock toBlock ingestedAt edge =
     \<lparr> ir_fromBlock = fromBlock, ir_toBlock = toBlock, ir_ingestedAt = ingestedAt, ir_edge = edge, ir_origin = Self \<rparr>"

text \<open>A non-verifying origin comes with the provider it names, so the two arguments are one.\<close>

definition providerRange :: "range_origin \<Rightarrow> int \<Rightarrow> int \<Rightarrow> rat \<Rightarrow> range_edge \<Rightarrow> indexed_range" where
  "providerRange origin fromBlock toBlock ingestedAt edge =
     \<lparr> ir_fromBlock = fromBlock, ir_toBlock = toBlock, ir_ingestedAt = ingestedAt, ir_edge = edge, ir_origin = origin \<rparr>"

definition rangeForSource :: "range_origin \<Rightarrow> int \<Rightarrow> int \<Rightarrow> rat \<Rightarrow> range_edge \<Rightarrow> indexed_range" where
  "rangeForSource source fromBlock toBlock ingestedAt edge =
     (if source = Self then selfRange fromBlock toBlock ingestedAt edge
      else providerRange source fromBlock toBlock ingestedAt edge)"

subsection \<open>Well-formedness\<close>

text \<open>The checks read an untyped value: a record out of storage is whatever was stored.\<close>

definition MAX_BLOCK :: int where
  "MAX_BLOCK = 2 ^ 32 - 1"

definition assertBlock :: "js_value \<Rightarrow> string \<Rightarrow> (coverage_error, int) result" where
  "assertBlock x what =
     (case js_integer x of
        None \<Rightarrow> Inl (Bad_block what)
      | Some n \<Rightarrow> if n < 0 \<or> n > MAX_BLOCK then Inl (Bad_block what) else Inr n)"

definition js_hash :: "js_value \<Rightarrow> string option" where
  "js_hash v = (case js_string v of Some s \<Rightarrow> if HASH_32 s then Some s else None | None \<Rightarrow> None)"

definition assertEdge :: "js_value \<Rightarrow> (coverage_error, range_edge) result" where
  "assertEdge rng =
     (let edge = js_get rng ''edge''; kind = js_get edge ''kind'' in
      if \<not> js_is_object edge then Inl No_edge
      else if kind \<noteq> JString ''checked'' \<and> kind \<noteq> JString ''unverifiable'' then Inl Unknown_edge_kind
      else (case js_hash (js_get edge ''genesisHash'') of
          None \<Rightarrow> Inl No_genesis
        | Some genesis \<Rightarrow>
            if kind = JString ''unverifiable'' then
              (case js_string (js_get edge ''why'') of
                 None \<Rightarrow> Inl No_reason
               | Some why \<Rightarrow>
                   if js_blank why then Inl No_reason
                   else if js_get edge ''hash'' \<noteq> JUndefined \<or> js_get edge ''specVersion'' \<noteq> JUndefined
                     then Inl Unverifiable_with_facts
                   else Inr (Unverifiable_edge genesis why))
            else (case js_hash (js_get edge ''hash'') of
                None \<Rightarrow> Inl No_edge_hash
              | Some hash \<Rightarrow>
                  (case js_integer (js_get edge ''specVersion'') of
                     None \<Rightarrow> Inl No_edge_spec_version
                   | Some spec \<Rightarrow> if spec < 0 then Inl No_edge_spec_version
                                   else Inr (Checked_edge genesis hash spec)))))"

text \<open>\<open>ORIGINS\<close>, each with the typed origin it stands for.\<close>

definition ORIGINS :: "(string \<times> (string \<Rightarrow> range_origin)) list" where
  "ORIGINS = [(''self'', \<lambda>_. Self), (''operator'', Operator), (''snapshot'', Snapshot), (''indexer'', Indexer)]"

definition assertOrigin :: "js_value \<Rightarrow> (coverage_error, range_origin) result" where
  "assertOrigin rng =
     (case js_string (js_get rng ''origin'') of
        None \<Rightarrow> Inl Unknown_origin
      | Some origin \<Rightarrow>
          (case map_of ORIGINS origin of
             None \<Rightarrow> Inl Unknown_origin
           | Some mk \<Rightarrow>
               if origin \<noteq> ''self'' then
                 (case js_string (js_get rng ''providerId'') of
                    None \<Rightarrow> Inl Unnamed_provider
                  | Some p \<Rightarrow> if p = '''' then Inl Unnamed_provider else Inr (mk p))
               else if js_get rng ''providerId'' \<noteq> JUndefined then Inl Self_with_provider
               else Inr (mk '''')))"

text \<open>Returns the range the value denotes.\<close>

definition assertWellFormed :: "js_value \<Rightarrow> (coverage_error, indexed_range) result" where
  "assertWellFormed rng =
     (if \<not> js_is_object rng then Inl Not_an_object
      else rbind (assertBlock (js_get rng ''fromBlock'') ''fromBlock'') (\<lambda>fromBlock.
           rbind (assertBlock (js_get rng ''toBlock'') ''toBlock'') (\<lambda>toBlock.
           if toBlock < fromBlock then Inl Runs_backwards
           else (case js_finite (js_get rng ''ingestedAt'') of
               None \<Rightarrow> Inl Bad_ingestedAt
             | Some ingestedAt \<Rightarrow>
                 if ingestedAt < 0 then Inl Bad_ingestedAt
                 else rbind (assertOrigin rng) (\<lambda>origin.
                      rbind (assertEdge rng) (\<lambda>edge.
                      Inr \<lparr> ir_fromBlock = fromBlock, ir_toBlock = toBlock, ir_ingestedAt = ingestedAt,
                            ir_edge = edge, ir_origin = origin \<rparr>))))))"

text \<open>A typed range as the object it is.\<close>

definition origin_fields :: "range_origin \<Rightarrow> (string \<times> js_value) list" where
  "origin_fields o' = (case o' of
       Self \<Rightarrow> [(''origin'', JString ''self'')]
     | Operator p \<Rightarrow> [(''origin'', JString ''operator''), (''providerId'', JString p)]
     | Snapshot p \<Rightarrow> [(''origin'', JString ''snapshot''), (''providerId'', JString p)]
     | Indexer p \<Rightarrow> [(''origin'', JString ''indexer''), (''providerId'', JString p)])"

definition edge_value :: "range_edge \<Rightarrow> js_value" where
  "edge_value e = JObject (case e of
       Checked_edge g h s \<Rightarrow> [(''kind'', JString ''checked''), (''genesisHash'', JString g), (''hash'', JString h),
         (''specVersion'', JNumber (Num (of_int s)))]
     | Unverifiable_edge g w \<Rightarrow> [(''kind'', JString ''unverifiable''), (''genesisHash'', JString g),
         (''why'', JString w)])"

definition range_value :: "indexed_range \<Rightarrow> js_value" where
  "range_value r = JObject
     ([(''fromBlock'', JNumber (Num (of_int (ir_fromBlock r)))), (''toBlock'', JNumber (Num (of_int (ir_toBlock r)))),
       (''ingestedAt'', JNumber (Num (ir_ingestedAt r))), (''edge'', edge_value (ir_edge r))]
      @ origin_fields (ir_origin r))"

abbreviation checkRange :: "indexed_range \<Rightarrow> (coverage_error, indexed_range) result" where
  "checkRange r \<equiv> assertWellFormed (range_value r)"

subsection \<open>Provenance and position\<close>

definition sameProvenance :: "indexed_range \<Rightarrow> indexed_range \<Rightarrow> bool" where
  "sameProvenance a b = (ir_origin a = ir_origin b)"

definition adjacentOrOverlapping :: "indexed_range \<Rightarrow> indexed_range \<Rightarrow> bool" where
  "adjacentOrOverlapping a b = (ir_toBlock a \<ge> ir_fromBlock b - 1 \<and> ir_toBlock b \<ge> ir_fromBlock a - 1)"

text \<open>The holes of a list of ranges, over an explicit span or over their own extent.\<close>

fun hole_loop :: "int \<Rightarrow> indexed_range list \<Rightarrow> int \<Rightarrow> hole list \<times> int" where
  "hole_loop until [] cursor = ([], cursor)"
| "hole_loop until (rng # ranges) cursor =
     (if ir_toBlock rng < cursor then hole_loop until ranges cursor
      else (let found = (if ir_fromBlock rng > cursor then [(cursor, min (ir_fromBlock rng - 1) until)] else []);
                cursor' = max cursor (ir_toBlock rng + 1)
            in if cursor' > until then (found, cursor')
               else (let (holes, c) = hole_loop until ranges cursor' in (found @ holes, c))))"

definition checkSpan :: "hole \<Rightarrow> (coverage_error, unit) result" where
  "checkSpan window =
     rbind (assertBlock (JNumber (Num (of_int (fst window)))) ''span.fromBlock'') (\<lambda>lo.
     rbind (assertBlock (JNumber (Num (of_int (snd window)))) ''span.toBlock'') (\<lambda>hi.
     if hi < lo then Inl Runs_backwards else Inr ()))"

definition by_fromBlock :: "indexed_range \<Rightarrow> indexed_range \<Rightarrow> int" where
  "by_fromBlock a b = ir_fromBlock a - ir_fromBlock b"

definition by_span :: "indexed_range \<Rightarrow> indexed_range \<Rightarrow> int" where
  "by_span a b = js_or (ir_fromBlock a - ir_fromBlock b) (ir_toBlock a - ir_toBlock b)"

text \<open>The loop of \<open>holesIn\<close> over already validated input.\<close>

definition holes_of :: "indexed_range list \<Rightarrow> hole option \<Rightarrow> hole list" where
  "holes_of ranges window =
     (if ranges = [] then (case window of None \<Rightarrow> [] | Some s \<Rightarrow> [s])
      else (let sorted = js_sort by_fromBlock ranges;
                first = (case window of None \<Rightarrow> ir_fromBlock (hd sorted) | Some s \<Rightarrow> fst s);
                until = (case window of None \<Rightarrow> foldl (\<lambda>m r. max m (ir_toBlock r)) (ir_toBlock (hd sorted)) sorted
                                   | Some s \<Rightarrow> snd s);
                (holes, cursor) = hole_loop until sorted first
            in filter (\<lambda>(f, t). f \<le> t) (holes @ (if cursor \<le> until then [(cursor, until)] else []))))"

definition holesIn :: "indexed_range list \<Rightarrow> hole option \<Rightarrow> (coverage_error, hole list) result" where
  "holesIn ranges window =
     rbind (case window of None \<Rightarrow> Inr () | Some s \<Rightarrow> checkSpan s) (\<lambda>_.
     rbind (for_each checkRange ranges) (\<lambda>_.
     Inr (holes_of ranges window)))"

subsection \<open>Canonical coverage\<close>

definition providerId :: "range_origin \<Rightarrow> string" where
  "providerId o' = (case o' of Self \<Rightarrow> '''' | Operator p \<Rightarrow> p | Snapshot p \<Rightarrow> p | Indexer p \<Rightarrow> p)"

definition origin_kind :: "range_origin \<Rightarrow> string" where
  "origin_kind o' = (case o' of Self \<Rightarrow> ''self'' | Operator _ \<Rightarrow> ''operator'' | Snapshot _ \<Rightarrow> ''snapshot''
     | Indexer _ \<Rightarrow> ''indexer'')"

definition by_provenance ::
    "(string \<Rightarrow> string \<Rightarrow> int) \<Rightarrow> indexed_range \<Rightarrow> indexed_range \<Rightarrow> int" where
  "by_provenance localeCompare a b =
     js_or (localeCompare (origin_kind (ir_origin a)) (origin_kind (ir_origin b)))
    (js_or (localeCompare (providerId (ir_origin a)) (providerId (ir_origin b)))
           (by_span a b))"

fun neighbours_apart :: "indexed_range list \<Rightarrow> bool" where
  "neighbours_apart (previous # current # ranges) =
     (\<not> (sameProvenance previous current \<and> adjacentOrOverlapping previous current)
      \<and> neighbours_apart (current # ranges))"
| "neighbours_apart ranges = True"

definition assertCanonical ::
    "(string \<Rightarrow> string \<Rightarrow> int) \<Rightarrow> indexed_coverage \<Rightarrow> (coverage_error, unit) result" where
  "assertCanonical localeCompare coverage =
     (let ranges = ic_ranges coverage in
      rbind (for_each checkRange ranges) (\<lambda>_.
      if \<exists>r \<in> set ranges. edge_genesis (ir_edge r) \<noteq> edge_genesis (ir_edge (hd ranges)) then Inl Two_chains
      else if \<not> neighbours_apart (js_sort (by_provenance localeCompare) ranges) then Inl Not_canonical
      else rbind (holesIn ranges None) (\<lambda>expected.
      if expected = ic_holes coverage then Inr () else Inl Holes_mismatch)))"

subsection \<open>Operations\<close>

definition joinRange :: "indexed_range \<Rightarrow> indexed_range \<Rightarrow> indexed_range" where
  "joinRange existing current =
     current \<lparr> ir_fromBlock := min (ir_fromBlock existing) (ir_fromBlock current),
               ir_toBlock := max (ir_toBlock existing) (ir_toBlock current),
               ir_ingestedAt := min (ir_ingestedAt existing) (ir_ingestedAt current),
               ir_edge := (if ir_toBlock existing > ir_toBlock current then ir_edge existing else ir_edge current) \<rparr>"

fun join_loop :: "indexed_range list \<Rightarrow> indexed_range \<Rightarrow> indexed_range list \<times> indexed_range" where
  "join_loop [] current = ([], current)"
| "join_loop (existing # ranges) current =
     (if sameProvenance existing current \<and> adjacentOrOverlapping existing current
      then join_loop ranges (joinRange existing current)
      else (let (joined, c) = join_loop ranges current in (existing # joined, c)))"

definition addRange ::
    "(string \<Rightarrow> string \<Rightarrow> int) \<Rightarrow> indexed_coverage \<Rightarrow> indexed_range \<Rightarrow> (coverage_error, indexed_coverage) result" where
  "addRange localeCompare coverage incoming =
     rbind (checkRange incoming) (\<lambda>_.
     rbind (assertCanonical localeCompare coverage) (\<lambda>_.
     if ic_ranges coverage \<noteq> [] \<and>
        edge_genesis (ir_edge incoming) \<noteq> edge_genesis (ir_edge (hd (ic_ranges coverage))) then Inl Foreign_genesis
     else (let (joined, current) = join_loop (ic_ranges coverage) incoming;
               ranges = js_sort by_span (joined @ [current])
           in rbind (holesIn ranges None) (\<lambda>holes. Inr \<lparr> ic_ranges = ranges, ic_holes = holes \<rparr>))))"


definition isVerifiedAt :: "indexed_coverage \<Rightarrow> int \<Rightarrow> bool" where
  "isVerifiedAt coverage block =
     (\<exists>r \<in> set (ic_ranges coverage). ir_origin r = Self \<and> block \<ge> ir_fromBlock r \<and> block \<le> ir_toBlock r)"

definition invalidateRange ::
    "(string \<Rightarrow> string \<Rightarrow> int) \<Rightarrow> indexed_coverage \<Rightarrow> indexed_range \<Rightarrow> (coverage_error, indexed_coverage) result" where
  "invalidateRange localeCompare coverage target =
     rbind (assertCanonical localeCompare coverage) (\<lambda>_.
     rbind (checkRange target) (\<lambda>_.
     let ranges = filter (\<lambda>r. \<not> (ir_fromBlock r = ir_fromBlock target \<and> ir_toBlock r = ir_toBlock target
                                   \<and> sameProvenance r target)) (ic_ranges coverage)
     in rbind (holesIn ranges None) (\<lambda>holes. Inr \<lparr> ic_ranges = ranges, ic_holes = holes \<rparr>)))"





subsection \<open>Integrity against the chain\<close>

record edge_facts =
  ef_genesisHash :: string
  ef_hash :: string
  ef_specVersion :: int

datatype invalid_reason = Wrong_genesis | Wrong_hash | Wrong_spec_version

datatype range_verdict = Range_ok | Range_invalid invalid_reason | Range_unchecked

definition verifyRange :: "indexed_range \<Rightarrow> edge_facts \<Rightarrow> (coverage_error, range_verdict) result" where
  "verifyRange rng observed =
     rbind (checkRange rng) (\<lambda>_.
     if edge_genesis (ir_edge rng) \<noteq> ef_genesisHash observed then Inr (Range_invalid Wrong_genesis)
     else (case ir_edge rng of
         Unverifiable_edge _ _ \<Rightarrow> Inr Range_unchecked
       | Checked_edge _ hash spec \<Rightarrow>
           if hash \<noteq> ef_hash observed then Inr (Range_invalid Wrong_hash)
           else if spec \<noteq> ef_specVersion observed then Inr (Range_invalid Wrong_spec_version)
           else Inr Range_ok))"

record coverage_verification =
  cv_coverage :: indexed_coverage
  cv_invalidated :: "(indexed_range \<times> invalid_reason) list"
  cv_unchecked :: "indexed_range list"

fun verify_loop ::
    "(string \<Rightarrow> string \<Rightarrow> int) \<Rightarrow> (indexed_range \<Rightarrow> edge_facts option) \<Rightarrow> indexed_range list
     \<Rightarrow> coverage_verification \<Rightarrow> (coverage_error, coverage_verification) result" where
  "verify_loop localeCompare observe [] acc = Inr acc"
| "verify_loop localeCompare observe (rng # ranges) acc =
     (case observe rng of
        None \<Rightarrow> verify_loop localeCompare observe ranges (acc \<lparr> cv_unchecked := cv_unchecked acc @ [rng] \<rparr>)
      | Some facts \<Rightarrow>
          rbind (verifyRange rng facts) (\<lambda>verdict.
          case verdict of
            Range_invalid why \<Rightarrow>
              rbind (invalidateRange localeCompare (cv_coverage acc) rng) (\<lambda>kept.
              verify_loop localeCompare observe ranges
                (acc \<lparr> cv_coverage := kept, cv_invalidated := cv_invalidated acc @ [(rng, why)] \<rparr>))
          | Range_unchecked \<Rightarrow>
              verify_loop localeCompare observe ranges (acc \<lparr> cv_unchecked := cv_unchecked acc @ [rng] \<rparr>)
          | Range_ok \<Rightarrow> verify_loop localeCompare observe ranges acc))"

definition verifyRanges ::
    "(string \<Rightarrow> string \<Rightarrow> int) \<Rightarrow> indexed_coverage \<Rightarrow> (indexed_range \<Rightarrow> edge_facts option)
     \<Rightarrow> (coverage_error, coverage_verification) result" where
  "verifyRanges localeCompare coverage observe =
     rbind (assertCanonical localeCompare coverage) (\<lambda>_.
     verify_loop localeCompare observe (ic_ranges coverage)
       \<lparr> cv_coverage = coverage, cv_invalidated = [], cv_unchecked = [] \<rparr>)"

subsection \<open>Answers with their coverage\<close>

record 'a covered_result =
  cd_data :: 'a
  cd_span :: hole
  cd_ranges :: "indexed_range list"
  cd_holes :: "hole list"

definition covered ::
    "(string \<Rightarrow> string \<Rightarrow> int) \<Rightarrow> indexed_coverage \<Rightarrow> hole \<Rightarrow> 'a \<Rightarrow> (coverage_error, 'a covered_result) result" where
  "covered localeCompare coverage window data =
     rbind (assertCanonical localeCompare coverage) (\<lambda>_.
     rbind (checkSpan window) (\<lambda>_.
     let ranges = filter (\<lambda>rng. ir_toBlock rng \<ge> fst window \<and> ir_fromBlock rng \<le> snd window) (ic_ranges coverage)
     in rbind (holesIn ranges (Some window)) (\<lambda>holes.
        Inr \<lparr> cd_data = data, cd_span = window, cd_ranges = ranges, cd_holes = holes \<rparr>)))"

definition asSharedCoverageRange :: "indexed_range \<Rightarrow> coverage_range" where
  "asSharedCoverageRange rng =
     \<lparr> cr_fromBlock = ir_fromBlock rng, cr_toBlock = ir_toBlock rng, cr_origin = ir_origin rng \<rparr>"

definition boundarySet :: "indexed_range list \<Rightarrow> string list" where
  "boundarySet ranges = coverageBoundarySet \<lparr> co_ranges = map asSharedCoverageRange ranges, co_holes = [] \<rparr>"

subsection \<open>What well-formedness means\<close>

fun edge_ok :: "range_edge \<Rightarrow> bool" where
  "edge_ok (Checked_edge g h s) = (HASH_32 g \<and> HASH_32 h \<and> 0 \<le> s)"
| "edge_ok (Unverifiable_edge g w) = (HASH_32 g \<and> \<not> js_blank w)"

definition range_ok :: "indexed_range \<Rightarrow> bool" where
  "range_ok r \<longleftrightarrow> 0 \<le> ir_fromBlock r \<and> ir_fromBlock r \<le> ir_toBlock r \<and> ir_toBlock r \<le> MAX_BLOCK \<and>
     0 \<le> ir_ingestedAt r \<and> (ir_origin r = Self \<or> providerId (ir_origin r) \<noteq> '''') \<and> edge_ok (ir_edge r)"

lemma assertBlock_Inr: "assertBlock v w = Inr n \<longleftrightarrow> js_integer v = Some n \<and> 0 \<le> n \<and> n \<le> MAX_BLOCK"
  by (auto simp: assertBlock_def split: option.splits)

lemma js_hash_Some: "js_hash v = Some s \<longleftrightarrow> v = JString s \<and> HASH_32 s"
  by (cases v) (auto simp: js_hash_def js_string_def split: option.splits)

lemma js_string_Some: "js_string v = Some s \<longleftrightarrow> v = JString s"
  by (cases v) (auto simp: js_string_def)

lemma assertEdge_ok: "assertEdge v = Inr e \<Longrightarrow> edge_ok e"
  by (auto simp: assertEdge_def Let_def js_hash_Some split: if_splits option.splits)

lemma assertEdge_edge_value:
  "edge_ok e \<Longrightarrow> js_get v ''edge'' = edge_value e \<Longrightarrow> assertEdge v = Inr e"
  by (cases e) (auto simp: assertEdge_def edge_value_def js_hash_def)

lemma assertOrigin_ok: "assertOrigin v = Inr k \<Longrightarrow> k = Self \<or> providerId k \<noteq> ''''"
  by (auto simp: assertOrigin_def ORIGINS_def providerId_def split: if_splits option.splits)

lemma assertOrigin_fields:
  assumes "k = Self \<or> providerId k \<noteq> ''''" "js_get v ''origin'' = js_get (JObject (origin_fields k)) ''origin''"
    "js_get v ''providerId'' = js_get (JObject (origin_fields k)) ''providerId''"
  shows "assertOrigin v = Inr k"
  using assms by (cases k) (auto simp: assertOrigin_def ORIGINS_def origin_fields_def providerId_def)

lemma assertWellFormed_ok: "assertWellFormed v = Inr r \<Longrightarrow> range_ok r"
  by (auto simp: assertWellFormed_def assertBlock_Inr rbind_eq_Inr_iff range_ok_def
      dest: assertEdge_ok assertOrigin_ok split: if_splits option.splits)

lemma checkRange_ok: "range_ok r \<Longrightarrow> checkRange r = Inr r"
  unfolding assertWellFormed_def
  apply (simp add: range_value_def assertBlock_def range_ok_def)
  apply (subst assertOrigin_fields [of "ir_origin r"])
     apply (auto simp: assertEdge_edge_value [of "ir_edge r"])
  done

lemma assertEdge_same: "js_get v ''edge'' = edge_value e \<Longrightarrow> assertEdge v = Inr e' \<Longrightarrow> e' = e"
  by (cases e) (auto simp: assertEdge_def edge_value_def js_hash_Some Let_def split: if_splits option.splits)

lemma assertOrigin_same:
  "js_get v ''origin'' = js_get (JObject (origin_fields k)) ''origin'' \<Longrightarrow>
   js_get v ''providerId'' = js_get (JObject (origin_fields k)) ''providerId'' \<Longrightarrow> assertOrigin v = Inr k' \<Longrightarrow> k' = k"
  by (cases k) (auto simp: assertOrigin_def ORIGINS_def origin_fields_def split: if_splits option.splits)

lemma checkRange_same:
  assumes "checkRange r = Inr q"
  shows "q = r"
proof -
  have "assertOrigin (range_value r) = Inr k \<Longrightarrow> k = ir_origin r" for k
    by (rule assertOrigin_same [of "range_value r"]) (simp_all add: range_value_def)
  moreover have "assertEdge (range_value r) = Inr e \<Longrightarrow> e = ir_edge r" for e
    by (rule assertEdge_same [of "range_value r"]) (simp_all add: range_value_def)
  ultimately show ?thesis using assms
    by (auto simp: assertWellFormed_def assertBlock_Inr rbind_eq_Inr_iff range_value_def split: if_splits)
qed

lemma checkRange_returns [simp]: "returns (checkRange r) \<longleftrightarrow> range_ok r"
  using checkRange_ok [of r] assertWellFormed_ok [of "range_value r"] checkRange_same [of r]
  by (cases "checkRange r") auto

subsection \<open>The sweep computes exactly the uncovered blocks\<close>

definition in_range :: "int \<Rightarrow> indexed_range \<Rightarrow> bool" where
  "in_range b r \<longleftrightarrow> ir_fromBlock r \<le> b \<and> b \<le> ir_toBlock r"

definition in_ranges :: "int \<Rightarrow> indexed_range list \<Rightarrow> bool" where
  "in_ranges b rs \<longleftrightarrow> (\<exists>r \<in> set rs. in_range b r)"

definition in_holes :: "int \<Rightarrow> hole list \<Rightarrow> bool" where
  "in_holes b hs \<longleftrightarrow> (\<exists>(f, t) \<in> set hs. f \<le> b \<and> b \<le> t)"

text \<open>Holes in ascending order, each non-empty, with a covered block between any two.\<close>

fun holes_from :: "int \<Rightarrow> hole list \<Rightarrow> bool" where
  "holes_from c [] \<longleftrightarrow> True"
| "holes_from c ((f, t) # hs) \<longleftrightarrow> c \<le> f \<and> f \<le> t \<and> holes_from (t + 2) hs"

lemma in_ranges_simps [simp]:
  "in_ranges b [] = False" "in_ranges b (r # rs) = (in_range b r \<or> in_ranges b rs)"
  "in_ranges b (rs @ rs') = (in_ranges b rs \<or> in_ranges b rs')"
  by (auto simp: in_ranges_def)

lemma in_holes_simps [simp]:
  "in_holes b [] = False" "in_holes b ((f, t) # hs) = (f \<le> b \<and> b \<le> t \<or> in_holes b hs)"
  "in_holes b (hs @ hs') = (in_holes b hs \<or> in_holes b hs')"
  by (auto simp: in_holes_def)

lemma holes_from_mono: "holes_from c hs \<Longrightarrow> c' \<le> c \<Longrightarrow> holes_from c' hs"
  by (cases hs) auto

lemma holes_from_no_filter: "holes_from c hs \<Longrightarrow> filter (\<lambda>(f, t). f \<le> t) hs = hs"
  by (induction c hs rule: holes_from.induct) auto

text \<open>The loop, closed with the hole after the last range.\<close>

definition closed_loop :: "int \<Rightarrow> indexed_range list \<Rightarrow> int \<Rightarrow> hole list" where
  "closed_loop until rs c = (case hole_loop until rs c of (hs, c') \<Rightarrow> hs @ (if c' \<le> until then [(c', until)] else []))"

lemma closed_loop_simps:
  "closed_loop until [] c = (if c \<le> until then [(c, until)] else [])"
  "closed_loop until (r # rs) c =
     (if ir_toBlock r < c then closed_loop until rs c
      else (if ir_fromBlock r > c then [(c, min (ir_fromBlock r - 1) until)] else []) @
           (if max c (ir_toBlock r + 1) > until then [] else closed_loop until rs (max c (ir_toBlock r + 1))))"
  by (simp_all add: closed_loop_def Let_def split: prod.splits)

lemma closed_loop_spec:
  assumes "\<forall>r \<in> set rs. ir_fromBlock r \<le> ir_toBlock r" "sorted_wrt (\<lambda>a b. ir_fromBlock a \<le> ir_fromBlock b) rs" "c \<le> until"
  shows "holes_from c (closed_loop until rs c) \<and>
    (\<forall>b. in_holes b (closed_loop until rs c) \<longleftrightarrow> c \<le> b \<and> b \<le> until \<and> \<not> in_ranges b rs)"
  using assms
proof (induction rs arbitrary: c)
  case Nil
  then show ?case by (simp add: closed_loop_simps)
next
  case (Cons r rs)
  have prems: "\<forall>r \<in> set rs. ir_fromBlock r \<le> ir_toBlock r" "sorted_wrt (\<lambda>a b. ir_fromBlock a \<le> ir_fromBlock b) rs"
    "ir_fromBlock r \<le> ir_toBlock r" "\<forall>q \<in> set rs. ir_fromBlock r \<le> ir_fromBlock q"
    using Cons.prems by simp_all
  note IH = Cons.IH [OF prems(1,2)]
  let ?f = "ir_fromBlock r" and ?t = "ir_toBlock r"
  consider (skip) "?t < c" | (stop) "\<not> ?t < c" "?t + 1 > until" | (go) "\<not> ?t < c" "\<not> ?t + 1 > until" by blast
  then show ?case
  proof cases
    case skip
    then show ?thesis using IH [of c] Cons.prems(3) by (auto simp: closed_loop_simps in_range_def)
  next
    case stop
    have early: "\<not> in_ranges b rs" if "b < ?f" for b
      using that prems(4) by (auto simp: in_ranges_def in_range_def)
    show ?thesis using stop Cons.prems(3) prems(3) early
      by (auto simp: closed_loop_simps in_range_def)
  next
    case go
    have early: "\<not> in_ranges b rs" if "b < ?f" for b
      using that prems(4) by (auto simp: in_ranges_def in_range_def)
    have m: "max c (?t + 1) = ?t + 1" using go by simp
    have IH': "holes_from (?t + 1) (closed_loop until rs (?t + 1))"
      "in_holes b (closed_loop until rs (?t + 1)) \<longleftrightarrow> ?t + 1 \<le> b \<and> b \<le> until \<and> \<not> in_ranges b rs" for b
      using IH [of "?t + 1"] go by auto
    have u: "closed_loop until (r # rs) c =
        (if ?f > c then [(c, ?f - 1)] else []) @ closed_loop until rs (?t + 1)"
      using go prems(3) by (auto simp: closed_loop_simps m)
    have "holes_from c (closed_loop until (r # rs) c)"
      unfolding u using go prems(3) IH'(1) by (auto intro: holes_from_mono)
    moreover have "in_holes b (closed_loop until (r # rs) c) \<longleftrightarrow> c \<le> b \<and> b \<le> until \<and> \<not> in_ranges b (r # rs)" for b
      unfolding u using go prems(3) early [of b] by (auto simp: IH'(2) in_range_def)
    ultimately show ?thesis by blast
  qed
qed

lemma compares_by_fromBlock: "compares by_fromBlock S"
  unfolding by_fromBlock_def by (rule compares_key)

lemma sorted_by_fromBlock: "sorted_wrt (\<lambda>a b. ir_fromBlock a \<le> ir_fromBlock b) (js_sort by_fromBlock rs)"
  using sorted_js_sort [OF compares_by_fromBlock, of rs] by (simp add: by_fromBlock_def)

lemma foldl_max: "foldl (\<lambda>m r. max m (f r)) a rs = Max (insert a (f ` set rs))" for f :: "'a \<Rightarrow> int"
proof (induction rs arbitrary: a)
  case (Cons r rs)
  show ?case
    by (cases "set rs = {}") (simp_all add: Cons max.assoc max.commute max.left_commute)
qed simp

lemma in_ranges_set: "set rs = set rs' \<Longrightarrow> in_ranges b rs = in_ranges b rs'"
  by (simp add: in_ranges_def)

text \<open>The extent the unbounded question is asked over.\<close>

definition extent :: "indexed_range list \<Rightarrow> hole" where
  "extent rs = (Min (ir_fromBlock ` set rs), Max (ir_toBlock ` set rs))"

definition asked :: "indexed_range list \<Rightarrow> hole option \<Rightarrow> hole" where
  "asked rs window = (case window of None \<Rightarrow> extent rs | Some w \<Rightarrow> w)"

lemma hd_sorted_from:
  assumes "rs \<noteq> []"
  shows "ir_fromBlock (hd (js_sort by_fromBlock rs)) = Min (ir_fromBlock ` set rs)"
proof -
  let ?s = "js_sort by_fromBlock rs"
  have ne: "?s \<noteq> []" using assms by simp
  have "ir_fromBlock (hd ?s) \<le> ir_fromBlock r" if "r \<in> set ?s" for r
    using sorted_by_fromBlock [of rs] that ne by (cases ?s) auto
  moreover have "hd ?s \<in> set rs" using hd_in_set [OF ne] by simp
  ultimately show ?thesis by (intro Min_eqI [symmetric]) auto
qed

lemma holes_of_closed:
  assumes "rs \<noteq> []"
  shows "holes_of rs window = filter (\<lambda>(f, t). f \<le> t)
    (closed_loop (snd (asked rs window)) (js_sort by_fromBlock rs) (fst (asked rs window)))"
proof -
  let ?s = "js_sort by_fromBlock rs"
  have ne: "?s \<noteq> []" using assms by simp
  have "insert (ir_toBlock (hd ?s)) (ir_toBlock ` set ?s) = ir_toBlock ` set ?s"
    using hd_in_set [OF ne] by (auto simp del: set_js_sort)
  then have "foldl (\<lambda>m r. max m (ir_toBlock r)) (ir_toBlock (hd ?s)) ?s = Max (ir_toBlock ` set rs)"
    unfolding foldl_max by simp
  then show ?thesis using assms
    by (cases window) (simp_all add: holes_of_def closed_loop_def Let_def asked_def extent_def hd_sorted_from split: prod.splits)
qed

lemma extent_le:
  assumes "rs \<noteq> []" "\<forall>r \<in> set rs. ir_fromBlock r \<le> ir_toBlock r"
  shows "fst (extent rs) \<le> snd (extent rs)"
proof -
  have r: "hd rs \<in> set rs" using assms(1) by simp
  have "Min (ir_fromBlock ` set rs) \<le> ir_fromBlock (hd rs)" using r by (intro Min_le) auto
  also have "\<dots> \<le> ir_toBlock (hd rs)" using assms(2) r by blast
  also have "\<dots> \<le> Max (ir_toBlock ` set rs)" using r by (intro Max_ge) auto
  finally show ?thesis by (simp add: extent_def)
qed

lemma holes_of_spec:
  assumes "\<forall>r \<in> set rs. ir_fromBlock r \<le> ir_toBlock r" "window = None \<or> fst (the window) \<le> snd (the window)"
  shows "(rs \<noteq> [] \<or> window \<noteq> None \<longrightarrow> holes_from (fst (asked rs window)) (holes_of rs window)) \<and>
    (\<forall>b. in_holes b (holes_of rs window) \<longleftrightarrow>
       (rs \<noteq> [] \<or> window \<noteq> None) \<and> fst (asked rs window) \<le> b \<and> b \<le> snd (asked rs window) \<and> \<not> in_ranges b rs)"
proof (cases "rs = []")
  case True
  then show ?thesis using assms(2) by (cases window) (auto simp: holes_of_def asked_def)
next
  case False
  have le: "fst (asked rs window) \<le> snd (asked rs window)"
    using extent_le [OF False assms(1)] assms(2) by (cases window) (simp_all add: asked_def)
  have "\<forall>r \<in> set (js_sort by_fromBlock rs). ir_fromBlock r \<le> ir_toBlock r" using assms(1) by simp
  note spec = closed_loop_spec [OF this sorted_by_fromBlock le]
  have "holes_of rs window = closed_loop (snd (asked rs window)) (js_sort by_fromBlock rs) (fst (asked rs window))"
    unfolding holes_of_closed [OF False] by (rule holes_from_no_filter [OF conjunct1 [OF spec]])
  with spec False show ?thesis by (simp add: in_ranges_set [OF set_js_sort])
qed

subsection \<open>Canonical coverage and the neighbour check\<close>

definition apart :: "indexed_range \<Rightarrow> indexed_range \<Rightarrow> bool" where
  "apart a b \<longleftrightarrow> \<not> (sameProvenance a b \<and> adjacentOrOverlapping a b)"

definition canonical :: "indexed_range list \<Rightarrow> bool" where
  "canonical rs \<longleftrightarrow> (\<forall>r \<in> set rs. range_ok r) \<and>
     (\<forall>r \<in> set rs. edge_genesis (ir_edge r) = edge_genesis (ir_edge (hd rs))) \<and> sorted_wrt apart rs"

definition coverage_ok :: "indexed_coverage \<Rightarrow> bool" where
  "coverage_ok cov \<longleftrightarrow> canonical (ic_ranges cov) \<and> ic_holes cov = holes_of (ic_ranges cov) None"

lemma apart_sym: "apart a b \<longleftrightarrow> apart b a"
  by (auto simp: apart_def sameProvenance_def adjacentOrOverlapping_def)

lemma sorted_wrt_permuted:
  assumes "\<And>a b. P a b \<longleftrightarrow> P b a" "mset xs = mset ys" "sorted_wrt P xs"
  shows "sorted_wrt P ys"
  using assms(2,3)
proof (induction xs arbitrary: ys)
  case Nil
  then show ?case by simp
next
  case (Cons x xs)
  then have "x \<in> set ys" by (metis list.set_intros(1) mset_eq_setD)
  then obtain as bs where ys: "ys = as @ x # bs" by (auto dest: split_list)
  then have m: "mset xs = mset (as @ bs)" using Cons.prems(1) by simp
  have "sorted_wrt P (as @ bs)" using Cons.IH [OF m] Cons.prems(2) by simp
  moreover have "\<forall>z \<in> set (as @ bs). P x z" using Cons.prems(2) mset_eq_setD [OF m] by simp
  ultimately show ?case unfolding ys using assms(1) by (auto simp: sorted_wrt_append)
qed

lemma canonical_apart:
  assumes "canonical rs" "r \<in> set rs" "q \<in> set rs" "r \<noteq> q"
  shows "apart r q"
proof -
  obtain as bs where rs: "rs = as @ r # bs" using assms(2) by (auto dest: split_list)
  have "sorted_wrt apart rs" using assms(1) by (simp add: canonical_def)
  then show ?thesis using assms(3,4) unfolding rs by (auto simp: sorted_wrt_append apart_sym [of r q])
qed

lemma neighbours_apart_sorted: "sorted_wrt apart rs \<Longrightarrow> neighbours_apart rs"
  by (induction rs rule: neighbours_apart.induct) (auto simp: apart_def)

text \<open>What the neighbour check needs of the platform's collation of the names it meets.\<close>

definition collates :: "(string \<Rightarrow> string \<Rightarrow> int) \<Rightarrow> string set \<Rightarrow> bool" where
  "collates localeCompare names \<longleftrightarrow>
     compares localeCompare names \<and> (\<forall>a \<in> names. \<forall>b \<in> names. localeCompare a b = 0 \<longrightarrow> a = b)"

definition names_of :: "indexed_range list \<Rightarrow> string set" where
  "names_of rs = origin_kind ` ir_origin ` set rs \<union> providerId ` ir_origin ` set rs"

lemma same_origin_iff: "o1 = o2 \<longleftrightarrow> origin_kind o1 = origin_kind o2 \<and> providerId o1 = providerId o2"
  by (cases o1; cases o2) (simp_all add: origin_kind_def providerId_def)

lemma by_span_le: "by_span a b \<le> 0 \<longleftrightarrow> ir_fromBlock a < ir_fromBlock b \<or>
    ir_fromBlock a = ir_fromBlock b \<and> ir_toBlock a \<le> ir_toBlock b"
  by (auto simp: by_span_def js_or_le)

lemma compares_by_span: "compares by_span S"
  unfolding by_span_def by (intro compares_or compares_key)

definition by_origin :: "(string \<Rightarrow> string \<Rightarrow> int) \<Rightarrow> indexed_range \<Rightarrow> indexed_range \<Rightarrow> int" where
  "by_origin lc a b = js_or (lc (origin_kind (ir_origin a)) (origin_kind (ir_origin b)))
                            (lc (providerId (ir_origin a)) (providerId (ir_origin b)))"

lemma by_provenance_split: "by_provenance lc a b = js_or (by_origin lc a b) (by_span a b)"
  by (simp add: by_provenance_def by_origin_def js_or_def)

lemma compares_by_origin:
  assumes "collates lc (names_of rs)"
  shows "compares (by_origin lc) (set rs)"
proof -
  have c: "compares lc (names_of rs)" using assms by (simp add: collates_def)
  have k: "compares lc ((\<lambda>r. origin_kind (ir_origin r)) ` set rs)"
    by (rule compares_subset [OF c]) (force simp: names_of_def)
  have p: "compares lc ((\<lambda>r. providerId (ir_origin r)) ` set rs)"
    by (rule compares_subset [OF c]) (force simp: names_of_def)
  show ?thesis unfolding by_origin_def by (rule compares_or [OF compares_image [OF k] compares_image [OF p]])
qed

lemma by_origin_zero:
  assumes "collates lc (names_of rs)" "r \<in> set rs" "q \<in> set rs" "by_origin lc r q = 0"
  shows "ir_origin r = ir_origin q"
proof -
  have eq: "a = b" if "a \<in> names_of rs" "b \<in> names_of rs" "lc a b = 0" for a b
    using assms(1) that unfolding collates_def by blast
  have n: "origin_kind (ir_origin x) \<in> names_of rs" "providerId (ir_origin x) \<in> names_of rs" if "x \<in> set rs" for x
    using that by (simp_all add: names_of_def)
  have "lc (origin_kind (ir_origin r)) (origin_kind (ir_origin q)) = 0"
    "lc (providerId (ir_origin r)) (providerId (ir_origin q)) = 0"
    using assms(4) by (simp_all add: by_origin_def js_or_def split: if_splits)
  then show ?thesis unfolding same_origin_iff [of "ir_origin r"] using eq n assms(2,3) by blast
qed

lemma by_origin_same:
  assumes "collates lc (names_of rs)" "r \<in> set rs" "ir_origin r = ir_origin q"
  shows "by_origin lc r q = 0"
  using compares_refl [OF compares_by_origin [OF assms(1)] assms(2)] assms(3) by (simp add: by_origin_def)

text \<open>In the sorted list a range between two of one provenance has that provenance.\<close>

lemma neighbours_suffice:
  assumes lc: "collates lc (names_of rs)" and ok: "\<forall>r \<in> set rs. ir_fromBlock r \<le> ir_toBlock r"
    and sub: "set ys \<subseteq> set rs" and sorted: "sorted_wrt (\<lambda>a b. by_provenance lc a b \<le> 0) ys" and n: "neighbours_apart ys"
  shows "sorted_wrt apart ys"
  using sub sorted n
proof (induction ys rule: neighbours_apart.induct)
  case (1 x y ys)
  have S: "x \<in> set rs" "y \<in> set rs" "set (y # ys) \<subseteq> set rs" using 1(2) by auto
  have xy: "by_provenance lc x y \<le> 0" "apart x y" using 1(3,4) by (simp_all add: apart_def)
  have IH: "sorted_wrt apart (y # ys)" using 1 by simp
  have "apart x z" if z: "z \<in> set ys" for z
  proof (cases "ir_origin x = ir_origin z")
    case True
    note c = compares_by_origin [OF lc]
    have zs: "z \<in> set rs" using z S(3) by auto
    have yz: "by_provenance lc y z \<le> 0" using 1(3) z by simp
    have o1: "by_origin lc x y \<le> 0" and o2: "by_origin lc y z \<le> 0"
      using xy(1) yz unfolding by_provenance_split js_or_le by linarith+
    have "by_origin lc x z = 0" by (rule by_origin_same [OF lc S(1) True])
    then have oz: "by_origin lc x y = 0" "by_origin lc y z = 0"
      using compares_strict [OF c S(1,2) zs o1 o2] o1 o2 by linarith+
    have oxy: "ir_origin x = ir_origin y" by (rule by_origin_zero [OF lc S(1,2) oz(1)])
    have "ir_fromBlock x \<le> ir_fromBlock y" "ir_fromBlock y \<le> ir_fromBlock z"
      using xy(1) yz oz unfolding by_provenance_split js_or_le by_span_le by linarith+
    moreover have "ir_fromBlock y \<le> ir_toBlock y" using ok S(2) by blast
    ultimately show ?thesis using xy(2) oxy
      by (auto simp: apart_def sameProvenance_def adjacentOrOverlapping_def)
  next
    case False
    then show ?thesis by (simp add: apart_def sameProvenance_def)
  qed
  with xy(2) IH show ?case by simp
qed simp_all

lemma neighbours_apart_iff:
  assumes "collates lc (names_of rs)" "\<forall>r \<in> set rs. ir_fromBlock r \<le> ir_toBlock r"
  shows "neighbours_apart (js_sort (by_provenance lc) rs) \<longleftrightarrow> sorted_wrt apart rs"
proof
  assume "neighbours_apart (js_sort (by_provenance lc) rs)"
  moreover have "compares (by_provenance lc) (set rs)"
    using compares_or [OF compares_by_origin [OF assms(1)] compares_by_span]
    by (simp flip: by_provenance_split)
  ultimately have "sorted_wrt apart (js_sort (by_provenance lc) rs)"
    by (intro neighbours_suffice [OF assms]) (simp_all add: sorted_js_sort)
  then show "sorted_wrt apart rs" by (rule sorted_wrt_permuted [OF apart_sym mset_js_sort])
next
  assume "sorted_wrt apart rs"
  then have "sorted_wrt apart (js_sort (by_provenance lc) rs)"
    by (rule sorted_wrt_permuted [OF apart_sym mset_js_sort [symmetric]])
  then show "neighbours_apart (js_sort (by_provenance lc) rs)" by (rule neighbours_apart_sorted)
qed

lemma neighbours_apart_canonical:
  "sorted_wrt apart rs \<Longrightarrow> neighbours_apart (js_sort (by_provenance lc) rs)"
  by (rule neighbours_apart_sorted [OF sorted_wrt_permuted [OF apart_sym mset_js_sort [symmetric]]])

lemma holesIn_ok: "\<forall>r \<in> set rs. range_ok r \<Longrightarrow> holesIn rs None = Inr (holes_of rs None)"
  by (simp add: holesIn_def rbind_def split: sum.splits) (metis for_each_returns checkRange_returns returns_simps(2))

lemma for_each_ok: "\<forall>r \<in> set rs. range_ok r \<Longrightarrow> for_each checkRange rs = Inr ()"
  by simp

text \<open>Canonical coverage passes whatever the collation; a collation that tells the names apart
  accepts nothing else.\<close>

lemma assertCanonical_ok: "coverage_ok cov \<Longrightarrow> assertCanonical lc cov = Inr ()"
  unfolding coverage_ok_def canonical_def assertCanonical_def Let_def
  using neighbours_apart_canonical [of "ic_ranges cov" lc] holesIn_ok [of "ic_ranges cov"] for_each_ok [of "ic_ranges cov"]
  by (simp del: for_each_Inr)

lemma assertCanonical_iff:
  assumes "collates lc (names_of (ic_ranges cov))"
  shows "assertCanonical lc cov = Inr () \<longleftrightarrow> coverage_ok cov"
proof
  assume a: "assertCanonical lc cov = Inr ()"
  have ok: "\<forall>r \<in> set (ic_ranges cov). range_ok r"
    using a by (auto simp: assertCanonical_def Let_def rbind_eq_Inr_iff)
  have le: "\<forall>r \<in> set (ic_ranges cov). ir_fromBlock r \<le> ir_toBlock r" using ok by (simp add: range_ok_def)
  show "coverage_ok cov" using a
    unfolding assertCanonical_def Let_def for_each_ok [OF ok] holesIn_ok [OF ok] neighbours_apart_iff [OF assms le]
    by (auto simp: coverage_ok_def canonical_def ok split: if_splits)
qed (rule assertCanonical_ok)

subsection \<open>The blocks each source claims\<close>

definition claims :: "indexed_range list \<Rightarrow> range_origin \<Rightarrow> int set" where
  "claims rs p = {b. \<exists>r \<in> set rs. ir_origin r = p \<and> in_range b r}"

definition blocks :: "indexed_range \<Rightarrow> int set" where
  "blocks r = {ir_fromBlock r .. ir_toBlock r}"

definition add_claim :: "indexed_range \<Rightarrow> (range_origin \<Rightarrow> int set) \<Rightarrow> range_origin \<Rightarrow> int set" where
  "add_claim r C = C(ir_origin r := C (ir_origin r) \<union> blocks r)"

lemma claims_Nil [simp]: "claims [] = (\<lambda>_. {})"
  by (simp add: claims_def fun_eq_iff)

lemma claims_Cons: "claims (r # rs) = add_claim r (claims rs)"
  by (auto simp: claims_def add_claim_def blocks_def in_range_def fun_eq_iff)

lemma claims_set: "set rs = set rs' \<Longrightarrow> claims rs = claims rs'"
  by (simp add: claims_def fun_eq_iff)

lemma claims_append1: "claims (rs @ [r]) = claims (r # rs)"
  by (rule claims_set) simp

lemma add_claim_commute: "add_claim r (add_claim q C) = add_claim q (add_claim r C)"
  by (auto simp: add_claim_def fun_eq_iff)

lemma claims_mono: "set rs \<subseteq> set rs' \<Longrightarrow> claims rs p \<subseteq> claims rs' p"
  by (auto simp: claims_def)

subsection \<open>Joining\<close>

lemma joinRange_facts:
  assumes "ir_fromBlock e \<le> ir_toBlock e" "ir_fromBlock c \<le> ir_toBlock c" "\<not> apart e c"
  shows "ir_origin (joinRange e c) = ir_origin c" "ir_origin e = ir_origin c"
    "blocks (joinRange e c) = blocks e \<union> blocks c" "ir_fromBlock (joinRange e c) \<le> ir_toBlock (joinRange e c)"
  using assms by (auto simp: joinRange_def blocks_def apart_def sameProvenance_def adjacentOrOverlapping_def min_def max_def)

lemma joinRange_ok:
  assumes "range_ok e" "range_ok c" "ir_origin e = ir_origin c"
  shows "range_ok (joinRange e c)"
  using assms by (auto simp: joinRange_def range_ok_def min_def max_def)

lemma joinRange_apart:
  assumes "\<not> apart e c" "ir_fromBlock e \<le> ir_toBlock e" "ir_fromBlock c \<le> ir_toBlock c" "ir_fromBlock x \<le> ir_toBlock x"
    "apart x e" "apart x c"
  shows "apart x (joinRange e c)"
  using assms by (auto simp: joinRange_def apart_def sameProvenance_def adjacentOrOverlapping_def min_def max_def)

lemma joinRange_genesis:
  "edge_genesis (ir_edge e) = g \<Longrightarrow> edge_genesis (ir_edge c) = g \<Longrightarrow> edge_genesis (ir_edge (joinRange e c)) = g"
  by (simp add: joinRange_def)

lemma join_loop_step:
  "join_loop (e # es) c = (if \<not> apart e c then join_loop es (joinRange e c)
     else (e # fst (join_loop es c), snd (join_loop es c)))"
  by (simp add: apart_def split: prod.splits)

declare join_loop.simps(2) [simp del]

text \<open>A range apart from the incoming one and from every existing one is apart from the join.\<close>

lemma join_loop_apart:
  assumes "\<forall>r \<in> set rs. ir_fromBlock r \<le> ir_toBlock r" "ir_fromBlock c \<le> ir_toBlock c" "ir_fromBlock x \<le> ir_toBlock x"
    "\<forall>r \<in> set rs. apart x r" "apart x c"
  shows "apart x (snd (join_loop rs c))"
  using assms
proof (induction rs arbitrary: c)
  case (Cons e rs)
  show ?case
  proof (cases "apart e c")
    case True
    then show ?thesis using Cons.IH [of c] Cons.prems by (simp add: join_loop_step)
  next
    case False
    have le: "ir_fromBlock e \<le> ir_toBlock e" using Cons.prems(1) by simp
    have "apart x (joinRange e c)"
      by (rule joinRange_apart [OF False le Cons.prems(2,3)]) (use Cons.prems in simp_all)
    moreover have "ir_fromBlock (joinRange e c) \<le> ir_toBlock (joinRange e c)"
      by (rule joinRange_facts(4) [OF le Cons.prems(2) False])
    ultimately have "apart x (snd (join_loop rs (joinRange e c)))"
      using Cons.IH [of "joinRange e c"] Cons.prems(1,3,4) by simp
    then show ?thesis by (simp add: join_loop_step False)
  qed
qed simp

lemma join_loop_spec:
  assumes "\<forall>r \<in> set rs. range_ok r" "range_ok c" "sorted_wrt apart rs"
    "\<forall>r \<in> set rs. edge_genesis (ir_edge r) = g" "edge_genesis (ir_edge c) = g"
  shows "set (fst (join_loop rs c)) \<subseteq> set rs \<and> sorted_wrt apart (fst (join_loop rs c)) \<and>
    range_ok (snd (join_loop rs c)) \<and> edge_genesis (ir_edge (snd (join_loop rs c))) = g \<and>
    (\<forall>x \<in> set (fst (join_loop rs c)). apart x (snd (join_loop rs c))) \<and>
    claims (snd (join_loop rs c) # fst (join_loop rs c)) = add_claim c (claims rs)"
  using assms
proof (induction rs arbitrary: c)
  case Nil
  then show ?case by (simp add: claims_Cons)
next
  case (Cons e rs)
  have le: "\<forall>r \<in> set (e # rs). ir_fromBlock r \<le> ir_toBlock r" "ir_fromBlock c \<le> ir_toBlock c"
    using Cons.prems by (simp_all add: range_ok_def)
  show ?case
  proof (cases "apart e c")
    case True
    note IH = Cons.IH [of c]
    let ?j = "fst (join_loop rs c)" and ?c = "snd (join_loop rs c)"
    have IH: "set ?j \<subseteq> set rs" "sorted_wrt apart ?j" "range_ok ?c" "edge_genesis (ir_edge ?c) = g"
      "\<forall>x \<in> set ?j. apart x ?c" "claims (?c # ?j) = add_claim c (claims rs)"
      using IH Cons.prems by simp_all
    have "apart e ?c" by (rule join_loop_apart) (use True le Cons.prems(3) in simp_all)
    moreover have "\<forall>x \<in> set ?j. apart e x" using IH(1) Cons.prems(3) by auto
    moreover have "claims (?c # e # ?j) = add_claim c (claims (e # rs))"
      using IH(6) unfolding claims_Cons
      by (simp only: add_claim_commute [of ?c e] add_claim_commute [of c e])
    ultimately show ?thesis using IH by (simp add: join_loop_step True) auto
  next
    case False
    have e: "range_ok e" "ir_fromBlock e \<le> ir_toBlock e" using Cons.prems(1) le by simp_all
    note j = joinRange_facts [OF e(2) le(2) False]
    have ok: "range_ok (joinRange e c)" by (rule joinRange_ok [OF e(1) Cons.prems(2) j(2)])
    have g: "edge_genesis (ir_edge (joinRange e c)) = g" using Cons.prems(4,5) by (simp add: joinRange_genesis)
    have "add_claim (joinRange e c) (claims rs) = add_claim c (claims (e # rs))"
      unfolding claims_Cons using j by (auto simp: add_claim_def fun_eq_iff)
    then show ?thesis using Cons.IH [of "joinRange e c"] Cons.prems ok g by (auto simp: join_loop_step False)
  qed
qed

lemma canonical_cong_set:
  assumes "canonical rs" "mset rs' = mset rs"
  shows "canonical rs'"
proof (cases "rs = []")
  case False
  have s: "set rs' = set rs" using assms(2) by (rule mset_eq_setD)
  then have "hd rs' \<in> set rs" using False by (metis hd_in_set set_empty)
  then show ?thesis using assms(1) s sorted_wrt_permuted [of apart rs rs', OF apart_sym assms(2) [symmetric]]
    unfolding canonical_def by metis
qed (use assms in simp)

lemma canonicalI:
  assumes "\<forall>r \<in> set rs. range_ok r" "\<forall>r \<in> set rs. edge_genesis (ir_edge r) = g" "sorted_wrt apart rs"
  shows "canonical rs"
proof (cases "rs = []")
  case False
  then show ?thesis using assms by (simp add: canonical_def)
qed (simp add: canonical_def)

definition same_chain :: "indexed_coverage \<Rightarrow> indexed_range \<Rightarrow> bool" where
  "same_chain cov r \<longleftrightarrow> (\<forall>q \<in> set (ic_ranges cov). edge_genesis (ir_edge q) = edge_genesis (ir_edge r))"

lemma same_chain_hd:
  "coverage_ok cov \<Longrightarrow> same_chain cov r \<longleftrightarrow>
     \<not> (ic_ranges cov \<noteq> [] \<and> edge_genesis (ir_edge r) \<noteq> edge_genesis (ir_edge (hd (ic_ranges cov))))"
  unfolding same_chain_def coverage_ok_def canonical_def by (metis emptyE hd_in_set set_empty)

lemma addRange_unfold:
  assumes "coverage_ok cov" "range_ok r" "same_chain cov r"
  shows "addRange lc cov r =
    rbind (holesIn (js_sort by_span (fst (join_loop (ic_ranges cov) r) @ [snd (join_loop (ic_ranges cov) r)])) None)
      (\<lambda>holes. Inr \<lparr> ic_ranges = js_sort by_span (fst (join_loop (ic_ranges cov) r) @ [snd (join_loop (ic_ranges cov) r)]),
                    ic_holes = holes \<rparr>)"
proof -
  have "\<not> (ic_ranges cov \<noteq> [] \<and> edge_genesis (ir_edge r) \<noteq> edge_genesis (ir_edge (hd (ic_ranges cov))))"
    using same_chain_hd [OF assms(1)] assms(3) by blast
  then show ?thesis
    unfolding addRange_def checkRange_ok [OF assms(2)] assertCanonical_ok [OF assms(1)]
    by (simp only: if_False rbind_simps case_prod_unfold Let_def)
qed

text \<open>Adding to canonical coverage: total, canonical again, and one source claims more blocks.\<close>

lemma addRange_spec:
  assumes "coverage_ok cov" "range_ok r" "same_chain cov r"
  obtains cov' where "addRange lc cov r = Inr cov'" "coverage_ok cov'"
    "claims (ic_ranges cov') = add_claim r (claims (ic_ranges cov))"
    "\<forall>q \<in> set (ic_ranges cov'). edge_genesis (ir_edge q) = edge_genesis (ir_edge r)"
proof -
  let ?rs = "ic_ranges cov" and ?g = "edge_genesis (ir_edge r)"
  let ?j = "fst (join_loop ?rs r)" and ?c = "snd (join_loop ?rs r)"
  let ?s = "js_sort by_span (?j @ [?c])"
  have p: "\<forall>r \<in> set ?rs. range_ok r" "sorted_wrt apart ?rs" "\<forall>q \<in> set ?rs. edge_genesis (ir_edge q) = ?g"
    using assms by (simp_all add: coverage_ok_def canonical_def same_chain_def)
  have j: "set ?j \<subseteq> set ?rs" "sorted_wrt apart ?j" "range_ok ?c" "edge_genesis (ir_edge ?c) = ?g"
    "\<forall>x \<in> set ?j. apart x ?c" "claims (?c # ?j) = add_claim r (claims ?rs)"
    using join_loop_spec [OF p(1) assms(2) p(2,3) refl] by simp_all
  have ok: "\<forall>q \<in> set (?j @ [?c]). range_ok q" and g: "\<forall>q \<in> set (?j @ [?c]). edge_genesis (ir_edge q) = ?g"
    using j p by auto
  have can: "canonical (?j @ [?c])"
    by (rule canonicalI [OF ok g]) (use j in \<open>simp add: sorted_wrt_append\<close>)
  have "canonical ?s" by (rule canonical_cong_set [OF can mset_js_sort])
  moreover have "holesIn ?s None = Inr (holes_of ?s None)" by (rule holesIn_ok) (use ok in simp)
  moreover have "claims ?s = add_claim r (claims ?rs)"
    unfolding j(6) [symmetric] by (rule claims_set) auto
  ultimately show thesis
    by (intro that [of "\<lparr> ic_ranges = ?s, ic_holes = holes_of ?s None \<rparr>"])
      (use g in \<open>simp_all add: addRange_unfold [OF assms] coverage_ok_def\<close>)
qed

lemma addRange_refuses:
  assumes "coverage_ok cov"
  shows "addRange lc cov r = Inl e \<Longrightarrow> \<not> range_ok r \<or> \<not> same_chain cov r"
  using addRange_spec [OF assms, of r lc] by (metis sum.simps(4))

lemma addRange_accepts:
  assumes "coverage_ok cov" "addRange lc cov r = Inr cov'"
  shows "range_ok r" "same_chain cov r"
proof -
  have "returns (checkRange r)" using assms(2) by (cases "checkRange r") (simp_all add: addRange_def)
  then show "range_ok r" by simp
  show "same_chain cov r"
  proof (rule ccontr)
    assume "\<not> same_chain cov r"
    then have "(ic_ranges cov \<noteq> [] \<and> edge_genesis (ir_edge r) \<noteq> edge_genesis (ir_edge (hd (ic_ranges cov)))) = True"
      using same_chain_hd [OF assms(1)] by blast
    then have "addRange lc cov r = Inl Foreign_genesis"
      unfolding addRange_def checkRange_ok [OF \<open>range_ok r\<close>] assertCanonical_ok [OF assms(1)]
      by (simp only: rbind_simps if_True)
    with assms(2) show False by simp
  qed
qed

lemma isVerifiedAt_claims: "isVerifiedAt cov b \<longleftrightarrow> b \<in> claims (ic_ranges cov) Self"
  by (auto simp: isVerifiedAt_def claims_def in_range_def)


subsection \<open>Canonical coverage is a normal form of its claims\<close>

definition spans :: "indexed_range list \<Rightarrow> (range_origin \<times> int \<times> int) set" where
  "spans rs = (\<lambda>r. (ir_origin r, ir_fromBlock r, ir_toBlock r)) ` set rs"

lemma spans_iff:
  assumes can: "canonical rs"
  shows "(p, a, b) \<in> spans rs \<longleftrightarrow>
    a \<le> b \<and> {a..b} \<subseteq> claims rs p \<and> a - 1 \<notin> claims rs p \<and> b + 1 \<notin> claims rs p"
proof
  assume "(p, a, b) \<in> spans rs"
  then obtain r where r: "r \<in> set rs" "p = ir_origin r" "a = ir_fromBlock r" "b = ir_toBlock r" by (auto simp: spans_def)
  have le: "a \<le> b" using can r by (simp add: canonical_def range_ok_def)
  have near: "q = r" if "q \<in> set rs" "ir_origin q = p" "in_range x q" "x = a - 1 \<or> x = b + 1" for q x
  proof (rule ccontr)
    assume "q \<noteq> r"
    then have "apart q r" by (rule canonical_apart [OF can that(1) r(1)])
    then show False using that le r by (auto simp: apart_def sameProvenance_def adjacentOrOverlapping_def in_range_def)
  qed
  have "a - 1 \<notin> claims rs p" "b + 1 \<notin> claims rs p"
    using near [of _ "a - 1"] near [of _ "b + 1"] r le unfolding claims_def in_range_def by force+
  moreover have "{a..b} \<subseteq> claims rs p" using r by (auto simp: claims_def in_range_def)
  ultimately show "a \<le> b \<and> {a..b} \<subseteq> claims rs p \<and> a - 1 \<notin> claims rs p \<and> b + 1 \<notin> claims rs p" using le by simp
next
  assume h: "a \<le> b \<and> {a..b} \<subseteq> claims rs p \<and> a - 1 \<notin> claims rs p \<and> b + 1 \<notin> claims rs p"
  then have "a \<in> claims rs p" by auto
  then obtain r where r: "r \<in> set rs" "ir_origin r = p" "in_range a r" by (auto simp: claims_def)
  have from_eq: "ir_fromBlock r = a"
  proof (rule ccontr)
    assume "ir_fromBlock r \<noteq> a"
    then have "in_range (a - 1) r" using r(3) by (simp add: in_range_def)
    then show False using h r by (auto simp: claims_def)
  qed
  have "ir_toBlock r = b"
  proof (rule ccontr)
    assume ne: "ir_toBlock r \<noteq> b"
    show False
    proof (cases "ir_toBlock r < b")
      case True
      then have "ir_toBlock r + 1 \<in> claims rs p" using h from_eq r(3) by (auto simp: in_range_def)
      then obtain q where q: "q \<in> set rs" "ir_origin q = p" "in_range (ir_toBlock r + 1) q" by (auto simp: claims_def)
      have "q \<noteq> r" using q(3) by (auto simp: in_range_def)
      then have "apart q r" by (rule canonical_apart [OF can q(1) r(1)])
      then show False using q r by (auto simp: apart_def sameProvenance_def adjacentOrOverlapping_def in_range_def)
    next
      case False
      then have "in_range (b + 1) r" using ne h from_eq by (simp add: in_range_def)
      then show False using h r by (auto simp: claims_def)
    qed
  qed
  with r from_eq show "(p, a, b) \<in> spans rs" by (force simp: spans_def)
qed

lemma spans_normal_form:
  assumes "canonical rs" "canonical rs'" "claims rs = claims rs'"
  shows "spans rs = spans rs'"
  using spans_iff [OF assms(1)] spans_iff [OF assms(2)] assms(3) by (auto simp del: split_paired_All)

subsection \<open>Repair of an untrusted value\<close>










subsection \<open>Dropping\<close>

lemma filter_coverage_ok: "canonical rs \<Longrightarrow> canonical (filter P rs)"
  by (rule canonicalI [where g = "edge_genesis (ir_edge (hd rs))"])
    (auto simp: canonical_def intro: sorted_wrt_filter)

definition drops :: "indexed_range \<Rightarrow> indexed_range \<Rightarrow> bool" where
  "drops target r \<longleftrightarrow> ir_fromBlock r = ir_fromBlock target \<and> ir_toBlock r = ir_toBlock target \<and> sameProvenance r target"

definition restrict_to :: "(indexed_range \<Rightarrow> bool) \<Rightarrow> indexed_coverage \<Rightarrow> indexed_coverage" where
  "restrict_to P cov = \<lparr> ic_ranges = filter P (ic_ranges cov), ic_holes = holes_of (filter P (ic_ranges cov)) None \<rparr>"

lemma restrict_to_ok: "coverage_ok cov \<Longrightarrow> coverage_ok (restrict_to P cov)"
  by (simp add: coverage_ok_def restrict_to_def filter_coverage_ok)

lemma invalidateRange_eq:
  assumes "coverage_ok cov" "range_ok t"
  shows "invalidateRange lc cov t = Inr (restrict_to (\<lambda>r. \<not> drops t r) cov)"
proof -
  have "\<forall>r \<in> set (filter (\<lambda>r. \<not> drops t r) (ic_ranges cov)). range_ok r"
    using assms(1) by (simp add: coverage_ok_def canonical_def)
  note h = holesIn_ok [OF this]
  show ?thesis
    unfolding invalidateRange_def assertCanonical_ok [OF assms(1)] checkRange_ok [OF assms(2)] restrict_to_def
    using h by (simp add: drops_def Let_def)
qed

lemma drops_self:
  assumes "canonical rs" "t \<in> set rs" "r \<in> set rs"
  shows "drops t r \<longleftrightarrow> r = t"
proof
  assume d: "drops t r"
  show "r = t"
  proof (rule ccontr)
    assume "r \<noteq> t"
    then have "apart r t" by (rule canonical_apart [OF assms(1,3,2)])
    moreover have "ir_fromBlock t \<le> ir_toBlock t" using assms by (simp add: canonical_def range_ok_def)
    ultimately show False using d by (auto simp: drops_def apart_def adjacentOrOverlapping_def)
  qed
qed (simp add: drops_def sameProvenance_def)

lemma canonical_distinct: "canonical rs \<Longrightarrow> distinct rs"
proof -
  assume "canonical rs"
  then have "sorted_wrt apart rs" "\<forall>r \<in> set rs. \<not> apart r r"
    by (auto simp: canonical_def apart_def sameProvenance_def adjacentOrOverlapping_def range_ok_def)
  then show ?thesis by (induction rs) auto
qed

subsection \<open>Checking ranges against the chain\<close>

definition disagrees :: "edge_facts \<Rightarrow> indexed_range \<Rightarrow> bool" where
  "disagrees f r \<longleftrightarrow> edge_genesis (ir_edge r) \<noteq> ef_genesisHash f \<or>
     (\<exists>g h s. ir_edge r = Checked_edge g h s \<and> (h \<noteq> ef_hash f \<or> s \<noteq> ef_specVersion f))"

definition refuted :: "(indexed_range \<Rightarrow> edge_facts option) \<Rightarrow> indexed_range \<Rightarrow> bool" where
  "refuted observe r \<longleftrightarrow> (\<exists>f. observe r = Some f \<and> disagrees f r)"

definition confirmed :: "(indexed_range \<Rightarrow> edge_facts option) \<Rightarrow> indexed_range \<Rightarrow> bool" where
  "confirmed observe r \<longleftrightarrow> (\<exists>g h s. ir_edge r = Checked_edge g h s \<and>
     observe r = Some \<lparr> ef_genesisHash = g, ef_hash = h, ef_specVersion = s \<rparr>)"

lemma verifyRange_verdicts:
  assumes "range_ok r"
  shows "(\<exists>why. verifyRange r f = Inr (Range_invalid why)) \<longleftrightarrow> disagrees f r"
    "verifyRange r f = Inr Range_ok \<longleftrightarrow>
       ir_edge r = Checked_edge (ef_genesisHash f) (ef_hash f) (ef_specVersion f)"
    "\<exists>v. verifyRange r f = Inr v"
  unfolding verifyRange_def checkRange_ok [OF assms] disagrees_def
  by (cases "ir_edge r"; auto)+

lemma verify_loop_spec:
  assumes "coverage_ok cov" "set rs \<subseteq> set (ic_ranges cov)" "distinct rs"
    "cv_coverage acc = restrict_to (\<lambda>r. r \<in> set rs \<or> \<not> refuted observe r) cov \<or>
     cv_coverage acc = cov \<and> (\<forall>r \<in> set (ic_ranges cov) - set rs. \<not> refuted observe r)"
  shows "\<exists>v. verify_loop lc observe rs acc = Inr v \<and>
    ic_ranges (cv_coverage v) = filter (\<lambda>r. \<not> refuted observe r) (ic_ranges cov) \<and> coverage_ok (cv_coverage v) \<and>
    map fst (cv_invalidated v) = map fst (cv_invalidated acc) @ filter (refuted observe) rs \<and>
    cv_unchecked v = cv_unchecked acc @ filter (\<lambda>r. \<not> refuted observe r \<and> \<not> confirmed observe r) rs"
  using assms(2-)
proof (induction rs arbitrary: acc)
  case Nil
  have can: "canonical (ic_ranges cov)" using assms(1) by (simp add: coverage_ok_def)
  show ?case using Nil.prems(3) assms(1) restrict_to_ok [OF assms(1)]
    by (auto simp: restrict_to_def intro!: filter_True [symmetric])
next
  case (Cons r rs)
  have can: "canonical (ic_ranges cov)" using assms(1) by (simp add: coverage_ok_def)
  have r: "r \<in> set (ic_ranges cov)" "range_ok r" "r \<notin> set rs" "set rs \<subseteq> set (ic_ranges cov)" "distinct rs"
    using Cons.prems can by (auto simp: canonical_def)
  have acc_ok: "coverage_ok (cv_coverage acc)"
    using Cons.prems(3) restrict_to_ok [OF assms(1)] assms(1) by auto
  have ranges: "filter (\<lambda>q. q \<in> set (r # rs) \<or> \<not> refuted observe q) (ic_ranges cov) = ic_ranges (cv_coverage acc)"
    using Cons.prems(3) by (auto simp: restrict_to_def intro!: filter_True)
  have keep: "verify_loop lc observe (r # rs) acc = verify_loop lc observe rs acc' \<Longrightarrow> \<not> refuted observe r \<Longrightarrow>
      cv_coverage acc' = cv_coverage acc \<Longrightarrow> map fst (cv_invalidated acc') = map fst (cv_invalidated acc) \<Longrightarrow>
      cv_unchecked acc' = cv_unchecked acc @ (if confirmed observe r then [] else [r]) \<Longrightarrow> ?case" for acc'
  proof -
    assume a: "verify_loop lc observe (r # rs) acc = verify_loop lc observe rs acc'" "\<not> refuted observe r"
      "cv_coverage acc' = cv_coverage acc" "map fst (cv_invalidated acc') = map fst (cv_invalidated acc)"
      "cv_unchecked acc' = cv_unchecked acc @ (if confirmed observe r then [] else [r])"
    have "(\<lambda>q. q \<in> set (r # rs) \<or> \<not> refuted observe q) = (\<lambda>q. q \<in> set rs \<or> \<not> refuted observe q)"
      using a(2) by (auto simp: fun_eq_iff)
    then have "cv_coverage acc' = restrict_to (\<lambda>q. q \<in> set rs \<or> \<not> refuted observe q) cov \<or>
        cv_coverage acc' = cov \<and> (\<forall>q \<in> set (ic_ranges cov) - set rs. \<not> refuted observe q)"
      using Cons.prems(3) a(2,3) by auto
    from Cons.IH [OF r(4,5) this] show ?case using a by auto
  qed
  consider (none) "observe r = None" | (some) f where "observe r = Some f" by (cases "observe r") auto
  then show ?case
  proof cases
    case none
    then show ?thesis
      by (intro keep [of "acc \<lparr> cv_unchecked := cv_unchecked acc @ [r] \<rparr>"]) (simp_all add: refuted_def confirmed_def)
  next
    case (some f)
    obtain v where v: "verifyRange r f = Inr v" using verifyRange_verdicts(3) [OF r(2)] by blast
    note d = verifyRange_verdicts [OF r(2), of f]
    show ?thesis
    proof (cases v)
      case Range_ok
      with v d(1,2) show ?thesis using some by (intro keep [of acc]) (auto simp: refuted_def confirmed_def)
    next
      case Range_unchecked
      have "\<not> confirmed observe r" using some d(2) v Range_unchecked by (auto simp: confirmed_def)
      with v d(1) Range_unchecked show ?thesis using some
        by (intro keep [of "acc \<lparr> cv_unchecked := cv_unchecked acc @ [r] \<rparr>"]) (auto simp: refuted_def)
    next
      case (Range_invalid why)
      have ref: "refuted observe r" using some d(1) v Range_invalid by (auto simp: refuted_def)
      let ?c = "restrict_to (\<lambda>q. \<not> drops r q) (cv_coverage acc)"
      let ?acc = "acc \<lparr> cv_coverage := ?c, cv_invalidated := cv_invalidated acc @ [(r, why)] \<rparr>"
      have "filter (\<lambda>q. \<not> drops r q) (ic_ranges (cv_coverage acc)) =
          filter (\<lambda>q. q \<in> set rs \<or> \<not> refuted observe q) (ic_ranges cov)"
        unfolding ranges [symmetric] filter_filter
        by (rule filter_cong [OF refl]) (use drops_self [OF can r(1)] r(3) ref in auto)
      then have "?c = restrict_to (\<lambda>q. q \<in> set rs \<or> \<not> refuted observe q) cov"
        by (simp add: restrict_to_def)
      then have "\<exists>w. verify_loop lc observe rs ?acc = Inr w \<and>
          ic_ranges (cv_coverage w) = filter (\<lambda>r. \<not> refuted observe r) (ic_ranges cov) \<and> coverage_ok (cv_coverage w) \<and>
          map fst (cv_invalidated w) = map fst (cv_invalidated ?acc) @ filter (refuted observe) rs \<and>
          cv_unchecked w = cv_unchecked ?acc @ filter (\<lambda>r. \<not> refuted observe r \<and> \<not> confirmed observe r) rs"
        by (intro Cons.IH [OF r(4,5)]) simp
      moreover have "verify_loop lc observe (r # rs) acc = verify_loop lc observe rs ?acc"
        using v some Range_invalid by (simp add: invalidateRange_eq [OF acc_ok r(2)])
      ultimately show ?thesis using ref by auto
    qed
  qed
qed

lemma verifyRanges_spec:
  assumes "coverage_ok cov"
  obtains v where "verifyRanges lc cov observe = Inr v"
    "ic_ranges (cv_coverage v) = filter (\<lambda>r. \<not> refuted observe r) (ic_ranges cov)" "coverage_ok (cv_coverage v)"
    "map fst (cv_invalidated v) = filter (refuted observe) (ic_ranges cov)"
    "cv_unchecked v = filter (\<lambda>r. \<not> refuted observe r \<and> \<not> confirmed observe r) (ic_ranges cov)"
proof -
  have "distinct (ic_ranges cov)" using assms by (simp add: coverage_ok_def canonical_distinct)
  then have "\<exists>v. verify_loop lc observe (ic_ranges cov) \<lparr> cv_coverage = cov, cv_invalidated = [], cv_unchecked = [] \<rparr> = Inr v \<and>
    ic_ranges (cv_coverage v) = filter (\<lambda>r. \<not> refuted observe r) (ic_ranges cov) \<and> coverage_ok (cv_coverage v) \<and>
    map fst (cv_invalidated v) = filter (refuted observe) (ic_ranges cov) \<and>
    cv_unchecked v = filter (\<lambda>r. \<not> refuted observe r \<and> \<not> confirmed observe r) (ic_ranges cov)"
    using verify_loop_spec [OF assms subset_refl, where lc = lc and observe = observe and
      acc = "\<lparr> cv_coverage = cov, cv_invalidated = [], cv_unchecked = [] \<rparr>"] by simp
  then show thesis using that by (auto simp: verifyRanges_def assertCanonical_ok [OF assms])
qed

subsection \<open>Samples\<close>

definition sample_hash :: "char \<Rightarrow> string" where
  "sample_hash c = ''0x'' @ replicate 64 c"

definition sample_edge :: range_edge where
  "sample_edge = Checked_edge (sample_hash CHR ''a'') (sample_hash CHR ''b'') 7"

definition sample_coverage :: indexed_coverage where
  "sample_coverage = \<lparr> ic_ranges = [selfRange 0 9 100 sample_edge,
      providerRange (Operator ''op'') 15 20 120 (Unverifiable_edge (sample_hash CHR ''a'') ''snapshot'')],
    ic_holes = [(10, 14)] \<rparr>"

definition code_unit_order :: "string \<Rightarrow> string \<Rightarrow> int" where
  "code_unit_order a b = (if a < b then -1 else if a = b then 0 else 1)"

lemma sample_coverage_ok: "coverage_ok sample_coverage"
  unfolding coverage_ok_def canonical_def by code_simp

lemma code_unit_order_collates: "collates code_unit_order S"
  by (auto simp: collates_def compares_def code_unit_order_def split: if_splits)

text \<open>C14
  Adding a range to canonical coverage succeeds exactly when the range is well-formed and of
  the same chain; the result is canonical, and the blocks claimed change by the incoming range's
  own blocks under its own origin alone, so a block becomes light-client verified only through a
  range of the light client.
\<close>

theorem addRange_refines_claims:
  assumes "coverage_ok cov"
  shows "returns (addRange lc cov r) = (range_ok r \<and> same_chain cov r) \<and>
    (\<forall>cov'. addRange lc cov r = Inr cov' \<longrightarrow>
       coverage_ok cov' \<and> claims (ic_ranges cov') = add_claim r (claims (ic_ranges cov)) \<and>
       (\<forall>b. isVerifiedAt cov' b = (isVerifiedAt cov b \<or> ir_origin r = Self \<and> b \<in> blocks r)))"
proof (intro conjI allI impI)
  show "returns (addRange lc cov r) = (range_ok r \<and> same_chain cov r)"
  proof
    assume "returns (addRange lc cov r)"
    then show "range_ok r \<and> same_chain cov r" using addRange_accepts [OF assms] by (auto simp: returns_iff)
  next
    assume "range_ok r \<and> same_chain cov r"
    then obtain c where "addRange lc cov r = Inr c" using addRange_spec [OF assms, of r lc] by blast
    then show "returns (addRange lc cov r)" by simp
  qed
next
  fix cov' assume a: "addRange lc cov r = Inr cov'"
  obtain c where c: "addRange lc cov r = Inr c" "coverage_ok c"
    "claims (ic_ranges c) = add_claim r (claims (ic_ranges cov))"
    by (rule addRange_spec [OF assms addRange_accepts [OF assms a]])
  then show "coverage_ok cov'" "claims (ic_ranges cov') = add_claim r (claims (ic_ranges cov))" using a by simp_all
  then show "isVerifiedAt cov' b = (isVerifiedAt cov b \<or> ir_origin r = Self \<and> b \<in> blocks r)" for b
    by (auto simp: isVerifiedAt_claims add_claim_def)
qed

theorem addRange_refines_claims_witness:
  "\<exists>cov'. addRange code_unit_order sample_coverage (selfRange 10 12 110 sample_edge) = Inr cov' \<and>
     \<not> isVerifiedAt sample_coverage 11 \<and> isVerifiedAt cov' 11"
proof -
  let ?r = "selfRange 10 12 110 sample_edge"
  have "range_ok ?r" "same_chain sample_coverage ?r" unfolding same_chain_def by code_simp+
  moreover have "\<not> isVerifiedAt sample_coverage 11" by code_simp
  moreover have "ir_origin ?r = Self" "11 \<in> blocks ?r" by (simp_all add: selfRange_def blocks_def)
  ultimately show ?thesis
    using addRange_refines_claims [OF sample_coverage_ok, of code_unit_order ?r] by (auto simp: returns_iff)
qed

text \<open>
  Canonical coverage is a normal form: its ranges are exactly the maximal runs of blocks its
  sources claim, so adding two ranges in either order leaves the same spans.
\<close>

theorem coverage_normal_form:
  assumes "coverage_ok cov"
  shows "((p, a, b) \<in> spans (ic_ranges cov)) =
      (a \<le> b \<and> {a..b} \<subseteq> claims (ic_ranges cov) p \<and> a - 1 \<notin> claims (ic_ranges cov) p \<and> b + 1 \<notin> claims (ic_ranges cov) p) \<and>
    (rbind (addRange lc cov r) (\<lambda>c. addRange lc c q) = Inr c1 \<longrightarrow>
     rbind (addRange lc cov q) (\<lambda>c. addRange lc c r) = Inr c2 \<longrightarrow>
     spans (ic_ranges c1) = spans (ic_ranges c2))"
proof (intro conjI impI)
  show "((p, a, b) \<in> spans (ic_ranges cov)) =
      (a \<le> b \<and> {a..b} \<subseteq> claims (ic_ranges cov) p \<and> a - 1 \<notin> claims (ic_ranges cov) p \<and> b + 1 \<notin> claims (ic_ranges cov) p)"
    using assms by (intro spans_iff) (simp add: coverage_ok_def)
  have step: "coverage_ok d' \<and> claims (ic_ranges d') = add_claim x (claims (ic_ranges d))"
    if "coverage_ok d" "addRange lc d x = Inr d'" for d d' x
    using addRange_spec [OF that(1) addRange_accepts [OF that], of lc] that(2) by (metis sum.inject(2))
  assume "rbind (addRange lc cov r) (\<lambda>c. addRange lc c q) = Inr c1"
    and "rbind (addRange lc cov q) (\<lambda>c. addRange lc c r) = Inr c2"
  then obtain d1 d2 where "addRange lc cov r = Inr d1" "addRange lc d1 q = Inr c1"
      "addRange lc cov q = Inr d2" "addRange lc d2 r = Inr c2" by (auto simp: rbind_eq_Inr_iff)
  with step [OF assms] step [of d1] step [of d2] have "coverage_ok c1" "coverage_ok c2"
    "claims (ic_ranges c1) = add_claim q (add_claim r (claims (ic_ranges cov)))"
    "claims (ic_ranges c2) = add_claim r (add_claim q (claims (ic_ranges cov)))" by metis+
  then show "spans (ic_ranges c1) = spans (ic_ranges c2)"
    by (intro spans_normal_form) (simp_all add: coverage_ok_def add_claim_commute)
qed

theorem coverage_normal_form_witness:
  "((Self, 0, 9) \<in> spans (ic_ranges sample_coverage)) =
     ((0::int) \<le> 9 \<and> {0..9} \<subseteq> claims (ic_ranges sample_coverage) Self \<and>
      0 - 1 \<notin> claims (ic_ranges sample_coverage) Self \<and> 9 + 1 \<notin> claims (ic_ranges sample_coverage) Self)"
  using coverage_normal_form [THEN conjunct1, OF sample_coverage_ok] .

text \<open>C32
  holesIn answers exactly for well-formed ranges and a forward span of block heights, and its
  holes are exactly the blocks of the span that no range covers, in ascending order, none empty
  and none touching the next; an answer of covered therefore splits its span into the blocks of
  its ranges and the blocks of its holes.
\<close>

theorem holes_are_the_uncovered_blocks:
  "returns (holesIn rs (Some (lo, hi))) =
     ((\<forall>r \<in> set rs. range_ok r) \<and> 0 \<le> lo \<and> lo \<le> hi \<and> hi \<le> MAX_BLOCK) \<and>
   (\<forall>hs. holesIn rs (Some (lo, hi)) = Inr hs \<longrightarrow>
      holes_from lo hs \<and> (\<forall>b. in_holes b hs = (lo \<le> b \<and> b \<le> hi \<and> \<not> in_ranges b rs))) \<and>
   (\<forall>a. covered lc cov (lo, hi) data = Inr a \<longrightarrow>
      (\<forall>b. lo \<le> b \<and> b \<le> hi \<longrightarrow> in_holes b (cd_holes a) = (\<not> in_ranges b (cd_ranges a)) \<and>
         in_ranges b (cd_ranges a) = in_ranges b (ic_ranges cov)))"
proof -
  have span: "checkSpan (x, y) = Inr () \<longleftrightarrow> 0 \<le> x \<and> x \<le> y \<and> y \<le> MAX_BLOCK" for x y
    by (auto simp: checkSpan_def rbind_eq_Inr_iff assertBlock_Inr split: if_splits)
  have inr: "holesIn qs (Some (x, y)) = Inr hs \<longleftrightarrow>
      (\<forall>r \<in> set qs. range_ok r) \<and> 0 \<le> x \<and> x \<le> y \<and> y \<le> MAX_BLOCK \<and> hs = holes_of qs (Some (x, y))" for qs x y hs
    by (auto simp: holesIn_def rbind_eq_Inr_iff span)
  have spec: "holes_from x hs \<and> (\<forall>b. in_holes b hs = (x \<le> b \<and> b \<le> y \<and> \<not> in_ranges b qs))"
    if "holesIn qs (Some (x, y)) = Inr hs" for qs x y hs
  proof -
    have "\<forall>r \<in> set qs. ir_fromBlock r \<le> ir_toBlock r" "x \<le> y" "hs = holes_of qs (Some (x, y))"
      using that by (simp_all add: inr range_ok_def)
    then show ?thesis using holes_of_spec [of qs "Some (x, y)"] by (simp add: asked_def)
  qed
  have cov: "\<exists>hs. holesIn (filter (\<lambda>r. ir_toBlock r \<ge> lo \<and> ir_fromBlock r \<le> hi) (ic_ranges cov)) (Some (lo, hi)) = Inr hs \<and>
      cd_holes a = hs \<and> cd_ranges a = filter (\<lambda>r. ir_toBlock r \<ge> lo \<and> ir_fromBlock r \<le> hi) (ic_ranges cov)"
    if "covered lc cov (lo, hi) data = Inr a" for a
    using that by (auto simp: covered_def rbind_eq_Inr_iff Let_def)
  have in_filter: "in_ranges b (filter (\<lambda>r. ir_toBlock r \<ge> lo \<and> ir_fromBlock r \<le> hi) qs) = in_ranges b qs"
    if "lo \<le> b" "b \<le> hi" for b qs
    using that by (auto simp: in_ranges_def in_range_def)
  show ?thesis
    using spec by (auto simp: returns_iff inr in_filter dest!: cov)
qed

theorem holes_are_the_uncovered_blocks_witness:
  "\<exists>hs. holesIn (ic_ranges sample_coverage) (Some (5, 30)) = Inr hs \<and> in_holes 12 hs \<and> \<not> in_holes 9 hs"
proof -
  have ok: "\<forall>r \<in> set (ic_ranges sample_coverage). range_ok r" using sample_coverage_ok
    by (simp add: coverage_ok_def canonical_def)
  have "in_ranges 9 (ic_ranges sample_coverage)" "\<not> in_ranges 12 (ic_ranges sample_coverage)"
    by (simp_all add: sample_coverage_def selfRange_def providerRange_def in_range_def)
  with ok show ?thesis
    using holes_are_the_uncovered_blocks [of "ic_ranges sample_coverage" 5 30 code_unit_order sample_coverage "()"]
    by (auto simp: MAX_BLOCK_def returns_iff)
qed

text \<open>
  The canonicity check of sorted neighbours accepts exactly the coverages whose ranges are
  well-formed, of one chain and pairwise not joinable, with the holes those ranges have, for every
  collation that tells the names apart; it accepts each of them under any collation at all.
\<close>

theorem canonical_check_is_pairwise:
  "(coverage_ok cov \<longrightarrow> assertCanonical lc cov = Inr ()) \<and>
   (collates lc (names_of (ic_ranges cov)) \<longrightarrow>
      (assertCanonical lc cov = Inr ()) =
        ((\<forall>r \<in> set (ic_ranges cov). range_ok r) \<and>
         (\<forall>r \<in> set (ic_ranges cov). \<forall>q \<in> set (ic_ranges cov). edge_genesis (ir_edge r) = edge_genesis (ir_edge q)) \<and>
         (\<forall>i j. i < j \<longrightarrow> j < length (ic_ranges cov) \<longrightarrow>
            \<not> (sameProvenance (ic_ranges cov ! i) (ic_ranges cov ! j) \<and>
               adjacentOrOverlapping (ic_ranges cov ! i) (ic_ranges cov ! j))) \<and>
         ic_holes cov = holes_of (ic_ranges cov) None))"
proof -
  have "(\<forall>r \<in> set rs. edge_genesis (ir_edge r) = edge_genesis (ir_edge (hd rs))) =
      (\<forall>r \<in> set rs. \<forall>q \<in> set rs. edge_genesis (ir_edge r) = edge_genesis (ir_edge q))" for rs
    by (cases rs) auto
  then have "coverage_ok cov = ((\<forall>r \<in> set (ic_ranges cov). range_ok r) \<and>
         (\<forall>r \<in> set (ic_ranges cov). \<forall>q \<in> set (ic_ranges cov). edge_genesis (ir_edge r) = edge_genesis (ir_edge q)) \<and>
         (\<forall>i j. i < j \<longrightarrow> j < length (ic_ranges cov) \<longrightarrow>
            \<not> (sameProvenance (ic_ranges cov ! i) (ic_ranges cov ! j) \<and>
               adjacentOrOverlapping (ic_ranges cov ! i) (ic_ranges cov ! j))) \<and>
         ic_holes cov = holes_of (ic_ranges cov) None)"
    unfolding coverage_ok_def canonical_def sorted_wrt_iff_nth_less apart_def by blast
  then show ?thesis using assertCanonical_ok [of cov lc] assertCanonical_iff [of lc cov] by blast
qed

theorem canonical_check_is_pairwise_witness:
  "assertCanonical (\<lambda>_ _. 0) sample_coverage = Inr () \<and> collates code_unit_order (names_of (ic_ranges sample_coverage)) \<and>
   assertCanonical code_unit_order sample_coverage = Inr ()"
  using canonical_check_is_pairwise [THEN conjunct1, rule_format, OF sample_coverage_ok] code_unit_order_collates by blast




text \<open>C34
  Checking canonical coverage against the chain always returns, drops exactly the ranges an
  observation contradicts and never one that could not be observed, keeps the rest canonical in
  its order, reports every drop, and lists as unchecked every kept range that was not confirmed in
  all three facts.
\<close>

theorem verification_drops_only_disagreement:
  assumes "coverage_ok cov"
  shows "\<exists>v. verifyRanges lc cov observe = Inr v \<and> coverage_ok (cv_coverage v) \<and>
    ic_ranges (cv_coverage v) = filter (\<lambda>r. \<not> refuted observe r) (ic_ranges cov) \<and>
    map fst (cv_invalidated v) = filter (refuted observe) (ic_ranges cov) \<and>
    cv_unchecked v = filter (\<lambda>r. \<not> refuted observe r \<and> \<not> confirmed observe r) (ic_ranges cov)"
  by (rule verifyRanges_spec [OF assms, of lc observe]) blast

theorem verification_drops_only_disagreement_witness:
  "\<exists>v. verifyRanges code_unit_order sample_coverage (\<lambda>_. None) = Inr v \<and>
     cv_unchecked v = ic_ranges sample_coverage"
proof -
  have "filter (\<lambda>r. \<not> refuted (\<lambda>_. None) r \<and> \<not> confirmed (\<lambda>_. None) r) rs = rs" for rs
    by (simp add: refuted_def confirmed_def)
  then show ?thesis
    using verification_drops_only_disagreement [OF sample_coverage_ok, of code_unit_order "\<lambda>_. None"] by auto
qed

end
