(* ===== verification/Guardian_Core.thy ===== *)
theory Guardian_Core
  imports Tx_Rows
begin

text \<open>
  The guardian council as the chain runs it, \<open>crates/guardian-core/src/lib.rs\<close>: seven seats,
  actions that dispatch at the fifth approval, allowances, emergency playbooks and retrospective
  reviews. A refused call leaves no trace, because the pallet runs each call inside one storage
  layer and persists the core only on success; so an \<open>Err\<close> is \<open>Inl\<close> without a state.
  Block numbers, epochs and action ids are \<open>u32\<close>, kept as integers with the source's checked
  and saturating operations; accounts and hashes are byte strings.
\<close>

subsection \<open>Checked arithmetic\<close>

definition checked_add :: "nat \<Rightarrow> int \<Rightarrow> int \<Rightarrow> int option" where
  "checked_add w a b = (if a + b < 2 ^ w then Some (a + b) else None)"

definition saturating_add :: "nat \<Rightarrow> int \<Rightarrow> int \<Rightarrow> int" where
  "saturating_add w a b = min (a + b) (2 ^ w - 1)"

definition saturating_sub :: "int \<Rightarrow> int \<Rightarrow> int" where
  "saturating_sub a b = max 0 (a - b)"

subsection \<open>Constants and data\<close>

type_synonym account = string

definition GUARDIAN_SEATS :: nat where "GUARDIAN_SEATS = 7"
definition GUARDIAN_THRESHOLD :: int where "GUARDIAN_THRESHOLD = 5"
definition GUARDIAN_BOND :: int where "GUARDIAN_BOND = 50000000000000000"
definition ACTION_EXPIRY_BLOCKS :: int where "ACTION_EXPIRY_BLOCKS = 43200"
definition REVIEW_DEADLINE_EPOCHS :: int where "REVIEW_DEADLINE_EPOCHS = 2"
definition REVIEW_SLASH_PERCENT :: int where "REVIEW_SLASH_PERCENT = 50"
definition HOLD_MAX_BLOCKS :: int where "HOLD_MAX_BLOCKS = 201600"
definition FORCE_RERUN_WINDOW_BLOCKS :: int where "FORCE_RERUN_WINDOW_BLOCKS = 43200"
definition DELAY_ONCE_ALLOWANCE_PER_EPOCH :: int where "DELAY_ONCE_ALLOWANCE_PER_EPOCH = 2"
definition FORCE_RERUN_ALLOWANCE_PER_EPOCH :: int where "FORCE_RERUN_ALLOWANCE_PER_EPOCH = 1"
definition PAUSE_INTAKE_ALLOWANCE_WINDOW_EPOCHS :: int where "PAUSE_INTAKE_ALLOWANCE_WINDOW_EPOCHS = 4"
definition PAUSE_INTAKE_ALLOWANCE :: int where "PAUSE_INTAKE_ALLOWANCE = 1"
definition LEDGER_FREEZE_RENEWALS :: int where "LEDGER_FREEZE_RENEWALS = 1"

lemmas guardian_consts = GUARDIAN_SEATS_def GUARDIAN_THRESHOLD_def ACTION_EXPIRY_BLOCKS_def HOLD_MAX_BLOCKS_def
  FORCE_RERUN_WINDOW_BLOCKS_def DELAY_ONCE_ALLOWANCE_PER_EPOCH_def FORCE_RERUN_ALLOWANCE_PER_EPOCH_def
  PAUSE_INTAKE_ALLOWANCE_WINDOW_EPOCHS_def PAUSE_INTAKE_ALLOWANCE_def LEDGER_FREEZE_RENEWALS_def

datatype guardian_origin = Signed_origin | Constitutional_values | Guardian_hold | Emergency_playbook

datatype proposal_status = Status_trading | Status_extended | Status_queued | Status_executed | Status_rerun | Status_other

definition rerunnable :: "proposal_status \<Rightarrow> bool" where
  "rerunnable s = (s \<in> {Status_trading, Status_extended, Status_queued})"

datatype playbook_trigger =
    Depeg_median | Migration_halt | Oracle_deadlock | Gate_breach | Dead_man | Void_in_flight | Reserve_health | Ledger_drift

datatype chain_power =
    Pause_until int
  | Delay_of int
  | Rerun_of int
  | Activate playbook_id playbook_trigger int "int option"
  | Suspend

record action_target =
  at_pid :: "int option"
  at_playbook :: "playbook_id option"

record core_action =
  ca_id :: int
  ca_proposer :: account
  ca_power :: chain_power
  ca_justification :: string
  ca_created_at :: int
  ca_expires_at :: int
  ca_dispatched :: bool

record review_record =
  rv_action :: int
  rv_deadline :: int
  rv_ratified :: bool
  rv_recall_scheduled :: bool
  rv_approvers :: "account list"
  rv_approver_count :: nat

record active_playbook =
  ap_id :: playbook_id
  ap_expiry :: int
  ap_renewals_used :: int

datatype core_event =
    Members_set "account list"
  | Action_proposed int chain_power
  | Action_approved int account int
  | Guardian_action int chain_power action_target string
  | Force_rerun_event int string int
  | Playbook_activated playbook_id playbook_trigger int
  | Playbook_renewed playbook_id
  | Playbook_expired playbook_id
  | Review_scheduled int
  | Action_ratified int
  | Review_failed int int

datatype core_error =
    Bad_origin | Not_member | Duplicate_member | Duplicate_approval | Action_not_found | Action_expired
  | Already_dispatched | Too_many_pending | Too_many_reviews | Too_many_active_playbooks | Allowance_exhausted
  | Duration_too_long | Trigger_inactive | Bad_playbook_trigger | Bad_playbook_target | Already_rerun | Not_rerunnable
  | Review_not_found | Already_ratified | Renewal_not_allowed | Playbook_already_active | Overflow

record trigger_flags =
  tf_depeg :: bool
  tf_migration_halt :: bool
  tf_oracle_deadlock :: bool
  tf_gate_breach :: bool
  tf_dead_man :: bool
  tf_void_in_flight :: bool
  tf_reserve_health :: bool
  tf_ledger_drift :: bool

fun is_active :: "trigger_flags \<Rightarrow> playbook_trigger \<Rightarrow> bool" where
  "is_active f Depeg_median = tf_depeg f"
| "is_active f Migration_halt = tf_migration_halt f"
| "is_active f Oracle_deadlock = tf_oracle_deadlock f"
| "is_active f Gate_breach = tf_gate_breach f"
| "is_active f Dead_man = tf_dead_man f"
| "is_active f Void_in_flight = tf_void_in_flight f"
| "is_active f Reserve_health = tf_reserve_health f"
| "is_active f Ledger_drift = tf_ledger_drift f"

record dispatch_context =
  dc_status :: proposal_status
  dc_in_rerun :: bool
  dc_triggers :: trigger_flags

record guardian =
  gd_members :: "account option list"
  gd_bonds :: "int list"
  gd_pending :: "core_action list"
  gd_approvals :: "(int \<times> account) list"
  gd_reviews :: "review_record list"
  gd_active :: "active_playbook list"
  gd_rerun_used :: "int list"
  gd_delay_used :: int
  gd_force_used :: int
  gd_pause_start :: int
  gd_pause_used :: int
  gd_epoch :: int
  gd_review_epochs :: int
  gd_next_id :: int
  gd_events :: "core_event list"

definition emit :: "core_event \<Rightarrow> guardian \<Rightarrow> guardian" where
  "emit e g = g \<lparr> gd_events := gd_events g @ [e] \<rparr>"

definition ensure :: "bool \<Rightarrow> 'e \<Rightarrow> ('e, unit) result" where
  "ensure b e = (if b then Inr () else Inl e)"

lemma ensure_simps [simp]:
  "ensure b e = Inr u \<longleftrightarrow> b" "ensure b e = Inl e' \<longleftrightarrow> \<not> b \<and> e' = e" "ensure True e = Inr ()"
  by (auto simp: ensure_def)

subsection \<open>Membership\<close>

definition validate_members :: "account list \<Rightarrow> (core_error, unit) result" where
  "validate_members members = ensure (distinct members) Duplicate_member"

definition validate_seats :: "account option list \<Rightarrow> (core_error, unit) result" where
  "validate_seats members = ensure (distinct (filter (\<lambda>m. m \<noteq> None) members)) Duplicate_member"

definition guardian_new :: "account list \<Rightarrow> (core_error, guardian) result" where
  "guardian_new members = rbind (validate_members members) (\<lambda>_.
     Inr \<lparr> gd_members = map Some members, gd_bonds = replicate GUARDIAN_SEATS GUARDIAN_BOND, gd_pending = [],
           gd_approvals = [], gd_reviews = [], gd_active = [], gd_rerun_used = [], gd_delay_used = 0,
           gd_force_used = 0, gd_pause_start = 0, gd_pause_used = 0, gd_epoch = 0,
           gd_review_epochs = REVIEW_DEADLINE_EPOCHS, gd_next_id = 0, gd_events = [] \<rparr>)"

definition set_epoch :: "int \<Rightarrow> guardian \<Rightarrow> guardian" where
  "set_epoch epoch g =
     (if epoch \<noteq> gd_epoch g then g \<lparr> gd_epoch := epoch, gd_delay_used := 0, gd_force_used := 0 \<rparr> else g)"

definition set_members :: "guardian_origin \<Rightarrow> account list \<Rightarrow> guardian \<Rightarrow> (core_error, guardian) result" where
  "set_members origin members g =
     rbind (ensure (origin = Constitutional_values) Bad_origin) (\<lambda>_.
     rbind (validate_members members) (\<lambda>_.
     Inr (emit (Members_set members)
       (g \<lparr> gd_members := map Some members, gd_bonds := replicate GUARDIAN_SEATS GUARDIAN_BOND,
             gd_pending := filter ca_dispatched (gd_pending g), gd_approvals := [] \<rparr>))))"

definition recall_members :: "guardian_origin \<Rightarrow> account list \<Rightarrow> guardian \<Rightarrow> (core_error, guardian) result" where
  "recall_members origin approvers g =
     rbind (ensure (origin = Constitutional_values) Bad_origin) (\<lambda>_.
     let recalled = (\<lambda>m. case m of Some who \<Rightarrow> who \<in> set approvers | None \<Rightarrow> False) in
     Inr (g \<lparr> gd_members := map (\<lambda>m. if recalled m then None else m) (gd_members g),
               gd_bonds := map (\<lambda>(m, b). if recalled m then 0 else b) (zip (gd_members g) (gd_bonds g)),
               gd_pending := filter ca_dispatched (gd_pending g), gd_approvals := [] \<rparr>))"

definition ensure_member :: "guardian \<Rightarrow> account \<Rightarrow> (core_error, unit) result" where
  "ensure_member g who = ensure (Some who \<in> set (gd_members g)) Not_member"

subsection \<open>Proposing, approving, dispatching\<close>

definition propose_action :: "account \<Rightarrow> chain_power \<Rightarrow> string \<Rightarrow> int \<Rightarrow> guardian \<Rightarrow> (core_error, guardian \<times> int) result" where
  "propose_action who pw justification now g =
     rbind (ensure_member g who) (\<lambda>_.
     rbind (ensure (length (gd_pending g) < 64) Too_many_pending) (\<lambda>_.
     let i = gd_next_id g in
     (case checked_add 32 i 1 of
        None \<Rightarrow> Inl Overflow
      | Some next_id \<Rightarrow>
          (case checked_add 32 now ACTION_EXPIRY_BLOCKS of
             None \<Rightarrow> Inl Overflow
           | Some expires \<Rightarrow>
               Inr (emit (Action_proposed i pw)
                 (g \<lparr> gd_next_id := next_id,
                      gd_pending := gd_pending g @ [\<lparr> ca_id = i, ca_proposer = who, ca_power = pw,
                        ca_justification = justification, ca_created_at = now, ca_expires_at = expires,
                        ca_dispatched = False \<rparr>],
                      gd_approvals := gd_approvals g @ [(i, who)] \<rparr>), i)))))"

definition trigger_matches :: "playbook_id \<Rightarrow> playbook_trigger \<Rightarrow> bool" where
  "trigger_matches i t = (case (i, t) of
       (Pb_depeg, Depeg_median) \<Rightarrow> True
     | (Pb_migration, Migration_halt) \<Rightarrow> True
     | (Pb_oracle_void, Oracle_deadlock) \<Rightarrow> True
     | (Pb_halt_intake, Gate_breach) \<Rightarrow> True
     | (Pb_halt_intake, Dead_man) \<Rightarrow> True
     | (Pb_halt_intake, Void_in_flight) \<Rightarrow> True
     | (Pb_reserve, Reserve_health) \<Rightarrow> True
     | (Pb_ledger_freeze, Ledger_drift) \<Rightarrow> True
     | _ \<Rightarrow> False)"

text \<open>The pause counter inside its window, reset when the window has elapsed.\<close>

definition roll_pause_window :: "guardian \<Rightarrow> guardian" where
  "roll_pause_window g =
     (if saturating_sub (gd_epoch g) (gd_pause_start g) \<ge> PAUSE_INTAKE_ALLOWANCE_WINDOW_EPOCHS
      then g \<lparr> gd_pause_start := gd_epoch g, gd_pause_used := 0 \<rparr> else g)"

definition check_and_consume :: "chain_power \<Rightarrow> int \<Rightarrow> dispatch_context \<Rightarrow> guardian \<Rightarrow> (core_error, guardian) result" where
  "check_and_consume pw now ctx g =
     (case pw of
        Pause_until until \<Rightarrow>
          rbind (ensure (until \<ge> now \<and> until \<le> saturating_add 32 now HOLD_MAX_BLOCKS) Duration_too_long) (\<lambda>_.
          let g1 = roll_pause_window g in
          rbind (ensure (gd_pause_used g1 < PAUSE_INTAKE_ALLOWANCE) Allowance_exhausted) (\<lambda>_.
          Inr (g1 \<lparr> gd_pause_used := saturating_add 8 (gd_pause_used g1) 1 \<rparr>)))
      | Delay_of pid \<Rightarrow>
          rbind (ensure (dc_status ctx = Status_queued) Not_rerunnable) (\<lambda>_.
          rbind (ensure (\<not> dc_in_rerun ctx \<and> pid \<notin> set (gd_rerun_used g)) Already_rerun) (\<lambda>_.
          rbind (ensure (gd_delay_used g < DELAY_ONCE_ALLOWANCE_PER_EPOCH) Allowance_exhausted) (\<lambda>_.
          Inr (g \<lparr> gd_delay_used := saturating_add 8 (gd_delay_used g) 1, gd_rerun_used := gd_rerun_used g @ [pid] \<rparr>))))
      | Rerun_of pid \<Rightarrow>
          rbind (ensure (rerunnable (dc_status ctx)) Not_rerunnable) (\<lambda>_.
          rbind (ensure (\<not> dc_in_rerun ctx \<and> pid \<notin> set (gd_rerun_used g)) Already_rerun) (\<lambda>_.
          rbind (ensure (gd_force_used g < FORCE_RERUN_ALLOWANCE_PER_EPOCH) Allowance_exhausted) (\<lambda>_.
          Inr (g \<lparr> gd_force_used := saturating_add 8 (gd_force_used g) 1, gd_rerun_used := gd_rerun_used g @ [pid] \<rparr>))))
      | Activate i trigger expiry target \<Rightarrow>
          rbind (ensure (expiry \<ge> now \<and> expiry \<le> saturating_add 32 now HOLD_MAX_BLOCKS) Duration_too_long) (\<lambda>_.
          rbind (ensure (trigger_matches i trigger) Bad_playbook_trigger) (\<lambda>_.
          rbind (ensure (i = Pb_oracle_void \<and> target \<noteq> None \<or> i \<noteq> Pb_oracle_void \<and> target = None) Bad_playbook_target) (\<lambda>_.
          rbind (ensure (is_active (dc_triggers ctx) trigger) Trigger_inactive) (\<lambda>_.
          Inr g))))
      | Suspend \<Rightarrow>
          rbind (ensure (tf_gate_breach (dc_triggers ctx)) Trigger_inactive) (\<lambda>_. Inr g))"

definition target_of :: "chain_power \<Rightarrow> action_target" where
  "target_of pw = (case pw of
       Delay_of pid \<Rightarrow> \<lparr> at_pid = Some pid, at_playbook = None \<rparr>
     | Rerun_of pid \<Rightarrow> \<lparr> at_pid = Some pid, at_playbook = None \<rparr>
     | Activate i _ _ _ \<Rightarrow> \<lparr> at_pid = None, at_playbook = Some i \<rparr>
     | _ \<Rightarrow> \<lparr> at_pid = None, at_playbook = None \<rparr>)"

definition approvals_of :: "guardian \<Rightarrow> int \<Rightarrow> account list" where
  "approvals_of g i = map snd (filter (\<lambda>(a, _). a = i) (gd_approvals g))"

text \<open>\<open>approval_count\<close>, with its cast to \<open>u8\<close>.\<close>

definition approval_count :: "guardian \<Rightarrow> int \<Rightarrow> int" where
  "approval_count g i = int (length (approvals_of g i)) mod 2 ^ 8"

definition approver_snapshot :: "guardian \<Rightarrow> int \<Rightarrow> account list \<times> nat" where
  "approver_snapshot g i =
     (let found = take GUARDIAN_SEATS (approvals_of g i)
      in (found @ replicate (GUARDIAN_SEATS - length found) (replicate 32 CHR 0x00), length found))"

text \<open>The playbook record of an activation: at most one per id, six at most, and a ledger freeze
  is not re-activated.\<close>

definition admit_playbook :: "guardian \<Rightarrow> chain_power \<Rightarrow> (core_error, unit) result" where
  "admit_playbook g pw = (case pw of
       Activate i _ _ _ \<Rightarrow>
         (if \<exists>p \<in> set (gd_active g). ap_id p = i
          then ensure (i \<noteq> Pb_ledger_freeze) Playbook_already_active
          else ensure (length (gd_active g) < 6) Too_many_active_playbooks)
     | _ \<Rightarrow> Inr ())"

fun upsert_playbook :: "playbook_id \<Rightarrow> int \<Rightarrow> active_playbook list \<Rightarrow> active_playbook list" where
  "upsert_playbook i expiry [] = [\<lparr> ap_id = i, ap_expiry = expiry, ap_renewals_used = 0 \<rparr>]"
| "upsert_playbook i expiry (p # ps) =
     (if ap_id p = i then p \<lparr> ap_expiry := expiry \<rparr> # ps else p # upsert_playbook i expiry ps)"

definition dispatch :: "nat \<Rightarrow> int \<Rightarrow> dispatch_context \<Rightarrow> guardian \<Rightarrow> (core_error, guardian) result" where
  "dispatch idx now ctx g =
     rbind (ensure (length (gd_reviews g) < 128) Too_many_reviews) (\<lambda>_.
     let action = gd_pending g ! idx in
     rbind (admit_playbook g (ca_power action)) (\<lambda>_.
     rbind (check_and_consume (ca_power action) now ctx g) (\<lambda>g1.
     let g2 = emit (Guardian_action (ca_id action) (ca_power action) (target_of (ca_power action)) (ca_justification action))
                (g1 \<lparr> gd_pending := (gd_pending g1)[idx := action \<lparr> ca_dispatched := True \<rparr>] \<rparr>) in
     rbind (case ca_power action of
         Rerun_of pid \<Rightarrow>
           (case checked_add 32 now FORCE_RERUN_WINDOW_BLOCKS of
              None \<Rightarrow> Inl Overflow
            | Some window_end \<Rightarrow> Inr (emit (Force_rerun_event pid (ca_justification action) window_end) g2))
       | Activate i trigger expiry _ \<Rightarrow>
           Inr (emit (Playbook_activated i trigger expiry) (g2 \<lparr> gd_active := upsert_playbook i expiry (gd_active g2) \<rparr>))
       | _ \<Rightarrow> Inr g2) (\<lambda>g3.
     let (approvers, n) = approver_snapshot g3 (ca_id action) in
     Inr (emit (Review_scheduled (ca_id action))
       (g3 \<lparr> gd_reviews := gd_reviews g3 @ [\<lparr> rv_action = ca_id action,
          rv_deadline = saturating_add 32 (gd_epoch g3) (gd_review_epochs g3), rv_ratified = False,
          rv_recall_scheduled = False, rv_approvers = approvers, rv_approver_count = n \<rparr>] \<rparr>))))))"

fun find_index :: "('a \<Rightarrow> bool) \<Rightarrow> 'a list \<Rightarrow> nat option" where
  "find_index P [] = None"
| "find_index P (x # xs) = (if P x then Some 0 else map_option Suc (find_index P xs))"

definition approve_action ::
    "account \<Rightarrow> int \<Rightarrow> int \<Rightarrow> dispatch_context \<Rightarrow> guardian \<Rightarrow> (core_error, guardian \<times> bool) result" where
  "approve_action who i now ctx g =
     rbind (ensure_member g who) (\<lambda>_.
     (case find_index (\<lambda>a. ca_id a = i) (gd_pending g) of
        None \<Rightarrow> Inl Action_not_found
      | Some idx \<Rightarrow>
          let action = gd_pending g ! idx in
          rbind (ensure (now \<le> ca_expires_at action) Action_expired) (\<lambda>_.
          rbind (ensure (\<not> ca_dispatched action) Already_dispatched) (\<lambda>_.
          rbind (ensure ((i, who) \<notin> set (gd_approvals g)) Duplicate_approval) (\<lambda>_.
          let g1 = g \<lparr> gd_approvals := gd_approvals g @ [(i, who)] \<rparr>; approvals = approval_count g1 i in
          if approvals \<ge> GUARDIAN_THRESHOLD
          then rbind (dispatch idx now ctx g1) (\<lambda>g2. Inr (emit (Action_approved i who approvals) g2, True))
          else Inr (emit (Action_approved i who approvals) g1, False))))))"

subsection \<open>Reviews and playbooks\<close>

definition ratify_action :: "guardian_origin \<Rightarrow> int \<Rightarrow> guardian \<Rightarrow> (core_error, guardian) result" where
  "ratify_action origin i g =
     rbind (ensure (origin = Constitutional_values) Bad_origin) (\<lambda>_.
     (case find_index (\<lambda>r. rv_action r = i) (gd_reviews g) of
        None \<Rightarrow> Inl Review_not_found
      | Some idx \<Rightarrow>
          let review = gd_reviews g ! idx in
          rbind (ensure (\<not> rv_ratified review) Already_ratified) (\<lambda>_.
          Inr (emit (Action_ratified i) (g \<lparr> gd_reviews := (gd_reviews g)[idx := review \<lparr> rv_ratified := True \<rparr>] \<rparr>)))))"

text \<open>The bond of the seat an approver still holds loses the approver's slash.\<close>

definition slash_approver :: "account option list \<Rightarrow> account \<times> int \<Rightarrow> int list \<Rightarrow> int list" where
  "slash_approver members slash bonds =
     (case find_index (\<lambda>m. m = Some (fst slash)) members of
        None \<Rightarrow> bonds
      | Some index \<Rightarrow> bonds[index := saturating_sub (bonds ! index) (snd slash)])"

definition mark_review_failed :: "int \<Rightarrow> int \<Rightarrow> int list \<Rightarrow> guardian \<Rightarrow> (core_error, guardian) result" where
  "mark_review_failed i epoch slashes g =
     (case find_index (\<lambda>r. rv_action r = i) (gd_reviews g) of
        None \<Rightarrow> Inl Review_not_found
      | Some idx \<Rightarrow>
          let review = gd_reviews g ! idx in
          rbind (ensure (\<not> rv_ratified review \<and> \<not> rv_recall_scheduled review \<and> epoch > rv_deadline review) Review_not_found) (\<lambda>_.
          Inr (g \<lparr> gd_reviews := (gd_reviews g)[idx := review \<lparr> rv_recall_scheduled := True \<rparr>],
                   gd_bonds := fold (slash_approver (gd_members g))
                     (zip (take (rv_approver_count review) (rv_approvers review)) slashes) (gd_bonds g) \<rparr>)))"

definition review_due :: "int \<Rightarrow> review_record \<Rightarrow> bool" where
  "review_due epoch r = (\<not> rv_ratified r \<and> \<not> rv_recall_scheduled r \<and> epoch > rv_deadline r)"

fun fail_reviews :: "int \<Rightarrow> int \<Rightarrow> int list \<Rightarrow> guardian \<Rightarrow> (core_error, guardian) result" where
  "fail_reviews epoch slash [] g = Inr g"
| "fail_reviews epoch slash (i # ids) g =
     rbind (mark_review_failed i epoch (replicate GUARDIAN_SEATS slash) g) (\<lambda>g1.
     fail_reviews epoch slash ids (emit (Review_failed i slash) g1))"

definition enforce_reviews :: "int \<Rightarrow> guardian \<Rightarrow> (core_error, guardian) result" where
  "enforce_reviews epoch g =
     fail_reviews epoch (min (GUARDIAN_BOND * REVIEW_SLASH_PERCENT) (2 ^ 128 - 1) div 100)
       (map rv_action (filter (review_due epoch) (gd_reviews g))) g"

definition renew_playbook :: "guardian_origin \<Rightarrow> playbook_id \<Rightarrow> int \<Rightarrow> guardian \<Rightarrow> (core_error, guardian) result" where
  "renew_playbook origin i now g =
     rbind (ensure (origin = Constitutional_values) Bad_origin) (\<lambda>_.
     rbind (ensure (i = Pb_ledger_freeze) Renewal_not_allowed) (\<lambda>_.
     (case find_index (\<lambda>p. ap_id p = i) (gd_active g) of
        None \<Rightarrow> Inl Renewal_not_allowed
      | Some idx \<Rightarrow>
          let active = gd_active g ! idx in
          rbind (ensure (ap_renewals_used active < LEDGER_FREEZE_RENEWALS) Renewal_not_allowed) (\<lambda>_.
          (case checked_add 32 now HOLD_MAX_BLOCKS of
             None \<Rightarrow> Inl Overflow
           | Some expiry \<Rightarrow>
               Inr (emit (Playbook_renewed i) (g \<lparr> gd_active := (gd_active g)[idx := active
                 \<lparr> ap_renewals_used := saturating_add 8 (ap_renewals_used active) 1, ap_expiry := expiry \<rparr>] \<rparr>)))))))"

definition expire_playbooks :: "int \<Rightarrow> guardian \<Rightarrow> guardian" where
  "expire_playbooks now g =
     g \<lparr> gd_active := filter (\<lambda>p. \<not> now \<ge> ap_expiry p) (gd_active g),
         gd_events := gd_events g @ map (\<lambda>p. Playbook_expired (ap_id p)) (filter (\<lambda>p. now \<ge> ap_expiry p) (gd_active g)) \<rparr>"

definition is_delay :: "chain_power \<Rightarrow> bool" where
  "is_delay pw = (case pw of Delay_of _ \<Rightarrow> True | _ \<Rightarrow> False)"

definition reap_terminal_with_veto :: "int \<Rightarrow> (int \<Rightarrow> bool) \<Rightarrow> guardian \<Rightarrow> guardian" where
  "reap_terminal_with_veto now veto_live g =
     (let veto_actions = map ca_id (filter (\<lambda>a. is_delay (ca_power a) \<and>
            (\<exists>r \<in> set (gd_reviews g). rv_action r = ca_id a \<and> rv_recall_scheduled r) \<and> veto_live (ca_id a)) (gd_pending g));
          terminal = (\<lambda>a.
            ca_dispatched a \<and> \<not> (\<exists>r \<in> set (gd_reviews g). rv_action r = ca_id a \<and> \<not> rv_ratified r \<and> \<not> rv_recall_scheduled r)
              \<and> ca_id a \<notin> set veto_actions
            \<or> \<not> ca_dispatched a \<and> now > ca_expires_at a);
          reaped = map ca_id (filter terminal (gd_pending g))
      in g \<lparr> gd_pending := filter (\<lambda>a. \<not> terminal a) (gd_pending g),
             gd_approvals := (if reaped \<noteq> [] then filter (\<lambda>(i, _). i \<notin> set reaped) (gd_approvals g) else gd_approvals g),
             gd_reviews := filter (\<lambda>r. \<not> (rv_ratified r \<or> rv_recall_scheduled r \<and> rv_action r \<notin> set veto_actions))
               (gd_reviews g) \<rparr>)"

definition reap_terminal :: "int \<Rightarrow> guardian \<Rightarrow> guardian" where
  "reap_terminal now = reap_terminal_with_veto now (\<lambda>_. True)"

definition close_failed_review :: "guardian_origin \<Rightarrow> int \<Rightarrow> guardian \<Rightarrow> (core_error, guardian) result" where
  "close_failed_review origin i g =
     rbind (ensure (origin = Constitutional_values) Bad_origin) (\<lambda>_.
     rbind (ensure (\<exists>r \<in> set (gd_reviews g). rv_action r = i \<and> rv_recall_scheduled r) Review_not_found) (\<lambda>_.
     rbind (ensure (\<exists>a \<in> set (gd_pending g). ca_id a = i \<and> is_delay (ca_power a)) Review_not_found) (\<lambda>_.
     Inr (g \<lparr> gd_reviews := filter (\<lambda>r. rv_action r \<noteq> i) (gd_reviews g),
              gd_pending := filter (\<lambda>a. ca_id a \<noteq> i) (gd_pending g),
              gd_approvals := filter (\<lambda>(a, _). a \<noteq> i) (gd_approvals g) \<rparr>))))"

text \<open>\<open>try_state\<close>: the invariant the pallet checks after every block under test.\<close>

fun check_approvals :: "guardian \<Rightarrow> (int \<times> account) list \<Rightarrow> (core_error, unit) result" where
  "check_approvals g [] = Inr ()"
| "check_approvals g ((i, who) # ps) =
     rbind (ensure (\<exists>a \<in> set (gd_pending g). ca_id a = i) Action_not_found) (\<lambda>_.
     rbind (ensure_member g who) (\<lambda>_. check_approvals g ps))"

definition try_state :: "guardian \<Rightarrow> (core_error, unit) result" where
  "try_state g =
     rbind (validate_seats (gd_members g)) (\<lambda>_.
     rbind (ensure (length (gd_pending g) \<le> 64) Too_many_pending) (\<lambda>_.
     rbind (ensure (length (gd_reviews g) \<le> 128) Too_many_reviews) (\<lambda>_.
     rbind (ensure (length (gd_active g) \<le> 6) Too_many_active_playbooks) (\<lambda>_.
     rbind (ensure (distinct (map ap_id (gd_active g))) Playbook_already_active) (\<lambda>_.
     check_approvals g (gd_approvals g))))))"

subsection \<open>Runs of the council\<close>

datatype guardian_call =
    Call_set_epoch int
  | Call_set_members guardian_origin "account list"
  | Call_recall guardian_origin "account list"
  | Call_propose account chain_power string int
  | Call_approve account int int dispatch_context
  | Call_ratify guardian_origin int
  | Call_review_failed int int "int list"
  | Call_enforce int
  | Call_renew guardian_origin playbook_id int
  | Call_expire int
  | Call_reap int "int \<Rightarrow> bool"
  | Call_close guardian_origin int

definition apply_call :: "guardian_call \<Rightarrow> guardian \<Rightarrow> (core_error, guardian) result" where
  "apply_call c g = (case c of
       Call_set_epoch epoch \<Rightarrow> Inr (set_epoch epoch g)
     | Call_set_members origin members \<Rightarrow> set_members origin members g
     | Call_recall origin approvers \<Rightarrow> recall_members origin approvers g
     | Call_propose who pw justification now \<Rightarrow> rbind (propose_action who pw justification now g) (\<lambda>(g', _). Inr g')
     | Call_approve who i now ctx \<Rightarrow> rbind (approve_action who i now ctx g) (\<lambda>(g', _). Inr g')
     | Call_ratify origin i \<Rightarrow> ratify_action origin i g
     | Call_review_failed i epoch slashes \<Rightarrow> mark_review_failed i epoch slashes g
     | Call_enforce epoch \<Rightarrow> enforce_reviews epoch g
     | Call_renew origin i now \<Rightarrow> renew_playbook origin i now g
     | Call_expire now \<Rightarrow> Inr (expire_playbooks now g)
     | Call_reap now veto_live \<Rightarrow> Inr (reap_terminal_with_veto now veto_live g)
     | Call_close origin i \<Rightarrow> close_failed_review origin i g)"

text \<open>The council has seven seats by the type of its array.\<close>

definition seven :: "guardian_call \<Rightarrow> bool" where
  "seven c = (case c of Call_set_members _ members \<Rightarrow> length members = GUARDIAN_SEATS | _ \<Rightarrow> True)"

inductive council :: "guardian \<Rightarrow> bool" where
  elected: "length members = GUARDIAN_SEATS \<Longrightarrow> guardian_new members = Inr g \<Longrightarrow> council g"
| called: "council g \<Longrightarrow> seven c \<Longrightarrow> apply_call c g = Inr g' \<Longrightarrow> council g'"

subsection \<open>The invariant\<close>

definition seated :: "guardian \<Rightarrow> account set" where
  "seated g = {who. Some who \<in> set (gd_members g)}"

definition inv_seats :: "guardian \<Rightarrow> bool" where
  "inv_seats g \<longleftrightarrow> length (gd_members g) = GUARDIAN_SEATS \<and> distinct (filter (\<lambda>m. m \<noteq> None) (gd_members g))"

definition inv_caps :: "guardian \<Rightarrow> bool" where
  "inv_caps g \<longleftrightarrow> length (gd_pending g) \<le> 64 \<and> length (gd_reviews g) \<le> 128 \<and> length (gd_active g) \<le> 6 \<and>
     distinct (map ap_id (gd_active g))"

definition inv_approvals :: "guardian \<Rightarrow> bool" where
  "inv_approvals g \<longleftrightarrow> distinct (gd_approvals g) \<and>
     (\<forall>(i, who) \<in> set (gd_approvals g). i \<in> ca_id ` set (gd_pending g) \<and> who \<in> seated g)"

definition inv_ids :: "guardian \<Rightarrow> bool" where
  "inv_ids g \<longleftrightarrow> distinct (map ca_id (gd_pending g)) \<and> (\<forall>a \<in> set (gd_pending g). ca_id a < gd_next_id g) \<and>
     distinct (map rv_action (gd_reviews g)) \<and> (\<forall>r \<in> set (gd_reviews g). rv_action r < gd_next_id g) \<and>
     (\<forall>r \<in> set (gd_reviews g). \<forall>a \<in> set (gd_pending g). ca_id a = rv_action r \<longrightarrow> ca_dispatched a)"

definition five_approvers :: "review_record \<Rightarrow> bool" where
  "five_approvers r \<longleftrightarrow> 5 \<le> rv_approver_count r \<and> rv_approver_count r \<le> 7 \<and> length (rv_approvers r) = 7 \<and>
     distinct (take (rv_approver_count r) (rv_approvers r))"

definition inv_reviews :: "guardian \<Rightarrow> bool" where
  "inv_reviews g \<longleftrightarrow> (\<forall>r \<in> set (gd_reviews g). five_approvers r)"

definition inv_allow :: "guardian \<Rightarrow> bool" where
  "inv_allow g \<longleftrightarrow> 0 \<le> gd_delay_used g \<and> gd_delay_used g \<le> 2 \<and> 0 \<le> gd_force_used g \<and> gd_force_used g \<le> 1 \<and>
     0 \<le> gd_pause_used g \<and> gd_pause_used g \<le> 1 \<and> distinct (gd_rerun_used g)"

definition council_ok :: "guardian \<Rightarrow> bool" where
  "council_ok g \<longleftrightarrow> inv_seats g \<and> inv_caps g \<and> inv_approvals g \<and> inv_ids g \<and> inv_reviews g \<and> inv_allow g"

lemmas council_invs = inv_seats_def inv_caps_def inv_approvals_def inv_ids_def inv_reviews_def inv_allow_def

lemma emit_simps [simp]:
  "gd_members (emit e g) = gd_members g" "gd_bonds (emit e g) = gd_bonds g" "gd_pending (emit e g) = gd_pending g"
  "gd_approvals (emit e g) = gd_approvals g" "gd_reviews (emit e g) = gd_reviews g" "gd_active (emit e g) = gd_active g"
  "gd_rerun_used (emit e g) = gd_rerun_used g" "gd_delay_used (emit e g) = gd_delay_used g"
  "gd_force_used (emit e g) = gd_force_used g" "gd_pause_used (emit e g) = gd_pause_used g"
  "gd_pause_start (emit e g) = gd_pause_start g" "gd_epoch (emit e g) = gd_epoch g"
  "gd_review_epochs (emit e g) = gd_review_epochs g" "gd_next_id (emit e g) = gd_next_id g"
  by (simp_all add: emit_def)

lemma council_ok_emit [simp]: "council_ok (emit e g) = council_ok g"
  by (simp add: council_ok_def council_invs seated_def)

lemma council_ok_bonds [simp]: "council_ok (g \<lparr> gd_bonds := b \<rparr>) = council_ok g"
  by (simp add: council_ok_def council_invs seated_def)

lemma find_index_SomeD: "find_index P xs = Some k \<Longrightarrow> k < length xs \<and> P (xs ! k)"
  by (induction xs arbitrary: k) (auto split: if_splits)

lemma find_index_None: "find_index P xs = None \<longleftrightarrow> (\<forall>x \<in> set xs. \<not> P x)"
  by (induction xs) auto

lemma seated_bound:
  assumes "inv_seats g" "distinct ws" "set ws \<subseteq> seated g"
  shows "length ws \<le> 7"
proof -
  have "length ws = card (Some ` set ws)" using assms(2) by (simp add: card_image distinct_card)
  also have "\<dots> \<le> card (set (gd_members g))"
    using assms(3) by (intro card_mono) (auto simp: seated_def)
  also have "\<dots> \<le> length (gd_members g)" by (rule card_length)
  finally show ?thesis using assms(1) by (simp add: inv_seats_def GUARDIAN_SEATS_def)
qed

lemma approvals_of_facts:
  assumes "inv_approvals g"
  shows "distinct (approvals_of g i)" "set (approvals_of g i) \<subseteq> seated g"
    "set (approvals_of g i) = {who. (i, who) \<in> set (gd_approvals g)}"
proof -
  have "inj_on snd {p \<in> set (gd_approvals g). fst p = i}" by (auto simp: inj_on_def)
  then show "distinct (approvals_of g i)" using assms
    by (simp add: approvals_of_def inv_approvals_def distinct_map case_prod_unfold)
  show "set (approvals_of g i) \<subseteq> seated g" "set (approvals_of g i) = {who. (i, who) \<in> set (gd_approvals g)}"
    using assms by (force simp: approvals_of_def inv_approvals_def)+
qed

lemma approval_count_exact:
  assumes "inv_seats g" "inv_approvals g"
  shows "approval_count g i = int (length (approvals_of g i))"
  using seated_bound [OF assms(1) approvals_of_facts(1,2) [OF assms(2)], of i] by (simp add: approval_count_def)

lemma snapshot_facts:
  assumes "inv_seats g" "inv_approvals g" "approver_snapshot g i = (ws, n)"
  shows "n = length (approvals_of g i)" "take n ws = approvals_of g i" "length ws = 7" "n \<le> 7"
  using seated_bound [OF assms(1) approvals_of_facts(1,2) [OF assms(2)], of i] assms(3)
  by (auto simp: approver_snapshot_def Let_def GUARDIAN_SEATS_def)

subsection \<open>The calls that do not dispatch\<close>

lemma distinct_seats_map_Some: "distinct ms \<Longrightarrow> distinct (filter (\<lambda>m. m \<noteq> None) (map Some ms))"
  by (simp add: filter_map o_def distinct_map)

lemma guardian_new_ok: "length ms = GUARDIAN_SEATS \<Longrightarrow> guardian_new ms = Inr g \<Longrightarrow> council_ok g"
  by (auto simp: guardian_new_def rbind_eq_Inr_iff validate_members_def council_ok_def council_invs filter_map o_def distinct_map)

lemma set_epoch_ok: "council_ok g \<Longrightarrow> council_ok (set_epoch epoch g)"
  by (auto simp: set_epoch_def council_ok_def council_invs seated_def)

lemma filter_ids: "distinct (map f xs) \<Longrightarrow> distinct (map f (filter P xs))"
  by (induction xs) auto

text \<open>Dropping actions together with their approvals, and reviews.\<close>

lemma drop_ok:
  assumes "council_ok g" "\<forall>(i, who) \<in> set (gd_approvals g). Q i \<longrightarrow> (\<forall>a \<in> set (gd_pending g). ca_id a = i \<longrightarrow> P a)"
  shows "council_ok (g \<lparr> gd_pending := filter P (gd_pending g), gd_approvals := filter (\<lambda>(i, _). Q i) (gd_approvals g),
     gd_reviews := filter R (gd_reviews g) \<rparr>)" (is "council_ok ?g")
proof -
  have inv: "inv_seats g" "inv_caps g" "inv_approvals g" "inv_ids g" "inv_reviews g" "inv_allow g"
    using assms(1) by (simp_all add: council_ok_def)
  have caps: "inv_caps ?g"
    using inv(2) by (simp add: inv_caps_def le_trans [OF length_filter_le])
  have mem: "i \<in> ca_id ` {a \<in> set (gd_pending g). P a} \<and> who \<in> seated g"
    if "(i, who) \<in> set (gd_approvals g)" "Q i" for i who
  proof -
    have "\<forall>p \<in> set (gd_approvals g). fst p \<in> ca_id ` set (gd_pending g) \<and> snd p \<in> seated g"
      using inv(3) by (simp add: inv_approvals_def case_prod_unfold)
    then have "i \<in> ca_id ` set (gd_pending g)" and w: "who \<in> seated g" using that(1) by fastforce+
    then obtain a where a: "a \<in> set (gd_pending g)" "ca_id a = i" by blast
    have "P a" using assms(2) that a by blast
    with a w show ?thesis by blast
  qed
  have app: "inv_approvals ?g" using inv(3) mem by (auto simp: inv_approvals_def seated_def)
  have ids: "inv_ids ?g" using inv(4) unfolding inv_ids_def by (auto intro: filter_ids)
  show ?thesis using caps app ids inv by (simp add: council_ok_def inv_seats_def inv_reviews_def inv_allow_def)
qed

lemma clear_workflow_ok:
  "council_ok g \<Longrightarrow> council_ok (g \<lparr> gd_pending := filter ca_dispatched (gd_pending g), gd_approvals := [] \<rparr>)"
  using drop_ok [of g "\<lambda>_. False" ca_dispatched "\<lambda>_. True"] by simp

lemma reseat_ok:
  assumes "council_ok g" "gd_approvals g = []" "length ms = GUARDIAN_SEATS" "distinct (filter (\<lambda>m. m \<noteq> None) ms)"
  shows "council_ok (g \<lparr> gd_members := ms \<rparr>)"
  using assms by (simp add: council_ok_def inv_seats_def inv_caps_def inv_approvals_def inv_ids_def inv_reviews_def inv_allow_def)

lemma set_members_ok:
  assumes "council_ok g" "length ms = GUARDIAN_SEATS" "set_members origin ms g = Inr g'"
  shows "council_ok g'"
proof -
  let ?c = "g \<lparr> gd_pending := filter ca_dispatched (gd_pending g), gd_approvals := [] \<rparr>"
  have d: "distinct ms" and g': "g' = emit (Members_set ms)
      (?c \<lparr> gd_members := map Some ms \<rparr> \<lparr> gd_bonds := replicate GUARDIAN_SEATS GUARDIAN_BOND \<rparr>)"
    using assms(3) by (cases g, auto simp: set_members_def rbind_eq_Inr_iff validate_members_def)+
  have "council_ok (?c \<lparr> gd_members := map Some ms \<rparr>)"
    by (rule reseat_ok [OF clear_workflow_ok [OF assms(1)]])
      (use assms(2) distinct_seats_map_Some [OF d] in simp_all)
  then show ?thesis unfolding g' by simp
qed

lemma distinct_seats_vacate:
  "distinct (filter (\<lambda>m. m \<noteq> None) ms) \<Longrightarrow> distinct (filter (\<lambda>m. m \<noteq> None) (map (\<lambda>m. if P m then None else m) ms))"
  by (induction ms) (auto split: if_splits)

lemma recall_members_ok:
  assumes "council_ok g" "recall_members origin approvers g = Inr g'"
  shows "council_ok g'"
proof -
  let ?c = "g \<lparr> gd_pending := filter ca_dispatched (gd_pending g), gd_approvals := [] \<rparr>"
  let ?r = "\<lambda>m. case m of Some who \<Rightarrow> who \<in> set approvers | None \<Rightarrow> False"
  let ?ms = "map (\<lambda>m. if ?r m then None else m) (gd_members g)"
  have g': "g' = ?c \<lparr> gd_members := ?ms \<rparr>
      \<lparr> gd_bonds := map (\<lambda>(m, b). if ?r m then 0 else b) (zip (gd_members g) (gd_bonds g)) \<rparr>"
    using assms(2) by (cases g) (auto simp: recall_members_def rbind_eq_Inr_iff Let_def)
  have seats: "inv_seats g" using assms(1) by (simp add: council_ok_def)
  have "distinct (filter (\<lambda>m. m \<noteq> None) ?ms)"
    by (rule distinct_seats_vacate) (use seats in \<open>simp only: inv_seats_def\<close>)
  then have "council_ok (?c \<lparr> gd_members := ?ms \<rparr>)"
    by (intro reseat_ok [OF clear_workflow_ok [OF assms(1)]]) (use seats in \<open>simp_all add: inv_seats_def\<close>)
  then show ?thesis unfolding g' council_ok_bonds .
qed

lemma propose_action_ok:
  assumes "council_ok g" "propose_action who pw j now g = Inr (g', i)"
  shows "council_ok g'"
proof -
  have inv: "inv_seats g" "inv_caps g" "inv_approvals g" "inv_ids g" "inv_reviews g" "inv_allow g"
    using assms(1) by (simp_all add: council_ok_def)
  from assms(2) obtain expires where g': "who \<in> seated g" "length (gd_pending g) < 64"
    "g' = emit (Action_proposed (gd_next_id g) pw) (g \<lparr> gd_next_id := gd_next_id g + 1,
       gd_pending := gd_pending g @ [\<lparr> ca_id = gd_next_id g, ca_proposer = who, ca_power = pw,
         ca_justification = j, ca_created_at = now, ca_expires_at = expires, ca_dispatched = False \<rparr>],
       gd_approvals := gd_approvals g @ [(gd_next_id g, who)] \<rparr>)"
    by (auto simp: propose_action_def rbind_eq_Inr_iff ensure_member_def Let_def checked_add_def seated_def
        split: if_splits)
  have fresh: "gd_next_id g \<notin> ca_id ` set (gd_pending g)" "gd_next_id g \<notin> rv_action ` set (gd_reviews g)"
    using inv(4) by (auto simp: inv_ids_def)
  then have "(gd_next_id g, who) \<notin> set (gd_approvals g)" using inv(3) by (auto simp: inv_approvals_def)
  then show ?thesis using inv g' fresh unfolding council_ok_def
    by (auto simp: council_invs seated_def)
qed

lemma update_review_ok:
  assumes "council_ok g" "k < length (gd_reviews g)" "rv_action r = rv_action (gd_reviews g ! k)"
    "rv_approvers r = rv_approvers (gd_reviews g ! k)" "rv_approver_count r = rv_approver_count (gd_reviews g ! k)"
  shows "council_ok (g \<lparr> gd_reviews := (gd_reviews g)[k := r] \<rparr>)"
proof -
  have inv: "inv_seats g" "inv_caps g" "inv_approvals g" "inv_ids g" "inv_reviews g" "inv_allow g"
    using assms(1) by (simp_all add: council_ok_def)
  have m: "map rv_action ((gd_reviews g)[k := r]) = map rv_action (gd_reviews g)"
    using assms(2,3) by (metis list_update_id map_update nth_map)
  have sub: "q \<in> set ((gd_reviews g)[k := r]) \<Longrightarrow> q \<in> set (gd_reviews g) \<or> q = r" for q
    using set_update_subset_insert [of "gd_reviews g" k r] by blast
  have old: "gd_reviews g ! k \<in> set (gd_reviews g)" using assms(2) by simp
  have five: "five_approvers r" using inv(5) old assms(4,5) by (simp add: inv_reviews_def five_approvers_def)
  have "inv_ids (g \<lparr> gd_reviews := (gd_reviews g)[k := r] \<rparr>)"
    using inv(4) m old assms(3) by (auto simp: inv_ids_def dest!: sub)
  moreover have "inv_reviews (g \<lparr> gd_reviews := (gd_reviews g)[k := r] \<rparr>)"
    using inv(5) five by (auto simp: inv_reviews_def dest!: sub)
  ultimately show ?thesis using inv by (simp add: council_ok_def council_invs seated_def)
qed

lemma ratify_action_ok:
  assumes "council_ok g" "ratify_action origin i g = Inr g'"
  shows "council_ok g'"
  using assms(2) find_index_SomeD [of "\<lambda>r. rv_action r = i" "gd_reviews g"]
  by (auto simp: ratify_action_def rbind_eq_Inr_iff Let_def split: option.splits intro!: update_review_ok [OF assms(1)])

lemma mark_review_failed_ok:
  assumes "council_ok g" "mark_review_failed i epoch slashes g = Inr g'"
  shows "council_ok g'"
proof -
  obtain k b where k: "find_index (\<lambda>r. rv_action r = i) (gd_reviews g) = Some k"
    and g': "g' = g \<lparr> gd_reviews := (gd_reviews g)[k := (gd_reviews g ! k) \<lparr> rv_recall_scheduled := True \<rparr>] \<rparr> \<lparr> gd_bonds := b \<rparr>"
    using assms(2) by (auto simp: mark_review_failed_def rbind_eq_Inr_iff Let_def split: option.splits)
  show ?thesis unfolding g' council_ok_bonds
    by (rule update_review_ok [OF assms(1)]) (use find_index_SomeD [OF k] in simp_all)
qed

lemma fail_reviews_ok: "council_ok g \<Longrightarrow> fail_reviews epoch slash ids g = Inr g' \<Longrightarrow> council_ok g'"
proof (induction ids arbitrary: g)
  case (Cons i ids)
  then obtain g1 where "mark_review_failed i epoch (replicate GUARDIAN_SEATS slash) g = Inr g1"
    and f: "fail_reviews epoch slash ids (emit (Review_failed i slash) g1) = Inr g'"
    by (auto simp: rbind_eq_Inr_iff)
  then have "council_ok g1" using mark_review_failed_ok [OF Cons.prems(1)] by blast
  with Cons.IH [OF _ f] show ?case by simp
qed simp

lemma update_active_ok:
  assumes "council_ok g" "k < length (gd_active g)" "ap_id p = ap_id (gd_active g ! k)"
  shows "council_ok (g \<lparr> gd_active := (gd_active g)[k := p] \<rparr>)"
proof -
  have m: "map ap_id ((gd_active g)[k := p]) = map ap_id (gd_active g)"
    using assms(2,3) by (metis list_update_id map_update nth_map)
  have inv: "inv_seats g" "inv_caps g" "inv_approvals g" "inv_ids g" "inv_reviews g" "inv_allow g"
    using assms(1) by (simp_all add: council_ok_def)
  have "inv_caps (g \<lparr> gd_active := (gd_active g)[k := p] \<rparr>)" using inv(2) m by (simp add: inv_caps_def)
  then show ?thesis using inv by (simp add: council_ok_def council_invs seated_def)
qed

lemma renew_playbook_ok:
  assumes "council_ok g" "renew_playbook origin i now g = Inr g'"
  shows "council_ok g'"
  using assms(2) find_index_SomeD [of "\<lambda>p. ap_id p = i" "gd_active g"]
  by (auto simp: renew_playbook_def rbind_eq_Inr_iff Let_def split: option.splits intro!: update_active_ok [OF assms(1)])

lemma expire_playbooks_ok:
  assumes "council_ok g"
  shows "council_ok (expire_playbooks now g)"
proof -
  have inv: "inv_seats g" "inv_caps g" "inv_approvals g" "inv_ids g" "inv_reviews g" "inv_allow g"
    using assms(1) by (simp_all add: council_ok_def)
  have "inv_caps (expire_playbooks now g)"
    using inv(2) by (auto simp: inv_caps_def expire_playbooks_def filter_ids intro: le_trans [OF length_filter_le])
  then show ?thesis using inv by (simp add: council_ok_def council_invs seated_def expire_playbooks_def)
qed

lemma reap_ok:
  assumes "council_ok g"
  shows "council_ok (reap_terminal_with_veto now veto g)"
proof -
  define V where "V = map ca_id (filter (\<lambda>a. is_delay (ca_power a) \<and>
      (\<exists>r \<in> set (gd_reviews g). rv_action r = ca_id a \<and> rv_recall_scheduled r) \<and> veto (ca_id a)) (gd_pending g))"
  define T where "T = (\<lambda>a :: core_action.
      ca_dispatched a \<and> \<not> (\<exists>r \<in> set (gd_reviews g). rv_action r = ca_id a \<and> \<not> rv_ratified r \<and> \<not> rv_recall_scheduled r)
        \<and> ca_id a \<notin> set V \<or> \<not> ca_dispatched a \<and> now > ca_expires_at a)"
  define R where "R = (\<lambda>r :: review_record. \<not> (rv_ratified r \<or> rv_recall_scheduled r \<and> rv_action r \<notin> set V))"
  define K where "K = (\<lambda>i. i \<notin> ca_id ` {a \<in> set (gd_pending g). T a})"
  have r: "reap_terminal_with_veto now veto g =
      g \<lparr> gd_pending := filter (\<lambda>a. \<not> T a) (gd_pending g),
          gd_approvals := (if map ca_id (filter T (gd_pending g)) \<noteq> []
            then filter (\<lambda>(i, _). i \<notin> set (map ca_id (filter T (gd_pending g)))) (gd_approvals g) else gd_approvals g),
          gd_reviews := filter R (gd_reviews g) \<rparr>"
    unfolding reap_terminal_with_veto_def Let_def V_def T_def R_def by (rule refl)
  have k: "(if map ca_id (filter T (gd_pending g)) \<noteq> []
      then filter (\<lambda>(i, _). i \<notin> set (map ca_id (filter T (gd_pending g)))) (gd_approvals g) else gd_approvals g) =
     filter (\<lambda>(i, _). K i) (gd_approvals g)"
  proof (cases "filter T (gd_pending g) = []")
    case True
    then have "K i" for i by (auto simp: K_def filter_empty_conv)
    then show ?thesis using True by simp
  next
    case False
    then show ?thesis by (simp add: K_def)
  qed
  show ?thesis unfolding r k by (rule drop_ok [OF assms]) (auto simp: K_def)
qed

lemma close_failed_review_ok:
  assumes "council_ok g" "close_failed_review origin i g = Inr g'"
  shows "council_ok g'"
proof -
  have "g' = g \<lparr> gd_reviews := filter (\<lambda>r. rv_action r \<noteq> i) (gd_reviews g),
              gd_pending := filter (\<lambda>a. ca_id a \<noteq> i) (gd_pending g),
              gd_approvals := filter (\<lambda>(a, _). a \<noteq> i) (gd_approvals g) \<rparr>"
    using assms(2) by (auto simp: close_failed_review_def rbind_eq_Inr_iff)
  then have g': "g' = g \<lparr> gd_pending := filter (\<lambda>a. ca_id a \<noteq> i) (gd_pending g),
              gd_approvals := filter (\<lambda>(a, _). a \<noteq> i) (gd_approvals g),
              gd_reviews := filter (\<lambda>r. rv_action r \<noteq> i) (gd_reviews g) \<rparr>" by simp
  show ?thesis unfolding g' by (rule drop_ok [OF assms(1)]) auto
qed

subsection \<open>Approving and dispatching\<close>

lemma check_and_consume_keeps:
  assumes "check_and_consume pw now ctx g = Inr g'"
  shows "gd_members g' = gd_members g" "gd_pending g' = gd_pending g" "gd_approvals g' = gd_approvals g"
    "gd_reviews g' = gd_reviews g" "gd_active g' = gd_active g" "gd_next_id g' = gd_next_id g" "gd_epoch g' = gd_epoch g"
    "gd_review_epochs g' = gd_review_epochs g" "gd_events g' = gd_events g"
  using assms by (auto simp: check_and_consume_def rbind_eq_Inr_iff Let_def roll_pause_window_def split: chain_power.splits if_splits)

lemma check_and_consume_allow:
  assumes "check_and_consume pw now ctx g = Inr g'" "inv_allow g"
  shows "inv_allow g'"
  using assms by (auto simp: check_and_consume_def rbind_eq_Inr_iff Let_def roll_pause_window_def inv_allow_def guardian_consts
      saturating_add_def split: chain_power.splits if_splits)

lemma upsert_ids: "set (map ap_id (upsert_playbook i e ps)) = insert i (set (map ap_id ps))"
  by (induction ps) auto

lemma upsert_distinct: "distinct (map ap_id ps) \<Longrightarrow> distinct (map ap_id (upsert_playbook i e ps))"
proof (induction ps)
  case (Cons p ps)
  then show ?case using upsert_ids [of i e ps] by auto
qed simp

lemma upsert_length: "length (upsert_playbook i e ps) = (if i \<in> ap_id ` set ps then length ps else Suc (length ps))"
  by (induction ps) auto

text \<open>What a successful dispatch changes.\<close>

lemma dispatch_shape:
  assumes "dispatch k now ctx g = Inr g'"
  obtains ws n d active where
    "length (gd_reviews g) < 128" "admit_playbook g (ca_power (gd_pending g ! k)) = Inr ()"
    "\<exists>g1. check_and_consume (ca_power (gd_pending g ! k)) now ctx g = Inr g1 \<and> inv_allow g' = inv_allow g1"
    "gd_members g' = gd_members g" "gd_approvals g' = gd_approvals g" "gd_next_id g' = gd_next_id g"
    "gd_pending g' = (gd_pending g)[k := (gd_pending g ! k) \<lparr> ca_dispatched := True \<rparr>]"
    "approver_snapshot g (ca_id (gd_pending g ! k)) = (ws, n)"
    "gd_reviews g' = gd_reviews g @ [\<lparr> rv_action = ca_id (gd_pending g ! k), rv_deadline = d, rv_ratified = False,
       rv_recall_scheduled = False, rv_approvers = ws, rv_approver_count = n \<rparr>]"
    "gd_active g' = active"
    "active = gd_active g \<or> (\<exists>i t e c. ca_power (gd_pending g ! k) = Activate i t e c \<and> active = upsert_playbook i e (gd_active g))"
proof -
  let ?a = "gd_pending g ! k"
  obtain g1 where c: "length (gd_reviews g) < 128" "admit_playbook g (ca_power ?a) = Inr ()"
    "check_and_consume (ca_power ?a) now ctx g = Inr g1"
    using assms by (auto simp: dispatch_def rbind_eq_Inr_iff Let_def)
  note k = check_and_consume_keeps [OF c(3)]
  obtain ws n where ws: "approver_snapshot g (ca_id ?a) = (ws, n)" by (cases "approver_snapshot g (ca_id ?a)")
  have snap: "approver_snapshot h (ca_id ?a) = (ws, n)" if "gd_approvals h = gd_approvals g" for h :: guardian
    unfolding ws [symmetric] by (simp add: approver_snapshot_def approvals_of_def that)
  show thesis
  proof (cases "ca_power ?a")
    case (Activate i t e x)
    show thesis
      by (rule that [OF c(1,2) _ _ _ _ _ ws, of "saturating_add 32 (gd_epoch g) (gd_review_epochs g)" "upsert_playbook i e (gd_active g)"])
        (use assms c k Activate in \<open>auto simp: dispatch_def Let_def snap inv_allow_def\<close>)
  next
    case (Rerun_of pid)
    show thesis
      by (rule that [OF c(1,2) _ _ _ _ _ ws, of "saturating_add 32 (gd_epoch g) (gd_review_epochs g)" "gd_active g"])
        (use assms c k Rerun_of in \<open>auto simp: dispatch_def Let_def snap inv_allow_def rbind_eq_Inr_iff split: option.splits\<close>)
  next
    case (Pause_until u)
    show thesis
      by (rule that [OF c(1,2) _ _ _ _ _ ws, of "saturating_add 32 (gd_epoch g) (gd_review_epochs g)" "gd_active g"])
        (use assms c k Pause_until in \<open>auto simp: dispatch_def Let_def snap inv_allow_def\<close>)
  next
    case (Delay_of pid)
    show thesis
      by (rule that [OF c(1,2) _ _ _ _ _ ws, of "saturating_add 32 (gd_epoch g) (gd_review_epochs g)" "gd_active g"])
        (use assms c k Delay_of in \<open>auto simp: dispatch_def Let_def snap inv_allow_def\<close>)
  next
    case Suspend
    show thesis
      by (rule that [OF c(1,2) _ _ _ _ _ ws, of "saturating_add 32 (gd_epoch g) (gd_review_epochs g)" "gd_active g"])
        (use assms c k Suspend in \<open>auto simp: dispatch_def Let_def snap inv_allow_def\<close>)
  qed
qed

lemma set_update_ids: "k < length xs \<Longrightarrow> f y = f (xs ! k) \<Longrightarrow> map f (xs[k := y]) = map f xs"
  by (metis list_update_id map_update nth_map)

lemma dispatch_ok:
  assumes ok: "inv_seats g" "inv_caps g" "inv_approvals g" "inv_ids g" "inv_reviews g" "inv_allow g"
    and d: "dispatch k now ctx g = Inr g'" and k: "k < length (gd_pending g)" "\<not> ca_dispatched (gd_pending g ! k)"
    and five: "5 \<le> length (approvals_of g (ca_id (gd_pending g ! k)))"
  shows "council_ok g'"
proof -
  let ?a = "gd_pending g ! k"
  let ?b = "?a \<lparr> ca_dispatched := True \<rparr>"
  obtain ws n dl active where s:
    "length (gd_reviews g) < 128" "admit_playbook g (ca_power ?a) = Inr ()"
    "\<exists>g1. check_and_consume (ca_power ?a) now ctx g = Inr g1 \<and> inv_allow g' = inv_allow g1"
    "gd_members g' = gd_members g" "gd_approvals g' = gd_approvals g" "gd_next_id g' = gd_next_id g"
    "gd_pending g' = (gd_pending g)[k := ?b]" "approver_snapshot g (ca_id ?a) = (ws, n)"
    "gd_reviews g' = gd_reviews g @ [\<lparr> rv_action = ca_id ?a, rv_deadline = dl, rv_ratified = False,
       rv_recall_scheduled = False, rv_approvers = ws, rv_approver_count = n \<rparr>]"
    "gd_active g' = active"
    "active = gd_active g \<or> (\<exists>i t e c. ca_power ?a = Activate i t e c \<and> active = upsert_playbook i e (gd_active g))"
    by (rule dispatch_shape [OF d])
  have a: "?a \<in> set (gd_pending g)" using k by simp
  have ids: "map ca_id (gd_pending g') = map ca_id (gd_pending g)" unfolding s(7) by (rule set_update_ids [OF k(1)]) simp
  then have idset: "ca_id ` set (gd_pending g') = ca_id ` set (gd_pending g)" by (metis set_map)
  have sub: "x \<in> set (gd_pending g') \<Longrightarrow> x = ?b \<or> x \<in> set (gd_pending g)" for x
    unfolding s(7) using set_update_subset_insert [of "gd_pending g" k ?b] by blast
  have unique: "x = ?b" if x: "x \<in> set (gd_pending g')" "ca_id x = ca_id ?a" for x
  proof -
    obtain j where j: "j < length (gd_pending g')" "x = gd_pending g' ! j" using x(1) by (auto simp: in_set_conv_nth)
    have "ca_id (gd_pending g ! j) = ca_id ?a" using j x(2) unfolding s(7) by (cases "j = k") auto
    then have "j = k" using ok(4) j(1) k(1) s(7) by (auto simp: inv_ids_def distinct_conv_nth)
    then show ?thesis using j k(1) by (simp add: s(7))
  qed
  have notrev: "ca_id ?a \<notin> rv_action ` set (gd_reviews g)" using ok(4) a k(2) by (auto simp: inv_ids_def)
  have caps: "inv_caps g'"
  proof -
    have "length active \<le> 6 \<and> distinct (map ap_id active)"
      using s(11)
    proof (elim disjE exE conjE)
      assume "active = gd_active g"
      then show ?thesis using ok(2) by (simp add: inv_caps_def)
    next
      fix i t e c assume p: "ca_power ?a = Activate i t e c" and act: "active = upsert_playbook i e (gd_active g)"
      have "i \<in> ap_id ` set (gd_active g) \<or> length (gd_active g) < 6"
        using s(2) by (auto simp: admit_playbook_def p split: if_splits)
      then show ?thesis using ok(2) by (auto simp: act inv_caps_def upsert_distinct upsert_length)
    qed
    then show ?thesis using ok(2) s by (simp add: inv_caps_def)
  qed
  have app: "inv_approvals g'" using ok(3) s(4,5) idset by (simp add: inv_approvals_def seated_def)
  have ids': "inv_ids g'"
    unfolding inv_ids_def
  proof (intro conjI)
    show "distinct (map ca_id (gd_pending g'))" using ok(4) ids by (simp add: inv_ids_def)
    show "\<forall>x \<in> set (gd_pending g'). ca_id x < gd_next_id g'"
      using ok(4) a unfolding s(6) inv_ids_def by (auto dest!: sub)
    show "distinct (map rv_action (gd_reviews g'))" using ok(4) notrev by (simp add: s(9) inv_ids_def)
    show "\<forall>r \<in> set (gd_reviews g'). rv_action r < gd_next_id g'"
      using ok(4) a by (auto simp: s(6,9) inv_ids_def)
    show "\<forall>r \<in> set (gd_reviews g'). \<forall>x \<in> set (gd_pending g'). ca_id x = rv_action r \<longrightarrow> ca_dispatched x"
    proof (intro ballI impI)
      fix r x assume r: "r \<in> set (gd_reviews g')" and x: "x \<in> set (gd_pending g')" "ca_id x = rv_action r"
      show "ca_dispatched x"
      proof (cases "ca_id x = ca_id ?a")
        case True
        then show ?thesis using unique [OF x(1)] by simp
      next
        case False
        then have "x \<in> set (gd_pending g)" "r \<in> set (gd_reviews g)" using sub [OF x(1)] r x(2) by (auto simp: s(9))
        then show ?thesis using ok(4) x(2) by (auto simp: inv_ids_def)
      qed
    qed
  qed
  have "five_approvers \<lparr> rv_action = ca_id ?a, rv_deadline = dl, rv_ratified = False,
       rv_recall_scheduled = False, rv_approvers = ws, rv_approver_count = n \<rparr>"
    using snapshot_facts [OF ok(1,3) s(8)] five approvals_of_facts(1) [OF ok(3)] by (simp add: five_approvers_def)
  then have rev: "inv_reviews g'" using ok(5) by (simp add: s(9) inv_reviews_def)
  have allow: "inv_allow g'" using s(3) check_and_consume_allow ok(6) by blast
  have "inv_seats g'" using ok(1) s(4) by (simp add: inv_seats_def)
  then show ?thesis using caps app ids' rev allow by (simp add: council_ok_def)
qed

text \<open>The approval before the threshold is counted.\<close>

abbreviation with_approval :: "guardian \<Rightarrow> int \<Rightarrow> account \<Rightarrow> guardian" where
  "with_approval g i who \<equiv> g \<lparr> gd_approvals := gd_approvals g @ [(i, who)] \<rparr>"

lemma approve_action_cases:
  assumes "approve_action who i now ctx g = Inr (g', b)"
  obtains k where "who \<in> seated g" "k < length (gd_pending g)" "ca_id (gd_pending g ! k) = i"
    "now \<le> ca_expires_at (gd_pending g ! k)" "\<not> ca_dispatched (gd_pending g ! k)" "(i, who) \<notin> set (gd_approvals g)"
    "b \<longleftrightarrow> GUARDIAN_THRESHOLD \<le> approval_count (with_approval g i who) i"
    "if b then \<exists>g2. dispatch k now ctx (with_approval g i who) = Inr g2 \<and> g' = emit (Action_approved i who (approval_count (with_approval g i who) i)) g2
     else g' = emit (Action_approved i who (approval_count (with_approval g i who) i)) (with_approval g i who)"
proof -
  from assms obtain k where "find_index (\<lambda>a. ca_id a = i) (gd_pending g) = Some k"
    by (auto simp: approve_action_def rbind_eq_Inr_iff split: option.splits)
  with find_index_SomeD [OF this] assms show thesis
    by (intro that [of k]) (auto simp: approve_action_def rbind_eq_Inr_iff ensure_member_def Let_def seated_def split: if_splits)
qed

lemma with_approval_ok:
  assumes "council_ok g" "who \<in> seated g" "i \<in> ca_id ` set (gd_pending g)" "(i, who) \<notin> set (gd_approvals g)"
  shows "council_ok (with_approval g i who)"
  using assms by (simp add: council_ok_def council_invs seated_def)

lemma approve_action_ok:
  assumes "council_ok g" "approve_action who i now ctx g = Inr (g', b)"
  shows "council_ok g'"
proof (rule approve_action_cases [OF assms(2)])
  fix k
  let ?g = "with_approval g i who"
  assume k: "who \<in> seated g" "k < length (gd_pending g)" "ca_id (gd_pending g ! k) = i"
    "\<not> ca_dispatched (gd_pending g ! k)" "(i, who) \<notin> set (gd_approvals g)"
    and b: "b \<longleftrightarrow> GUARDIAN_THRESHOLD \<le> approval_count ?g i"
    and r: "if b then \<exists>g2. dispatch k now ctx ?g = Inr g2 \<and> g' = emit (Action_approved i who (approval_count ?g i)) g2
     else g' = emit (Action_approved i who (approval_count ?g i)) ?g"
  have ok: "council_ok ?g" by (rule with_approval_ok [OF assms(1)]) (use k in \<open>force+\<close>)
  then have inv: "inv_seats ?g" "inv_caps ?g" "inv_approvals ?g" "inv_ids ?g" "inv_reviews ?g" "inv_allow ?g"
    by (simp_all add: council_ok_def)
  show ?thesis
  proof (cases b)
    case True
    then obtain g2 where g2: "dispatch k now ctx ?g = Inr g2" "g' = emit (Action_approved i who (approval_count ?g i)) g2"
      using r by auto
    have "5 \<le> length (approvals_of ?g i)"
      using b True approval_count_exact [OF inv(1,3), of i] by (simp add: GUARDIAN_THRESHOLD_def)
    then have "council_ok g2" using dispatch_ok [OF inv g2(1)] k by simp
    then show ?thesis by (simp add: g2(2))
  next
    case False
    then show ?thesis using r ok by simp
  qed
qed

lemma apply_call_ok:
  assumes "council_ok g" "seven c" "apply_call c g = Inr g'"
  shows "council_ok g'"
proof (cases c)
  case (Call_enforce epoch)
  then show ?thesis using assms fail_reviews_ok by (simp add: apply_call_def enforce_reviews_def)
qed (use assms in \<open>auto simp: apply_call_def seven_def rbind_eq_Inr_iff
    intro: set_epoch_ok set_members_ok recall_members_ok propose_action_ok approve_action_ok ratify_action_ok
      mark_review_failed_ok renew_playbook_ok expire_playbooks_ok reap_ok close_failed_review_ok\<close>)

lemma council_invariant: "council g \<Longrightarrow> council_ok g"
  by (induction rule: council.induct) (auto intro: guardian_new_ok apply_call_ok)

subsection \<open>The state check of the pallet\<close>

lemma check_approvals_ok:
  "check_approvals g ps = Inr () \<longleftrightarrow> (\<forall>(i, who) \<in> set ps. i \<in> ca_id ` set (gd_pending g) \<and> who \<in> seated g)"
  by (induction ps rule: check_approvals.induct) (auto simp: rbind_eq_Inr_iff ensure_member_def seated_def image_iff)

lemma council_ok_try_state: "council_ok g \<Longrightarrow> try_state g = Inr ()"
  using check_approvals_ok [of g "gd_approvals g"]
  by (simp add: council_ok_def try_state_def rbind_eq_Inr_iff validate_seats_def inv_seats_def inv_caps_def inv_approvals_def)

subsection \<open>Only five members dispatch\<close>

lemma fail_reviews_pending: "fail_reviews epoch slash ids g = Inr g' \<Longrightarrow> gd_pending g' = gd_pending g"
proof (induction ids arbitrary: g)
  case (Cons i ids)
  then obtain g1 where m: "mark_review_failed i epoch (replicate GUARDIAN_SEATS slash) g = Inr g1"
    and f: "fail_reviews epoch slash ids (emit (Review_failed i slash) g1) = Inr g'"
    by (auto simp: rbind_eq_Inr_iff)
  have "gd_pending g1 = gd_pending g"
    using m by (auto simp: mark_review_failed_def rbind_eq_Inr_iff Let_def split: option.splits)
  with Cons.IH [OF f] show ?case by simp
qed simp

text \<open>A call other than an approval keeps a dispatched action only if it was dispatched before.\<close>

lemma other_calls_keep:
  assumes "apply_call c g = Inr g'" "\<And>who i now ctx. c \<noteq> Call_approve who i now ctx"
    "a \<in> set (gd_pending g')" "ca_dispatched a"
  shows "a \<in> set (gd_pending g)"
proof (cases c)
  case (Call_enforce epoch)
  then show ?thesis using assms fail_reviews_pending by (auto simp: apply_call_def enforce_reviews_def)
qed (use assms in \<open>auto simp: apply_call_def set_epoch_def set_members_def recall_members_def propose_action_def ratify_action_def
      mark_review_failed_def renew_playbook_def expire_playbooks_def reap_terminal_with_veto_def close_failed_review_def
      rbind_eq_Inr_iff Let_def split: option.splits if_splits\<close>)

lemma approve_dispatches:
  assumes "council_ok g" "approve_action who i now ctx g = Inr (g', b)" "a \<in> set (gd_pending g')" "ca_dispatched a"
    "\<forall>x \<in> set (gd_pending g). ca_id x = ca_id a \<longrightarrow> \<not> ca_dispatched x"
  shows "b \<and> ca_id a = i \<and> 5 \<le> length (approvals_of g' i) \<and> distinct (approvals_of g' i) \<and>
    set (approvals_of g' i) \<subseteq> seated g \<and> who \<in> set (approvals_of g' i)"
proof (rule approve_action_cases [OF assms(2)])
  fix k
  let ?g = "with_approval g i who" and ?n = "approval_count (with_approval g i who) i"
  assume k: "who \<in> seated g" "k < length (gd_pending g)" "ca_id (gd_pending g ! k) = i"
    "\<not> ca_dispatched (gd_pending g ! k)" "(i, who) \<notin> set (gd_approvals g)"
    and b: "b \<longleftrightarrow> GUARDIAN_THRESHOLD \<le> ?n"
    and r: "if b then \<exists>g2. dispatch k now ctx ?g = Inr g2 \<and> g' = emit (Action_approved i who ?n) g2
     else g' = emit (Action_approved i who ?n) ?g"
  have ok: "council_ok ?g" by (rule with_approval_ok [OF assms(1)]) (use k in \<open>force+\<close>)
  then have inv: "inv_seats ?g" "inv_approvals ?g" by (simp_all add: council_ok_def)
  have "b"
  proof (rule ccontr)
    assume "\<not> b"
    then have "gd_pending g' = gd_pending g" using r by simp
    then show False using assms(3-5) by simp
  qed
  then obtain g2 where g2: "dispatch k now ctx ?g = Inr g2" "g' = emit (Action_approved i who ?n) g2" using r by auto
  have pend: "gd_pending g' = (gd_pending g)[k := (gd_pending g ! k) \<lparr> ca_dispatched := True \<rparr>]"
    and app: "gd_approvals g' = gd_approvals ?g"
    by (rule dispatch_shape [OF g2(1)]; simp add: g2(2))+
  have "a = (gd_pending g ! k) \<lparr> ca_dispatched := True \<rparr> \<or> a \<in> set (gd_pending g)"
    using assms(3) pend set_update_subset_insert [of "gd_pending g" k] by auto
  then have id: "ca_id a = i" using assms(4,5) k(3) by auto
  have same: "approvals_of g' i = approvals_of ?g i" using app by (simp add: approvals_of_def)
  have "5 \<le> length (approvals_of ?g i)"
    using b \<open>b\<close> approval_count_exact [OF inv, of i] by (simp add: GUARDIAN_THRESHOLD_def)
  moreover have "distinct (approvals_of ?g i)" "set (approvals_of ?g i) \<subseteq> seated g" "who \<in> set (approvals_of ?g i)"
    using approvals_of_facts [OF inv(2), of i] by (auto simp: seated_def)
  ultimately show ?thesis using \<open>b\<close> id by (simp add: same)
qed

lemma witness_members: "council_ok g \<Longrightarrow> who \<in> set (approvals_of g i) \<Longrightarrow> (i, who) \<in> set (gd_approvals g)"
  using approvals_of_facts(3) [of g i] by (simp add: council_ok_def)

definition sample_members :: "account list" where
  "sample_members = map (\<lambda>c. replicate 32 c) ''abcdefg''"

definition sample_ctx :: dispatch_context where
  "sample_ctx = \<lparr> dc_status = Status_queued, dc_in_rerun = False, dc_triggers = \<lparr> tf_depeg = False,
     tf_migration_halt = False, tf_oracle_deadlock = False, tf_gate_breach = True, tf_dead_man = False,
     tf_void_in_flight = False, tf_reserve_health = False, tf_ledger_drift = True \<rparr> \<rparr>"

fun run_calls :: "guardian_call list \<Rightarrow> guardian \<Rightarrow> (core_error, guardian) result" where
  "run_calls [] g = Inr g"
| "run_calls (c # cs) g = rbind (apply_call c g) (run_calls cs)"

definition sample_council :: "nat \<Rightarrow> guardian" where
  "sample_council n = (case rbind (guardian_new sample_members) (run_calls
      (Call_propose (sample_members ! 0) (Delay_of 9) ''why'' 100 #
       map (\<lambda>k. Call_approve (sample_members ! k) 0 101 sample_ctx) [1..<n])) of Inr g \<Rightarrow> g | Inl _ \<Rightarrow> undefined)"

lemma run_calls_council: "council g \<Longrightarrow> \<forall>c \<in> set cs. seven c \<Longrightarrow> run_calls cs g = Inr g' \<Longrightarrow> council g'"
  by (induction cs arbitrary: g) (auto simp: rbind_eq_Inr_iff intro: council.called)

text \<open>Action ids are handed out once: the counter never goes back.\<close>

lemma fail_reviews_next_id: "fail_reviews epoch slash ids g = Inr g' \<Longrightarrow> gd_next_id g' = gd_next_id g"
proof (induction ids arbitrary: g)
  case (Cons i ids)
  then obtain g1 where m: "mark_review_failed i epoch (replicate GUARDIAN_SEATS slash) g = Inr g1"
    and f: "fail_reviews epoch slash ids (emit (Review_failed i slash) g1) = Inr g'"
    by (auto simp: rbind_eq_Inr_iff)
  have "gd_next_id g1 = gd_next_id g"
    using m by (auto simp: mark_review_failed_def rbind_eq_Inr_iff Let_def split: option.splits)
  with Cons.IH [OF f] show ?case by simp
qed simp

lemma propose_action_id: "propose_action who pw j now g = Inr (g', i) \<Longrightarrow> i = gd_next_id g \<and> gd_next_id g' = i + 1"
  by (auto simp: propose_action_def rbind_eq_Inr_iff Let_def checked_add_def split: if_splits)

lemma approve_action_next_id:
  assumes "approve_action who i now ctx g = Inr (g', b)"
  shows "gd_next_id g' = gd_next_id g"
proof (rule approve_action_cases [OF assms])
  fix k
  let ?g = "with_approval g i who"
  assume "if b then \<exists>g2. dispatch k now ctx ?g = Inr g2 \<and> g' = emit (Action_approved i who (approval_count ?g i)) g2
     else g' = emit (Action_approved i who (approval_count ?g i)) ?g"
  moreover have "gd_next_id g2 = gd_next_id g" if "dispatch k now ctx ?g = Inr g2" for g2
    by (rule dispatch_shape [OF that]) simp
  ultimately show ?thesis by (auto split: if_splits)
qed

lemma apply_call_next_id:
  assumes "apply_call c g = Inr g'"
  shows "gd_next_id g \<le> gd_next_id g'"
proof (cases c)
  case (Call_enforce epoch)
  then show ?thesis using assms fail_reviews_next_id by (auto simp: apply_call_def enforce_reviews_def)
next
  case (Call_approve who i now ctx)
  then show ?thesis using assms approve_action_next_id by (auto simp: apply_call_def rbind_eq_Inr_iff)
next
  case (Call_propose who pw j now)
  then show ?thesis using assms propose_action_id by (fastforce simp: apply_call_def rbind_eq_Inr_iff)
qed (use assms in \<open>auto simp: apply_call_def set_epoch_def set_members_def recall_members_def ratify_action_def
      mark_review_failed_def renew_playbook_def expire_playbooks_def reap_terminal_with_veto_def close_failed_review_def
      rbind_eq_Inr_iff Let_def split: option.splits if_splits\<close>)

lemma run_calls_next_id: "run_calls cs g = Inr h \<Longrightarrow> gd_next_id g \<le> gd_next_id h"
proof (induction cs arbitrary: g)
  case (Cons c cs)
  then obtain g1 where g1: "apply_call c g = Inr g1" "run_calls cs g1 = Inr h" by (auto simp: rbind_eq_Inr_iff)
  show ?case using apply_call_next_id [OF g1(1)] Cons.IH [OF g1(2)] by linarith
qed simp

lemma ids_grow:
  assumes "propose_action who pw j now g = Inr (g1, i)" "run_calls cs g1 = Inr h" "propose_action who' pw' j' now' h = Inr (h', i')"
  shows "i < i'"
  using propose_action_id [OF assms(1)] run_calls_next_id [OF assms(2)] propose_action_id [OF assms(3)] by linarith

lemma sample_council_reachable: "council (sample_council 4)"
proof -
  let ?cs = "Call_propose (sample_members ! 0) (Delay_of 9) ''why'' 100 #
       map (\<lambda>k. Call_approve (sample_members ! k) 0 101 sample_ctx) [1..<4]"
  obtain g0 where g0: "guardian_new sample_members = Inr g0"
    unfolding guardian_new_def validate_members_def by (simp add: sample_members_def)
  have "length sample_members = GUARDIAN_SEATS" by (simp add: sample_members_def GUARDIAN_SEATS_def)
  then have c: "council g0" using g0 by (rule council.elected)
  have "returns (rbind (guardian_new sample_members) (run_calls ?cs))" by code_simp
  then obtain g where g: "run_calls ?cs g0 = Inr g" by (auto simp: g0 returns_iff)
  have "council g" by (rule run_calls_council [OF c _ g]) (auto simp: seven_def)
  moreover have "sample_council 4 = g" unfolding sample_council_def g0 rbind_simps g by simp
  ultimately show ?thesis by simp
qed

end
