(* ===== verification/Guardian.thy ===== *)
theory Guardian
  imports Guardian_Core Provenance
begin

text \<open>
  The guardian console, \<open>app/src/features/tx/src/guardian.ts\<close>: one value per action (power,
  arguments, allowance meter and evidence), every refusal of the propose and approve flows, the
  call derived from the evaluated reading, and the ratification tracker. Every refusal of the
  source is a constructor of \<open>guardian_block\<close>; their texts are not modelled. The
  playbook ids and powers are those of the scoped obligations in \<open>Tx_Rows\<close>; the
  trigger variants have the chain's names and share the chain's type.
\<close>

subsection \<open>Readings\<close>

datatype trigger_subject =
    On_depeg | On_migration | On_deadlock int | On_gate | On_dead_man | On_void_in_flight | On_reserve | On_drift

fun subject_trigger :: "trigger_subject \<Rightarrow> playbook_trigger" where
  "subject_trigger On_depeg = Depeg_median"
| "subject_trigger On_migration = Migration_halt"
| "subject_trigger (On_deadlock cohort) = Oracle_deadlock"
| "subject_trigger On_gate = Gate_breach"
| "subject_trigger On_dead_man = Dead_man"
| "subject_trigger On_void_in_flight = Void_in_flight"
| "subject_trigger On_reserve = Reserve_health"
| "subject_trigger On_drift = Ledger_drift"

datatype trigger_state =
    Active_trigger (reading_subject: trigger_subject) "int verified"
  | Inactive_trigger (reading_subject: trigger_subject)
  | Unread_trigger (reading_subject: trigger_subject) string
  | Unavailable_trigger (reading_subject: trigger_subject)

definition triggerOf :: "trigger_state \<Rightarrow> playbook_trigger" where
  "triggerOf reading = subject_trigger (reading_subject reading)"

datatype approved_call = Decoded_call "string verified" "string verified" "string verified list" | Undecodable_call string string

datatype pending_power =
    Pending_pause "int verified"
  | Pending_delay "int verified"
  | Pending_rerun "int verified"
  | Pending_activate "playbook_id verified" "playbook_trigger verified" "int verified" "int verified option"
  | Pending_suspend
  | Pending_undecodable string string

fun pendingPowerName :: "pending_power \<Rightarrow> guardian_power option" where
  "pendingPowerName (Pending_pause _) = Some Pause_intake"
| "pendingPowerName (Pending_delay _) = Some Delay_once"
| "pendingPowerName (Pending_rerun _) = Some Force_rerun"
| "pendingPowerName (Pending_activate _ _ _ _) = Some Activate_playbook"
| "pendingPowerName Pending_suspend = Some Suspend_on_gate"
| "pendingPowerName (Pending_undecodable _ _) = None"

definition obligationSubjectOf :: "pending_power \<Rightarrow> obligation_scope option" where
  "obligationSubjectOf pw =
     (case pw of
        Pending_activate i _ _ _ \<Rightarrow> Some \<lparr> os_power = Activate_playbook, os_playbook = Some (vf_value i) \<rparr>
      | _ \<Rightarrow> map_option (\<lambda>name. \<lparr> os_power = name, os_playbook = None \<rparr>) (pendingPowerName pw))"

record pending_action =
  pa_actionId :: "string verified"
  pa_power :: pending_power
  pa_justificationHash :: "string verified"
  pa_approvals :: "int verified"
  pa_threshold :: "int verified"
  pa_expiresAt :: "int verified"
  pa_dispatched :: "bool verified"
  pa_calls :: "approved_call list"

datatype condition_evidence = Trigger_evidence trigger_state | No_condition

record hold_horizon =
  hh_now :: "int verified"
  hh_maxBlocks :: "int verified"

datatype proposal_state_name =
    Submitted | Screening | Qualified | Trading | Extended | Queued | Suspended | Rerun | Rejected | Executed
  | FailedExecuted | Measuring | Settled | Cancelled | Expired

text \<open>Proposal ids are \<open>u64\<close>; the client holds them as decimal text, the model as integers.\<close>

datatype rerun_state =
    Rerun_read (rerunPid: int) "proposal_state_name verified" "bool verified" "bool verified"
  | Rerun_absent (rerunPid: int)
  | Rerun_unread (rerunPid: int) string

datatype dispatch_evidence = Hold_evidence hold_horizon | Rerun_evidence rerun_state | No_dispatch_evidence

datatype registration_reading =
    Registration_read (reg_id: playbook_id) "bool verified"
  | Registration_unread (reg_id: playbook_id) string

datatype active_reading = Active_read "playbook_id list verified" | Active_unread string

datatype playbook_admissibility = Activation registration_reading active_reading | No_playbook

subsection \<open>Allowance meters\<close>

datatype metered_power = Metered_pause | Metered_delay | Metered_rerun

fun isMetered :: "guardian_power \<Rightarrow> metered_power option" where
  "isMetered Pause_intake = Some Metered_pause"
| "isMetered Delay_once = Some Metered_delay"
| "isMetered Force_rerun = Some Metered_rerun"
| "isMetered Activate_playbook = None"
| "isMetered Suspend_on_gate = None"

record allowance_reading =
  al_used :: "int verified"
  al_limit :: "int verified"

record allowance_book =
  ab_pause :: allowance_reading
  ab_delay :: allowance_reading
  ab_rerun :: allowance_reading

record allowance_meter =
  mt_power :: metered_power
  mt_used :: "int verified"
  mt_limit :: "int verified"

fun ALLOWANCE_READS :: "metered_power \<Rightarrow> string list" where
  "ALLOWANCE_READS Metered_delay =
     [''storage.guardian.allowances'', ''constant.guardian.delay_once_allowance_per_epoch'']"
| "ALLOWANCE_READS Metered_rerun =
     [''storage.guardian.allowances'', ''constant.guardian.force_rerun_allowance_per_epoch'']"
| "ALLOWANCE_READS Metered_pause =
     [''storage.guardian.allowances'', ''constant.guardian.pause_intake_allowance'',
      ''constant.guardian.pause_intake_allowance_window_epochs'', ''storage.epoch.epoch_of'']"

record allowance_reads =
  ar_delayUsed :: "int verified"
  ar_forceRerunUsed :: "int verified"
  ar_pauseWindowStart :: "int verified"
  ar_pauseUsedInWindow :: "int verified"
  ar_currentEpoch :: "int verified"
  ar_delayLimit :: "int verified"
  ar_forceRerunLimit :: "int verified"
  ar_pauseLimit :: "int verified"
  ar_pauseWindowEpochs :: "int verified"

datatype allowance_input = Allowance_read allowance_reads | Allowance_unread string

datatype unreadable_book = Surfaces_unread "string list" | Window_incomparable incomparable

datatype allowance_book_state = Book allowance_book | Book_unreadable unreadable_book

definition allowanceBook :: "allowance_input \<Rightarrow> allowance_book_state" where
  "allowanceBook reads =
     (case reads of
        Allowance_unread _ \<Rightarrow> Book_unreadable (Surfaces_unread (sort (remdups
          (concat (map ALLOWANCE_READS [Metered_delay, Metered_rerun, Metered_pause])))))
      | Allowance_read r \<Rightarrow>
          (case combine (if max 0 (vf_value (ar_currentEpoch r) - vf_value (ar_pauseWindowStart r)) \<ge> vf_value (ar_pauseWindowEpochs r)
                         then 0 else vf_value (ar_pauseUsedInWindow r))
                [vf_status (ar_pauseUsedInWindow r), vf_status (ar_pauseWindowStart r), vf_status (ar_currentEpoch r),
                 vf_status (ar_pauseWindowEpochs r)] of
             Incomparable e \<Rightarrow> Book_unreadable (Window_incomparable e)
           | Stated windowed \<Rightarrow> Book
               \<lparr> ab_pause = \<lparr> al_used = windowed, al_limit = ar_pauseLimit r \<rparr>,
                 ab_delay = \<lparr> al_used = ar_delayUsed r, al_limit = ar_delayLimit r \<rparr>,
                 ab_rerun = \<lparr> al_used = ar_forceRerunUsed r, al_limit = ar_forceRerunLimit r \<rparr> \<rparr>))"

fun book_row :: "allowance_book \<Rightarrow> metered_power \<Rightarrow> allowance_reading" where
  "book_row b Metered_pause = ab_pause b"
| "book_row b Metered_delay = ab_delay b"
| "book_row b Metered_rerun = ab_rerun b"

definition meterFor :: "allowance_book \<Rightarrow> metered_power \<Rightarrow> allowance_meter" where
  "meterFor b pw = \<lparr> mt_power = pw, mt_used = al_used (book_row b pw), mt_limit = al_limit (book_row b pw) \<rparr>"

definition allowanceRemaining :: "allowance_meter \<Rightarrow> int combined" where
  "allowanceRemaining meter = combine2 (mt_limit meter) (mt_used meter) (\<lambda>limit used. max 0 (limit - used))"

subsection \<open>Refusals\<close>

datatype trigger_refusal =
    Depeg_unavailable
  | Migration_no_action
  | Trigger_not_active
  | Trigger_unreadable
  | Trigger_misreported playbook_trigger

datatype subject_mismatch =
    Other_trigger playbook_trigger playbook_trigger
  | Unnamed_cohort
  | Other_cohort int int

datatype guardian_block =
    Membership
  | Already_executed
  | Expiry_unestablished incomparable
  | Expired_at_pin
  | Expired_action
  | Empty_batch
  | Undecodable_calls nat nat
  | Undecodable_power
  | Playbook_evidence_unexpected guardian_power
  | Playbook_evidence_missing
  | Registration_of_other playbook_id playbook_id
  | Registration_unreadable playbook_id
  | Not_registered playbook_id
  | Active_unreadable playbook_id
  | Already_active playbook_id
  | Wrong_trigger playbook_id playbook_trigger
  | Unexpected_target playbook_id
  | Condition_unexpected guardian_power
  | Condition_missing playbook_trigger
  | Condition_of_other subject_mismatch
  | Condition_refused trigger_refusal
  | Gate_refused trigger_refusal
  | Wrong_dispatch_evidence guardian_power
  | Allowance_unestablished metered_power incomparable
  | Allowance_spent metered_power
  | Hold_unestablished incomparable
  | Hold_ended int
  | Hold_too_long int
  | Proposal_of_other int int
  | Proposal_unreadable int
  | Proposal_missing int
  | Proposal_state int proposal_state_name
  | Rerun_spent int
  | Already_approved
  | No_justification

fun TRIGGER_READS :: "playbook_trigger \<Rightarrow> string list" where
  "TRIGGER_READS Depeg_median = []"
| "TRIGGER_READS Migration_halt = [''storage.execution_guard.migration_halt'']"
| "TRIGGER_READS Oracle_deadlock = [''storage.epoch.pending_oracle_voids'']"
| "TRIGGER_READS Gate_breach = [''storage.welfare.gate_breach_flags'', ''storage.epoch.epoch_of'']"
| "TRIGGER_READS Dead_man = [''storage.constitution.phase_flags'']"
| "TRIGGER_READS Void_in_flight = [''storage.epoch.pending_oracle_voids'']"
| "TRIGGER_READS Reserve_health = [''storage.constitution.phase_flags'']"
| "TRIGGER_READS Ledger_drift = [''storage.ledger.ledger_drifted'']"

fun PLAYBOOK_TRIGGERS :: "playbook_id \<Rightarrow> playbook_trigger list" where
  "PLAYBOOK_TRIGGERS Pb_depeg = [Depeg_median]"
| "PLAYBOOK_TRIGGERS Pb_migration = [Migration_halt]"
| "PLAYBOOK_TRIGGERS Pb_oracle_void = [Oracle_deadlock]"
| "PLAYBOOK_TRIGGERS Pb_halt_intake = [Gate_breach, Dead_man, Void_in_flight]"
| "PLAYBOOK_TRIGGERS Pb_reserve = [Reserve_health]"
| "PLAYBOOK_TRIGGERS Pb_ledger_freeze = [Ledger_drift]"

definition triggerRefusal :: "trigger_state \<Rightarrow> trigger_refusal option" where
  "triggerRefusal trigger =
     (let named = triggerOf trigger; reads = TRIGGER_READS named in
      if reads = [] then Some Depeg_unavailable
      else if named = Migration_halt then Some Migration_no_action
      else (case trigger of
          Active_trigger _ _ \<Rightarrow> None
        | Inactive_trigger _ \<Rightarrow> Some Trigger_not_active
        | Unread_trigger _ _ \<Rightarrow> Some Trigger_unreadable
        | Unavailable_trigger _ \<Rightarrow> Some (Trigger_misreported named)))"

definition mayActivatePlaybook :: "trigger_state \<Rightarrow> bool" where
  "mayActivatePlaybook trigger = (triggerRefusal trigger = None)"

definition playbookAdvisory :: "playbook_id \<Rightarrow> trigger_refusal option" where
  "playbookAdvisory i = (if i = Pb_migration then Some Migration_no_action
     else if i = Pb_depeg then Some Depeg_unavailable else None)"

definition allowanceBlocks :: "allowance_meter \<Rightarrow> guardian_block list" where
  "allowanceBlocks meter =
     (case allowanceRemaining meter of
        Incomparable e \<Rightarrow> [Allowance_unestablished (mt_power meter) e]
      | Stated remaining \<Rightarrow> if vf_value remaining \<le> 0 then [Allowance_spent (mt_power meter)] else [])"

definition horizonBlocks :: "int \<Rightarrow> hold_horizon \<Rightarrow> guardian_block list" where
  "horizonBlocks block horizon =
     (case combine2 (hh_now horizon) (hh_maxBlocks horizon) (\<lambda>now longest. now + longest) of
        Incomparable e \<Rightarrow> [Hold_unestablished e]
      | Stated upper \<Rightarrow>
          if block \<le> vf_value (hh_now horizon) then [Hold_ended (vf_value (hh_now horizon) - block)]
          else if block > vf_value upper then [Hold_too_long (vf_value upper)]
          else [])"

fun GUARDIAN_STATUS :: "proposal_state_name \<Rightarrow> proposal_status" where
  "GUARDIAN_STATUS Trading = Status_trading"
| "GUARDIAN_STATUS Extended = Status_extended"
| "GUARDIAN_STATUS Queued = Status_queued"
| "GUARDIAN_STATUS Executed = Status_executed"
| "GUARDIAN_STATUS Measuring = Status_executed"
| "GUARDIAN_STATUS Settled = Status_executed"
| "GUARDIAN_STATUS Rerun = Status_rerun"
| "GUARDIAN_STATUS Submitted = Status_other"
| "GUARDIAN_STATUS Screening = Status_other"
| "GUARDIAN_STATUS Qualified = Status_other"
| "GUARDIAN_STATUS Suspended = Status_other"
| "GUARDIAN_STATUS Rejected = Status_other"
| "GUARDIAN_STATUS FailedExecuted = Status_other"
| "GUARDIAN_STATUS Cancelled = Status_other"
| "GUARDIAN_STATUS Expired = Status_other"

definition guardianStatus :: "proposal_state_name \<Rightarrow> proposal_status" where
  "guardianStatus s = GUARDIAN_STATUS s"

definition client_rerunnable :: "proposal_status \<Rightarrow> bool" where
  "client_rerunnable s = (s = Status_trading \<or> s = Status_extended \<or> s = Status_queued)"

definition inRerun :: "proposal_state_name \<Rightarrow> bool \<Rightarrow> bool \<Rightarrow> bool" where
  "inRerun s rerun delayedOnce = (rerun \<or> delayedOnce \<or> s = Suspended \<or> s = Rerun)"

datatype rerun_power = R_delay | R_force

definition rerunBlocks :: "rerun_power \<Rightarrow> int \<Rightarrow> rerun_state \<Rightarrow> guardian_block list" where
  "rerunBlocks pw pid state =
     (if rerunPid state \<noteq> pid then [Proposal_of_other pid (rerunPid state)]
      else (case state of
          Rerun_unread _ _ \<Rightarrow> [Proposal_unreadable pid]
        | Rerun_absent _ \<Rightarrow> [Proposal_missing pid]
        | Rerun_read _ s rerun delayedOnce \<Rightarrow>
            (let status = guardianStatus (vf_value s);
                 admissible = (if pw = R_delay then status = Status_queued else client_rerunnable status)
             in (if admissible then [] else [Proposal_state pid (vf_value s)]) @
                (if inRerun (vf_value s) (vf_value rerun) (vf_value delayedOnce) then [Rerun_spent pid] else []))))"

definition registrationBlocks :: "playbook_id \<Rightarrow> registration_reading \<Rightarrow> guardian_block list" where
  "registrationBlocks i reading =
     (if reg_id reading \<noteq> i then [Registration_of_other i (reg_id reading)]
      else (case reading of
          Registration_unread _ _ \<Rightarrow> [Registration_unreadable i]
        | Registration_read _ registered \<Rightarrow> if vf_value registered then [] else [Not_registered i]))"

definition activeRecordBlocks :: "playbook_id \<Rightarrow> active_reading \<Rightarrow> guardian_block list" where
  "activeRecordBlocks i reading =
     (if i \<noteq> Pb_ledger_freeze then []
      else (case reading of
          Active_unread _ \<Rightarrow> [Active_unreadable i]
        | Active_read ids \<Rightarrow> if i \<in> set (vf_value ids) then [Already_active i] else []))"

subsection \<open>The approve flow\<close>

definition playbookBlocks :: "pending_power \<Rightarrow> playbook_admissibility \<Rightarrow> guardian_block list" where
  "playbookBlocks pw playbooks =
     (case pw of
        Pending_activate i trigger expiry target \<Rightarrow>
          (case playbooks of
             No_playbook \<Rightarrow> [Playbook_evidence_missing]
           | Activation registration active \<Rightarrow>
               registrationBlocks (vf_value i) registration @ activeRecordBlocks (vf_value i) active @
               (if vf_value trigger \<in> set (PLAYBOOK_TRIGGERS (vf_value i)) then []
                else [Wrong_trigger (vf_value i) (vf_value trigger)]) @
               (if vf_value i \<noteq> Pb_oracle_void \<and> target \<noteq> None then [Unexpected_target (vf_value i)] else []))
      | _ \<Rightarrow> (case playbooks of
                No_playbook \<Rightarrow> []
              | Activation _ _ \<Rightarrow> (case pendingPowerName pw of Some name \<Rightarrow> [Playbook_evidence_unexpected name] | None \<Rightarrow> [])))"

definition UNNAMED_COHORT :: int where
  "UNNAMED_COHORT = -1"

text \<open>The subject of a chain-wide trigger; the deadlock is the one that names a cohort.\<close>

fun chain_wide :: "playbook_trigger \<Rightarrow> int \<Rightarrow> trigger_subject" where
  "chain_wide Depeg_median c = On_depeg"
| "chain_wide Migration_halt c = On_migration"
| "chain_wide Oracle_deadlock c = On_deadlock c"
| "chain_wide Gate_breach c = On_gate"
| "chain_wide Dead_man c = On_dead_man"
| "chain_wide Void_in_flight c = On_void_in_flight"
| "chain_wide Reserve_health c = On_reserve"
| "chain_wide Ledger_drift c = On_drift"

definition requiredCondition :: "pending_power \<Rightarrow> trigger_subject option" where
  "requiredCondition pw =
     (case pw of
        Pending_activate i trigger expiry target \<Rightarrow>
          Some (chain_wide (vf_value trigger) (case target of Some t \<Rightarrow> vf_value t | None \<Rightarrow> UNNAMED_COHORT))
      | Pending_suspend \<Rightarrow> Some On_gate
      | _ \<Rightarrow> None)"

definition subjectMismatch :: "trigger_subject \<Rightarrow> trigger_subject \<Rightarrow> subject_mismatch option" where
  "subjectMismatch required supplied =
     (if subject_trigger required \<noteq> subject_trigger supplied
      then Some (Other_trigger (subject_trigger required) (subject_trigger supplied))
      else (case (required, supplied) of
          (On_deadlock r, On_deadlock s) \<Rightarrow>
            if r = UNNAMED_COHORT then Some Unnamed_cohort
            else if r \<noteq> s then Some (Other_cohort r s)
            else None
        | _ \<Rightarrow> None))"

definition triggerConditionBlocks :: "pending_power \<Rightarrow> condition_evidence \<Rightarrow> guardian_block list" where
  "triggerConditionBlocks pw evidence =
     (case requiredCondition pw of
        None \<Rightarrow> (case evidence of
            No_condition \<Rightarrow> []
          | Trigger_evidence _ \<Rightarrow> (case pendingPowerName pw of Some name \<Rightarrow> [Condition_unexpected name] | None \<Rightarrow> []))
      | Some required \<Rightarrow>
          (case evidence of
             No_condition \<Rightarrow> [Condition_missing (subject_trigger required)]
           | Trigger_evidence reading \<Rightarrow>
               (case subjectMismatch required (reading_subject reading) of
                  Some m \<Rightarrow> [Condition_of_other m]
                | None \<Rightarrow> (case triggerRefusal reading of Some r \<Rightarrow> [Condition_refused r] | None \<Rightarrow> []))))"

definition conditionBlocks :: "pending_power \<Rightarrow> condition_evidence \<Rightarrow> playbook_admissibility \<Rightarrow> guardian_block list" where
  "conditionBlocks pw evidence playbooks =
     (case pw of
        Pending_undecodable _ _ \<Rightarrow> [Undecodable_power]
      | _ \<Rightarrow> playbookBlocks pw playbooks @ triggerConditionBlocks pw evidence)"

record approval_context =
  ac_action :: pending_action
  ac_callerIsMember :: bool
  ac_callerHasApproved :: bool
  ac_now :: "int verified"
  ac_allowances :: allowance_book
  ac_condition :: condition_evidence
  ac_dispatch :: dispatch_evidence
  ac_playbooks :: playbook_admissibility

definition meteredBlocks :: "allowance_book \<Rightarrow> guardian_power \<Rightarrow> guardian_block list" where
  "meteredBlocks allowances name =
     (case isMetered name of Some m \<Rightarrow> allowanceBlocks (meterFor allowances m) | None \<Rightarrow> [])"

definition dispatchBlocks :: "approval_context \<Rightarrow> guardian_block list" where
  "dispatchBlocks context =
     (let evidence = ac_dispatch context; allowances = ac_allowances context in
      case pa_power (ac_action context) of
        Pending_undecodable _ _ \<Rightarrow> []
      | Pending_pause until \<Rightarrow> meteredBlocks allowances Pause_intake @
          (case evidence of Hold_evidence horizon \<Rightarrow> horizonBlocks (vf_value until) horizon
             | _ \<Rightarrow> [Wrong_dispatch_evidence Pause_intake])
      | Pending_activate _ _ expiry _ \<Rightarrow> meteredBlocks allowances Activate_playbook @
          (case evidence of Hold_evidence horizon \<Rightarrow> horizonBlocks (vf_value expiry) horizon
             | _ \<Rightarrow> [Wrong_dispatch_evidence Activate_playbook])
      | Pending_delay pid \<Rightarrow> meteredBlocks allowances Delay_once @
          (case evidence of Rerun_evidence proposal \<Rightarrow> rerunBlocks R_delay (vf_value pid) proposal
             | _ \<Rightarrow> [Wrong_dispatch_evidence Delay_once])
      | Pending_rerun pid \<Rightarrow> meteredBlocks allowances Force_rerun @
          (case evidence of Rerun_evidence proposal \<Rightarrow> rerunBlocks R_force (vf_value pid) proposal
             | _ \<Rightarrow> [Wrong_dispatch_evidence Force_rerun])
      | Pending_suspend \<Rightarrow> meteredBlocks allowances Suspend_on_gate @
          (case evidence of No_dispatch_evidence \<Rightarrow> [] | _ \<Rightarrow> [Wrong_dispatch_evidence Suspend_on_gate]))"

definition is_undecodable :: "approved_call \<Rightarrow> bool" where
  "is_undecodable c = (case c of Undecodable_call _ _ \<Rightarrow> True | _ \<Rightarrow> False)"

definition expiryBlocks :: "int verified \<Rightarrow> int verified \<Rightarrow> guardian_block list" where
  "expiryBlocks now expiresAt =
     (case combine2 now expiresAt (\<lambda>n e. n - e) of
        Incomparable e \<Rightarrow> [Expiry_unestablished e]
      | Stated sinceExpiry \<Rightarrow>
          if vf_value sinceExpiry \<ge> 0 then [if vf_value sinceExpiry = 0 then Expired_at_pin else Expired_action] else [])"

definition approvalBlocks :: "approval_context \<Rightarrow> guardian_block list" where
  "approvalBlocks context =
     (let action = ac_action context; undecodable = length (filter is_undecodable (pa_calls action)) in
      (if \<not> ac_callerIsMember context then [Membership] else []) @
      (if vf_value (pa_dispatched action) then [Already_executed] else []) @
      expiryBlocks (ac_now context) (pa_expiresAt action) @
      (if pa_calls action = [] then [Empty_batch] else []) @
      (if undecodable > 0 then [Undecodable_calls undecodable (length (pa_calls action))] else []) @
      conditionBlocks (pa_power action) (ac_condition context) (ac_playbooks context) @
      dispatchBlocks context @
      (if ac_callerHasApproved context then [Already_approved] else []))"

subsection \<open>The propose flow\<close>

datatype guardian_proposal =
    Propose_pause allowance_meter int hold_horizon
  | Propose_delay allowance_meter rerun_state
  | Propose_rerun allowance_meter rerun_state
  | Propose_activate trigger_state int hold_horizon registration_reading active_reading
  | Propose_suspend trigger_state

datatype power_arguments =
    Args_pause int
  | Args_delay int
  | Args_rerun int
  | Args_activate playbook_id playbook_trigger int "int option"
  | Args_suspend

definition activationPlaybook :: "registration_reading \<Rightarrow> playbook_id" where
  "activationPlaybook registration = reg_id registration"

definition guardianCall :: "guardian_proposal \<Rightarrow> power_arguments" where
  "guardianCall proposal =
     (case proposal of
        Propose_pause _ until _ \<Rightarrow> Args_pause until
      | Propose_delay _ state \<Rightarrow> Args_delay (rerunPid state)
      | Propose_rerun _ state \<Rightarrow> Args_rerun (rerunPid state)
      | Propose_activate trigger expiry _ registration _ \<Rightarrow>
          Args_activate (reg_id registration) (subject_trigger (reading_subject trigger)) expiry
            (case reading_subject trigger of On_deadlock cohort \<Rightarrow> Some cohort | _ \<Rightarrow> None)
      | Propose_suspend _ \<Rightarrow> Args_suspend)"

fun POWER_FIELDS :: "guardian_power \<Rightarrow> string list" where
  "POWER_FIELDS Pause_intake = [''until (block)'']"
| "POWER_FIELDS Delay_once = [''proposal id'']"
| "POWER_FIELDS Force_rerun = [''proposal id'']"
| "POWER_FIELDS Activate_playbook =
     [''playbook id'', ''trigger'', ''expiry (block)'', ''cohort target (PB-ORACLE-VOID only)'']"
| "POWER_FIELDS Suspend_on_gate = []"

definition proposalBlocks :: "guardian_proposal \<Rightarrow> string option \<Rightarrow> guardian_block list" where
  "proposalBlocks proposal justificationHash =
     (if justificationHash = None \<or> justificationHash = Some '''' then [No_justification] else []) @
     (case proposal of
        Propose_pause meter until horizon \<Rightarrow> allowanceBlocks meter @ horizonBlocks until horizon
      | Propose_delay meter state \<Rightarrow> allowanceBlocks meter @ rerunBlocks R_delay (rerunPid state) state
      | Propose_rerun meter state \<Rightarrow> allowanceBlocks meter @ rerunBlocks R_force (rerunPid state) state
      | Propose_activate trigger expiry horizon registration active \<Rightarrow>
          (let i = activationPlaybook registration; named = triggerOf trigger in
           (case triggerRefusal trigger of Some r \<Rightarrow> [Condition_refused r] | None \<Rightarrow> []) @
           registrationBlocks i registration @ activeRecordBlocks i active @
           (if named \<in> set (PLAYBOOK_TRIGGERS i) then [] else [Wrong_trigger i named]) @
           horizonBlocks expiry horizon)
      | Propose_suspend gate \<Rightarrow> (case triggerRefusal gate of Some r \<Rightarrow> [Gate_refused r] | None \<Rightarrow> []))"

subsection \<open>The ratification tracker\<close>

datatype ratification_variant = ReviewScheduled | ActionRatified | ReviewFailed | RecallScheduled

record ratification_event =
  re_variant :: ratification_variant
  re_actionId :: string
  re_referendum :: "int option"
  re_slashedEach :: "int option"

datatype review_referendum = Ongoing "int verified" "int verified" | Concluded | Review_unread string

datatype action_ratification =
    Unobserved
  | Review_pending int review_referendum
  | Ratified
  | Failed "int option" "int option"
  | Contradictory

definition ratificationFor :: "string \<Rightarrow> ratification_event list \<Rightarrow> review_referendum \<Rightarrow> action_ratification" where
  "ratificationFor actionId events review =
     (let mine = filter (\<lambda>e. re_actionId e = actionId) events;
          ratified = (\<exists>e \<in> set mine. re_variant e = ActionRatified);
          failed = find (\<lambda>e. re_variant e = ReviewFailed) mine
      in if ratified \<and> failed \<noteq> None then Contradictory
         else if ratified then Ratified
         else (case failed of
             Some f \<Rightarrow> Failed (re_slashedEach f)
               (case find (\<lambda>e. re_variant e = RecallScheduled) mine of Some e \<Rightarrow> re_referendum e | None \<Rightarrow> None)
           | None \<Rightarrow>
               (case find (\<lambda>e. re_variant e = ReviewScheduled) mine of
                  None \<Rightarrow> Unobserved
                | Some e \<Rightarrow> (case re_referendum e of None \<Rightarrow> Unobserved | Some r \<Rightarrow> Review_pending r review))))"

end
