(* ===== verification/Guardian_Mirror.thy ===== *)
theory Guardian_Mirror
  imports Guardian
begin

text \<open>
  The console against the chain. The chain side is the part of the pallet's \<open>approve_action\<close>
  (\<open>pallets/guardian/src/lib.rs\<close>) that decides on the approval: from the caller's account to the
  playbook registration, over the council of \<open>Guardian_Core\<close> and with the dispatch context the
  runtime builds (\<open>configs.rs\<close>). What follows in that call is outside the model and can still refuse
  it: the effect dispatcher, the storage bounds of \<open>persist\<close>, and the review fronting of
  \<open>drain_events\<close>, which moves the approvers' bonds.
\<close>

subsection \<open>The pallet's call\<close>

record proposal_record =
  pr_state :: proposal_state_name
  pr_rerun :: bool
  pr_delayed_once :: bool

record chain_view =
  vw_council :: guardian
  vw_epoch :: int
  vw_flags :: trigger_flags
  vw_deadlock :: "int \<Rightarrow> bool"
  vw_proposal :: "int \<Rightarrow> proposal_record option"
  vw_registered :: "playbook_id \<Rightarrow> bool"

definition runtime_status :: "chain_view \<Rightarrow> int \<Rightarrow> proposal_status \<times> bool" where
  "runtime_status v pid =
     (case vw_proposal v pid of
        None \<Rightarrow> (Status_other, False)
      | Some p \<Rightarrow>
          ((case pr_state p of
              Trading \<Rightarrow> Status_trading | Extended \<Rightarrow> Status_extended | Queued \<Rightarrow> Status_queued
            | Executed \<Rightarrow> Status_executed | Measuring \<Rightarrow> Status_executed | Settled \<Rightarrow> Status_executed
            | Rerun \<Rightarrow> Status_rerun | _ \<Rightarrow> Status_other),
           pr_rerun p \<or> pr_delayed_once p \<or> pr_state p = Suspended \<or> pr_state p = Rerun))"

definition dispatch_context_for :: "chain_view \<Rightarrow> guardian \<Rightarrow> int \<Rightarrow> dispatch_context" where
  "dispatch_context_for v g i =
     (let pending = find (\<lambda>a. ca_id a = i) (gd_pending g);
          triggers = (case pending of
            Some a \<Rightarrow> (case ca_power a of
                Activate Pb_oracle_void _ _ (Some epoch) \<Rightarrow> vw_flags v \<lparr> tf_oracle_deadlock := vw_deadlock v epoch \<rparr>
              | _ \<Rightarrow> vw_flags v)
          | None \<Rightarrow> vw_flags v);
          (status, in_rerun) = (case pending of
            Some a \<Rightarrow> (case ca_power a of Delay_of pid \<Rightarrow> runtime_status v pid | Rerun_of pid \<Rightarrow> runtime_status v pid
                        | _ \<Rightarrow> (Status_other, False))
          | None \<Rightarrow> (Status_other, False))
      in \<lparr> dc_status = status, dc_in_rerun = in_rerun, dc_triggers = triggers \<rparr>)"

datatype pallet_error = Core core_error | Playbook_not_registered

text \<open>
  The call up to the effect dispatcher: what it answers is the council after the approval and, for
  the approval that completes the action, the action handed to the dispatcher. Accounts are the
  32 bytes of the core (\<open>to_core_authorized\<close> is the identity on the runtime's \<open>AccountId32\<close>), and
  the view is of an elected council (\<open>load\<close>).
\<close>

definition pallet_approve_checks ::
    "chain_view \<Rightarrow> account \<Rightarrow> int \<Rightarrow> int \<Rightarrow> (pallet_error, guardian \<times> core_action option) result" where
  "pallet_approve_checks v who i now =
     (let g = set_epoch (vw_epoch v) (vw_council v); ctx = dispatch_context_for v g i in
      (case approve_action who i now ctx g of
         Inl e \<Rightarrow> Inl (Core e)
       | Inr (g', dispatched) \<Rightarrow>
           if dispatched then
             (case find (\<lambda>a. ca_id a = i) (gd_pending g') of
                None \<Rightarrow> Inl (Core Action_not_found)
              | Some action \<Rightarrow>
                  rbind (case ca_power action of Activate p _ _ _ \<Rightarrow> ensure (vw_registered v p) Playbook_not_registered | _ \<Rightarrow> Inr ())
                    (\<lambda>_. Inr (g', Some action)))
           else Inr (g', None)))"

subsection \<open>Truthful readings\<close>

text \<open>The decoded power is the stored one.\<close>

fun decodes :: "pending_power \<Rightarrow> chain_power \<Rightarrow> bool" where
  "decodes (Pending_pause u) (Pause_until until) = (vf_value u = until)"
| "decodes (Pending_delay p) (Delay_of pid) = (vf_value p = pid)"
| "decodes (Pending_rerun p) (Rerun_of pid) = (vf_value p = pid)"
| "decodes (Pending_activate i t e c) (Activate pb trigger expiry target) =
     (vf_value i = pb \<and> vf_value t = trigger \<and> vf_value e = expiry \<and> map_option vf_value c = target)"
| "decodes Pending_suspend Suspend = True"
| "decodes (Pending_undecodable _ _) _ = True"
| "decodes _ _ = False"

definition subject_holds :: "chain_view \<Rightarrow> trigger_subject \<Rightarrow> bool" where
  "subject_holds v s = (case s of On_deadlock c \<Rightarrow> vw_deadlock v c | _ \<Rightarrow> is_active (vw_flags v) (subject_trigger s))"

definition true_trigger :: "chain_view \<Rightarrow> trigger_state \<Rightarrow> bool" where
  "true_trigger v r = (case r of Active_trigger s _ \<Rightarrow> subject_holds v s | Inactive_trigger s \<Rightarrow> \<not> subject_holds v s | _ \<Rightarrow> True)"

definition true_rerun :: "chain_view \<Rightarrow> rerun_state \<Rightarrow> bool" where
  "true_rerun v r = (case r of
       Rerun_read pid s rerun delayed \<Rightarrow> vw_proposal v pid = Some \<lparr> pr_state = vf_value s, pr_rerun = vf_value rerun,
         pr_delayed_once = vf_value delayed \<rparr>
     | Rerun_absent pid \<Rightarrow> vw_proposal v pid = None
     | Rerun_unread _ _ \<Rightarrow> True)"

definition true_hold :: "int \<Rightarrow> hold_horizon \<Rightarrow> bool" where
  "true_hold pin h = (vf_value (hh_now h) = pin \<and> vf_value (hh_maxBlocks h) = HOLD_MAX_BLOCKS)"

definition true_book :: "chain_view \<Rightarrow> allowance_book \<Rightarrow> bool" where
  "true_book v b = (\<exists>r. allowanceBook (Allowance_read r) = Book b \<and>
     vf_value (ar_delayUsed r) = gd_delay_used (vw_council v) \<and> vf_value (ar_forceRerunUsed r) = gd_force_used (vw_council v) \<and>
     vf_value (ar_pauseWindowStart r) = gd_pause_start (vw_council v) \<and>
     vf_value (ar_pauseUsedInWindow r) = gd_pause_used (vw_council v) \<and> vf_value (ar_currentEpoch r) = vw_epoch v \<and>
     vf_value (ar_delayLimit r) = DELAY_ONCE_ALLOWANCE_PER_EPOCH \<and>
     vf_value (ar_forceRerunLimit r) = FORCE_RERUN_ALLOWANCE_PER_EPOCH \<and>
     vf_value (ar_pauseLimit r) = PAUSE_INTAKE_ALLOWANCE \<and>
     vf_value (ar_pauseWindowEpochs r) = PAUSE_INTAKE_ALLOWANCE_WINDOW_EPOCHS)"

text \<open>What the context states is what the chain holds at the pinned block; a reading may be absent.\<close>

definition truthful :: "chain_view \<Rightarrow> account \<Rightarrow> core_action \<Rightarrow> int \<Rightarrow> approval_context \<Rightarrow> bool" where
  "truthful v who a pin c \<longleftrightarrow>
     decodes (pa_power (ac_action c)) (ca_power a) \<and>
     vf_value (pa_expiresAt (ac_action c)) = ca_expires_at a \<and>
     vf_value (pa_dispatched (ac_action c)) = ca_dispatched a \<and>
     ac_callerIsMember c = (who \<in> seated (vw_council v)) \<and>
     ac_callerHasApproved c = ((ca_id a, who) \<in> set (gd_approvals (vw_council v))) \<and>
     vf_value (ac_now c) = pin \<and> true_book v (ac_allowances c) \<and>
     (case ac_condition c of Trigger_evidence r \<Rightarrow> true_trigger v r | No_condition \<Rightarrow> True) \<and>
     (case ac_dispatch c of Hold_evidence h \<Rightarrow> true_hold pin h | Rerun_evidence r \<Rightarrow> true_rerun v r | No_dispatch_evidence \<Rightarrow> True) \<and>
     (case ac_playbooks c of
        Activation reg act \<Rightarrow>
          (case reg of Registration_read i b \<Rightarrow> vf_value b = vw_registered v i | Registration_unread _ _ \<Rightarrow> True) \<and>
          (case act of Active_read ids \<Rightarrow> set (vf_value ids) = ap_id ` set (gd_active (vw_council v)) | Active_unread _ \<Rightarrow> True)
      | No_playbook \<Rightarrow> True)"

text \<open>A chain state between blocks: a reachable council, counters of the current epoch, and the
  rerun ledger visible in the proposals it was spent on.\<close>

definition settled :: "chain_view \<Rightarrow> bool" where
  "settled v \<longleftrightarrow> council (vw_council v) \<and> gd_epoch (vw_council v) = vw_epoch v \<and>
     (\<forall>pid \<in> set (gd_rerun_used (vw_council v)). \<forall>p. vw_proposal v pid = Some p \<longrightarrow>
        pr_rerun p \<or> pr_delayed_once p \<or> pr_state p = Suspended \<or> pr_state p = Rerun)"

subsection \<open>Each client check is the chain's check\<close>

lemma combine_value: "combine x ss = Stated d \<Longrightarrow> vf_value d = x"
  by (auto simp: combine_def split: sum.splits)

lemma combine2_value: "combine2 a b f = Stated d \<Longrightarrow> vf_value d = f (vf_value a) (vf_value b)"
  by (auto simp: combine2_def dest: combine_value)

lemma allowance_pass: "allowanceBlocks m = [] \<Longrightarrow> vf_value (mt_used m) < vf_value (mt_limit m)"
  by (auto simp: allowanceBlocks_def allowanceRemaining_def split: combined.splits if_splits dest: combine2_value)

lemma horizon_pass:
  "horizonBlocks b h = [] \<Longrightarrow> vf_value (hh_now h) < b \<and> b \<le> vf_value (hh_now h) + vf_value (hh_maxBlocks h)"
  by (auto simp: horizonBlocks_def split: combined.splits if_splits dest: combine2_value)

lemma expiry_pass: "expiryBlocks n e = [] \<Longrightarrow> vf_value n < vf_value e"
  by (auto simp: expiryBlocks_def split: combined.splits if_splits dest: combine2_value)

lemma status_agrees:
  "vw_proposal v pid = Some p \<Longrightarrow> fst (runtime_status v pid) = guardianStatus (pr_state p)"
  by (cases "pr_state p") (simp_all add: runtime_status_def guardianStatus_def)

lemma rerun_pass:
  assumes "rerunBlocks pw pid r = []" "true_rerun v r"
  obtains p where "vw_proposal v pid = Some p" "\<not> snd (runtime_status v pid)"
    "if pw = R_delay then fst (runtime_status v pid) = Status_queued else rerunnable (fst (runtime_status v pid))"
proof -
  from assms obtain s rr d where r: "r = Rerun_read pid s rr d"
    by (cases r) (auto simp: rerunBlocks_def split: if_splits)
  have v: "vw_proposal v pid = Some \<lparr> pr_state = vf_value s, pr_rerun = vf_value rr, pr_delayed_once = vf_value d \<rparr>"
    using assms(2) by (simp add: true_rerun_def r)
  show thesis
    by (rule that [OF v]) (use assms(1) status_agrees [OF v] in
      \<open>auto simp: r rerunBlocks_def Let_def runtime_status_def v inRerun_def client_rerunnable_def rerunnable_def split: if_splits\<close>)
qed

lemma pairing_is_the_chains:
  "t \<in> set (PLAYBOOK_TRIGGERS i) \<longleftrightarrow> trigger_matches i t"
  by (cases i; cases t) (simp_all add: trigger_matches_def)

lemma book_pass:
  assumes "true_book v b" "allowanceBlocks (meterFor b m) = []" "gd_epoch (vw_council v) = vw_epoch v"
  shows "case m of Metered_pause \<Rightarrow> gd_pause_used (roll_pause_window (vw_council v)) < PAUSE_INTAKE_ALLOWANCE
     | Metered_delay \<Rightarrow> gd_delay_used (vw_council v) < DELAY_ONCE_ALLOWANCE_PER_EPOCH
     | Metered_rerun \<Rightarrow> gd_force_used (vw_council v) < FORCE_RERUN_ALLOWANCE_PER_EPOCH"
proof -
  obtain r where r: "allowanceBook (Allowance_read r) = Book b"
     "vf_value (ar_delayUsed r) = gd_delay_used (vw_council v)" "vf_value (ar_forceRerunUsed r) = gd_force_used (vw_council v)"
     "vf_value (ar_pauseWindowStart r) = gd_pause_start (vw_council v)"
     "vf_value (ar_pauseUsedInWindow r) = gd_pause_used (vw_council v)" "vf_value (ar_currentEpoch r) = vw_epoch v"
     "vf_value (ar_delayLimit r) = DELAY_ONCE_ALLOWANCE_PER_EPOCH"
     "vf_value (ar_forceRerunLimit r) = FORCE_RERUN_ALLOWANCE_PER_EPOCH"
     "vf_value (ar_pauseLimit r) = PAUSE_INTAKE_ALLOWANCE"
     "vf_value (ar_pauseWindowEpochs r) = PAUSE_INTAKE_ALLOWANCE_WINDOW_EPOCHS"
    using assms(1) by (auto simp: true_book_def)
  obtain d where dd: "combine (if max 0 (vf_value (ar_currentEpoch r) - vf_value (ar_pauseWindowStart r)) \<ge> vf_value (ar_pauseWindowEpochs r)
        then 0 else vf_value (ar_pauseUsedInWindow r))
      [vf_status (ar_pauseUsedInWindow r), vf_status (ar_pauseWindowStart r), vf_status (ar_currentEpoch r),
       vf_status (ar_pauseWindowEpochs r)] = Stated d"
    and b: "b = \<lparr> ab_pause = \<lparr> al_used = d, al_limit = ar_pauseLimit r \<rparr>,
                 ab_delay = \<lparr> al_used = ar_delayUsed r, al_limit = ar_delayLimit r \<rparr>,
                 ab_rerun = \<lparr> al_used = ar_forceRerunUsed r, al_limit = ar_forceRerunLimit r \<rparr> \<rparr>"
    using r(1) by (auto simp: allowanceBook_def split: combined.splits)
  have d: "vf_value d = (if saturating_sub (vw_epoch v) (gd_pause_start (vw_council v)) \<ge> PAUSE_INTAKE_ALLOWANCE_WINDOW_EPOCHS
      then 0 else gd_pause_used (vw_council v))"
    using combine_value [OF dd] by (simp add: r saturating_sub_def)
  show ?thesis
    using allowance_pass [OF assms(2)] r(2,3,7-9) assms(3)
    by (cases m) (auto simp: meterFor_def b d roll_pause_window_def split: if_splits)
qed

lemma trigger_pass:
  assumes "triggerRefusal r = None" "true_trigger v r"
  shows "subject_holds v (reading_subject r)" "triggerOf r \<noteq> Migration_halt" "triggerOf r \<noteq> Depeg_median"
  using assms by (cases r; auto simp: triggerRefusal_def true_trigger_def Let_def split: if_splits)+

lemma condition_pass:
  assumes "triggerConditionBlocks pw (Trigger_evidence r) = []" "requiredCondition pw = Some s"
  shows "subjectMismatch s (reading_subject r) = None" "triggerRefusal r = None"
  using assms by (auto simp: triggerConditionBlocks_def split: option.splits)

lemma subjectMismatch_None:
  "subjectMismatch s r = None \<Longrightarrow> r = s \<and> s \<noteq> On_deadlock UNNAMED_COHORT"
  by (cases s; cases r) (auto simp: subjectMismatch_def split: if_splits)

subsection \<open>A signature the client offers passes the chain's checks\<close>

lemma find_index_id:
  assumes "distinct (map ca_id as)" "a \<in> set as"
  obtains k where "find_index (\<lambda>x. ca_id x = ca_id a) as = Some k" "k < length as" "as ! k = a"
proof -
  obtain k where k: "find_index (\<lambda>x. ca_id x = ca_id a) as = Some k"
    using assms(2) find_index_None [of "\<lambda>x. ca_id x = ca_id a" as] by fastforce
  note s = find_index_SomeD [OF k]
  have "as ! k = a" using assms s by (auto simp: distinct_map inj_on_def)
  with k s show thesis using that by blast
qed

lemma find_id: "distinct (map ca_id as) \<Longrightarrow> a \<in> set as \<Longrightarrow> find (\<lambda>x. ca_id x = ca_id a) as = Some a"
  by (induction as) (auto simp: image_iff)

lemma dispatch_returns:
  assumes "length (gd_reviews g) < 128" "admit_playbook g (ca_power (gd_pending g ! k)) = Inr ()"
    "check_and_consume (ca_power (gd_pending g ! k)) now ctx g = Inr g1" "now + FORCE_RERUN_WINDOW_BLOCKS < 2 ^ 32"
  shows "\<exists>g'. dispatch k now ctx g = Inr g'"
  unfolding dispatch_def Let_def assms(2,3)
  using assms(4) by (cases "ca_power (gd_pending g ! k)") (simp_all add: assms(1) checked_add_def split_beta)

lemma active_room:
  assumes "inv_caps g" "i \<notin> ap_id ` set (gd_active g)"
  shows "length (gd_active g) < 6"
proof -
  have u: "(UNIV :: playbook_id set) = {Pb_depeg, Pb_migration, Pb_oracle_void, Pb_halt_intake, Pb_reserve, Pb_ledger_freeze}"
    using playbook_id.exhaust by auto
  have "set (map ap_id (gd_active g)) \<subset> (UNIV :: playbook_id set)" using assms(2) by auto
  then have "card (set (map ap_id (gd_active g))) < card (UNIV :: playbook_id set)"
    by (rule psubset_card_mono [rotated]) (simp add: u)
  moreover have "card (UNIV :: playbook_id set) = 6" by (simp add: u)
  moreover have "card (set (map ap_id (gd_active g))) = length (gd_active g)"
    using assms(1) distinct_card [of "map ap_id (gd_active g)"] by (simp add: inv_caps_def)
  ultimately show ?thesis by simp
qed

lemma activation_pass:
  assumes "conditionBlocks (Pending_activate i t e c) ev pbs = []"
  obtains reg act r where "pbs = Activation reg act" "ev = Trigger_evidence r" "reg_id reg = vf_value i"
    "\<exists>b. reg = Registration_read (vf_value i) b \<and> vf_value b"
    "vf_value i = Pb_ledger_freeze \<longrightarrow> (\<exists>ids. act = Active_read ids \<and> Pb_ledger_freeze \<notin> set (vf_value ids))"
    "trigger_matches (vf_value i) (vf_value t)" "vf_value i \<noteq> Pb_oracle_void \<longrightarrow> c = None"
    "reading_subject r = chain_wide (vf_value t) (case c of Some x \<Rightarrow> vf_value x | None \<Rightarrow> UNNAMED_COHORT)"
    "chain_wide (vf_value t) (case c of Some x \<Rightarrow> vf_value x | None \<Rightarrow> UNNAMED_COHORT) \<noteq> On_deadlock UNNAMED_COHORT"
    "triggerRefusal r = None"
proof -
  let ?pw = "Pending_activate i t e c"
  let ?s = "chain_wide (vf_value t) (case c of Some x \<Rightarrow> vf_value x | None \<Rightarrow> UNNAMED_COHORT)"
  have p: "playbookBlocks ?pw pbs = []" and tc: "triggerConditionBlocks ?pw ev = []"
    using assms by (simp_all add: conditionBlocks_def)
  obtain reg act where pbs: "pbs = Activation reg act"
    using p by (cases pbs) (auto simp: playbookBlocks_def)
  have reg: "registrationBlocks (vf_value i) reg = []" and act: "activeRecordBlocks (vf_value i) act = []"
    and m: "vf_value t \<in> set (PLAYBOOK_TRIGGERS (vf_value i))" and c: "vf_value i \<noteq> Pb_oracle_void \<longrightarrow> c = None"
    using p by (auto simp: playbookBlocks_def pbs split: if_splits)
  have req: "requiredCondition ?pw = Some ?s" by (simp add: requiredCondition_def)
  obtain r where r: "ev = Trigger_evidence r"
    using tc by (cases ev) (simp_all add: triggerConditionBlocks_def req)
  note cp = condition_pass [OF tc [unfolded r] req]
  show thesis
    by (rule that [OF pbs r _ _ _ pairing_is_the_chains [THEN iffD1, OF m] c])
      (use reg act subjectMismatch_None [OF cp(1)] cp(2) in
        \<open>auto simp: registrationBlocks_def activeRecordBlocks_def split: if_splits registration_reading.splits active_reading.splits\<close>)
qed

lemma holds_flag:
  "subject_holds v (chain_wide t c) = (if t = Oracle_deadlock then vw_deadlock v c else is_active (vw_flags v) t)"
  by (cases t) (simp_all add: subject_holds_def)

lemma consume_pass:
  assumes s: "settled v" and a: "a \<in> set (gd_pending (vw_council v))" and t: "truthful v who a pin c"
    and b: "approvalBlocks c = []" and room: "0 \<le> pin" "pin + 1 + HOLD_MAX_BLOCKS < 2 ^ 32"
  defines "g \<equiv> vw_council v"
  shows "returns (check_and_consume (ca_power a) (pin + 1) (dispatch_context_for v g (ca_id a)) (with_approval g (ca_id a) who))"
    and "admit_playbook (with_approval g (ca_id a) who) (ca_power a) = Inr ()"
    and "case ca_power a of Activate p _ _ _ \<Rightarrow> vw_registered v p | _ \<Rightarrow> True"
proof -
  have ok: "council_ok g" and ep: "gd_epoch g = vw_epoch v" using s council_invariant by (simp_all add: settled_def g_def)
  then have ids: "distinct (map ca_id (gd_pending g))" and caps: "inv_caps g" by (simp_all add: council_ok_def inv_ids_def)
  have find: "find (\<lambda>x. ca_id x = ca_id a) (gd_pending g) = Some a" using find_id [OF ids] a by (simp add: g_def)
  let ?pw = "pa_power (ac_action c)"
  have dec: "decodes ?pw (ca_power a)" and book: "true_book v (ac_allowances c)" using t by (simp_all add: truthful_def)
  have cond: "conditionBlocks ?pw (ac_condition c) (ac_playbooks c) = []" and disp: "dispatchBlocks c = []"
    using b by (simp_all add: approvalBlocks_def Let_def)
  have sat: "saturating_add 32 (pin + 1) HOLD_MAX_BLOCKS = pin + 1 + HOLD_MAX_BLOCKS"
    using room by (simp add: saturating_add_def)
  have hold: "pin + 1 \<le> u \<and> u \<le> pin + 1 + HOLD_MAX_BLOCKS"
    if "case ac_dispatch c of Hold_evidence h \<Rightarrow> horizonBlocks u h = [] | _ \<Rightarrow> False" for u
  proof -
    note case_u = that
    obtain h where h: "ac_dispatch c = Hold_evidence h" "horizonBlocks u h = []" using case_u by (cases "ac_dispatch c") auto
    have "true_hold pin h" using t h(1) by (simp add: truthful_def)
    then show ?thesis using horizon_pass [OF h(2)] by (simp add: true_hold_def)
  qed
  have spent: "pid \<notin> set (gd_rerun_used g)" if "vw_proposal v pid = Some p" "\<not> snd (runtime_status v pid)" for pid p
    using s that by (auto simp: settled_def g_def runtime_status_def)
  have "returns (check_and_consume (ca_power a) (pin + 1) (dispatch_context_for v g (ca_id a)) (with_approval g (ca_id a) who)) \<and>
    admit_playbook (with_approval g (ca_id a) who) (ca_power a) = Inr () \<and>
    (case ca_power a of Activate p _ _ _ \<Rightarrow> vw_registered v p | _ \<Rightarrow> True)"
  proof (cases ?pw)
    case (Pending_pause u)
    with dec have p: "ca_power a = Pause_until (vf_value u)" by (cases "ca_power a") auto
    have m: "allowanceBlocks (meterFor (ac_allowances c) Metered_pause) = []"
      and h: "case ac_dispatch c of Hold_evidence h \<Rightarrow> horizonBlocks (vf_value u) h = [] | _ \<Rightarrow> False"
      using disp by (simp_all add: dispatchBlocks_def Let_def Pending_pause meteredBlocks_def split: dispatch_evidence.splits)
    have "gd_pause_used (roll_pause_window (with_approval g (ca_id a) who)) = gd_pause_used (roll_pause_window g)"
      by (simp add: roll_pause_window_def)
    then show ?thesis using hold [OF h] book_pass [OF book m ep [unfolded g_def]]
      by (simp add: p check_and_consume_def admit_playbook_def sat returns_iff rbind_eq_Inr_iff Let_def g_def)
  next
    case (Pending_delay pid)
    with dec have p: "ca_power a = Delay_of (vf_value pid)" by (cases "ca_power a") auto
    have m: "allowanceBlocks (meterFor (ac_allowances c) Metered_delay) = []"
      and h: "case ac_dispatch c of Rerun_evidence r \<Rightarrow> rerunBlocks R_delay (vf_value pid) r = [] | _ \<Rightarrow> False"
      using disp by (simp_all add: dispatchBlocks_def Let_def Pending_delay meteredBlocks_def split: dispatch_evidence.splits)
    obtain r where r: "rerunBlocks R_delay (vf_value pid) r = []" "true_rerun v r"
      using h t by (cases "ac_dispatch c") (auto simp: truthful_def)
    obtain q where q: "vw_proposal v (vf_value pid) = Some q" "\<not> snd (runtime_status v (vf_value pid))"
      "fst (runtime_status v (vf_value pid)) = Status_queued" using rerun_pass [OF r] by auto
    show ?thesis using book_pass [OF book m ep [unfolded g_def]] q spent [OF q(1,2)]
      by (simp add: p check_and_consume_def admit_playbook_def returns_iff rbind_eq_Inr_iff dispatch_context_for_def find Let_def
          split_beta) (simp add: g_def)
  next
    case (Pending_rerun pid)
    with dec have p: "ca_power a = Rerun_of (vf_value pid)" by (cases "ca_power a") auto
    have m: "allowanceBlocks (meterFor (ac_allowances c) Metered_rerun) = []"
      and h: "case ac_dispatch c of Rerun_evidence r \<Rightarrow> rerunBlocks R_force (vf_value pid) r = [] | _ \<Rightarrow> False"
      using disp by (simp_all add: dispatchBlocks_def Let_def Pending_rerun meteredBlocks_def split: dispatch_evidence.splits)
    obtain r where r: "rerunBlocks R_force (vf_value pid) r = []" "true_rerun v r"
      using h t by (cases "ac_dispatch c") (auto simp: truthful_def)
    obtain q where q: "vw_proposal v (vf_value pid) = Some q" "\<not> snd (runtime_status v (vf_value pid))"
      "rerunnable (fst (runtime_status v (vf_value pid)))" using rerun_pass [OF r] by auto
    show ?thesis using book_pass [OF book m ep [unfolded g_def]] q spent [OF q(1,2)]
      by (simp add: p check_and_consume_def admit_playbook_def returns_iff rbind_eq_Inr_iff dispatch_context_for_def find Let_def
          split_beta) (simp add: g_def)
  next
    case (Pending_activate i tr e tg)
    with dec have p: "ca_power a = Activate (vf_value i) (vf_value tr) (vf_value e) (map_option vf_value tg)"
      by (cases "ca_power a") auto
    have h: "case ac_dispatch c of Hold_evidence h \<Rightarrow> horizonBlocks (vf_value e) h = [] | _ \<Rightarrow> False"
      using disp by (simp add: dispatchBlocks_def Let_def Pending_activate split: dispatch_evidence.splits)
    obtain reg act r where ap: "ac_playbooks c = Activation reg act" "ac_condition c = Trigger_evidence r"
      "\<exists>b. reg = Registration_read (vf_value i) b \<and> vf_value b"
      "vf_value i = Pb_ledger_freeze \<longrightarrow> (\<exists>ids. act = Active_read ids \<and> Pb_ledger_freeze \<notin> set (vf_value ids))"
      "trigger_matches (vf_value i) (vf_value tr)" "vf_value i \<noteq> Pb_oracle_void \<longrightarrow> tg = None"
      "reading_subject r = chain_wide (vf_value tr) (case tg of Some x \<Rightarrow> vf_value x | None \<Rightarrow> UNNAMED_COHORT)"
      "chain_wide (vf_value tr) (case tg of Some x \<Rightarrow> vf_value x | None \<Rightarrow> UNNAMED_COHORT) \<noteq> On_deadlock UNNAMED_COHORT"
      "triggerRefusal r = None"
      by (rule activation_pass [OF cond [unfolded Pending_activate]])
    have tt: "true_trigger v r" and treg: "vw_registered v (vf_value i)"
      and tact: "vf_value i = Pb_ledger_freeze \<longrightarrow> Pb_ledger_freeze \<notin> ap_id ` set (gd_active g)"
      using t ap(1-4) by (auto simp: truthful_def g_def)
    have holds: "if vf_value tr = Oracle_deadlock then vw_deadlock v (case tg of Some x \<Rightarrow> vf_value x | None \<Rightarrow> UNNAMED_COHORT)
        else is_active (vf_flags) (vf_value tr)" if "vf_flags = vw_flags v" for vf_flags
      using trigger_pass(1) [OF ap(9) tt] by (simp add: ap(7) holds_flag that)
    have pair: "vf_value i = Pb_oracle_void \<longleftrightarrow> vf_value tr = Oracle_deadlock"
      using ap(5) by (cases "vf_value i"; cases "vf_value tr") (simp_all add: trigger_matches_def)
    have target: "vf_value i = Pb_oracle_void \<longrightarrow> tg \<noteq> None" using ap(8) pair by (cases tg) auto
    have active: "is_active (dc_triggers (dispatch_context_for v g (ca_id a))) (vf_value tr)"
      using holds [OF refl] pair target
      by (cases "vf_value i"; cases tg) (auto simp: dispatch_context_for_def find p Let_def split_beta)
    have room': "vf_value i \<in> ap_id ` set (gd_active g) \<or> length (gd_active g) < 6" using active_room [OF caps] by blast
    show ?thesis using hold [OF h] ap(5,6) target active treg tact room'
      by (auto simp: p check_and_consume_def admit_playbook_def sat returns_iff rbind_eq_Inr_iff image_iff)
  next
    case Pending_suspend
    with dec have p: "ca_power a = Suspend" by (cases "ca_power a") auto
    have tc: "triggerConditionBlocks Pending_suspend (ac_condition c) = []"
      using cond by (simp add: conditionBlocks_def Pending_suspend)
    obtain r where r: "ac_condition c = Trigger_evidence r"
      using tc by (cases "ac_condition c") (simp_all add: triggerConditionBlocks_def requiredCondition_def)
    have cp: "subjectMismatch On_gate (reading_subject r) = None" "triggerRefusal r = None"
      by (rule condition_pass [OF tc [unfolded r]], simp add: requiredCondition_def)+
    have "true_trigger v r" using t by (simp add: truthful_def r)
    then have "subject_holds v On_gate" using trigger_pass(1) [OF cp(2)] subjectMismatch_None [OF cp(1)] by simp
    then show ?thesis
      by (simp add: p check_and_consume_def admit_playbook_def returns_iff rbind_eq_Inr_iff dispatch_context_for_def find Let_def
          split_beta subject_holds_def)
  next
    case (Pending_undecodable raw why)
    then show ?thesis using cond by (simp add: conditionBlocks_def)
  qed
  then show "returns (check_and_consume (ca_power a) (pin + 1) (dispatch_context_for v g (ca_id a)) (with_approval g (ca_id a) who))"
    "admit_playbook (with_approval g (ca_id a) who) (ca_power a) = Inr ()"
    "case ca_power a of Activate p _ _ _ \<Rightarrow> vw_registered v p | _ \<Rightarrow> True" by blast+
qed

lemma approve_returns:
  assumes s: "settled v" and a: "a \<in> set (gd_pending (vw_council v))" and t: "truthful v who a pin c"
    and b: "approvalBlocks c = []" and room: "0 \<le> pin" "pin + 1 + HOLD_MAX_BLOCKS < 2 ^ 32" "length (gd_reviews (vw_council v)) < 128"
  shows "\<exists>g'. pallet_approve_checks v who (ca_id a) (pin + 1) = Inr (g',
    if GUARDIAN_THRESHOLD \<le> approval_count (with_approval (vw_council v) (ca_id a) who) (ca_id a)
    then Some (a \<lparr> ca_dispatched := True \<rparr>) else None)"
proof -
  let ?g = "vw_council v"
  let ?h = "with_approval ?g (ca_id a) who" and ?ctx = "dispatch_context_for v ?g (ca_id a)"
  have ok: "council_ok ?g" and ep: "gd_epoch ?g = vw_epoch v" using s council_invariant by (simp_all add: settled_def)
  have sync: "set_epoch (vw_epoch v) ?g = ?g" by (simp add: set_epoch_def ep)
  have ids: "distinct (map ca_id (gd_pending ?g))" using ok by (simp add: council_ok_def inv_ids_def)
  obtain k where k: "find_index (\<lambda>x. ca_id x = ca_id a) (gd_pending ?g) = Some k" "k < length (gd_pending ?g)" "gd_pending ?g ! k = a"
    by (rule find_index_id [OF ids a])
  have exp: "expiryBlocks (ac_now c) (pa_expiresAt (ac_action c)) = []"
    and mem: "who \<in> seated ?g" and new: "(ca_id a, who) \<notin> set (gd_approvals ?g)" and fresh: "\<not> ca_dispatched a"
    using b t by (simp_all add: approvalBlocks_def Let_def truthful_def split: if_splits)
  have live: "pin + 1 \<le> ca_expires_at a" using expiry_pass [OF exp] t by (simp add: truthful_def)
  have app: "approve_action who (ca_id a) (pin + 1) ?ctx ?g =
      (if GUARDIAN_THRESHOLD \<le> approval_count ?h (ca_id a)
       then rbind (dispatch k (pin + 1) ?ctx ?h) (\<lambda>g2. Inr (emit (Action_approved (ca_id a) who (approval_count ?h (ca_id a))) g2, True))
       else Inr (emit (Action_approved (ca_id a) who (approval_count ?h (ca_id a))) ?h, False))"
    using mem new fresh live k by (simp add: approve_action_def ensure_member_def seated_def Let_def)
  note pass = consume_pass [OF s a t b room(1,2)]
  obtain g1 where g1: "check_and_consume (ca_power a) (pin + 1) ?ctx ?h = Inr g1" using pass(1) by (auto simp: returns_iff)
  obtain g2 where g2: "dispatch k (pin + 1) ?ctx ?h = Inr g2"
    using dispatch_returns [of ?h k "pin + 1" ?ctx g1] room pass(2) g1 k by (auto simp: guardian_consts)
  have pend: "gd_pending g2 = (gd_pending ?g)[k := a \<lparr> ca_dispatched := True \<rparr>]"
    by (rule dispatch_shape [OF g2]) (simp add: k)
  have "distinct (map ca_id (gd_pending g2))" unfolding pend using ids set_update_ids [OF k(2), of ca_id "a \<lparr> ca_dispatched := True \<rparr>"] k(3) by simp
  moreover have "a \<lparr> ca_dispatched := True \<rparr> \<in> set (gd_pending g2)" unfolding pend using k(2) by (simp add: set_update_memI)
  ultimately have f: "find (\<lambda>x. ca_id x = ca_id a) (gd_pending g2) = Some (a \<lparr> ca_dispatched := True \<rparr>)"
    using find_id [of "gd_pending g2" "a \<lparr> ca_dispatched := True \<rparr>"] by simp
  have reg: "rbind (case ca_power a of Activate p _ _ _ \<Rightarrow> ensure (vw_registered v p) Playbook_not_registered | _ \<Rightarrow> Inr ())
      (\<lambda>_. Inr h) = Inr h" for h :: "guardian \<times> core_action option"
    using pass(3) by (cases "ca_power a") simp_all
  show ?thesis
    unfolding pallet_approve_checks_def Let_def sync app
    by (simp add: g2 f reg)
qed

subsection \<open>A refusal that is a verdict is the chain's refusal\<close>

text \<open>Blocks that state a fact about the action, as opposed to one about what could not be read,
  about evidence of another action, about the batch on screen, or about the release.\<close>

fun verdict :: "guardian_block \<Rightarrow> bool" where
  "verdict Membership = True"
| "verdict Already_executed = True"
| "verdict Expired_at_pin = True"
| "verdict Expired_action = True"
| "verdict (Not_registered i) = True"
| "verdict (Already_active i) = True"
| "verdict (Wrong_trigger i t) = True"
| "verdict (Unexpected_target i) = True"
| "verdict (Condition_refused r) = (r = Trigger_not_active)"
| "verdict (Allowance_spent m) = True"
| "verdict (Hold_ended n) = True"
| "verdict (Proposal_missing p) = True"
| "verdict (Proposal_state p s) = True"
| "verdict (Rerun_spent p) = True"
| "verdict Already_approved = True"
| "verdict _ = False"

lemma horizon_verdict: "b \<in> set (horizonBlocks u h) \<Longrightarrow> verdict b \<Longrightarrow> u \<le> vf_value (hh_now h)"
  by (auto simp: horizonBlocks_def split: combined.splits if_splits)

lemma expiry_verdict: "b \<in> set (expiryBlocks n e) \<Longrightarrow> verdict b \<Longrightarrow> vf_value e \<le> vf_value n"
  by (auto simp: expiryBlocks_def split: combined.splits if_splits dest: combine2_value)

lemma allowance_verdict: "b \<in> set (allowanceBlocks m) \<Longrightarrow> verdict b \<Longrightarrow> vf_value (mt_limit m) \<le> vf_value (mt_used m)"
  by (auto simp: allowanceBlocks_def allowanceRemaining_def split: combined.splits if_splits dest: combine2_value)

lemma rerun_verdict:
  assumes "b \<in> set (rerunBlocks pw pid r)" "verdict b" "true_rerun v r"
  shows "snd (runtime_status v pid) \<or>
    \<not> (if pw = R_delay then fst (runtime_status v pid) = Status_queued else rerunnable (fst (runtime_status v pid)))"
proof (cases r)
  case (Rerun_read p s rr d)
  have p: "p = pid" using assms(1,2) by (auto simp: rerunBlocks_def Rerun_read split: if_splits)
  have v: "vw_proposal v pid = Some \<lparr> pr_state = vf_value s, pr_rerun = vf_value rr, pr_delayed_once = vf_value d \<rparr>"
    using assms(3) by (simp add: true_rerun_def Rerun_read p)
  show ?thesis using assms(1) status_agrees [OF v]
    by (auto simp: Rerun_read p rerunBlocks_def Let_def runtime_status_def v inRerun_def client_rerunnable_def rerunnable_def split: if_splits)
next
  case (Rerun_absent p)
  then have "p = pid" using assms(1,2) by (auto simp: rerunBlocks_def split: if_splits)
  then have "vw_proposal v pid = None" using assms(3) by (simp add: true_rerun_def Rerun_absent)
  then show ?thesis by (simp add: runtime_status_def rerunnable_def)
next
  case (Rerun_unread p why)
  then show ?thesis using assms(1,2) by (auto simp: rerunBlocks_def split: if_splits)
qed

lemma book_verdict:
  assumes "true_book v b" "x \<in> set (allowanceBlocks (meterFor b m))" "verdict x" "gd_epoch (vw_council v) = vw_epoch v"
  shows "case m of Metered_pause \<Rightarrow> gd_pause_used (roll_pause_window (vw_council v)) \<ge> PAUSE_INTAKE_ALLOWANCE
     | Metered_delay \<Rightarrow> gd_delay_used (vw_council v) \<ge> DELAY_ONCE_ALLOWANCE_PER_EPOCH
     | Metered_rerun \<Rightarrow> gd_force_used (vw_council v) \<ge> FORCE_RERUN_ALLOWANCE_PER_EPOCH"
proof -
  obtain r where r: "allowanceBook (Allowance_read r) = Book b"
     "vf_value (ar_delayUsed r) = gd_delay_used (vw_council v)" "vf_value (ar_forceRerunUsed r) = gd_force_used (vw_council v)"
     "vf_value (ar_pauseWindowStart r) = gd_pause_start (vw_council v)"
     "vf_value (ar_pauseUsedInWindow r) = gd_pause_used (vw_council v)" "vf_value (ar_currentEpoch r) = vw_epoch v"
     "vf_value (ar_delayLimit r) = DELAY_ONCE_ALLOWANCE_PER_EPOCH"
     "vf_value (ar_forceRerunLimit r) = FORCE_RERUN_ALLOWANCE_PER_EPOCH"
     "vf_value (ar_pauseLimit r) = PAUSE_INTAKE_ALLOWANCE"
     "vf_value (ar_pauseWindowEpochs r) = PAUSE_INTAKE_ALLOWANCE_WINDOW_EPOCHS"
    using assms(1) by (auto simp: true_book_def)
  obtain d where dd: "combine (if max 0 (vf_value (ar_currentEpoch r) - vf_value (ar_pauseWindowStart r)) \<ge> vf_value (ar_pauseWindowEpochs r)
        then 0 else vf_value (ar_pauseUsedInWindow r))
      [vf_status (ar_pauseUsedInWindow r), vf_status (ar_pauseWindowStart r), vf_status (ar_currentEpoch r),
       vf_status (ar_pauseWindowEpochs r)] = Stated d"
    and b: "b = \<lparr> ab_pause = \<lparr> al_used = d, al_limit = ar_pauseLimit r \<rparr>,
                 ab_delay = \<lparr> al_used = ar_delayUsed r, al_limit = ar_delayLimit r \<rparr>,
                 ab_rerun = \<lparr> al_used = ar_forceRerunUsed r, al_limit = ar_forceRerunLimit r \<rparr> \<rparr>"
    using r(1) by (auto simp: allowanceBook_def split: combined.splits)
  have d: "vf_value d = (if saturating_sub (vw_epoch v) (gd_pause_start (vw_council v)) \<ge> PAUSE_INTAKE_ALLOWANCE_WINDOW_EPOCHS
      then 0 else gd_pause_used (vw_council v))"
    using combine_value [OF dd] by (simp add: r saturating_sub_def)
  show ?thesis
    using allowance_verdict [OF assms(2,3)] r(2,3,7-9) assms(4)
    by (cases m) (auto simp: meterFor_def b d roll_pause_window_def split: if_splits)
qed

lemma registration_verdict:
  "b \<in> set (registrationBlocks i reg) \<Longrightarrow> verdict b \<Longrightarrow> \<exists>x. reg = Registration_read i x \<and> \<not> vf_value x"
  by (cases reg) (auto simp: registrationBlocks_def split: if_splits)

lemma active_verdict:
  "b \<in> set (activeRecordBlocks i act) \<Longrightarrow> verdict b \<Longrightarrow>
   i = Pb_ledger_freeze \<and> (\<exists>ids. act = Active_read ids \<and> i \<in> set (vf_value ids))"
  by (auto simp: activeRecordBlocks_def split: if_splits active_reading.splits)

lemma condition_verdict:
  assumes "b \<in> set (triggerConditionBlocks pw ev)" "verdict b"
  obtains r s where "ev = Trigger_evidence r" "requiredCondition pw = Some s" "reading_subject r = s"
    "triggerRefusal r = Some Trigger_not_active"
proof -
  obtain s where s: "requiredCondition pw = Some s"
    using assms by (auto simp: triggerConditionBlocks_def split: option.splits condition_evidence.splits)
  obtain r where r: "ev = Trigger_evidence r"
    using assms by (auto simp: triggerConditionBlocks_def s split: condition_evidence.splits)
  have m: "subjectMismatch s (reading_subject r) = None"
    using assms by (auto simp: triggerConditionBlocks_def s r split: option.splits)
  have t: "triggerRefusal r = Some Trigger_not_active"
    using assms by (auto simp: triggerConditionBlocks_def s r m split: option.splits)
  show thesis by (rule that [OF r s _ t]) (use subjectMismatch_None [OF m] in simp)
qed

lemma inactive_reading:
  "triggerRefusal r = Some Trigger_not_active \<Longrightarrow> true_trigger v r \<Longrightarrow> \<not> subject_holds v (reading_subject r)"
  by (cases r) (auto simp: triggerRefusal_def true_trigger_def Let_def split: if_splits)

text \<open>What the chain checked when it executed the threshold approval.\<close>

lemma accepted_facts:
  assumes s: "settled v" and a: "a \<in> set (gd_pending (vw_council v))"
    and th: "GUARDIAN_THRESHOLD \<le> approval_count (with_approval (vw_council v) (ca_id a) who) (ca_id a)"
    and r: "returns (pallet_approve_checks v who (ca_id a) now)"
  shows "who \<in> seated (vw_council v) \<and> (ca_id a, who) \<notin> set (gd_approvals (vw_council v)) \<and> \<not> ca_dispatched a \<and> now \<le> ca_expires_at a \<and>
    admit_playbook (vw_council v) (ca_power a) = Inr () \<and>
    returns (check_and_consume (ca_power a) now (dispatch_context_for v (vw_council v) (ca_id a))
      (with_approval (vw_council v) (ca_id a) who)) \<and>
    (case ca_power a of Activate p _ _ _ \<Rightarrow> vw_registered v p | _ \<Rightarrow> True)"
proof -
  let ?g = "vw_council v"
  let ?h = "with_approval ?g (ca_id a) who" and ?ctx = "dispatch_context_for v ?g (ca_id a)"
  have ok: "council_ok ?g" and ep: "gd_epoch ?g = vw_epoch v" using s council_invariant by (simp_all add: settled_def)
  have sync: "set_epoch (vw_epoch v) ?g = ?g" by (simp add: set_epoch_def ep)
  have ids: "distinct (map ca_id (gd_pending ?g))" using ok by (simp add: council_ok_def inv_ids_def)
  obtain g' b where app: "approve_action who (ca_id a) now ?ctx ?g = Inr (g', b)"
    using r by (auto simp: pallet_approve_checks_def Let_def sync returns_def split: sum.splits)
  obtain k where k: "who \<in> seated ?g" "k < length (gd_pending ?g)" "ca_id (gd_pending ?g ! k) = ca_id a"
    "now \<le> ca_expires_at (gd_pending ?g ! k)" "\<not> ca_dispatched (gd_pending ?g ! k)" "(ca_id a, who) \<notin> set (gd_approvals ?g)"
    "b \<longleftrightarrow> GUARDIAN_THRESHOLD \<le> approval_count ?h (ca_id a)"
    "if b then \<exists>g2. dispatch k now ?ctx ?h = Inr g2 \<and> g' = emit (Action_approved (ca_id a) who (approval_count ?h (ca_id a))) g2
     else g' = emit (Action_approved (ca_id a) who (approval_count ?h (ca_id a))) ?h"
    by (rule approve_action_cases [OF app])
  have ka: "gd_pending ?g ! k = a" using ids a k(2,3) by (auto simp: distinct_map inj_on_def)
  obtain g2 where g2: "dispatch k now ?ctx ?h = Inr g2" "gd_pending g' = gd_pending g2" using k(7,8) th by auto
  have adm: "admit_playbook ?h (ca_power a) = Inr ()" and chk: "returns (check_and_consume (ca_power a) now ?ctx ?h)"
    and pend: "gd_pending g2 = (gd_pending ?g)[k := a \<lparr> ca_dispatched := True \<rparr>]"
    by (rule dispatch_shape [OF g2(1)]; auto simp: ka)+
  have "distinct (map ca_id (gd_pending g2))" unfolding pend using ids set_update_ids [OF k(2), of ca_id "a \<lparr> ca_dispatched := True \<rparr>"] ka by simp
  moreover have "a \<lparr> ca_dispatched := True \<rparr> \<in> set (gd_pending g2)" unfolding pend using k(2) by (simp add: set_update_memI)
  ultimately have f: "find (\<lambda>x. ca_id x = ca_id a) (gd_pending g2) = Some (a \<lparr> ca_dispatched := True \<rparr>)"
    using find_id [of "gd_pending g2" "a \<lparr> ca_dispatched := True \<rparr>"] by simp
  have reg: "case ca_power a of Activate p _ _ _ \<Rightarrow> vw_registered v p | _ \<Rightarrow> True"
    using r k(7) th unfolding pallet_approve_checks_def Let_def sync app by (auto simp: g2(2) f returns_iff rbind_eq_Inr_iff split: chain_power.splits)
  have "admit_playbook ?g (ca_power a) = admit_playbook ?h (ca_power a)" by (cases "ca_power a") (simp_all add: admit_playbook_def)
  with adm chk reg k ka show ?thesis by simp
qed

lemma verdict_is_refused:
  assumes s: "settled v" and a: "a \<in> set (gd_pending (vw_council v))" and t: "truthful v who a pin c"
    and b: "b \<in> set (approvalBlocks c)" "verdict b" and now: "pin < now"
    and th: "GUARDIAN_THRESHOLD \<le> approval_count (with_approval (vw_council v) (ca_id a) who) (ca_id a)"
  shows "\<not> returns (pallet_approve_checks v who (ca_id a) now)"
proof
  assume "returns (pallet_approve_checks v who (ca_id a) now)"
  note F = accepted_facts [OF s a th this]
  let ?g = "vw_council v" and ?pw = "pa_power (ac_action c)"
  let ?ctx = "dispatch_context_for v ?g (ca_id a)"
  have ok: "council_ok ?g" and ep: "gd_epoch ?g = vw_epoch v" using s council_invariant by (simp_all add: settled_def)
  then have ids: "distinct (map ca_id (gd_pending ?g))" by (simp add: council_ok_def inv_ids_def)
  have find: "find (\<lambda>x. ca_id x = ca_id a) (gd_pending ?g) = Some a" by (rule find_id [OF ids a])
  have dec: "decodes ?pw (ca_power a)" and book: "true_book v (ac_allowances c)" using t by (simp_all add: truthful_def)
  have chk: "returns (check_and_consume (ca_power a) now ?ctx (with_approval ?g (ca_id a) who))" using F by blast
  have hold: "u \<le> pin" if "ac_dispatch c = Hold_evidence h" "b \<in> set (horizonBlocks u h)" for u h
    using horizon_verdict [OF that(2) b(2)] t that(1) by (simp add: truthful_def true_hold_def)
  have meter: "b \<notin> set (allowanceBlocks (meterFor (ac_allowances c) m))"
    if "isMetered name = Some m" "pendingPowerName ?pw = Some name" for m name
  proof
    assume "b \<in> set (allowanceBlocks (meterFor (ac_allowances c) m))"
    note bv = book_verdict [OF book this b(2) ep]
    have "gd_pause_used (roll_pause_window (with_approval ?g (ca_id a) who)) = gd_pause_used (roll_pause_window ?g)"
      by (simp add: roll_pause_window_def)
    with bv chk dec that show False
      by (cases ?pw; cases "ca_power a"; auto simp: check_and_consume_def returns_iff rbind_eq_Inr_iff Let_def)
  qed
  have subject_off: "\<not> subject_holds v q" if "b \<in> set (triggerConditionBlocks ?pw (ac_condition c))" "requiredCondition ?pw = Some q" for q
    by (rule condition_verdict [OF that(1) b(2)]) (use t inactive_reading that(2) in \<open>auto simp: truthful_def\<close>)
  from b(1) consider (member) "b = Membership" "\<not> ac_callerIsMember c" |
      (dispatched) "b = Already_executed" "vf_value (pa_dispatched (ac_action c))" |
      (approved) "b = Already_approved" "ac_callerHasApproved c" |
      (expiry) "b \<in> set (expiryBlocks (ac_now c) (pa_expiresAt (ac_action c)))" |
      (other) "\<not> verdict b" |
      (cond) "b \<in> set (conditionBlocks ?pw (ac_condition c) (ac_playbooks c))" | (disp) "b \<in> set (dispatchBlocks c)"
    by (auto simp: approvalBlocks_def Let_def split: if_splits)
  then show False
  proof cases
    case expiry
    then show False using expiry_verdict [OF expiry b(2)] F t now by (simp add: truthful_def)
  next
    case cond
    show False
    proof (cases ?pw)
      case (Pending_activate i tr e tg)
      with dec have p: "ca_power a = Activate (vf_value i) (vf_value tr) (vf_value e) (map_option vf_value tg)"
        by (cases "ca_power a") auto
      have m: "trigger_matches (vf_value i) (vf_value tr)" "is_active (dc_triggers ?ctx) (vf_value tr)"
        "vf_value i = Pb_oracle_void \<and> tg \<noteq> None \<or> vf_value i \<noteq> Pb_oracle_void \<and> tg = None"
        using chk by (auto simp: p check_and_consume_def returns_iff rbind_eq_Inr_iff)
      have reg: "vw_registered v (vf_value i)" using F by (simp add: p)
      have act: "\<not> (vf_value i = Pb_ledger_freeze \<and> Pb_ledger_freeze \<in> ap_id ` set (gd_active ?g))"
        using F by (auto simp: p admit_playbook_def split: if_splits)
      have req: "requiredCondition ?pw = Some (chain_wide (vf_value tr) (case tg of Some x \<Rightarrow> vf_value x | None \<Rightarrow> UNNAMED_COHORT))"
        by (simp add: requiredCondition_def Pending_activate)
      have holds: "subject_holds v (chain_wide (vf_value tr) (case tg of Some x \<Rightarrow> vf_value x | None \<Rightarrow> UNNAMED_COHORT))"
        using m by (cases "vf_value i"; cases "vf_value tr"; cases tg)
          (auto simp: subject_holds_def trigger_matches_def dispatch_context_for_def find p Let_def split_beta)
      from cond consider (pb) "b \<in> set (playbookBlocks ?pw (ac_playbooks c))"
          | (tc) "b \<in> set (triggerConditionBlocks ?pw (ac_condition c))"
        by (auto simp: conditionBlocks_def Pending_activate)
      then show False
      proof cases
        case tc
        then show False using subject_off [OF tc req] holds by blast
      next
        case pb
        obtain rg ac where ev: "ac_playbooks c = Activation rg ac"
          using pb b(2) by (cases "ac_playbooks c") (auto simp: playbookBlocks_def Pending_activate)
        from pb consider "b \<in> set (registrationBlocks (vf_value i) rg)" | "b \<in> set (activeRecordBlocks (vf_value i) ac)"
          | "vf_value tr \<notin> set (PLAYBOOK_TRIGGERS (vf_value i))" | "vf_value i \<noteq> Pb_oracle_void" "tg \<noteq> None"
          by (auto simp: playbookBlocks_def Pending_activate ev split: if_splits)
        then show False
        proof cases
          case 1
          then show False using registration_verdict [OF 1 b(2)] t reg by (auto simp: truthful_def ev)
        next
          case 2
          then show False using active_verdict [OF 2 b(2)] t act by (auto simp: truthful_def ev)
        next
          case 3
          then show False using m(1) pairing_is_the_chains by blast
        next
          case 4
          then show False using m(3) by auto
        qed
      qed
    next
      case Pending_suspend
      with dec have p: "ca_power a = Suspend" by (cases "ca_power a") auto
      have "tf_gate_breach (dc_triggers ?ctx)"
        using chk by (auto simp: p check_and_consume_def returns_iff rbind_eq_Inr_iff)
      then have holds: "subject_holds v On_gate"
        by (simp add: subject_holds_def dispatch_context_for_def find p Let_def split_beta)
      have "b \<in> set (triggerConditionBlocks ?pw (ac_condition c))"
        using cond b(2) by (auto simp: conditionBlocks_def Pending_suspend playbookBlocks_def split: playbook_admissibility.splits)
      then show False using subject_off holds by (auto simp: Pending_suspend requiredCondition_def)
    qed (use cond b(2) in \<open>auto simp: conditionBlocks_def playbookBlocks_def triggerConditionBlocks_def requiredCondition_def
        split: playbook_admissibility.splits condition_evidence.splits\<close>)
  next
    case disp
    show False
    proof (cases ?pw)
      case (Pending_pause u)
      with dec have p: "ca_power a = Pause_until (vf_value u)" by (cases "ca_power a") auto
      have "b \<notin> set (meteredBlocks (ac_allowances c) Pause_intake)"
        using meter [of Pause_intake] by (simp add: meteredBlocks_def Pending_pause)
      then obtain h where h: "ac_dispatch c = Hold_evidence h" "b \<in> set (horizonBlocks (vf_value u) h)"
        using disp b(2) by (auto simp: dispatchBlocks_def Let_def Pending_pause split: dispatch_evidence.splits)
      have "now \<le> vf_value u" using chk by (auto simp: p check_and_consume_def returns_iff rbind_eq_Inr_iff)
      then show False using hold [OF h] now by linarith
    next
      case (Pending_activate i tr e tg)
      with dec have p: "ca_power a = Activate (vf_value i) (vf_value tr) (vf_value e) (map_option vf_value tg)"
        by (cases "ca_power a") auto
      obtain h where h: "ac_dispatch c = Hold_evidence h" "b \<in> set (horizonBlocks (vf_value e) h)"
        using disp b(2) by (auto simp: dispatchBlocks_def Let_def Pending_activate meteredBlocks_def split: dispatch_evidence.splits)
      have "now \<le> vf_value e" using chk by (auto simp: p check_and_consume_def returns_iff rbind_eq_Inr_iff)
      then show False using hold [OF h] now by linarith
    next
      case (Pending_delay pid)
      with dec have p: "ca_power a = Delay_of (vf_value pid)" by (cases "ca_power a") auto
      have "b \<notin> set (meteredBlocks (ac_allowances c) Delay_once)"
        using meter [of Delay_once] by (simp add: meteredBlocks_def Pending_delay)
      then obtain r where r: "ac_dispatch c = Rerun_evidence r" "b \<in> set (rerunBlocks R_delay (vf_value pid) r)"
        using disp b(2) by (auto simp: dispatchBlocks_def Let_def Pending_delay split: dispatch_evidence.splits)
      have "true_rerun v r" using t r(1) by (simp add: truthful_def)
      from rerun_verdict [OF r(2) b(2) this] show False
        using chk by (auto simp: p check_and_consume_def returns_iff rbind_eq_Inr_iff dispatch_context_for_def find Let_def split_beta)
    next
      case (Pending_rerun pid)
      with dec have p: "ca_power a = Rerun_of (vf_value pid)" by (cases "ca_power a") auto
      have "b \<notin> set (meteredBlocks (ac_allowances c) Force_rerun)"
        using meter [of Force_rerun] by (simp add: meteredBlocks_def Pending_rerun)
      then obtain r where r: "ac_dispatch c = Rerun_evidence r" "b \<in> set (rerunBlocks R_force (vf_value pid) r)"
        using disp b(2) by (auto simp: dispatchBlocks_def Let_def Pending_rerun split: dispatch_evidence.splits)
      have "true_rerun v r" using t r(1) by (simp add: truthful_def)
      from rerun_verdict [OF r(2) b(2) this] show False
        using chk by (auto simp: p check_and_consume_def returns_iff rbind_eq_Inr_iff dispatch_context_for_def find Let_def split_beta)
    qed (use disp b(2) in \<open>auto simp: dispatchBlocks_def Let_def meteredBlocks_def split: dispatch_evidence.splits\<close>)
  qed (use F t b(2) in \<open>auto simp: truthful_def\<close>)
qed

text \<open>Verdicts no later block undoes: they state what the action itself is, or that a time has passed.\<close>

fun lasting :: "guardian_block \<Rightarrow> bool" where
  "lasting Already_executed = True"
| "lasting Expired_at_pin = True"
| "lasting Expired_action = True"
| "lasting (Wrong_trigger i t) = True"
| "lasting (Unexpected_target i) = True"
| "lasting (Hold_ended n) = True"
| "lasting _ = False"

lemma lasting_verdict: "lasting b \<Longrightarrow> verdict b"
  by (cases b) simp_all

lemma lasting_condition:
  assumes "b \<in> set (conditionBlocks pw ev pbs)" "lasting b"
  obtains i tr e tg where "pw = Pending_activate i tr e tg"
    "vf_value tr \<notin> set (PLAYBOOK_TRIGGERS (vf_value i)) \<or> vf_value i \<noteq> Pb_oracle_void \<and> tg \<noteq> None"
proof (cases pw)
  case (Pending_activate i tr e tg)
  have "b \<notin> set (triggerConditionBlocks pw ev)"
    using assms(2) by (auto simp: triggerConditionBlocks_def split: option.splits condition_evidence.splits)
  then have "b \<in> set (playbookBlocks pw pbs)" using assms(1) by (auto simp: conditionBlocks_def Pending_activate)
  then show thesis
    using assms(2) by (intro that [OF Pending_activate])
      (auto simp: playbookBlocks_def Pending_activate registrationBlocks_def activeRecordBlocks_def
        split: playbook_admissibility.splits registration_reading.splits active_reading.splits if_splits)
qed (use assms in \<open>auto simp: conditionBlocks_def playbookBlocks_def triggerConditionBlocks_def requiredCondition_def
      split: playbook_admissibility.splits condition_evidence.splits option.splits\<close>)

lemma lasting_dispatch [consumes 2, case_names pause activate]:
  assumes "b \<in> set (dispatchBlocks c)" "lasting b"
  obtains (pause) u h where "pa_power (ac_action c) = Pending_pause u" "ac_dispatch c = Hold_evidence h"
      "b \<in> set (horizonBlocks (vf_value u) h)"
  | (activate) i t e tg h where "pa_power (ac_action c) = Pending_activate i t e tg" "ac_dispatch c = Hold_evidence h"
      "b \<in> set (horizonBlocks (vf_value e) h)"
proof -
  have "b \<notin> set (allowanceBlocks m)" for m
    using assms(2) by (auto simp: allowanceBlocks_def split: combined.splits)
  then have m: "b \<notin> set (meteredBlocks bk name)" for bk name
    by (simp add: meteredBlocks_def split: option.splits)
  have r: "b \<notin> set (rerunBlocks pw pid st)" for pw pid st
    using assms(2) by (auto simp: rerunBlocks_def Let_def split: rerun_state.splits if_splits)
  show thesis
    using assms m r pause activate
    by (auto simp: dispatchBlocks_def Let_def split: pending_power.splits dispatch_evidence.splits)
qed

lemma lasting_is_refused:
  assumes t: "truthful v who a pin c" and b: "b \<in> set (approvalBlocks c)" "lasting b" and now: "pin < now"
    and s: "settled v'" and a: "a \<in> set (gd_pending (vw_council v'))"
    and th: "GUARDIAN_THRESHOLD \<le> approval_count (with_approval (vw_council v') (ca_id a) who) (ca_id a)"
  shows "\<not> returns (pallet_approve_checks v' who (ca_id a) now)"
proof
  assume "returns (pallet_approve_checks v' who (ca_id a) now)"
  note F = accepted_facts [OF s a th this]
  let ?pw = "pa_power (ac_action c)"
  have dec: "decodes ?pw (ca_power a)" using t by (simp add: truthful_def)
  have hold: "u \<le> pin" if "ac_dispatch c = Hold_evidence h" "b \<in> set (horizonBlocks u h)" for u h
    using horizon_verdict [OF that(2) lasting_verdict [OF b(2)]] t that(1) by (simp add: truthful_def true_hold_def)
  from b consider (dispatched) "vf_value (pa_dispatched (ac_action c))" |
      (expiry) "b \<in> set (expiryBlocks (ac_now c) (pa_expiresAt (ac_action c)))" |
      (cond) "b \<in> set (conditionBlocks ?pw (ac_condition c) (ac_playbooks c))" | (disp) "b \<in> set (dispatchBlocks c)"
    by (auto simp: approvalBlocks_def Let_def split: if_splits)
  then show False
  proof cases
    case dispatched
    then show False using F t by (simp add: truthful_def)
  next
    case expiry
    then show False using expiry_verdict [OF expiry lasting_verdict [OF b(2)]] F t now by (simp add: truthful_def)
  next
    case cond
    obtain i tr e tg where pw: "?pw = Pending_activate i tr e tg"
      "vf_value tr \<notin> set (PLAYBOOK_TRIGGERS (vf_value i)) \<or> vf_value i \<noteq> Pb_oracle_void \<and> tg \<noteq> None"
      by (rule lasting_condition [OF cond b(2)])
    have "ca_power a = Activate (vf_value i) (vf_value tr) (vf_value e) (map_option vf_value tg)"
      using dec pw(1) by (cases "ca_power a") auto
    then show False using F pw(2) by (auto simp: check_and_consume_def returns_iff rbind_eq_Inr_iff pairing_is_the_chains)
  next
    case disp
    from disp b(2) show False
    proof (cases rule: lasting_dispatch)
      case (pause u h)
      then have "ca_power a = Pause_until (vf_value u)" using dec by (cases "ca_power a") auto
      then show False using F hold [OF pause(2,3)] now by (auto simp: check_and_consume_def returns_iff rbind_eq_Inr_iff)
    next
      case (activate i tr e tg h)
      then have "ca_power a = Activate (vf_value i) (vf_value tr) (vf_value e) (map_option vf_value tg)"
        using dec by (cases "ca_power a") auto
      then show False using F hold [OF activate(2,3)] now by (auto simp: check_and_consume_def returns_iff rbind_eq_Inr_iff)
    qed
  qed
qed

subsection \<open>The call a proposal derives\<close>






subsection \<open>The tracker\<close>

lemma find_Some: "find P xs = Some x \<Longrightarrow> x \<in> set xs \<and> P x"
  by (induction xs) (auto split: if_splits)

subsection \<open>Properties of the council and its console\<close>

text \<open>C31
  Every reachable council passes the state check of the core (\<open>try_state\<close>; the pallet's own check of
  its storage goes further), keeps its allowances within their limits, and holds only reviews that
  name at least five distinct approvers. It never reuses an action id: two proposals with any calls
  between them get different, growing ids, also when the first action has been reaped since.
\<close>

theorem council_state_check:
  assumes "council g"
  shows "try_state g = Inr () \<and> gd_delay_used g \<le> DELAY_ONCE_ALLOWANCE_PER_EPOCH \<and>
    gd_force_used g \<le> FORCE_RERUN_ALLOWANCE_PER_EPOCH \<and> gd_pause_used g \<le> PAUSE_INTAKE_ALLOWANCE \<and>
    distinct (map ca_id (gd_pending g)) \<and>
    (\<forall>r \<in> set (gd_reviews g). 5 \<le> rv_approver_count r \<and> distinct (take (rv_approver_count r) (rv_approvers r))) \<and>
    (\<forall>who pw j now g1 i cs h who' pw' j' now' h' i'.
       propose_action who pw j now g = Inr (g1, i) \<longrightarrow> run_calls cs g1 = Inr h \<longrightarrow>
       propose_action who' pw' j' now' h = Inr (h', i') \<longrightarrow> (\<forall>a \<in> set (gd_pending g). ca_id a < i) \<and> i < i')"
proof -
  note inv = council_invariant [OF assms]
  have old: "ca_id a < i" if "propose_action who pw j now g = Inr (g1, i)" "a \<in> set (gd_pending g)" for who pw j now g1 i a
    using inv propose_action_id [OF that(1)] that(2) by (simp add: council_ok_def inv_ids_def)
  have "try_state g = Inr ()" using inv by (rule council_ok_try_state)
  then show ?thesis using inv old ids_grow
    by (simp add: council_ok_def inv_allow_def inv_ids_def inv_reviews_def five_approvers_def guardian_consts)
qed

theorem council_state_check_witness:
  "try_state (sample_council 4) = Inr () \<and>
   (\<exists>g1 i h h' i'. propose_action (sample_members ! 0) Suspend ''gate'' 100 (sample_council 4) = Inr (g1, i) \<and>
      apply_call (Call_reap 50000 (\<lambda>_. False)) g1 = Inr h \<and> gd_pending h = [] \<and>
      propose_action (sample_members ! 1) (Rerun_of 3) ''why'' 50000 h = Inr (h', i') \<and> i < i')"
proof -
  note T = council_state_check [OF sample_council_reachable]
  have "returns (propose_action (sample_members ! 0) Suspend ''gate'' 100 (sample_council 4))" by code_simp
  then obtain g1 i where p: "propose_action (sample_members ! 0) Suspend ''gate'' 100 (sample_council 4) = Inr (g1, i)"
    by (auto simp: returns_iff)
  let ?h = "reap_terminal_with_veto 50000 (\<lambda>_. False) g1"
  have r: "run_calls [Call_reap 50000 (\<lambda>_. False)] g1 = Inr ?h" "apply_call (Call_reap 50000 (\<lambda>_. False)) g1 = Inr ?h"
    by (simp_all add: apply_call_def)
  have "rbind (propose_action (sample_members ! 0) Suspend ''gate'' 100 (sample_council 4)) (\<lambda>(g1, i).
      Inr (gd_pending (reap_terminal_with_veto 50000 (\<lambda>_. False) g1))) = (Inr [] :: (core_error, core_action list) result)"
    by code_simp
  then have e: "gd_pending ?h = []" by (simp add: p)
  have "returns (rbind (propose_action (sample_members ! 0) Suspend ''gate'' 100 (sample_council 4)) (\<lambda>(g1, i).
      propose_action (sample_members ! 1) (Rerun_of 3) ''why'' 50000 (reap_terminal_with_veto 50000 (\<lambda>_. False) g1)))"
    by code_simp
  then obtain h' i' where q: "propose_action (sample_members ! 1) (Rerun_of 3) ''why'' 50000 ?h = Inr (h', i')"
    by (auto simp: p returns_iff)
  have "i < i'" using T p r(1) q by blast
  with T p r e q show ?thesis by blast
qed

text \<open>C15
  In a reachable council only an approval dispatches an action: whatever call turns an action
  dispatched is an approval of that action, and at least five distinct seated members, the caller
  among them, have then approved it.
\<close>

theorem dispatch_needs_five_members:
  assumes "council g" "apply_call c g = Inr g'" "a \<in> set (gd_pending g')" "ca_dispatched a"
    "\<forall>x \<in> set (gd_pending g). ca_id x = ca_id a \<longrightarrow> \<not> ca_dispatched x"
  shows "\<exists>who now ctx. c = Call_approve who (ca_id a) now ctx \<and>
    (\<exists>ws. distinct ws \<and> 5 \<le> length ws \<and> who \<in> set ws \<and> set ws \<subseteq> seated g \<and> (\<forall>w \<in> set ws. (ca_id a, w) \<in> set (gd_approvals g')))"
proof (cases "\<exists>who i now ctx. c = Call_approve who i now ctx")
  case True
  then obtain who i now ctx where c: "c = Call_approve who i now ctx" by blast
  then obtain b where b: "approve_action who i now ctx g = Inr (g', b)"
    using assms(2) by (auto simp: apply_call_def rbind_eq_Inr_iff)
  note ok = council_invariant [OF assms(1)]
  from approve_dispatches [OF ok b assms(3-5)] have d: "ca_id a = i" "5 \<le> length (approvals_of g' i)" "distinct (approvals_of g' i)"
    "set (approvals_of g' i) \<subseteq> seated g" "who \<in> set (approvals_of g' i)" by blast+
  have "\<forall>w \<in> set (approvals_of g' i). (i, w) \<in> set (gd_approvals g')"
    using witness_members [OF approve_action_ok [OF ok b]] by blast
  with d c show ?thesis by blast
next
  case False
  then have "a \<in> set (gd_pending g)" using other_calls_keep [OF assms(2) _ assms(3,4)] by blast
  then show ?thesis using assms(4,5) by blast
qed

definition sample_action :: core_action where
  "sample_action = \<lparr> ca_id = 0, ca_proposer = sample_members ! 0, ca_power = Delay_of 9, ca_justification = ''why'',
     ca_created_at = 100, ca_expires_at = 43300, ca_dispatched = False \<rparr>"

lemma sample_council_facts:
  "gd_pending (sample_council 4) = [sample_action]" "gd_epoch (sample_council 4) = 0" "gd_rerun_used (sample_council 4) = []"
  "gd_delay_used (sample_council 4) = 0" "gd_force_used (sample_council 4) = 0" "gd_pause_used (sample_council 4) = 0"
  "gd_pause_start (sample_council 4) = 0" "gd_reviews (sample_council 4) = []"
  "gd_members (sample_council 4) = map Some sample_members"
  "gd_approvals (sample_council 4) = map (\<lambda>k. (0, sample_members ! k)) [0, 1, 2, 3]"
  by code_simp+

theorem dispatch_needs_five_members_witness:
  "\<exists>g'. apply_call (Call_approve (sample_members ! 4) 0 102 sample_ctx) (sample_council 4) = Inr g' \<and>
     (\<exists>ws. distinct ws \<and> 5 \<le> length ws \<and> set ws \<subseteq> seated (sample_council 4) \<and> (\<forall>w \<in> set ws. (0, w) \<in> set (gd_approvals g')))"
proof -
  let ?c = "Call_approve (sample_members ! 4) 0 102 sample_ctx"
  have "returns (apply_call ?c (sample_council 4))" by code_simp
  then obtain g' where g': "apply_call ?c (sample_council 4) = Inr g'" by (auto simp: returns_iff)
  have "rbind (apply_call ?c (sample_council 4)) (\<lambda>g. Inr (gd_pending g)) = (Inr [sample_action \<lparr> ca_dispatched := True \<rparr>] :: (core_error, core_action list) result)"
    by code_simp
  then have "gd_pending g' = [sample_action \<lparr> ca_dispatched := True \<rparr>]" by (simp add: g')
  then have "\<exists>who now ctx. ?c = Call_approve who (ca_id (sample_action \<lparr> ca_dispatched := True \<rparr>)) now ctx \<and>
    (\<exists>ws. distinct ws \<and> 5 \<le> length ws \<and> who \<in> set ws \<and> set ws \<subseteq> seated (sample_council 4) \<and>
      (\<forall>w \<in> set ws. (ca_id (sample_action \<lparr> ca_dispatched := True \<rparr>), w) \<in> set (gd_approvals g')))"
    by (intro dispatch_needs_five_members [OF sample_council_reachable g'])
      (simp_all add: sample_council_facts sample_action_def)
  then show ?thesis using g' by (auto simp: sample_action_def)
qed

definition sample_view :: chain_view where
  "sample_view = \<lparr> vw_council = sample_council 4, vw_epoch = 0, vw_flags = dc_triggers sample_ctx, vw_deadlock = (\<lambda>_. False),
     vw_proposal = (\<lambda>pid. if pid = 9 then Some \<lparr> pr_state = Queued, pr_rerun = False, pr_delayed_once = False \<rparr> else None),
     vw_registered = (\<lambda>_. True) \<rparr>"

definition at_pin :: "'a \<Rightarrow> 'a verified" where
  "at_pin x = \<lparr> vf_value = x, vf_status = Verified_finalized ''chain'' ''block'' 101 \<rparr>"

definition sample_reads :: allowance_reads where
  "sample_reads = \<lparr> ar_delayUsed = at_pin 0, ar_forceRerunUsed = at_pin 0, ar_pauseWindowStart = at_pin 0,
     ar_pauseUsedInWindow = at_pin 0, ar_currentEpoch = at_pin 0, ar_delayLimit = at_pin 2, ar_forceRerunLimit = at_pin 1,
     ar_pauseLimit = at_pin 1, ar_pauseWindowEpochs = at_pin 4 \<rparr>"

definition sample_book :: allowance_book where
  "sample_book = \<lparr> ab_pause = \<lparr> al_used = at_pin 0, al_limit = at_pin 1 \<rparr>,
     ab_delay = \<lparr> al_used = at_pin 0, al_limit = at_pin 2 \<rparr>, ab_rerun = \<lparr> al_used = at_pin 0, al_limit = at_pin 1 \<rparr> \<rparr>"

definition sample_context :: "nat \<Rightarrow> approval_context" where
  "sample_context k = \<lparr> ac_action = \<lparr> pa_actionId = at_pin ''0'', pa_power = Pending_delay (at_pin 9),
       pa_justificationHash = at_pin ''why'', pa_approvals = at_pin 4, pa_threshold = at_pin 5,
       pa_expiresAt = at_pin 43300, pa_dispatched = at_pin False,
       pa_calls = [Decoded_call (at_pin ''Epoch'') (at_pin ''delay'') []] \<rparr>,
     ac_callerIsMember = True, ac_callerHasApproved = (k < 4), ac_now = at_pin 101, ac_allowances = sample_book,
     ac_condition = No_condition,
     ac_dispatch = Rerun_evidence (Rerun_read 9 (at_pin Queued) (at_pin False) (at_pin False)),
     ac_playbooks = No_playbook \<rparr>"

lemma sample_book_true: "true_book sample_view sample_book"
proof -
  have "allowanceBook (Allowance_read sample_reads) = Book sample_book" by code_simp
  then show ?thesis unfolding true_book_def
    by (intro exI [of _ sample_reads]) (simp add: sample_reads_def at_pin_def sample_view_def sample_council_facts guardian_consts)
qed

lemma sample_settled: "settled sample_view"
  by (simp add: settled_def sample_view_def sample_council_reachable sample_council_facts)

lemma sample_truthful:
  assumes "k < 7"
  shows "truthful sample_view (sample_members ! k) sample_action 101 (sample_context k)"
proof -
  have l: "length sample_members = 7" and d: "distinct sample_members" by code_simp+
  have m: "sample_members ! k \<in> seated (sample_council 4)"
    using assms l by (simp add: seated_def sample_council_facts)
  have a: "(k < 4) = ((0, sample_members ! k) \<in> set (gd_approvals (sample_council 4)))"
    using assms l d by (auto simp: sample_council_facts nth_eq_iff_index_eq)
  show ?thesis unfolding truthful_def
    using m a sample_book_true
    by (simp add: sample_context_def at_pin_def sample_action_def true_rerun_def) (simp add: sample_view_def)
qed

text \<open>C11
  Whenever the console raises no block against an approval and what it states is what the chain
  holds at the pinned block, that approval passes in the next block every check the call makes
  before it hands the action to the effect dispatcher (membership, expiry, allowance, hold window,
  rerun state, trigger, pairing, target, active records, registration), given fewer than 128 open
  reviews, a bound the console does not read; and the approval that reaches the threshold hands
  over exactly this action. The effect itself, the storage bounds and the review fronting are
  outside.
\<close>

theorem offered_approval_passes_the_checks:
  assumes "settled v" "a \<in> set (gd_pending (vw_council v))" "truthful v who a pin c" "approvalBlocks c = []"
    "0 \<le> pin" "pin + 1 + HOLD_MAX_BLOCKS < 2 ^ 32" "length (gd_reviews (vw_council v)) < 128"
  shows "\<exists>g'. pallet_approve_checks v who (ca_id a) (pin + 1) = Inr (g',
    if GUARDIAN_THRESHOLD \<le> approval_count (with_approval (vw_council v) (ca_id a) who) (ca_id a)
    then Some (a \<lparr> ca_dispatched := True \<rparr>) else None)"
  by (rule approve_returns [OF assms])

theorem offered_approval_passes_the_checks_witness:
  "approvalBlocks (sample_context 4) = [] \<and>
   (\<exists>g'. pallet_approve_checks sample_view (sample_members ! 4) 0 102 = Inr (g', Some (sample_action \<lparr> ca_dispatched := True \<rparr>)))"
proof -
  have b: "approvalBlocks (sample_context 4) = []" by code_simp
  have th: "GUARDIAN_THRESHOLD \<le> approval_count (with_approval (sample_council 4) 0 (sample_members ! 4)) 0" by code_simp
  have "\<exists>g'. pallet_approve_checks sample_view (sample_members ! 4) (ca_id sample_action) (101 + 1) = Inr (g',
    if GUARDIAN_THRESHOLD \<le> approval_count (with_approval (vw_council sample_view) (ca_id sample_action) (sample_members ! 4)) (ca_id sample_action)
    then Some (sample_action \<lparr> ca_dispatched := True \<rparr>) else None)"
    by (rule offered_approval_passes_the_checks [OF sample_settled _ sample_truthful b])
      (simp_all add: sample_view_def sample_council_facts HOLD_MAX_BLOCKS_def)
  moreover have "ca_id sample_action = 0" "vw_council sample_view = sample_council 4"
    by (simp_all add: sample_action_def sample_view_def)
  ultimately show ?thesis using b th by simp
qed

lemma truthful_without_hold:
  assumes "truthful v who a pin c" "\<forall>h. ac_dispatch c \<noteq> Hold_evidence h"
  shows "truthful v who a n (c \<lparr> ac_now := at_pin n \<rparr>)"
  using assms by (auto simp: truthful_def at_pin_def split: dispatch_evidence.splits)

text \<open>C13
  The console refuses nothing the chain accepts. Take a block of the console that states a fact
  about the action (and not a reading this client lacks, evidence of another action, the shown
  batch, or a playbook the release cannot dispatch), from readings true at the pinned block. In
  every later block where what was read still holds, the chain refuses the threshold approval; and
  a lasting verdict (executed, expired, hold ended, wrong trigger, misplaced target) is refused in
  every later block that still has the action pending, whatever else changed.
\<close>

theorem refused_approval_is_refused_by_the_chain:
  assumes "truthful v who a pin c" "b \<in> set (approvalBlocks c)" "verdict b" "pin < now"
    "settled v'" "a \<in> set (gd_pending (vw_council v'))" "lasting b \<or> truthful v' who a pin c"
    "GUARDIAN_THRESHOLD \<le> approval_count (with_approval (vw_council v') (ca_id a) who) (ca_id a)"
  shows "\<not> returns (pallet_approve_checks v' who (ca_id a) now)"
  using assms(7)
proof
  assume "lasting b"
  then show ?thesis by (rule lasting_is_refused [OF assms(1,2) _ assms(4-6,8)])
next
  assume "truthful v' who a pin c"
  then show ?thesis by (rule verdict_is_refused [OF assms(5,6) _ assms(2-4,8)])
qed

theorem refused_approval_is_refused_by_the_chain_witness:
  "Already_approved \<in> set (approvalBlocks (sample_context 3)) \<and>
   \<not> returns (pallet_approve_checks sample_view (sample_members ! 3) 0 102) \<and>
   Expired_at_pin \<in> set (approvalBlocks (sample_context 4 \<lparr> ac_now := at_pin 43300 \<rparr>)) \<and>
   \<not> returns (pallet_approve_checks (sample_view \<lparr> vw_proposal := Map.empty \<rparr>) (sample_members ! 4) 0 43301)"
proof -
  let ?c = "sample_context 4 \<lparr> ac_now := at_pin 43300 \<rparr>" and ?v = "sample_view \<lparr> vw_proposal := Map.empty \<rparr>"
  have b: "Already_approved \<in> set (approvalBlocks (sample_context 3))" by code_simp
  have th: "GUARDIAN_THRESHOLD \<le> approval_count (with_approval (sample_council 4) 0 (sample_members ! 3)) 0" by code_simp
  have t: "truthful sample_view (sample_members ! 3) sample_action 101 (sample_context 3)" by (rule sample_truthful) simp
  have "\<not> returns (pallet_approve_checks sample_view (sample_members ! 3) (ca_id sample_action) 102)"
    by (rule refused_approval_is_refused_by_the_chain [OF t b _ _ sample_settled])
      (use t th in \<open>simp_all add: sample_view_def sample_council_facts sample_action_def\<close>)
  moreover have e: "Expired_at_pin \<in> set (approvalBlocks ?c)" by code_simp
  moreover have "truthful sample_view (sample_members ! 4) sample_action 43300 ?c"
    by (rule truthful_without_hold [OF sample_truthful]) (simp_all add: sample_context_def)
  then have "\<not> returns (pallet_approve_checks ?v (sample_members ! 4) (ca_id sample_action) 43301)"
  proof (rule refused_approval_is_refused_by_the_chain [OF _ e])
    show "settled ?v" using sample_settled by (simp add: settled_def sample_view_def)
    have "GUARDIAN_THRESHOLD \<le> approval_count (with_approval (sample_council 4) 0 (sample_members ! 4)) 0" by code_simp
    then show "GUARDIAN_THRESHOLD \<le> approval_count (with_approval (vw_council ?v) (ca_id sample_action) (sample_members ! 4)) (ca_id sample_action)"
      by (simp add: sample_view_def sample_action_def)
  qed (simp_all add: sample_view_def sample_council_facts)
  ultimately show ?thesis using b by (simp add: sample_action_def)
qed



text \<open>
  The ratification tracker reports an outcome only from an event of the same action, never reports
  an end of exposure it has not seen, and reports none at all when both outcomes appear; the events
  of other actions never change its answer.
\<close>

theorem ratification_tracks_its_own_action:
  "(ratificationFor i events review = Ratified) =
     ((\<exists>e \<in> set events. re_actionId e = i \<and> re_variant e = ActionRatified) \<and>
      \<not> (\<exists>e \<in> set events. re_actionId e = i \<and> re_variant e = ReviewFailed)) \<and>
   (ratificationFor i events review = Contradictory) =
     ((\<exists>e \<in> set events. re_actionId e = i \<and> re_variant e = ActionRatified) \<and>
      (\<exists>e \<in> set events. re_actionId e = i \<and> re_variant e = ReviewFailed)) \<and>
   ratificationFor i (filter (\<lambda>e. re_actionId e = i) events) review = ratificationFor i events review"
proof -
  have "(find P xs \<noteq> None) = (\<exists>x \<in> set xs. P x)" for P and xs :: "ratification_event list"
    by (induction xs) auto
  note f = this
  have failed: "(find (\<lambda>e. re_variant e = ReviewFailed) (filter (\<lambda>e. re_actionId e = i) events) \<noteq> None) =
      (\<exists>e \<in> set events. re_actionId e = i \<and> re_variant e = ReviewFailed)" unfolding f by auto
  have "filter (\<lambda>e. re_actionId e = i) (filter (\<lambda>e. re_actionId e = i) events) = filter (\<lambda>e. re_actionId e = i) events"
    by simp
  then have idem: "ratificationFor i (filter (\<lambda>e. re_actionId e = i) events) review = ratificationFor i events review"
    unfolding ratificationFor_def by (simp only:)
  show ?thesis
    using failed idem by (auto simp: ratificationFor_def Let_def split: option.splits)
qed

end
