(* ===== verification/Json_Text.thy ===== *)
theory Json_Text
  imports Js_Value "HOL-Library.Word" "HOL-Library.AList"
begin

text \<open>
  JavaScript text and the part of the standard library that reads and writes JSON: strings as
  UTF-16 code units, \<open>Array.from\<close> on a string, \<open>TextEncoder\<close>, \<open>BigInt.toString\<close>,
  \<open>JSON.stringify\<close> of a string and of an integer, and \<open>JSON.parse\<close>. The parser is
  characterised by the printer of tokens: it accepts exactly the token sequences of a value.
\<close>

subsection \<open>Code units\<close>

type_synonym units = "16 word list"

definition lit :: "string \<Rightarrow> units" where
  "lit s = map (\<lambda>c. of_nat (of_char c)) s"

definition is_lead :: "16 word \<Rightarrow> bool" where
  "is_lead c = (0xD800 \<le> unat c \<and> unat c < 0xDC00)"

definition is_trail :: "16 word \<Rightarrow> bool" where
  "is_trail c = (0xDC00 \<le> unat c \<and> unat c < 0xE000)"

text \<open>\<open>Array.from(s)\<close> with \<open>codePointAt(0)\<close> of each: pairs are joined, lone surrogates kept.\<close>

fun code_points :: "units \<Rightarrow> nat list" where
  "code_points [] = []"
| "code_points (c # cs) =
     (case cs of
        d # ds \<Rightarrow> if is_lead c \<and> is_trail d then (0x10000 + (unat c - 0xD800) * 0x400 + (unat d - 0xDC00)) # code_points ds
                 else unat c # code_points cs
      | [] \<Rightarrow> [unat c])"

fun well_formed :: "units \<Rightarrow> bool" where
  "well_formed [] = True"
| "well_formed (c # cs) =
     (if is_lead c then (case cs of d # ds \<Rightarrow> is_trail d \<and> well_formed ds | [] \<Rightarrow> False)
      else \<not> is_trail c \<and> well_formed cs)"

definition utf8_bytes :: "nat \<Rightarrow> nat list" where
  "utf8_bytes n =
     (if n < 0x80 then [n]
      else if n < 0x800 then [0xC0 + n div 64, 0x80 + n mod 64]
      else if n < 0x10000 then [0xE0 + n div 4096, 0x80 + n div 64 mod 64, 0x80 + n mod 64]
      else [0xF0 + n div 262144, 0x80 + n div 4096 mod 64, 0x80 + n div 64 mod 64, 0x80 + n mod 64])"

text \<open>\<open>TextEncoder.encode\<close>: a lone surrogate becomes \<open>U+FFFD\<close>.\<close>

definition scalar_value :: "nat \<Rightarrow> nat" where
  "scalar_value n = (if 0xD800 \<le> n \<and> n < 0xE000 then 0xFFFD else n)"

definition encode_utf8 :: "units \<Rightarrow> 8 word list" where
  "encode_utf8 s = map of_nat (concat (map (utf8_bytes \<circ> scalar_value) (code_points s)))"

subsection \<open>Numbers as text\<close>

definition digit_unit :: "nat \<Rightarrow> 16 word" where
  "digit_unit d = of_nat (48 + d)"

fun nat_dec :: "nat \<Rightarrow> units" where
  "nat_dec n = (if n < 10 then [digit_unit n] else nat_dec (n div 10) @ [digit_unit (n mod 10)])"

declare nat_dec.simps [simp del]

text \<open>\<open>String\<close> of a bigint, and of a number below \<open>10^21\<close>.\<close>

definition int_dec :: "int \<Rightarrow> units" where
  "int_dec n = (if n < 0 then 45 # nat_dec (nat (- n)) else nat_dec (nat n))"

definition is_digit :: "16 word \<Rightarrow> bool" where
  "is_digit c = (48 \<le> unat c \<and> unat c \<le> 57)"

definition digits_value :: "units \<Rightarrow> nat" where
  "digits_value s = foldl (\<lambda>n c. 10 * n + (unat c - 48)) 0 s"

text \<open>The double nearest to a rational: ties to even, subnormals and overflow included.\<close>

definition nearest_double :: "rat \<Rightarrow> js_number" where
  "nearest_double x =
     (if x = 0 then Num 0
      else (let u = pow2 (max (rat_log2 \<bar>x\<bar> - 52) (- 1074)); y = of_int (round_half_even (\<bar>x\<bar> / u)) * u in
        if y \<ge> 2 ^ 1024 then (if x > 0 then PosInfinity else NegInfinity)
        else Num (if x > 0 then y else - y)))"

subsection \<open>Quoted strings\<close>

definition hex_unit :: "nat \<Rightarrow> 16 word" where
  "hex_unit d = of_nat (if d < 10 then 48 + d else 87 + d)"

definition u_escape :: "16 word \<Rightarrow> units" where
  "u_escape c = [92, 117, hex_unit (unat c div 4096), hex_unit (unat c div 256 mod 16), hex_unit (unat c div 16 mod 16),
     hex_unit (unat c mod 16)]"

definition quote_unit :: "16 word \<Rightarrow> units" where
  "quote_unit c =
     (if c = 8 then [92, 98] else if c = 9 then [92, 116] else if c = 10 then [92, 110] else if c = 12 then [92, 102]
      else if c = 13 then [92, 114] else if c = 34 then [92, 34] else if c = 92 then [92, 92]
      else if unat c < 32 then u_escape c else [c])"

fun quote_units :: "units \<Rightarrow> units" where
  "quote_units [] = []"
| "quote_units (c # cs) =
     (if is_lead c then (case cs of
          d # ds \<Rightarrow> if is_trail d then c # d # quote_units ds else u_escape c @ quote_units cs
        | [] \<Rightarrow> u_escape c)
      else if is_trail c then u_escape c @ quote_units cs
      else quote_unit c @ quote_units cs)"

definition quoted :: "units \<Rightarrow> units" where
  "quoted s = 34 # quote_units s @ [34]"

subsection \<open>Tokens\<close>

datatype token =
    T_lbrace | T_rbrace | T_lbracket | T_rbracket | T_comma | T_colon
  | T_string units | T_number js_number | T_true | T_false | T_null

definition hex_value :: "16 word \<Rightarrow> nat option" where
  "hex_value c =
     (let n = unat c in
      if 48 \<le> n \<and> n \<le> 57 then Some (n - 48)
      else if 97 \<le> n \<and> n \<le> 102 then Some (n - 87)
      else if 65 \<le> n \<and> n \<le> 70 then Some (n - 55) else None)"

definition hex4 :: "16 word \<Rightarrow> 16 word \<Rightarrow> 16 word \<Rightarrow> 16 word \<Rightarrow> 16 word option" where
  "hex4 a b c d =
     (case (hex_value a, hex_value b, hex_value c, hex_value d) of
        (Some w, Some x, Some y, Some z) \<Rightarrow> Some (of_nat (4096 * w + 256 * x + 16 * y + z))
      | _ \<Rightarrow> None)"

definition escaped_unit :: "16 word \<Rightarrow> 16 word option" where
  "escaped_unit e =
     (if e = 34 \<or> e = 92 \<or> e = 47 then Some e
      else if e = 98 then Some 8 else if e = 102 then Some 12 else if e = 110 then Some 10
      else if e = 114 then Some 13 else if e = 116 then Some 9 else None)"

text \<open>The rest of a string literal after its opening quote, unescaped, and what follows it.\<close>

fun lex_string :: "units \<Rightarrow> (units \<times> units) option" where
  "lex_string [] = None"
| "lex_string (c # cs) =
     (if c = 34 then Some ([], cs)
      else if c = 92 then (case cs of
          [] \<Rightarrow> None
        | e # es \<Rightarrow>
            if e = 117 then (case es of
                h1 # h2 # h3 # h4 # hs \<Rightarrow> (case hex4 h1 h2 h3 h4 of
                    None \<Rightarrow> None
                  | Some w \<Rightarrow> map_option (\<lambda>(s, rest). (w # s, rest)) (lex_string hs))
              | _ \<Rightarrow> None)
            else (case escaped_unit e of
                None \<Rightarrow> None
              | Some w \<Rightarrow> map_option (\<lambda>(s, rest). (w # s, rest)) (lex_string es)))
      else if unat c < 32 then None
      else map_option (\<lambda>(s, rest). (c # s, rest)) (lex_string cs))"

text \<open>The three parts of a number literal, each with what follows it.\<close>

definition lex_integer :: "units \<Rightarrow> (units \<times> units) option" where
  "lex_integer s =
     (case s of
        [] \<Rightarrow> None
      | c # cs \<Rightarrow> if c = 48 then Some ([c], cs)
                 else if is_digit c then Some (takeWhile is_digit s, dropWhile is_digit s) else None)"

definition lex_fraction :: "units \<Rightarrow> (units \<times> units) option" where
  "lex_fraction s =
     (case s of
        [] \<Rightarrow> Some ([], [])
      | c # cs \<Rightarrow> if c \<noteq> 46 then Some ([], s)
                 else if takeWhile is_digit cs = [] then None
                 else Some (takeWhile is_digit cs, dropWhile is_digit cs))"

definition lex_exponent :: "units \<Rightarrow> (int \<times> units) option" where
  "lex_exponent s =
     (case s of
        [] \<Rightarrow> Some (0, [])
      | c # cs \<Rightarrow> if c \<noteq> 101 \<and> c \<noteq> 69 then Some (0, s)
                 else (let ds = (case cs of d # ds' \<Rightarrow> if d = 43 \<or> d = 45 then ds' else cs | [] \<Rightarrow> cs);
                           n = int (digits_value (takeWhile is_digit ds))
                       in if takeWhile is_digit ds = [] then None
                          else Some (if cs \<noteq> [] \<and> hd cs = 45 then - n else n, dropWhile is_digit ds)))"

definition number_of_parts :: "bool \<Rightarrow> units \<Rightarrow> units \<Rightarrow> int \<Rightarrow> js_number" where
  "number_of_parts neg i f e =
     nearest_double ((if neg then - 1 else 1) * of_nat (digits_value (i @ f)) * 10 powi (e - int (length f)))"

definition lex_number :: "units \<Rightarrow> (js_number \<times> units) option" where
  "lex_number s =
     (let neg = (s \<noteq> [] \<and> hd s = 45) in
      case lex_integer (if neg then tl s else s) of
        None \<Rightarrow> None
      | Some (i, s1) \<Rightarrow> (case lex_fraction s1 of
            None \<Rightarrow> None
          | Some (f, s2) \<Rightarrow> (case lex_exponent s2 of
                None \<Rightarrow> None
              | Some (e, rest) \<Rightarrow> Some (number_of_parts neg i f e, rest))))"

definition starts_with :: "string \<Rightarrow> units \<Rightarrow> bool" where
  "starts_with w s = (take (length w) s = lit w)"

definition lex_word :: "units \<Rightarrow> (token \<times> units) option" where
  "lex_word s =
     (if starts_with ''true'' s then Some (T_true, drop 4 s)
      else if starts_with ''false'' s then Some (T_false, drop 5 s)
      else if starts_with ''null'' s then Some (T_null, drop 4 s) else None)"

definition punctuation :: "16 word \<Rightarrow> token option" where
  "punctuation c =
     (if c = 123 then Some T_lbrace else if c = 125 then Some T_rbrace else if c = 91 then Some T_lbracket
      else if c = 93 then Some T_rbracket else if c = 44 then Some T_comma else if c = 58 then Some T_colon else None)"

definition is_space :: "16 word \<Rightarrow> bool" where
  "is_space c = (c = 32 \<or> c = 9 \<or> c = 10 \<or> c = 13)"

lemma lex_string_shorter: "lex_string s = Some (t, rest) \<Longrightarrow> length rest < length s"
  by (induction s arbitrary: t rest rule: lex_string.induct) (force split: if_splits list.splits option.splits)+

lemma lex_number_shorter: "lex_number s = Some (n, rest) \<Longrightarrow> length rest < length s"
proof -
  have d: "length (dropWhile is_digit xs) \<le> length xs" for xs by (simp add: length_dropWhile_le)
  have i: "length s1 < length s" if "lex_integer s = Some (i, s1)" for s i s1
    using that d by (auto simp: lex_integer_def less_Suc_eq_le split: list.splits if_splits)
  have f: "length s1 \<le> length s" if "lex_fraction s = Some (i, s1)" for s i s1
    using that d by (auto simp: lex_fraction_def le_SucI split: list.splits if_splits)
  have e: "length s1 \<le> length s" if "lex_exponent s = Some (i, s1)" for s i s1
    using that d by (auto simp: lex_exponent_def Let_def le_SucI split: list.splits if_splits)
  assume "lex_number s = Some (n, rest)"
  then obtain i s1 fr s2 ex where x: "lex_integer (if s \<noteq> [] \<and> hd s = 45 then tl s else s) = Some (i, s1)"
    "lex_fraction s1 = Some (fr, s2)" "lex_exponent s2 = Some (ex, rest)"
    by (auto simp: lex_number_def Let_def split: option.splits prod.splits)
  have "length (if s \<noteq> [] \<and> hd s = 45 then tl s else s) \<le> length s" by simp
  with i [OF x(1)] f [OF x(2)] e [OF x(3)] show "length rest < length s" by linarith
qed

lemma lex_word_shorter: "lex_word s = Some (t, rest) \<Longrightarrow> length rest < length s"
  by (cases s) (auto simp: lex_word_def starts_with_def lit_def split: if_splits)

function lex :: "units \<Rightarrow> token list option" where
  "lex [] = Some []"
| "lex (c # cs) =
     (if is_space c then lex cs
      else if c = 34 then (case lex_string cs of
          None \<Rightarrow> None
        | Some (s, rest) \<Rightarrow> map_option (Cons (T_string s)) (lex rest))
      else if c = 45 \<or> is_digit c then (case lex_number (c # cs) of
          None \<Rightarrow> None
        | Some (n, rest) \<Rightarrow> map_option (Cons (T_number n)) (lex rest))
      else (case punctuation c of
          Some t \<Rightarrow> map_option (Cons t) (lex cs)
        | None \<Rightarrow> (case lex_word (c # cs) of
              None \<Rightarrow> None
            | Some (t, rest) \<Rightarrow> map_option (Cons t) (lex rest))))"
  by pat_completeness auto
termination
  by (relation "measure length") (auto dest: lex_string_shorter lex_number_shorter lex_word_shorter)

subsection \<open>Values\<close>

text \<open>
  A JavaScript value as a serializer can meet it. A value \<open>JSON.parse\<close> returns has none
  of the constructors \<open>V_undefined\<close>, \<open>V_big\<close>, \<open>V_instance\<close> (an object
  of a class) and \<open>V_function\<close> (a function or a symbol). The members of an object are listed in some order; the
  order in which \<open>JSON.parse\<close> enumerates keys that look like array indices is not
  kept, and nothing here depends on it.
\<close>

datatype jv =
    V_undefined | V_null | V_bool bool | V_big int | V_number js_number | V_string units
  | V_array "jv list" | V_object "(units \<times> jv) list" | V_instance | V_function

fun is_json :: "jv \<Rightarrow> bool" where
  "is_json (V_array vs) = list_all is_json vs"
| "is_json (V_object ps) = list_all (\<lambda>(k, v). is_json v) ps"
| "is_json v = (v \<noteq> V_undefined \<and> v \<noteq> V_instance \<and> v \<noteq> V_function \<and> (\<forall>n. v \<noteq> V_big n))"

subsection \<open>The grammar\<close>

definition separated :: "token list list \<Rightarrow> token list" where
  "separated ts = (case ts of [] \<Rightarrow> [] | t # us \<Rightarrow> t @ concat (map (Cons T_comma) us))"

fun tokens_of :: "jv \<Rightarrow> token list" where
  "tokens_of V_null = [T_null]"
| "tokens_of (V_bool b) = [if b then T_true else T_false]"
| "tokens_of (V_number n) = [T_number n]"
| "tokens_of (V_string s) = [T_string s]"
| "tokens_of (V_array vs) = T_lbracket # separated (map tokens_of vs) @ [T_rbracket]"
| "tokens_of (V_object ps) = T_lbrace # separated (map (\<lambda>(k, v). T_string k # T_colon # tokens_of v) ps) @ [T_rbrace]"
| "tokens_of _ = []"

text \<open>The parser: what is open around the value being read, innermost first.\<close>

datatype frame = In_array "jv list" | In_object "(units \<times> jv) list" units

datatype parser =
    Expect_value "frame list"
  | Expect_element "frame list"
  | Expect_key "(units \<times> jv) list" "frame list"
  | Expect_colon "(units \<times> jv) list" units "frame list"
  | Have_value jv "frame list"

fun parse_value :: "frame list \<Rightarrow> token \<Rightarrow> parser option" where
  "parse_value fs T_lbrace = Some (Expect_key [] fs)"
| "parse_value fs T_lbracket = Some (Expect_element fs)"
| "parse_value fs (T_string s) = Some (Have_value (V_string s) fs)"
| "parse_value fs (T_number n) = Some (Have_value (V_number n) fs)"
| "parse_value fs T_true = Some (Have_value (V_bool True) fs)"
| "parse_value fs T_false = Some (Have_value (V_bool False) fs)"
| "parse_value fs T_null = Some (Have_value V_null fs)"
| "parse_value fs _ = None"

fun parse_step :: "parser \<Rightarrow> token \<Rightarrow> parser option" where
  "parse_step (Expect_value fs) t = parse_value fs t"
| "parse_step (Expect_element fs) t =
     (if t = T_rbracket then Some (Have_value (V_array []) fs) else parse_value (In_array [] # fs) t)"
| "parse_step (Expect_key ps fs) t =
     (case t of
        T_string k \<Rightarrow> Some (Expect_colon ps k fs)
      | T_rbrace \<Rightarrow> if ps = [] then Some (Have_value (V_object []) fs) else None
      | _ \<Rightarrow> None)"
| "parse_step (Expect_colon ps k fs) t = (if t = T_colon then Some (Expect_value (In_object ps k # fs)) else None)"
| "parse_step (Have_value v fs) t =
     (case fs of
        [] \<Rightarrow> None
      | In_array vs # gs \<Rightarrow>
          if t = T_comma then Some (Expect_value (In_array (vs @ [v]) # gs))
          else if t = T_rbracket then Some (Have_value (V_array (vs @ [v])) gs) else None
      | In_object ps k # gs \<Rightarrow>
          if t = T_comma then Some (Expect_key (ps @ [(k, v)]) gs)
          else if t = T_rbrace then Some (Have_value (V_object (ps @ [(k, v)])) gs) else None)"

fun parse_run :: "parser \<Rightarrow> token list \<Rightarrow> parser option" where
  "parse_run p [] = Some p"
| "parse_run p (t # ts) = (case parse_step p t of None \<Rightarrow> None | Some q \<Rightarrow> parse_run q ts)"

definition parse_tokens :: "token list \<Rightarrow> jv option" where
  "parse_tokens ts =
     (case parse_run (Expect_value []) ts of Some (Have_value v []) \<Rightarrow> Some v | _ \<Rightarrow> None)"

text \<open>Of a repeated member the last value is kept, in the place of the first.\<close>

fun keep_last :: "jv \<Rightarrow> jv" where
  "keep_last (V_array vs) = V_array (map keep_last vs)"
| "keep_last (V_object ps) = V_object (foldl (\<lambda>acc (k, v). AList.update k v acc) [] (map (\<lambda>(k, v). (k, keep_last v)) ps))"
| "keep_last v = v"

definition JSON_tree :: "units \<Rightarrow> jv option" where
  "JSON_tree s = (case lex s of None \<Rightarrow> None | Some ts \<Rightarrow> parse_tokens ts)"

definition JSON_parse :: "units \<Rightarrow> jv option" where
  "JSON_parse s = map_option keep_last (JSON_tree s)"

subsection \<open>The parser accepts exactly the grammar\<close>

lemma separated_simps [simp]: "separated [] = []" "separated [t] = t" "separated (t # u # ts) = t @ T_comma # separated (u # ts)"
  by (simp_all add: separated_def)

lemma separated_snoc: "separated (ts @ [t]) = (if ts = [] then t else separated ts @ T_comma # t)"
  by (cases ts) (auto simp: separated_def)

abbreviation member_tokens :: "units \<times> jv \<Rightarrow> token list" where
  "member_tokens p \<equiv> (case p of (k, v) \<Rightarrow> T_string k # T_colon # tokens_of v)"

text \<open>What a state of the parser has read.\<close>

fun frame_tokens :: "frame list \<Rightarrow> token list" where
  "frame_tokens [] = []"
| "frame_tokens (In_array vs # fs) = frame_tokens fs @ T_lbracket # separated (map tokens_of vs) @ (if vs = [] then [] else [T_comma])"
| "frame_tokens (In_object ps k # fs) = frame_tokens fs @ T_lbrace # separated (map member_tokens ps)
     @ (if ps = [] then [] else [T_comma]) @ [T_string k, T_colon]"

fun consumed :: "parser \<Rightarrow> token list" where
  "consumed (Expect_value fs) = frame_tokens fs"
| "consumed (Expect_element fs) = frame_tokens fs @ [T_lbracket]"
| "consumed (Expect_key ps fs) = frame_tokens fs @ T_lbrace # separated (map member_tokens ps) @ (if ps = [] then [] else [T_comma])"
| "consumed (Expect_colon ps k fs) = frame_tokens fs @ T_lbrace # separated (map member_tokens ps)
     @ (if ps = [] then [] else [T_comma]) @ [T_string k]"
| "consumed (Have_value v fs) = frame_tokens fs @ tokens_of v"

lemma parse_value_consumed: "parse_value fs t = Some p \<Longrightarrow> consumed p = frame_tokens fs @ [t]"
  by (cases "(fs, t)" rule: parse_value.cases) auto

lemma parse_step_consumed: "parse_step p t = Some q \<Longrightarrow> consumed q = consumed p @ [t]"
proof (induction p t rule: parse_step.induct)
  case (5 v fs t)
  then show ?case
    by (auto simp: separated_snoc split: list.splits frame.splits if_splits)
qed (auto dest: parse_value_consumed split: if_splits token.splits)

lemma parse_run_consumed: "parse_run p ts = Some q \<Longrightarrow> consumed q = consumed p @ ts"
  by (induction ts arbitrary: p) (auto simp: parse_step_consumed split: option.splits)

text \<open>Only JSON values are ever built.\<close>

fun frames_json :: "frame list \<Rightarrow> bool" where
  "frames_json [] = True"
| "frames_json (In_array vs # fs) = (list_all is_json vs \<and> frames_json fs)"
| "frames_json (In_object ps k # fs) = (list_all (\<lambda>(k, v). is_json v) ps \<and> frames_json fs)"

fun parser_json :: "parser \<Rightarrow> bool" where
  "parser_json (Expect_value fs) = frames_json fs"
| "parser_json (Expect_element fs) = frames_json fs"
| "parser_json (Expect_key ps fs) = (list_all (\<lambda>(k, v). is_json v) ps \<and> frames_json fs)"
| "parser_json (Expect_colon ps k fs) = (list_all (\<lambda>(k, v). is_json v) ps \<and> frames_json fs)"
| "parser_json (Have_value v fs) = (is_json v \<and> frames_json fs)"

lemma parse_value_json: "parse_value fs t = Some p \<Longrightarrow> frames_json fs \<Longrightarrow> parser_json p"
  by (cases "(fs, t)" rule: parse_value.cases) auto

lemma parse_step_json: "parse_step p t = Some q \<Longrightarrow> parser_json p \<Longrightarrow> parser_json q"
proof (induction p t rule: parse_step.induct)
  case (5 v fs t)
  then show ?case by (auto split: list.splits frame.splits if_splits)
qed (auto dest: parse_value_json split: if_splits token.splits)

lemma parse_run_json: "parse_run p ts = Some q \<Longrightarrow> parser_json p \<Longrightarrow> parser_json q"
  by (induction ts arbitrary: p) (auto dest: parse_step_json split: option.splits)

lemma parse_run_append: "parse_run p (ts @ us) = (case parse_run p ts of None \<Rightarrow> None | Some q \<Rightarrow> parse_run q us)"
  by (induction ts arbitrary: p) (auto split: option.splits)

lemma parse_value_first:
  assumes "is_json v"
  shows "parse_run (Expect_element fs) (tokens_of v) = parse_run (Expect_value (In_array [] # fs)) (tokens_of v)"
  using assms by (cases v) auto

lemma parse_run_value: "is_json v \<Longrightarrow> parse_run (Expect_value fs) (tokens_of v) = Some (Have_value v fs)"
proof (induction v arbitrary: fs rule: tokens_of.induct)
  case (5 vs)
  have el: "parse_run (Expect_value gs) (tokens_of x) = Some (Have_value x gs)" if "x \<in> set vs" for x gs
    using 5 that by (auto simp: list_all_iff)
  have rest: "parse_run (Expect_value (In_array us # gs)) (separated (map tokens_of (x # xs)) @ [T_rbracket])
      = Some (Have_value (V_array (us @ x # xs)) gs)" if "set (x # xs) \<subseteq> set vs" for us x xs gs
    using that
    by (induction xs arbitrary: us x) (simp_all add: el parse_run_append)
  show ?case
  proof (cases vs)
    case Nil then show ?thesis by simp
  next
    case (Cons x xs)
    have x: "is_json x" using 5(2) Cons by simp
    obtain us where "separated (map tokens_of vs) @ [T_rbracket] = tokens_of x @ us" by (cases xs) (auto simp: Cons)
    then show ?thesis
      using rest [of x xs "[]" fs] parse_value_first [OF x, of fs]
      by (simp add: parse_run_append Cons)
  qed
next
  case (6 ps)
  have el: "parse_run (Expect_value gs) (tokens_of x) = Some (Have_value x gs)" if "(k, x) \<in> set ps" for k x gs
    using 6 that by (fastforce simp: list_all_iff)
  have rest: "parse_run (Expect_key qs gs) (separated (map member_tokens ((k, x) # xs)) @ [T_rbrace])
      = Some (Have_value (V_object (qs @ (k, x) # xs)) gs)" if "set ((k, x) # xs) \<subseteq> set ps" for qs k x xs gs
    using that
  proof (induction xs arbitrary: qs k x)
    case Nil
    then show ?case using el [of k x] by (simp add: parse_run_append)
  next
    case (Cons y ys)
    obtain j z where y: "y = (j, z)" by (cases y)
    show ?case using Cons.IH [of j z "qs @ [(k, x)]"] Cons.prems el [of k x] by (simp add: parse_run_append y)
  qed
  show ?case
  proof (cases ps)
    case Nil then show ?thesis by simp
  next
    case (Cons p xs)
    obtain k x where "p = (k, x)" by (cases p)
    then show ?thesis using rest [of k x xs "[]" fs] by (simp add: Cons)
  qed
qed auto

lemma parse_tokens_iff: "parse_tokens ts = Some v \<longleftrightarrow> ts = tokens_of v \<and> is_json v"
proof
  assume "parse_tokens ts = Some v"
  then have r: "parse_run (Expect_value []) ts = Some (Have_value v [])"
    by (auto simp: parse_tokens_def split: option.splits parser.splits list.splits)
  show "ts = tokens_of v \<and> is_json v"
    using parse_run_consumed [OF r] parse_run_json [OF r] by simp
next
  assume "ts = tokens_of v \<and> is_json v"
  then show "parse_tokens ts = Some v" by (simp add: parse_tokens_def parse_run_value)
qed

lemma tokens_of_inject: "is_json v \<Longrightarrow> is_json w \<Longrightarrow> tokens_of v = tokens_of w \<Longrightarrow> v = w"
  using parse_tokens_iff by (metis option.inject)

subsection \<open>Reading back what is printed\<close>

lemma unat_16 [simp]: "n < 65536 \<Longrightarrow> unat (of_nat n :: 16 word) = n"
  by (simp add: unat_of_nat take_bit_eq_mod)

lemma unat_bound16: "unat (c :: 16 word) < 65536"
  using unsigned_less [of c, where ?'a = nat] by simp

lemma hex_value_hex_unit: "d < 16 \<Longrightarrow> hex_value (hex_unit d) = Some d"
  by (auto simp: hex_value_def hex_unit_def Let_def)

lemma hex_split: "4096 * (n div 4096) + 256 * (n div 256 mod 16) + 16 * (n div 16 mod 16) + n mod 16 = (n::nat)"
proof -
  have "n div 256 = 16 * (n div 4096) + n div 256 mod 16" using div_mult2_eq [of n 256 16] by simp
  moreover have "n div 16 = 16 * (n div 256) + n div 16 mod 16" using div_mult2_eq [of n 16 16] by simp
  moreover have "n = 16 * (n div 16) + n mod 16" by simp
  ultimately show ?thesis by linarith
qed

lemma hex4_escape:
  "hex4 (hex_unit (unat c div 4096)) (hex_unit (unat c div 256 mod 16)) (hex_unit (unat c div 16 mod 16)) (hex_unit (unat c mod 16)) = Some c"
proof -
  have "unat c div 4096 < 16" using unat_bound16 [of c] by (simp add: less_mult_imp_div_less)
  then show ?thesis using hex_split [of "unat c"] by (simp add: hex4_def hex_value_hex_unit)
qed

lemma lex_string_u_escape: "lex_string (u_escape c @ s) = map_option (\<lambda>(t, rest). (c # t, rest)) (lex_string s)"
  by (simp add: u_escape_def hex4_escape)

lemma unat_numeral_ne: "unat c \<noteq> unat d \<Longrightarrow> (c :: 16 word) \<noteq> d"
  by blast

lemma lex_string_plain:
  assumes "32 \<le> unat c" "c \<noteq> 34" "c \<noteq> 92"
  shows "lex_string (c # s) = map_option (\<lambda>(t, rest). (c # t, rest)) (lex_string s)"
  using assms by simp

lemma lex_string_quote_unit:
  "\<not> is_lead c \<Longrightarrow> \<not> is_trail c \<Longrightarrow> lex_string (quote_unit c @ s) = map_option (\<lambda>(t, rest). (c # t, rest)) (lex_string s)"
  by (auto simp: quote_unit_def escaped_unit_def lex_string_u_escape simp del: lex_string.simps(2))
    (simp_all add: escaped_unit_def)

lemma lead_plain: "is_lead c \<or> is_trail c \<Longrightarrow> 32 \<le> unat c \<and> c \<noteq> 34 \<and> c \<noteq> 92"
  by (auto simp: is_lead_def is_trail_def)

lemma lex_string_quote_units: "lex_string (quote_units s @ 34 # rest) = Some (s, rest)"
proof (induction s rule: quote_units.induct)
  case (2 c cs)
  show ?case
  proof (cases "is_lead c")
    case True
    note p = lead_plain [OF disjI1 [OF True]]
    show ?thesis
    proof (cases cs)
      case Nil
      then show ?thesis using True by (simp add: lex_string_u_escape del: lex_string.simps(2)) simp
    next
      case (Cons d ds)
      show ?thesis
      proof (cases "is_trail d")
        case T: True
        have "lex_string (c # d # quote_units ds @ 34 # rest) = Some (c # d # ds, rest)"
          using p lead_plain [of d] T 2(1) [OF True Cons T]
          by (simp add: lex_string_plain del: lex_string.simps(2))
        then show ?thesis using True T by (simp add: Cons del: lex_string.simps(2))
      next
        case False
        then show ?thesis using True 2(2) [OF True Cons False]
          by (simp add: Cons lex_string_u_escape del: lex_string.simps(2))
      qed
    qed
  next
    case False
    then show ?thesis using 2(3,4)
      by (cases "is_trail c") (simp_all add: lex_string_u_escape lex_string_quote_unit del: lex_string.simps(2))
  qed
qed simp

lemma digit_unit_simps [simp]: "d < 10 \<Longrightarrow> unat (digit_unit d) = 48 + d" "d < 10 \<Longrightarrow> is_digit (digit_unit d)"
  using unat_16 [of "48 + d"] by (simp_all add: digit_unit_def is_digit_def del: of_nat_add of_nat_numeral)

lemma nat_dec_digits: "list_all is_digit (nat_dec n)"
proof (induction n rule: nat_dec.induct)
  case (1 n)
  then show ?case by (subst nat_dec.simps) simp
qed

lemma nat_dec_nonempty [simp]: "nat_dec n \<noteq> []"
  by (subst nat_dec.simps) simp

lemma digits_value_snoc: "digits_value (s @ [c]) = 10 * digits_value s + (unat c - 48)"
  by (simp add: digits_value_def)

lemma digits_value_nat_dec [simp]: "digits_value (nat_dec n) = n"
proof (induction n rule: nat_dec.induct)
  case (1 n)
  have e: "digits_value [digit_unit n] = n" if "n < 10" using that digits_value_snoc [of "[]"] by (simp add: digits_value_def)
  show ?case
    by (subst nat_dec.simps) (use 1 e in \<open>simp add: digits_value_snoc\<close>)
qed

lemma hd_nat_dec: "0 < n \<Longrightarrow> hd (nat_dec n) \<noteq> 48"
proof (induction n rule: nat_dec.induct)
  case (1 n)
  have "digit_unit n \<noteq> 48" if "0 < n" "n < 10"
  proof
    assume "digit_unit n = 48"
    then have "unat (digit_unit n) = 48" by simp
    then show False using that by simp
  qed
  then show ?case by (subst nat_dec.simps) (use 1 in auto)
qed

lemma length_nat_dec: "0 < k \<Longrightarrow> n < 10 ^ k \<Longrightarrow> length (nat_dec n) \<le> k"
proof (induction k arbitrary: n)
  case (Suc k)
  show ?case
  proof (cases "n < 10")
    case True then show ?thesis by (subst nat_dec.simps) simp
  next
    case False
    have q: "n div 10 < 10 ^ k" using Suc.prems by (simp add: less_mult_imp_div_less)
    have "0 < k" using False Suc.prems by (cases k) auto
    with Suc.IH [OF _ q] show ?thesis by (subst nat_dec.simps) (simp add: False)
  qed
qed simp

text \<open>A number literal ends at the end of the text, at a comma or at a closing bracket.\<close>

definition stops :: "units \<Rightarrow> bool" where
  "stops rest = (rest = [] \<or> hd rest = 44 \<or> hd rest = 93 \<or> hd rest = 125)"

lemma stops_not_digit: "stops rest \<Longrightarrow> takeWhile is_digit (s @ rest) = takeWhile is_digit s"
  "stops rest \<Longrightarrow> list_all is_digit s \<Longrightarrow> dropWhile is_digit (s @ rest) = rest"
proof -
  assume r: "stops rest"
  have "takeWhile is_digit rest = []" using r by (cases rest) (auto simp: stops_def is_digit_def)
  then show "takeWhile is_digit (s @ rest) = takeWhile is_digit s" by (induction s) auto
  have "dropWhile is_digit rest = rest" using r by (cases rest) (auto simp: stops_def is_digit_def)
  then show "list_all is_digit s \<Longrightarrow> dropWhile is_digit (s @ rest) = rest" by (induction s) auto
qed

lemma nearest_double_int:
  assumes "\<bar>n\<bar> \<le> 2 ^ 53"
  shows "nearest_double (of_int n) = Num (of_int n)"
proof (cases "n = 0")
  case False
  let ?x = "\<bar>of_int n\<bar> :: rat"
  have x1: "1 \<le> ?x" using False by (simp flip: of_int_abs)
  have "\<not> rat_log2 ?x + 1 \<le> 0"
  proof
    assume "rat_log2 ?x + 1 \<le> 0"
    then have "pow2 (rat_log2 ?x + 1) \<le> pow2 0" by (rule pow2_mono)
    moreover have "pow2 0 = 1" by (simp add: pow2_def)
    ultimately show False using rat_log2_spec(2) [of ?x] x1 by linarith
  qed
  then have u: "max (rat_log2 ?x - 52) (- 1074) = rat_log2 ?x - 52" by simp
  have y: "of_int (round_half_even (?x / pow2 (rat_log2 ?x - 52))) * pow2 (rat_log2 ?x - 52) = ?x"
  proof -
    have "fl ?x = ?x" using fl_int [of "\<bar>n\<bar>"] assms by simp
    then show ?thesis using x1 by (simp add: fl_def fl_pos_def Let_def split: if_splits)
  qed
  have "?x \<le> 2 ^ 53" using assms by (metis of_int_abs rat_le_53)
  moreover have "(2::rat) ^ 53 < 2 ^ 1024" by (rule power_strict_increasing) simp_all
  ultimately have s: "\<not> 2 ^ 1024 \<le> ?x" by linarith
  show ?thesis
    unfolding nearest_double_def Let_def u y using False s
    by (auto simp: abs_if)
qed (simp add: nearest_double_def)

lemma lex_integer_nat_dec:
  assumes "stops rest"
  shows "lex_integer (nat_dec n @ rest) = Some (nat_dec n, rest)"
proof (cases "n = 0")
  case True
  have "nat_dec 0 = [48]" by (subst nat_dec.simps) (simp add: digit_unit_def)
  then show ?thesis by (simp add: True lex_integer_def)
next
  case False
  obtain c cs where c: "nat_dec n = c # cs" by (cases "nat_dec n") auto
  have "is_digit c" "c \<noteq> 48" using nat_dec_digits [of n] hd_nat_dec [of n] False by (auto simp: c)
  moreover have "takeWhile is_digit (nat_dec n) = nat_dec n" using nat_dec_digits [of n] by (simp add: list_all_iff takeWhile_eq_all_conv)
  ultimately show ?thesis
    using stops_not_digit [OF assms, of "nat_dec n"] nat_dec_digits [of n] by (simp add: lex_integer_def c)
qed

lemma lex_number_int_dec:
  assumes "stops rest" "\<bar>n\<bar> \<le> 2 ^ 53"
  shows "lex_number (int_dec n @ rest) = Some (Num (of_int n), rest)"
proof -
  have f: "lex_fraction rest = Some ([], rest)" "lex_exponent rest = Some (0, rest)"
    using assms(1) by (cases rest; auto simp: lex_fraction_def lex_exponent_def stops_def)+
  have h: "hd (nat_dec k @ s) \<noteq> 45" for k s
    using nat_dec_digits [of k] by (cases "nat_dec k") (auto simp: is_digit_def)
  have v: "number_of_parts (n < 0) (nat_dec (nat \<bar>n\<bar>)) [] 0 = Num (of_int n)"
    using nearest_double_int [OF assms(2)] by (auto simp: number_of_parts_def abs_if)
  show ?thesis
    using lex_integer_nat_dec [OF assms(1), of "nat \<bar>n\<bar>"] h [of "nat n" rest] f v
    by (cases "n < 0") (auto simp: lex_number_def int_dec_def Let_def abs_if split: if_splits)
qed

end
