(* ===== verification/Handoff_Envelope.thy ===== *)
theory Handoff_Envelope
  imports Json_Text
begin

text \<open>
  The conventions every handoff format shares, \<open>handoff-envelope/src\<close>: canonical JSON, the
  bytes a digest is taken over, the chain binding and the refusal codes.
\<close>

subsection \<open>Canonical JSON\<close>

datatype canon_error =
    Non_finite | Not_integer | Past_2_53 | Undefined_value | Not_plain_object | No_representation | Bad_tag

fun first_difference :: "nat list \<Rightarrow> nat list \<Rightarrow> int option" where
  "first_difference (a # as) (b # bs) = (if a \<noteq> b then Some (int a - int b) else first_difference as bs)"
| "first_difference _ _ = None"

definition byCodePoint :: "units \<Rightarrow> units \<Rightarrow> int" where
  "byCodePoint a b =
     (let l = code_points a; r = code_points b in
      case first_difference l r of Some d \<Rightarrow> d | None \<Rightarrow> int (length l) - int (length r))"

definition joined :: "units list \<Rightarrow> units" where
  "joined ss = (case ss of [] \<Rightarrow> [] | s # ts \<Rightarrow> s @ concat (map (Cons 44) ts))"

text \<open>A walk over the parts that stops at the first throw.\<close>

fun collect :: "('e, 'a) result list \<Rightarrow> ('e, 'a list) result" where
  "collect [] = Inr []"
| "collect (r # rs) = rbind r (\<lambda>x. rbind (collect rs) (\<lambda>xs. Inr (x # xs)))"

definition by_key :: "units \<times> 'a \<Rightarrow> units \<times> 'a \<Rightarrow> int" where
  "by_key p q = byCodePoint (fst p) (fst q)"

definition serialize_number :: "js_number \<Rightarrow> (canon_error, units) result" where
  "serialize_number x =
     (case x of
        Num r \<Rightarrow> if of_int \<lfloor>r\<rfloor> \<noteq> r then Inl Not_integer
                 else if \<not> isSafeInteger x then Inl Past_2_53 else Inr (int_dec \<lfloor>r\<rfloor>)
      | _ \<Rightarrow> Inl Non_finite)"

fun serializeInto :: "jv \<Rightarrow> (canon_error, units) result" where
  "serializeInto V_null = Inr (lit ''null'')"
| "serializeInto (V_bool b) = Inr (if b then lit ''true'' else lit ''false'')"
| "serializeInto (V_big n) = Inr (quoted (int_dec n))"
| "serializeInto (V_number x) = serialize_number x"
| "serializeInto (V_string s) = Inr (quoted s)"
| "serializeInto V_undefined = Inl Undefined_value"
| "serializeInto (V_array vs) = rbind (collect (map serializeInto vs)) (\<lambda>parts. Inr (91 # joined parts @ [93]))"
| "serializeInto V_instance = Inl Not_plain_object"
| "serializeInto V_function = Inl No_representation"
| "serializeInto (V_object ps) =
     (let entries = js_sort by_key (map (\<lambda>(k, v). (k, serializeInto v)) (filter (\<lambda>(k, v). v \<noteq> V_undefined) ps)) in
      rbind (collect (map (\<lambda>(k, r). rbind r (\<lambda>s. Inr (quoted k @ 58 # s))) entries)) (\<lambda>parts.
      Inr (123 # joined parts @ [125])))"

definition canonicalJson :: "jv \<Rightarrow> (canon_error, units) result" where
  "canonicalJson v = serializeInto v"

subsection \<open>What a canonical text says\<close>

fun normal :: "jv \<Rightarrow> jv" where
  "normal (V_big n) = V_string (int_dec n)"
| "normal (V_array vs) = V_array (map normal vs)"
| "normal (V_object ps) = V_object (js_sort by_key (map (\<lambda>(k, v). (k, normal v)) (filter (\<lambda>(k, v). v \<noteq> V_undefined) ps)))"
| "normal v = v"

fun distinct_keys :: "jv \<Rightarrow> bool" where
  "distinct_keys (V_array vs) = list_all distinct_keys vs"
| "distinct_keys (V_object ps) = (distinct (map fst ps) \<and> list_all (\<lambda>(k, v). distinct_keys v) ps)"
| "distinct_keys v = True"

lemma collect_Inr: "collect rs = Inr xs \<longleftrightarrow> rs = map Inr xs"
  by (induction rs arbitrary: xs) (auto simp: rbind_eq_Inr_iff)

lemma js_sort_map: "js_sort cmp (map g xs) = map g (js_sort (\<lambda>a b. cmp (g a) (g b)) xs)"
proof (induction xs)
  case (Cons x xs)
  have "insert_by cmp (g x) (map g ys) = map g (insert_by (\<lambda>a b. cmp (g a) (g b)) x ys)" for ys
    by (induction ys) auto
  with Cons show ?case by (simp add: js_sort_Cons)
qed simp

lemma sort_members: "js_sort by_key (map (\<lambda>(k, v). (k, f v)) ps) = map (\<lambda>(k, v). (k, f v)) (js_sort by_key ps)"
proof -
  have "(\<lambda>a b. by_key (case a of (k, v) \<Rightarrow> (k, f v)) (case b of (k, v) \<Rightarrow> (k, f v))) = by_key"
    by (intro ext) (simp add: by_key_def split_beta)
  then show ?thesis by (simp add: js_sort_map)
qed

subsection \<open>Lexing a printed value\<close>

definition prints :: "units \<Rightarrow> token list \<Rightarrow> bool" where
  "prints s ts \<longleftrightarrow> (\<forall>rest. stops rest \<longrightarrow> lex (s @ rest) = map_option (append ts) (lex rest))"

lemma printsD: "prints s ts \<Longrightarrow> stops rest \<Longrightarrow> lex (s @ rest) = map_option (append ts) (lex rest)"
  by (simp add: prints_def)

lemma lex_quoted: "lex (quoted s @ rest) = map_option (Cons (T_string s)) (lex rest)"
  using lex_string_quote_units [of s rest] by (simp add: quoted_def is_space_def)

lemma lex_punctuation: "c \<in> {123, 125, 91, 93, 44, 58} \<Longrightarrow> lex (c # rest) = map_option (Cons (the (punctuation c))) (lex rest)"
  by (auto simp: is_space_def is_digit_def punctuation_def)

lemma map_option_Cons: "map_option (append (t # ts)) x = map_option (Cons t) (map_option (append ts) x)"
  by (cases x) auto

lemma map_option_append: "map_option (append (s @ t)) x = map_option (append s) (map_option (append t) x)"
  by (cases x) auto

lemma prints_quoted: "prints (quoted s) [T_string s]"
proof -
  have "map_option (append [T_string s]) x = map_option (Cons (T_string s)) x" for x by (cases x) auto
  then show ?thesis by (simp add: prints_def lex_quoted del: lex.simps)
qed

lemma prints_words: "prints (lit ''null'') [T_null]" "prints (lit ''true'') [T_true]" "prints (lit ''false'') [T_false]"
  by (auto simp: prints_def lit_def is_space_def is_digit_def punctuation_def lex_word_def starts_with_def
      intro: option.map_cong)

lemma prints_number:
  assumes "\<bar>n\<bar> \<le> 2 ^ 53"
  shows "prints (int_dec n) [T_number (Num (of_int n))]"
  unfolding prints_def
proof (intro allI impI)
  fix rest assume r: "stops rest"
  obtain c cs where c: "int_dec n @ rest = c # cs" "c = 45 \<or> is_digit c"
  proof -
    have "\<exists>d ds. nat_dec k = d # ds \<and> is_digit d" for k using nat_dec_digits [of k] by (cases "nat_dec k") auto
    then show ?thesis using that by (cases "n < 0") (auto simp: int_dec_def, metis append_Cons)
  qed
  have ns: "\<not> is_space c" "c \<noteq> 34" using c(2) by (auto simp: is_space_def is_digit_def)
  have "lex_number (c # cs) = Some (Num (of_int n), rest)" using lex_number_int_dec [OF r assms] by (simp add: c)
  then show "lex (int_dec n @ rest) = map_option (append [T_number (Num (of_int n))]) (lex rest)"
    using c(2) ns by (cases "lex rest") (auto simp: c(1))
qed

lemma lex_joined:
  assumes "list_all2 prints parts tss" "stops rest"
  shows "lex (joined parts @ rest) = map_option (append (separated tss)) (lex rest)"
proof (cases parts)
  case Nil
  then show ?thesis using assms by (cases "lex rest") (auto simp: joined_def)
next
  case (Cons s ss)
  obtain ts uss where t: "tss = ts # uss" "prints s ts" "list_all2 prints ss uss"
    using assms(1) by (auto simp: Cons list_all2_Cons1)
  have tail: "lex (concat (map (Cons 44) ss) @ rest) = map_option (append (concat (map (Cons T_comma) uss))) (lex rest)
      \<and> stops (concat (map (Cons 44) ss) @ rest)"
    using t(3)
  proof (induction ss arbitrary: uss)
    case Nil
    then show ?case using assms(2) by (cases "lex rest") auto
  next
    case (Cons x xs)
    obtain us vss where u: "uss = us # vss" "prints x us" "list_all2 prints xs vss"
      using Cons.prems by (auto simp: list_all2_Cons1)
    have "lex (x @ concat (map (Cons 44) xs) @ rest) = map_option (append (us @ concat (map (Cons T_comma) vss))) (lex rest)"
      using printsD [OF u(2)] Cons.IH [OF u(3)] by (simp only: map_option_append)
    then have "lex (44 # x @ concat (map (Cons 44) xs) @ rest)
        = map_option (Cons T_comma) (map_option (append (us @ concat (map (Cons T_comma) vss))) (lex rest))"
      by (subst lex_punctuation) (simp_all add: punctuation_def)
    then show ?case by (cases "lex rest") (simp_all add: u(1) stops_def)
  qed
  show ?thesis
    using printsD [OF t(2) conjunct2 [OF tail]] conjunct1 [OF tail]
    by (simp only: joined_def separated_def Cons t(1) list.case append_assoc map_option_append)
qed

lemma prints_array: "list_all2 prints parts tss \<Longrightarrow> prints (91 # joined parts @ [93]) (T_lbracket # separated tss @ [T_rbracket])"
  and prints_object: "list_all2 prints parts tss \<Longrightarrow> prints (123 # joined parts @ [125]) (T_lbrace # separated tss @ [T_rbrace])"
proof -
  assume p: "list_all2 prints parts tss"
  have "lex (joined parts @ c # rest) = map_option (append (separated tss)) (map_option (Cons (the (punctuation c))) (lex rest))"
    if "c \<in> {93, 125}" for c rest
    using lex_joined [OF p, of "c # rest"] that lex_punctuation [of c rest] by (auto simp: stops_def simp del: lex.simps)
  then have j: "lex (joined parts @ 93 # rest) = map_option (append (separated tss @ [T_rbracket])) (lex rest)"
    "lex (joined parts @ 125 # rest) = map_option (append (separated tss @ [T_rbrace])) (lex rest)" for rest
    by (cases "lex rest"; simp add: punctuation_def del: lex.simps)+
  show "prints (91 # joined parts @ [93]) (T_lbracket # separated tss @ [T_rbracket])"
    "prints (123 # joined parts @ [125]) (T_lbrace # separated tss @ [T_rbrace])"
    unfolding prints_def using j lex_punctuation [of 91] lex_punctuation [of 123]
    by (simp_all add: punctuation_def map_option_Cons del: lex.simps)
qed

lemma prints_member: "prints s ts \<Longrightarrow> prints (quoted k @ 58 # s) (T_string k # T_colon # ts)"
  unfolding prints_def using lex_punctuation [of 58]
  by (auto simp: lex_quoted map_option_Cons punctuation_def simp del: lex.simps)

lemma normal_eq_undefined: "normal v = V_undefined \<longleftrightarrow> v = V_undefined"
  by (cases v) auto

lemma members_print:
  assumes "map (\<lambda>(k, v). rbind (serializeInto v) (\<lambda>s. Inr (quoted k @ 58 # s))) es = map Inr parts"
    "\<And>k v t. (k, v) \<in> set es \<Longrightarrow> serializeInto v = Inr t \<Longrightarrow> prints t (tokens_of (normal v)) \<and> is_json (normal v)"
  shows "list_all2 prints parts (map member_tokens (map (\<lambda>(k, v). (k, normal v)) es)) \<and>
      list_all (\<lambda>(k, v). is_json v) (map (\<lambda>(k, v). (k, normal v)) es)"
  using assms
proof (induction es arbitrary: parts)
  case (Cons e es)
  obtain k v where e: "e = (k, v)" by (cases e)
  obtain t where t: "serializeInto v = Inr t" using Cons.prems(1) by (cases "serializeInto v") (auto simp: e)
  then obtain ps where p: "parts = (quoted k @ 58 # t) # ps"
      "map (\<lambda>(k, v). rbind (serializeInto v) (\<lambda>s. Inr (quoted k @ 58 # s))) es = map Inr ps"
    using Cons.prems(1) by (cases parts) (auto simp: e)
  have "prints t (tokens_of (normal v)) \<and> is_json (normal v)" by (rule Cons.prems(2) [of k, OF _ t]) (simp add: e)
  then show ?case using Cons.IH [OF p(2)] Cons.prems(2) prints_member by (auto simp: e p(1))
qed simp

lemma serialize_prints: "serializeInto v = Inr s \<Longrightarrow> prints s (tokens_of (normal v)) \<and> is_json (normal v)"
proof (induction v arbitrary: s rule: serializeInto.induct)
  case (4 x)
  then show ?case
    using prints_number
    by (auto simp: serialize_number_def isSafeInteger_def MAX_SAFE_INTEGER_def split: js_number.splits if_splits)
next
  case (7 vs)
  obtain parts where p: "map serializeInto vs = map Inr parts" "s = 91 # joined parts @ [93]"
    using 7(2) by (auto simp: rbind_eq_Inr_iff collect_Inr)
  have each: "prints t (tokens_of (normal v)) \<and> is_json (normal v)" if "v \<in> set vs" "serializeInto v = Inr t" for v t
    using 7(1) that by blast
  have "list_all2 prints parts (map tokens_of (map normal vs)) \<and> list_all is_json (map normal vs)"
    using p(1) each
  proof (induction vs arbitrary: parts)
    case (Cons v vs)
    then obtain t ts where "parts = t # ts" "serializeInto v = Inr t" "map serializeInto vs = map Inr ts" by auto
    then show ?case using Cons.IH [of ts] Cons.prems(2) by auto
  qed simp
  then show ?case using prints_array [of parts] by (auto simp: p(2) comp_def)
next
  case (10 ps)
  let ?es = "js_sort by_key (filter (\<lambda>(k, v). v \<noteq> V_undefined) ps)"
  have eq: "serializeInto (V_object ps) = rbind (collect (map (\<lambda>(k, v). rbind (serializeInto v) (\<lambda>s. Inr (quoted k @ 58 # s))) ?es))
      (\<lambda>parts. Inr (123 # joined parts @ [125]))"
    unfolding serializeInto.simps Let_def sort_members map_map comp_def by (simp add: case_prod_unfold)
  have "\<exists>parts. map (\<lambda>(k, v). rbind (serializeInto v) (\<lambda>s. Inr (quoted k @ 58 # s))) ?es = map Inr parts \<and>
      s = 123 # joined parts @ [125]"
    using trans [OF eq [symmetric] 10(2)] unfolding rbind_eq_Inr_iff collect_Inr by blast
  then obtain parts where p: "map (\<lambda>(k, v). rbind (serializeInto v) (\<lambda>s. Inr (quoted k @ 58 # s))) ?es = map Inr parts"
    "s = 123 # joined parts @ [125]" by blast
  have each: "prints t (tokens_of (normal v)) \<and> is_json (normal v)" if "(k, v) \<in> set ?es" "serializeInto v = Inr t" for k v t
    using 10(1) [of "(k, v)" k v] that by auto
  have m: "list_all2 prints parts (map member_tokens (map (\<lambda>(k, v). (k, normal v)) ?es)) \<and>
      list_all (\<lambda>(k, v). is_json v) (map (\<lambda>(k, v). (k, normal v)) ?es)"
    by (rule members_print [OF p(1)]) (use each in blast)
  then show ?case using prints_object [OF conjunct1 [OF m]] by (simp add: p(2) sort_members)
qed (auto simp: prints_quoted prints_words)


subsection \<open>The round trip\<close>

text \<open>The order by code point is a total order, so sorted members are unique.\<close>

lemma first_difference_None: "first_difference a b = None \<Longrightarrow> length a = length b \<Longrightarrow> a = b"
  by (induction a b rule: first_difference.induct) (auto split: if_splits)

lemma first_difference_swap: "first_difference b a = map_option uminus (first_difference a b)"
  by (induction a b rule: first_difference.induct) auto

lemma first_difference_nonzero: "first_difference a b = Some d \<Longrightarrow> d \<noteq> 0"
  by (induction a b rule: first_difference.induct) (auto split: if_splits)

text \<open>As the lexicographic order on the code points.\<close>

fun points_le :: "nat list \<Rightarrow> nat list \<Rightarrow> bool" where
  "points_le [] bs = True"
| "points_le (a # as) [] = False"
| "points_le (a # as) (b # bs) = (a < b \<or> a = b \<and> points_le as bs)"

definition compare_points :: "nat list \<Rightarrow> nat list \<Rightarrow> int" where
  "compare_points l r = (case first_difference l r of Some d \<Rightarrow> d | None \<Rightarrow> int (length l) - int (length r))"

lemma compare_points_le: "compare_points a b \<le> 0 \<longleftrightarrow> points_le a b"
  by (induction a b rule: points_le.induct) (auto simp: compare_points_def split: option.splits)

lemma points_le_trans: "points_le a b \<Longrightarrow> points_le b c \<Longrightarrow> points_le a c"
proof (induction a b arbitrary: c rule: points_le.induct)
  case (3 a as b bs)
  then show ?case by (cases c) auto
qed auto

lemma compare_points_swap: "compare_points b a = - compare_points a b"
  by (auto simp: compare_points_def first_difference_swap [of b a] split: option.splits)

lemma code_points_surrogate:
  "is_lead c \<Longrightarrow> is_trail d \<Longrightarrow> 0x10000 \<le> 0x10000 + (unat c - 0xD800) * 0x400 + (unat d - 0xDC00) \<and>
     (0x10000 + (unat c - 0xD800) * 0x400 + (unat d - 0xDC00)) < 0x110000"
  by (auto simp: is_lead_def is_trail_def)

lemma pair_inject:
  assumes "is_lead c" "is_trail d" "is_lead c'" "is_trail d'"
    "(unat c - 0xD800) * 0x400 + (unat d - 0xDC00) = (unat c' - 0xD800) * 0x400 + (unat d' - 0xDC00)"
  shows "c = c' \<and> d = d'"
proof -
  have "unat d - 0xDC00 < 0x400" "unat d' - 0xDC00 < 0x400" using assms by (auto simp: is_trail_def)
  moreover have "(k * 0x400 + r) div 0x400 = k \<and> (k * 0x400 + r) mod 0x400 = r" if "r < 0x400" for k r :: nat
    using that by simp
  ultimately have "unat c - 0xD800 = unat c' - 0xD800 \<and> unat d - 0xDC00 = unat d' - 0xDC00" using assms(5) by metis
  with assms(1-4) have "unat c = unat c'" "unat d = unat d'" by (auto simp: is_lead_def is_trail_def)
  then show ?thesis by (simp add: word_unat_eq_iff)
qed

lemma code_points_inject: "code_points s = code_points t \<Longrightarrow> s = t"
proof (induction s arbitrary: t rule: code_points.induct)
  case 1
  then show ?case by (cases t) (auto split: list.splits if_splits)
next
  case (2 c cs)
  obtain c' cs' where t: "t = c' # cs'" using 2(3) by (cases t) (auto split: list.splits if_splits)
  define P where "P = (\<lambda>(c::16 word) cs. \<exists>d ds. cs = d # ds \<and> is_lead c \<and> is_trail d)"
  have single: "code_points (c # cs) = unat c # code_points cs" if "\<not> P c cs" for c cs
    using that by (cases cs) (auto simp: P_def)
  have lt: "unat (c::16 word) < 0x10000" for c by (rule unat_bound16)
  show ?case
  proof (cases "P c cs")
    case True
    then obtain d ds where d: "cs = d # ds" "is_lead c" "is_trail d" by (auto simp: P_def)
    have "P c' cs'"
    proof (rule ccontr)
      assume "\<not> P c' cs'"
      then show False using single [of c' cs'] 2(3) d code_points_surrogate [OF d(2,3)] lt [of c'] by (simp add: t)
    qed
    then obtain d' ds' where d': "cs' = d' # ds'" "is_lead c'" "is_trail d'" by (auto simp: P_def)
    have "code_points ds = code_points ds'" and e: "(unat c - 0xD800) * 0x400 + (unat d - 0xDC00) = (unat c' - 0xD800) * 0x400 + (unat d' - 0xDC00)"
      using 2(3) d d' by (simp_all add: t)
    then show ?thesis using 2(1) [OF d(1)] d pair_inject [OF d(2,3) d'(2,3) e] by (simp add: t d'(1))
  next
    case False
    have "\<not> P c' cs'"
    proof
      assume "P c' cs'"
      then obtain d' ds' where d': "cs' = d' # ds'" "is_lead c'" "is_trail d'" by (auto simp: P_def)
      show False using single [OF False] 2(3) d' code_points_surrogate [OF d'(2,3)] lt [of c] by (simp add: t)
    qed
    then have "unat c = unat c'" "code_points cs = code_points cs'" using single [OF False] single 2(3) by (auto simp: t)
    moreover have "cs = cs'"
    proof (cases cs)
      case Nil
      then show ?thesis using calculation(2) by (cases cs') (auto split: list.splits if_splits)
    next
      case (Cons d ds)
      then show ?thesis using 2(2) [OF Cons] False calculation(2) by (auto simp: P_def)
    qed
    ultimately show ?thesis by (simp add: t word_unat_eq_iff)
  qed
qed

lemma byCodePoint_points: "byCodePoint a b = compare_points (code_points a) (code_points b)"
  by (simp add: byCodePoint_def compare_points_def Let_def)

lemma byCodePoint_eq0: "byCodePoint a b = 0 \<longleftrightarrow> a = b"
proof
  assume "byCodePoint a b = 0"
  then have "code_points a = code_points b"
    by (auto simp: byCodePoint_points compare_points_def dest: first_difference_nonzero first_difference_None split: option.splits)
  then show "a = b" by (rule code_points_inject)
next
  have "first_difference x x = None" for x by (induction x) auto
  then show "a = b \<Longrightarrow> byCodePoint a b = 0" by (simp add: byCodePoint_points compare_points_def)
qed

lemma by_key_compares: "compares by_key S"
proof -
  have "(by_key a b < 0) = (0 < by_key b a)" for a b :: "units \<times> 'a"
    using compare_points_swap [of "code_points (fst a)" "code_points (fst b)"] by (simp add: by_key_def byCodePoint_points)
  moreover have "by_key a b \<le> 0 \<Longrightarrow> by_key b c \<le> 0 \<Longrightarrow> by_key a c \<le> 0" for a b c :: "units \<times> 'a"
    unfolding by_key_def byCodePoint_points compare_points_le by (rule points_le_trans)
  ultimately show ?thesis unfolding compares_def by blast
qed

text \<open>Two sorted lists of the same members, with distinct keys, are one.\<close>

lemma sorted_members_unique:
  assumes "sorted_wrt (\<lambda>p q. by_key p q \<le> 0) ps" "sorted_wrt (\<lambda>p q. by_key p q \<le> 0) qs" "mset ps = mset qs" "distinct (map fst ps)"
  shows "ps = qs"
  using assms
proof (induction ps arbitrary: qs)
  case (Cons p ps)
  obtain q rs where q: "qs = q # rs" using Cons.prems(3) by (cases qs) auto
  have "p = q"
  proof (rule ccontr)
    assume n: "p \<noteq> q"
    have "set (p # ps) = set (q # rs)" using Cons.prems(3) q by (metis mset_eq_setD)
    then have m: "q \<in> set ps" "p \<in> set rs" using n by auto
    then have "by_key p q \<le> 0" "by_key q p \<le> 0" using Cons.prems(1,2) by (auto simp: q)
    then have "by_key p q = 0" using compares_sign [OF by_key_compares, of p UNIV q] by simp
    then have "fst p = fst q" by (simp add: by_key_def byCodePoint_eq0)
    then show False using Cons.prems(4) m(1) by (metis distinct.simps(2) image_eqI list.set_map list.simps(9))
  qed
  then show ?case using Cons.IH [of rs] Cons.prems by (auto simp: q)
qed simp

lemma js_sort_sorted_id:
  "sorted_wrt (\<lambda>p q. by_key p q \<le> 0) ps \<Longrightarrow> js_sort by_key ps = ps"
proof (induction ps)
  case (Cons p ps)
  then show ?case by (cases ps) (auto simp: js_sort_Cons)
qed simp

lemma serialize_normal: "serializeInto (normal v) = serializeInto v"
proof (induction v rule: serializeInto.induct)
  case (7 vs)
  then have "map serializeInto (map normal vs) = map serializeInto vs" by simp
  then show ?case by (simp only: normal.simps serializeInto.simps)
next
  case (10 ps)
  let ?fs = "filter (\<lambda>(k, v). v \<noteq> V_undefined) ps"
  let ?n = "map (\<lambda>(k, v). (k, normal v)) (js_sort by_key ?fs)"
  have nf: "filter (\<lambda>(k, v). v \<noteq> V_undefined) ?n = ?n"
    by (auto simp: filter_id_conv normal_eq_undefined)
  have "sorted_wrt (\<lambda>p q. by_key p q \<le> 0) (js_sort by_key ?fs)" by (rule sorted_js_sort [OF by_key_compares])
  then have st: "js_sort by_key ?n = ?n"
    by (intro js_sort_sorted_id) (simp add: sorted_wrt_map by_key_def split_beta)
  have "map (\<lambda>(k, v). (k, serializeInto v)) ?n = map (\<lambda>(k, v). (k, serializeInto v)) (js_sort by_key ?fs)"
    using 10 by auto
  then have "js_sort by_key (map (\<lambda>(k, v). (k, serializeInto v)) (filter (\<lambda>(k, v). v \<noteq> V_undefined) ?n))
      = js_sort by_key (map (\<lambda>(k, v). (k, serializeInto v)) ?fs)"
    unfolding nf sort_members [of serializeInto] st by simp
  then show ?case by (simp only: normal.simps serializeInto.simps sort_members [of normal])
qed auto

lemma distinct_keys_normal: "distinct_keys v \<Longrightarrow> distinct_keys (normal v)"
proof (induction v rule: normal.induct)
  case (3 ps)
  let ?fs = "filter (\<lambda>(k, v). v \<noteq> V_undefined) ps"
  have "distinct (map fst ?fs)" using 3(2) by (simp add: distinct_map_filter)
  moreover have "mset (map fst (js_sort by_key ?fs)) = mset (map fst ?fs)" by (simp only: mset_map mset_js_sort)
  ultimately have "distinct (map fst (js_sort by_key ?fs))" by (metis mset_eq_imp_distinct_iff)
  moreover have "map fst (map (\<lambda>(k, v). (k, normal v)) xs) = map fst xs" for xs :: "(units \<times> jv) list" by auto
  moreover have "list_all (\<lambda>(k, v). distinct_keys v) (map (\<lambda>(k, v). (k, normal v)) (js_sort by_key ?fs))"
    using 3 by (fastforce simp: list_all_iff)
  ultimately show ?case by (simp only: normal.simps sort_members distinct_keys.simps)
qed (auto simp: list_all_iff)

lemma update_fresh: "k \<notin> set (map fst acc) \<Longrightarrow> AList.update k v acc = acc @ [(k, v)]"
  by (induction acc) auto

lemma fold_updates:
  "distinct (map fst ps) \<Longrightarrow> set (map fst ps) \<inter> set (map fst acc) = {} \<Longrightarrow>
     foldl (\<lambda>acc (k, v). AList.update k v acc) acc ps = acc @ ps"
proof (induction ps arbitrary: acc)
  case (Cons p ps)
  obtain k v where "p = (k, v)" by (cases p)
  moreover have "k \<notin> set (map fst acc)" using Cons.prems calculation by auto
  ultimately show ?case using Cons.IH [of "acc @ [(k, v)]"] Cons.prems by (auto simp: update_fresh)
qed simp

lemma keep_last_id: "distinct_keys v \<Longrightarrow> keep_last v = v"
proof (induction v rule: keep_last.induct)
  case (1 vs)
  then show ?case by (simp add: list_all_iff map_idI)
next
  case (2 ps)
  have "map (\<lambda>(k, v). (k, keep_last v)) ps = ps" using 2 by (intro map_idI) (auto simp: list_all_iff)
  then show ?case using fold_updates [of ps "[]"] 2(2) by simp
qed auto

lemma JSON_tree_serialized:
  assumes "serializeInto v = Inr s"
  shows "JSON_tree s = Some (normal v)"
proof -
  note p = serialize_prints [OF assms]
  have "lex s = Some (tokens_of (normal v))" using printsD [OF conjunct1 [OF p], of "[]"] by (simp add: stops_def)
  then show ?thesis using p by (simp add: JSON_tree_def parse_tokens_iff)
qed

lemma canonical_inject:
  "serializeInto v = Inr s \<Longrightarrow> serializeInto w = Inr s \<Longrightarrow> normal v = normal w"
  using JSON_tree_serialized by (metis option.inject)

subsection \<open>UTF-8 is one-to-one on well-formed text\<close>

lemma well_formed_append: "well_formed s \<Longrightarrow> well_formed t \<Longrightarrow> well_formed (s @ t)"
  by (induction s rule: well_formed.induct) (auto split: if_splits list.splits)

lemma plain_well_formed: "list_all (\<lambda>c. unat c < 0xD800) s \<Longrightarrow> well_formed s"
  by (induction s) (auto simp: is_lead_def is_trail_def)

lemma hex_unit_small: "d < 16 \<Longrightarrow> unat (hex_unit d) < 0x80"
  unfolding hex_unit_def by (subst unat_16) auto

lemma u_escape_plain: "list_all (\<lambda>c. unat c < 0xD800) (u_escape c)"
proof -
  have "unat c div 4096 < 16" using unat_bound16 [of c] by (simp add: less_mult_imp_div_less)
  then have "unat (hex_unit (unat c div 4096)) < 0xD800" using hex_unit_small by fastforce
  moreover have "unat (hex_unit (d mod 16)) < 0xD800" for d using hex_unit_small [of "d mod 16"] by simp
  ultimately show ?thesis by (simp add: u_escape_def)
qed

lemma quote_unit_well_formed: "\<not> is_lead c \<Longrightarrow> \<not> is_trail c \<Longrightarrow> well_formed (quote_unit c)"
  using plain_well_formed [OF u_escape_plain] by (auto simp: quote_unit_def is_lead_def is_trail_def)

lemma quote_units_well_formed: "well_formed (quote_units s)"
proof (induction s rule: quote_units.induct)
  case (2 c cs)
  then show ?case
    using well_formed_append [OF plain_well_formed [OF u_escape_plain]] well_formed_append [OF quote_unit_well_formed]
      plain_well_formed [OF u_escape_plain]
    by (auto split: list.splits)
qed simp

lemma quoted_well_formed: "well_formed (quoted s)"
  using well_formed_append [OF quote_units_well_formed [of s], of "[34]"] by (simp add: quoted_def is_lead_def is_trail_def)

lemma joined_well_formed: "\<forall>s \<in> set ss. well_formed s \<Longrightarrow> well_formed (joined ss)"
proof -
  have "\<forall>s \<in> set ss. well_formed s \<Longrightarrow> well_formed (concat (map (Cons 44) ss))" for ss
    by (induction ss) (auto intro!: well_formed_append simp: is_lead_def is_trail_def)
  then show "\<forall>s \<in> set ss. well_formed s \<Longrightarrow> well_formed (joined ss)"
    by (auto simp: joined_def split: list.splits intro!: well_formed_append)
qed

lemma int_dec_well_formed: "well_formed (int_dec n)"
proof -
  have "list_all (\<lambda>c. unat c < 0xD800) (nat_dec k)" for k
    using nat_dec_digits [of k] by (auto simp: list_all_iff is_digit_def)
  then show ?thesis by (intro plain_well_formed) (simp add: int_dec_def)
qed

lemma bracketed_well_formed:
  "well_formed s \<Longrightarrow> unat c < 0xD800 \<Longrightarrow> unat d < 0xD800 \<Longrightarrow> well_formed (c # s @ [d])"
  using well_formed_append [of s "[d]"] by (auto simp: is_lead_def is_trail_def)

lemma serialize_well_formed: "serializeInto v = Inr s \<Longrightarrow> well_formed s"
proof (induction v arbitrary: s rule: serializeInto.induct)
  case (4 x)
  then show ?case using int_dec_well_formed by (auto simp: serialize_number_def split: js_number.splits if_splits)
next
  case (7 vs)
  then obtain parts where p: "map serializeInto vs = map Inr parts" "s = 91 # joined parts @ [93]"
    by (auto simp: rbind_eq_Inr_iff collect_Inr)
  have "\<forall>t \<in> set parts. well_formed t"
  proof
    fix t assume "t \<in> set parts"
    then have "(Inr t :: (canon_error, units) result) \<in> set (map serializeInto vs)" by (simp add: p)
    then show "well_formed t" using 7(1) by (auto simp del: serializeInto.simps)
  qed
  then show ?case unfolding p(2) by (intro bracketed_well_formed joined_well_formed) simp_all
next
  case (10 ps)
  let ?es = "js_sort by_key (map (\<lambda>(k, v). (k, serializeInto v)) (filter (\<lambda>(k, v). v \<noteq> V_undefined) ps))"
  have "\<exists>parts. map (\<lambda>(k, r). rbind r (\<lambda>s. Inr (quoted k @ 58 # s))) ?es = map Inr parts \<and> s = 123 # joined parts @ [125]"
    using 10(2) unfolding serializeInto.simps Let_def rbind_eq_Inr_iff collect_Inr by blast
  then obtain parts where p: "map (\<lambda>(k, r). rbind r (\<lambda>s. Inr (quoted k @ 58 # s))) ?es = map Inr parts" "s = 123 # joined parts @ [125]"
    by blast
  have "\<forall>t \<in> set parts. well_formed t"
  proof
    fix t assume "t \<in> set parts"
    then have "(Inr t :: (canon_error, units) result) \<in> set (map (\<lambda>(k, r). rbind r (\<lambda>s. Inr (quoted k @ 58 # s))) ?es)" by (simp add: p)
    then obtain k v u where "(k, v) \<in> set ps" "v \<noteq> V_undefined" "serializeInto v = Inr u" "t = quoted k @ 58 # u"
      by (auto simp: rbind_eq_Inr_iff eq_commute [of "Inr t"])
    then show "well_formed t" using 10(1) [of "(k, v)" k v u] well_formed_append [OF quoted_well_formed, of "58 # u" k]
      by (auto simp: is_lead_def is_trail_def)
  qed
  then show ?case unfolding p(2) by (intro bracketed_well_formed joined_well_formed) simp_all
qed (auto simp: quoted_well_formed lit_def is_lead_def is_trail_def)

lemma code_points_scalar:
  "well_formed s \<Longrightarrow> n \<in> set (code_points s) \<Longrightarrow> scalar_value n = n \<and> n < 0x110000"
proof (induction s rule: well_formed.induct)
  case (2 c cs)
  show ?case
  proof (cases "is_lead c")
    case True
    then obtain d ds where d: "cs = d # ds" "is_trail d" "well_formed ds" using 2(3) by (auto split: list.splits)
    then have "n = 0x10000 + (unat c - 0xD800) * 0x400 + (unat d - 0xDC00) \<or> n \<in> set (code_points ds)" using 2(4) True by auto
    then show ?thesis using 2(1) [OF True d(1,3)] code_points_surrogate [OF True d(2)] by (auto simp: scalar_value_def)
  next
    case False
    have "n = unat c \<or> n \<in> set (code_points cs)" using 2(4) False by (cases cs) auto
    moreover have "unat c < 0x10000" by (rule unat_bound16)
    ultimately show ?thesis using 2(2) 2(3) False by (auto simp: is_lead_def is_trail_def scalar_value_def)
  qed
qed simp

definition utf8_first :: "nat list \<Rightarrow> nat \<times> nat list" where
  "utf8_first bs =
     (let b = bs ! 0; c = \<lambda>i. bs ! i - 0x80 in
      if b < 0x80 then (b, drop 1 bs)
      else if b < 0xE0 then ((b - 0xC0) * 64 + c 1, drop 2 bs)
      else if b < 0xF0 then ((b - 0xE0) * 4096 + c 2 + c 1 * 64, drop 3 bs)
      else ((b - 0xF0) * 262144 + c 3 + c 2 * 64 + c 1 * 4096, drop 4 bs))"

lemma utf8_first_bytes:
  assumes "a < 0x110000"
  shows "utf8_first (utf8_bytes a @ x) = (a, x)"
proof -
  have s1: "a div 64 * 64 + a mod 64 = a" by simp
  have s2: "a div 4096 * 64 + a div 64 mod 64 = a div 64" using div_mult2_eq [of a 64 64] div_mult_mod_eq [of "a div 64" 64] by simp
  have s3: "a div 262144 * 64 + a div 4096 mod 64 = a div 4096" using div_mult2_eq [of a 4096 64] div_mult_mod_eq [of "a div 4096" 64] by simp
  consider "a < 0x80" | "0x80 \<le> a" "a < 0x800" | "0x800 \<le> a" "a < 0x10000" | "0x10000 \<le> a" by linarith
  then show ?thesis
  proof cases
    case 1
    then show ?thesis by (simp add: utf8_bytes_def utf8_first_def Let_def)
  next
    case 2
    then have "a div 64 < 32" by (simp add: less_mult_imp_div_less)
    then show ?thesis using 2 s1 by (simp add: utf8_bytes_def utf8_first_def Let_def)
  next
    case 3
    then have "a div 4096 < 16" by (simp add: less_mult_imp_div_less)
    moreover have "a div 4096 * 4096 + a mod 64 + a div 64 mod 64 * 64 = a" using s1 s2 by linarith
    ultimately show ?thesis using 3 by (simp add: utf8_bytes_def utf8_first_def Let_def numeral_2_eq_2 numeral_3_eq_3)
  next
    case 4
    have "a div 262144 * 262144 + a mod 64 + a div 64 mod 64 * 64 + a div 4096 mod 64 * 4096 = a" using s1 s2 s3 by linarith
    then show ?thesis using 4 by (simp add: utf8_bytes_def utf8_first_def Let_def numeral_2_eq_2 numeral_3_eq_3)
  qed
qed

lemma utf8_bytes_small: "a < 0x110000 \<Longrightarrow> b \<in> set (utf8_bytes a) \<Longrightarrow> b < 256"
proof -
  assume a: "a < 0x110000" "b \<in> set (utf8_bytes a)"
  have "a < 0x800 \<Longrightarrow> a div 64 < 32" "a < 0x10000 \<Longrightarrow> a div 4096 < 16" "a div 262144 < 8" using a(1)
    by (simp_all add: less_mult_imp_div_less)
  moreover have "n mod 64 < 64" for n :: nat by simp
  ultimately show ?thesis using a(2) by (fastforce simp: utf8_bytes_def split: if_splits)
qed

lemma concat_utf8_inject:
  assumes "\<forall>a \<in> set as. a < 0x110000" "\<forall>b \<in> set bs. b < 0x110000" "concat (map utf8_bytes as) = concat (map utf8_bytes bs)"
  shows "as = bs"
  using assms
proof (induction as arbitrary: bs)
  case Nil
  have "utf8_bytes b \<noteq> []" for b by (simp add: utf8_bytes_def)
  then show ?case using Nil by (cases bs) auto
next
  case (Cons a as)
  have "utf8_bytes b \<noteq> []" for b by (simp add: utf8_bytes_def)
  then obtain b cs where b: "bs = b # cs" using Cons.prems(3) by (cases bs) auto
  have "(a, concat (map utf8_bytes as)) = utf8_first (concat (map utf8_bytes (a # as)))"
    using Cons.prems(1) by (simp add: utf8_first_bytes)
  also have "\<dots> = utf8_first (concat (map utf8_bytes bs))" by (simp only: Cons.prems(3))
  also have "\<dots> = (b, concat (map utf8_bytes cs))" using Cons.prems(2) by (simp add: b utf8_first_bytes)
  finally show ?case using Cons.IH [of cs] Cons.prems(1,2) by (simp add: b)
qed

lemma encode_utf8_inject:
  assumes "well_formed s" "well_formed t" "encode_utf8 s = encode_utf8 t"
  shows "s = t"
proof -
  let ?p = "\<lambda>s. concat (map utf8_bytes (code_points s))"
  have e: "encode_utf8 s = map of_nat (?p s)" if "well_formed s" for s
  proof -
    have "map (utf8_bytes \<circ> scalar_value) (code_points s) = map utf8_bytes (code_points s)"
      using code_points_scalar [OF that] by (intro map_cong) auto
    then show ?thesis by (simp only: encode_utf8_def)
  qed
  have small: "b < 256" if "well_formed s" "b \<in> set (?p s)" for s b
    using that(2) code_points_scalar [OF that(1)] utf8_bytes_small by auto
  have inj: "a = b" if "a < 256" "b < 256" "(of_nat a :: 8 word) = of_nat b" for a b
  proof -
    have "unat (of_nat n :: 8 word) = n" if "n < 256" for n using that by (simp add: unat_of_nat take_bit_eq_mod)
    then show ?thesis using that by metis
  qed
  have "inj_on (of_nat :: nat \<Rightarrow> 8 word) (set (?p s) \<union> set (?p t))"
  proof (rule inj_onI)
    fix a b assume m: "a \<in> set (?p s) \<union> set (?p t)" "b \<in> set (?p s) \<union> set (?p t)" "(of_nat a :: 8 word) = of_nat b"
    have "x < 256" if "x \<in> set (?p s) \<union> set (?p t)" for x
      using that by (rule UnE) (erule small [OF assms(1)] small [OF assms(2)])+
    then show "a = b" using inj m by blast
  qed
  moreover have "map (of_nat :: nat \<Rightarrow> 8 word) (?p s) = map of_nat (?p t)"
    by (simp only: e [OF assms(1), symmetric] e [OF assms(2), symmetric] assms(3))
  ultimately have pe: "?p s = ?p t" by (rule map_inj_on [rotated])
  have sc: "\<forall>a \<in> set (code_points u). a < 0x110000" if "well_formed u" for u
    using code_points_scalar [OF that] by blast
  have "code_points s = code_points t" by (rule concat_utf8_inject [OF sc [OF assms(1)] sc [OF assms(2)] pe])
  then show ?thesis by (rule code_points_inject)
qed

subsection \<open>The bytes of a digest\<close>

definition printable :: "16 word \<Rightarrow> bool" where
  "printable c = (32 \<le> unat c \<and> unat c \<le> 126)"

definition digestPreimage :: "units \<Rightarrow> jv \<Rightarrow> (canon_error, 8 word list) result" where
  "digestPreimage tag core =
     (if tag = [] \<or> \<not> list_all printable tag then Inl Bad_tag
      else rbind (canonicalJson core) (\<lambda>s. Inr (encode_utf8 (tag @ 0 # s))))"

lemma digestPreimage_inject:
  assumes "digestPreimage t c = Inr p" "digestPreimage t' c' = Inr p"
  shows "t = t' \<and> normal c = normal c'"
proof -
  obtain s where s: "serializeInto c = Inr s" "p = encode_utf8 (t @ 0 # s)" "list_all printable t"
    using assms(1) by (auto simp: digestPreimage_def canonicalJson_def rbind_eq_Inr_iff split: if_splits)
  obtain s' where s': "serializeInto c' = Inr s'" "p = encode_utf8 (t' @ 0 # s')" "list_all printable t'"
    using assms(2) by (auto simp: digestPreimage_def canonicalJson_def rbind_eq_Inr_iff split: if_splits)
  have w: "well_formed (t @ 0 # s)" if "list_all printable t" "serializeInto c = Inr s" for t c s
  proof -
    have "well_formed t" using that(1) by (intro plain_well_formed) (auto simp: list_all_iff printable_def)
    then show ?thesis using serialize_well_formed [OF that(2)] by (intro well_formed_append) (auto simp: is_lead_def is_trail_def)
  qed
  have e: "t @ 0 # s = t' @ 0 # s'"
    using encode_utf8_inject [OF w [OF s(3,1)] w [OF s'(3,1)]] s(2) s'(2) by simp
  have nz: "(0 :: 16 word) \<notin> set t" "0 \<notin> set t'" using s(3) s'(3) by (auto simp: list_all_iff printable_def)
  have "t = t' \<and> s = s'"
  proof -
    have "takeWhile (\<lambda>c. c \<noteq> 0) (u @ 0 # v) = u \<and> dropWhile (\<lambda>c. c \<noteq> 0) (u @ 0 # v) = 0 # v" if "(0 :: 16 word) \<notin> set u" for u v
      using that by (auto simp: takeWhile_append dropWhile_append) 
    then show ?thesis using nz e by (metis list.inject)
  qed
  then show ?thesis using canonical_inject [OF s(1)] s'(1) by simp
qed

subsection \<open>The chain binding and the refusal codes\<close>

record chain_binding =
  cb_genesisHash :: units
  cb_specVersion :: int
  cb_contractVersion :: int

definition equalBinding :: "chain_binding \<Rightarrow> chain_binding \<Rightarrow> bool" where
  "equalBinding a b = (cb_genesisHash a = cb_genesisHash b \<and> cb_specVersion a = cb_specVersion b \<and>
     cb_contractVersion a = cb_contractVersion b)"

datatype handoff_code =
    HANDOFF_001 | HANDOFF_002 | HANDOFF_003 | HANDOFF_004 | HANDOFF_005 | HANDOFF_006 | HANDOFF_007 | HANDOFF_008
  | HANDOFF_010 | HANDOFF_011 | HANDOFF_012 | HANDOFF_013

end
