(* ===== verification/Intent_Admission.thy ===== *)
theory Intent_Admission
  imports Handoff_Envelope
begin

text \<open>
  Admission of an inbound request, \<open>intents/src/admission.ts\<close>: the computed bounds, the
  scan for repeated keys, the depth guard, the field readers and the checks in the source's order.
  A refusal is its code and a constructor for its detail. The digest function of the platform is a
  parameter; \<open>None\<close> stands for a call that throws or rejects.
\<close>

subsection \<open>Bounds computed from the format\<close>

definition INTENT_SCHEMA :: units where "INTENT_SCHEMA = lit ''bleavit.intent.v1''"

definition INTENT_ACTIONS :: "string list" where
  "INTENT_ACTIONS = [''prepare_pass_position'', ''prepare_fail_position'', ''close_position'']"

definition decimalDigits :: "nat \<Rightarrow> nat" where
  "decimalDigits bits = length (int_dec (2 ^ bits - 1))"

definition U32_MAX :: int where "U32_MAX = 2 ^ 32 - 1"
definition U64_MAX_int :: int where "U64_MAX_int = 2 ^ 64 - 1"
definition U128_MAX_int :: int where "U128_MAX_int = 2 ^ 128 - 1"
definition H256_HEX_CHARS :: nat where "H256_HEX_CHARS = 2 + 32 * 2"
definition DIGEST_HEX_CHARS :: nat where "DIGEST_HEX_CHARS = 32 * 2"
definition PPM :: int where "PPM = 1000000"
definition PPM_DIGITS :: nat where "PPM_DIGITS = length (int_dec PPM)"
definition STRING_QUOTES :: nat where "STRING_QUOTES = 2"

definition LEAF_CEILINGS :: "(string option \<times> string \<times> nat) list" where
  "LEAF_CEILINGS =
     [(None, ''schema'', length INTENT_SCHEMA + STRING_QUOTES),
      (None, ''digest'', DIGEST_HEX_CHARS + STRING_QUOTES),
      (Some ''binding'', ''genesisHash'', H256_HEX_CHARS + STRING_QUOTES),
      (Some ''binding'', ''specVersion'', decimalDigits 32),
      (Some ''binding'', ''contractVersion'', decimalDigits 32),
      (Some ''action'', ''kind'', Max (set (map length INTENT_ACTIONS)) + STRING_QUOTES),
      (Some ''action'', ''id'', decimalDigits 64 + STRING_QUOTES),
      (Some ''action'', ''collateral'', decimalDigits 128 + STRING_QUOTES),
      (Some ''action'', ''fractionPpm'', PPM_DIGITS),
      (Some ''limits'', ''maxCost'', decimalDigits 128 + STRING_QUOTES),
      (Some ''limits'', ''minProceeds'', decimalDigits 128 + STRING_QUOTES),
      (Some ''limits'', ''deadlineBlock'', decimalDigits 32)]"

definition leafBytes :: "string \<Rightarrow> nat \<Rightarrow> nat" where
  "leafBytes leaf v = length leaf + STRING_QUOTES + 1 + v + 1"

definition FROZEN_CORE_CEILING_BYTES :: nat where
  "FROZEN_CORE_CEILING_BYTES =
     2 + foldl (\<lambda>t (_, leaf, v). t + leafBytes leaf v) 0 LEAF_CEILINGS
       + foldl (\<lambda>t name. t + leafBytes name 2) 0 [''binding'', ''action'', ''limits'']"

definition JSON_ESCAPE_WORST_CASE :: nat where "JSON_ESCAPE_WORST_CASE = 6"
definition ANNOTATION_ALLOWANCE :: nat where "ANNOTATION_ALLOWANCE = 1"

definition MAX_DOCUMENT_BYTES :: nat where
  "MAX_DOCUMENT_BYTES = FROZEN_CORE_CEILING_BYTES * (JSON_ESCAPE_WORST_CASE + ANNOTATION_ALLOWANCE)"

definition FROZEN_CORE_DEPTH :: nat where "FROZEN_CORE_DEPTH = 2"
definition MAX_DEPTH :: nat where "MAX_DEPTH = FROZEN_CORE_DEPTH + 1"

subsection \<open>The request\<close>

datatype intent_kind = Prepare_pass | Prepare_fail | Close_position

record intent_action =
  ia_kind :: intent_kind
  ia_id :: int
  ia_collateral :: "int option"
  ia_fractionPpm :: "int option"

record intent_limits =
  il_maxCost :: "int option"
  il_minProceeds :: "int option"
  il_deadlineBlock :: "int option"

record intent =
  in_binding :: chain_binding
  in_action :: intent_action
  in_limits :: intent_limits
  in_digest :: units

datatype refusal_detail =
    D_not_text | D_too_long | D_not_json | D_not_object | D_too_deep | D_repeated_key | D_schema
  | D_missing string | D_digest_field | D_unencodable | D_digest_mismatch
  | D_binding_keys | D_versions_not_u32 | D_genesis_field | D_other_chain | D_newer_runtime int int
  | D_deadline_field | D_expired int int | D_action_keys | D_limit_keys
  | D_unknown_action | D_id_field | D_fraction | D_close_with_collateral | D_collateral | D_prepare_with_fraction
  | D_amount string | D_limit_missing string | D_limit_forbidden string
  | D_no_window | D_expired_at_refresh int int | D_no_ceiling | D_no_floor | D_no_bound

datatype stop = Refused handoff_code refusal_detail | Digest_not_sha256 | Scan_threw

subsection \<open>Reading fields\<close>

definition CORE_CONTAINERS :: "string list" where "CORE_CONTAINERS = [''binding'', ''action'', ''limits'']"
definition BINDING_KEY_NAMES :: "string list" where "BINDING_KEY_NAMES = [''genesisHash'', ''specVersion'', ''contractVersion'']"
definition ACTION_KEY_NAMES :: "string list" where "ACTION_KEY_NAMES = [''kind'', ''id'', ''collateral'', ''fractionPpm'']"
definition LIMIT_KEY_NAMES :: "string list" where "LIMIT_KEY_NAMES = [''maxCost'', ''minProceeds'', ''deadlineBlock'']"

definition lower_hex_unit :: "16 word \<Rightarrow> bool" where
  "lower_hex_unit c = (48 \<le> unat c \<and> unat c \<le> 57 \<or> 97 \<le> unat c \<and> unat c \<le> 102)"

definition hex_digit_unit :: "16 word \<Rightarrow> bool" where
  "hex_digit_unit c = (lower_hex_unit c \<or> 65 \<le> unat c \<and> unat c \<le> 70)"

definition LOWERCASE_HEX :: "units \<Rightarrow> bool" where
  "LOWERCASE_HEX s = (s \<noteq> [] \<and> list_all lower_hex_unit s)"

definition GENESIS_HASH :: "units \<Rightarrow> bool" where
  "GENESIS_HASH s = (take 2 s = lit ''0x'' \<and> length (drop 2 s) = 64 \<and> list_all hex_digit_unit (drop 2 s))"

definition CANONICAL_DECIMAL :: "units \<Rightarrow> bool" where
  "CANONICAL_DECIMAL s = (s = [48] \<or> s \<noteq> [] \<and> list_all is_digit s \<and> hd s \<noteq> 48)"

definition isPlainObject :: "jv \<Rightarrow> bool" where
  "isPlainObject v = (case v of V_object _ \<Rightarrow> True | V_instance \<Rightarrow> True | _ \<Rightarrow> False)"

definition own :: "jv \<Rightarrow> string \<Rightarrow> jv" where
  "own v key = (case v of V_object ps \<Rightarrow> (case map_of ps (lit key) of Some x \<Rightarrow> x | None \<Rightarrow> V_undefined) | _ \<Rightarrow> V_undefined)"

definition keys_of :: "jv \<Rightarrow> units list" where
  "keys_of v = (case v of V_object ps \<Rightarrow> map fst ps | _ \<Rightarrow> [])"

definition readU128 :: "jv \<Rightarrow> int option" where
  "readU128 raw =
     (case raw of
        V_string s \<Rightarrow> if \<not> CANONICAL_DECIMAL s then None
                     else if int (digits_value s) \<le> U128_MAX_int then Some (int (digits_value s)) else None
      | _ \<Rightarrow> None)"

definition number_integer :: "jv \<Rightarrow> int option" where
  "number_integer v = (case v of V_number (Num r) \<Rightarrow> if of_int \<lfloor>r\<rfloor> = r then Some \<lfloor>r\<rfloor> else None | _ \<Rightarrow> None)"

definition readU32 :: "jv \<Rightarrow> int option" where
  "readU32 raw =
     (case number_integer raw of
        None \<Rightarrow> None
      | Some n \<Rightarrow> if n < 0 then None else if n \<le> U32_MAX then Some n else None)"

subsection \<open>Repeated keys\<close>

text \<open>
  The walk over the text. A literal is skipped to its closing quote, a backslash with the unit
  after it; a key is unescaped by \<open>JSON.parse\<close>, which throws on a malformed literal
  (\<open>None\<close>). Innermost container first.
\<close>

datatype json_level = L_object "units list" | L_array

fun literal_end :: "units \<Rightarrow> units \<times> units" where
  "literal_end [] = ([], [])"
| "literal_end (c # cs) =
     (if c = 92 then (case cs of
          [] \<Rightarrow> ([c], [])
        | d # ds \<Rightarrow> (let (s, rest) = literal_end ds in (c # d # s, rest)))
      else if c = 34 then ([c], cs)
      else (let (s, rest) = literal_end cs in (c # s, rest)))"

lemma literal_end_shorter: "(s, rest) = literal_end cs \<Longrightarrow> length rest < Suc (length cs)"
proof (induction cs arbitrary: s rest rule: literal_end.induct)
  case (2 c cs)
  show ?case
  proof (cases "c = 92")
    case True
    show ?thesis
    proof (cases cs)
      case Nil
      then show ?thesis using 2(3) True by simp
    next
      case (Cons d ds)
      then show ?thesis using 2(1) [OF True Cons] 2(3) True by (cases "literal_end ds") fastforce
    qed
  next
    case False
    then show ?thesis using 2(2) [OF False] 2(3) by (cases "literal_end cs") (fastforce split: if_splits)
  qed
qed simp

definition top_is_object :: "json_level list \<Rightarrow> bool" where
  "top_is_object stack = (case stack of L_object _ # _ \<Rightarrow> True | _ \<Rightarrow> False)"

function duplicate_scan :: "json_level list \<Rightarrow> bool \<Rightarrow> units \<Rightarrow> bool option" where
  "duplicate_scan stack expectKey [] = Some False"
| "duplicate_scan stack expectKey (c # cs) =
     (if c = 34 then
        (let (s, rest) = literal_end cs in
         if expectKey then
           (case stack of
              L_object keys # levels \<Rightarrow>
                (case JSON_parse (34 # s) of
                   Some (V_string key) \<Rightarrow>
                     if key \<in> set keys then Some True else duplicate_scan (L_object (key # keys) # levels) False rest
                 | _ \<Rightarrow> None)
            | _ \<Rightarrow> duplicate_scan stack False rest)
         else duplicate_scan stack expectKey rest)
      else if c = 123 then duplicate_scan (L_object [] # stack) True cs
      else if c = 91 then duplicate_scan (L_array # stack) False cs
      else if c = 125 \<or> c = 93 then duplicate_scan (tl stack) False cs
      else if c = 44 then duplicate_scan stack (top_is_object stack) cs
      else if c = 58 then duplicate_scan stack False cs
      else duplicate_scan stack expectKey cs)"
  by pat_completeness auto
termination
  by (relation "measure (\<lambda>(_, _, cs). length cs)") (simp_all add: literal_end_shorter)

definition hasDuplicateKey :: "units \<Rightarrow> bool option" where
  "hasDuplicateKey text = duplicate_scan [] False text"

subsection \<open>Depth\<close>

fun until_deep :: "nat \<Rightarrow> nat list \<Rightarrow> nat" where
  "until_deep m [] = m"
| "until_deep m (d # ds) = (if max m d > MAX_DEPTH then max m d else until_deep (max m d) ds)"

fun depthOf :: "nat \<Rightarrow> jv \<Rightarrow> nat" where
  "depthOf depth (V_array vs) = (if depth > MAX_DEPTH then depth else until_deep depth (map (depthOf (Suc depth)) vs))"
| "depthOf depth (V_object ps) =
     (if depth > MAX_DEPTH then depth else until_deep depth (map (\<lambda>(k, v). depthOf (Suc depth) v) ps))"
| "depthOf depth _ = depth"

subsection \<open>The scan finds exactly the repeated keys\<close>

fun repeats :: "jv \<Rightarrow> bool" where
  "repeats (V_array vs) = list_ex repeats vs"
| "repeats (V_object ps) = (\<not> distinct (map fst ps) \<or> list_ex (\<lambda>(k, v). repeats v) ps)"
| "repeats v = False"

definition neutral :: "16 word \<Rightarrow> bool" where
  "neutral c = (c \<notin> {34, 123, 91, 125, 93, 44, 58})"

lemma scan_neutral: "list_all neutral w \<Longrightarrow> duplicate_scan stack e (w @ rest) = duplicate_scan stack e rest"
  by (induction w) (auto simp: neutral_def)

lemma lex_number_neutral: "lex_number s = Some (n, rest) \<Longrightarrow> \<exists>w. s = w @ rest \<and> list_all neutral w"
proof -
  have digit: "is_digit c \<Longrightarrow> neutral c" for c by (auto simp: is_digit_def neutral_def)
  have tw: "\<exists>w. xs = w @ dropWhile is_digit xs \<and> list_all neutral w" for xs
    using digit by (intro exI [of _ "takeWhile is_digit xs"]) (auto simp: list_all_iff dest: set_takeWhileD)
  have n: "neutral 48" "neutral 46" "neutral 101" "neutral 69" "neutral 43" "neutral 45" by (simp_all add: neutral_def)
  have cons: "\<exists>w. c # xs = w @ rest \<and> list_all neutral w" if "neutral c" "\<exists>w. xs = w @ rest \<and> list_all neutral w" for c xs rest
  proof -
    note p = that
    obtain w where "xs = w @ rest" "list_all neutral w" using p(2) by blast
    then show ?thesis using p(1) by (intro exI [of _ "c # w"]) simp
  qed
  have i: "\<exists>w. s = w @ s1 \<and> list_all neutral w" if "lex_integer s = Some (i, s1)" for s i s1
  proof -
    have "(\<exists>cs. s = 48 # cs \<and> s1 = cs) \<or> s1 = dropWhile is_digit s"
      using that by (auto simp: lex_integer_def split: list.splits if_splits)
    then show ?thesis using tw [of s] n(1) by (auto intro: exI [of _ "[48]"])
  qed
  have f: "\<exists>w. s = w @ s1 \<and> list_all neutral w" if "lex_fraction s = Some (i, s1)" for s i s1
    using that cons [OF n(2) tw] by (auto simp: lex_fraction_def split: list.splits if_splits)
  have e: "\<exists>w. s = w @ s1 \<and> list_all neutral w" if a: "lex_exponent s = Some (i, s1)" for s i s1
  proof (cases s)
    case Nil
    then show ?thesis using a by (simp add: lex_exponent_def)
  next
    case (Cons c cs)
    show ?thesis
    proof (cases "c = 101 \<or> c = 69")
      case False
      then show ?thesis using a Cons by (auto simp: lex_exponent_def)
    next
      case True
      let ?ds = "case cs of d # ds' \<Rightarrow> if d = 43 \<or> d = 45 then ds' else cs | [] \<Rightarrow> cs"
      have s1: "s1 = dropWhile is_digit ?ds" using a True by (auto simp: Cons lex_exponent_def Let_def split: if_splits)
      have "\<exists>w. cs = w @ s1 \<and> list_all neutral w"
      proof -
        have "?ds = cs \<or> (\<exists>d. neutral d \<and> cs = d # ?ds)" using n(5,6) by (cases cs) auto
        then show ?thesis unfolding s1
        proof
          assume "?ds = cs"
          then show "\<exists>w. cs = w @ dropWhile is_digit ?ds \<and> list_all neutral w" using tw [of cs] by simp
        next
          assume "\<exists>d. neutral d \<and> cs = d # ?ds"
          then obtain d where "neutral d" "cs = d # ?ds" by blast
          with cons [of d, OF _ tw [of ?ds]] show "\<exists>w. cs = w @ dropWhile is_digit ?ds \<and> list_all neutral w" by simp
        qed
      qed
      moreover have "neutral c" using True n by auto
      ultimately show ?thesis using cons by (simp add: Cons)
    qed
  qed
  assume "lex_number s = Some (n, rest)"
  then obtain i s1 fr s2 ex where x: "lex_integer (if s \<noteq> [] \<and> hd s = 45 then tl s else s) = Some (i, s1)"
    "lex_fraction s1 = Some (fr, s2)" "lex_exponent s2 = Some (ex, rest)"
    by (auto simp: lex_number_def Let_def split: option.splits prod.splits)
  obtain u v w where u: "(if s \<noteq> [] \<and> hd s = 45 then tl s else s) = u @ s1" "list_all neutral u"
    "s1 = v @ s2" "list_all neutral v" "s2 = w @ rest" "list_all neutral w"
    using i [OF x(1)] f [OF x(2)] e [OF x(3)] by blast
  show "\<exists>w. s = w @ rest \<and> list_all neutral w"
  proof (cases "s \<noteq> [] \<and> hd s = 45")
    case True
    then have "s = (45 # u @ v @ w) @ rest" using u by (cases s) auto
    then show ?thesis using u n(6) by (intro exI [of _ "45 # u @ v @ w"]) simp
  next
    case False
    then have "s = (u @ v @ w) @ rest" using u by auto
    then show ?thesis using u by (intro exI [of _ "u @ v @ w"]) simp
  qed
qed

lemma lex_word_neutral: "lex_word s = Some (t, rest) \<Longrightarrow> \<exists>w. s = w @ rest \<and> list_all neutral w"
proof -
  assume "lex_word s = Some (t, rest)"
  then obtain k where "s = take k s @ rest" "take k s \<in> {lit ''true'', lit ''false'', lit ''null''}"
    by (auto simp: lex_word_def starts_with_def split: if_splits)
      (metis append_take_drop_id list.size(3,4) numeral_nat)+
  moreover have "list_all neutral (lit ''true'')" "list_all neutral (lit ''false'')" "list_all neutral (lit ''null'')"
    by (simp_all add: lit_def neutral_def)
  ultimately show ?thesis by auto
qed

text \<open>The shapes of a literal, one rule each, so that no proof unfolds the lexer.\<close>

lemma lex_string_shapes:
  "lex_string (34 # cs) = Some ([], cs)"
  "lex_string (92 # 117 # h1 # h2 # h3 # h4 # hs) =
     (case hex4 h1 h2 h3 h4 of None \<Rightarrow> None | Some w \<Rightarrow> map_option (\<lambda>(s, rest). (w # s, rest)) (lex_string hs))"
  "e \<noteq> 117 \<Longrightarrow> lex_string (92 # e # es) =
     (case escaped_unit e of None \<Rightarrow> None | Some w \<Rightarrow> map_option (\<lambda>(s, rest). (w # s, rest)) (lex_string es))"
  by simp_all

lemma literal_end_shapes:
  "literal_end (34 # cs) = ([34], cs)"
  "literal_end (92 # d # ds) = (92 # d # fst (literal_end ds), snd (literal_end ds))"
  "c \<noteq> 34 \<Longrightarrow> c \<noteq> 92 \<Longrightarrow> literal_end (c # cs) = (c # fst (literal_end cs), snd (literal_end cs))"
  by (simp_all add: split_beta)

lemma lex_string_cases:
  assumes "lex_string (c # cs) = Some (k, rest)"
  obtains (close) "c = 34" "k = []" "rest = cs"
  | (hex) h1 h2 h3 h4 hs w j where "c = 92" "cs = 117 # h1 # h2 # h3 # h4 # hs" "hex4 h1 h2 h3 h4 = Some w"
      "lex_string hs = Some (j, rest)" "k = w # j"
  | (escape) e es w j where "c = 92" "cs = e # es" "e \<noteq> 117" "escaped_unit e = Some w" "lex_string es = Some (j, rest)" "k = w # j"
  | (plain) j where "c \<noteq> 34" "c \<noteq> 92" "32 \<le> unat c" "lex_string cs = Some (j, rest)" "k = c # j"
proof -
  consider "c = 34" | "c = 92" "cs = []" | e es where "c = 92" "cs = e # es" | "c \<noteq> 34" "c \<noteq> 92" by (cases cs) auto
  then show thesis
  proof cases
    case 1
    then show thesis using assms close by (simp add: lex_string_shapes del: lex_string.simps)
  next
    case 2
    then show thesis using assms by simp
  next
    case (3 e es)
    show thesis
    proof (cases "e = 117")
      case True
      have "\<exists>h1 h2 h3 h4 hs. es = h1 # h2 # h3 # h4 # hs"
      proof (rule ccontr)
        assume "\<not> ?thesis"
        then have "(case es of h1 # h2 # h3 # h4 # hs \<Rightarrow> x h1 h2 h3 h4 hs | _ \<Rightarrow> None) = (None :: (units \<times> units) option)" for x
          by (auto split: list.splits)
        then show False using assms by (simp add: 3 True)
      qed
      then obtain h1 h2 h3 h4 hs where es: "es = h1 # h2 # h3 # h4 # hs" by blast
      obtain w where w: "hex4 h1 h2 h3 h4 = Some w"
        using assms by (cases "hex4 h1 h2 h3 h4") (simp_all add: 3 True es lex_string_shapes del: lex_string.simps)
      with assms obtain j where "lex_string hs = Some (j, rest)" "k = w # j"
        by (auto simp: 3 True es lex_string_shapes simp del: lex_string.simps)
      with 3 True es w show thesis by (intro hex) simp_all
    next
      case False
      obtain w where w: "escaped_unit e = Some w"
        using assms False by (cases "escaped_unit e") (simp_all add: 3 lex_string_shapes del: lex_string.simps)
      with assms False obtain j where "lex_string es = Some (j, rest)" "k = w # j"
        by (auto simp: 3 lex_string_shapes simp del: lex_string.simps)
      with 3 False w show thesis by (intro escape) simp_all
    qed
  next
    case 4
    then have "32 \<le> unat c" using assms by (cases "unat c < 32") auto
    moreover from this 4 assms obtain j where "lex_string cs = Some (j, rest)" "k = c # j"
      by (auto simp: lex_string_plain simp del: lex_string.simps)
    ultimately show thesis using 4 by (intro plain) simp_all
  qed
qed

lemma hex4_units: "hex4 a b c d = Some w \<Longrightarrow> h \<in> {a, b, c, d} \<Longrightarrow> h \<noteq> 34 \<and> h \<noteq> 92"
  by (auto simp: hex4_def hex_value_def Let_def split: option.splits)

lemma literal_end_string:
  "lex_string cs = Some (k, rest) \<Longrightarrow> \<exists>s. literal_end cs = (s, rest) \<and> lex_string s = Some (k, [])"
proof (induction "length cs" arbitrary: cs k rest rule: less_induct)
  case less
  show ?case
  proof (cases cs)
    case Nil
    then show ?thesis using less(2) by simp
  next
    case (Cons c ds)
    from less(2) [unfolded Cons] show ?thesis
    proof (cases rule: lex_string_cases)
      case close
      then show ?thesis by (simp add: Cons literal_end_shapes lex_string_shapes del: literal_end.simps lex_string.simps)
    next
      case (hex h1 h2 h3 h4 hs w j)
      from less(1) [OF _ hex(4)] obtain s where s: "literal_end hs = (s, rest)" "lex_string s = Some (j, [])" by (auto simp: Cons hex(2))
      have "h \<noteq> 34 \<and> h \<noteq> 92" if "h \<in> {h1, h2, h3, h4}" for h by (rule hex4_units [OF hex(3) that])
      then show ?thesis using s hex(3)
        by (simp add: Cons hex(1,2,5) literal_end_shapes lex_string_shapes del: literal_end.simps lex_string.simps)
    next
      case (escape e es w j)
      from less(1) [OF _ escape(5)] obtain s where "literal_end es = (s, rest)" "lex_string s = Some (j, [])" by (auto simp: Cons escape(2))
      then show ?thesis using escape(3,4)
        by (simp add: Cons escape(1,2,6) literal_end_shapes lex_string_shapes del: literal_end.simps lex_string.simps)
    next
      case (plain j)
      from less(1) [OF _ plain(4)] obtain s where "literal_end ds = (s, rest)" "lex_string s = Some (j, [])" by (auto simp: Cons)
      then show ?thesis using plain(1-3)
        by (simp add: Cons plain(5) literal_end_shapes lex_string_plain del: literal_end.simps lex_string.simps)
    qed
  qed
qed

lemma JSON_parse_literal:
  assumes "lex_string s = Some (k, [])"
  shows "JSON_parse (34 # s) = Some (V_string k)"
proof -
  have "lex (34 # s) = Some [T_string k]" using assms by (simp add: is_space_def)
  moreover have "parse_tokens [T_string k] = Some (V_string k)" by (simp add: parse_tokens_iff)
  ultimately show ?thesis by (simp add: JSON_parse_def JSON_tree_def del: lex.simps)
qed

fun token_scan :: "json_level list \<Rightarrow> bool \<Rightarrow> token list \<Rightarrow> bool" where
  "token_scan stack e [] = False"
| "token_scan stack e (t # ts) =
     (case t of
        T_string k \<Rightarrow>
          if e then (case stack of
              L_object keys # levels \<Rightarrow> k \<in> set keys \<or> token_scan (L_object (k # keys) # levels) False ts
            | _ \<Rightarrow> token_scan stack False ts)
          else token_scan stack e ts
      | T_lbrace \<Rightarrow> token_scan (L_object [] # stack) True ts
      | T_lbracket \<Rightarrow> token_scan (L_array # stack) False ts
      | T_rbrace \<Rightarrow> token_scan (tl stack) False ts
      | T_rbracket \<Rightarrow> token_scan (tl stack) False ts
      | T_comma \<Rightarrow> token_scan stack (top_is_object stack) ts
      | T_colon \<Rightarrow> token_scan stack False ts
      | _ \<Rightarrow> token_scan stack e ts)"

lemma scan_tokens: "lex s = Some ts \<Longrightarrow> duplicate_scan stack e s = Some (token_scan stack e ts)"
proof (induction s arbitrary: ts stack e rule: lex.induct)
  case (2 c cs)
  consider (space) "is_space c" | (str) "\<not> is_space c" "c = 34" | (num) "\<not> is_space c" "c \<noteq> 34" "c = 45 \<or> is_digit c"
    | (other) "\<not> is_space c" "c \<noteq> 34" "\<not> (c = 45 \<or> is_digit c)" by blast
  then show ?case
  proof cases
    case space
    then have "neutral c" by (auto simp: is_space_def neutral_def)
    then show ?thesis using scan_neutral [of "[c]" stack e cs] 2(1) [OF space] 2(6) space by simp
  next
    case str
    obtain k rest us where k: "lex_string cs = Some (k, rest)" "lex rest = Some us" "ts = T_string k # us"
      using 2(6) str by (auto split: option.splits)
    obtain s where s: "literal_end cs = (s, rest)" "lex_string s = Some (k, [])" using literal_end_string [OF k(1)] by blast
    have ih: "duplicate_scan stack e rest = Some (token_scan stack e us)" for stack e
      using 2(2) [OF str k(1) refl k(2)] .
    show ?thesis
      using str(2) by (simp add: s(1) JSON_parse_literal [OF s(2)] ih k(3) split: list.splits json_level.splits)
  next
    case num
    obtain n rest us where k: "lex_number (c # cs) = Some (n, rest)" "lex rest = Some us" "ts = T_number n # us"
      using 2(6) num by (auto split: option.splits)
    have ih: "duplicate_scan stack e rest = Some (token_scan stack e us)" for stack e
      using 2(3) [OF num k(1) refl k(2)] .
    show ?thesis using lex_number_neutral [OF k(1)] scan_neutral ih by (auto simp: k(3) simp del: duplicate_scan.simps)
  next
    case other
    show ?thesis
    proof (cases "punctuation c")
      case (Some t)
      obtain us where u: "lex cs = Some us" "ts = t # us" using 2(6) other Some by auto
      show ?thesis using Some 2(5) [OF other Some u(1)] by (auto simp: u(2) punctuation_def split: if_splits)
    next
      case None
      obtain t rest us where k: "lex_word (c # cs) = Some (t, rest)" "lex rest = Some us" "ts = t # us"
        using 2(6) other None by (auto split: option.splits)
      have ih: "duplicate_scan stack e rest = Some (token_scan stack e us)" for stack e
        using 2(4) [OF other None k(1) refl k(2)] .
      have "t \<in> {T_true, T_false, T_null}" using k(1) by (auto simp: lex_word_def split: if_splits)
      then show ?thesis using lex_word_neutral [OF k(1)] scan_neutral ih by (auto simp: k(3) simp del: duplicate_scan.simps)
    qed
  qed
qed simp

lemma token_scan_value:
  "is_json v \<Longrightarrow> token_scan stack False (tokens_of v @ r) = (repeats v \<or> token_scan stack False r)"
proof (induction v arbitrary: stack r rule: tokens_of.induct)
  case (5 vs)
  have el: "token_scan stack False (tokens_of x @ r) = (repeats x \<or> token_scan stack False r)" if "x \<in> set vs" for x stack r
    using 5 that by (auto simp: list_all_iff)
  have "token_scan (L_array # stack) False (separated (map tokens_of xs) @ T_rbracket # r)
      = (list_ex repeats xs \<or> token_scan stack False r)" if "set xs \<subseteq> set vs" for xs
    using that
  proof (induction xs)
    case (Cons x xs)
    then show ?case by (cases xs) (auto simp: el top_is_object_def)
  qed simp
  then show ?case by simp
next
  case (6 ps)
  have el: "token_scan stack False (tokens_of x @ r) = (repeats x \<or> token_scan stack False r)" if "(k, x) \<in> set ps" for k x stack r
    using 6 that by (fastforce simp: list_all_iff)
  have "token_scan (L_object K # stack) True (separated (map member_tokens xs) @ T_rbrace # r)
      = (\<not> distinct (map fst xs) \<or> set (map fst xs) \<inter> set K \<noteq> {} \<or> list_ex (\<lambda>(k, v). repeats v) xs \<or> token_scan stack False r)"
    if "set xs \<subseteq> set ps" for xs K
    using that
  proof (induction xs arbitrary: K)
    case (Cons x xs)
    obtain k v where x: "x = (k, v)" by (cases x)
    show ?case
    proof (cases xs)
      case Nil
      then show ?thesis using Cons.prems el [of k v] by (auto simp: x)
    next
      case ys: (Cons y ys)
      show ?thesis using Cons.prems el [of k v] Cons.IH [of "k # K"] by (auto simp: x ys top_is_object_def)
    qed
  qed simp
  from this [of ps "[]"] show ?case by simp
qed auto

lemma hasDuplicateKey_tree: "JSON_tree s = Some v \<Longrightarrow> hasDuplicateKey s = Some (repeats v)"
  using scan_tokens [of s _ "[]" False] token_scan_value [of v "[]" "[]"]
  by (auto simp: JSON_tree_def hasDuplicateKey_def parse_tokens_iff split: option.splits)

subsection \<open>The checks, in order\<close>

abbreviation bad :: "handoff_code \<Rightarrow> refusal_detail \<Rightarrow> (stop, 'a) result" where
  "bad code detail \<equiv> Inl (Refused code detail)"

definition admit_document :: "jv \<Rightarrow> (stop, jv) result" where
  "admit_document document =
     (case document of
        V_string s \<Rightarrow>
          if length s > MAX_DOCUMENT_BYTES then bad HANDOFF_002 D_too_long
          else if length (encode_utf8 s) > MAX_DOCUMENT_BYTES then bad HANDOFF_002 D_too_long
          else (case JSON_parse s of
              None \<Rightarrow> bad HANDOFF_002 D_not_json
            | Some parsed \<Rightarrow>
                if \<not> isPlainObject parsed then bad HANDOFF_002 D_not_object
                else if depthOf 0 parsed > MAX_DEPTH then bad HANDOFF_002 D_too_deep
                else (case hasDuplicateKey s of
                    None \<Rightarrow> Inl Scan_threw
                  | Some True \<Rightarrow> bad HANDOFF_002 D_repeated_key
                  | Some False \<Rightarrow> Inr parsed))
      | _ \<Rightarrow> bad HANDOFF_002 D_not_text)"

definition digest_shape :: "units \<Rightarrow> bool" where
  "digest_shape s = (length s = DIGEST_HEX_CHARS \<and> LOWERCASE_HEX s)"

definition digest_core :: "jv \<Rightarrow> jv \<Rightarrow> jv \<Rightarrow> jv" where
  "digest_core binding action limits =
     V_object [(lit ''schema'', V_string INTENT_SCHEMA), (lit ''binding'', binding), (lit ''action'', action), (lit ''limits'', limits)]"

definition admit_digest :: "(8 word list \<Rightarrow> units option) \<Rightarrow> jv \<Rightarrow> (stop, units) result" where
  "admit_digest digest parsed =
     (if own parsed ''schema'' \<noteq> V_string INTENT_SCHEMA then bad HANDOFF_001 D_schema
      else (case find (\<lambda>c. \<not> isPlainObject (own parsed c)) CORE_CONTAINERS of
          Some c \<Rightarrow> bad HANDOFF_002 (D_missing c)
        | None \<Rightarrow>
            (case own parsed ''digest'' of
               V_string claimed \<Rightarrow>
                 if \<not> digest_shape claimed then bad HANDOFF_002 D_digest_field
                 else (case digestPreimage INTENT_SCHEMA
                          (digest_core (own parsed ''binding'') (own parsed ''action'') (own parsed ''limits'')) of
                     Inl _ \<Rightarrow> bad HANDOFF_002 D_unencodable
                   | Inr preimage \<Rightarrow> (case digest preimage of
                         None \<Rightarrow> bad HANDOFF_002 D_unencodable
                       | Some expected \<Rightarrow>
                           if \<not> digest_shape expected then Inl Digest_not_sha256
                           else if claimed \<noteq> expected then bad HANDOFF_010 D_digest_mismatch
                           else Inr claimed))
             | _ \<Rightarrow> bad HANDOFF_002 D_digest_field)))"

definition closed :: "jv \<Rightarrow> string list \<Rightarrow> bool" where
  "closed v names = (\<forall>k \<in> set (keys_of v). k \<in> set (map lit names))"

definition admit_binding :: "chain_binding \<Rightarrow> jv \<Rightarrow> (stop, chain_binding) result" where
  "admit_binding live binding =
     (if \<not> closed binding BINDING_KEY_NAMES then bad HANDOFF_004 D_binding_keys
      else (case (readU32 (own binding ''specVersion''), readU32 (own binding ''contractVersion'')) of
          (Some specVersion, Some contractVersion) \<Rightarrow>
            (case own binding ''genesisHash'' of
               V_string genesisHash \<Rightarrow>
                 if \<not> GENESIS_HASH genesisHash then bad HANDOFF_002 D_genesis_field
                 else if genesisHash \<noteq> cb_genesisHash live \<or> contractVersion \<noteq> cb_contractVersion live
                      then bad HANDOFF_005 D_other_chain
                 else if specVersion > cb_specVersion live
                      then bad HANDOFF_006 (D_newer_runtime specVersion (cb_specVersion live))
                 else Inr \<lparr> cb_genesisHash = cb_genesisHash live, cb_specVersion = specVersion,
                            cb_contractVersion = cb_contractVersion live \<rparr>
             | _ \<Rightarrow> bad HANDOFF_002 D_genesis_field)
        | _ \<Rightarrow> bad HANDOFF_002 D_versions_not_u32))"

definition admit_deadline :: "int \<Rightarrow> jv \<Rightarrow> (stop, int option) result" where
  "admit_deadline currentBlock limits =
     (if own limits ''deadlineBlock'' = V_undefined then Inr None
      else (case readU32 (own limits ''deadlineBlock'') of
          None \<Rightarrow> bad HANDOFF_007 D_deadline_field
        | Some deadline \<Rightarrow>
            if deadline = 0 then bad HANDOFF_007 D_deadline_field
            else if deadline \<le> currentBlock then bad HANDOFF_008 (D_expired deadline currentBlock)
            else Inr (Some deadline)))"

definition admit_shape :: "jv \<Rightarrow> jv \<Rightarrow> (stop, unit) result" where
  "admit_shape action limits =
     (if \<not> closed action ACTION_KEY_NAMES then bad HANDOFF_004 D_action_keys
      else if \<not> closed limits LIMIT_KEY_NAMES then bad HANDOFF_004 D_limit_keys
      else Inr ())"

fun kind_name :: "intent_kind \<Rightarrow> string" where
  "kind_name Prepare_pass = ''prepare_pass_position''"
| "kind_name Prepare_fail = ''prepare_fail_position''"
| "kind_name Close_position = ''close_position''"

definition kind_of :: "jv \<Rightarrow> intent_kind option" where
  "kind_of v = (case v of
       V_string s \<Rightarrow> find (\<lambda>k. s = lit (kind_name k)) [Prepare_pass, Prepare_fail, Close_position]
     | _ \<Rightarrow> None)"

definition readU64 :: "jv \<Rightarrow> int option" where
  "readU64 raw =
     (case raw of
        V_string s \<Rightarrow> if CANONICAL_DECIMAL s \<and> int (digits_value s) \<le> U64_MAX_int then Some (int (digits_value s)) else None
      | _ \<Rightarrow> None)"

definition admit_size :: "intent_kind \<Rightarrow> jv \<Rightarrow> (stop, int option \<times> int option) result" where
  "admit_size kind action =
     (if kind = Close_position then
        (case number_integer (own action ''fractionPpm'') of
           None \<Rightarrow> bad HANDOFF_007 D_fraction
         | Some f \<Rightarrow>
             if f \<le> 0 \<or> f > PPM then bad HANDOFF_007 D_fraction
             else if own action ''collateral'' \<noteq> V_undefined then bad HANDOFF_004 D_close_with_collateral
             else Inr (None, Some f))
      else
        (case readU128 (own action ''collateral'') of
           None \<Rightarrow> bad HANDOFF_007 D_collateral
         | Some c \<Rightarrow>
             if c = 0 then bad HANDOFF_007 D_collateral
             else if own action ''fractionPpm'' \<noteq> V_undefined then bad HANDOFF_004 D_prepare_with_fraction
             else Inr (Some c, None)))"

definition admit_action :: "jv \<Rightarrow> (stop, intent_action) result" where
  "admit_action action =
     (case kind_of (own action ''kind'') of
        None \<Rightarrow> bad HANDOFF_003 D_unknown_action
      | Some kind \<Rightarrow>
          (case readU64 (own action ''id'') of
             None \<Rightarrow> bad HANDOFF_002 D_id_field
           | Some i \<Rightarrow> rbind (admit_size kind action) (\<lambda>(collateral, fraction).
               Inr \<lparr> ia_kind = kind, ia_id = i, ia_collateral = collateral, ia_fractionPpm = fraction \<rparr>)))"

definition admit_amount :: "jv \<Rightarrow> string \<Rightarrow> (stop, int option) result" where
  "admit_amount limits key =
     (if own limits key = V_undefined then Inr None
      else (case readU128 (own limits key) of
          None \<Rightarrow> bad HANDOFF_007 (D_amount key)
        | Some a \<Rightarrow> Inr (Some a)))"

definition admit_limits :: "intent_kind \<Rightarrow> jv \<Rightarrow> int option \<Rightarrow> (stop, intent_limits) result" where
  "admit_limits kind limits deadline =
     rbind (admit_amount limits ''maxCost'') (\<lambda>maxCost.
     rbind (admit_amount limits ''minProceeds'') (\<lambda>minProceeds.
     if kind = Close_position then
       (if minProceeds = None then bad HANDOFF_007 (D_limit_missing ''minProceeds'')
        else if maxCost \<noteq> None then bad HANDOFF_007 (D_limit_forbidden ''maxCost'')
        else Inr \<lparr> il_maxCost = maxCost, il_minProceeds = minProceeds, il_deadlineBlock = deadline \<rparr>)
     else
       (if maxCost = None then bad HANDOFF_007 (D_limit_missing ''maxCost'')
        else if minProceeds \<noteq> None then bad HANDOFF_007 (D_limit_forbidden ''minProceeds'')
        else Inr \<lparr> il_maxCost = maxCost, il_minProceeds = minProceeds, il_deadlineBlock = deadline \<rparr>)))"

definition admitIntent :: "(8 word list \<Rightarrow> units option) \<Rightarrow> chain_binding \<Rightarrow> int \<Rightarrow> jv \<Rightarrow> (stop, intent) result" where
  "admitIntent digest live currentBlock document =
     rbind (admit_document document) (\<lambda>parsed.
     rbind (admit_digest digest parsed) (\<lambda>claimed.
     let action = own parsed ''action''; limitsRaw = own parsed ''limits'' in
     rbind (admit_binding live (own parsed ''binding'')) (\<lambda>binding.
     rbind (admit_deadline currentBlock limitsRaw) (\<lambda>deadline.
     rbind (admit_shape action limitsRaw) (\<lambda>_.
     rbind (admit_action action) (\<lambda>act.
     rbind (admit_limits (ia_kind act) limitsRaw deadline) (\<lambda>limits.
     Inr \<lparr> in_binding = binding, in_action = act, in_limits = limits, in_digest = claimed \<rparr>)))))))"

subsection \<open>What an admitted request satisfies\<close>

definition u128 :: "int \<Rightarrow> bool" where "u128 n = (0 \<le> n \<and> n \<le> U128_MAX_int)"

text \<open>A request of the format: sized by its kind, bounded in the direction of its trade, in range.\<close>

definition request_ok :: "intent_action \<Rightarrow> intent_limits \<Rightarrow> bool" where
  "request_ok a l \<longleftrightarrow>
     0 \<le> ia_id a \<and> ia_id a \<le> U64_MAX_int \<and>
     (if ia_kind a = Close_position
      then (\<exists>f m. ia_fractionPpm a = Some f \<and> 0 < f \<and> f \<le> PPM \<and> ia_collateral a = None \<and>
              il_minProceeds l = Some m \<and> u128 m \<and> il_maxCost l = None)
      else (\<exists>c m. ia_collateral a = Some c \<and> 0 < c \<and> u128 c \<and> ia_fractionPpm a = None \<and>
              il_maxCost l = Some m \<and> u128 m \<and> il_minProceeds l = None)) \<and>
     (\<forall>d. il_deadlineBlock l = Some d \<longrightarrow> 0 < d \<and> d \<le> U32_MAX)"

lemma repeats_iff: "repeats v \<longleftrightarrow> \<not> distinct_keys v"
  by (induction v rule: distinct_keys.induct) (fastforce simp: list_ex_iff list_all_iff)+

lemma admit_document_Inr:
  "admit_document document = Inr parsed \<longleftrightarrow>
     (\<exists>s. document = V_string s \<and> length s \<le> MAX_DOCUMENT_BYTES \<and> length (encode_utf8 s) \<le> MAX_DOCUMENT_BYTES \<and>
        JSON_tree s = Some parsed \<and> distinct_keys parsed \<and> isPlainObject parsed \<and> depthOf 0 parsed \<le> MAX_DEPTH)"
proof
  assume a: "admit_document document = Inr parsed"
  then obtain s where s: "document = V_string s" by (auto simp: admit_document_def split: jv.splits)
  obtain tree where t: "JSON_tree s = Some tree" "keep_last tree = parsed"
    using a by (auto simp: admit_document_def s JSON_parse_def split: if_splits option.splits bool.splits)
  then have d: "distinct_keys tree" using a hasDuplicateKey_tree [OF t(1)]
    by (auto simp: admit_document_def s repeats_iff split: if_splits option.splits bool.splits)
  then have "tree = parsed" using t(2) keep_last_id by simp
  then show "\<exists>s. document = V_string s \<and> length s \<le> MAX_DOCUMENT_BYTES \<and> length (encode_utf8 s) \<le> MAX_DOCUMENT_BYTES \<and>
        JSON_tree s = Some parsed \<and> distinct_keys parsed \<and> isPlainObject parsed \<and> depthOf 0 parsed \<le> MAX_DEPTH"
    using a s t d by (auto simp: admit_document_def split: if_splits option.splits bool.splits)
next
  assume "\<exists>s. document = V_string s \<and> length s \<le> MAX_DOCUMENT_BYTES \<and> length (encode_utf8 s) \<le> MAX_DOCUMENT_BYTES \<and>
        JSON_tree s = Some parsed \<and> distinct_keys parsed \<and> isPlainObject parsed \<and> depthOf 0 parsed \<le> MAX_DEPTH"
  then show "admit_document document = Inr parsed"
    using hasDuplicateKey_tree by (auto simp: admit_document_def JSON_parse_def keep_last_id repeats_iff not_less)
qed

lemma admit_digest_Inr:
  "admit_digest digest parsed = Inr claimed \<longleftrightarrow>
     own parsed ''schema'' = V_string INTENT_SCHEMA \<and> (\<forall>c \<in> set CORE_CONTAINERS. isPlainObject (own parsed c)) \<and>
     own parsed ''digest'' = V_string claimed \<and> digest_shape claimed \<and>
     (\<exists>p. digestPreimage INTENT_SCHEMA (digest_core (own parsed ''binding'') (own parsed ''action'') (own parsed ''limits'')) = Inr p \<and>
        digest p = Some claimed)"
proof -
  have f: "find P xs = None \<longleftrightarrow> (\<forall>x \<in> set xs. \<not> P x)" for P and xs :: "string list" by (auto simp: find_None_iff)
  show ?thesis unfolding admit_digest_def using f [of "\<lambda>c. \<not> isPlainObject (own parsed c)" CORE_CONTAINERS]
    by (auto split: if_splits option.splits jv.splits sum.splits)
qed

lemma admit_binding_Inr:
  "admit_binding live binding = Inr b \<longleftrightarrow>
     closed binding BINDING_KEY_NAMES \<and> readU32 (own binding ''specVersion'') = Some (cb_specVersion b) \<and>
     readU32 (own binding ''contractVersion'') = Some (cb_contractVersion b) \<and>
     own binding ''genesisHash'' = V_string (cb_genesisHash b) \<and> GENESIS_HASH (cb_genesisHash b) \<and>
     cb_genesisHash b = cb_genesisHash live \<and> cb_contractVersion b = cb_contractVersion live \<and> cb_specVersion b \<le> cb_specVersion live"
  by (cases b) (auto simp: admit_binding_def split: if_splits option.splits jv.splits prod.splits)

lemma admit_deadline_Inr:
  "admit_deadline currentBlock limits = Inr d \<longleftrightarrow>
     (case d of None \<Rightarrow> own limits ''deadlineBlock'' = V_undefined
      | Some n \<Rightarrow> readU32 (own limits ''deadlineBlock'') = Some n \<and> n \<noteq> 0 \<and> currentBlock < n)"
proof -
  have "readU32 V_undefined = None" by (simp add: readU32_def number_integer_def)
  then show ?thesis by (auto simp: admit_deadline_def split: if_splits option.splits)
qed

lemma admit_shape_Inr: "admit_shape a l = Inr u \<longleftrightarrow> closed a ACTION_KEY_NAMES \<and> closed l LIMIT_KEY_NAMES"
  by (simp add: admit_shape_def)

lemma admit_amount_Inr:
  "admit_amount limits key = Inr m \<longleftrightarrow>
     (case m of None \<Rightarrow> own limits key = V_undefined | Some n \<Rightarrow> readU128 (own limits key) = Some n)"
  by (auto simp: admit_amount_def readU128_def split: if_splits option.splits jv.splits)

lemma digits_value_nonneg: "0 \<le> int (digits_value s)" by simp

lemma readU128_range: "readU128 v = Some n \<Longrightarrow> u128 n"
  by (auto simp: readU128_def u128_def split: jv.splits if_splits)

lemma readU32_range: "readU32 v = Some n \<Longrightarrow> 0 \<le> n \<and> n \<le> U32_MAX"
  by (auto simp: readU32_def split: option.splits if_splits)

lemma readU64_range: "readU64 v = Some n \<Longrightarrow> 0 \<le> n \<and> n \<le> U64_MAX_int"
  by (auto simp: readU64_def split: jv.splits if_splits)

lemma kind_of_name: "kind_of v = Some k \<longleftrightarrow> v = V_string (lit (kind_name k))"
proof -
  have d: "lit (kind_name Prepare_pass) \<noteq> lit (kind_name Prepare_fail)" "lit (kind_name Prepare_pass) \<noteq> lit (kind_name Close_position)"
    "lit (kind_name Prepare_fail) \<noteq> lit (kind_name Close_position)" by code_simp+
  show ?thesis using d by (cases k; cases v) (auto simp: kind_of_def simp del: kind_name.simps split: if_splits)
qed

lemma admit_size_Inr:
  "admit_size kind action = Inr (c, f) \<longleftrightarrow>
     (if kind = Close_position
      then (\<exists>n. number_integer (own action ''fractionPpm'') = Some n \<and> 0 < n \<and> n \<le> PPM \<and> own action ''collateral'' = V_undefined \<and>
              c = None \<and> f = Some n)
      else (\<exists>n. readU128 (own action ''collateral'') = Some n \<and> n \<noteq> 0 \<and> own action ''fractionPpm'' = V_undefined \<and>
              c = Some n \<and> f = None))"
  by (auto simp: admit_size_def split: option.splits if_splits)

lemma admit_action_Inr:
  "admit_action action = Inr a \<longleftrightarrow>
     own action ''kind'' = V_string (lit (kind_name (ia_kind a))) \<and> readU64 (own action ''id'') = Some (ia_id a) \<and>
     admit_size (ia_kind a) action = Inr (ia_collateral a, ia_fractionPpm a)"
proof -
  have "admit_action action = Inr a \<longleftrightarrow>
     (\<exists>k i. kind_of (own action ''kind'') = Some k \<and> readU64 (own action ''id'') = Some i \<and>
        (\<exists>c f. admit_size k action = Inr (c, f) \<and> a = \<lparr> ia_kind = k, ia_id = i, ia_collateral = c, ia_fractionPpm = f \<rparr>))"
    by (auto simp: admit_action_def rbind_eq_Inr_iff split: option.splits)
  also have "\<dots> \<longleftrightarrow> kind_of (own action ''kind'') = Some (ia_kind a) \<and> readU64 (own action ''id'') = Some (ia_id a) \<and>
     admit_size (ia_kind a) action = Inr (ia_collateral a, ia_fractionPpm a)"
    by (cases a) auto
  finally show ?thesis by (simp only: kind_of_name)
qed

lemma admit_limits_Inr:
  "admit_limits kind limits deadline = Inr l \<longleftrightarrow>
     admit_amount limits ''maxCost'' = Inr (il_maxCost l) \<and> admit_amount limits ''minProceeds'' = Inr (il_minProceeds l) \<and>
     il_deadlineBlock l = deadline \<and>
     (if kind = Close_position then il_minProceeds l \<noteq> None \<and> il_maxCost l = None
      else il_maxCost l \<noteq> None \<and> il_minProceeds l = None)"
  by (cases l) (auto simp: admit_limits_def rbind_eq_Inr_iff split: if_splits)

text \<open>What the document must hold for the request it is read as.\<close>

definition states :: "jv \<Rightarrow> intent \<Rightarrow> bool" where
  "states parsed i \<longleftrightarrow>
     own parsed ''schema'' = V_string INTENT_SCHEMA \<and> (\<forall>c \<in> set CORE_CONTAINERS. isPlainObject (own parsed c)) \<and>
     own parsed ''digest'' = V_string (in_digest i) \<and>
     closed (own parsed ''binding'') BINDING_KEY_NAMES \<and> closed (own parsed ''action'') ACTION_KEY_NAMES \<and>
     closed (own parsed ''limits'') LIMIT_KEY_NAMES \<and>
     readU32 (own (own parsed ''binding'') ''specVersion'') = Some (cb_specVersion (in_binding i)) \<and>
     readU32 (own (own parsed ''binding'') ''contractVersion'') = Some (cb_contractVersion (in_binding i)) \<and>
     own (own parsed ''binding'') ''genesisHash'' = V_string (cb_genesisHash (in_binding i)) \<and>
     admit_action (own parsed ''action'') = Inr (in_action i) \<and>
     admit_amount (own parsed ''limits'') ''maxCost'' = Inr (il_maxCost (in_limits i)) \<and>
     admit_amount (own parsed ''limits'') ''minProceeds'' = Inr (il_minProceeds (in_limits i)) \<and>
     (case il_deadlineBlock (in_limits i) of
        None \<Rightarrow> own (own parsed ''limits'') ''deadlineBlock'' = V_undefined
      | Some n \<Rightarrow> readU32 (own (own parsed ''limits'') ''deadlineBlock'') = Some n)"

definition core_of :: "jv \<Rightarrow> jv" where
  "core_of parsed = digest_core (own parsed ''binding'') (own parsed ''action'') (own parsed ''limits'')"

definition binds_live :: "chain_binding \<Rightarrow> chain_binding \<Rightarrow> bool" where
  "binds_live live b \<longleftrightarrow> GENESIS_HASH (cb_genesisHash b) \<and> cb_genesisHash b = cb_genesisHash live \<and>
     cb_contractVersion b = cb_contractVersion live \<and> cb_specVersion b \<le> cb_specVersion live"

definition alive_at :: "int \<Rightarrow> intent_limits \<Rightarrow> bool" where
  "alive_at currentBlock l = (\<forall>d. il_deadlineBlock l = Some d \<longrightarrow> currentBlock < d)"

lemma admitIntent_Inr:
  "admitIntent digest live currentBlock document = Inr i \<longleftrightarrow>
     (\<exists>s parsed p. document = V_string s \<and> length s \<le> MAX_DOCUMENT_BYTES \<and> length (encode_utf8 s) \<le> MAX_DOCUMENT_BYTES \<and>
        JSON_tree s = Some parsed \<and> distinct_keys parsed \<and> isPlainObject parsed \<and> depthOf 0 parsed \<le> MAX_DEPTH \<and>
        states parsed i \<and> digestPreimage INTENT_SCHEMA (core_of parsed) = Inr p \<and> digest p = Some (in_digest i)) \<and>
     digest_shape (in_digest i) \<and> binds_live live (in_binding i) \<and> alive_at currentBlock (in_limits i) \<and>
     request_ok (in_action i) (in_limits i)"
  (is "?l = ?r")
proof
  assume ?l
  then obtain parsed where p: "admit_document document = Inr parsed" "admit_digest digest parsed = Inr (in_digest i)"
    "admit_binding live (own parsed ''binding'') = Inr (in_binding i)"
    "admit_deadline currentBlock (own parsed ''limits'') = Inr (il_deadlineBlock (in_limits i))"
    "admit_shape (own parsed ''action'') (own parsed ''limits'') = Inr ()"
    "admit_action (own parsed ''action'') = Inr (in_action i)"
    "admit_limits (ia_kind (in_action i)) (own parsed ''limits'') (il_deadlineBlock (in_limits i)) = Inr (in_limits i)"
    by (auto simp: admitIntent_def Let_def rbind_eq_Inr_iff admit_limits_Inr)
  obtain s where s: "document = V_string s" "length s \<le> MAX_DOCUMENT_BYTES" "length (encode_utf8 s) \<le> MAX_DOCUMENT_BYTES"
      "JSON_tree s = Some parsed" "distinct_keys parsed" "isPlainObject parsed" "depthOf 0 parsed \<le> MAX_DEPTH"
    using p(1) unfolding admit_document_Inr by blast
  have lim: "admit_amount (own parsed ''limits'') ''maxCost'' = Inr (il_maxCost (in_limits i))"
      "admit_amount (own parsed ''limits'') ''minProceeds'' = Inr (il_minProceeds (in_limits i))"
    using p(7) unfolding admit_limits_Inr by blast+
  have st: "states parsed i"
    using p(2-6) lim unfolding states_def admit_digest_Inr admit_binding_Inr admit_deadline_Inr admit_shape_Inr
    by (auto split: option.splits)
  have u: "il_maxCost (in_limits i) = Some m \<Longrightarrow> u128 m" "il_minProceeds (in_limits i) = Some m \<Longrightarrow> u128 m" for m
    using lim readU128_range unfolding admit_amount_Inr by (auto split: option.splits)
  have "request_ok (in_action i) (in_limits i)"
    using p(4,6,7) u unfolding request_ok_def admit_action_Inr admit_size_Inr admit_limits_Inr admit_deadline_Inr
    by (fastforce dest: readU64_range readU128_range readU32_range simp: u128_def split: if_splits option.splits)
  moreover have "alive_at currentBlock (in_limits i)" using p(4) unfolding alive_at_def admit_deadline_Inr by auto
  moreover have "digest_shape (in_digest i)" "binds_live live (in_binding i)"
    using p(2,3) unfolding binds_live_def admit_digest_Inr admit_binding_Inr by blast+
  moreover obtain q where "digestPreimage INTENT_SCHEMA (core_of parsed) = Inr q" "digest q = Some (in_digest i)"
    using p(2) unfolding admit_digest_Inr core_of_def by blast
  ultimately show ?r using s st by blast
next
  assume r: ?r
  then obtain s parsed p where s: "document = V_string s" "length s \<le> MAX_DOCUMENT_BYTES" "length (encode_utf8 s) \<le> MAX_DOCUMENT_BYTES"
      "JSON_tree s = Some parsed" "distinct_keys parsed" "isPlainObject parsed" "depthOf 0 parsed \<le> MAX_DEPTH"
      "states parsed i" "digestPreimage INTENT_SCHEMA (core_of parsed) = Inr p" "digest p = Some (in_digest i)" by blast
  note st = s(8) [unfolded states_def] and ok = r [THEN conjunct2]
  have a: "admit_document document = Inr parsed" unfolding admit_document_Inr using s by blast
  have b: "admit_digest digest parsed = Inr (in_digest i)" unfolding admit_digest_Inr using st s ok by (simp add: core_of_def)
  have c: "admit_binding live (own parsed ''binding'') = Inr (in_binding i)"
    unfolding admit_binding_Inr using st ok unfolding binds_live_def by blast
  have d: "admit_deadline currentBlock (own parsed ''limits'') = Inr (il_deadlineBlock (in_limits i))"
    unfolding admit_deadline_Inr using st ok by (auto simp: alive_at_def request_ok_def split: option.splits)
  have e: "admit_shape (own parsed ''action'') (own parsed ''limits'') = Inr ()" unfolding admit_shape_Inr using st by simp
  have f: "admit_action (own parsed ''action'') = Inr (in_action i)" using st by blast
  have g: "admit_limits (ia_kind (in_action i)) (own parsed ''limits'') (il_deadlineBlock (in_limits i)) = Inr (in_limits i)"
    unfolding admit_limits_Inr using st ok by (auto simp: request_ok_def split: if_splits)
  show ?l by (cases i) (use a b c d e f g in \<open>simp add: admitIntent_def Let_def\<close>)
qed

subsection \<open>The depth guard\<close>

fun nesting :: "jv \<Rightarrow> nat" where
  "nesting (V_array vs) = (if vs = [] then 0 else Suc (Max (set (map nesting vs))))"
| "nesting (V_object ps) = (if ps = [] then 0 else Suc (Max (set (map (\<lambda>(k, v). nesting v) ps))))"
| "nesting v = 0"

lemma until_deep_le: "until_deep m ds \<le> MAX_DEPTH \<longleftrightarrow> m \<le> MAX_DEPTH \<and> (\<forall>d \<in> set ds. d \<le> MAX_DEPTH)"
  by (induction m ds rule: until_deep.induct) auto

lemma depthOf_le: "depthOf d v \<le> MAX_DEPTH \<longleftrightarrow> d + nesting v \<le> MAX_DEPTH"
proof (induction d v rule: depthOf.induct)
  case (1 d vs)
  have "Suc (Max (set (map nesting vs))) + d \<le> MAX_DEPTH \<longleftrightarrow> (\<forall>v \<in> set vs. Suc d + nesting v \<le> MAX_DEPTH)" if "vs \<noteq> []"
    using that Max_le_iff [of "set (map nesting vs)" "MAX_DEPTH - Suc d"] Max_in [of "set (map nesting vs)"]
    by (cases "Suc d \<le> MAX_DEPTH") (auto simp: le_diff_conv2 add.commute)
  then show ?case using 1 by (auto simp: until_deep_le)
next
  case (2 d ps)
  have "Suc (Max (set (map (\<lambda>(k, v). nesting v) ps))) + d \<le> MAX_DEPTH \<longleftrightarrow> (\<forall>(k, v) \<in> set ps. Suc d + nesting v \<le> MAX_DEPTH)" if "ps \<noteq> []"
  proof (cases "Suc d \<le> MAX_DEPTH")
    case True
    then show ?thesis using that Max_le_iff [of "set (map (\<lambda>(k, v). nesting v) ps)" "MAX_DEPTH - Suc d"]
      by (auto simp: le_diff_conv2 add.commute)
  next
    case False
    then show ?thesis using that by (cases ps) auto
  qed
  note nested = this
  show ?case
  proof (cases "d \<le> MAX_DEPTH")
    case True
    have each: "(depthOf (Suc d) v \<le> MAX_DEPTH) = (Suc d + nesting v \<le> MAX_DEPTH)" if "(k, v) \<in> set ps" for k v
      using 2 [OF _ that refl] True by simp
    have "depthOf d (V_object ps) \<le> MAX_DEPTH \<longleftrightarrow> (\<forall>(k, v) \<in> set ps. Suc d + nesting v \<le> MAX_DEPTH)"
      using True each by (auto simp: until_deep_le)
    then show ?thesis using nested True by (cases "ps = []") (simp_all add: add.commute)
  qed simp
qed auto

end
