(* ===== verification/Intent_Requests.thy ===== *)
theory Intent_Requests
  imports Intent_Admission
begin

text \<open>
  The request as a well-behaved tool writes it: the value it hands to \<open>canonicalJson\<close>, the
  byte count of its canonical text against the computed ceiling of the frozen core, and the
  properties of the envelope and of admission: canonical JSON parses back, the digest pre-image
  determines what was hashed, repeated keys are found, an admitted document states its request, and
  every request of the format is admitted as itself.
\<close>

subsection \<open>A request as its producer writes it\<close>

lemma lit_inject [simp]: "lit s = lit t \<longleftrightarrow> s = t"
proof -
  have "inj (\<lambda>c. of_nat (of_char c) :: 16 word)"
  proof (rule injI)
    fix c d :: char assume e: "(of_nat (of_char c) :: 16 word) = of_nat (of_char d)"
    have "of_char x < (256::nat)" for x :: char by simp
    then have "unat (of_nat (of_char x) :: 16 word) = of_char x" for x :: char by (intro unat_16) (rule less_trans, assumption, simp)
    then have "(of_char c :: nat) = of_char d" using e by metis
    then show "c = d" by simp
  qed
  then show ?thesis unfolding lit_def by (simp add: inj_map_eq_map)
qed

definition opt_amount :: "int option \<Rightarrow> jv" where
  "opt_amount m = (case m of None \<Rightarrow> V_undefined | Some n \<Rightarrow> V_string (int_dec n))"

definition int_value :: "int \<Rightarrow> jv" where
  "int_value n = V_number (Num (of_int n))"

definition opt_number :: "int option \<Rightarrow> jv" where
  "opt_number m = (case m of None \<Rightarrow> V_undefined | Some n \<Rightarrow> int_value n)"

definition binding_value :: "chain_binding \<Rightarrow> jv" where
  "binding_value b = V_object [(lit ''genesisHash'', V_string (cb_genesisHash b)), (lit ''specVersion'', int_value (cb_specVersion b)),
     (lit ''contractVersion'', int_value (cb_contractVersion b))]"

definition action_value :: "intent_action \<Rightarrow> jv" where
  "action_value a = V_object [(lit ''kind'', V_string (lit (kind_name (ia_kind a)))), (lit ''id'', V_string (int_dec (ia_id a))),
     (lit ''collateral'', opt_amount (ia_collateral a)), (lit ''fractionPpm'', opt_number (ia_fractionPpm a))]"

definition limits_value :: "intent_limits \<Rightarrow> jv" where
  "limits_value l = V_object [(lit ''maxCost'', opt_amount (il_maxCost l)), (lit ''minProceeds'', opt_amount (il_minProceeds l)),
     (lit ''deadlineBlock'', opt_number (il_deadlineBlock l))]"

definition request_value :: "intent \<Rightarrow> jv" where
  "request_value i = V_object [(lit ''schema'', V_string INTENT_SCHEMA), (lit ''digest'', V_string (in_digest i)),
     (lit ''binding'', binding_value (in_binding i)), (lit ''action'', action_value (in_action i)), (lit ''limits'', limits_value (in_limits i))]"

definition request_core :: "intent \<Rightarrow> jv" where
  "request_core i = digest_core (binding_value (in_binding i)) (action_value (in_action i)) (limits_value (in_limits i))"

lemmas value_defs = opt_amount_def opt_number_def int_value_def binding_value_def action_value_def limits_value_def request_value_def
  request_core_def digest_core_def

subsection \<open>Fields of a normal form\<close>

lemma map_of_filter_members:
  "distinct (map fst ps) \<Longrightarrow> map_of (filter (\<lambda>(k, v). v \<noteq> V_undefined) ps) k =
     (case map_of ps k of Some v \<Rightarrow> if v = V_undefined then None else Some v | None \<Rightarrow> None)"
proof (induction ps)
  case (Cons p ps)
  obtain j v where p: "p = (j, v)" by (cases p)
  have "map_of ps j = None" using Cons.prems by (simp add: p map_of_eq_None_iff)
  then show ?case using Cons by (auto simp: p split: option.splits)
qed simp

lemma distinct_sorted_members:
  assumes "distinct (map fst ps)"
  shows "distinct (map fst (js_sort by_key (filter (\<lambda>(k, v). v \<noteq> V_undefined) ps)))"
proof -
  let ?fs = "filter (\<lambda>(k, v). v \<noteq> V_undefined) ps"
  have "distinct (map fst ?fs)" using assms by (rule distinct_map_filter)
  moreover have "mset (map fst (js_sort by_key ?fs)) = mset (map fst ?fs)" by (simp only: mset_map mset_js_sort)
  ultimately show ?thesis by (metis mset_eq_imp_distinct_iff)
qed

lemma own_normal:
  assumes "distinct_keys v"
  shows "own (normal v) k = normal (own v k)"
proof (cases v)
  case (V_object ps)
  let ?fs = "filter (\<lambda>(k, v). v \<noteq> V_undefined) ps"
  have d: "distinct (map fst ps)" using assms by (simp add: V_object)
  have "map_of (js_sort by_key ?fs) = map_of ?fs"
    using map_of_inject_set [OF distinct_sorted_members [OF d] distinct_map_filter [OF d]] by simp
  moreover have "map_of (map (\<lambda>(k, v). (k, normal v)) (js_sort by_key ?fs)) (lit k) = map_option normal (map_of (js_sort by_key ?fs) (lit k))"
    by (simp add: map_of_map)
  ultimately have "map_of (js_sort by_key (map (\<lambda>(k, v). (k, normal v)) ?fs)) (lit k) = map_option normal (map_of ?fs (lit k))"
    by (simp only: sort_members)
  then show ?thesis
    using map_of_filter_members [OF d, of "lit k"] by (simp add: V_object own_def split: option.splits)
qed (simp_all add: own_def)

lemma keys_of_normal: "set (keys_of (normal v)) \<subseteq> set (keys_of v)"
  by (cases v) (force simp: keys_of_def)+

lemma closed_normal: "closed v names \<Longrightarrow> closed (normal v) names"
  using keys_of_normal unfolding closed_def by blast

lemma isPlainObject_normal [simp]: "isPlainObject (normal v) = isPlainObject v"
  by (cases v) (auto simp: isPlainObject_def)

lemma nesting_object: "nesting (V_object ps) \<le> Suc n \<longleftrightarrow> (\<forall>(k, v) \<in> set ps. nesting v \<le> n)"
  by (auto simp: Max_le_iff)

lemma nesting_normal_object: "(\<And>k v. (k, v) \<in> set ps \<Longrightarrow> nesting (normal v) \<le> n) \<Longrightarrow> nesting (normal (V_object ps)) \<le> Suc n"
  unfolding normal.simps nesting_object by auto

lemma own_object: "own (V_object ps) k = (case map_of ps (lit k) of Some x \<Rightarrow> x | None \<Rightarrow> V_undefined)"
  by (simp add: own_def)

subsection \<open>Reading back what a producer writes\<close>

lemma canonical_int_dec:
  assumes "0 \<le> n"
  shows "CANONICAL_DECIMAL (int_dec n)" "digits_value (int_dec n) = nat n"
proof -
  show "digits_value (int_dec n) = nat n" using assms by (simp add: int_dec_def)
  show "CANONICAL_DECIMAL (int_dec n)"
  proof (cases "n = 0")
    case True
    have "nat_dec 0 = [48]" by (subst nat_dec.simps) (simp add: digit_unit_def)
    then show ?thesis by (simp add: True CANONICAL_DECIMAL_def int_dec_def)
  next
    case False
    then show ?thesis using nat_dec_digits [of "nat n"] hd_nat_dec [of "nat n"] assms by (simp add: CANONICAL_DECIMAL_def int_dec_def)
  qed
qed

lemma read_written [simp]:
  "u128 n \<Longrightarrow> readU128 (V_string (int_dec n)) = Some n"
  "0 \<le> n \<Longrightarrow> n \<le> U64_MAX_int \<Longrightarrow> readU64 (V_string (int_dec n)) = Some n"
  "number_integer (int_value n) = Some n"
  "0 \<le> n \<Longrightarrow> n \<le> U32_MAX \<Longrightarrow> readU32 (int_value n) = Some n"
  using canonical_int_dec [of n] by (simp_all add: u128_def readU128_def readU64_def readU32_def number_integer_def int_value_def)

lemma normal_written [simp]:
  "normal (opt_amount m) = opt_amount m" "normal (opt_number m) = opt_number m" "normal (int_value n) = int_value n"
  by (simp_all add: value_defs split: option.splits)

lemma request_distinct: "distinct_keys (request_value i)"
  by (simp add: value_defs split: option.splits)

lemma own_request:
  "own (request_value i) ''schema'' = V_string INTENT_SCHEMA" "own (request_value i) ''digest'' = V_string (in_digest i)"
  "own (request_value i) ''binding'' = binding_value (in_binding i)" "own (request_value i) ''action'' = action_value (in_action i)"
  "own (request_value i) ''limits'' = limits_value (in_limits i)"
  by (simp_all add: request_value_def own_object)

lemma part_distinct: "distinct_keys (binding_value b)" "distinct_keys (action_value a)" "distinct_keys (limits_value l)"
  by (simp_all add: value_defs split: option.splits)

lemma own_parts:
  "own (binding_value b) ''genesisHash'' = V_string (cb_genesisHash b)" "own (binding_value b) ''specVersion'' = int_value (cb_specVersion b)"
  "own (binding_value b) ''contractVersion'' = int_value (cb_contractVersion b)"
  "own (action_value a) ''kind'' = V_string (lit (kind_name (ia_kind a)))" "own (action_value a) ''id'' = V_string (int_dec (ia_id a))"
  "own (action_value a) ''collateral'' = opt_amount (ia_collateral a)" "own (action_value a) ''fractionPpm'' = opt_number (ia_fractionPpm a)"
  "own (limits_value l) ''maxCost'' = opt_amount (il_maxCost l)" "own (limits_value l) ''minProceeds'' = opt_amount (il_minProceeds l)"
  "own (limits_value l) ''deadlineBlock'' = opt_number (il_deadlineBlock l)"
  by (simp_all add: binding_value_def action_value_def limits_value_def own_object)

lemma closed_parts: "closed (binding_value b) BINDING_KEY_NAMES" "closed (action_value a) ACTION_KEY_NAMES" "closed (limits_value l) LIMIT_KEY_NAMES"
  by (simp_all add: closed_def keys_of_def binding_value_def action_value_def limits_value_def BINDING_KEY_NAMES_def
      ACTION_KEY_NAMES_def LIMIT_KEY_NAMES_def)

lemma plain_parts: "isPlainObject (binding_value b)" "isPlainObject (action_value a)" "isPlainObject (limits_value l)" "isPlainObject (request_value i)"
  by (simp_all add: isPlainObject_def binding_value_def action_value_def limits_value_def request_value_def)

lemma states_request:
  assumes "request_ok (in_action i) (in_limits i)"
    "0 \<le> cb_specVersion (in_binding i)" "cb_specVersion (in_binding i) \<le> U32_MAX"
    "0 \<le> cb_contractVersion (in_binding i)" "cb_contractVersion (in_binding i) \<le> U32_MAX"
  shows "states (normal (request_value i)) i"
proof -
  note own' = own_normal [OF request_distinct] own_normal [OF part_distinct(1)] own_normal [OF part_distinct(2)] own_normal [OF part_distinct(3)]
  have amount: "admit_amount l k = Inr m" if "own l k = opt_amount m" "\<forall>n. m = Some n \<longrightarrow> u128 n" for l k m
    using that by (auto simp: admit_amount_Inr opt_amount_def split: option.splits)
  have sz: "admit_size (ia_kind (in_action i)) (normal (action_value (in_action i))) = Inr (ia_collateral (in_action i), ia_fractionPpm (in_action i))"
    using assms(1) unfolding admit_size_Inr own' own_parts
    by (auto simp: request_ok_def opt_amount_def opt_number_def split: if_splits)
  have act: "admit_action (normal (action_value (in_action i))) = Inr (in_action i)"
    unfolding admit_action_Inr own' own_parts using assms(1) sz by (simp add: request_ok_def)
  have lim: "admit_amount (normal (limits_value (in_limits i))) ''maxCost'' = Inr (il_maxCost (in_limits i))"
    "admit_amount (normal (limits_value (in_limits i))) ''minProceeds'' = Inr (il_minProceeds (in_limits i))"
    using assms(1) by (auto intro!: amount simp: own' own_parts request_ok_def split: if_splits)
  have dl: "case il_deadlineBlock (in_limits i) of None \<Rightarrow> own (normal (limits_value (in_limits i))) ''deadlineBlock'' = V_undefined
      | Some n \<Rightarrow> readU32 (own (normal (limits_value (in_limits i))) ''deadlineBlock'') = Some n"
    using assms(1) by (auto simp: own' own_parts request_ok_def opt_number_def split: option.splits)
  show ?thesis
    unfolding states_def own' own_request own_parts
    using assms act lim dl [unfolded own' own_parts] closed_parts [THEN closed_normal]
    by (simp add: own' own_request own_parts plain_parts CORE_CONTAINERS_def)
qed

lemma nesting_request: "nesting (normal (request_value i)) \<le> MAX_DEPTH"
proof -
  have leaf: "nesting (opt_amount m) = 0" "nesting (opt_number m) = 0" "nesting (int_value n) = 0" for m n
    by (simp_all add: value_defs split: option.splits)
  have part: "nesting (normal (binding_value b)) \<le> Suc 0" "nesting (normal (action_value a)) \<le> Suc 0" "nesting (normal (limits_value l)) \<le> Suc 0" for b a l
    unfolding binding_value_def action_value_def limits_value_def
    by (rule nesting_normal_object, auto simp: leaf)+
  have "nesting (normal (request_value i)) \<le> Suc (Suc 0)"
    unfolding request_value_def by (rule nesting_normal_object) (use part in auto)
  then show ?thesis by (simp add: MAX_DEPTH_def FROZEN_CORE_DEPTH_def)
qed

lemma core_normal: "serializeInto (core_of (normal (request_value i))) = serializeInto (request_core i)"
proof -
  note own' = own_normal [OF request_distinct]
  show ?thesis
    unfolding core_of_def own' own_request request_core_def
    by (simp add: digest_core_def serialize_normal normal_eq_undefined)
qed

subsection \<open>The byte ceiling\<close>

definition plain_text :: "units \<Rightarrow> bool" where
  "plain_text s = list_all (\<lambda>c. 32 \<le> unat c \<and> unat c < 127 \<and> c \<noteq> 34 \<and> c \<noteq> 92) s"

text \<open>Texts, integers and objects that serialize without an escape, and how long they may get.\<close>

fun writable :: "jv \<Rightarrow> bool" where
  "writable (V_string s) = plain_text s"
| "writable (V_number x) = (\<exists>n. x = Num (of_int n) \<and> \<bar>n\<bar> \<le> MAX_SAFE_INTEGER)"
| "writable (V_object ps) = list_all (\<lambda>(k, v). plain_text k \<and> (v = V_undefined \<or> writable v)) ps"
| "writable _ = False"

fun size_bound :: "jv \<Rightarrow> nat" where
  "size_bound (V_string s) = length s + 2"
| "size_bound (V_number (Num r)) = length (int_dec \<lfloor>r\<rfloor>)"
| "size_bound (V_object ps) = 2 + sum_list (map (\<lambda>(k, v). if v = V_undefined then 0 else length k + 4 + size_bound v) ps)"
| "size_bound _ = 0"

definition small :: "units \<Rightarrow> bool" where
  "small s = list_all (\<lambda>c. unat c < 128) s"

lemma small_simps [simp]: "small []" "small (c # s) \<longleftrightarrow> unat c < 128 \<and> small s" "small (s @ t) \<longleftrightarrow> small s \<and> small t"
  by (simp_all add: small_def)

lemma quote_plain: "plain_text s \<Longrightarrow> quote_units s = s"
proof (induction s)
  case (Cons c s)
  then have "\<not> is_lead c" "\<not> is_trail c" "quote_unit c = [c]"
    by (auto simp: plain_text_def is_lead_def is_trail_def quote_unit_def)
  then show ?case using Cons by (simp add: plain_text_def)
qed simp

lemma quoted_plain: "plain_text s \<Longrightarrow> small (quoted s) \<and> length (quoted s) = length s + 2"
  by (auto simp: quoted_def quote_plain plain_text_def small_def list_all_iff)

lemma int_dec_small: "small (int_dec n)"
proof -
  have "small (nat_dec k)" for k using nat_dec_digits [of k] by (auto simp: small_def list_all_iff is_digit_def)
  then show ?thesis by (simp add: int_dec_def)
qed

lemma small_joined: "(\<forall>p \<in> set ps. small p) \<Longrightarrow> small (joined ps)"
  by (induction ps) (auto simp: joined_def small_def list_all_iff split: list.splits)

lemma length_joined: "length (joined ps) \<le> sum_list (map (\<lambda>p. length p + 1) ps)"
  by (cases ps) (auto simp: joined_def length_concat comp_def)

lemma sum_list_sorted: "sum_list (map f (js_sort cmp xs)) = (sum_list (map f xs) :: nat)"
  by (metis mset_js_sort mset_map sum_mset_sum_list)

lemma writable_serializes:
  "writable v \<Longrightarrow> \<exists>s. serializeInto v = Inr s \<and> small s \<and> length s \<le> size_bound v"
proof (induction v rule: writable.induct)
  case (1 s)
  then show ?case using quoted_plain [of s] by simp
next
  case (2 x)
  then obtain n where n: "x = Num (of_int n)" "\<bar>n\<bar> \<le> MAX_SAFE_INTEGER" by auto
  then show ?case using int_dec_small [of n] by (simp add: serialize_number_def isSafeInteger_def)
next
  case (3 ps)
  let ?fs = "filter (\<lambda>(k, v). v \<noteq> V_undefined) ps"
  define sv where "sv = (\<lambda>v. SOME s. serializeInto v = Inr s \<and> small s \<and> length s \<le> size_bound v)"
  have each: "serializeInto v = Inr (sv v) \<and> small (sv v) \<and> length (sv v) \<le> size_bound v \<and> plain_text k" if "(k, v) \<in> set ?fs" for k v
  proof -
    have "writable v" "plain_text k" using 3(2) that by (auto simp: list_all_iff)
    moreover have "\<exists>s. serializeInto v = Inr s \<and> small s \<and> length s \<le> size_bound v"
      using 3(1) [of "(k, v)" k v] that calculation by auto
    ultimately show ?thesis unfolding sv_def by (metis (mono_tags, lifting) someI_ex)
  qed
  define parts where "parts = map (\<lambda>(k, v). quoted k @ 58 # sv v) (js_sort by_key ?fs)"
  have "map (\<lambda>(k, r). rbind r (\<lambda>s. Inr (quoted k @ 58 # s))) (map (\<lambda>(k, v). (k, serializeInto v)) (js_sort by_key ?fs)) = map Inr parts"
    unfolding parts_def map_map by (rule map_cong [OF refl]) (use each in auto)
  then have ser: "serializeInto (V_object ps) = Inr (123 # joined parts @ [125])"
    by (simp only: serializeInto.simps Let_def sort_members collect_Inr [THEN iffD2] rbind_simps)
  have "\<forall>p \<in> set parts. small p" unfolding parts_def using each quoted_plain by fastforce
  then have sm: "small (joined parts)" by (rule small_joined)
  have "length (joined parts) \<le> sum_list (map (\<lambda>p. length p + 1) parts)" by (rule length_joined)
  also have "\<dots> = sum_list (map (\<lambda>(k, v). length (quoted k) + 2 + length (sv v)) (js_sort by_key ?fs))"
    unfolding parts_def map_map by (rule arg_cong [of _ _ sum_list]) auto
  also have "\<dots> = sum_list (map (\<lambda>(k, v). length (quoted k) + 2 + length (sv v)) ?fs)" by (rule sum_list_sorted)
  also have "\<dots> \<le> sum_list (map (\<lambda>(k, v). length k + 4 + size_bound v) ?fs)"
    by (rule sum_list_mono) (use each quoted_plain in fastforce)
  also have "\<dots> = sum_list (map (\<lambda>(k, v). if v = V_undefined then 0 else length k + 4 + size_bound v) ps)"
    by (induction ps) auto
  finally show ?case using ser sm by simp
qed simp_all

lemma encode_small: "small s \<Longrightarrow> length (encode_utf8 s) = length s"
proof -
  assume s: "small s"
  have "code_points s = map unat s" using s
  proof (induction s)
    case (Cons c s)
    then have "\<not> is_lead c" by (simp add: is_lead_def)
    then show ?case using Cons by (cases s) auto
  qed simp
  moreover have "length (utf8_bytes (scalar_value (unat c))) = 1" if "c \<in> set s" for c
  proof -
    have "unat c < 128" using s that by (simp add: small_def list_all_iff)
    then show ?thesis by (simp add: scalar_value_def utf8_bytes_def)
  qed
  moreover have "sum_list (map f xs) = length xs" if "\<forall>x \<in> set xs. f x = 1" for f :: "16 word \<Rightarrow> nat" and xs
    using that by (induction xs) auto
  ultimately show ?thesis
    by (simp add: encode_utf8_def length_concat comp_def)
qed

lemma length_int_dec: "0 \<le> n \<Longrightarrow> n < 10 ^ k \<Longrightarrow> 0 < k \<Longrightarrow> length (int_dec n) \<le> k"
  using length_nat_dec [of k "nat n"] by (simp add: int_dec_def nat_less_iff)

lemma length_nat_dec_exact: "10 ^ k \<le> n \<Longrightarrow> n < 10 ^ Suc k \<Longrightarrow> length (nat_dec n) = Suc k"
proof (induction k arbitrary: n)
  case 0
  then show ?case by (subst nat_dec.simps) simp
next
  case (Suc k)
  have "10 \<le> n" using Suc.prems(1) by (simp add: Suc_le_eq) (metis One_nat_def Suc_le_eq le_trans mult.right_neutral mult_le_mono2 one_le_numeral one_le_power)
  moreover have "10 ^ k \<le> n div 10" using Suc.prems(1) by (simp add: less_eq_div_iff_mult_less_eq mult.commute)
  moreover have "n div 10 < 10 ^ Suc k" using Suc.prems(2) by (simp add: less_mult_imp_div_less)
  ultimately show ?case using Suc.IH [of "n div 10"] by (subst nat_dec.simps) simp
qed

lemma decimalDigits_values: "decimalDigits 32 = 10" "decimalDigits 64 = 20" "decimalDigits 128 = 39" "PPM_DIGITS = 7"
  using length_nat_dec_exact [of 9 "2 ^ 32 - 1"] length_nat_dec_exact [of 19 "2 ^ 64 - 1"]
    length_nat_dec_exact [of 38 "2 ^ 128 - 1"] length_nat_dec_exact [of 6 1000000]
  by (simp_all add: decimalDigits_def int_dec_def PPM_DIGITS_def PPM_def)

lemma ceilings: "FROZEN_CORE_CEILING_BYTES = 552" "MAX_DOCUMENT_BYTES = 3864"
proof -
  show f: "FROZEN_CORE_CEILING_BYTES = 552"
    by (simp add: FROZEN_CORE_CEILING_BYTES_def LEAF_CEILINGS_def leafBytes_def decimalDigits_values INTENT_SCHEMA_def lit_def
        DIGEST_HEX_CHARS_def H256_HEX_CHARS_def STRING_QUOTES_def INTENT_ACTIONS_def)
  show "MAX_DOCUMENT_BYTES = 3864"
    by (simp add: MAX_DOCUMENT_BYTES_def f JSON_ESCAPE_WORST_CASE_def ANNOTATION_ALLOWANCE_def)
qed

lemma decimal_plain: "0 \<le> n \<Longrightarrow> plain_text (int_dec n)"
  using nat_dec_digits [of "nat n"] by (auto simp: int_dec_def plain_text_def list_all_iff is_digit_def)

lemma hex_plain: "list_all hex_digit_unit s \<Longrightarrow> plain_text s"
  by (auto simp: plain_text_def list_all_iff hex_digit_unit_def lower_hex_unit_def)

lemma plain_words:
  "plain_text (lit ''schema'')"
  "plain_text (lit ''digest'')"
  "plain_text (lit ''binding'')"
  "plain_text (lit ''action'')"
  "plain_text (lit ''limits'')"
  "plain_text (lit ''genesisHash'')"
  "plain_text (lit ''specVersion'')"
  "plain_text (lit ''contractVersion'')"
  "plain_text (lit ''kind'')"
  "plain_text (lit ''id'')"
  "plain_text (lit ''collateral'')"
  "plain_text (lit ''fractionPpm'')"
  "plain_text (lit ''maxCost'')"
  "plain_text (lit ''minProceeds'')"
  "plain_text (lit ''deadlineBlock'')"
  "plain_text (lit ''prepare_pass_position'')"
  "plain_text (lit ''prepare_fail_position'')"
  "plain_text (lit ''close_position'')"
  "plain_text (lit ''bleavit.intent.v1'')"
  "plain_text (lit ''0x'')"
  by code_simp+

lemma request_writable:
  assumes "request_ok (in_action i) (in_limits i)" "digest_shape (in_digest i)" "GENESIS_HASH (cb_genesisHash (in_binding i))"
    "0 \<le> cb_specVersion (in_binding i)" "cb_specVersion (in_binding i) \<le> U32_MAX"
    "0 \<le> cb_contractVersion (in_binding i)" "cb_contractVersion (in_binding i) \<le> U32_MAX"
  shows "writable (request_value i)" "size_bound (request_value i) \<le> FROZEN_CORE_CEILING_BYTES"
proof -
  have num: "writable (int_value n) \<and> size_bound (int_value n) \<le> 10" if "0 \<le> n" "n \<le> U32_MAX" for n
    using that length_int_dec [of n 10] by (auto simp: int_value_def U32_MAX_def MAX_SAFE_INTEGER_def intro!: exI [of _ n])
  have ppm: "size_bound (int_value n) \<le> 7" if "0 \<le> n" "n \<le> PPM" for n
    using that length_int_dec [of n 7] by (auto simp: int_value_def PPM_def)
  have amount: "writable (V_string (int_dec n)) \<and> size_bound (V_string (int_dec n)) \<le> 41" if "u128 n" for n
    using that length_int_dec [of n 39] decimal_plain [of n] by (auto simp: u128_def U128_MAX_int_def)
  have opt: "(opt_amount m = V_undefined \<or> writable (opt_amount m)) \<and>
      (if opt_amount m = V_undefined then 0 else size_bound (opt_amount m)) \<le> 41" if "\<forall>n. m = Some n \<longrightarrow> u128 n" for m
    using that amount by (auto simp: opt_amount_def split: option.splits)
  have optn: "(opt_number m = V_undefined \<or> writable (opt_number m)) \<and>
      (if opt_number m = V_undefined then 0 else size_bound (opt_number m)) \<le> 10" if "\<forall>n. m = Some n \<longrightarrow> 0 \<le> n \<and> n \<le> U32_MAX" for m
    using that num by (auto simp: opt_number_def split: option.splits)
  have dg: "plain_text (in_digest i)" "length (in_digest i) = 64"
    using assms(2) by (auto simp: digest_shape_def LOWERCASE_HEX_def DIGEST_HEX_CHARS_def hex_digit_unit_def intro!: hex_plain elim: list.pred_mono_strong)
  have gh: "plain_text (cb_genesisHash (in_binding i))" "length (cb_genesisHash (in_binding i)) = 66"
  proof -
    let ?g = "cb_genesisHash (in_binding i)"
    have g: "take 2 ?g = lit ''0x''" "length (drop 2 ?g) = 64" "list_all hex_digit_unit (drop 2 ?g)" using assms(3) by (auto simp: GENESIS_HASH_def)
    note plain_words(20)
    moreover have "plain_text (drop 2 ?g)" by (rule hex_plain [OF g(3)])
    ultimately have "plain_text (take 2 ?g @ drop 2 ?g)" using g(1) by (simp add: plain_text_def)
    then show "plain_text ?g" by simp
    show "length ?g = 66" using g(2) by simp
  qed
  note words = plain_words
  have kind: "plain_text (lit (kind_name (ia_kind (in_action i))))" "length (lit (kind_name (ia_kind (in_action i)))) \<le> 21"
    using words by (cases "ia_kind (in_action i)"; simp add: lit_def)+
  have id: "plain_text (int_dec (ia_id (in_action i)))" "length (int_dec (ia_id (in_action i))) \<le> 20"
    using assms(1) decimal_plain length_int_dec [of "ia_id (in_action i)" 20] by (auto simp: request_ok_def U64_MAX_int_def)
  have lim: "\<forall>n. il_maxCost (in_limits i) = Some n \<longrightarrow> u128 n" "\<forall>n. il_minProceeds (in_limits i) = Some n \<longrightarrow> u128 n"
    "\<forall>n. il_deadlineBlock (in_limits i) = Some n \<longrightarrow> 0 \<le> n \<and> n \<le> U32_MAX" "\<forall>n. ia_collateral (in_action i) = Some n \<longrightarrow> u128 n"
    "\<forall>n. ia_fractionPpm (in_action i) = Some n \<longrightarrow> 0 \<le> n \<and> n \<le> PPM"
    using assms(1) by (auto simp: request_ok_def split: if_splits)
  have frac: "(opt_number (ia_fractionPpm (in_action i)) = V_undefined \<or> writable (opt_number (ia_fractionPpm (in_action i)))) \<and>
      (if opt_number (ia_fractionPpm (in_action i)) = V_undefined then 0 else size_bound (opt_number (ia_fractionPpm (in_action i)))) \<le> 7"
    using lim(5) num ppm by (auto simp: opt_number_def PPM_def U32_MAX_def split: option.splits)
  have nv: "int_value n \<noteq> V_undefined" "binding_value b \<noteq> V_undefined" "action_value a \<noteq> V_undefined" "limits_value l \<noteq> V_undefined" for n b a l
    by (simp_all add: int_value_def binding_value_def action_value_def limits_value_def)
  have b: "writable (binding_value (in_binding i))" "size_bound (binding_value (in_binding i)) \<le> 2 + (11 + 4 + 68) + (11 + 4 + 10) + (15 + 4 + 10)"
    using gh num [OF assms(4,5)] num [OF assms(6,7)] words by (simp_all add: binding_value_def nv) (simp add: lit_def)
  have add: "(if v = V_undefined then 0 else K + size_bound v) \<le> K + B" if "(if v = V_undefined then 0 else size_bound v) \<le> B" for v K B
    using that by (auto split: if_splits)
  have a: "writable (action_value (in_action i))"
    using kind id opt [OF lim(4)] frac words by (simp add: action_value_def)
  have as: "size_bound (action_value (in_action i)) \<le> 2 + (4 + 4 + 23) + (2 + 4 + 22) + (10 + 4 + 41) + (11 + 4 + 7)"
  proof -
    have "size_bound (action_value (in_action i)) = 2 + (8 + (length (lit (kind_name (ia_kind (in_action i)))) + 2))
        + (6 + (length (int_dec (ia_id (in_action i))) + 2))
        + (if opt_amount (ia_collateral (in_action i)) = V_undefined then 0 else 14 + size_bound (opt_amount (ia_collateral (in_action i))))
        + (if opt_number (ia_fractionPpm (in_action i)) = V_undefined then 0 else 15 + size_bound (opt_number (ia_fractionPpm (in_action i))))"
      by (simp add: action_value_def lit_def del: if_split)
    then show ?thesis
      using kind(2) id(2) add [OF conjunct2 [OF opt [OF lim(4)]], of 14] add [OF conjunct2 [OF frac], of 15] by linarith
  qed
  have l: "writable (limits_value (in_limits i))"
    using opt [OF lim(1)] opt [OF lim(2)] optn [OF lim(3)] words by (simp add: limits_value_def)
  have ls: "size_bound (limits_value (in_limits i)) \<le> 2 + (7 + 4 + 41) + (11 + 4 + 41) + (13 + 4 + 10)"
  proof -
    have "size_bound (limits_value (in_limits i)) = 2
        + (if opt_amount (il_maxCost (in_limits i)) = V_undefined then 0 else 11 + size_bound (opt_amount (il_maxCost (in_limits i))))
        + (if opt_amount (il_minProceeds (in_limits i)) = V_undefined then 0 else 15 + size_bound (opt_amount (il_minProceeds (in_limits i))))
        + (if opt_number (il_deadlineBlock (in_limits i)) = V_undefined then 0 else 17 + size_bound (opt_number (il_deadlineBlock (in_limits i))))"
      by (simp add: limits_value_def lit_def del: if_split)
    then show ?thesis
      using add [OF conjunct2 [OF opt [OF lim(1)]], of 11] add [OF conjunct2 [OF opt [OF lim(2)]], of 15]
        add [OF conjunct2 [OF optn [OF lim(3)]], of 17] by linarith
  qed
  show "writable (request_value i)"
    using a b(1) l dg words by (simp add: request_value_def INTENT_SCHEMA_def)
  show "size_bound (request_value i) \<le> FROZEN_CORE_CEILING_BYTES"
    using as b(2) ls dg by (simp add: request_value_def nv ceilings) (simp add: INTENT_SCHEMA_def lit_def)
qed

lemma digestPreimage_cong: "serializeInto v = serializeInto w \<Longrightarrow> digestPreimage t v = digestPreimage t w"
  by (simp add: digestPreimage_def canonicalJson_def)

lemma request_core_serializes:
  assumes "writable (request_value i)"
  shows "\<exists>s. serializeInto (request_core i) = Inr s"
proof -
  have "writable (request_core i)"
    using assms plain_words by (simp add: request_core_def digest_core_def request_value_def INTENT_SCHEMA_def)
  then show ?thesis using writable_serializes by blast
qed

lemma preimage_of_request:
  assumes "writable (request_value i)"
  shows "\<exists>p. digestPreimage INTENT_SCHEMA (request_core i) = Inr p \<and> digestPreimage INTENT_SCHEMA (core_of (normal (request_value i))) = Inr p"
proof -
  have "list_all printable INTENT_SCHEMA" "INTENT_SCHEMA \<noteq> []" by code_simp+
  then obtain p where "digestPreimage INTENT_SCHEMA (request_core i) = Inr p"
    using request_core_serializes [OF assms] by (auto simp: digestPreimage_def canonicalJson_def)
  then show ?thesis using digestPreimage_cong [OF core_normal] by simp
qed

subsection \<open>Properties of the envelope and of admission\<close>

text \<open>C9
  Canonical JSON is a faithful encoding: parsing it gives back the value with its members sorted,
  undefined members dropped and bigints as decimal strings; serializing that again gives the same
  text; and two values have the same canonical text exactly when those normal forms agree.
\<close>

theorem canonical_roundtrip:
  assumes "distinct_keys v" "canonicalJson v = Inr s"
  shows "JSON_parse s = Some (normal v) \<and> canonicalJson (normal v) = Inr s \<and>
    (\<forall>w t. canonicalJson w = Inr t \<longrightarrow> (s = t) = (normal v = normal w))"
proof (intro conjI allI impI)
  have s: "serializeInto v = Inr s" using assms(2) by (simp add: canonicalJson_def)
  show "JSON_parse s = Some (normal v)"
    using JSON_tree_serialized [OF s] keep_last_id [OF distinct_keys_normal [OF assms(1)]] by (simp add: JSON_parse_def)
  show "canonicalJson (normal v) = Inr s" using s by (simp add: canonicalJson_def serialize_normal)
  fix w t assume t: "canonicalJson w = Inr t"
  show "(s = t) = (normal v = normal w)"
  proof
    assume "s = t"
    then show "normal v = normal w" using canonical_inject [OF s] t by (simp add: canonicalJson_def)
  next
    assume "normal v = normal w"
    then have "serializeInto v = serializeInto w" by (metis serialize_normal)
    then show "s = t" using s t by (simp add: canonicalJson_def)
  qed
qed

definition sample_value :: jv where
  "sample_value = V_object [(lit ''b'', V_array [V_null, V_big (2 ^ 60)]), (lit ''a'', V_string [34, 0xD800]), (lit ''c'', V_undefined)]"

theorem canonical_roundtrip_witness:
  "\<exists>s. canonicalJson sample_value = Inr s \<and> JSON_parse s = Some (normal sample_value)"
proof -
  have "\<exists>s. canonicalJson sample_value = Inr s" by (simp add: canonicalJson_def sample_value_def js_sort_Cons rbind_eq_Inr_iff)
  then obtain s where s: "canonicalJson sample_value = Inr s" by blast
  have "distinct_keys sample_value" by (simp add: sample_value_def)
  with canonical_roundtrip [OF _ s] s show ?thesis by blast
qed

text \<open>C36
  The bytes of a digest determine what was hashed: two pre-images are equal only for the same
  domain tag and values with the same normal form, so no format can be mistaken for another and
  no two requests share a pre-image.
\<close>

theorem preimage_determines_tag_and_value:
  assumes "digestPreimage t v = Inr p" "digestPreimage t' v' = Inr p"
  shows "t = t' \<and> normal v = normal v'"
  by (rule digestPreimage_inject [OF assms])

theorem preimage_determines_tag_and_value_witness:
  "\<exists>p. digestPreimage INTENT_SCHEMA V_null = Inr p \<and> digestPreimage (lit ''other'') V_null \<noteq> Inr p \<and>
     digestPreimage INTENT_SCHEMA (V_bool True) \<noteq> Inr p"
proof -
  have "list_all printable INTENT_SCHEMA" "INTENT_SCHEMA \<noteq> []" by code_simp+
  then obtain p where p: "digestPreimage INTENT_SCHEMA V_null = Inr p" by (auto simp: digestPreimage_def canonicalJson_def)
  have "lit ''other'' \<noteq> INTENT_SCHEMA" by code_simp
  with p preimage_determines_tag_and_value [OF _ p] show ?thesis by fastforce
qed

text \<open>C10
  On every text that JSON.parse accepts, the scan for repeated keys returns without throwing, and
  its answer is whether some object of the document repeats a key after unescaping; only for such
  a document does the parsed value differ from what the text says.
\<close>

theorem repeated_keys_are_found:
  assumes "JSON_tree s = Some tree"
  shows "hasDuplicateKey s = Some (\<not> distinct_keys tree) \<and> (distinct_keys tree \<longrightarrow> JSON_parse s = Some tree)"
  using hasDuplicateKey_tree [OF assms] assms by (simp add: repeats_iff JSON_parse_def keep_last_id)

text \<open>The second key of \<open>{"k":1,"\u006b":2}\<close> is the first one, escaped.\<close>

definition sample_repeat :: units where
  "sample_repeat = lit ''{'' @ [34, 107, 34] @ lit '':1,'' @ [34, 92] @ lit ''u006b'' @ [34] @ lit '':2}''"

lemma nat_dec_digit: "n < 10 \<Longrightarrow> nat_dec n = [digit_unit n]"
  by (subst nat_dec.simps) simp

lemma sample_repeat_tree:
  "JSON_tree sample_repeat = Some (V_object [(lit ''k'', V_number (Num 1)), (lit ''k'', V_number (Num 2))])"
proof -
  have one: "lex_number (digit_unit d # rest) = Some (Num (of_nat d), rest)" if "stops rest" "d < 10" for d rest
    using lex_number_int_dec [OF that(1), of "int d"] that(2) by (simp add: int_dec_def nat_dec_digit)
  have d: "digit_unit (Suc 0) = 49" "digit_unit 2 = 50" by (simp_all add: digit_unit_def)
  have n: "lex_number (49 # 44 # rest) = Some (Num 1, 44 # rest)" "lex_number (50 # 125 # rest) = Some (Num 2, 125 # rest)" for rest
    using one [of "44 # rest" 1] one [of "125 # rest" 2] by (simp_all add: d stops_def)
  have "lex sample_repeat = Some (tokens_of (V_object [(lit ''k'', V_number (Num 1)), (lit ''k'', V_number (Num 2))]))"
    by (simp add: sample_repeat_def lit_def is_space_def is_digit_def punctuation_def hex4_def hex_value_def n)
  then show ?thesis by (simp add: JSON_tree_def parse_tokens_iff)
qed

theorem repeated_keys_are_found_witness: "hasDuplicateKey sample_repeat = Some True"
  using repeated_keys_are_found [OF sample_repeat_tree] by simp

text \<open>C2
  A document is admitted only as a request it states, whole: the text parses, repeats no key, is
  within the byte and depth bounds, its core objects hold no foreign key, its own digest is that
  of its core, its binding is the live chain's at no newer version, its deadline is ahead, its id,
  sizes and limits are in range, and the one monetary limit it must state, in the direction of its
  trade, is stated and the other is not.
\<close>

theorem admission_is_sound:
  assumes "admitIntent digest live currentBlock document = Inr i"
  shows "\<exists>s tree p. document = V_string s \<and> length (encode_utf8 s) \<le> MAX_DOCUMENT_BYTES \<and> JSON_tree s = Some tree \<and>
      distinct_keys tree \<and> nesting tree \<le> MAX_DEPTH \<and> states tree i \<and>
      digestPreimage INTENT_SCHEMA (core_of tree) = Inr p \<and> digest p = Some (in_digest i) \<and>
      binds_live live (in_binding i) \<and> alive_at currentBlock (in_limits i) \<and> request_ok (in_action i) (in_limits i)"
  using assms depthOf_le [of 0] unfolding admitIntent_Inr by (simp del: code_points.simps) blast

text \<open>C35
  Every request the format can express is admitted as itself: written in canonical JSON it fits
  the computed ceiling of the frozen core, and admission reads back exactly the request, at any
  block before its deadline, on the chain it is bound to.
\<close>

theorem every_request_is_admitted:
  assumes "request_ok (in_action i) (in_limits i)" "binds_live live (in_binding i)" "alive_at currentBlock (in_limits i)"
    "0 \<le> cb_specVersion (in_binding i)" "cb_specVersion (in_binding i) \<le> U32_MAX"
    "0 \<le> cb_contractVersion (in_binding i)" "cb_contractVersion (in_binding i) \<le> U32_MAX"
    "digestPreimage INTENT_SCHEMA (request_core i) = Inr p" "digest p = Some (in_digest i)" "digest_shape (in_digest i)"
  shows "\<exists>s. canonicalJson (request_value i) = Inr s \<and> length (encode_utf8 s) \<le> FROZEN_CORE_CEILING_BYTES \<and>
    admitIntent digest live currentBlock (V_string s) = Inr i"
proof -
  have g: "GENESIS_HASH (cb_genesisHash (in_binding i))" using assms(2) unfolding binds_live_def by blast
  note w = request_writable [OF assms(1,10) g assms(4-7)]
  obtain s where s: "serializeInto (request_value i) = Inr s" "small s" "length s \<le> size_bound (request_value i)"
    using writable_serializes [OF w(1)] by blast
  have len: "length s \<le> FROZEN_CORE_CEILING_BYTES" using s(3) w(2) by linarith
  have "digestPreimage INTENT_SCHEMA (core_of (normal (request_value i))) = Inr p"
    using assms(8) digestPreimage_cong [OF core_normal] by simp
  moreover have "isPlainObject (normal (request_value i))" by (simp add: plain_parts)
  moreover have "depthOf 0 (normal (request_value i)) \<le> MAX_DEPTH" using nesting_request [of i] depthOf_le [of 0] by simp
  moreover note states_request [OF assms(1,4-7)] JSON_tree_serialized [OF s(1)] distinct_keys_normal [OF request_distinct [of i]]
  ultimately have "admitIntent digest live currentBlock (V_string s) = Inr i"
    unfolding admitIntent_Inr using len encode_small [OF s(2)] assms(1-3,9,10) by (auto simp: ceilings)
  then show ?thesis using s(1) len encode_small [OF s(2)] by (auto simp: canonicalJson_def)
qed

definition sample_binding :: chain_binding where
  "sample_binding = \<lparr> cb_genesisHash = lit ''0x'' @ replicate 64 97, cb_specVersion = 3, cb_contractVersion = 1 \<rparr>"

definition sample_intent :: intent where
  "sample_intent = \<lparr> in_binding = sample_binding,
     in_action = \<lparr> ia_kind = Prepare_pass, ia_id = 7, ia_collateral = Some (2 ^ 70), ia_fractionPpm = None \<rparr>,
     in_limits = \<lparr> il_maxCost = Some (2 ^ 80), il_minProceeds = None, il_deadlineBlock = Some 900 \<rparr>,
     in_digest = replicate 64 98 \<rparr>"

lemma sample_intent_ok:
  "request_ok (in_action sample_intent) (in_limits sample_intent)" "binds_live sample_binding (in_binding sample_intent)"
  "alive_at 800 (in_limits sample_intent)" "digest_shape (in_digest sample_intent)"
  by (simp_all add: sample_intent_def sample_binding_def request_ok_def u128_def U128_MAX_int_def U64_MAX_int_def U32_MAX_def
      binds_live_def alive_at_def GENESIS_HASH_def digest_shape_def DIGEST_HEX_CHARS_def LOWERCASE_HEX_def lower_hex_unit_def
      hex_digit_unit_def lit_def list_all_iff)

lemma sample_writable:
  "writable (request_value sample_intent)" "size_bound (request_value sample_intent) \<le> FROZEN_CORE_CEILING_BYTES"
proof -
  have g: "GENESIS_HASH (cb_genesisHash (in_binding sample_intent))" using sample_intent_ok(2) unfolding binds_live_def by blast
  have "0 \<le> cb_specVersion (in_binding sample_intent)" "cb_specVersion (in_binding sample_intent) \<le> U32_MAX"
    "0 \<le> cb_contractVersion (in_binding sample_intent)" "cb_contractVersion (in_binding sample_intent) \<le> U32_MAX"
    by (simp_all add: sample_intent_def sample_binding_def U32_MAX_def)
  from request_writable [OF sample_intent_ok(1,4) g this]
  show "writable (request_value sample_intent)" "size_bound (request_value sample_intent) \<le> FROZEN_CORE_CEILING_BYTES" .
qed

theorem every_request_is_admitted_witness:
  "\<exists>s. canonicalJson (request_value sample_intent) = Inr s \<and> length (encode_utf8 s) \<le> 552 \<and>
     admitIntent (\<lambda>_. Some (replicate 64 98)) sample_binding 800 (V_string s) = Inr sample_intent"
proof -
  obtain p where p: "digestPreimage INTENT_SCHEMA (request_core sample_intent) = Inr p" using preimage_of_request [OF sample_writable(1)] by blast
  show ?thesis
    using every_request_is_admitted [OF sample_intent_ok(1-3) _ _ _ _ p _ sample_intent_ok(4), of "\<lambda>_. Some (replicate 64 98)"]
    by (simp add: sample_intent_def sample_binding_def U32_MAX_def ceilings)
qed

lemma sample_admitted: "\<exists>s. admitIntent (\<lambda>_. Some (replicate 64 98)) sample_binding 800 (V_string s) = Inr sample_intent"
proof -
  obtain p where q: "digestPreimage INTENT_SCHEMA (core_of (normal (request_value sample_intent))) = Inr p"
    using preimage_of_request [OF sample_writable(1)] by blast
  have v: "0 \<le> cb_specVersion (in_binding sample_intent)" "cb_specVersion (in_binding sample_intent) \<le> U32_MAX"
    "0 \<le> cb_contractVersion (in_binding sample_intent)" "cb_contractVersion (in_binding sample_intent) \<le> U32_MAX"
    by (simp_all add: sample_intent_def sample_binding_def U32_MAX_def)
  obtain s where s: "serializeInto (request_value sample_intent) = Inr s" "small s" "length s \<le> size_bound (request_value sample_intent)"
    using writable_serializes [OF sample_writable(1)] by blast
  have "admitIntent (\<lambda>_. Some (replicate 64 98)) sample_binding 800 (V_string s) = Inr sample_intent"
    unfolding admitIntent_Inr
    using s(3) sample_writable(2) encode_small [OF s(2)] JSON_tree_serialized [OF s(1)] distinct_keys_normal [OF request_distinct [of sample_intent]]
      nesting_request [of sample_intent] depthOf_le [of 0] states_request [OF sample_intent_ok(1) v] q sample_intent_ok
    by (auto simp: ceilings plain_parts sample_intent_def)
  then show ?thesis by blast
qed

theorem admission_is_sound_witness:
  "\<exists>s i tree. admitIntent (\<lambda>_. Some (replicate 64 98)) sample_binding 800 (V_string s) = Inr i \<and>
     JSON_tree s = Some tree \<and> distinct_keys tree \<and> states tree i"
  using sample_admitted admission_is_sound by fastforce

end
