(* ===== verification/Intent_Clamp.thy ===== *)
theory Intent_Clamp
  imports Intent_Requests Js_Arith
begin

text \<open>
  Clamping, \<open>intents/src/clamp.ts\<close>: the limits of an admitted request narrowed against the
  client's own values at the refreshed block. An absent field is \<open>None\<close>; the block numbers the
  client supplies are JavaScript numbers, which the code checks before it uses them.
\<close>

subsection \<open>One limit\<close>

datatype clamp_source = By_intent | By_chain | By_policy

record clamped =
  cl_asked :: "int option"
  cl_chain :: int
  cl_encoded :: int
  cl_boundBy :: clamp_source
  cl_narrowed :: bool

definition clampCeiling :: "int option \<Rightarrow> int \<Rightarrow> int option \<Rightarrow> clamped" where
  "clampCeiling asked chain policy =
     (let (encoded, boundBy) = (chain, By_chain);
          (encoded, boundBy) = (case asked of Some a \<Rightarrow> if a < encoded then (a, By_intent) else (encoded, boundBy)
                                | None \<Rightarrow> (encoded, boundBy));
          (encoded, boundBy) = (case policy of Some p \<Rightarrow> if p < encoded then (p, By_policy) else (encoded, boundBy)
                                | None \<Rightarrow> (encoded, boundBy))
      in \<lparr> cl_asked = asked, cl_chain = chain, cl_encoded = encoded, cl_boundBy = boundBy,
           cl_narrowed = (case asked of None \<Rightarrow> True | Some a \<Rightarrow> encoded < a) \<rparr>)"

definition clampFloor :: "int option \<Rightarrow> int \<Rightarrow> int option \<Rightarrow> clamped" where
  "clampFloor asked chain policy =
     (let (encoded, boundBy) = (chain, By_chain);
          (encoded, boundBy) = (case asked of Some a \<Rightarrow> if a > encoded then (a, By_intent) else (encoded, boundBy)
                                | None \<Rightarrow> (encoded, boundBy));
          (encoded, boundBy) = (case policy of Some p \<Rightarrow> if p > encoded then (p, By_policy) else (encoded, boundBy)
                                | None \<Rightarrow> (encoded, boundBy))
      in \<lparr> cl_asked = asked, cl_chain = chain, cl_encoded = encoded, cl_boundBy = boundBy,
           cl_narrowed = (case asked of None \<Rightarrow> True | Some a \<Rightarrow> encoded > a) \<rparr>)"

subsection \<open>All limits of a request\<close>

record clamp_inputs =
  ci_chainMaxCost :: "int option"
  ci_chainMinProceeds :: "int option"
  ci_policyMaxCost :: "int option"
  ci_policyMinProceeds :: "int option"
  ci_currentBlock :: js_number
  ci_chainDeadlineBlock :: js_number

record clamped_limits =
  cm_maxCost :: "clamped option"
  cm_minProceeds :: "clamped option"
  cm_deadlineBlock :: clamped
  cm_anyNarrowed :: bool

definition clampDeadline :: "int option \<Rightarrow> int \<Rightarrow> clamped" where
  "clampDeadline asked chain =
     (let encoded = (case asked of Some a \<Rightarrow> min a chain | None \<Rightarrow> chain)
      in \<lparr> cl_asked = asked, cl_chain = chain, cl_encoded = encoded,
           cl_boundBy = (case asked of Some a \<Rightarrow> if encoded = a then By_intent else By_chain | None \<Rightarrow> By_chain),
           cl_narrowed = (case asked of None \<Rightarrow> True | Some a \<Rightarrow> encoded < a) \<rparr>)"

definition clampLimits :: "intent_limits \<Rightarrow> clamp_inputs \<Rightarrow> (stop, clamped_limits) result" where
  "clampLimits l i =
     (case (js_integer (JNumber (ci_currentBlock i)), js_integer (JNumber (ci_chainDeadlineBlock i))) of
        (Some currentBlock, Some chainDeadline) \<Rightarrow>
          if currentBlock < 0 \<or> chainDeadline \<le> currentBlock then bad HANDOFF_011 D_no_window
          else if (case il_deadlineBlock l of Some d \<Rightarrow> d \<le> currentBlock | None \<Rightarrow> False)
          then bad HANDOFF_011 (D_expired_at_refresh (the (il_deadlineBlock l)) currentBlock)
          else if il_maxCost l \<noteq> None \<and> ci_chainMaxCost i = None then bad HANDOFF_011 D_no_ceiling
          else if il_minProceeds l \<noteq> None \<and> ci_chainMinProceeds i = None then bad HANDOFF_011 D_no_floor
          else if ci_chainMaxCost i = None \<and> ci_chainMinProceeds i = None then bad HANDOFF_011 D_no_bound
          else
            (let deadline = clampDeadline (il_deadlineBlock l) chainDeadline;
                 maxCost = map_option (\<lambda>c. clampCeiling (il_maxCost l) c (ci_policyMaxCost i)) (ci_chainMaxCost i);
                 minProceeds = map_option (\<lambda>c. clampFloor (il_minProceeds l) c (ci_policyMinProceeds i)) (ci_chainMinProceeds i)
             in Inr \<lparr> cm_maxCost = maxCost, cm_minProceeds = minProceeds, cm_deadlineBlock = deadline,
                  cm_anyNarrowed = ((case maxCost of Some m \<Rightarrow> cl_narrowed m | None \<Rightarrow> False) \<or>
                    (case minProceeds of Some m \<Rightarrow> cl_narrowed m | None \<Rightarrow> False) \<or> cl_narrowed deadline) \<rparr>)
      | _ \<Rightarrow> bad HANDOFF_011 D_no_window)"

text \<open>\<open>Math.trunc\<close>; the sign of a zero is not modelled, and \<open>Math.max\<close> with 0 removes it.\<close>

fun js_trunc :: "js_number \<Rightarrow> js_number" where
  "js_trunc (Num r) = Num (of_int (if 0 \<le> r then \<lfloor>r\<rfloor> else \<lceil>r\<rceil>))"
| "js_trunc x = x"

definition narrowMaxAge :: "js_number option \<Rightarrow> js_number \<Rightarrow> js_number" where
  "narrowMaxAge askedBlocks clientMaxBlocks =
     (case askedBlocks of
        None \<Rightarrow> clientMaxBlocks
      | Some a \<Rightarrow> if a = NaN then Num 0 else jn_min (jn_max (js_trunc a) (Num 0)) clientMaxBlocks)"

subsection \<open>What is encoded\<close>

lemma clampCeiling_encoded:
  "cl_encoded (clampCeiling asked chain policy) = Min (insert chain (set_option asked \<union> set_option policy))"
  by (cases asked; cases policy) (auto simp: clampCeiling_def min_def)

lemma clampFloor_encoded:
  "cl_encoded (clampFloor asked chain policy) = Max (insert chain (set_option asked \<union> set_option policy))"
  by (cases asked; cases policy) (auto simp: clampFloor_def max_def)

lemma clamped_fields [simp]:
  "cl_asked (clampCeiling asked chain policy) = asked" "cl_chain (clampCeiling asked chain policy) = chain"
  "cl_asked (clampFloor asked chain policy) = asked" "cl_chain (clampFloor asked chain policy) = chain"
  "cl_asked (clampDeadline asked chain) = asked" "cl_chain (clampDeadline asked chain) = chain"
  by (simp_all add: clampCeiling_def clampFloor_def clampDeadline_def Let_def split_def)

lemma clampDeadline_encoded: "cl_encoded (clampDeadline asked chain) = Min (insert chain (set_option asked))"
  by (cases asked) (auto simp: clampDeadline_def Let_def min_def)

lemma clampCeiling_bounds [simp]:
  "cl_encoded (clampCeiling asked chain policy) \<le> chain" "cl_encoded (clampCeiling (Some a) chain policy) \<le> a"
  by (auto simp: clampCeiling_encoded intro: Min_le min.coboundedI2)

lemma clampFloor_bounds [simp]:
  "chain \<le> cl_encoded (clampFloor asked chain policy)" "a \<le> cl_encoded (clampFloor (Some a) chain policy)"
  by (auto simp: clampFloor_encoded intro: Max_ge max.coboundedI2)

text \<open>
  The label names an input the encoded value is equal to; a value is marked as narrowed exactly
  when the asked one is not what is encoded.
\<close>

definition source_value :: "clamp_source \<Rightarrow> int option \<Rightarrow> int \<Rightarrow> int option \<Rightarrow> int option" where
  "source_value s asked chain policy = (case s of By_intent \<Rightarrow> asked | By_chain \<Rightarrow> Some chain | By_policy \<Rightarrow> policy)"

lemma clamp_source_value:
  "source_value (cl_boundBy (clampCeiling asked chain policy)) asked chain policy = Some (cl_encoded (clampCeiling asked chain policy))"
  "source_value (cl_boundBy (clampFloor asked chain policy)) asked chain policy = Some (cl_encoded (clampFloor asked chain policy))"
  "source_value (cl_boundBy (clampDeadline asked chain)) asked chain None = Some (cl_encoded (clampDeadline asked chain))"
  by (auto simp: source_value_def clampCeiling_def clampFloor_def clampDeadline_def Let_def split: option.splits if_splits)

lemma clamp_narrowed:
  "cl_narrowed (clampCeiling asked chain policy) = (asked \<noteq> Some (cl_encoded (clampCeiling asked chain policy)))"
  "cl_narrowed (clampFloor asked chain policy) = (asked \<noteq> Some (cl_encoded (clampFloor asked chain policy)))"
  "cl_narrowed (clampDeadline asked chain) = (asked \<noteq> Some (cl_encoded (clampDeadline asked chain)))"
  by (auto simp: clampCeiling_def clampFloor_def clampDeadline_def Let_def split: option.splits if_splits)

text \<open>Which limits are clamped, and when there is no answer.\<close>

definition usable_window :: "clamp_inputs \<Rightarrow> int \<Rightarrow> int \<Rightarrow> bool" where
  "usable_window i b d \<longleftrightarrow>
     ci_currentBlock i = Num (of_int b) \<and> ci_chainDeadlineBlock i = Num (of_int d) \<and> 0 \<le> b \<and> b < d"

lemma js_integer_iff: "js_integer (JNumber x) = Some n \<longleftrightarrow> x = Num (of_int n)"
  by (cases x) (auto simp: js_integer_def split: if_splits)

lemma clampLimits_Inr:
  "clampLimits l i = Inr c \<longleftrightarrow>
     (\<exists>b d. usable_window i b d \<and> alive_at b l \<and>
        (il_maxCost l \<noteq> None \<longrightarrow> ci_chainMaxCost i \<noteq> None) \<and> (il_minProceeds l \<noteq> None \<longrightarrow> ci_chainMinProceeds i \<noteq> None) \<and>
        (ci_chainMaxCost i \<noteq> None \<or> ci_chainMinProceeds i \<noteq> None) \<and>
        cm_maxCost c = map_option (\<lambda>m. clampCeiling (il_maxCost l) m (ci_policyMaxCost i)) (ci_chainMaxCost i) \<and>
        cm_minProceeds c = map_option (\<lambda>m. clampFloor (il_minProceeds l) m (ci_policyMinProceeds i)) (ci_chainMinProceeds i) \<and>
        cm_deadlineBlock c = clampDeadline (il_deadlineBlock l) d \<and>
        cm_anyNarrowed c = ((\<exists>m. cm_maxCost c = Some m \<and> cl_narrowed m) \<or> (\<exists>m. cm_minProceeds c = Some m \<and> cl_narrowed m) \<or>
          cl_narrowed (cm_deadlineBlock c)))"
  (is "?lhs \<longleftrightarrow> ?rhs")
proof -
  have split: "?lhs \<longleftrightarrow> (\<exists>b d. js_integer (JNumber (ci_currentBlock i)) = Some b \<and> js_integer (JNumber (ci_chainDeadlineBlock i)) = Some d \<and> ?lhs)"
    by (auto simp: clampLimits_def split: option.splits)
  show ?thesis
    by (subst split) (cases c, auto simp: clampLimits_def usable_window_def alive_at_def Let_def
      simp flip: js_integer_iff split: option.splits)
qed

lemma clampLimits_refuses: "clampLimits l i = Inl e \<Longrightarrow> \<exists>d. e = Refused HANDOFF_011 d"
  by (auto simp: clampLimits_def Let_def split: option.splits if_splits)

lemma clampLimits_returns:
  "returns (clampLimits l i) \<longleftrightarrow>
     (\<exists>b d. usable_window i b d \<and> alive_at b l \<and> (il_maxCost l \<noteq> None \<longrightarrow> ci_chainMaxCost i \<noteq> None) \<and>
        (il_minProceeds l \<noteq> None \<longrightarrow> ci_chainMinProceeds i \<noteq> None) \<and> (ci_chainMaxCost i \<noteq> None \<or> ci_chainMinProceeds i \<noteq> None))"
  by (auto simp: returns_iff clampLimits_def usable_window_def alive_at_def Let_def simp flip: js_integer_iff
      split: option.splits)

subsection \<open>Properties of clamping\<close>

text \<open>C3
  A limit is only narrowed: what is encoded is the least of the asked, the recomputed and the
  policy ceiling, the greatest of the floors, the earlier of the deadlines and still ahead of the
  chain; a stated limit never disappears from the result; the label names an input that equals the
  encoded value; and the result reports a difference exactly when some encoded limit is not the
  one that was asked for.
\<close>

theorem clamp_only_narrows:
  assumes "clampLimits l i = Inr c" "usable_window i b d"
  shows "(case cm_maxCost c of
        None \<Rightarrow> ci_chainMaxCost i = None \<and> il_maxCost l = None
      | Some m \<Rightarrow> cl_encoded m = Min (insert (cl_chain m) (set_option (il_maxCost l) \<union> set_option (ci_policyMaxCost i))) \<and>
          ci_chainMaxCost i = Some (cl_chain m) \<and> cl_asked m = il_maxCost l \<and>
          source_value (cl_boundBy m) (il_maxCost l) (cl_chain m) (ci_policyMaxCost i) = Some (cl_encoded m)) \<and>
    (case cm_minProceeds c of
        None \<Rightarrow> ci_chainMinProceeds i = None \<and> il_minProceeds l = None
      | Some m \<Rightarrow> cl_encoded m = Max (insert (cl_chain m) (set_option (il_minProceeds l) \<union> set_option (ci_policyMinProceeds i))) \<and>
          ci_chainMinProceeds i = Some (cl_chain m) \<and> cl_asked m = il_minProceeds l \<and>
          source_value (cl_boundBy m) (il_minProceeds l) (cl_chain m) (ci_policyMinProceeds i) = Some (cl_encoded m)) \<and>
    cl_encoded (cm_deadlineBlock c) = Min (insert d (set_option (il_deadlineBlock l))) \<and> b < cl_encoded (cm_deadlineBlock c) \<and>
    cm_anyNarrowed c = (\<not> (map_option cl_encoded (cm_maxCost c) \<in> {None, il_maxCost l} \<and>
      map_option cl_encoded (cm_minProceeds c) \<in> {None, il_minProceeds l} \<and> Some (cl_encoded (cm_deadlineBlock c)) = il_deadlineBlock l))"
proof -
  from assms obtain b' d' where w: "usable_window i b' d'" and alive: "alive_at b' l"
    and present: "il_maxCost l \<noteq> None \<longrightarrow> ci_chainMaxCost i \<noteq> None" "il_minProceeds l \<noteq> None \<longrightarrow> ci_chainMinProceeds i \<noteq> None"
    and m: "cm_maxCost c = map_option (\<lambda>m. clampCeiling (il_maxCost l) m (ci_policyMaxCost i)) (ci_chainMaxCost i)"
      "cm_minProceeds c = map_option (\<lambda>m. clampFloor (il_minProceeds l) m (ci_policyMinProceeds i)) (ci_chainMinProceeds i)"
    and dl: "cm_deadlineBlock c = clampDeadline (il_deadlineBlock l) d'"
    and any: "cm_anyNarrowed c = ((\<exists>m. cm_maxCost c = Some m \<and> cl_narrowed m) \<or> (\<exists>m. cm_minProceeds c = Some m \<and> cl_narrowed m) \<or>
          cl_narrowed (cm_deadlineBlock c))"
    unfolding clampLimits_Inr by blast
  have bd: "b' = b" "d' = d" using w assms(2) by (simp_all add: usable_window_def)
  have e: "cl_encoded (cm_deadlineBlock c) = Min (insert d (set_option (il_deadlineBlock l)))"
    by (simp add: dl bd clampDeadline_encoded)
  have ahead: "b < cl_encoded (cm_deadlineBlock c)"
    using alive assms(2) by (cases "il_deadlineBlock l") (auto simp: dl bd clampDeadline_encoded alive_at_def usable_window_def)
  have n: "cm_anyNarrowed c = (\<not> (map_option cl_encoded (cm_maxCost c) \<in> {None, il_maxCost l} \<and>
      map_option cl_encoded (cm_minProceeds c) \<in> {None, il_minProceeds l} \<and> Some (cl_encoded (cm_deadlineBlock c)) = il_deadlineBlock l))"
    unfolding any by (cases "ci_chainMaxCost i"; cases "ci_chainMinProceeds i") (auto simp: m dl clamp_narrowed)
  show ?thesis
    using present e ahead n
    by (cases "ci_chainMaxCost i"; cases "ci_chainMinProceeds i") (simp_all add: m clamp_source_value clampCeiling_encoded clampFloor_encoded)
qed


definition sample_limits :: intent_limits where
  "sample_limits = \<lparr> il_maxCost = Some 100, il_minProceeds = None, il_deadlineBlock = Some 900 \<rparr>"

definition sample_inputs :: clamp_inputs where
  "sample_inputs = \<lparr> ci_chainMaxCost = Some 120, ci_chainMinProceeds = None, ci_policyMaxCost = Some 90, ci_policyMinProceeds = None,
     ci_currentBlock = Num (of_int 850), ci_chainDeadlineBlock = Num (of_int 880) \<rparr>"

lemma sample_window: "usable_window sample_inputs 850 880"
  by (simp add: usable_window_def sample_inputs_def)

lemma sample_clamped: "\<exists>c. clampLimits sample_limits sample_inputs = Inr c"
proof -
  have "returns (clampLimits sample_limits sample_inputs)"
    unfolding clampLimits_returns using sample_window by (auto simp: sample_inputs_def sample_limits_def alive_at_def)
  then show ?thesis by (simp add: returns_iff)
qed

theorem clamp_only_narrows_witness:
  "\<exists>c m. clampLimits sample_limits sample_inputs = Inr c \<and> cm_maxCost c = Some m \<and> cl_encoded m = 90 \<and> cl_boundBy m = By_policy \<and>
     cl_encoded (cm_deadlineBlock c) = 880 \<and> cm_anyNarrowed c"
proof -
  obtain c where c: "clampLimits sample_limits sample_inputs = Inr c" using sample_clamped by blast
  note n = clamp_only_narrows [OF c sample_window]
  then obtain m where m: "cm_maxCost c = Some m" by (cases "cm_maxCost c") (auto simp: sample_inputs_def)
  have "cl_boundBy m = By_policy"
    using n m by (cases "cl_boundBy m") (auto simp: sample_inputs_def sample_limits_def source_value_def)
  moreover have "cl_encoded m = 90" "cl_encoded (cm_deadlineBlock c) = 880" using n m by (auto simp: sample_inputs_def sample_limits_def)
  moreover from this have "cm_anyNarrowed c" using n by (simp add: sample_limits_def)
  ultimately show ?thesis using c m by blast
qed

text \<open>C37
  An admitted request meets the chain again at a refreshed block: if its deadline is still ahead
  there and the client has recomputed its own bound for the direction of the trade, clamping
  returns limits that bound the trade in that direction, no looser than the request stated and no
  looser than the client computed; if the deadline passed in between, or the bound is missing, the
  answer is a FE-HANDOFF-011 refusal and nothing is encoded.
\<close>

theorem admitted_request_is_bounded:
  assumes "admitIntent digest live admittedAt document = Inr i" "usable_window inputs b d"
  shows "case clampLimits (in_limits i) inputs of
      Inl e \<Rightarrow> (\<exists>w. e = Refused HANDOFF_011 w) \<and> (\<not> alive_at b (in_limits i) \<or>
        (if ia_kind (in_action i) = Close_position then ci_chainMinProceeds inputs = None else ci_chainMaxCost inputs = None))
    | Inr c \<Rightarrow> alive_at b (in_limits i) \<and> b < cl_encoded (cm_deadlineBlock c) \<and> cl_encoded (cm_deadlineBlock c) \<le> d \<and>
        (if ia_kind (in_action i) = Close_position
         then (\<exists>m asked. cm_minProceeds c = Some m \<and> il_minProceeds (in_limits i) = Some asked \<and> 0 \<le> asked \<and>
            asked \<le> cl_encoded m \<and> (\<forall>own_floor \<in> set_option (ci_chainMinProceeds inputs). own_floor \<le> cl_encoded m))
         else (\<exists>m asked. cm_maxCost c = Some m \<and> il_maxCost (in_limits i) = Some asked \<and> asked \<le> U128_MAX_int \<and>
            cl_encoded m \<le> asked \<and> (\<forall>own_cost \<in> set_option (ci_chainMaxCost inputs). cl_encoded m \<le> own_cost)))"
proof -
  let ?l = "in_limits i" and ?close = "ia_kind (in_action i) = Close_position"
  have ok: "request_ok (in_action i) ?l" using assms(1) unfolding admitIntent_Inr by blast
  show ?thesis
  proof (cases "clampLimits ?l inputs")
    case (Inl e)
    then have "\<not> returns (clampLimits ?l inputs)" by (simp add: returns_iff)
    then have "\<not> alive_at b ?l \<or> (if ?close then ci_chainMinProceeds inputs = None else ci_chainMaxCost inputs = None)"
      using ok assms(2) unfolding clampLimits_returns by (auto simp: request_ok_def split: if_splits)
    then show ?thesis using Inl clampLimits_refuses [OF Inl] by simp
  next
    case (Inr c)
    then obtain b' d' where w: "usable_window inputs b' d'" "alive_at b' ?l"
      and p: "il_maxCost ?l \<noteq> None \<longrightarrow> ci_chainMaxCost inputs \<noteq> None" "il_minProceeds ?l \<noteq> None \<longrightarrow> ci_chainMinProceeds inputs \<noteq> None"
      and m: "cm_maxCost c = map_option (\<lambda>m. clampCeiling (il_maxCost ?l) m (ci_policyMaxCost inputs)) (ci_chainMaxCost inputs)"
        "cm_minProceeds c = map_option (\<lambda>m. clampFloor (il_minProceeds ?l) m (ci_policyMinProceeds inputs)) (ci_chainMinProceeds inputs)"
      and dl: "cm_deadlineBlock c = clampDeadline (il_deadlineBlock ?l) d'"
      unfolding clampLimits_Inr by blast
    have bd: "b' = b" "d' = d" using w(1) assms(2) by (simp_all add: usable_window_def)
    have "b < cl_encoded (cm_deadlineBlock c) \<and> cl_encoded (cm_deadlineBlock c) \<le> d"
      using w by (cases "il_deadlineBlock ?l") (auto simp: dl bd clampDeadline_encoded alive_at_def usable_window_def)
    moreover have "if ?close then (\<exists>m asked. cm_minProceeds c = Some m \<and> il_minProceeds ?l = Some asked \<and> 0 \<le> asked \<and> asked \<le> cl_encoded m \<and>
          (\<forall>own_floor \<in> set_option (ci_chainMinProceeds inputs). own_floor \<le> cl_encoded m))
        else (\<exists>m asked. cm_maxCost c = Some m \<and> il_maxCost ?l = Some asked \<and> asked \<le> U128_MAX_int \<and> cl_encoded m \<le> asked \<and>
          (\<forall>own_cost \<in> set_option (ci_chainMaxCost inputs). cl_encoded m \<le> own_cost))"
      using ok p by (cases ?close) (auto simp: request_ok_def u128_def m)
    ultimately show ?thesis using Inr w(2) bd by simp
  qed
qed

theorem admitted_request_is_bounded_witness:
  "\<exists>s c. admitIntent (\<lambda>_. Some (replicate 64 98)) sample_binding 800 (V_string s) = Inr sample_intent \<and>
     clampLimits (in_limits sample_intent) sample_inputs = Inr c \<and> cl_encoded (cm_deadlineBlock c) \<le> 880"
proof -
  obtain s where s: "admitIntent (\<lambda>_. Some (replicate 64 98)) sample_binding 800 (V_string s) = Inr sample_intent"
    using sample_admitted by blast
  show ?thesis
    using s admitted_request_is_bounded [OF s sample_window]
    by (auto simp: sample_intent_def sample_inputs_def alive_at_def split: sum.splits)
qed

text \<open>A stated maximum age is never answered with more than the client's own, or than was stated.\<close>

lemma narrowMaxAge_never_widens:
  assumes "0 \<le> k"
  shows "\<exists>r. narrowMaxAge asked (Num k) = Num r \<and> 0 \<le> r \<and> r \<le> k \<and> (\<forall>q. asked = Some (Num q) \<longrightarrow> r \<le> max 0 q)"
proof (cases asked)
  case None then show ?thesis using assms by (simp add: narrowMaxAge_def)
next
  case (Some a)
  show ?thesis
  proof (cases a)
    case (Num q)
    have "of_int (if 0 \<le> q then \<lfloor>q\<rfloor> else \<lceil>q\<rceil>) \<le> max 0 q" by (simp add: max_def ceiling_le_iff)
    moreover have "0 \<le> (of_int (if 0 \<le> q then \<lfloor>q\<rfloor> else \<lceil>q\<rceil>) :: rat)" if "0 \<le> q" using that by simp
    ultimately show ?thesis using Some Num assms by (simp add: narrowMaxAge_def jn_min_def jn_max_def) linarith
  qed (use Some assms in \<open>auto simp: narrowMaxAge_def jn_min_def jn_max_def js_le_def\<close>)
qed

end
