(* ===== verification/Local_Candles.thy ===== *)
theory Local_Candles
  imports Handoff_Envelope Local_Coverage
begin

text \<open>
  Candles and the retention ladder of the local index,
  \<open>app/packages/local-index/src/candles.ts\<close>: minting a price observation, folding observations
  and a block's fills into candles, rolling finished candles up a rung, merging two contributions to
  one stored bar, and the labels of evicted ranges. Book and provider names are JavaScript strings;
  the numbers of a typed row are integers, added and subtracted as doubles are; the numbers that a
  function checks on entry are JavaScript numbers. A label's sentence is the rung it names.
\<close>

subsection \<open>The ladder\<close>

datatype coarse = Candles1h | Candles4h | Candles1d
datatype resolution = Raw | Coarse coarse

datatype candle_error =
    Not_a_rung | Not_a_height | Not_a_timestamp | Not_a_second | Sample_timestamp | Sample_block
  | Candle_unknown_origin | Candle_unnamed_provider | Candle_self_with_provider | Candle_key_mismatch
  | No_event_index | Different_rows | Not_coarser | Not_a_block_range | Not_an_eviction_time

definition DEGRADATION_LADDER :: "resolution list" where
  "DEGRADATION_LADDER = [Raw, Coarse Candles1h, Coarse Candles4h, Coarse Candles1d]"

definition COARSE_RUNGS :: "coarse list" where
  "COARSE_RUNGS = [Candles1h, Candles4h, Candles1d]"

fun indexOf :: "'a \<Rightarrow> 'a list \<Rightarrow> int" where
  "indexOf x [] = -1"
| "indexOf x (y # ys) = (if y = x then 0 else if indexOf x ys = -1 then -1 else 1 + indexOf x ys)"

definition element :: "'a list \<Rightarrow> int \<Rightarrow> 'a option" where
  "element xs i = (if 0 \<le> i \<and> i < int (length xs) then Some (xs ! nat i) else None)"

definition laddersAgree :: bool where
  "laddersAgree =
     (length DEGRADATION_LADDER = length COARSE_RUNGS + 1 \<and> element DEGRADATION_LADDER 0 = Some Raw \<and>
      list_all (\<lambda>(rung, index). element DEGRADATION_LADDER (index + 1) = Some (Coarse rung))
        (zip COARSE_RUNGS (map int [0..<length COARSE_RUNGS])))"

definition HOUR_SECONDS :: int where "HOUR_SECONDS = 3600"

fun bucketSeconds :: "coarse \<Rightarrow> int" where
  "bucketSeconds Candles1h = HOUR_SECONDS"
| "bucketSeconds Candles4h = 4 * HOUR_SECONDS"
| "bucketSeconds Candles1d = 24 * HOUR_SECONDS"

definition nextResolution :: "resolution \<Rightarrow> (candle_error, coarse option) result" where
  "nextResolution current =
     (case current of
        Raw \<Rightarrow> Inr (element COARSE_RUNGS 0)
      | Coarse c \<Rightarrow> if indexOf c COARSE_RUNGS = -1 then Inl Not_a_rung
                    else Inr (element COARSE_RUNGS (indexOf c COARSE_RUNGS + 1)))"

definition previousResolution :: "coarse \<Rightarrow> (candle_error, resolution) result" where
  "previousResolution c =
     (case element DEGRADATION_LADDER (indexOf (Coarse c) DEGRADATION_LADDER - 1) of
        None \<Rightarrow> Inl Not_a_rung | Some r \<Rightarrow> Inr r)"

subsection \<open>Provenance of a row\<close>

record sample_provenance =
  sp_origin :: units
  sp_providerId :: "units option"

definition sameSampleProvenance :: "sample_provenance \<Rightarrow> sample_provenance \<Rightarrow> bool" where
  "sameSampleProvenance a b \<longleftrightarrow> sp_origin a = sp_origin b \<and> sp_providerId a = sp_providerId b"

definition sourceKeyOf :: "sample_provenance \<Rightarrow> units" where
  "sourceKeyOf row =
     91 # quoted (sp_origin row) @ 44 # (case sp_providerId row of None \<Rightarrow> lit ''null'' | Some p \<Rightarrow> quoted p) @ [93]"

definition provenanceOf :: "sample_provenance \<Rightarrow> sample_provenance" where
  "provenanceOf row =
     (if sp_origin row = lit ''self'' then \<lparr> sp_origin = lit ''self'', sp_providerId = None \<rparr>
      else \<lparr> sp_origin = sp_origin row, sp_providerId = sp_providerId row \<rparr>)"

text \<open>The key is checked where a row has one; an input that is only being minted has none.\<close>

definition assertProvenance :: "sample_provenance \<Rightarrow> units option \<Rightarrow> (candle_error, unit) result" where
  "assertProvenance row sourceKey =
     (if sp_origin row \<noteq> lit ''self'' \<and> sp_origin row \<noteq> lit ''operator'' \<and> sp_origin row \<noteq> lit ''snapshot''
         \<and> sp_origin row \<noteq> lit ''indexer'' then Inl Candle_unknown_origin
      else if sp_origin row \<noteq> lit ''self'' \<and> (sp_providerId row = None \<or> sp_providerId row = Some []) then Inl Candle_unnamed_provider
      else if sp_origin row = lit ''self'' \<and> sp_providerId row \<noteq> None then Inl Candle_self_with_provider
      else if sourceKey \<noteq> None \<and> sourceKey \<noteq> Some (sourceKeyOf row) then Inl Candle_key_mismatch
      else Inr ())"

subsection \<open>Rows\<close>

record price_sample =
  ps_bookId :: units
  ps_at :: js_number
  ps_price1e9 :: int
  ps_blockNumber :: js_number
  ps_sourceKey :: units
  ps_provenance :: sample_provenance

record candle =
  cn_bookId :: units
  cn_resolution :: coarse
  cn_openAt :: int
  cn_open1e9 :: int
  cn_high1e9 :: int
  cn_low1e9 :: int
  cn_close1e9 :: int
  cn_samples :: int
  cn_fromBlock :: int
  cn_toBlock :: int
  cn_sourceKey :: units
  cn_provenance :: sample_provenance

record fold_point =
  fp_bookId :: units
  fp_at :: int
  fp_blockNumber :: int
  fp_order :: int
  fp_price1e9 :: int
  fp_sourceKey :: units
  fp_provenance :: sample_provenance

text \<open>\<open>Number.isInteger(x) && x >= 0\<close>.\<close>

definition js_natural :: "js_number \<Rightarrow> int option" where
  "js_natural x = (case js_integer (JNumber x) of Some n \<Rightarrow> if n < 0 then None else Some n | None \<Rightarrow> None)"

text \<open>The block time is in milliseconds; its quotient by 1000 is floored after the division has rounded.\<close>

definition seconds_of :: "int \<Rightarrow> int" where
  "seconds_of ms = \<lfloor>fl (of_int ms / 1000)\<rfloor>"

definition priceSample :: "units \<Rightarrow> js_number \<Rightarrow> js_number \<Rightarrow> int \<Rightarrow> sample_provenance \<Rightarrow> (candle_error, price_sample) result" where
  "priceSample bookId blockNumber blockTimestampMs price1e9 source =
     (case js_natural blockNumber of
        None \<Rightarrow> Inl Not_a_height
      | Some b \<Rightarrow>
          (case js_natural blockTimestampMs of
             None \<Rightarrow> Inl Not_a_timestamp
           | Some ms \<Rightarrow>
               rbind (assertProvenance source None) (\<lambda>_.
               Inr \<lparr> ps_bookId = bookId, ps_at = js_of_int (seconds_of ms), ps_price1e9 = price1e9, ps_blockNumber = blockNumber,
                     ps_sourceKey = sourceKeyOf source, ps_provenance = provenanceOf source \<rparr>)))"

definition bucket_of :: "int \<Rightarrow> coarse \<Rightarrow> int" where
  "bucket_of instant r = jsub instant (instant mod bucketSeconds r)"

definition bucketStart :: "js_number \<Rightarrow> coarse \<Rightarrow> (candle_error, int) result" where
  "bucketStart instant r = (case js_natural instant of None \<Rightarrow> Inl Not_a_second | Some n \<Rightarrow> Inr (bucket_of n r))"

subsection \<open>Grouping\<close>

text \<open>A \<open>Map\<close> in insertion order, and \<open>get\<close>, change, \<open>set\<close> with a default.\<close>

fun upsert :: "'k \<Rightarrow> 'v \<Rightarrow> ('v \<Rightarrow> 'v) \<Rightarrow> ('k \<times> 'v) list \<Rightarrow> ('k \<times> 'v) list" where
  "upsert k d f [] = [(k, f d)]"
| "upsert k d f ((j, v) # m) = (if j = k then (j, f v) # m else (j, v) # upsert k d f m)"

type_synonym 'a buckets = "(units \<times> (units \<times> (int \<times> 'a list) list) list) list"

definition put_in_bucket :: "('a \<Rightarrow> units \<times> units \<times> int) \<Rightarrow> 'a buckets \<Rightarrow> 'a \<Rightarrow> 'a buckets" where
  "put_in_bucket key m x =
     (case key x of (book, source, openAt) \<Rightarrow>
        upsert book [] (upsert source [] (upsert openAt [] (\<lambda>bucket. bucket @ [x]))) m)"

definition grouped :: "('a \<Rightarrow> units \<times> units \<times> int) \<Rightarrow> 'a list \<Rightarrow> 'a buckets" where
  "grouped key xs = foldl (put_in_bucket key) [] xs"

text \<open>The three nested loops over the maps.\<close>

definition each_bucket :: "(units \<Rightarrow> int \<Rightarrow> 'a list \<Rightarrow> 'b) \<Rightarrow> 'a buckets \<Rightarrow> 'b list" where
  "each_bucket f m =
     concat (map (\<lambda>(book, bySource). concat (map (\<lambda>(_, buckets). map (\<lambda>(openAt, bucket). f book openAt bucket) buckets) bySource)) m)"

definition compare_units :: "units \<Rightarrow> units \<Rightarrow> int" where
  "compare_units a b = (if a < b then -1 else if a > b then 1 else 0)"

definition byBookThenBucket :: "candle \<Rightarrow> candle \<Rightarrow> int" where
  "byBookThenBucket a b =
     (if cn_bookId a \<noteq> cn_bookId b then (if cn_bookId a < cn_bookId b then -1 else 1)
      else if cn_openAt a \<noteq> cn_openAt b then cn_openAt a - cn_openAt b
      else compare_units (sourceKeyOf (cn_provenance a)) (sourceKeyOf (cn_provenance b)))"

subsection \<open>Folding points\<close>

definition by_time :: "fold_point \<Rightarrow> fold_point \<Rightarrow> int" where
  "by_time a b = js_or (fp_at a - fp_at b) (js_or (fp_blockNumber a - fp_blockNumber b) (fp_order a - fp_order b))"

definition summary :: "coarse \<Rightarrow> units \<Rightarrow> int \<Rightarrow> fold_point list \<Rightarrow> candle" where
  "summary r book openAt bucket =
     (let ordered = js_sort by_time bucket; first = hd ordered
      in \<lparr> cn_bookId = book, cn_resolution = r, cn_openAt = openAt, cn_open1e9 = fp_price1e9 first,
           cn_high1e9 = foldl (\<lambda>high p. if fp_price1e9 p > high then fp_price1e9 p else high) (fp_price1e9 first) ordered,
           cn_low1e9 = foldl (\<lambda>low p. if fp_price1e9 p < low then fp_price1e9 p else low) (fp_price1e9 first) ordered,
           cn_close1e9 = fp_price1e9 (last ordered), cn_samples = int (length ordered),
           cn_fromBlock = foldl (\<lambda>b p. if fp_blockNumber p < b then fp_blockNumber p else b) (fp_blockNumber first) ordered,
           cn_toBlock = foldl (\<lambda>b p. if fp_blockNumber p > b then fp_blockNumber p else b) (fp_blockNumber first) ordered,
           cn_sourceKey = sourceKeyOf (fp_provenance first), cn_provenance = provenanceOf (fp_provenance first) \<rparr>)"

definition point_key :: "coarse \<Rightarrow> fold_point \<Rightarrow> units \<times> units \<times> int" where
  "point_key r p = (fp_bookId p, sourceKeyOf (fp_provenance p), bucket_of (fp_at p) r)"

text \<open>Both callers have checked the instants, so \<open>bucketStart\<close> does not throw here.\<close>

definition foldPoints :: "fold_point list \<Rightarrow> coarse \<Rightarrow> candle list" where
  "foldPoints points r = js_sort byBookThenBucket (each_bucket (summary r) (grouped (point_key r) points))"

definition sample_point :: "price_sample \<Rightarrow> (candle_error, fold_point) result" where
  "sample_point s =
     (case js_natural (ps_at s) of
        None \<Rightarrow> Inl Sample_timestamp
      | Some t \<Rightarrow>
          (case js_natural (ps_blockNumber s) of
             None \<Rightarrow> Inl Sample_block
           | Some b \<Rightarrow>
               rbind (assertProvenance (ps_provenance s) (Some (ps_sourceKey s))) (\<lambda>_.
               Inr \<lparr> fp_bookId = ps_bookId s, fp_at = t, fp_blockNumber = b, fp_order = 0, fp_price1e9 = ps_price1e9 s,
                     fp_sourceKey = ps_sourceKey s, fp_provenance = ps_provenance s \<rparr>)))"

definition foldCandles :: "price_sample list \<Rightarrow> coarse \<Rightarrow> (candle_error, candle list) result" where
  "foldCandles samples r = rbind (collect (map sample_point samples)) (\<lambda>points. Inr (foldPoints points r))"

definition SCAN_AGGREGATE_RESOLUTION :: coarse where
  "SCAN_AGGREGATE_RESOLUTION = Candles1h"

record block_trade_fill =
  tf_bookId :: units
  tf_price1e9 :: int
  tf_eventIndex :: js_number

definition fill_point :: "int \<Rightarrow> int \<Rightarrow> sample_provenance \<Rightarrow> block_trade_fill \<Rightarrow> (candle_error, fold_point) result" where
  "fill_point instant blockNumber source fill =
     (case js_natural (tf_eventIndex fill) of
        None \<Rightarrow> Inl No_event_index
      | Some index \<Rightarrow>
          Inr \<lparr> fp_bookId = tf_bookId fill, fp_at = instant, fp_blockNumber = blockNumber, fp_order = index,
                fp_price1e9 = tf_price1e9 fill, fp_sourceKey = sourceKeyOf source, fp_provenance = provenanceOf source \<rparr>)"

definition tradeCandles ::
  "js_number \<Rightarrow> js_number \<Rightarrow> block_trade_fill list \<Rightarrow> coarse \<Rightarrow> sample_provenance \<Rightarrow> (candle_error, candle list) result" where
  "tradeCandles blockNumber blockTimestampMs fills r source =
     (case js_natural blockNumber of
        None \<Rightarrow> Inl Not_a_height
      | Some b \<Rightarrow>
          (case js_natural blockTimestampMs of
             None \<Rightarrow> Inl Not_a_timestamp
           | Some ms \<Rightarrow>
               rbind (assertProvenance source None) (\<lambda>_.
               rbind (collect (map (fill_point (seconds_of ms) b source) fills)) (\<lambda>points.
               Inr (foldPoints points r)))))"

definition candleCoversBlock :: "candle \<Rightarrow> int \<Rightarrow> bool" where
  "candleCoversBlock c b \<longleftrightarrow> b \<ge> cn_fromBlock c \<and> b \<le> cn_toBlock c"

subsection \<open>Merging two contributions\<close>

definition mergeCandle :: "candle \<Rightarrow> candle \<Rightarrow> (candle_error, candle) result" where
  "mergeCandle existing incoming =
     (if cn_bookId existing \<noteq> cn_bookId incoming \<or> cn_sourceKey existing \<noteq> cn_sourceKey incoming
         \<or> cn_resolution existing \<noteq> cn_resolution incoming \<or> cn_openAt existing \<noteq> cn_openAt incoming then Inl Different_rows
      else
        rbind (assertProvenance (cn_provenance existing) (Some (cn_sourceKey existing))) (\<lambda>_.
        rbind (assertProvenance (cn_provenance incoming) (Some (cn_sourceKey incoming))) (\<lambda>_.
        let opensFirst = (if cn_fromBlock incoming < cn_fromBlock existing then incoming else existing);
            closesLast = (if cn_toBlock incoming > cn_toBlock existing then incoming else existing)
        in Inr (existing \<lparr>
             cn_open1e9 := cn_open1e9 opensFirst, cn_close1e9 := cn_close1e9 closesLast,
             cn_high1e9 := (if cn_high1e9 incoming > cn_high1e9 existing then cn_high1e9 incoming else cn_high1e9 existing),
             cn_low1e9 := (if cn_low1e9 incoming < cn_low1e9 existing then cn_low1e9 incoming else cn_low1e9 existing),
             cn_samples := jadd (cn_samples existing) (cn_samples incoming),
             cn_fromBlock := min (cn_fromBlock existing) (cn_fromBlock incoming),
             cn_toBlock := max (cn_toBlock existing) (cn_toBlock incoming) \<rparr>))))"

subsection \<open>Rolling up\<close>

definition by_openAt :: "candle \<Rightarrow> candle \<Rightarrow> int" where
  "by_openAt a b = cn_openAt a - cn_openAt b"

definition rolled :: "coarse \<Rightarrow> units \<Rightarrow> int \<Rightarrow> candle list \<Rightarrow> candle" where
  "rolled target book openAt bucket =
     (let ordered = js_sort by_openAt bucket; first = hd ordered
      in \<lparr> cn_bookId = book, cn_resolution = target, cn_openAt = openAt, cn_open1e9 = cn_open1e9 first,
           cn_high1e9 = foldl (\<lambda>high c. if cn_high1e9 c > high then cn_high1e9 c else high) (cn_high1e9 first) ordered,
           cn_low1e9 = foldl (\<lambda>low c. if cn_low1e9 c < low then cn_low1e9 c else low) (cn_low1e9 first) ordered,
           cn_close1e9 = cn_close1e9 (last ordered), cn_samples = foldl (\<lambda>n c. jadd n (cn_samples c)) 0 ordered,
           cn_fromBlock = foldl (\<lambda>b c. min b (cn_fromBlock c)) (cn_fromBlock first) ordered,
           cn_toBlock = foldl (\<lambda>b c. max b (cn_toBlock c)) (cn_toBlock first) ordered,
           cn_sourceKey = sourceKeyOf (cn_provenance first), cn_provenance = provenanceOf (cn_provenance first) \<rparr>)"

definition candle_key :: "coarse \<Rightarrow> candle \<Rightarrow> units \<times> units \<times> int" where
  "candle_key target c = (cn_bookId c, sourceKeyOf (cn_provenance c), bucket_of (cn_openAt c) target)"

definition rollUp :: "candle list \<Rightarrow> coarse \<Rightarrow> (candle_error, candle list) result" where
  "rollUp candles target =
     rbind (for_each (\<lambda>c. if bucketSeconds (cn_resolution c) \<ge> bucketSeconds target then Inl Not_coarser else Inr ()) candles) (\<lambda>_.
     rbind (for_each (\<lambda>c. assertProvenance (cn_provenance c) (Some (cn_sourceKey c))) candles) (\<lambda>_.
     Inr (js_sort byBookThenBucket (each_bucket (rolled target) (grouped (candle_key target) candles)))))"

subsection \<open>Labels of evicted ranges\<close>

record downsampled_range =
  dr_fromBlock :: int
  dr_toBlock :: int
  dr_resolution :: coarse
  dr_reason :: resolution
  dr_at :: rat

definition downsample :: "js_number \<Rightarrow> js_number \<Rightarrow> coarse \<Rightarrow> js_number \<Rightarrow> (candle_error, downsampled_range) result" where
  "downsample fromBlock toBlock to instant =
     (case (js_integer (JNumber fromBlock), js_integer (JNumber toBlock)) of
        (Some f, Some t) \<Rightarrow>
          if f > t then Inl Not_a_block_range
          else (case instant of
              Num a \<Rightarrow> if a < 0 then Inl Not_an_eviction_time
                       else rbind (previousResolution to) (\<lambda>folded.
                         Inr \<lparr> dr_fromBlock = f, dr_toBlock = t, dr_resolution = to, dr_reason = folded, dr_at = a \<rparr>)
            | _ \<Rightarrow> Inl Not_an_eviction_time)
      | _ \<Rightarrow> Inl Not_a_block_range)"

definition rank :: "coarse \<Rightarrow> int" where
  "rank r = indexOf (Coarse r) DEGRADATION_LADDER"

definition subtractRange :: "downsampled_range \<Rightarrow> downsampled_range \<Rightarrow> (candle_error, downsampled_range list) result" where
  "subtractRange rng cover =
     (if dr_toBlock cover < dr_fromBlock rng \<or> dr_fromBlock cover > dr_toBlock rng then Inr [rng]
      else
        rbind (if dr_fromBlock cover > dr_fromBlock rng
               then rbind (downsample (js_of_int (dr_fromBlock rng)) (js_of_int (jsub (dr_fromBlock cover) 1)) (dr_resolution rng) (Num (dr_at rng)))
                      (\<lambda>d. Inr [d])
               else Inr []) (\<lambda>before.
        rbind (if dr_toBlock cover < dr_toBlock rng
               then rbind (downsample (js_of_int (jadd (dr_toBlock cover) 1)) (js_of_int (dr_toBlock rng)) (dr_resolution rng) (Num (dr_at rng)))
                      (\<lambda>d. Inr [d])
               else Inr []) (\<lambda>after. Inr (before @ after))))"

definition coarser :: "downsampled_range \<Rightarrow> downsampled_range \<Rightarrow> bool" where
  "coarser rng incoming \<longleftrightarrow> rank (dr_resolution rng) > rank (dr_resolution incoming)"

text \<open>What the stored ranges keep, and what is left of the incoming one.\<close>

definition kept_ranges :: "downsampled_range list \<Rightarrow> downsampled_range \<Rightarrow> (candle_error, downsampled_range list) result" where
  "kept_ranges existing incoming =
     rbind (collect (map (\<lambda>rng. if coarser rng incoming then Inr [rng] else subtractRange rng incoming) existing)) (\<lambda>kept. Inr (concat kept))"

fun incoming_pieces :: "downsampled_range \<Rightarrow> downsampled_range list \<Rightarrow> downsampled_range list \<Rightarrow> (candle_error, downsampled_range list) result" where
  "incoming_pieces incoming [] pieces = Inr pieces"
| "incoming_pieces incoming (rng # rs) pieces =
     (if coarser rng incoming
      then rbind (collect (map (\<lambda>piece. subtractRange piece rng) pieces)) (\<lambda>ps. incoming_pieces incoming rs (concat ps))
      else incoming_pieces incoming rs pieces)"

definition by_rung :: "downsampled_range \<Rightarrow> downsampled_range \<Rightarrow> int" where
  "by_rung a b = js_or (rank (dr_resolution a) - rank (dr_resolution b))
     (js_or (dr_fromBlock a - dr_fromBlock b) (dr_toBlock a - dr_toBlock b))"

definition by_blocks :: "downsampled_range \<Rightarrow> downsampled_range \<Rightarrow> int" where
  "by_blocks a b = js_or (dr_fromBlock a - dr_fromBlock b) (dr_toBlock a - dr_toBlock b)"

fun join_labels :: "downsampled_range list \<Rightarrow> downsampled_range list \<Rightarrow> (candle_error, downsampled_range list) result" where
  "join_labels out [] = Inr out"
| "join_labels out (rng # rs) =
     (if out \<noteq> [] \<and> dr_resolution (last out) = dr_resolution rng \<and> dr_fromBlock rng \<le> jadd (dr_toBlock (last out)) 1
      then rbind (downsample (js_of_int (dr_fromBlock (last out))) (js_of_int (max (dr_toBlock (last out)) (dr_toBlock rng)))
                    (dr_resolution rng) (Num (max (dr_at (last out)) (dr_at rng)))) (\<lambda>d. join_labels (butlast out @ [d]) rs)
      else join_labels (out @ [rng]) rs)"

definition mergeDownsampled :: "downsampled_range list \<Rightarrow> downsampled_range \<Rightarrow> (candle_error, downsampled_range list) result" where
  "mergeDownsampled existing incoming =
     rbind (kept_ranges existing incoming) (\<lambda>kept.
     rbind (incoming_pieces incoming existing [incoming]) (\<lambda>pieces.
     rbind (join_labels [] (js_sort by_rung (filter (\<lambda>r. dr_fromBlock r \<le> dr_toBlock r) (kept @ pieces)))) (\<lambda>out.
     Inr (js_sort by_blocks out))))"

subsection \<open>What grouping yields\<close>

lemma map_of_upsert: "map_of (upsert k d f m) = (map_of m)(k \<mapsto> f (case map_of m k of None \<Rightarrow> d | Some v \<Rightarrow> v))"
  by (induction m) (auto simp: fun_eq_iff)

lemma keys_upsert: "fst ` set (upsert k d f m) = insert k (fst ` set m)"
  by (induction k d f m rule: upsert.induct) (simp_all add: insert_commute)

lemma distinct_upsert: "distinct (map fst m) \<Longrightarrow> distinct (map fst (upsert k d f m))"
  by (induction k d f m rule: upsert.induct) (auto simp: keys_upsert)

definition bucket_at :: "'a buckets \<Rightarrow> units \<times> units \<times> int \<Rightarrow> 'a list option" where
  "bucket_at m = (\<lambda>(book, source, openAt).
     Option.bind (map_of m book) (\<lambda>bySource. Option.bind (map_of bySource source) (\<lambda>buckets. map_of buckets openAt)))"

definition keyed :: "'a buckets \<Rightarrow> ((units \<times> units \<times> int) \<times> 'a list) list" where
  "keyed m = concat (map (\<lambda>(book, bySource). concat (map (\<lambda>(source, buckets).
     map (\<lambda>(openAt, bucket). ((book, source, openAt), bucket)) buckets) bySource)) m)"

definition maps_ok :: "'a buckets \<Rightarrow> bool" where
  "maps_ok m \<longleftrightarrow> distinct (map fst m) \<and>
     (\<forall>(_, bySource) \<in> set m. distinct (map fst bySource) \<and> (\<forall>(_, buckets) \<in> set bySource. distinct (map fst buckets)))"

lemma each_bucket_keyed: "each_bucket f m = map (\<lambda>((book, _, openAt), bucket). f book openAt bucket) (keyed m)"
  by (simp add: each_bucket_def keyed_def map_concat comp_def case_prod_unfold)

lemma bucket_at_put:
  "bucket_at (put_in_bucket key m x) = (bucket_at m)(key x \<mapsto> (case bucket_at m (key x) of None \<Rightarrow> [] | Some b \<Rightarrow> b) @ [x])"
proof -
  obtain book source openAt where k: "key x = (book, source, openAt)" by (cases "key x")
  show ?thesis
    by (auto simp: fun_eq_iff k put_in_bucket_def bucket_at_def map_of_upsert split: option.splits)
qed

lemma set_upsert: "distinct (map fst m) \<Longrightarrow> set (upsert k d f m) \<subseteq> insert (k, f (case map_of m k of None \<Rightarrow> d | Some v \<Rightarrow> v)) (set m)"
  by (induction k d f m rule: upsert.induct) (auto simp: rev_image_eqI split: if_splits option.splits)

lemma maps_ok_put:
  assumes "maps_ok m"
  shows "maps_ok (put_in_bucket key m x)"
proof -
  obtain book source openAt where k: "key x = (book, source, openAt)" by (cases "key x")
  define g where "g = upsert openAt [] (\<lambda>bucket. bucket @ [x])"
  have g: "distinct (map fst b) \<Longrightarrow> distinct (map fst (g b))" for b by (simp add: g_def distinct_upsert)
  have m: "distinct (map fst m)" "\<And>b sm. (b, sm) \<in> set m \<Longrightarrow> distinct (map fst sm)"
    "\<And>b sm s bm. (b, sm) \<in> set m \<Longrightarrow> (s, bm) \<in> set sm \<Longrightarrow> distinct (map fst bm)"
    using assms by (auto simp: maps_ok_def)
  define old where "old = (case map_of m book of None \<Rightarrow> [] | Some v \<Rightarrow> v)"
  have old: "distinct (map fst old)" "\<And>s bm. (s, bm) \<in> set old \<Longrightarrow> distinct (map fst bm)"
    using m(2,3) map_of_SomeD [of m book] by (cases "map_of m book"; force simp: old_def)+
  define new where "new = upsert source [] g old"
  have new: "distinct (map fst new)" by (simp add: new_def distinct_upsert old)
  have newb: "distinct (map fst bm)" if "(s, bm) \<in> set new" for s bm
  proof -
    have "(s, bm) \<in> insert (source, g (case map_of old source of None \<Rightarrow> [] | Some v \<Rightarrow> v)) (set old)"
      using set_upsert [OF old(1)] that unfolding new_def by blast
    moreover have "distinct (map fst (case map_of old source of None \<Rightarrow> [] | Some v \<Rightarrow> v))"
      using old(2) by (auto split: option.splits dest!: map_of_SomeD)
    ultimately show ?thesis using g old(2) by auto
  qed
  have "set (put_in_bucket key m x) \<subseteq> insert (book, new) (set m)"
    using set_upsert [OF m(1), of book "[]" "upsert source [] g"]
    by (simp add: put_in_bucket_def k new_def old_def g_def)
  moreover have "distinct (map fst (put_in_bucket key m x))" by (simp add: put_in_bucket_def k distinct_upsert m)
  ultimately show ?thesis using m new newb unfolding maps_ok_def by fastforce
qed

lemma distinct_concat_keys:
  assumes "distinct (map fst m)" "\<And>x. x \<in> set m \<Longrightarrow> distinct (h x)" "\<And>x y. x \<in> set m \<Longrightarrow> y \<in> set (h x) \<Longrightarrow> g y = fst x"
  shows "distinct (concat (map h m))"
  using assms
proof (induction m)
  case (Cons x m)
  have "fst x \<notin> fst ` set m" using Cons.prems(1) by auto
  moreover have g: "\<And>z y. z \<in> set (x # m) \<Longrightarrow> y \<in> set (h z) \<Longrightarrow> g y = fst z" using Cons.prems(3) by blast
  have "fst z = fst x" if "z \<in> set m" "y \<in> set (h x)" "y \<in> set (h z)" for y z
    using g [of x y] g [of z y] that by simp
  ultimately have "set (h x) \<inter> (\<Union>z \<in> set m. set (h z)) = {}" by (force simp: image_iff)
  then show ?case using Cons by simp
qed simp

lemma distinct_keyed:
  assumes "maps_ok m"
  shows "distinct (map fst (keyed m))"
proof -
  define h2 where "h2 book = (\<lambda>(source :: units, buckets :: (int \<times> 'a list) list). map (\<lambda>(openAt, _). (book :: units, source, openAt)) buckets)" for book
  define h1 where "h1 = (\<lambda>(book, bySource). concat (map (h2 book) bySource))"
  have e: "map fst (keyed m) = concat (map h1 m)"
    by (simp add: keyed_def h1_def h2_def map_concat comp_def case_prod_unfold)
  have d2: "distinct (h2 book sb)" if "distinct (map fst (snd sb))" for book sb
  proof -
    have "h2 book sb = map (\<lambda>k. (book, fst sb, k)) (map fst (snd sb))" by (simp add: h2_def split_beta comp_def)
    moreover have "inj_on (\<lambda>k. (book, fst sb, k)) (set (map fst (snd sb)))" by (rule inj_onI) simp
    ultimately show ?thesis using that by (simp only: distinct_map simp_thms)
  qed
  have d1: "distinct (h1 x)" if x: "x \<in> set m" for x
  proof -
    have ok: "distinct (map fst (snd x))" "\<And>sb. sb \<in> set (snd x) \<Longrightarrow> distinct (map fst (snd sb))"
      using assms x unfolding maps_ok_def by fastforce+
    show ?thesis unfolding h1_def split_beta
      by (rule distinct_concat_keys [where g = "\<lambda>(_, s, _). s"]) (use ok d2 in \<open>auto simp: h2_def split_beta\<close>)
  qed
  have "distinct (map fst m)" using assms by (simp add: maps_ok_def)
  then show ?thesis unfolding e
    by (rule distinct_concat_keys [where g = fst]) (use d1 in \<open>auto simp: h1_def h2_def split_beta\<close>)
qed

lemma set_keyed:
  assumes "maps_ok m"
  shows "(k, b) \<in> set (keyed m) \<longleftrightarrow> bucket_at m k = Some b"
proof -
  obtain book source openAt where k: "k = (book, source, openAt)" by (cases k)
  have m: "distinct (map fst m)" "\<And>b sm. (b, sm) \<in> set m \<Longrightarrow> distinct (map fst sm)"
    "\<And>b sm s bm. (b, sm) \<in> set m \<Longrightarrow> (s, bm) \<in> set sm \<Longrightarrow> distinct (map fst bm)"
    using assms by (auto simp: maps_ok_def)
  have "(k, b) \<in> set (keyed m) \<longleftrightarrow> (\<exists>sm bm. (book, sm) \<in> set m \<and> (source, bm) \<in> set sm \<and> (openAt, b) \<in> set bm)"
    by (force simp: keyed_def k)
  also have "\<dots> \<longleftrightarrow> (\<exists>sm bm. map_of m book = Some sm \<and> map_of sm source = Some bm \<and> map_of bm openAt = Some b)"
    using m by (metis map_of_eq_Some_iff)
  also have "\<dots> \<longleftrightarrow> bucket_at m k = Some b"
    by (auto simp: k bucket_at_def bind_eq_Some_conv)
  finally show ?thesis .
qed

lemma grouped_snoc: "grouped key (xs @ [x]) = put_in_bucket key (grouped key xs) x"
  by (simp add: grouped_def)

lemma maps_ok_grouped: "maps_ok (grouped key xs)"
proof (induction xs rule: rev_induct)
  case Nil show ?case by (simp add: grouped_def maps_ok_def)
next
  case (snoc x xs) then show ?case by (simp add: grouped_snoc maps_ok_put)
qed

lemma bucket_at_grouped: "bucket_at (grouped key xs) k = (if k \<in> key ` set xs then Some (filter (\<lambda>x. key x = k) xs) else None)"
proof (induction xs arbitrary: k rule: rev_induct)
  case Nil show ?case by (cases k) (simp add: grouped_def bucket_at_def)
next
  case (snoc x xs)
  have "filter (\<lambda>y. key y = key x) xs = []" if "key x \<notin> key ` set xs" using that by (auto simp: filter_empty_conv image_iff)
  then show ?case by (cases "key x \<in> key ` set xs") (auto simp: grouped_snoc bucket_at_put snoc.IH)
qed

lemma keyed_grouped:
  "distinct (map fst (keyed (grouped key xs)))"
  "set (keyed (grouped key xs)) = (\<lambda>k. (k, filter (\<lambda>x. key x = k) xs)) ` key ` set xs"
proof -
  show "distinct (map fst (keyed (grouped key xs)))" by (rule distinct_keyed [OF maps_ok_grouped])
  show "set (keyed (grouped key xs)) = (\<lambda>k. (k, filter (\<lambda>x. key x = k) xs)) ` key ` set xs"
    by (auto simp: set_keyed [OF maps_ok_grouped] bucket_at_grouped image_iff split: if_splits)
qed

subsection \<open>The ends of a sorted list\<close>

lemma hd_sort_Cons: "xs \<noteq> [] \<Longrightarrow> hd (js_sort cmp (x # xs)) = (if cmp x (hd (js_sort cmp xs)) \<le> 0 then x else hd (js_sort cmp xs))"
  by (cases "js_sort cmp xs") (auto simp: js_sort_Cons)

lemma last_insert_by: "last (insert_by cmp x ys) = (if \<forall>y \<in> set ys. 0 < cmp x y then x else last ys)"
proof (induction ys)
  case (Cons y ys)
  have "insert_by cmp x ys \<noteq> []" by (cases ys) simp_all
  then show ?case using Cons by auto
qed simp

lemma last_sort_Cons: "last (js_sort cmp (x # xs)) = (if \<forall>y \<in> set xs. 0 < cmp x y then x else last (js_sort cmp xs))"
  by (simp add: js_sort_Cons last_insert_by)

lemma hd_sort_in: "xs \<noteq> [] \<Longrightarrow> hd (js_sort cmp xs) \<in> set xs"
  by (metis hd_in_set js_sort_eq_Nil_iff set_js_sort)

lemma last_sort_in: "xs \<noteq> [] \<Longrightarrow> last (js_sort cmp xs) \<in> set xs"
  by (metis last_in_set js_sort_eq_Nil_iff set_js_sort)

text \<open>The first and the last point of a list are those of any part that comes strictly first or last.\<close>

lemma hd_sort_filter:
  assumes "\<exists>x \<in> set xs. P x" "\<forall>y \<in> set xs. \<forall>z \<in> set xs. \<not> P y \<longrightarrow> P z \<longrightarrow> 0 < cmp y z \<and> cmp z y < 0"
  shows "hd (js_sort cmp xs) = hd (js_sort cmp (filter P xs))"
  using assms
proof (induction xs)
  case (Cons x xs)
  show ?case
  proof (cases "\<exists>y \<in> set xs. P y")
    case True
    then have ne: "xs \<noteq> []" "filter P xs \<noteq> []" by (auto simp: filter_empty_conv)
    have IH: "hd (js_sort cmp xs) = hd (js_sort cmp (filter P xs))" using Cons.IH [OF True] Cons.prems(2) by simp
    have "hd (js_sort cmp (filter P xs)) \<in> set (filter P xs)" by (rule hd_sort_in [OF ne(2)])
    then show ?thesis using Cons.prems(2) IH by (auto simp: hd_sort_Cons ne)
  next
    case False
    then have "filter P xs = []" by (auto simp: filter_empty_conv)
    moreover have "P x" using False Cons.prems(1) by simp
    moreover have "hd (js_sort cmp (x # xs)) = x"
    proof (cases "xs = []")
      case False
      then have "cmp x (hd (js_sort cmp xs)) < 0" using hd_sort_in [OF False] \<open>\<not> (\<exists>y \<in> set xs. P y)\<close> \<open>P x\<close> Cons.prems(2) by simp
      then show ?thesis using False by (simp add: hd_sort_Cons)
    qed (simp add: js_sort_Cons)
    ultimately show ?thesis by (simp add: js_sort_Cons)
  qed
qed simp

lemma last_sort_filter:
  assumes "\<exists>x \<in> set xs. P x" "\<forall>y \<in> set xs. \<forall>z \<in> set xs. \<not> P y \<longrightarrow> P z \<longrightarrow> 0 < cmp z y \<and> cmp y z < 0"
  shows "last (js_sort cmp xs) = last (js_sort cmp (filter P xs))"
  using assms
proof (induction xs)
  case (Cons x xs)
  show ?case
  proof (cases "\<exists>y \<in> set xs. P y")
    case True
    have IH: "last (js_sort cmp xs) = last (js_sort cmp (filter P xs))" using Cons.IH [OF True] Cons.prems(2) by simp
    show ?thesis
    proof (cases "P x")
      case False
      then have "\<exists>y \<in> set xs. cmp x y < 0" using True Cons.prems(2) by auto
      then have "\<not> (\<forall>y \<in> set xs. 0 < cmp x y)" by force
      then have "last (js_sort cmp (x # xs)) = last (js_sort cmp xs)" by (simp only: last_sort_Cons if_False)
      then show ?thesis using IH False by simp
    next
      case xP: True
      have "(\<forall>y \<in> set xs. 0 < cmp x y) = (\<forall>y \<in> set (filter P xs). 0 < cmp x y)" using Cons.prems(2) xP by auto
      then show ?thesis using IH xP by (simp only: last_sort_Cons filter.simps if_True)
    qed
  next
    case False
    then have "filter P xs = []" by (auto simp: filter_empty_conv)
    moreover have "P x" using False Cons.prems(1) by simp
    moreover have "last (js_sort cmp (x # xs)) = x" using False \<open>P x\<close> Cons.prems(2) by (simp add: last_sort_Cons)
    ultimately show ?thesis by (simp add: js_sort_Cons)
  qed
qed simp

lemma hd_sort_le:
  assumes "compares cmp (set xs)" "x \<in> set xs"
  shows "cmp (hd (js_sort cmp xs)) x \<le> 0"
proof -
  note s = sorted_js_sort [OF assms(1)]
  have "x \<in> set (js_sort cmp xs)" using assms(2) by simp
  then obtain h t where ht: "js_sort cmp xs = h # t" by (cases "js_sort cmp xs") auto
  have "cmp x x = 0" by (rule compares_refl [OF assms])
  then show ?thesis using s assms(2) ht \<open>x \<in> set (js_sort cmp xs)\<close> by auto
qed

lemma last_sort_ge:
  assumes "compares cmp (set xs)" "x \<in> set xs"
  shows "cmp x (last (js_sort cmp xs)) \<le> 0"
proof -
  note s = sorted_js_sort [OF assms(1)]
  have x: "x \<in> set (js_sort cmp xs)" using assms(2) by simp
  then have ne: "js_sort cmp xs \<noteq> []" by auto
  have "cmp x x = 0" by (rule compares_refl [OF assms])
  moreover have "sorted_wrt (\<lambda>a b. cmp a b \<le> 0) (butlast (js_sort cmp xs) @ [last (js_sort cmp xs)])" using s ne by simp
  moreover have "x \<in> set (butlast (js_sort cmp xs)) \<or> x = last (js_sort cmp xs)" using x ne by (metis UnE append_butlast_last_id empty_iff insert_iff list.set set_append)
  ultimately show ?thesis unfolding sorted_wrt_append by auto
qed

text \<open>A comparator that tells all elements apart leaves one order.\<close>

lemma js_sort_unique:
  assumes "compares cmp (set xs)" "\<forall>a \<in> set xs. \<forall>b \<in> set xs. cmp a b = 0 \<longrightarrow> a = b" "mset xs = mset ys"
  shows "js_sort cmp xs = js_sort cmp ys"
proof -
  have set: "set ys = set xs" using assms(3) by (metis mset_eq_setD)
  have s: "sorted_wrt (\<lambda>a b. cmp a b \<le> 0) (js_sort cmp xs)" "sorted_wrt (\<lambda>a b. cmp a b \<le> 0) (js_sort cmp ys)"
    using sorted_js_sort [OF assms(1)] sorted_js_sort [of cmp ys] assms(1) set by simp_all
  have eq: "us = vs" if "sorted_wrt (\<lambda>a b. cmp a b \<le> 0) us" "sorted_wrt (\<lambda>a b. cmp a b \<le> 0) vs" "mset us = mset vs" "set us \<subseteq> set xs" for us vs
    using that
  proof (induction us arbitrary: vs)
    case (Cons u us)
    from Cons.prems(3) obtain v ws where vs: "vs = v # ws" by (cases vs) auto
    have in1: "v \<in> set (u # us)" "u \<in> set vs" using Cons.prems(3) unfolding vs by (metis list.set_intros(1) mset_eq_setD)+
    have S: "u \<in> set xs" "v \<in> set xs" using Cons.prems(4) in1(1) by auto
    have "cmp u v \<le> 0" using in1(1) Cons.prems(1) compares_refl [OF assms(1) S(1)] by auto
    moreover have "cmp v u \<le> 0" using in1(2) Cons.prems(2) compares_refl [OF assms(1) S(2)] unfolding vs by auto
    ultimately have "cmp u v = 0" using compares_sign [OF assms(1) S] compares_sign [OF assms(1) S(2,1)] by linarith
    then have uv: "u = v" using assms(2) S by blast
    have "us = ws" by (rule Cons.IH) (use Cons.prems uv in \<open>auto simp: vs\<close>)
    then show ?case using uv vs by simp
  qed simp
  show ?thesis by (rule eq [OF s]) (use assms(3) in simp_all)
qed

subsection \<open>Folds over a bucket\<close>

lemma foldl_highest: "foldl (\<lambda>h p. if f p > h then f p else h) a xs = Max (insert a (f ` set xs))" for f :: "'b \<Rightarrow> int"
proof (induction xs arbitrary: a)
  case (Cons x xs)
  have "(if f x > a then f x else a) = max a (f x)" by simp
  then show ?case using Cons by (simp add: insert_commute Max_insert2 max.assoc [symmetric] del: Max_insert) (cases "xs = []"; simp add: max.left_commute max.commute)
qed simp

lemma foldl_lowest: "foldl (\<lambda>l p. if f p < l then f p else l) a xs = Min (insert a (f ` set xs))" for f :: "'b \<Rightarrow> int"
proof (induction xs arbitrary: a)
  case (Cons x xs)
  have "(if f x < a then f x else a) = min a (f x)" by simp
  then show ?case using Cons by (simp del: Min_insert) (cases "xs = []"; simp add: min.left_commute min.commute)
qed simp

lemma foldl_min: "foldl (\<lambda>h p. min h (f p)) a xs = Min (insert a (f ` set xs))" for f :: "'b \<Rightarrow> int"
proof -
  have "(\<lambda>h p. min h (f p)) = (\<lambda>h p. if f p < h then f p else h)" by (auto simp: fun_eq_iff)
  then show ?thesis by (simp only: foldl_lowest)
qed

lemma Max_of_parts:
  assumes "finite C" "C \<noteq> {}" "\<And>c. c \<in> C \<Longrightarrow> finite (S c) \<and> S c \<noteq> {}"
  shows "Max ((\<lambda>c. Max (S c)) ` C) = (Max (\<Union>c \<in> C. S c) :: int)"
proof (rule Max_eqI)
  have fin: "finite (\<Union>c \<in> C. S c)" "(\<Union>c \<in> C. S c) \<noteq> {}" using assms by auto
  show "finite ((\<lambda>c. Max (S c)) ` C)" using assms(1) by simp
  fix y assume "y \<in> (\<lambda>c. Max (S c)) ` C"
  then show "y \<le> Max (\<Union>c \<in> C. S c)" using assms(3) fin by (auto intro!: Max_ge intro: Max_in)
next
  have fin: "finite (\<Union>c \<in> C. S c)" "(\<Union>c \<in> C. S c) \<noteq> {}" using assms by auto
  obtain c where c: "c \<in> C" "Max (\<Union>c \<in> C. S c) \<in> S c" using Max_in [OF fin] by blast
  have "y \<le> Max (\<Union>c \<in> C. S c)" if "y \<in> S c" for y using that c(1) by (intro Max_ge [OF fin(1)]) blast
  then have "Max (S c) = Max (\<Union>c \<in> C. S c)" by (intro Max_eqI) (use c assms(3) in auto)
  then show "Max (\<Union>c \<in> C. S c) \<in> (\<lambda>c. Max (S c)) ` C" using c(1) by (metis imageI)
qed

lemma Min_of_parts:
  assumes "finite C" "C \<noteq> {}" "\<And>c. c \<in> C \<Longrightarrow> finite (S c) \<and> S c \<noteq> {}"
  shows "Min ((\<lambda>c. Min (S c)) ` C) = (Min (\<Union>c \<in> C. S c) :: int)"
proof (rule Min_eqI)
  have fin: "finite (\<Union>c \<in> C. S c)" "(\<Union>c \<in> C. S c) \<noteq> {}" using assms by auto
  show "finite ((\<lambda>c. Min (S c)) ` C)" using assms(1) by simp
  fix y assume "y \<in> (\<lambda>c. Min (S c)) ` C"
  then show "Min (\<Union>c \<in> C. S c) \<le> y" using assms(3) fin by (auto intro!: Min_le intro: Min_in)
next
  have fin: "finite (\<Union>c \<in> C. S c)" "(\<Union>c \<in> C. S c) \<noteq> {}" using assms by auto
  obtain c where c: "c \<in> C" "Min (\<Union>c \<in> C. S c) \<in> S c" using Min_in [OF fin] by blast
  have "Min (\<Union>c \<in> C. S c) \<le> y" if "y \<in> S c" for y using that c(1) by (intro Min_le [OF fin(1)]) blast
  then have "Min (S c) = Min (\<Union>c \<in> C. S c)" by (intro Min_eqI) (use c assms(3) in auto)
  then show "Min (\<Union>c \<in> C. S c) \<in> (\<lambda>c. Min (S c)) ` C" using c(1) by (metis imageI)
qed

lemma length_parts:
  assumes "finite K" "g ` set xs \<subseteq> K"
  shows "(\<Sum>k \<in> K. int (length (filter (\<lambda>x. g x = k) xs))) = int (length xs)"
  using assms(2)
proof (induction xs)
  case (Cons x xs)
  have "(\<Sum>k \<in> K. int (length (filter (\<lambda>y. g y = k) (x # xs)))) = (\<Sum>k \<in> K. (if k = g x then 1 else 0) + int (length (filter (\<lambda>y. g y = k) xs)))"
    by (rule sum.cong) auto
  also have "\<dots> = 1 + int (length xs)" using Cons assms(1) by (simp add: sum.distrib sum.delta)
  finally show ?case by simp
qed simp

lemma foldl_jadd:
  assumes "\<forall>x \<in> set xs. 0 \<le> f x" "0 \<le> a" "a + sum_list (map f xs) \<le> 2 ^ 53"
  shows "foldl (\<lambda>n x. jadd n (f x)) a xs = a + sum_list (map f xs)"
  using assms
proof (induction xs arbitrary: a)
  case (Cons x xs)
  have "0 \<le> sum_list (map f xs)" using Cons.prems(1) by (intro sum_list_nonneg) auto
  then have "jadd a (f x) = a + f x" using Cons.prems by (intro jadd_nonneg_exact) auto
  then show ?case using Cons.IH [of "a + f x"] Cons.prems by simp
qed simp

subsection \<open>Rolling up is folding wider\<close>

lemma source_key_lexes:
  "lex (sourceKeyOf p) = Some [T_lbracket, T_string (sp_origin p), T_comma, (case sp_providerId p of None \<Rightarrow> T_null | Some i \<Rightarrow> T_string i), T_rbracket]"
proof -
  have n: "lex (lit ''null'' @ [93]) = Some [T_null, T_rbracket]" by code_simp
  have r: "lex [93] = Some [T_rbracket]" by code_simp
  have p: "punctuation 91 = Some T_lbracket" "punctuation 44 = Some T_comma" by code_simp+
  show ?thesis
    by (cases "sp_providerId p") (simp_all add: sourceKeyOf_def lex_punctuation lex_quoted p n r del: lex.simps)
qed

lemma sourceKeyOf_inject: "sourceKeyOf p = sourceKeyOf q \<longleftrightarrow> p = q"
proof
  assume "sourceKeyOf p = sourceKeyOf q"
  then have "sp_origin p = sp_origin q" "sp_providerId p = sp_providerId q"
    using source_key_lexes [of p] source_key_lexes [of q] by (auto split: option.splits)
  then show "p = q" by simp
qed simp

definition provenance_ok :: "sample_provenance \<Rightarrow> bool" where
  "provenance_ok p \<longleftrightarrow> assertProvenance p (Some (sourceKeyOf p)) = Inr ()"

lemma provenanceOf_ok: "provenance_ok p \<Longrightarrow> provenanceOf p = p"
  by (auto simp: provenance_ok_def assertProvenance_def provenanceOf_def split: if_splits)

lemma assertProvenance_key: "assertProvenance p (Some k) = Inr () \<longleftrightarrow> provenance_ok p \<and> k = sourceKeyOf p"
  by (auto simp: provenance_ok_def assertProvenance_def)

definition point_ok :: "fold_point \<Rightarrow> bool" where
  "point_ok p \<longleftrightarrow> 0 \<le> fp_at p \<and> fp_at p \<le> MAX_SAFE_INTEGER \<and> provenance_ok (fp_provenance p)"

lemma bucketSeconds_pos [simp]: "0 < bucketSeconds r"
  by (cases r) (simp_all add: HOUR_SECONDS_def)

lemma bucketSeconds_dvd: "bucketSeconds r0 \<le> bucketSeconds r \<Longrightarrow> bucketSeconds r0 dvd bucketSeconds r"
  by (cases r0; cases r) (simp_all add: HOUR_SECONDS_def)

lemma bucket_of_exact:
  assumes "0 \<le> t" "t \<le> MAX_SAFE_INTEGER"
  shows "bucket_of t r = bucketSeconds r * (t div bucketSeconds r)"
proof -
  have "t - t mod bucketSeconds r = bucketSeconds r * (t div bucketSeconds r)" by (simp add: minus_mod_eq_mult_div)
  moreover have "0 \<le> t mod bucketSeconds r" "t mod bucketSeconds r \<le> t" using assms(1) by (simp_all add: zmod_le_nonneg_dividend)
  ultimately show ?thesis using assms by (simp add: bucket_of_def jsub_nonneg_exact MAX_SAFE_INTEGER_def)
qed

lemma bucket_of_bounds:
  assumes "0 \<le> t" "t \<le> MAX_SAFE_INTEGER"
  shows "0 \<le> bucket_of t r" "bucket_of t r \<le> t" "bucket_of t r \<le> MAX_SAFE_INTEGER"
proof -
  have "0 \<le> t div bucketSeconds r" using assms(1) by (simp add: pos_imp_zdiv_nonneg_iff)
  then show "0 \<le> bucket_of t r" using assms by (simp add: bucket_of_exact zero_le_mult_iff less_imp_le)
  have "bucketSeconds r * (t div bucketSeconds r) + t mod bucketSeconds r = t" by simp
  moreover have "0 \<le> t mod bucketSeconds r" by simp
  ultimately show le: "bucket_of t r \<le> t" unfolding bucket_of_exact [OF assms] by linarith
  show "bucket_of t r \<le> MAX_SAFE_INTEGER" using le assms by simp
qed

lemma bucket_of_nested:
  assumes "0 \<le> t" "t \<le> MAX_SAFE_INTEGER" "bucketSeconds r0 \<le> bucketSeconds r"
  shows "bucket_of (bucket_of t r0) r = bucket_of t r"
proof -
  obtain k where k: "bucketSeconds r = bucketSeconds r0 * k" using bucketSeconds_dvd [OF assms(3)] by blast
  then have "0 < k" using bucketSeconds_pos [of r] bucketSeconds_pos [of r0] by (metis zero_less_mult_pos)
  then have "bucketSeconds r0 * (t div bucketSeconds r0) div bucketSeconds r = t div bucketSeconds r"
    unfolding k by (simp add: zdiv_zmult2_eq)
  then have "bucket_of t r0 div bucketSeconds r = t div bucketSeconds r" by (simp add: bucket_of_exact assms)
  then show ?thesis
    using bucket_of_exact [OF bucket_of_bounds(1,3) [OF assms(1,2), of r0], of r] by (simp add: bucket_of_exact [OF assms(1,2)])
qed

lemma bucket_of_mono:
  assumes "0 \<le> s" "t \<le> MAX_SAFE_INTEGER" "bucket_of s r < bucket_of t r" "0 \<le> t" "s \<le> MAX_SAFE_INTEGER"
  shows "s < t"
proof (rule ccontr)
  assume "\<not> s < t"
  then have "t div bucketSeconds r \<le> s div bucketSeconds r" by (intro zdiv_mono1) simp_all
  then have "bucketSeconds r * (t div bucketSeconds r) \<le> bucketSeconds r * (s div bucketSeconds r)" by (intro mult_left_mono) (simp_all add: less_imp_le)
  then show False using assms by (simp add: bucket_of_exact)
qed

subsection \<open>One bar per bucket\<close>

lemma compares_by_time: "compares by_time S"
  unfolding by_time_def by (intro compares_or compares_key)

lemma compares_by_openAt: "compares by_openAt S"
  unfolding by_openAt_def by (rule compares_key)

lemma compare_units_sign: "compare_units a b < 0 \<longleftrightarrow> a < b" "0 < compare_units a b \<longleftrightarrow> b < a" "compare_units a b \<le> 0 \<longleftrightarrow> a \<le> b" "compare_units a b = 0 \<longleftrightarrow> a = b"
  by (auto simp: compare_units_def)

lemma compares_units: "compares (\<lambda>a b. compare_units (k a) (k b)) S"
  unfolding compares_def compare_units_sign by auto

lemma byBook_or: "byBookThenBucket a b = js_or (compare_units (cn_bookId a) (cn_bookId b)) (js_or (cn_openAt a - cn_openAt b)
    (compare_units (sourceKeyOf (cn_provenance a)) (sourceKeyOf (cn_provenance b))))"
  by (auto simp: byBookThenBucket_def js_or_def compare_units_def)

lemma compares_byBook: "compares byBookThenBucket S"
proof -
  have "byBookThenBucket = (\<lambda>a b. js_or (compare_units (cn_bookId a) (cn_bookId b)) (js_or (cn_openAt a - cn_openAt b)
      (compare_units (sourceKeyOf (cn_provenance a)) (sourceKeyOf (cn_provenance b)))))"
    by (simp add: fun_eq_iff byBook_or)
  then show ?thesis by (rule ssubst) (intro compares_or compares_key compares_units)
qed

definition row_key :: "candle \<Rightarrow> units \<times> units \<times> int" where
  "row_key c = (cn_bookId c, sourceKeyOf (cn_provenance c), cn_openAt c)"

lemma byBook_zero: "byBookThenBucket a b = 0 \<longleftrightarrow> row_key a = row_key b"
  by (auto simp: row_key_def byBookThenBucket_def compare_units_def split: if_splits)

text \<open>Two collections of bars with one bar per row key sort alike as soon as they are equal as sets.\<close>

lemma sort_bars:
  assumes "distinct (map row_key xs)" "distinct (map row_key ys)" "set xs = set ys"
  shows "js_sort byBookThenBucket xs = js_sort byBookThenBucket ys"
proof (rule js_sort_unique [OF compares_byBook])
  show "\<forall>a \<in> set xs. \<forall>b \<in> set xs. byBookThenBucket a b = 0 \<longrightarrow> a = b"
    using assms(1) by (auto simp: byBook_zero distinct_map dest: inj_onD)
  show "mset xs = mset ys" using assms by (simp add: distinct_map flip: set_eq_iff_mset_eq_distinct)
qed

definition bars :: "(units \<Rightarrow> int \<Rightarrow> 'a list \<Rightarrow> candle) \<Rightarrow> ('a \<Rightarrow> units \<times> units \<times> int) \<Rightarrow> 'a list \<Rightarrow> candle list" where
  "bars f key xs = each_bucket f (grouped key xs)"

lemma set_bars: "set (bars f key xs) = (\<lambda>(book, s, openAt). f book openAt (filter (\<lambda>x. key x = (book, s, openAt)) xs)) ` key ` set xs"
  by (force simp: bars_def each_bucket_keyed keyed_grouped(2) split_beta)

lemma distinct_bars:
  assumes "\<And>book s openAt. (book, s, openAt) \<in> key ` set xs \<Longrightarrow>
      row_key (f book openAt (filter (\<lambda>x. key x = (book, s, openAt)) xs)) = (book, s, openAt)"
  shows "distinct (map row_key (bars f key xs))"
proof -
  have "map row_key (bars f key xs) = map fst (keyed (grouped key xs))"
  proof -
    have "row_key (f (fst (fst e)) (snd (snd (fst e))) (snd e)) = fst e" if e: "e \<in> set (keyed (grouped key xs))" for e
    proof -
      obtain book s openAt b where eq: "e = ((book, s, openAt), b)" by (metis prod.exhaust)
      have "(book, s, openAt) \<in> key ` set xs" "b = filter (\<lambda>x. key x = (book, s, openAt)) xs" using e unfolding keyed_grouped(2) eq by auto
      then show ?thesis using assms [of book s openAt] by (simp add: eq)
    qed
    then show ?thesis by (simp add: bars_def each_bucket_keyed split_beta)
  qed
  then show ?thesis by (simp add: keyed_grouped(1))
qed

lemma foldPoints_bars: "foldPoints points r = js_sort byBookThenBucket (bars (summary r) (point_key r) points)"
  by (simp add: foldPoints_def bars_def)

lemma point_key_ok: "point_ok p \<Longrightarrow> fst (snd (point_key r p)) = sourceKeyOf (fp_provenance p)"
  by (simp add: point_key_def)

lemma length_js_sort: "length (js_sort cmp xs) = length xs"
  by (metis mset_js_sort size_mset)

text \<open>The fields of the bar of a non-empty bucket, with the ends it is opened and closed by.\<close>

lemma summary_fields:
  assumes "xs \<noteq> []"
  shows "cn_open1e9 (summary r b t xs) = fp_price1e9 (hd (js_sort by_time xs))"
    "cn_close1e9 (summary r b t xs) = fp_price1e9 (last (js_sort by_time xs))"
    "cn_high1e9 (summary r b t xs) = Max (fp_price1e9 ` set xs)" "cn_low1e9 (summary r b t xs) = Min (fp_price1e9 ` set xs)"
    "cn_samples (summary r b t xs) = int (length xs)"
    "cn_fromBlock (summary r b t xs) = Min (fp_blockNumber ` set xs)" "cn_toBlock (summary r b t xs) = Max (fp_blockNumber ` set xs)"
    "cn_bookId (summary r b t xs) = b" "cn_resolution (summary r b t xs) = r" "cn_openAt (summary r b t xs) = t"
    "cn_sourceKey (summary r b t xs) = sourceKeyOf (fp_provenance (hd (js_sort by_time xs)))"
    "cn_provenance (summary r b t xs) = provenanceOf (fp_provenance (hd (js_sort by_time xs)))"
  using hd_sort_in [OF assms, of by_time] assms
  by (simp_all add: summary_def Let_def foldl_highest foldl_lowest insert_absorb length_js_sort)

lemma rolled_fields:
  assumes "cs \<noteq> []"
  shows "cn_open1e9 (rolled r b t cs) = cn_open1e9 (hd (js_sort by_openAt cs))"
    "cn_close1e9 (rolled r b t cs) = cn_close1e9 (last (js_sort by_openAt cs))"
    "cn_high1e9 (rolled r b t cs) = Max (cn_high1e9 ` set cs)" "cn_low1e9 (rolled r b t cs) = Min (cn_low1e9 ` set cs)"
    "cn_samples (rolled r b t cs) = foldl (\<lambda>n c. jadd n (cn_samples c)) 0 (js_sort by_openAt cs)"
    "cn_fromBlock (rolled r b t cs) = Min (cn_fromBlock ` set cs)" "cn_toBlock (rolled r b t cs) = Max (cn_toBlock ` set cs)"
    "cn_bookId (rolled r b t cs) = b" "cn_resolution (rolled r b t cs) = r" "cn_openAt (rolled r b t cs) = t"
    "cn_sourceKey (rolled r b t cs) = sourceKeyOf (cn_provenance (hd (js_sort by_openAt cs)))"
    "cn_provenance (rolled r b t cs) = provenanceOf (cn_provenance (hd (js_sort by_openAt cs)))"
  using hd_sort_in [OF assms, of by_openAt] assms
  by (simp_all add: rolled_def Let_def foldl_highest foldl_lowest foldl_max foldl_min insert_absorb)

lemma summary_key:
  assumes "\<forall>p \<in> set xs. point_ok p" "(b, s, t) \<in> point_key r ` set xs"
  shows "row_key (summary r b t (filter (\<lambda>p. point_key r p = (b, s, t)) xs)) = (b, s, t)"
    "assertProvenance (cn_provenance (summary r b t (filter (\<lambda>p. point_key r p = (b, s, t)) xs)))
       (Some (cn_sourceKey (summary r b t (filter (\<lambda>p. point_key r p = (b, s, t)) xs)))) = Inr ()"
proof -
  let ?X = "filter (\<lambda>p. point_key r p = (b, s, t)) xs"
  have ne: "?X \<noteq> []" using assms(2) by (auto simp: filter_empty_conv)
  have "hd (js_sort by_time ?X) \<in> set ?X" by (rule hd_sort_in [OF ne])
  then have h: "point_ok (hd (js_sort by_time ?X))" "sourceKeyOf (fp_provenance (hd (js_sort by_time ?X))) = s" using assms(1) by (auto simp: point_key_def)
  then have p: "provenance_ok (fp_provenance (hd (js_sort by_time ?X)))" by (simp add: point_ok_def)
  show "row_key (summary r b t ?X) = (b, s, t)" using h(2) by (simp add: row_key_def summary_fields [OF ne] provenanceOf_ok [OF p])
  show "assertProvenance (cn_provenance (summary r b t ?X)) (Some (cn_sourceKey (summary r b t ?X))) = Inr ()"
    by (simp add: assertProvenance_key summary_fields [OF ne] provenanceOf_ok [OF p] p)
qed

subsection \<open>The narrow buckets of a wide one\<close>

definition narrow :: "coarse \<Rightarrow> fold_point list \<Rightarrow> int \<Rightarrow> fold_point list" where
  "narrow r xs u = filter (\<lambda>p. bucket_of (fp_at p) r = u) xs"

definition starts :: "coarse \<Rightarrow> fold_point list \<Rightarrow> int set" where
  "starts r xs = (\<lambda>p. bucket_of (fp_at p) r) ` set xs"

lemma starts_finite [simp]: "finite (starts r xs)" and starts_empty [simp]: "starts r xs = {} \<longleftrightarrow> xs = []"
  by (simp_all add: starts_def)

lemma narrow_nonempty: "u \<in> starts r xs \<Longrightarrow> narrow r xs u \<noteq> []"
  by (auto simp: starts_def narrow_def filter_empty_conv)

lemma narrow_union: "(\<Union>u \<in> starts r xs. f ` set (narrow r xs u)) = f ` set xs"
  by (auto simp: starts_def narrow_def)

lemma narrow_apart:
  assumes "point_ok y" "point_ok z" "bucket_of (fp_at z) r < bucket_of (fp_at y) r"
  shows "0 < by_time y z \<and> by_time z y < 0"
  using bucket_of_mono [OF _ _ assms(3)] assms(1,2) by (simp add: by_time_def js_or_def point_ok_def)

lemma narrow_first:
  assumes "\<forall>p \<in> set xs. point_ok p" "u \<in> starts r xs" "\<forall>v \<in> starts r xs. u \<le> v"
  shows "hd (js_sort by_time xs) = hd (js_sort by_time (narrow r xs u))"
  unfolding narrow_def
proof (rule hd_sort_filter)
  show "\<exists>x \<in> set xs. bucket_of (fp_at x) r = u" using assms(2) unfolding starts_def by blast
  show "\<forall>y \<in> set xs. \<forall>z \<in> set xs. bucket_of (fp_at y) r \<noteq> u \<longrightarrow> bucket_of (fp_at z) r = u \<longrightarrow> 0 < by_time y z \<and> by_time z y < 0"
    using assms(1,3) narrow_apart unfolding starts_def by (metis imageI order_le_less)
qed

lemma narrow_last:
  assumes "\<forall>p \<in> set xs. point_ok p" "u \<in> starts r xs" "\<forall>v \<in> starts r xs. v \<le> u"
  shows "last (js_sort by_time xs) = last (js_sort by_time (narrow r xs u))"
  unfolding narrow_def
proof (rule last_sort_filter)
  show "\<exists>x \<in> set xs. bucket_of (fp_at x) r = u" using assms(2) unfolding starts_def by blast
  show "\<forall>y \<in> set xs. \<forall>z \<in> set xs. bucket_of (fp_at y) r \<noteq> u \<longrightarrow> bucket_of (fp_at z) r = u \<longrightarrow> 0 < by_time z y \<and> by_time y z < 0"
    using assms(1,3) narrow_apart unfolding starts_def by (metis imageI order_le_less)
qed

lemma narrow_extremes:
  assumes "cs \<noteq> []" "set cs = bar ` starts r xs" "\<And>u. u \<in> starts r xs \<Longrightarrow> cn_openAt (bar u) = u"
  obtains u v where "u \<in> starts r xs" "hd (js_sort by_openAt cs) = bar u" "\<forall>w \<in> starts r xs. u \<le> w"
    "v \<in> starts r xs" "last (js_sort by_openAt cs) = bar v" "\<forall>w \<in> starts r xs. w \<le> v"
proof -
  obtain u v where u: "u \<in> starts r xs" "hd (js_sort by_openAt cs) = bar u" and v: "v \<in> starts r xs" "last (js_sort by_openAt cs) = bar v"
    using hd_sort_in [OF assms(1)] last_sort_in [OF assms(1)] assms(2) by blast
  have "by_openAt (bar u) (bar w) \<le> 0 \<and> by_openAt (bar w) (bar v) \<le> 0" if "w \<in> starts r xs" for w
    using hd_sort_le [OF compares_by_openAt, of "bar w" cs] last_sort_ge [OF compares_by_openAt, of "bar w" cs] that assms(2) u(2) v(2) by simp
  then have "u \<le> w \<and> w \<le> v" if "w \<in> starts r xs" for w using that assms(3) u(1) v(1) by (simp add: by_openAt_def)
  then have le: "\<forall>w \<in> starts r xs. u \<le> w" "\<forall>w \<in> starts r xs. w \<le> v" by simp_all
  show thesis by (rule that [OF u le(1) v le(2)])
qed

lemma narrow_samples:
  assumes "distinct cs" "set cs = (\<lambda>u. summary r0 b u (narrow r0 xs u)) ` starts r0 xs" "int (length xs) \<le> 2 ^ 53"
  shows "foldl (\<lambda>n c. jadd n (cn_samples c)) 0 (js_sort by_openAt cs) = int (length xs)"
proof -
  let ?bar = "\<lambda>u. summary r0 b u (narrow r0 xs u)"
  have inj: "inj_on ?bar (starts r0 xs)" 
  proof (rule inj_onI)
    fix u v assume uv: "u \<in> starts r0 xs" "v \<in> starts r0 xs" and e: "?bar u = ?bar v"
    show "u = v"
      using arg_cong [OF e, of cn_openAt] by (simp only: summary_fields(10) [OF narrow_nonempty [OF uv(1)]] summary_fields(10) [OF narrow_nonempty [OF uv(2)]])
  qed
  have "mset (map cn_samples (js_sort by_openAt cs)) = mset (map cn_samples cs)" by simp
  then have "sum_list (map cn_samples (js_sort by_openAt cs)) = sum_list (map cn_samples cs)" by (simp only: sum_mset_sum_list [symmetric])
  also have "\<dots> = (\<Sum>c \<in> ?bar ` starts r0 xs. cn_samples c)" using assms(1,2) by (simp add: sum_list_distinct_conv_sum_set)
  also have "\<dots> = (\<Sum>u \<in> starts r0 xs. cn_samples (?bar u))" by (simp add: sum.reindex [OF inj])
  also have "\<dots> = (\<Sum>u \<in> starts r0 xs. int (length (narrow r0 xs u)))" by (rule sum.cong) (simp_all add: summary_fields(5) narrow_nonempty)
  also have "\<dots> = int (length xs)" unfolding narrow_def by (rule length_parts) (simp_all add: starts_def)
  finally have t: "sum_list (map cn_samples (js_sort by_openAt cs)) = int (length xs)" .
  have "\<forall>c \<in> set (js_sort by_openAt cs). 0 \<le> cn_samples c" unfolding set_js_sort assms(2) by (auto simp: summary_fields(5) narrow_nonempty)
  then show ?thesis using foldl_jadd [of "js_sort by_openAt cs" cn_samples 0] t assms(3) by simp
qed

text \<open>The bars of the narrow buckets roll up to the bar of all the points.\<close>

lemma rolled_narrow:
  assumes ok: "\<forall>p \<in> set xs. point_ok p" and n: "int (length xs) \<le> 2 ^ 53" and ne: "xs \<noteq> []"
    and cs: "distinct cs" "set cs = (\<lambda>u. summary r0 b u (narrow r0 xs u)) ` starts r0 xs"
  shows "rolled r b t cs = summary r b t xs"
proof -
  let ?U = "starts r0 xs" and ?bar = "\<lambda>u. summary r0 b u (narrow r0 xs u)"
  have C: "cs \<noteq> []" using cs(2) ne by (metis image_is_empty list.set(1) starts_empty)
  note field = summary_fields [OF narrow_nonempty]
  obtain u v where u: "u \<in> ?U" "hd (js_sort by_openAt cs) = ?bar u" "\<forall>w \<in> ?U. u \<le> w"
    and v: "v \<in> ?U" "last (js_sort by_openAt cs) = ?bar v" "\<forall>w \<in> ?U. w \<le> v"
    by (rule narrow_extremes [OF C cs(2)]) (use field(10) in blast)+
  have ends: "cn_open1e9 (?bar u) = fp_price1e9 (hd (js_sort by_time xs))" "cn_close1e9 (?bar v) = fp_price1e9 (last (js_sort by_time xs))"
    "cn_provenance (?bar u) = provenanceOf (fp_provenance (hd (js_sort by_time xs)))"
    using narrow_first [OF ok u(1,3)] narrow_last [OF ok v(1,3)] u(1) v(1) by (simp_all add: field)
  have e: "cn_high1e9 ` set cs = (\<lambda>u. Max (fp_price1e9 ` set (narrow r0 xs u))) ` ?U" "cn_low1e9 ` set cs = (\<lambda>u. Min (fp_price1e9 ` set (narrow r0 xs u))) ` ?U"
    "cn_fromBlock ` set cs = (\<lambda>u. Min (fp_blockNumber ` set (narrow r0 xs u))) ` ?U" "cn_toBlock ` set cs = (\<lambda>u. Max (fp_blockNumber ` set (narrow r0 xs u))) ` ?U"
    unfolding cs(2) by (simp_all add: image_image field cong: image_cong)
  have parts: "Max ((\<lambda>u. Max (f ` set (narrow r0 xs u))) ` ?U) = Max (f ` set xs)" "Min ((\<lambda>u. Min (f ` set (narrow r0 xs u))) ` ?U) = Min (f ` set xs)"
    for f :: "fold_point \<Rightarrow> int"
    by (subst Max_of_parts Min_of_parts; simp add: narrow_union narrow_nonempty ne)+
  have ranges: "Max (cn_high1e9 ` set cs) = Max (fp_price1e9 ` set xs)" "Min (cn_low1e9 ` set cs) = Min (fp_price1e9 ` set xs)"
    "Min (cn_fromBlock ` set cs) = Min (fp_blockNumber ` set xs)" "Max (cn_toBlock ` set cs) = Max (fp_blockNumber ` set xs)"
    unfolding e by (rule parts)+
  have prov: "provenance_ok (fp_provenance (hd (js_sort by_time xs)))" using hd_sort_in [OF ne, of by_time] ok by (simp add: point_ok_def)
  show ?thesis
    by (rule candle.equality; (simp only: rolled_fields [OF C] summary_fields [OF ne] u(2) v(2) ends ranges narrow_samples [OF cs n] provenanceOf_ok [OF prov])?) simp
qed

text \<open>The bars that fall into a wide bucket are those of its narrow buckets.\<close>

lemma wide_bucket_bars:
  assumes ok: "\<forall>p \<in> set xs. point_ok p" and w: "bucketSeconds r0 \<le> bucketSeconds r" and K: "K = (b, s, t)"
  defines "X \<equiv> filter (\<lambda>p. point_key r p = K) xs"
  shows "set (filter (\<lambda>c. candle_key r c = K) (foldPoints xs r0)) = (\<lambda>u. summary r0 b u (narrow r0 X u)) ` starts r0 X"
proof -
  have nested: "bucket_of (bucket_of (fp_at p) r0) r = bucket_of (fp_at p) r" if "p \<in> set xs" for p
    using ok that w by (intro bucket_of_nested) (auto simp: point_ok_def)
  have narrow: "filter (\<lambda>p. point_key r0 p = (b, s, u)) xs = narrow r0 X u" if "bucket_of u r = t" for u
    using that nested by (auto simp: narrow_def X_def K point_key_def intro: filter_cong)
  have inX: "(\<exists>p \<in> set xs. point_key r0 p = (b, s, u)) \<and> bucket_of u r = t \<longleftrightarrow> u \<in> starts r0 X" for u
    using nested by (auto simp: X_def K starts_def point_key_def image_iff)
  have key: "candle_key r (summary r0 b' u (filter (\<lambda>p. point_key r0 p = (b', s', u)) xs)) = (b', s', bucket_of u r)"
    if "(b', s', u) \<in> point_key r0 ` set xs" for b' s' u
    using summary_key(1) [OF ok that] by (simp add: row_key_def candle_key_def)
  show ?thesis
  proof (intro set_eqI iffI)
    fix c assume c: "c \<in> set (filter (\<lambda>c. candle_key r c = K) (foldPoints xs r0))"
    then obtain b' s' u where u: "(b', s', u) \<in> point_key r0 ` set xs" "c = summary r0 b' u (filter (\<lambda>p. point_key r0 p = (b', s', u)) xs)"
      by (auto simp: foldPoints_bars set_bars split: prod.splits)
    then have e: "b' = b" "s' = s" "bucket_of u r = t" using key [OF u(1)] c by (auto simp: K)
    then have "u \<in> starts r0 X" using inX [of u] u(1) by auto
    then show "c \<in> (\<lambda>u. summary r0 b u (narrow r0 X u)) ` starts r0 X" using u(2) narrow [OF e(3)] e by auto
  next
    fix c assume "c \<in> (\<lambda>u. summary r0 b u (narrow r0 X u)) ` starts r0 X"
    then obtain u where u: "u \<in> starts r0 X" "c = summary r0 b u (narrow r0 X u)" by blast
    then have t: "bucket_of u r = t" "(b, s, u) \<in> point_key r0 ` set xs" using inX [of u] by (auto intro: rev_image_eqI)
    then have c: "c = summary r0 b u (filter (\<lambda>p. point_key r0 p = (b, s, u)) xs)" using u(2) narrow by simp
    then have "c \<in> set (foldPoints xs r0)" using t(2) by (force simp: foldPoints_bars set_bars)
    then show "c \<in> set (filter (\<lambda>c. candle_key r c = K) (foldPoints xs r0))" using key [OF t(2)] t(1) c by (simp add: K)
  qed
qed

lemma js_natural_Some: "js_natural x = Some n \<longleftrightarrow> x = Num (of_int n) \<and> 0 \<le> n"
  by (cases x) (auto simp: js_natural_def js_integer_def split: if_splits)

lemma js_natural_int [simp]: "js_natural (Num (of_int n)) = (if n < 0 then None else Some n)"
  by (simp add: js_natural_def js_integer_def)

lemma distinct_js_sort: "distinct (js_sort cmp xs) = distinct xs"
  by (rule mset_eq_imp_distinct_iff) simp

lemma sample_point_Inr:
  "sample_point s = Inr p \<longleftrightarrow>
     0 \<le> fp_at p \<and> 0 \<le> fp_blockNumber p \<and> ps_at s = Num (of_int (fp_at p)) \<and> ps_blockNumber s = Num (of_int (fp_blockNumber p)) \<and>
     provenance_ok (ps_provenance s) \<and> ps_sourceKey s = sourceKeyOf (ps_provenance s) \<and>
     p = \<lparr> fp_bookId = ps_bookId s, fp_at = fp_at p, fp_blockNumber = fp_blockNumber p, fp_order = 0, fp_price1e9 = ps_price1e9 s,
           fp_sourceKey = ps_sourceKey s, fp_provenance = ps_provenance s \<rparr>"
  unfolding sample_point_def
  by (cases p) (auto simp: rbind_eq_Inr_iff assertProvenance_key js_natural_Some split: option.splits)

lemma sample_points_ok:
  assumes "collect (map sample_point samples) = Inr points" "\<forall>s \<in> set samples. isSafeInteger (ps_at s)"
  shows "\<forall>p \<in> set points. point_ok p" "length points = length samples"
proof -
  have m: "map sample_point samples = map Inr points" using assms(1) by (simp add: collect_Inr)
  then show "length points = length samples" by (metis length_map)
  show "\<forall>p \<in> set points. point_ok p"
  proof
    fix p assume "p \<in> set points"
    then have "Inr p \<in> set (map sample_point samples)" using m by simp
    then obtain s where s: "s \<in> set samples" "sample_point s = Inr p" by auto
    then have f: "0 \<le> fp_at p" "ps_at s = Num (of_int (fp_at p))" "provenance_ok (fp_provenance p)" "isSafeInteger (ps_at s)"
      using assms(2) unfolding sample_point_Inr by (blast, blast, metis fold_point.select_convs(7), blast)
    then show "point_ok p" by (simp add: point_ok_def isSafeInteger_def)
  qed
qed

lemma fine_bars:
  assumes ok: "\<forall>p \<in> set xs. point_ok p" and c: "c \<in> set (foldPoints xs r0)"
  shows "cn_resolution c = r0" "assertProvenance (cn_provenance c) (Some (cn_sourceKey c)) = Inr ()"
    "\<exists>p \<in> set xs. candle_key r c = (fp_bookId p, sourceKeyOf (fp_provenance p), bucket_of (bucket_of (fp_at p) r0) r)"
proof -
  obtain b s t where k: "(b, s, t) \<in> point_key r0 ` set xs" "c = summary r0 b t (filter (\<lambda>p. point_key r0 p = (b, s, t)) xs)"
    using c by (auto simp: foldPoints_bars set_bars split: prod.splits)
  have ne: "filter (\<lambda>p. point_key r0 p = (b, s, t)) xs \<noteq> []" using k(1) by (auto simp: filter_empty_conv)
  show "cn_resolution c = r0" by (simp add: k(2) summary_fields [OF ne])
  show "assertProvenance (cn_provenance c) (Some (cn_sourceKey c)) = Inr ()" unfolding k(2) by (rule summary_key(2) [OF ok k(1)])
  show "\<exists>p \<in> set xs. candle_key r c = (fp_bookId p, sourceKeyOf (fp_provenance p), bucket_of (bucket_of (fp_at p) r0) r)"
    using k(1) summary_key(1) [OF ok k(1)] by (auto simp: k(2) row_key_def candle_key_def point_key_def)
qed

lemma rollUp_fold:
  assumes ok: "\<forall>p \<in> set xs. point_ok p" and n: "int (length xs) \<le> 2 ^ 53" and w: "bucketSeconds r0 < bucketSeconds r"
  shows "rollUp (foldPoints xs r0) r = Inr (foldPoints xs r)"
proof -
  let ?F = "foldPoints xs r0"
  have le: "bucketSeconds r0 \<le> bucketSeconds r" using w by simp
  have nested: "bucket_of (bucket_of (fp_at p) r0) r = bucket_of (fp_at p) r" if "p \<in> set xs" for p
    using ok that le by (intro bucket_of_nested) (auto simp: point_ok_def)
  have "distinct (map row_key (bars (summary r0) (point_key r0) xs))" by (rule distinct_bars) (rule summary_key(1) [OF ok])
  then have dF: "distinct ?F" by (simp add: foldPoints_bars distinct_js_sort distinct_map)
  have bar: "rolled r b t (filter (\<lambda>c. candle_key r c = (b, s, t)) ?F) = summary r b t (filter (\<lambda>p. point_key r p = (b, s, t)) xs)"
    if "(b, s, t) \<in> point_key r ` set xs" for b s t
  proof (rule rolled_narrow [OF _ _ _ _ wide_bucket_bars [OF ok le refl]])
    show "\<forall>p \<in> set (filter (\<lambda>p. point_key r p = (b, s, t)) xs). point_ok p" using ok by simp
    show "int (length (filter (\<lambda>p. point_key r p = (b, s, t)) xs)) \<le> 2 ^ 53" using n length_filter_le [of _ xs] by (meson dual_order.trans of_nat_le_iff)
    show "filter (\<lambda>p. point_key r p = (b, s, t)) xs \<noteq> []" using that by (auto simp: filter_empty_conv)
    show "distinct (filter (\<lambda>c. candle_key r c = (b, s, t)) ?F)" using dF by simp
  qed
  have keys: "candle_key r ` set ?F = point_key r ` set xs"
  proof (intro set_eqI iffI)
    fix k assume "k \<in> candle_key r ` set ?F"
    then show "k \<in> point_key r ` set xs" using fine_bars(3) [OF ok, of _ r0 r] nested by (force simp: point_key_def)
  next
    fix k assume k: "k \<in> point_key r ` set xs"
    obtain b s t where e: "k = (b, s, t)" by (cases k)
    have "filter (\<lambda>p. point_key r p = (b, s, t)) xs \<noteq> []" using k e by (auto simp: filter_empty_conv)
    then have "set (filter (\<lambda>c. candle_key r c = (b, s, t)) ?F) \<noteq> {}" unfolding wide_bucket_bars [OF ok le refl] by simp
    then show "k \<in> candle_key r ` set ?F" by (auto simp: e intro: rev_image_eqI)
  qed
  have "js_sort byBookThenBucket (bars (rolled r) (candle_key r) ?F) = js_sort byBookThenBucket (bars (summary r) (point_key r) xs)"
  proof (rule sort_bars)
    show "distinct (map row_key (bars (rolled r) (candle_key r) ?F))"
      by (rule distinct_bars) (use summary_key(1) [OF ok] bar keys in simp)
    show "distinct (map row_key (bars (summary r) (point_key r) xs))" by (rule distinct_bars) (rule summary_key(1) [OF ok])
    show "set (bars (rolled r) (candle_key r) ?F) = set (bars (summary r) (point_key r) xs)"
      unfolding set_bars keys by (rule image_cong [OF refl]) (use bar in auto)
  qed
  moreover have "\<forall>c \<in> set ?F. \<not> bucketSeconds (cn_resolution c) \<ge> bucketSeconds r" using fine_bars(1) [OF ok] w by auto
  ultimately show ?thesis
    using fine_bars(2) [OF ok] by (simp add: rollUp_def rbind_eq_Inr_iff returns_iff foldPoints_bars flip: bars_def)
qed

text \<open>C38
  Degrading resolution loses nothing else: rolling finished candles up a rung yields exactly the
  candles that folding the original observations at the coarser rung would have produced, for every
  book, source and bucket, in the same order.
\<close>

theorem rollUp_is_fold:
  assumes "foldCandles samples r0 = Inr fine" "bucketSeconds r0 < bucketSeconds r"
    "\<forall>s \<in> set samples. isSafeInteger (ps_at s)" "int (length samples) \<le> 2 ^ 53"
  shows "rollUp fine r = foldCandles samples r"
proof -
  obtain points where p: "collect (map sample_point samples) = Inr points" "fine = foldPoints points r0"
    using assms(1) by (auto simp: foldCandles_def rbind_eq_Inr_iff)
  show ?thesis
    using rollUp_fold [OF sample_points_ok(1) [OF p(1) assms(3)] _ assms(2)] sample_points_ok(2) [OF p(1) assms(3)] assms(4) p
    by (simp add: foldCandles_def)
qed

definition self_source :: sample_provenance where
  "self_source = \<lparr> sp_origin = lit ''self'', sp_providerId = None \<rparr>"

definition sample_row :: "int \<Rightarrow> int \<Rightarrow> int \<Rightarrow> price_sample" where
  "sample_row t b price = \<lparr> ps_bookId = lit ''b'', ps_at = js_of_int t, ps_price1e9 = price, ps_blockNumber = js_of_int b,
     ps_sourceKey = sourceKeyOf self_source, ps_provenance = self_source \<rparr>"

lemma self_source_ok: "provenance_ok self_source"
  by (simp add: provenance_ok_def assertProvenance_def self_source_def)

lemma sample_row_point: "0 \<le> t \<Longrightarrow> 0 \<le> b \<Longrightarrow> sample_point (sample_row t b price) = Inr \<lparr> fp_bookId = lit ''b'', fp_at = t, fp_blockNumber = b,
     fp_order = 0, fp_price1e9 = price, fp_sourceKey = sourceKeyOf self_source, fp_provenance = self_source \<rparr>"
  by (simp add: sample_point_Inr sample_row_def js_of_int_def self_source_ok)

theorem rollUp_is_fold_witness:
  "\<exists>fine. foldCandles [sample_row 7200 20 5, sample_row 3599 9 7, sample_row 10 2 6] Candles1h = Inr fine \<and>
     rollUp fine Candles4h = foldCandles [sample_row 7200 20 5, sample_row 3599 9 7, sample_row 10 2 6] Candles4h"
proof -
  let ?s = "[sample_row 7200 20 5, sample_row 3599 9 7, sample_row 10 2 6]"
  obtain fine where f: "foldCandles ?s Candles1h = Inr fine" by (simp add: foldCandles_def sample_row_point)
  have "rollUp fine Candles4h = foldCandles ?s Candles4h"
    by (rule rollUp_is_fold [OF f]) (simp_all add: HOUR_SECONDS_def sample_row_def MAX_SAFE_INTEGER_def)
  with f show ?thesis by blast
qed

subsection \<open>Merging is folding together\<close>

lemma one_bar:
  assumes ok: "\<forall>p \<in> set xs. point_ok p" and f: "foldPoints xs r = [c]"
  shows "xs \<noteq> []" "c = summary r (cn_bookId c) (cn_openAt c) xs" "\<forall>p \<in> set xs. point_key r p = row_key c"
proof -
  have L: "bars (summary r) (point_key r) xs = [c]"
  proof -
    have m: "mset (bars (summary r) (point_key r) xs) = mset [c]" using f unfolding foldPoints_bars by (metis mset_js_sort)
    then show ?thesis by (metis mset_single_iff_right mset.simps(1,2) size_mset size_1_singleton_mset)
  qed
  show ne: "xs \<noteq> []" using f by (auto simp: foldPoints_bars bars_def each_bucket_def grouped_def)
  have S: "set (bars (summary r) (point_key r) xs) = {c}" by (simp add: L)
  have own: "point_key r p = row_key c" if "p \<in> set xs" for p
  proof -
    obtain b s t where k: "point_key r p = (b, s, t)" by (cases "point_key r p")
    then have i: "(b, s, t) \<in> point_key r ` set xs" using that by (metis imageI)
    then have "summary r b t (filter (\<lambda>p. point_key r p = (b, s, t)) xs) \<in> set (bars (summary r) (point_key r) xs)" unfolding set_bars by force
    then show ?thesis using S summary_key(1) [OF ok i] k by simp
  qed
  then show "\<forall>p \<in> set xs. point_key r p = row_key c" by blast
  obtain b s t where k: "row_key c = (b, s, t)" by (cases "row_key c")
  have "(b, s, t) \<in> point_key r ` set xs" using own ne k by (cases xs) auto
  then have "summary r b t (filter (\<lambda>p. point_key r p = (b, s, t)) xs) \<in> {c}" unfolding S [symmetric] set_bars by force
  moreover have "filter (\<lambda>p. point_key r p = (b, s, t)) xs = xs" using own k by (simp add: filter_id_conv)
  ultimately show "c = summary r (cn_bookId c) (cn_openAt c) xs" using k by (simp add: row_key_def)
qed

lemma fold_one:
  assumes ok: "\<forall>p \<in> set xs. point_ok p" and k: "\<forall>p \<in> set xs. point_key r p = (b, s, t)" and ne: "xs \<noteq> []"
  shows "foldPoints xs r = [summary r b t xs]"
proof -
  have i: "point_key r ` set xs = {(b, s, t)}" using k ne by (cases xs) auto
  have "filter (\<lambda>p. point_key r p = (b, s, t)) xs = xs" using k by (simp add: filter_id_conv)
  then have S: "set (bars (summary r) (point_key r) xs) = {summary r b t xs}" by (simp add: set_bars i)
  have "distinct (map row_key (bars (summary r) (point_key r) xs))" by (rule distinct_bars) (rule summary_key(1) [OF ok])
  then have "distinct (bars (summary r) (point_key r) xs)" by (simp add: distinct_map)
  with S have "bars (summary r) (point_key r) xs = [summary r b t xs]"
    by (cases "bars (summary r) (point_key r) xs"; cases "tl (bars (summary r) (point_key r) xs)") auto
  then show ?thesis by (simp add: foldPoints_bars js_sort_Cons)
qed

lemma disjoint_stretches:
  assumes "\<forall>x \<in> set xs. \<forall>y \<in> set ys. fp_blockNumber x < fp_blockNumber y \<and> fp_at x \<le> fp_at y" "xs \<noteq> []" "ys \<noteq> []"
  shows "hd (js_sort by_time (xs @ ys)) = hd (js_sort by_time xs)" "last (js_sort by_time (xs @ ys)) = last (js_sort by_time ys)"
    "Min (fp_blockNumber ` set xs) < Min (fp_blockNumber ` set ys)" "Max (fp_blockNumber ` set xs) < Max (fp_blockNumber ` set ys)"
proof -
  have disj: "p \<notin> set ys" if "p \<in> set xs" for p using assms(1) that by (metis less_irrefl)
  have apart: "0 < by_time q p \<and> by_time p q < 0" if "p \<in> set xs" "q \<in> set ys" for p q
    using assms(1) that by (force simp: by_time_def js_or_def)
  have fx: "filter (\<lambda>p. p \<in> set xs) (xs @ ys) = xs" and fy: "filter (\<lambda>p. p \<in> set ys) (xs @ ys) = ys"
    using disj by (auto simp: filter_id_conv filter_empty_conv)
  show "hd (js_sort by_time (xs @ ys)) = hd (js_sort by_time xs)"
    using hd_sort_filter [of "xs @ ys" "\<lambda>p. p \<in> set xs" by_time] apart assms(2) unfolding fx by (metis Un_iff hd_in_set set_append)
  show "last (js_sort by_time (xs @ ys)) = last (js_sort by_time ys)"
    using last_sort_filter [of "xs @ ys" "\<lambda>p. p \<in> set ys" by_time] apart assms(3) unfolding fy by (metis Un_iff hd_in_set set_append)
  show "Min (fp_blockNumber ` set xs) < Min (fp_blockNumber ` set ys)" "Max (fp_blockNumber ` set xs) < Max (fp_blockNumber ` set ys)"
    using assms by (simp_all add: Min_less_iff Max_less_iff Min_gr_iff Max_gr_iff) (metis hd_in_set)+
qed

lemma merge_summaries:
  assumes "\<forall>p \<in> set (xs @ ys). point_ok p" "\<forall>p \<in> set (xs @ ys). point_key r p = (b, s, t)" "xs \<noteq> []" "ys \<noteq> []"
    "\<forall>x \<in> set xs. \<forall>y \<in> set ys. fp_blockNumber x < fp_blockNumber y \<and> fp_at x \<le> fp_at y" "int (length (xs @ ys)) \<le> 2 ^ 53"
  defines "c \<equiv> summary r b t xs" and "d \<equiv> summary r b t ys" and "e \<equiv> summary r b t (xs @ ys)"
  shows "mergeCandle c d = Inr e \<and> mergeCandle d c = Inr e"
proof -
  note stretch = disjoint_stretches [OF assms(5,3,4)]
  have ne: "xs @ ys \<noteq> []" using assms(3) by simp
  have prov: "fp_provenance p = fp_provenance q" if "p \<in> set (xs @ ys)" "q \<in> set (xs @ ys)" for p q
  proof -
    have "sourceKeyOf (fp_provenance p) = s" "sourceKeyOf (fp_provenance q) = s" using assms(2) that by (auto simp: point_key_def)
    then show ?thesis by (metis sourceKeyOf_inject)
  qed
  define source where "source = fp_provenance (hd (js_sort by_time xs))"
  have hx: "hd (js_sort by_time xs) \<in> set xs" and hy: "hd (js_sort by_time ys) \<in> set ys"
    by (rule hd_sort_in [OF assms(3)], rule hd_sort_in [OF assms(4)])
  have src: "fp_provenance (hd (js_sort by_time ys)) = source" unfolding source_def by (rule prov) (use hx hy in simp_all)
  have sok: "provenance_ok source" using assms(1) hx unfolding source_def point_ok_def by (metis Un_iff set_append)
  note f = summary_fields [OF assms(3)] summary_fields [OF assms(4)] summary_fields [OF ne] stretch(1,2) src source_def [symmetric] provenanceOf_ok [OF sok]
  have jx: "jadd (int (length xs)) (int (length ys)) = int (length (xs @ ys))" "jadd (int (length ys)) (int (length xs)) = int (length (xs @ ys))"
    using assms(6) by (simp_all add: jadd_nonneg_exact)
  have un: "Max (g ` set (xs @ ys)) = max (Max (g ` set xs)) (Max (g ` set ys))" "Min (g ` set (xs @ ys)) = min (Min (g ` set xs)) (Min (g ` set ys))"
    for g :: "fold_point \<Rightarrow> int" using assms(3,4) by (simp_all add: image_Un Max_Un Min_Un)
  have fc: "cn_bookId c = b" "cn_resolution c = r" "cn_openAt c = t" "cn_sourceKey c = sourceKeyOf source" "cn_provenance c = source"
    "cn_open1e9 c = fp_price1e9 (hd (js_sort by_time xs))" "cn_high1e9 c = Max (fp_price1e9 ` set xs)" "cn_low1e9 c = Min (fp_price1e9 ` set xs)"
    "cn_samples c = int (length xs)" "cn_fromBlock c = Min (fp_blockNumber ` set xs)" "cn_toBlock c = Max (fp_blockNumber ` set xs)"
    and fd: "cn_bookId d = b" "cn_resolution d = r" "cn_openAt d = t" "cn_sourceKey d = sourceKeyOf source" "cn_provenance d = source"
    "cn_close1e9 d = fp_price1e9 (last (js_sort by_time ys))" "cn_high1e9 d = Max (fp_price1e9 ` set ys)" "cn_low1e9 d = Min (fp_price1e9 ` set ys)"
    "cn_samples d = int (length ys)" "cn_fromBlock d = Min (fp_blockNumber ` set ys)" "cn_toBlock d = Max (fp_blockNumber ` set ys)"
    unfolding c_def d_def by (simp_all only: f)
  have fe: "cn_bookId e = b" "cn_resolution e = r" "cn_openAt e = t" "cn_sourceKey e = sourceKeyOf source" "cn_provenance e = source"
    "cn_open1e9 e = cn_open1e9 c" "cn_close1e9 e = cn_close1e9 d" "cn_high1e9 e = max (cn_high1e9 c) (cn_high1e9 d)"
    "cn_low1e9 e = min (cn_low1e9 c) (cn_low1e9 d)" "cn_samples e = int (length (xs @ ys))"
    "cn_fromBlock e = cn_fromBlock c" "cn_toBlock e = cn_toBlock d"
    unfolding fc(6-11) fd(6-11) e_def using stretch(3,4) by (simp_all only: f un)
  have lt: "cn_fromBlock c < cn_fromBlock d" "cn_toBlock c < cn_toBlock d" using stretch(3,4) by (simp_all only: fc fd)
  have js: "jadd (cn_samples c) (cn_samples d) = int (length (xs @ ys))" "jadd (cn_samples d) (cn_samples c) = int (length (xs @ ys))"
    using jx by (simp_all only: fc(9) fd(9))
  have "assertProvenance source (Some (sourceKeyOf source)) = Inr ()" by (simp add: assertProvenance_key sok)
  then show ?thesis
    using lt by (auto simp: mergeCandle_def fc(1-5) fd(1-5) js fe Let_def max_def min_def intro!: candle.equality)
qed

text \<open>C39
  A stored bar stays the summary of everything folded into it: when two contributions to one bucket
  come from disjoint stretches of the chain, in whichever order they are written, merging their bars
  gives exactly the bar of all their points.
\<close>

theorem merge_is_fold:
  assumes "\<forall>p \<in> set (xs @ ys). point_ok p" "foldPoints xs r = [c]" "foldPoints ys r = [d]" "row_key c = row_key d"
    "\<forall>x \<in> set xs. \<forall>y \<in> set ys. fp_blockNumber x < fp_blockNumber y \<and> fp_at x \<le> fp_at y" "int (length (xs @ ys)) \<le> 2 ^ 53"
  shows "\<exists>e. foldPoints (xs @ ys) r = [e] \<and> mergeCandle c d = Inr e \<and> mergeCandle d c = Inr e"
proof -
  obtain b s t where k: "row_key c = (b, s, t)" by (cases "row_key c")
  have ok: "\<forall>p \<in> set xs. point_ok p" "\<forall>p \<in> set ys. point_ok p" using assms(1) by auto
  note x = one_bar [OF ok(1) assms(2)] and y = one_bar [OF ok(2) assms(3)]
  have kd: "row_key d = (b, s, t)" using k assms(4) by simp
  have cd: "c = summary r b t xs" "d = summary r b t ys" using x(2) y(2) k kd by (simp_all add: row_key_def)
  have keys: "\<forall>p \<in> set (xs @ ys). point_key r p = (b, s, t)" using x(3) y(3) k kd by auto
  show ?thesis
    using fold_one [OF assms(1) keys] merge_summaries [OF assms(1) keys x(1) y(1) assms(5,6)] x(1) cd by simp
qed

definition fill_at :: "int \<Rightarrow> int \<Rightarrow> int \<Rightarrow> int \<Rightarrow> fold_point" where
  "fill_at t b i price = \<lparr> fp_bookId = lit ''b'', fp_at = t, fp_blockNumber = b, fp_order = i, fp_price1e9 = price,
     fp_sourceKey = sourceKeyOf self_source, fp_provenance = self_source \<rparr>"

theorem merge_is_fold_witness:
  "\<exists>c d e. foldPoints [fill_at 20 3 1 8, fill_at 20 3 0 6] Candles1h = [c] \<and> foldPoints [fill_at 26 4 0 7] Candles1h = [d] \<and>
     mergeCandle d c = Inr e \<and> foldPoints [fill_at 20 3 1 8, fill_at 20 3 0 6, fill_at 26 4 0 7] Candles1h = [e]"
proof -
  let ?x = "[fill_at 20 3 1 8, fill_at 20 3 0 6]" and ?y = "[fill_at 26 4 0 7]"
  have ok: "\<forall>p \<in> set (?x @ ?y). point_ok p" by (simp add: fill_at_def point_ok_def self_source_ok MAX_SAFE_INTEGER_def)
  have b: "bucket_of 20 Candles1h = 0" "bucket_of 26 Candles1h = 0" by (simp_all add: bucket_of_exact MAX_SAFE_INTEGER_def HOUR_SECONDS_def)
  have k: "\<forall>p \<in> set (?x @ ?y). point_key Candles1h p = (lit ''b'', sourceKeyOf self_source, 0)" by (simp add: fill_at_def point_key_def b)
  have okx: "\<forall>p \<in> set ?x. point_ok p" and oky: "\<forall>p \<in> set ?y. point_ok p" using ok by simp_all
  have f: "foldPoints ?x Candles1h = [summary Candles1h (lit ''b'') 0 ?x]" "foldPoints ?y Candles1h = [summary Candles1h (lit ''b'') 0 ?y]"
    using fold_one [OF okx, of Candles1h] fold_one [OF oky, of Candles1h] k by simp_all
  have "row_key (summary Candles1h (lit ''b'') 0 ?x) = row_key (summary Candles1h (lit ''b'') 0 ?y)"
    using one_bar(3) [OF okx f(1)] one_bar(3) [OF oky f(2)] k by simp
  from merge_is_fold [OF ok f this] show ?thesis using f by (auto simp: fill_at_def)
qed

subsection \<open>Labels of evicted blocks\<close>

definition label_ok :: "downsampled_range \<Rightarrow> bool" where
  "label_ok r \<longleftrightarrow> 0 \<le> dr_fromBlock r \<and> dr_fromBlock r \<le> dr_toBlock r \<and> dr_toBlock r \<le> MAX_SAFE_INTEGER \<and> 0 \<le> dr_at r"

definition covers :: "downsampled_range \<Rightarrow> int \<Rightarrow> bool" where
  "covers r n \<longleftrightarrow> dr_fromBlock r \<le> n \<and> n \<le> dr_toBlock r"

definition labels :: "downsampled_range list \<Rightarrow> int \<Rightarrow> coarse set" where
  "labels ds n = dr_resolution ` {r \<in> set ds. covers r n}"

definition coarsest :: "coarse set \<Rightarrow> coarse set" where
  "coarsest S = {q \<in> S. \<forall>q' \<in> S. rank q' \<le> rank q}"

lemma rank_simps [simp]: "rank Candles1h = 1" "rank Candles4h = 2" "rank Candles1d = 3"
  by (simp_all add: rank_def DEGRADATION_LADDER_def)

lemma rank_inject [simp]: "rank p = rank q \<longleftrightarrow> p = q"
  by (cases p; cases q) simp_all

lemma previousResolution_defined: "\<exists>q. previousResolution c = Inr q"
  by (cases c) (simp_all add: previousResolution_def DEGRADATION_LADDER_def element_def)

lemma js_integer_of_int [simp]: "js_integer (JNumber (js_of_int n)) = Some n"
  by (simp add: js_of_int_def)

lemma downsample_ok:
  assumes "0 \<le> f" "f \<le> t" "t \<le> MAX_SAFE_INTEGER" "0 \<le> a"
  shows "\<exists>d. downsample (js_of_int f) (js_of_int t) c (Num a) = Inr d \<and> label_ok d \<and> dr_fromBlock d = f \<and> dr_toBlock d = t \<and> dr_resolution d = c"
proof -
  obtain q where "previousResolution c = Inr q" using previousResolution_defined by blast
  then show ?thesis using assms by (simp add: downsample_def label_ok_def rbind_def)
qed

lemma labels_simps [simp]:
  "labels [] n = {}" "labels (r # rs) n = (if covers r n then {dr_resolution r} else {}) \<union> labels rs n"
  "labels (xs @ ys) n = labels xs n \<union> labels ys n" "labels (concat rss) n = (\<Union>rs \<in> set rss. labels rs n)"
  by (auto simp: labels_def)

lemma labels_set: "set xs = set ys \<Longrightarrow> labels xs n = labels ys n"
  by (simp add: labels_def)

lemma subtractRange_ok:
  assumes "label_ok r" "label_ok c"
  shows "\<exists>ps. subtractRange r c = Inr ps \<and> (\<forall>p \<in> set ps. label_ok p \<and> dr_resolution p = dr_resolution r) \<and>
    (\<forall>n. labels ps n = (if covers r n \<and> \<not> covers c n then {dr_resolution r} else {}))"
proof (cases "dr_toBlock c < dr_fromBlock r \<or> dr_fromBlock c > dr_toBlock r")
  case True
  then show ?thesis using assms by (auto simp: subtractRange_def covers_def)
next
  case False
  have e: "jsub (dr_fromBlock c) 1 = dr_fromBlock c - 1" "jadd (dr_toBlock c) 1 = dr_toBlock c + 1"
    using assms by (auto simp: label_ok_def MAX_SAFE_INTEGER_def intro!: jsub_exact jadd_exact)
  obtain ps where ps: "(if dr_fromBlock c > dr_fromBlock r
      then rbind (downsample (js_of_int (dr_fromBlock r)) (js_of_int (jsub (dr_fromBlock c) 1)) (dr_resolution r) (Num (dr_at r))) (\<lambda>d. Inr [d])
      else Inr []) = Inr ps" "\<forall>p \<in> set ps. label_ok p \<and> dr_resolution p = dr_resolution r"
    "\<forall>n. labels ps n = (if covers r n \<and> n < dr_fromBlock c then {dr_resolution r} else {})"
    using downsample_ok [of "dr_fromBlock r" "dr_fromBlock c - 1" "dr_at r" "dr_resolution r"] assms False
    by (cases "dr_fromBlock c > dr_fromBlock r") (auto simp: e label_ok_def covers_def rbind_def)
  obtain qs where qs: "(if dr_toBlock c < dr_toBlock r
      then rbind (downsample (js_of_int (jadd (dr_toBlock c) 1)) (js_of_int (dr_toBlock r)) (dr_resolution r) (Num (dr_at r))) (\<lambda>d. Inr [d])
      else Inr []) = Inr qs" "\<forall>p \<in> set qs. label_ok p \<and> dr_resolution p = dr_resolution r"
    "\<forall>n. labels qs n = (if covers r n \<and> dr_toBlock c < n then {dr_resolution r} else {})"
    using downsample_ok [of "dr_toBlock c + 1" "dr_toBlock r" "dr_at r" "dr_resolution r"] assms False
    by (cases "dr_toBlock c < dr_toBlock r") (auto simp: e label_ok_def covers_def rbind_def)
  have "subtractRange r c = Inr (ps @ qs)" unfolding subtractRange_def using False ps(1) qs(1) by (simp add: rbind_def)
  then show ?thesis using ps(2,3) qs(2,3) assms by (auto simp: covers_def label_ok_def)
qed

lemma kept_ok:
  assumes "\<forall>r \<in> set existing. label_ok r" "label_ok incoming"
  shows "\<exists>ks. kept_ranges existing incoming = Inr ks \<and> (\<forall>k \<in> set ks. label_ok k) \<and>
    (\<forall>n. labels ks n = dr_resolution ` {r \<in> set existing. covers r n \<and> (coarser r incoming \<or> \<not> covers incoming n)})"
  using assms(1)
proof (induction existing)
  case Nil
  show ?case by (simp add: kept_ranges_def)
next
  case (Cons r rs)
  then obtain ks where ks: "kept_ranges rs incoming = Inr ks" "\<forall>k \<in> set ks. label_ok k"
    "\<forall>n. labels ks n = dr_resolution ` {r \<in> set rs. covers r n \<and> (coarser r incoming \<or> \<not> covers incoming n)}" by auto
  obtain ps where ps: "(if coarser r incoming then Inr [r] else subtractRange r incoming) = Inr ps" "\<forall>p \<in> set ps. label_ok p"
    "\<forall>n. labels ps n = (if covers r n \<and> (coarser r incoming \<or> \<not> covers incoming n) then {dr_resolution r} else {})"
    using subtractRange_ok [of r incoming] Cons.prems assms(2) by (cases "coarser r incoming") auto
  from ks(1) obtain kss where "collect (map (\<lambda>rng. if coarser rng incoming then Inr [rng] else subtractRange rng incoming) rs) = Inr kss" "ks = concat kss"
    by (auto simp: kept_ranges_def rbind_eq_Inr_iff)
  then have "kept_ranges (r # rs) incoming = Inr (ps @ ks)" using ps(1) by (simp add: kept_ranges_def rbind_def)
  then show ?case using ps(2,3) ks(2,3) by auto
qed

lemma collect_pieces:
  assumes "\<forall>p \<in> set pieces. label_ok p" "label_ok c"
  shows "\<exists>pss. collect (map (\<lambda>piece. subtractRange piece c) pieces) = Inr pss \<and> (\<forall>p \<in> set (concat pss). label_ok p) \<and>
    (\<forall>n. labels (concat pss) n = (if covers c n then {} else labels pieces n))"
  using assms(1)
proof (induction pieces)
  case (Cons p ps)
  then obtain pss where i: "collect (map (\<lambda>piece. subtractRange piece c) ps) = Inr pss" "\<forall>p \<in> set (concat pss). label_ok p"
    "\<forall>n. labels (concat pss) n = (if covers c n then {} else labels ps n)" by auto
  obtain qs where q: "subtractRange p c = Inr qs" "\<forall>p \<in> set qs. label_ok p"
    "\<forall>n. labels qs n = (if covers p n \<and> \<not> covers c n then {dr_resolution p} else {})"
    using subtractRange_ok [of p c] Cons.prems assms(2) by auto
  have "collect (map (\<lambda>piece. subtractRange piece c) (p # ps)) = Inr (qs # pss)" using i(1) q(1) by (simp add: rbind_def)
  moreover have "labels (concat (qs # pss)) n = (if covers c n then {} else labels (p # ps) n)" for n
    using i(3) [rule_format, of n] q(3) by (simp del: labels_simps(4) add: labels_simps(3) concat.simps)
  ultimately show ?case using i(2) q(2) by auto
qed simp

lemma pieces_ok:
  assumes "\<forall>r \<in> set existing. label_ok r" "\<forall>p \<in> set pieces. label_ok p"
  shows "\<exists>ps. incoming_pieces incoming existing pieces = Inr ps \<and> (\<forall>p \<in> set ps. label_ok p) \<and>
    (\<forall>n. labels ps n = (if \<exists>r \<in> set existing. coarser r incoming \<and> covers r n then {} else labels pieces n))"
  using assms
proof (induction existing arbitrary: pieces)
  case (Cons r rs)
  show ?case
  proof (cases "coarser r incoming")
    case True
    obtain pss where p: "collect (map (\<lambda>piece. subtractRange piece r) pieces) = Inr pss" "\<forall>p \<in> set (concat pss). label_ok p"
      "\<forall>n. labels (concat pss) n = (if covers r n then {} else labels pieces n)"
      using collect_pieces [of pieces r] Cons.prems by auto
    from Cons.IH [OF _ p(2)] Cons.prems obtain ps where "incoming_pieces incoming rs (concat pss) = Inr ps" "\<forall>p \<in> set ps. label_ok p"
      "\<forall>n. labels ps n = (if \<exists>r \<in> set rs. coarser r incoming \<and> covers r n then {} else labels (concat pss) n)" by auto
    then show ?thesis using p True by (intro exI [of _ ps]) (auto simp del: labels_simps(4) simp: rbind_def)
  next
    case False
    then show ?thesis using Cons by auto
  qed
qed auto

text \<open>
  The loop that joins neighbours: what is out is separated, and everything still to come starts no
  earlier than its last range on the same rung.
\<close>

definition later :: "downsampled_range \<Rightarrow> downsampled_range \<Rightarrow> bool" where
  "later a b \<longleftrightarrow> rank (dr_resolution a) < rank (dr_resolution b) \<or> dr_resolution a = dr_resolution b \<and> dr_fromBlock a \<le> dr_fromBlock b"

definition parted :: "downsampled_range \<Rightarrow> downsampled_range \<Rightarrow> bool" where
  "parted a b \<longleftrightarrow> rank (dr_resolution a) < rank (dr_resolution b) \<or> dr_resolution a = dr_resolution b \<and> dr_toBlock a + 1 < dr_fromBlock b"

lemma parted_later: "parted a b \<Longrightarrow> later b c \<Longrightarrow> label_ok b \<Longrightarrow> parted a c"
  by (auto simp: parted_def later_def)

lemma join_labels_ok:
  assumes "\<forall>r \<in> set (out @ rs). label_ok r" "sorted_wrt parted out" "sorted_wrt later rs" "out = [] \<or> (\<forall>r \<in> set rs. later (last out) r)"
  shows "\<exists>ds. join_labels out rs = Inr ds \<and> (\<forall>d \<in> set ds. label_ok d) \<and> sorted_wrt parted ds \<and> (\<forall>n. labels ds n = labels (out @ rs) n)"
  using assms
proof (induction rs arbitrary: out)
  case Nil
  then show ?case by simp
next
  case (Cons r rs)
  show ?case
  proof (cases "out \<noteq> [] \<and> dr_resolution (last out) = dr_resolution r \<and> dr_fromBlock r \<le> jadd (dr_toBlock (last out)) 1")
    case True
    then obtain o' l where out: "out = o' @ [l]" by (metis append_butlast_last_id)
    have l: "label_ok l" "label_ok r" using Cons.prems(1) out by auto
    then have j: "jadd (dr_toBlock l) 1 = dr_toBlock l + 1" by (auto simp: label_ok_def MAX_SAFE_INTEGER_def intro!: jadd_exact)
    have lr: "dr_resolution l = dr_resolution r" "dr_fromBlock r \<le> dr_toBlock l + 1" "dr_fromBlock l \<le> dr_fromBlock r"
      using True Cons.prems(4) j by (auto simp: out later_def)
    obtain d where d: "downsample (js_of_int (dr_fromBlock l)) (js_of_int (max (dr_toBlock l) (dr_toBlock r))) (dr_resolution r) (Num (max (dr_at l) (dr_at r))) = Inr d"
      "label_ok d" "dr_fromBlock d = dr_fromBlock l" "dr_toBlock d = max (dr_toBlock l) (dr_toBlock r)" "dr_resolution d = dr_resolution r"
    proof -
      have "0 \<le> dr_fromBlock l" "dr_fromBlock l \<le> max (dr_toBlock l) (dr_toBlock r)" "max (dr_toBlock l) (dr_toBlock r) \<le> MAX_SAFE_INTEGER"
        "0 \<le> max (dr_at l) (dr_at r)" using l by (auto simp: label_ok_def)
      from downsample_ok [OF this, of "dr_resolution r"] that show thesis by blast
    qed
    have step: "join_labels out (r # rs) = join_labels (o' @ [d]) rs" using True d(1) by (simp add: out rbind_def)
    have "\<exists>ds. join_labels (o' @ [d]) rs = Inr ds \<and> (\<forall>d \<in> set ds. label_ok d) \<and> sorted_wrt parted ds \<and> (\<forall>n. labels ds n = labels ((o' @ [d]) @ rs) n)"
    proof (rule Cons.IH)
      show "\<forall>r \<in> set ((o' @ [d]) @ rs). label_ok r" using Cons.prems(1) d(2) out by auto
      show "sorted_wrt parted (o' @ [d])" 
      proof -
        have "sorted_wrt parted o'" "\<forall>x \<in> set o'. parted x l" using Cons.prems(2) by (simp_all add: out sorted_wrt_append)
        moreover from this(2) have "\<forall>x \<in> set o'. parted x d" using d(3,5) lr(1) by (simp add: parted_def)
        ultimately show ?thesis by (simp add: sorted_wrt_append)
      qed
      show "sorted_wrt later rs" using Cons.prems(3) by simp
      show "o' @ [d] = [] \<or> (\<forall>r \<in> set rs. later (last (o' @ [d])) r)"
        using Cons.prems(4) d(3,5) lr(1) by (auto simp: out later_def)
    qed
    moreover have "labels ((o' @ [d]) @ rs) n = labels (out @ r # rs) n" for n
      using d(3-5) lr l by (auto simp: out covers_def label_ok_def)
    ultimately show ?thesis unfolding step by auto
  next
    case False
    have r: "label_ok r" using Cons.prems(1) by simp
    have step: "join_labels out (r # rs) = join_labels (out @ [r]) rs" by (simp add: False)
    have p: "parted x r" if x: "x \<in> set out" for x
    proof -
      obtain o' l where out: "out = o' @ [l]" using x by (metis append_butlast_last_id empty_iff list.set(1))
      have l: "label_ok l" using Cons.prems(1) out by simp
      then have j: "jadd (dr_toBlock l) 1 = dr_toBlock l + 1" by (auto simp: label_ok_def MAX_SAFE_INTEGER_def intro!: jadd_exact)
      have lr: "later l r" using Cons.prems(4) out by simp
      then have "parted l r" using False j by (auto simp: out parted_def later_def)
      moreover have "x = l \<or> parted x l" using x Cons.prems(2) by (auto simp: out sorted_wrt_append)
      ultimately show ?thesis using lr l by (auto simp: parted_def later_def label_ok_def)
    qed
    have "\<exists>ds. join_labels (out @ [r]) rs = Inr ds \<and> (\<forall>d \<in> set ds. label_ok d) \<and> sorted_wrt parted ds \<and> (\<forall>n. labels ds n = labels ((out @ [r]) @ rs) n)"
      by (rule Cons.IH) (use Cons.prems p in \<open>auto simp: sorted_wrt_append\<close>)
    then show ?thesis unfolding step by simp
  qed
qed

lemma by_rung_later: "by_rung a b \<le> 0 \<Longrightarrow> later a b"
  by (auto simp: by_rung_def later_def js_or_le)

lemma later_sorted: "sorted_wrt later (js_sort by_rung xs)"
proof -
  have "compares by_rung (set xs)" unfolding by_rung_def by (intro compares_or compares_key)
  then have "sorted_wrt (\<lambda>a b. by_rung a b \<le> 0) (js_sort by_rung xs)" by (rule sorted_js_sort)
  then show ?thesis by (rule sorted_wrt_mono_rel [rotated]) (rule by_rung_later)
qed

definition one_label :: "downsampled_range list \<Rightarrow> bool" where
  "one_label ds \<longleftrightarrow> (\<forall>n. \<forall>p \<in> labels ds n. \<forall>q \<in> labels ds n. p = q)"

lemma coarsest_label:
  assumes "\<forall>p \<in> L. \<forall>q \<in> L. p = (q :: coarse)"
  shows "coarsest (insert c L) = {q \<in> L. rank q > rank c} \<union> (if \<exists>q \<in> L. rank q > rank c then {} else {c})"
proof (cases "L = {}")
  case True then show ?thesis by (auto simp: coarsest_def)
next
  case False
  then obtain q where "L = {q}" using assms by blast
  then show ?thesis by (auto simp: coarsest_def)
qed

text \<open>Ranges that are apart as labels are disjoint, and sorting by blocks puts them in order.\<close>

lemma labels_in_order:
  assumes ok: "\<forall>d \<in> set ds. label_ok d" and p: "sorted_wrt parted ds" and one: "one_label ds"
  shows "sorted_wrt (\<lambda>a b. dr_toBlock a < dr_fromBlock b \<and> (dr_resolution a = dr_resolution b \<longrightarrow> dr_toBlock a + 1 < dr_fromBlock b)) (js_sort by_blocks ds)"
proof -
  define ap where "ap a b \<longleftrightarrow> (dr_resolution a = dr_resolution b \<longrightarrow> dr_toBlock a + 1 < dr_fromBlock b \<or> dr_toBlock b + 1 < dr_fromBlock a)" for a b :: downsampled_range
  have "sorted_wrt ap ds" using p by (rule sorted_wrt_mono_rel [rotated]) (auto simp: ap_def parted_def)
  then have "sorted_wrt ap (js_sort by_blocks ds)" by (rule sorted_wrt_permuted [rotated 2]) (auto simp: ap_def)
  moreover have "compares by_blocks (set ds)" unfolding by_blocks_def by (intro compares_or compares_key)
  then have "sorted_wrt (\<lambda>a b. by_blocks a b \<le> 0) (js_sort by_blocks ds)" by (rule sorted_js_sort)
  ultimately have "sorted_wrt (\<lambda>a b. ap a b \<and> by_blocks a b \<le> 0) (js_sort by_blocks ds)" by (simp add: sorted_wrt_iff_nth_less)
  then show ?thesis
  proof (rule sorted_wrt_mono_rel [rotated])
    fix a b assume ab: "a \<in> set (js_sort by_blocks ds)" "b \<in> set (js_sort by_blocks ds)" and h: "ap a b \<and> by_blocks a b \<le> 0"
    then have m: "label_ok a" "label_ok b" "dr_fromBlock a \<le> dr_fromBlock b" using ok by (auto simp: by_blocks_def js_or_le)
    have "dr_toBlock a < dr_fromBlock b"
    proof (rule ccontr)
      assume "\<not> dr_toBlock a < dr_fromBlock b"
      then have "dr_resolution a \<in> labels ds (dr_fromBlock b)" "dr_resolution b \<in> labels ds (dr_fromBlock b)"
        using ab m by (auto simp: labels_def covers_def label_ok_def)
      then have "dr_resolution a = dr_resolution b" using one unfolding one_label_def by blast
      then show False using h m \<open>\<not> dr_toBlock a < dr_fromBlock b\<close> by (auto simp: ap_def label_ok_def)
    qed
    then show "dr_toBlock a < dr_fromBlock b \<and> (dr_resolution a = dr_resolution b \<longrightarrow> dr_toBlock a + 1 < dr_fromBlock b)"
      using h m by (auto simp: ap_def label_ok_def)
  qed
qed

text \<open>C40
  Eviction never hides or promotes a block: recording a downsampled range gives every block it
  covers the coarser of its label and the old one, leaves every other label as it was, loses none,
  and keeps the stored list in block order with one label per block and neighbours of one resolution
  joined.
\<close>

theorem mergeDownsampled_labels:
  assumes "\<forall>r \<in> set (incoming # existing). label_ok r" "one_label existing"
  shows "\<exists>out. mergeDownsampled existing incoming = Inr out \<and> (\<forall>r \<in> set out. label_ok r) \<and> one_label out \<and>
    sorted_wrt (\<lambda>a b. dr_toBlock a < dr_fromBlock b \<and> (dr_resolution a = dr_resolution b \<longrightarrow> dr_toBlock a + 1 < dr_fromBlock b)) out \<and>
    (\<forall>n. labels out n = (if covers incoming n then coarsest (insert (dr_resolution incoming) (labels existing n)) else labels existing n))"
proof -
  have ok: "label_ok incoming" "\<forall>r \<in> set existing. label_ok r" using assms(1) by auto
  obtain ks where ks: "kept_ranges existing incoming = Inr ks" "\<forall>k \<in> set ks. label_ok k"
    "\<forall>n. labels ks n = dr_resolution ` {r \<in> set existing. covers r n \<and> (coarser r incoming \<or> \<not> covers incoming n)}"
    using kept_ok [OF ok(2,1)] by blast
  obtain ps where ps: "incoming_pieces incoming existing [incoming] = Inr ps" "\<forall>p \<in> set ps. label_ok p"
    "\<forall>n. labels ps n = (if \<exists>r \<in> set existing. coarser r incoming \<and> covers r n then {} else labels [incoming] n)"
    using pieces_ok [OF ok(2), of "[incoming]" incoming] ok(1) by auto
  let ?all = "ks @ ps"
  have f: "filter (\<lambda>r. dr_fromBlock r \<le> dr_toBlock r) ?all = ?all" using ks(2) ps(2) by (auto simp: filter_id_conv label_ok_def)
  obtain ds where ds: "join_labels [] (js_sort by_rung ?all) = Inr ds" "\<forall>d \<in> set ds. label_ok d" "sorted_wrt parted ds"
    "\<forall>n. labels ds n = labels (js_sort by_rung ?all) n"
    using join_labels_ok [of "[]" "js_sort by_rung ?all"] later_sorted [of ?all] ks(2) ps(2) by auto
  have lab: "labels ds n = (if covers incoming n then coarsest (insert (dr_resolution incoming) (labels existing n)) else labels existing n)" for n
  proof -
    have "labels ds n = labels ks n \<union> labels ps n" using ds(4) labels_set [of "js_sort by_rung ?all" ?all] by simp
    moreover have "coarsest (insert (dr_resolution incoming) (labels existing n)) =
        {q \<in> labels existing n. rank q > rank (dr_resolution incoming)} \<union>
        (if \<exists>q \<in> labels existing n. rank q > rank (dr_resolution incoming) then {} else {dr_resolution incoming})"
      by (rule coarsest_label) (use assms(2) in \<open>simp add: one_label_def\<close>)
    moreover have "(\<exists>q \<in> labels existing n. rank q > rank (dr_resolution incoming)) = (\<exists>r \<in> set existing. coarser r incoming \<and> covers r n)"
      by (auto simp: labels_def coarser_def)
    moreover have "labels ks n = (if covers incoming n then {q \<in> labels existing n. rank q > rank (dr_resolution incoming)} else labels existing n)"
      using ks(3) by (auto simp: labels_def coarser_def)
    ultimately show ?thesis using ps(3) by auto
  qed
  have "one_label ds"
    unfolding one_label_def lab using assms(2) by (auto simp: one_label_def coarsest_def)
  note sorted = labels_in_order [OF ds(2,3) this]
  have "mergeDownsampled existing incoming = Inr (js_sort by_blocks ds)"
    using ks(1) ps(1) ds(1) by (simp add: mergeDownsampled_def rbind_def f del: filter_append)
  moreover have "labels (js_sort by_blocks ds) n = labels ds n" for n by (rule labels_set) simp
  ultimately show ?thesis using ds(2) lab sorted \<open>one_label ds\<close> by (intro exI [of _ "js_sort by_blocks ds"]) (simp add: one_label_def)
qed

definition sample_label :: "int \<Rightarrow> int \<Rightarrow> coarse \<Rightarrow> downsampled_range" where
  "sample_label f t c = \<lparr> dr_fromBlock = f, dr_toBlock = t, dr_resolution = c, dr_reason = Raw, dr_at = 0 \<rparr>"

theorem mergeDownsampled_labels_witness:
  "\<exists>out. mergeDownsampled [sample_label 100 199 Candles1h, sample_label 200 299 Candles1d] (sample_label 150 250 Candles4h) = Inr out \<and>
     labels out 120 = {Candles1h} \<and> labels out 180 = {Candles4h} \<and> labels out 220 = {Candles1d} \<and> labels out 260 = {Candles1d}"
proof -
  let ?e = "[sample_label 100 199 Candles1h, sample_label 200 299 Candles1d]"
  have "\<forall>r \<in> set (sample_label 150 250 Candles4h # ?e). label_ok r" by (simp add: sample_label_def label_ok_def MAX_SAFE_INTEGER_def)
  moreover have "one_label ?e" by (auto simp: one_label_def sample_label_def covers_def)
  ultimately show ?thesis
    using mergeDownsampled_labels [of "sample_label 150 250 Candles4h" ?e]
    by (auto simp: sample_label_def covers_def coarsest_def)
qed

end
