(* ===== verification/Spec2Isabelle.thy ===== *)
theory Spec2Isabelle
  imports Quote Redemption Twap Ledger_Claims Decide Compat Tx_Fees Local_Coverage Guardian_Mirror Intent_Clamp Local_Candles
begin

text \<open>
  \<^bold>\<open>Bleavit\<close> is a futarchy: proposals are decided by conditional markets. Its TypeScript
  client prices trades, explains the protocol and prepares transactions that a user signs.
  This development models the parts of that code that compute or decide something.

  \<^bold>\<open>How the parts interact.\<close> The market kernel (\<open>app/packages/protocol/src\<close>) quotes a
  trade from a book: the quote converts base units to 64.64 fixed point, prices with LMSR
  over the exponential and logarithm kernels, and rounds against the trader; the TWAP
  accumulator averages the prices a proposal is judged by, and the redemption fee is taken
  when a settled position is paid out. The explainer's protocol engine
  (\<open>explainer/src/protocol\<close>) is the conditional ledger that mints and pays those
  positions, the table of proposal states, and the decision rule that turns market prices
  into one of its transitions. The transaction builder
  (\<open>app/packages/transaction-builder/src\<close>) is what stands between a form and a signer: the
  compatibility verdict of a runtime (\<open>descriptors\<close>), the provenance of each value
  (\<open>shared-types\<close>, \<open>chain-client\<close>), the table of preconditions of each call, the
  wrappers that change whose account is read, the gate and the session machine, and the fee,
  era and nonce computed from a passed gate. The guardian console
  (\<open>app/src/features/tx/src/guardian.ts\<close>) predicts what the council pallet will refuse, so
  the council's Rust core is modelled beside it and the two are compared. A trade may also
  start from a request document another program wrote: the handoff envelope
  (\<open>handoff-envelope/src\<close>) fixes its canonical text and digest, and the intents package
  (\<open>intents/src\<close>) admits it and narrows its limits. The local index
  (\<open>local-index/src\<close>) records which blocks were read from which source, and folds
  prices into candles under a retention ladder.

  \<^bold>\<open>Theories and sources.\<close>
  \<^item> \<open>Bleavit_Prelude\<close>: results of fallible code, rounding and list lemmas, the
    collections \<open>result_simps\<close> and \<open>kernel_bounds\<close>. \<open>Protocol_Errors\<close>: \<open>errors.ts\<close>.
  \<^item> \<open>Fixed_Kernel\<close>, \<open>Fixed_Accuracy\<close>: \<open>fixed.ts\<close>; a BigInt is an \<open>int\<close> with
    the source's width checks. The accuracy theory bounds exp2, exp2Negative and log2.
  \<^item> \<open>Lmsr\<close>: \<open>lmsr.ts\<close>; the locale \<open>pricing_kernel\<close> states what pricing needs of the
    exponential and the softened logarithm and is interpreted on the kernels.
  \<^item> \<open>Quote\<close>: \<open>quote.ts\<close>. \<open>Fee_Contract\<close>: the locale \<open>fee_schedule\<close> of a waived
    and rounded fee, interpreted in \<open>Redemption\<close> (\<open>redemption.ts\<close>) and for the
    ledger's fee in \<open>Ledger_Claims\<close>.
  \<^item> \<open>Twap\<close>: \<open>twap.ts\<close>; the locale \<open>grid_power\<close> is interpreted for the power
    rounded up and rounded down.
  \<^item> \<open>Js_Number\<close>, \<open>Js_Arith\<close>: the IEEE doubles of the explainer, as NaN, the
    infinities and rounded reals, exact on safe integers. \<open>Explainer_Types\<close>:
    \<open>types.ts\<close>, \<open>units.ts\<close>, \<open>constants.ts\<close>.
  \<^item> \<open>Ledger\<close>, \<open>Ledger_Claims\<close>: \<open>ledger.ts\<close>; the vault record, each call, and
    the abstract ledger of claims that the calls refine.
  \<^item> \<open>Lifecycle\<close>, \<open>Sizing\<close>, \<open>Decide\<close>: \<open>lifecycle.ts\<close>, \<open>treasury.ts\<close>,
    \<open>decide.ts\<close>; one definition per step of the decision, composed as the source does.
  \<^item> \<open>Provenance\<close>: \<open>shared-types/src/provenance.ts\<close>, \<open>derive.ts\<close>,
    \<open>chain-client/src/provenance.ts\<close>. \<open>Compat\<close>: \<open>descriptors/src/probe.ts\<close>,
    \<open>compat.ts\<close>, \<open>foreign.ts\<close>, \<open>spec-versions.ts\<close>.
  \<^item> \<open>Tx_Multisig\<close>, \<open>Tx_Wrappers\<close>, \<open>Tx_Rows\<close>, \<open>Tx_Machine\<close>, \<open>Tx_Fees\<close>:
    \<open>multisig.ts\<close>; \<open>wrappers.ts\<close>; \<open>rows.ts\<close>, \<open>governance-rows.ts\<close> and
    \<open>fee-asset.ts\<close>; \<open>machine.ts\<close> and \<open>preconditions.ts\<close>; \<open>fees.ts\<close> and
    \<open>conviction.ts\<close>. The locale \<open>obligation_table\<close> is what the gate needs of the
    tables, interpreted on them.
  \<^item> \<open>Js_Value\<close>: the values, strings and stable sort of JavaScript the remaining parts
    use. \<open>Local_Coverage\<close>, \<open>Local_Candles\<close>: \<open>local-index/src/coverage.ts\<close>,
    \<open>candles.ts\<close>.
  \<^item> \<open>Guardian_Core\<close>: \<open>crates/guardian-core/src/lib.rs\<close>, the council as a state with
    one operation per extrinsic. \<open>Guardian\<close>: the console. \<open>Guardian_Mirror\<close>: the
    checks of an approval in \<open>pallets/guardian/src/lib.rs\<close>, up to the effect dispatcher, the
    runtime's status of a proposal, and the comparison of the two sides.
  \<^item> \<open>Json_Text\<close>: UTF-16 strings, their UTF-8 bytes, JSON printing and parsing as the
    standard library does them. \<open>Handoff_Envelope\<close>: \<open>canonical.ts\<close>, \<open>binding.ts\<close>,
    \<open>refusals.ts\<close>. \<open>Intent_Admission\<close>, \<open>Intent_Requests\<close>, \<open>Intent_Clamp\<close>:
    \<open>intents/src/admission.ts\<close> and \<open>clamp.ts\<close>, with the requests of the format as a
    datatype of their own.

  \<^bold>\<open>What the lemmas show.\<close> The kernels are total on their domains, monotone and within
  stated ulps; the LMSR cost is enclosed, path independent and leaves the maker solvent; a
  quote charges up, pays down and never profits a round trip. The ledger conserves escrow in
  every reachable vault, refines a ledger of claims, pays each holding by its row of the
  redemption table, refuses exactly what its state forbids and drains when voided. The decision adopts exactly when all its checks pass, a gate veto
  is final, the trace explains the outcome, and the outcome is an edge of the lifecycle,
  whose walks to execution pass the guard. In the builder, combining values never promotes
  their provenance, an unprobed surface is never a passing one, every declared row demands
  each of its clauses, and a session reaches the signer only with a window that certifies
  every obligation of its own preparation at one block. An approval the console offers passes
  the chain's checks in the next block, what it refuses as a verdict the chain refuses in every
  later block where what it read still holds (and a lasting verdict in every later block), no
  action is dispatched without five seated members and no action id is given twice. Canonical
  text and values
  determine each other, an admitted document is exactly a request it states whole, every
  request of the format is admitted, and clamping only narrows. Recording coverage adds to
  the claims of its own source only, a repair keeps the sound parts and reports every other,
  the holes are the uncovered blocks, verification drops only what an answer contradicts; rolling candles up yields what folding the lost
  observations would have, merging two bars yields the bar of both, and an evicted block
  keeps its coarsest label.

  \<^bold>\<open>Bounds and recursion.\<close> No fuel is used: loops over digits, windows and lists are
  structural or have measures, and the binary search of \<open>firstChargedGross\<close> terminates by
  its interval. Words are the bytes of multisig keys and of UTF-8 text; everywhere else
  the source uses unbounded integers with explicit ceilings, or doubles. Safe-integer bounds
  of the ledger and of block numbers and times are hypotheses where they matter, as is the
  nesting depth a document may have.

  \<^bold>\<open>Parameters.\<close> Code outside the repository is an argument: the blake2b hash of a multisig
  account, the compatibility object of the chain SDK, the reads of a batch of preconditions,
  the rendering of a value as text, the entry the chain stores after an approval (with
  the documented law \<open>records_approvals\<close>), the platform's digest of bytes (which may throw),
  and the collation of \<open>localeCompare\<close>.

  \<^bold>\<open>Not modelled.\<close> Texts of errors, labels and citations (each becomes a constructor);
  asynchronous input and output (the light client, the local index store and ingest loop,
  wallet extensions); the explainer's floating-point market and welfare engines, which use
  transcendental functions of the platform; scenes and screens; the providers of third-party
  data, the outbound exports and the release checks; and, beyond the council, the Rust
  runtime, node and tools. Of the pallet's approval that is what follows its checks: the effect
  dispatcher, the bounds of storage and the fronting of review deposits, each of which can
  still refuse the call.
\<close>

end
